(* ===== verification/Prelude.thy ===== *)
theory Prelude
  imports Main "HOL-Library.Word" "HOL-Library.Monad_Syntax"
begin

text \<open>
  Shared vocabulary of the development: the C integer types as words, byte-addressed
  memory with little-endian reads and writes, arrays as functions from an index, and the
  generic lemmas on lists and words the components use.

  The C types \<open>uint8_t\<close>, \<open>uint16_t\<close>, \<open>uint32_t\<close> and \<open>uint64_t\<close> are the words of the
  same width; \<open>int32_t\<close> is a 32-bit word read with \<open>sint\<close>. A pointer is the 64-bit
  word of its address; the null pointer is 0.
\<close>

unbundle bit_operations_syntax

type_synonym u8 = "8 word"
type_synonym u16 = "16 word"
type_synonym u32 = "32 word"
type_synonym u64 = "64 word"

text \<open>Byte-addressed memory and the little-endian reads the kernel's struct accesses compile to.\<close>

type_synonym mem = "u64 \<Rightarrow> u8"

definition read16 :: "mem \<Rightarrow> u64 \<Rightarrow> u16" where
  "read16 m a = ucast (m a) OR push_bit 8 (ucast (m (a + 1)))"

definition read32 :: "mem \<Rightarrow> u64 \<Rightarrow> u32" where
  "read32 m a = ucast (read16 m a) OR push_bit 16 (ucast (read16 m (a + 2)))"

definition read64 :: "mem \<Rightarrow> u64 \<Rightarrow> u64" where
  "read64 m a = ucast (read32 m a) OR push_bit 32 (ucast (read32 m (a + 4)))"

text \<open>Fields of 16 and 32 bits as the processor stores them.\<close>

definition bytes16 :: "u16 \<Rightarrow> u8 list" where
  "bytes16 w = [ucast w, ucast (drop_bit 8 w)]"

definition bytes32 :: "u32 \<Rightarrow> u8 list" where
  "bytes32 w = [ucast w, ucast (drop_bit 8 w), ucast (drop_bit 16 w), ucast (drop_bit 24 w)]"

definition le16 :: "u8 \<Rightarrow> u8 \<Rightarrow> u16" where
  "le16 a b = ucast a OR push_bit 8 (ucast b)"

text \<open>
  \<open>inv_pres\<close> collects the invariant-preservation lemmas of the components, \<open>op_simps\<close> the
  equations that unfold an operation on its branches.
\<close>

named_theorems inv_pres
named_theorems op_simps

subsection \<open>Lists\<close>

lemma distinct_map_snoc [simp]:
  "distinct (map f (xs @ [x])) \<longleftrightarrow> distinct (map f xs) \<and> f x \<notin> f ` set xs"
  by auto

lemma upt_nat_plus1: "(0::int) \<le> k + 1 \<Longrightarrow> [0..<nat (k + 2)] = [0..<nat (k + 1)] @ [nat (k + 1)]"
proof -
  assume "0 \<le> k + 1"
  then have "nat (k + 2) = Suc (nat (k + 1))" by simp
  then show ?thesis by simp
qed

lemma length_distinct_bounded:
  assumes "distinct xs" and "\<forall>x \<in> set xs. x < (n::nat)"
  shows "length xs \<le> n"
proof -
  have "set xs \<subseteq> {..<n}" using assms(2) by auto
  then have "card (set xs) \<le> n" using card_mono [of "{..<n}" "set xs"] by simp
  then show ?thesis using assms(1) by (simp add: distinct_card)
qed

subsection \<open>Words\<close>

lemma unat_eq_iff: "unat (a::'a::len word) = unat b \<longleftrightarrow> a = b"
  by (simp add: word_unat_eq_iff)

lemma unat_add_le: "unat (a + b :: 'a::len word) \<le> unat a + unat b"
  by (simp add: unat_word_ariths)

lemma word_of_natI: "unat (w::'a::len word) = n \<Longrightarrow> w = word_of_nat n"
  by auto

text \<open>The low bits of a 64-bit word and the rest.\<close>

lemma unat_low: "unat (w AND mask n :: u64) = unat w mod 2 ^ n"
  by (simp only: take_bit_eq_mask [symmetric] unsigned_take_bit_eq) (simp only: take_bit_eq_mod)

lemma word_split_low: "(w AND NOT (mask n)) + (w AND mask n) = (w :: u64)"
proof -
  have "(w AND NOT (mask n)) + (w AND mask n) = (w AND NOT (mask n)) OR (w AND mask n)"
    using word_plus_and_or [of "w AND NOT (mask n)" "w AND mask n"] by (simp add: ac_simps)
  also have "\<dots> = w" by (rule bit_word_eqI) (auto simp: bit_simps)
  finally show ?thesis .
qed

lemma unat_high: "unat (w AND NOT (mask n) :: u64) = unat w div 2 ^ n * 2 ^ n"
proof -
  have "w AND NOT (mask n) = w - (w AND mask n)" using word_split_low [of w n] by (simp only: eq_diff_eq)
  moreover have "w AND mask n \<le> w" unfolding word_le_nat_alt unat_low by simp
  ultimately have "unat (w AND NOT (mask n)) = unat w - unat w mod 2 ^ n"
    unfolding unat_low [symmetric] by (simp only: unat_sub)
  then show ?thesis by (simp only: minus_mod_eq_div_mult)
qed

lemma one_bit_test:
  "(w AND push_bit n 1 \<noteq> 0) \<longleftrightarrow> bit (w::'a::len word) n"
proof
  assume "w AND push_bit n 1 \<noteq> 0"
  then obtain k where "bit (w AND push_bit n 1) k" by (auto simp: bit_eq_iff)
  then show "bit w n" by (auto simp: bit_simps)
next
  assume b: "bit w n"
  then have "n < LENGTH('a)" by (rule bit_imp_le_length)
  with b have "bit (w AND push_bit n 1) n" by (simp add: bit_simps)
  then show "w AND push_bit n 1 \<noteq> 0" by (metis bit_0_eq bot_apply bot_bool_def)
qed

lemma unat_le_mono: "a \<le> (b::'a::len word) \<Longrightarrow> unat a \<le> unat b"
  by (simp add: word_le_nat_alt)

lemma of_nat_unat_less: "i < unat (w::'a::len word) \<Longrightarrow> unat (word_of_nat i :: 'a word) = i"
  using le_unat_uoi [of i w] by simp

subsection \<open>Signed 32-bit sums\<close>

lemma sint_range32: "- (2 ^ 31) \<le> sint (a :: 32 word)" "sint (a :: 32 word) < 2 ^ 31"
  using sint_ge [of a] sint_lt [of a] by simp_all

lemma sint_plus:
  fixes a b :: "32 word"
  assumes "- (2 ^ 31) \<le> sint a + sint b" "sint a + sint b < 2 ^ 31"
  shows "sint (a + b) = sint a + sint b"
  using assms by (simp add: sint_word_ariths signed_take_bit_int_eq_self)

lemma sint_minus:
  fixes a b :: "32 word"
  assumes "- (2 ^ 31) \<le> sint a - sint b" "sint a - sint b < 2 ^ 31"
  shows "sint (a - b) = sint a - sint b"
  using assms by (simp add: sint_word_ariths signed_take_bit_int_eq_self)

lemma sint_of_nat32: "n < 2 ^ 31 \<Longrightarrow> sint (word_of_nat n :: 32 word) = int n"
  by (simp add: sint_uint unsigned_of_nat take_bit_nat_eq_self signed_take_bit_int_eq_self)

lemma unat_scast32: "0 \<le> sint (a :: 32 word) \<Longrightarrow> unat (scast a :: 64 word) = nat (sint a)"
proof -
  assume "0 \<le> sint a"
  then have "uint (scast a :: 64 word) = sint a"
    using sint_range32(2) [of a] unfolding scast_eq unsigned_of_int by (simp add: take_bit_int_eq_self)
  then have "nat (uint (scast a :: 64 word)) = nat (sint a)" by (rule arg_cong)
  then show ?thesis unfolding nat_uint_eq .
qed

lemma unat_sint32: "0 \<le> sint (a :: 32 word) \<Longrightarrow> int (unat a) = sint a"
proof -
  assume "0 \<le> sint a"
  then have "uint a = sint a"
    using sint_range32(2) [of a] by (simp add: uint_sint take_bit_int_eq_self)
  then show ?thesis by (simp only: uint_nat)
qed

subsection \<open>Array writes in loops\<close>

lemma fold_nested:
  "fold (\<lambda>i. fold (g i) ys) xs = fold (\<lambda>(i, j). g i j) (List.product xs ys)"
proof (rule ext)
  fix s
  show "fold (\<lambda>i. fold (g i) ys) xs s = fold (\<lambda>(i, j). g i j) (List.product xs ys) s"
    by (induction xs arbitrary: s) (simp_all add: fold_map o_def)
qed

lemma fold_writes:
  assumes "\<And>k. k \<in> set xs \<Longrightarrow> a k = p \<Longrightarrow> v k = c"
  shows "fold (\<lambda>k f. f(a k := v k)) xs f p = (if p \<in> a ` set xs then c else f p)"
  using assms
proof (induction xs rule: rev_induct)
  case (snoc x xs)
  then show ?case by auto
qed simp

text \<open>Two words are equal when a computation shows that all their bits are.\<close>

lemma bit_word_eq_upt:
  fixes v w :: "'a::len word"
  assumes "list_all (\<lambda>n. bit v n = bit w n) [0..<LENGTH('a)]" shows "v = w"
  using assms by (intro bit_word_eqI) (simp add: list_all_iff)

lemma le16_bytes16: "le16 (ucast w) (ucast (drop_bit 8 w)) = w"
  by (rule bit_word_eqI) (auto simp: le16_def bit_simps)

lemma length_bytes16 [simp]: "length (bytes16 w) = 2"
  by (simp add: bytes16_def)

lemma length_bytes32 [simp]: "length (bytes32 w) = 4"
  by (simp add: bytes32_def)

end
