(* ===== verification/Interfaces.thy ===== *)
theory Interfaces
  imports Prelude
begin

text \<open>
  The contracts between components, as locales: what a provider's operations promise of an
  abstract state, and what every client may conclude from the promises alone. The theories
  of the providers interpret them on the model's own definitions.
\<close>

subsection \<open>Frame allocator: provided by pmm.c, used by vmm.c, kmalloc.c, elf.c and idt.c\<close>

locale frame_allocator =
  fixes alloc :: "'s \<Rightarrow> 'f option \<times> 's"
    and free_set :: "'s \<Rightarrow> 'f set"
    and inv :: "'s \<Rightarrow> bool"
  assumes alloc_none: "inv s \<Longrightarrow> alloc s = (None, s') \<Longrightarrow> free_set s = {} \<and> s' = s"
    and alloc_some: "inv s \<Longrightarrow> alloc s = (Some f, s') \<Longrightarrow>
      f \<in> free_set s \<and> free_set s' = free_set s - {f} \<and> inv s'"
begin

text \<open>\<open>n\<close> allocations in a row, as loops over pages make them; failures leave \<open>None\<close>.\<close>

primrec alloc_many :: "nat \<Rightarrow> 's \<Rightarrow> 'f option list \<times> 's" where
  "alloc_many 0 s = ([], s)"
| "alloc_many (Suc n) s =
     (let (f, s') = alloc s; (fs, s'') = alloc_many n s' in (f # fs, s''))"

lemma alloc_inv: "inv s \<Longrightarrow> alloc s = (r, s') \<Longrightarrow> inv s'"
  by (cases r) (auto dest: alloc_some, metis alloc_none)

lemma alloc_free_set: "inv s \<Longrightarrow> alloc s = (r, s') \<Longrightarrow> free_set s' = free_set s - set_option r"
proof (cases r)
  case None
  assume i: "inv s" and a: "alloc s = (r, s')"
  from alloc_none [OF i, of s'] a None have "free_set s = {}" and "s' = s" by blast+
  with None show ?thesis by simp
next
  case (Some f)
  assume "inv s" and "alloc s = (r, s')"
  with Some show ?thesis using alloc_some [of s f s'] by simp
qed

lemma alloc_many_inv: "inv s \<Longrightarrow> alloc_many n s = (fs, s') \<Longrightarrow> inv s'"
proof (induction n arbitrary: s fs)
  case (Suc n)
  then show ?case by (auto simp: Let_def split: prod.splits dest: alloc_inv)
qed simp

lemma alloc_many_free_set:
  "inv s \<Longrightarrow> alloc_many n s = (fs, s') \<Longrightarrow> free_set s' = free_set s - {f. Some f \<in> set fs}"
proof (induction n arbitrary: s fs)
  case (Suc n)
  from Suc.prems obtain r s1 fs' where a: "alloc s = (r, s1)" and m: "alloc_many n s1 = (fs', s')"
    and fs: "fs = r # fs'" by (auto simp: Let_def split: prod.splits)
  have "free_set s' = free_set s1 - {f. Some f \<in> set fs'}"
    using Suc.IH [OF alloc_inv [OF Suc.prems(1) a] m] .
  then show ?case using alloc_free_set [OF Suc.prems(1) a] fs by auto
qed simp

text \<open>Frames handed out in one run were all free at its start, and no frame is handed out twice.\<close>

lemma alloc_many_subset:
  "inv s \<Longrightarrow> alloc_many n s = (fs, s') \<Longrightarrow> Some f \<in> set fs \<Longrightarrow> f \<in> free_set s"
proof (induction n arbitrary: s fs)
  case (Suc n)
  from Suc.prems obtain r s1 fs' where a: "alloc s = (r, s1)" and m: "alloc_many n s1 = (fs', s')"
    and fs: "fs = r # fs'" by (auto simp: Let_def split: prod.splits)
  then show ?case
    using Suc.IH [OF alloc_inv [OF Suc.prems(1) a] m] alloc_free_set [OF Suc.prems(1) a]
      alloc_some [OF Suc.prems(1)] Suc.prems(3) by auto
qed simp

lemma alloc_many_distinct:
  "inv s \<Longrightarrow> alloc_many n s = (fs, s') \<Longrightarrow> distinct (filter (\<lambda>r. r \<noteq> None) fs)"
proof (induction n arbitrary: s fs)
  case (Suc n)
  from Suc.prems obtain r s1 fs' where a: "alloc s = (r, s1)" and m: "alloc_many n s1 = (fs', s')"
    and fs: "fs = r # fs'" by (auto simp: Let_def split: prod.splits)
  have i: "inv s1" by (rule alloc_inv [OF Suc.prems(1) a])
  have "r = Some f \<Longrightarrow> r \<notin> set fs'" for f
    using alloc_many_subset [OF i m, of f] alloc_free_set [OF Suc.prems(1) a] by auto
  then show ?case using Suc.IH [OF i m] fs by auto
qed simp

end

subsection \<open>Heap: provided by kmalloc.c, used by task.c, window.c, tar.c and vfs.c\<close>

text \<open>
  \<open>live\<close> holds the address and size of every payload handed out and not yet returned. A
  request of size \<open>n\<close> either answers \<open>null\<close> and changes nothing of it, or adds one payload of
  at least \<open>bytes n\<close> bytes; returning a live pointer removes exactly that payload.
\<close>

locale heap_allocator =
  fixes malloc :: "'n \<Rightarrow> 's \<Rightarrow> ('p \<times> 's) option"
    and give_back :: "'p \<Rightarrow> 's \<Rightarrow> 's option"
    and null :: 'p
    and addr :: "'p \<Rightarrow> nat"
    and bytes :: "'n \<Rightarrow> nat"
    and live :: "'s \<Rightarrow> (nat \<times> nat) set"
    and inv :: "'s \<Rightarrow> bool"
  assumes malloc_total: "inv s \<Longrightarrow> \<exists>p s'. malloc n s = Some (p, s')"
    and malloc_null: "inv s \<Longrightarrow> malloc n s = Some (null, s') \<Longrightarrow> inv s' \<and> live s' = live s"
    and malloc_live: "inv s \<Longrightarrow> malloc n s = Some (p, s') \<Longrightarrow> p \<noteq> null \<Longrightarrow>
      inv s' \<and> (\<exists>k \<ge> bytes n. (addr p, k) \<notin> live s \<and> live s' = insert (addr p, k) (live s))"
    and live_apart: "inv s \<Longrightarrow> (a, k) \<in> live s \<Longrightarrow> (b, j) \<in> live s \<Longrightarrow> (a, k) \<noteq> (b, j) \<Longrightarrow>
      a + k < b \<or> b + j < a"
    and give_back_live: "inv s \<Longrightarrow> (addr p, k) \<in> live s \<Longrightarrow>
      \<exists>s'. give_back p s = Some s' \<and> inv s' \<and> live s' = live s - {(addr p, k)}"
    and give_back_null: "give_back null s = Some s"
begin

text \<open>Requests made one after the other, and the pointers returned one after the other.\<close>

primrec malloc_all :: "'n list \<Rightarrow> 's \<Rightarrow> ('p list \<times> 's) option" where
  "malloc_all [] s = Some ([], s)"
| "malloc_all (n # ns) s =
     do { (p, s1) \<leftarrow> malloc n s; (ps, s2) \<leftarrow> malloc_all ns s1; Some (p # ps, s2) }"

primrec give_back_all :: "'p list \<Rightarrow> 's \<Rightarrow> 's option" where
  "give_back_all [] s = Some s"
| "give_back_all (p # ps) s = do { s1 \<leftarrow> give_back p s; give_back_all ps s1 }"

lemma malloc_inv: "inv s \<Longrightarrow> malloc n s = Some (p, s') \<Longrightarrow> inv s' \<and> live s \<subseteq> live s'"
  using malloc_null [of s n s'] malloc_live [of s n p s'] by (cases "p = null") auto

text \<open>A payload handed out overlaps no payload that was live before.\<close>

lemma malloc_fresh:
  assumes "inv s" and "malloc n s = Some (p, s')" and "p \<noteq> null" and "(b, j) \<in> live s"
  shows "addr p + bytes n < b \<or> b + j < addr p"
proof -
  from malloc_live [OF assms(1-3)] obtain k where k: "inv s'" "bytes n \<le> k" "(addr p, k) \<notin> live s"
    "live s' = insert (addr p, k) (live s)" by blast
  then have "addr p + k < b \<or> b + j < addr p" using assms(4) by (intro live_apart [OF k(1)]) auto
  then show ?thesis using k(2) by auto
qed

text \<open>
  A client that returns the pointers of its requests, in any number and whether they were
  granted or not, leaves the live payloads as they were before the first request.
\<close>

lemma malloc_then_give_back:
  assumes "inv s" and "malloc n s = Some (p, s')"
  shows "\<exists>s''. give_back p s' = Some s'' \<and> inv s'' \<and> live s'' = live s"
proof (cases "p = null")
  case True
  then show ?thesis using malloc_null assms give_back_null by blast
next
  case False
  from malloc_live [OF assms False] obtain k where k: "inv s'" "(addr p, k) \<notin> live s"
    "live s' = insert (addr p, k) (live s)" by blast
  then show ?thesis using give_back_live [of s' p k] by auto
qed

lemma malloc_all_give_back_all:
  "inv s \<Longrightarrow> \<exists>ps s'. malloc_all ns s = Some (ps, s') \<and> inv s' \<and> live s \<subseteq> live s' \<and>
     (\<exists>s''. give_back_all (rev ps) s' = Some s'' \<and> inv s'' \<and> live s'' = live s)"
proof (induction ns arbitrary: s)
  case (Cons n ns)
  from malloc_total [OF Cons.prems] obtain p s1 where m: "malloc n s = Some (p, s1)" by blast
  note i = malloc_inv [OF Cons.prems m]
  from Cons.IH [of s1] i obtain ps s2 s3 where all: "malloc_all ns s1 = Some (ps, s2)" "inv s2"
    "live s1 \<subseteq> live s2" "give_back_all (rev ps) s2 = Some s3" "inv s3" "live s3 = live s1" by blast
  have snoc: "give_back_all (qs @ [p]) t = do { t' \<leftarrow> give_back_all qs t; give_back p t' }" for qs t
    by (induction qs arbitrary: t) (simp_all add: bind_assoc split: Option.bind_split)
  have "\<exists>s4. give_back p s3 = Some s4 \<and> inv s4 \<and> live s4 = live s"
  proof (cases "p = null")
    case True
    then show ?thesis using malloc_null [OF Cons.prems] m give_back_null [of s3] all(5,6) by auto
  next
    case False
    from malloc_live [OF Cons.prems m False] obtain k where k: "(addr p, k) \<notin> live s"
      "live s1 = insert (addr p, k) (live s)" by blast
    then show ?thesis using give_back_live [OF all(5), of p k] all(6) by auto
  qed
  then obtain s4 where "give_back p s3 = Some s4" "inv s4" "live s4 = live s" by blast
  then show ?case using m all i by (simp add: snoc) blast
qed simp

end

subsection \<open>FIFO queue: the runqueues of task.c and the event rings of window.c\<close>

text \<open>
  \<open>items\<close> are the queued values, the oldest first; \<open>fits x s\<close> says that \<open>x\<close> may be added.
\<close>

locale fifo =
  fixes enq :: "'x \<Rightarrow> 's \<Rightarrow> 's"
    and deq :: "'s \<Rightarrow> 'x option \<times> 's"
    and items :: "'s \<Rightarrow> 'x list"
    and inv :: "'s \<Rightarrow> bool"
    and fits :: "'x \<Rightarrow> 's \<Rightarrow> bool"
  assumes enq_items: "inv s \<Longrightarrow> fits x s \<Longrightarrow> inv (enq x s) \<and> items (enq x s) = items s @ [x]"
    and deq_none: "inv s \<Longrightarrow> items s = [] \<Longrightarrow> deq s = (None, s)"
    and deq_some: "inv s \<Longrightarrow> items s = x # xs \<Longrightarrow> \<exists>s'. deq s = (Some x, s') \<and> inv s' \<and> items s' = xs"
    and again: "inv s \<Longrightarrow> deq s = (Some x, s') \<Longrightarrow> fits x s'"
begin

text \<open>Taking \<open>n\<close> items, and one round in which the oldest item goes to the back.\<close>

primrec deq_many :: "nat \<Rightarrow> 's \<Rightarrow> 'x list \<times> 's" where
  "deq_many 0 s = ([], s)"
| "deq_many (Suc n) s =
     (case deq s of (None, s') \<Rightarrow> ([], s')
      | (Some x, s') \<Rightarrow> (let (xs, s'') = deq_many n s' in (x # xs, s'')))"

definition round :: "'s \<Rightarrow> 's" where
  "round s = (case deq s of (None, s') \<Rightarrow> s' | (Some x, s') \<Rightarrow> enq x s')"

lemma deq_cases:
  assumes "inv s"
  obtains "items s = []" "deq s = (None, s)"
  | x s' where "items s = x # items s'" "deq s = (Some x, s')" "inv s'"
  using deq_none [OF assms] deq_some [OF assms] by (cases "items s") auto

text \<open>Items leave in the order they came.\<close>

lemma deq_many_items:
  "inv s \<Longrightarrow> \<exists>s'. deq_many n s = (take n (items s), s') \<and> inv s' \<and> items s' = drop n (items s)"
proof (induction n arbitrary: s)
  case (Suc n)
  from Suc.prems show ?case
  proof (cases rule: deq_cases)
    case 1
    then show ?thesis using Suc.prems by simp
  next
    case (2 x s')
    from Suc.IH [OF 2(3)] obtain s'' where "deq_many n s' = (take n (items s'), s'')" "inv s''"
      "items s'' = drop n (items s')" by blast
    with 2 show ?thesis by simp
  qed
qed simp

lemma enq_then_deq_many:
  assumes "inv s" and "fits x s"
  shows "\<exists>s'. deq_many (length (items s) + 1) (enq x s) = (items s @ [x], s') \<and> items s' = []"
  using deq_many_items [of "enq x s" "length (items s) + 1"] enq_items [OF assms] by auto

lemma round_items:
  assumes "inv s"
  shows "inv (round s)" "items (round s) = rotate1 (items s)"
proof -
  have "inv (round s) \<and> items (round s) = rotate1 (items s)"
    using assms
  proof (cases rule: deq_cases)
    case 1
    then show ?thesis using assms by (simp add: round_def)
  next
    case (2 x s')
    then show ?thesis using enq_items [OF 2(3) again [OF assms 2(2)]] by (simp add: round_def)
  qed
  then show "inv (round s)" "items (round s) = rotate1 (items s)" by simp_all
qed

text \<open>Fairness: after \<open>n\<close> rounds the item that was at position \<open>n\<close> is the oldest.\<close>

lemma rounds_items: "inv s \<Longrightarrow> inv ((round ^^ n) s) \<and> items ((round ^^ n) s) = rotate n (items s)"
  by (induction n) (auto simp: round_items rotate_def)

lemma turn:
  assumes "inv s" and "n < length (items s)"
  shows "fst (deq ((round ^^ n) s)) = Some (items s ! n)"
proof -
  have r: "inv ((round ^^ n) s)" "items ((round ^^ n) s) = rotate n (items s)"
    using rounds_items [OF assms(1)] by simp_all
  have "rotate n (items s) = drop n (items s) @ take n (items s)"
    using assms(2) by (simp add: rotate_drop_take)
  also have "drop n (items s) = items s ! n # drop (Suc n) (items s)"
    using assms(2) by (simp add: Cons_nth_drop_Suc)
  finally have "items ((round ^^ n) s) = items s ! n # drop (Suc n) (items s) @ take n (items s)"
    using r(2) by simp
  from deq_some [OF r(1) this] show ?thesis by auto
qed

end

subsection \<open>Mutual exclusion: provided by lock.c, used by every component with shared state\<close>

text \<open>
  Processors that update shared data under a lock: a processor inside its critical section reads the
  data into a private copy and later writes back what its operation makes of the copy, and takes
  steps of the lock only while it holds no copy. \<open>finished\<close> lists the processors in the order in which
  they wrote.
\<close>

record ('s, 'd) critical =
  lock_part :: 's
  shared :: 'd
  copy_of :: "nat \<Rightarrow> 'd option"
  finished :: "nat list"

inductive critical_step ::
  "(nat \<Rightarrow> 's \<Rightarrow> 's \<Rightarrow> bool) \<Rightarrow> (nat \<Rightarrow> 's \<Rightarrow> bool) \<Rightarrow> (nat \<Rightarrow> 'd \<Rightarrow> 'd) \<Rightarrow>
   ('s, 'd) critical \<Rightarrow> ('s, 'd) critical \<Rightarrow> bool"
  for step and inside and operate where
  lock_moves: "step c (lock_part s) l \<Longrightarrow> copy_of s c = None \<Longrightarrow>
    critical_step step inside operate s (s\<lparr>lock_part := l\<rparr>)"
| reads: "inside c (lock_part s) \<Longrightarrow> copy_of s c = None \<Longrightarrow>
    critical_step step inside operate s (s\<lparr>copy_of := (copy_of s)(c := Some (shared s))\<rparr>)"
| writes: "inside c (lock_part s) \<Longrightarrow> copy_of s c = Some d \<Longrightarrow>
    critical_step step inside operate s
      (s\<lparr>shared := operate c d, copy_of := (copy_of s)(c := None), finished := finished s @ [c]\<rparr>)"

definition critical_init :: "'s \<Rightarrow> 'd \<Rightarrow> ('s, 'd) critical" where
  "critical_init l d = \<lparr>lock_part = l, shared = d, copy_of = (\<lambda>_. None), finished = []\<rparr>"

locale mutex =
  fixes step :: "nat \<Rightarrow> 's \<Rightarrow> 's \<Rightarrow> bool"
    and inside :: "nat \<Rightarrow> 's \<Rightarrow> bool"
    and inv :: "'s \<Rightarrow> bool"
  assumes step_inv: "inv s \<Longrightarrow> step c s s' \<Longrightarrow> inv s'"
    and exclusive: "inv s \<Longrightarrow> inside c s \<Longrightarrow> inside d s \<Longrightarrow> c = d"
    and frame: "step c s s' \<Longrightarrow> d \<noteq> c \<Longrightarrow> inside d s' = inside d s"
begin

text \<open>
  A private copy exists only inside the critical section and is then the shared value, so the shared
  value is always the result of whole operations one after the other.
\<close>

definition serial :: "(nat \<Rightarrow> 'd \<Rightarrow> 'd) \<Rightarrow> 'd \<Rightarrow> ('s, 'd) critical \<Rightarrow> bool" where
  "serial operate d0 s \<longleftrightarrow> inv (lock_part s) \<and> shared s = fold operate (finished s) d0 \<and>
     (\<forall>c d. copy_of s c = Some d \<longrightarrow> inside c (lock_part s) \<and> d = shared s)"

lemma serial_step:
  assumes "critical_step step inside operate s s'" and "serial operate d0 s"
  shows "serial operate d0 s'"
  using assms
proof (cases rule: critical_step.cases)
  case (lock_moves c l)
  have "inside d l" if "copy_of s d = Some v" for d v
  proof -
    have "d \<noteq> c" using that lock_moves(3) by auto
    then show ?thesis using frame [OF lock_moves(2)] that assms(2) by (auto simp: serial_def)
  qed
  then show ?thesis
    using assms(2) lock_moves step_inv [OF _ lock_moves(2)] by (auto simp: serial_def)
next
  case (reads c)
  then show ?thesis using assms(2) by (auto simp: serial_def)
next
  case (writes c d)
  have "copy_of s e = None" if "e \<noteq> c" for e
    using that assms(2) writes(2) exclusive [of "lock_part s" c e]
    by (cases "copy_of s e") (auto simp: serial_def)
  then show ?thesis using assms(2) writes by (auto simp: serial_def)
qed

lemma serial_reachable:
  assumes "(critical_step step inside operate)\<^sup>*\<^sup>* (critical_init l d0) s" and "inv l"
  shows "serial operate d0 s"
  using assms(1)
proof (induction rule: rtranclp_induct)
  case base
  then show ?case using assms(2) by (simp add: serial_def critical_init_def)
next
  case (step s s')
  then show ?case by (blast intro: serial_step)
qed

end

end
