(* ===== verification/Lock.thy ===== *)
theory Lock
  imports Interfaces
begin

text \<open>
  The spinlocks of \<open>src/kernel/lock.c\<close>. The atomic instructions of \<open>spin_lock_irqsave\<close> and
  \<open>spin_unlock_irqrestore\<close> are the steps of a relation over any number of CPUs, so every interleaving
  is covered; the registry of named locks and its statistics are functions on its state.
\<close>

subsection \<open>Data\<close>

text \<open>\<open>spinlock_t\<close> and \<open>lock_stats_t\<close> of lock.h; the counters are 64 bits wide and wrap.\<close>

record spinlock_t =
  locked :: "32 word"
  lock_name :: string
  acquisitions :: u64
  contentions :: u64
  spin_loops :: u64

record lock_stats_t =
  st_name :: string
  st_acquisitions :: u64
  st_contentions :: u64
  st_spin_loops :: u64

text \<open>The lock structures by address, with the file-scope array of registered pointers and its counter.\<close>

record lock_registry =
  lock_at :: "u64 \<Rightarrow> spinlock_t"
  registered_locks :: "u64 list"
  registered_lock_count :: u32

definition registry0 :: "(u64 \<Rightarrow> spinlock_t) \<Rightarrow> lock_registry" where
  "registry0 ls = \<lparr>lock_at = ls, registered_locks = replicate 64 0, registered_lock_count = 0\<rparr>"

definition spin_init_named :: "u64 \<Rightarrow> string \<Rightarrow> lock_registry \<Rightarrow> lock_registry" where
  "spin_init_named p nm s =
     (let s1 = s\<lparr>lock_at := (lock_at s)(p := \<lparr>locked = 0, lock_name = nm, acquisitions = 0,
                   contentions = 0, spin_loops = 0\<rparr>)\<rparr>;
          index = registered_lock_count s1;
          s2 = s1\<lparr>registered_lock_count := index + 1\<rparr>
      in if index < 64 then s2\<lparr>registered_locks := (registered_locks s2)[unat index := p]\<rparr> else s2)"

definition lock_get_registered_count :: "lock_registry \<Rightarrow> u32" where
  "lock_get_registered_count s = (if registered_lock_count s < 64 then registered_lock_count s else 64)"

text \<open>The value 1 with the filled \<open>out_stats\<close> is \<open>Some\<close>, the value 0 is \<open>None\<close>.\<close>

definition lock_get_stats :: "u32 \<Rightarrow> u64 \<Rightarrow> lock_registry \<Rightarrow> lock_stats_t option" where
  "lock_get_stats index out_stats s =
     (if out_stats = 0 then None
      else if \<not> index < lock_get_registered_count s then None
      else let p = registered_locks s ! unat index in
        if p = 0 then None
        else Some \<lparr>st_name = lock_name (lock_at s p), st_acquisitions = acquisitions (lock_at s p),
               st_contentions = contentions (lock_at s p), st_spin_loops = spin_loops (lock_at s p)\<rparr>)"

subsection \<open>Acquiring and releasing\<close>

text \<open>
  Where a CPU stands in \<open>spin_lock_irqsave\<close> and \<open>spin_unlock_irqrestore\<close>, with its local variables
  \<open>flags\<close> and \<open>spins\<close>: spinning on the test-and-set, having won it, after each of the two atomic
  increments, in the critical section, and between the release and the restored flags.
\<close>

datatype lock_pc =
    Outside
  | Spinning u64 u64
  | Won u64 u64
  | Counted u64 u64
  | Contended u64 u64
  | Inside u64
  | Unlocked u64

record lock_sys =
  lk :: spinlock_t
  pc :: "nat \<Rightarrow> lock_pc"
  rflags :: "nat \<Rightarrow> u64"

text \<open>The interrupt flag is bit 9 of RFLAGS; \<open>cli\<close> clears it.\<close>

definition IF_BIT :: u64 where "IF_BIT = 0x200"

abbreviation goto :: "nat \<Rightarrow> lock_pc \<Rightarrow> lock_sys \<Rightarrow> lock_sys" where
  "goto c l s \<equiv> s\<lparr>pc := (pc s)(c := l)\<rparr>"

inductive lock_step :: "nat \<Rightarrow> lock_sys \<Rightarrow> lock_sys \<Rightarrow> bool" where
  save_flags: "pc s c = Outside \<Longrightarrow>
    lock_step c s (goto c (Spinning (rflags s c) 0) (s\<lparr>rflags := (rflags s)(c := rflags s c AND NOT IF_BIT)\<rparr>))"
| tas_fails: "pc s c = Spinning flags spins \<Longrightarrow> locked (lk s) \<noteq> 0 \<Longrightarrow>
    lock_step c s (goto c (Spinning flags (spins + 1)) (s\<lparr>lk := (lk s)\<lparr>locked := 1\<rparr>\<rparr>))"
| tas_wins: "pc s c = Spinning flags spins \<Longrightarrow> locked (lk s) = 0 \<Longrightarrow>
    lock_step c s (goto c (Won flags spins) (s\<lparr>lk := (lk s)\<lparr>locked := 1\<rparr>\<rparr>))"
| count: "pc s c = Won flags spins \<Longrightarrow>
    lock_step c s (goto c (if spins \<noteq> 0 then Counted flags spins else Inside flags)
      (s\<lparr>lk := (lk s)\<lparr>acquisitions := acquisitions (lk s) + 1\<rparr>\<rparr>))"
| count_contention: "pc s c = Counted flags spins \<Longrightarrow>
    lock_step c s (goto c (Contended flags spins)
      (s\<lparr>lk := (lk s)\<lparr>contentions := contentions (lk s) + 1\<rparr>\<rparr>))"
| count_spins: "pc s c = Contended flags spins \<Longrightarrow>
    lock_step c s (goto c (Inside flags) (s\<lparr>lk := (lk s)\<lparr>spin_loops := spin_loops (lk s) + spins\<rparr>\<rparr>))"
| release: "pc s c = Inside flags \<Longrightarrow>
    lock_step c s (goto c (Unlocked flags) (s\<lparr>lk := (lk s)\<lparr>locked := 0\<rparr>\<rparr>))"
| restore_flags: "pc s c = Unlocked flags \<Longrightarrow>
    lock_step c s (goto c Outside (s\<lparr>rflags := (rflags s)(c := flags)\<rparr>))"

inductive_cases lock_stepE: "lock_step c s s'"

definition any_lock_step :: "lock_sys \<Rightarrow> lock_sys \<Rightarrow> bool" where
  "any_lock_step s s' \<longleftrightarrow> (\<exists>c. lock_step c s s')"

definition lock_sys0 :: "string \<Rightarrow> (nat \<Rightarrow> u64) \<Rightarrow> lock_sys" where
  "lock_sys0 nm fl = \<lparr>lk = \<lparr>locked = 0, lock_name = nm, acquisitions = 0, contentions = 0, spin_loops = 0\<rparr>,
     pc = (\<lambda>_. Outside), rflags = fl\<rparr>"

fun in_critical :: "lock_pc \<Rightarrow> bool" where
  "in_critical (Inside _) = True"
| "in_critical _ = False"

text \<open>A CPU owns the lock from its winning test-and-set up to its release.\<close>

fun owns :: "lock_pc \<Rightarrow> bool" where
  "owns (Won _ _) = True"
| "owns (Counted _ _) = True"
| "owns (Contended _ _) = True"
| "owns (Inside _) = True"
| "owns _ = False"

text \<open>
  The flags a CPU holds and its RFLAGS, given the RFLAGS \<open>f0\<close> it came with: outside they are the same,
  elsewhere \<open>f0\<close> is saved and the interrupts are off.
\<close>

fun flags_ok :: "u64 \<Rightarrow> lock_pc \<Rightarrow> u64 \<Rightarrow> bool" where
  "flags_ok f0 Outside r = (r = f0)"
| "flags_ok f0 (Spinning f _) r = (f = f0 \<and> r = f0 AND NOT IF_BIT)"
| "flags_ok f0 (Won f _) r = (f = f0 \<and> r = f0 AND NOT IF_BIT)"
| "flags_ok f0 (Counted f _) r = (f = f0 \<and> r = f0 AND NOT IF_BIT)"
| "flags_ok f0 (Contended f _) r = (f = f0 \<and> r = f0 AND NOT IF_BIT)"
| "flags_ok f0 (Inside f) r = (f = f0 \<and> r = f0 AND NOT IF_BIT)"
| "flags_ok f0 (Unlocked f) r = (f = f0 \<and> r = f0 AND NOT IF_BIT)"

text \<open>
  The invariant: the lock word is set exactly while some CPU owns the lock, at most one CPU owns it, and a
  CPU between saving and restoring its flags runs with interrupts off and holds the flags it came with.
\<close>

definition lock_inv :: "(nat \<Rightarrow> u64) \<Rightarrow> lock_sys \<Rightarrow> bool" where
  "lock_inv fl s \<longleftrightarrow>
     (locked (lk s) \<noteq> 0 \<longleftrightarrow> (\<exists>c. owns (pc s c))) \<and>
     (\<forall>c d. owns (pc s c) \<longrightarrow> owns (pc s d) \<longrightarrow> c = d) \<and>
     (\<forall>c. flags_ok (fl c) (pc s c) (rflags s c))"

subsection \<open>The invariant\<close>

lemma lock_inv_init: "lock_inv fl (lock_sys0 nm fl)"
  by (simp add: lock_inv_def lock_sys0_def)

text \<open>
  An owned lock word is 1 and a free one 0, so a winning test-and-set finds no owner. The steps
  are sorted by what they do to the owners: none, one more, one less.
\<close>

lemma lock_inv_same_owners:
  assumes "lock_inv fl s" and "\<And>d. owns (pc s' d) = owns (pc s d)"
    and "(locked (lk s') \<noteq> 0) = (locked (lk s) \<noteq> 0)"
    and "\<And>d. flags_ok (fl d) (pc s' d) (rflags s' d)"
  shows "lock_inv fl s'"
  using assms by (simp add: lock_inv_def)

lemma lock_step_flags:
  assumes "lock_step c s s'" and "\<And>d. flags_ok (fl d) (pc s d) (rflags s d)"
  shows "flags_ok (fl d) (pc s' d) (rflags s' d)"
  using assms(1) assms(2) [of c] assms(2) [of d] by (cases rule: lock_step.cases) auto

lemma lock_step_inv:
  assumes step: "lock_step c s s'" and inv: "lock_inv fl s"
  shows "lock_inv fl s'"
proof -
  have f: "flags_ok (fl d) (pc s' d) (rflags s' d)" for d
    using lock_step_flags [OF step] inv by (simp add: lock_inv_def)
  from step show ?thesis
  proof (cases rule: lock_step.cases)
    case (tas_wins flags spins)
    have none: "\<not> owns (pc s d)" for d using inv tas_wins(3) by (auto simp: lock_inv_def)
    then show ?thesis using f tas_wins by (auto simp: lock_inv_def)
  next
    case (release flags)
    have only: "owns (pc s d) \<Longrightarrow> d = c" for d using inv release by (auto simp: lock_inv_def)
    then show ?thesis using f release by (auto simp: lock_inv_def)
  qed (rule lock_inv_same_owners [OF inv _ _ f]; use inv in \<open>auto simp: lock_inv_def\<close>)+
qed

lemma lock_step_frame:
  "lock_step c s s' \<Longrightarrow> d \<noteq> c \<Longrightarrow> pc s' d = pc s d \<and> rflags s' d = rflags s d"
  by (cases rule: lock_step.cases) auto

interpretation spin: mutex lock_step "\<lambda>c s. in_critical (pc s c)" "lock_inv fl"
proof
  show "lock_inv fl s \<Longrightarrow> lock_step c s s' \<Longrightarrow> lock_inv fl s'" for s c s'
    by (rule lock_step_inv)
  have crit: "in_critical l \<Longrightarrow> owns l" for l by (cases l) auto
  show "lock_inv fl s \<Longrightarrow> in_critical (pc s c) \<Longrightarrow> in_critical (pc s d) \<Longrightarrow> c = d" for s c d
    by (auto simp: lock_inv_def dest!: crit)
  show "lock_step c s s' \<Longrightarrow> d \<noteq> c \<Longrightarrow> in_critical (pc s' d) = in_critical (pc s d)" for c s s' d
    using lock_step_frame by metis
qed

lemma lock_inv_reachable:
  assumes "any_lock_step\<^sup>*\<^sup>* (lock_sys0 nm fl) s"
  shows "lock_inv fl s"
  using assms
  by (induction rule: rtranclp_induct) (auto simp: lock_inv_init any_lock_step_def intro: lock_step_inv)


definition demo_run :: "lock_sys list" where
  "demo_run =
     (let s0 = lock_sys0 ''demo'' (\<lambda>_. 0x202);
          s1 = goto 0 (Spinning 0x202 0) (s0\<lparr>rflags := (rflags s0)(0 := rflags s0 0 AND NOT IF_BIT)\<rparr>);
          s2 = goto 0 (Won 0x202 0) (s1\<lparr>lk := (lk s1)\<lparr>locked := 1\<rparr>\<rparr>);
          s3 = goto 0 (Inside 0x202) (s2\<lparr>lk := (lk s2)\<lparr>acquisitions := acquisitions (lk s2) + 1\<rparr>\<rparr>)
      in [s0, s1, s2, s3])"

lemma demo_run_reachable: "any_lock_step\<^sup>*\<^sup>* (lock_sys0 ''demo'' (\<lambda>_. 0x202)) (demo_run ! 3)"
proof -
  have "any_lock_step (demo_run ! 0) (demo_run ! 1)"
    unfolding any_lock_step_def
    by (rule exI [of _ 0]) (use save_flags [of "demo_run ! 0" 0] in \<open>simp add: demo_run_def Let_def lock_sys0_def\<close>)
  moreover have "any_lock_step (demo_run ! 1) (demo_run ! 2)"
    unfolding any_lock_step_def
    by (rule exI [of _ 0]) (use tas_wins [of "demo_run ! 1" 0 "0x202" 0] in \<open>simp add: demo_run_def Let_def lock_sys0_def\<close>)
  moreover have "any_lock_step (demo_run ! 2) (demo_run ! 3)"
    unfolding any_lock_step_def
    by (rule exI [of _ 0]) (use count [of "demo_run ! 2" 0 "0x202" 0] in \<open>simp add: demo_run_def Let_def lock_sys0_def\<close>)
  ultimately have "any_lock_step\<^sup>*\<^sup>* (demo_run ! 0) (demo_run ! 3)" by force
  then show ?thesis by (simp add: demo_run_def Let_def)
qed


text \<open>
  C17. Critical sections behave as if executed one at a time: with any number of CPUs that read the shared
  data, compute and write back under the lock, the shared data is at every moment the result of the
  finished operations in the order of their writes. No update is lost.
\<close>

theorem critical_sections_serialise:
  assumes "(critical_step lock_step (\<lambda>c s. in_critical (pc s c)) operate)\<^sup>*\<^sup>*
    (critical_init (lock_sys0 nm fl) d0) s"
  shows "shared s = fold operate (finished s) d0"
  using spin.serial_reachable [OF assms lock_inv_init] by (simp add: spin.serial_def)

definition demo_critical :: "nat \<Rightarrow> (lock_sys, int) critical" where
  "demo_critical i =
     (let cs0 = critical_init (demo_run ! 0) 5;
          cs3 = cs0\<lparr>lock_part := demo_run ! 3\<rparr>;
          cs4 = cs3\<lparr>copy_of := (copy_of cs3)(0 := Some (shared cs3))\<rparr>;
          cs5 = cs4\<lparr>shared := 6, copy_of := (copy_of cs4)(0 := None), finished := [0]\<rparr>
      in if i = 4 then cs4 else if i = 5 then cs5 else cs0\<lparr>lock_part := demo_run ! i\<rparr>)"

theorem critical_sections_serialise_witness:
  "shared (demo_critical 5) = 6 \<and> finished (demo_critical 5) = [0] \<and>
   shared (demo_critical 5) = fold (\<lambda>_ d. d + 1) [0] 5"
proof -
  let ?step = "critical_step lock_step (\<lambda>c s. in_critical (pc s c)) (\<lambda>_ d. d + 1)"
  note defs = demo_critical_def demo_run_def Let_def lock_sys0_def critical_init_def
  have "lock_step 0 (demo_run ! 0) (demo_run ! 1)"
    using save_flags [of "demo_run ! 0" 0] by (simp add: demo_run_def Let_def lock_sys0_def)
  then have 1: "?step (demo_critical 0) (demo_critical 1)"
    using lock_moves [of lock_step 0 "demo_critical 0"] by (simp add: demo_critical_def Let_def critical_init_def)
  have "lock_step 0 (demo_run ! 1) (demo_run ! 2)"
    using tas_wins [of "demo_run ! 1" 0 "0x202" 0] by (simp add: demo_run_def Let_def lock_sys0_def)
  then have 2: "?step (demo_critical 1) (demo_critical 2)"
    using lock_moves [of lock_step 0 "demo_critical 1"] by (simp add: demo_critical_def Let_def critical_init_def)
  have "lock_step 0 (demo_run ! 2) (demo_run ! 3)"
    using count [of "demo_run ! 2" 0 "0x202" 0] by (simp add: demo_run_def Let_def lock_sys0_def)
  then have 3: "?step (demo_critical 2) (demo_critical 3)"
    using lock_moves [of lock_step 0 "demo_critical 2"] by (simp add: demo_critical_def Let_def critical_init_def)
  have 4: "?step (demo_critical 3) (demo_critical 4)"
    using reads [of "\<lambda>c s. in_critical (pc s c)" 0 "demo_critical 3" lock_step] by (simp add: defs)
  have 5: "?step (demo_critical 4) (demo_critical 5)"
    using writes [of "\<lambda>c s. in_critical (pc s c)" 0 "demo_critical 4" 5 lock_step "\<lambda>_ d. d + 1"]
    by (simp add: defs)
  have "?step\<^sup>*\<^sup>* (demo_critical 0) (demo_critical 5)" 
    by (rule converse_rtranclp_into_rtranclp [of ?step, OF 1], rule converse_rtranclp_into_rtranclp [of ?step, OF 2],
        rule converse_rtranclp_into_rtranclp [of ?step, OF 3], rule converse_rtranclp_into_rtranclp [of ?step, OF 4],
        rule r_into_rtranclp [of ?step, OF 5])
  moreover have "demo_critical 0 = critical_init (lock_sys0 ''demo'' (\<lambda>_. 0x202)) 5" by (simp add: defs)
  ultimately have "shared (demo_critical 5) = fold (\<lambda>_ d. d + 1) (finished (demo_critical 5)) 5"
    using critical_sections_serialise [of "\<lambda>_ d. d + 1" "''demo''" "\<lambda>_. 0x202" 5 "demo_critical 5"] by simp
  then show ?thesis by (simp add: defs)
qed

subsection \<open>Progress\<close>

abbreviation lock_run :: "lock_sys \<Rightarrow> lock_sys \<Rightarrow> bool" where
  "lock_run s s' \<equiv> any_lock_step\<^sup>*\<^sup>* s s'"

lemma lock_run_step: "lock_step c s s' \<Longrightarrow> lock_run s' t \<Longrightarrow> lock_run s t"
  unfolding any_lock_step_def by (rule converse_rtranclp_into_rtranclp) blast+

lemma contended_enters:
  "pc s c = Contended f n \<Longrightarrow> \<exists>s'. lock_run s s' \<and> in_critical (pc s' c) \<and> (\<forall>d. d \<noteq> c \<longrightarrow> pc s' d = pc s d)"
  by (rule exI, rule conjI, rule lock_run_step, erule count_spins, rule rtranclp.rtrancl_refl) simp

lemma counted_enters:
  assumes "pc s c = Counted f n"
  shows "\<exists>s'. lock_run s s' \<and> in_critical (pc s' c) \<and> (\<forall>d. d \<noteq> c \<longrightarrow> pc s' d = pc s d)"
proof -
  note step = count_contention [OF assms]
  from contended_enters [of "goto c (Contended f n) (s\<lparr>lk := (lk s)\<lparr>contentions := contentions (lk s) + 1\<rparr>\<rparr>)" c f n]
  show ?thesis using lock_run_step [OF step] by fastforce
qed

text \<open>From its winning test-and-set on, a CPU reaches the critical section by its own steps.\<close>

lemma won_enters:
  assumes "pc s c = Won f n"
  shows "\<exists>s'. lock_run s s' \<and> in_critical (pc s' c) \<and> (\<forall>d. d \<noteq> c \<longrightarrow> pc s' d = pc s d)"
proof -
  note step = lock_run_step [OF count [OF assms]]
  show ?thesis
  proof (cases "n = 0")
    case True
    then show ?thesis using step by fastforce
  next
    case False
    from counted_enters [of "goto c (Counted f n) (s\<lparr>lk := (lk s)\<lparr>acquisitions := acquisitions (lk s) + 1\<rparr>\<rparr>)" c f n]
    show ?thesis using step False by fastforce
  qed
qed

lemma inside_releases:
  assumes "in_critical (pc s c)"
  shows "\<exists>s'. lock_run s s' \<and> locked (lk s') = 0 \<and> (\<forall>d. d \<noteq> c \<longrightarrow> pc s' d = pc s d)"
proof -
  from assms obtain f where "pc s c = Inside f" by (cases "pc s c") auto
  from lock_run_step [OF release [OF this]] show ?thesis by fastforce
qed

lemma owner_releases:
  assumes "owns (pc s c)"
  shows "\<exists>s'. lock_run s s' \<and> locked (lk s') = 0 \<and> (\<forall>d. d \<noteq> c \<longrightarrow> pc s' d = pc s d)"
proof -
  have "\<exists>s1. lock_run s s1 \<and> in_critical (pc s1 c) \<and> (\<forall>d. d \<noteq> c \<longrightarrow> pc s1 d = pc s d)"
    using assms contended_enters [of s c] counted_enters [of s c] won_enters [of s c]
    by (cases "pc s c") fastforce+
  then obtain s1 where s1: "lock_run s s1" "in_critical (pc s1 c)" "\<forall>d. d \<noteq> c \<longrightarrow> pc s1 d = pc s d" by blast
  from inside_releases [OF s1(2)] obtain s2 where s2: "lock_run s1 s2" "locked (lk s2) = 0"
    "\<forall>d. d \<noteq> c \<longrightarrow> pc s2 d = pc s1 d" by blast
  then show ?thesis using s1(3) rtranclp_trans [OF s1(1) s2(1)] by (intro exI [of _ s2]) simp
qed

text \<open>
  The lock can always be obtained: from every reachable state in which a CPU spins on it there is a
  continuation in which that CPU enters the critical section.
\<close>

theorem lock_obtainable:
  assumes r: "any_lock_step\<^sup>*\<^sup>* (lock_sys0 nm fl) s" and w: "pc s c = Spinning f n"
  shows "\<exists>s'. lock_run s s' \<and> in_critical (pc s' c)"
proof -
  have free: "\<exists>s'. lock_run t s' \<and> in_critical (pc s' c)"
    if l: "locked (lk t) = 0" and p: "pc t c = Spinning f n" for t
  proof -
    from won_enters [of "goto c (Won f n) (t\<lparr>lk := (lk t)\<lparr>locked := 1\<rparr>\<rparr>)" c f n]
    show ?thesis using lock_run_step [OF tas_wins [OF p l]] by fastforce
  qed
  show ?thesis
  proof (cases "locked (lk s) = 0")
    case True
    then show ?thesis using free w by blast
  next
    case False
    then obtain d where d: "owns (pc s d)" using lock_inv_reachable [OF r] by (auto simp: lock_inv_def)
    then have "c \<noteq> d" using w by auto
    with owner_releases [OF d] obtain s1 where "lock_run s s1" "locked (lk s1) = 0" "pc s1 c = Spinning f n"
      using w by force
    then show ?thesis using free [of s1] by (meson rtranclp_trans)
  qed
qed

text \<open>A second CPU that arrives while the first is inside.\<close>

theorem lock_obtainable_witness:
  "\<exists>s s'. in_critical (pc s 0) \<and> lock_run s s' \<and> in_critical (pc s' 1)"
proof -
  let ?s = "goto 1 (Spinning 0x202 0) ((demo_run ! 3)\<lparr>rflags := (rflags (demo_run ! 3))(1 := rflags (demo_run ! 3) 1 AND NOT IF_BIT)\<rparr>)"
  have p: "pc (demo_run ! 3) 1 = Outside" and f: "rflags (demo_run ! 3) 1 = 0x202"
    and i: "in_critical (pc (demo_run ! 3) 0)"
    by (simp_all add: demo_run_def Let_def lock_sys0_def)
  have "any_lock_step (demo_run ! 3) ?s"
    unfolding any_lock_step_def using save_flags [OF p] f by auto
  with demo_run_reachable have "lock_run (lock_sys0 ''demo'' (\<lambda>_. 0x202)) ?s" by (rule rtranclp.rtrancl_into_rtrancl)
  from lock_obtainable [OF this, of 1 "0x202" 0] have "\<exists>s'. lock_run ?s s' \<and> in_critical (pc s' 1)" by simp
  moreover have "in_critical (pc ?s 0)" using i by simp
  ultimately show ?thesis by blast
qed

subsection \<open>The registry\<close>

text \<open>Registering locks one after the other, as the components' init functions do.\<close>

definition spin_init_all :: "(u64 \<times> string) list \<Rightarrow> lock_registry \<Rightarrow> lock_registry" where
  "spin_init_all ls s = fold (\<lambda>(p, nm). spin_init_named p nm) ls s"

lemma spin_init_all_registry:
  "length ls < 2 ^ 32 \<Longrightarrow>
   registered_lock_count (spin_init_all ls (registry0 m)) = word_of_nat (length ls) \<and>
   registered_locks (spin_init_all ls (registry0 m)) = take 64 (map fst ls) @ replicate (64 - length ls) 0"
proof (induction ls rule: rev_induct)
  case Nil
  then show ?case by (simp add: spin_init_all_def registry0_def)
next
  case (snoc x ls)
  obtain p nm where x: "x = (p, nm)" by (cases x)
  define s where "s = spin_init_all ls (registry0 m)"
  have c: "registered_lock_count s = word_of_nat (length ls)"
    and r: "registered_locks s = take 64 (map fst ls) @ replicate (64 - length ls) 0"
    using snoc by (simp_all add: s_def)
  have u: "unat (word_of_nat (length ls) :: u32) = length ls"
    using snoc.prems by (simp add: unsigned_of_nat take_bit_nat_eq_self)
  have lt: "(word_of_nat (length ls) :: u32) < 64 \<longleftrightarrow> length ls < 64"
    using u by (simp add: word_less_nat_alt)
  have s': "spin_init_all (ls @ [x]) (registry0 m) = spin_init_named p nm s"
    by (simp add: spin_init_all_def s_def x)
  show ?case
  proof (cases "length ls < 64")
    case True
    then obtain k where "64 - length ls = Suc k" by (metis Suc_diff_Suc)
    then have "(take 64 (map fst ls) @ replicate (64 - length ls) 0)[length ls := p] =
      take 64 (map fst ls @ [p]) @ replicate (64 - Suc (length ls)) 0"
      using True by (simp add: list_update_append)
    then show ?thesis using True c r u lt unfolding s' by (simp add: spin_init_named_def Let_def x)
  next
    case False
    then show ?thesis using c r u lt unfolding s' by (simp add: spin_init_named_def Let_def x)
  qed
qed

text \<open>Every one of the first 64 registered locks is listed, in order; later ones are not.\<close>

lemma lock_get_stats_registered:
  assumes "length ls < 2 ^ 32" and "\<forall>(p, nm) \<in> set ls. p \<noteq> 0" and "out \<noteq> 0"
    and s: "s = spin_init_all ls (registry0 m)"
  shows "lock_get_stats i out s =
    (if unat i < min 64 (length ls) then let p = fst (ls ! unat i) in
       Some \<lparr>st_name = lock_name (lock_at s p), st_acquisitions = acquisitions (lock_at s p),
         st_contentions = contentions (lock_at s p), st_spin_loops = spin_loops (lock_at s p)\<rparr>
     else None)"
proof -
  note r = spin_init_all_registry [OF assms(1), of m, folded s]
  have u: "unat (word_of_nat (length ls) :: u32) = length ls"
    using assms(1) by (simp add: unsigned_of_nat take_bit_nat_eq_self)
  have cnt: "i < lock_get_registered_count s \<longleftrightarrow> unat i < min 64 (length ls)"
    using r u by (auto simp: lock_get_registered_count_def word_less_nat_alt)
  show ?thesis
  proof (cases "unat i < min 64 (length ls)")
    case True
    then have "registered_locks s ! unat i = fst (ls ! unat i)" using r by (simp add: nth_append)
    moreover have "fst (ls ! unat i) \<noteq> 0" using True bspec [OF assms(2) nth_mem [of "unat i" ls]] by (simp add: case_prod_beta)
    ultimately show ?thesis using True cnt assms(3) by (simp add: lock_get_stats_def Let_def)
  next
    case False
    then show ?thesis using cnt by (auto simp: lock_get_stats_def)
  qed
qed

end
