(* ===== verification/Printf.thy ===== *)
theory Printf
  imports Prelude
begin

text \<open>
  Number printing and \<open>vsnprintf\<close> of \<open>src/kernel/printf.c\<close>. Strings are lists of characters without
  the terminating NUL; the result \<open>None\<close> stands for undefined behaviour of the C program: a division
  by a zero base, a read past the end of the format, or an argument of another type than the directive's.
\<close>

subsection \<open>Digits\<close>

text \<open>\<open>reverse\<close> swaps the ends of the string until the indices meet.\<close>

function reverse_loop :: "int \<Rightarrow> int \<Rightarrow> string \<Rightarrow> string" where
  "reverse_loop i j s =
     (if i < j then reverse_loop (i + 1) (j - 1) (s[nat i := s ! nat j, nat j := s ! nat i]) else s)"
  by pat_completeness auto

termination by (relation "measure (\<lambda>(i, j, _). nat (j - i))") auto

declare reverse_loop.simps [simp del]

definition reverse :: "string \<Rightarrow> string" where
  "reverse s = reverse_loop 0 (int (length s) - 1) s"

definition digit_char :: "nat \<Rightarrow> char" where
  "digit_char r = char_of (if r > 9 then r - 10 + 97 else r + 48)"

text \<open>The loop over \<open>n\<close>, which writes the digits lowest first.\<close>

partial_function (option) itoa_loop :: "u64 \<Rightarrow> u64 \<Rightarrow> string option" where
  "itoa_loop n base =
     (if n > 0 then
        if base = 0 then None
        else do { s \<leftarrow> itoa_loop (n div base) base; Some (digit_char (unat (n mod base)) # s) }
      else Some [])"

definition itoa :: "u64 \<Rightarrow> u64 \<Rightarrow> string option" where
  "itoa n base =
     (if n = 0 then Some (reverse [CHR ''0'']) else map_option reverse (itoa_loop n base))"

subsection \<open>Formatted output\<close>

text \<open>A variable argument is a 64-bit slot or a pointer to a string.\<close>

datatype va_arg = Slot u64 | Text string

text \<open>The inner loops copy a string while \<open>i < size - 1\<close>; \<open>out\<close> holds what was written, so \<open>i\<close> is its length.\<close>

fun copy_str :: "nat \<Rightarrow> string \<Rightarrow> string \<Rightarrow> string" where
  "copy_str lim [] out = out"
| "copy_str lim (c # s) out = (if length out < lim then copy_str lim s (out @ [c]) else out)"

definition print_signed :: "nat \<Rightarrow> u64 \<Rightarrow> string \<Rightarrow> string option" where
  "print_signed lim n out =
     (let (n', out') = (if n <s 0 then (- n, out @ [CHR ''-'']) else (n, out))
      in map_option (\<lambda>s. copy_str lim s out') (itoa n' 10))"

text \<open>The switch on the character behind the percent sign.\<close>

definition directive :: "nat \<Rightarrow> char \<Rightarrow> va_arg list \<Rightarrow> string \<Rightarrow> (string \<times> va_arg list) option" where
  "directive lim d args out =
     (if d = CHR ''c'' then
        case args of Slot n # rest \<Rightarrow> Some (out @ [char_of (unat (n AND 0xFF))], rest) | _ \<Rightarrow> None
      else if d = CHR ''s'' then
        case args of Text s # rest \<Rightarrow> Some (copy_str lim s out, rest) | _ \<Rightarrow> None
      else if d = CHR ''d'' then
        case args of Slot n # rest \<Rightarrow> map_option (\<lambda>o'. (o', rest)) (print_signed lim n out) | _ \<Rightarrow> None
      else if d = CHR ''u'' then
        case args of Slot n # rest \<Rightarrow> map_option (\<lambda>s. (copy_str lim s out, rest)) (itoa n 10) | _ \<Rightarrow> None
      else if d = CHR ''x'' \<or> d = CHR ''p'' then
        case args of Slot n # rest \<Rightarrow> map_option (\<lambda>s. (copy_str lim s out, rest)) (itoa n 16) | _ \<Rightarrow> None
      else if d = CHR ''%'' then Some (out @ [CHR ''%''], args)
      else Some (out @ [d], args))"

text \<open>
  The loop over the format. A lone percent sign at its end makes the code copy the terminator and read
  on behind it.
\<close>

fun vsnprintf_loop :: "nat \<Rightarrow> string \<Rightarrow> va_arg list \<Rightarrow> string \<Rightarrow> string option" where
  "vsnprintf_loop lim [] args out = Some out"
| "vsnprintf_loop lim [c] args out =
     (if \<not> length out < lim then Some out else if c \<noteq> CHR ''%'' then Some (out @ [c]) else None)"
| "vsnprintf_loop lim (c # d # fmt) args out =
     (if \<not> length out < lim then Some out
      else if c \<noteq> CHR ''%'' then vsnprintf_loop lim (d # fmt) args (out @ [c])
      else do { (out', args') \<leftarrow> directive lim d args out; vsnprintf_loop lim fmt args' out' })"

text \<open>The text in \<open>str\<close>; the return value is its length. The limit \<open>size - 1\<close> is a 64-bit difference.\<close>

definition vsnprintf :: "u64 \<Rightarrow> string \<Rightarrow> va_arg list \<Rightarrow> string option" where
  "vsnprintf sz fmt args = vsnprintf_loop (unat (sz - 1)) fmt args []"

subsection \<open>Reversal and digits\<close>

lemma reverse_loop_mid:
  "length as = length bs \<Longrightarrow>
   reverse_loop (int (length as)) (int (length as) + int (length mid) - 1) (as @ mid @ bs) = as @ rev mid @ bs"
proof (induction "length mid" arbitrary: as mid bs rule: less_induct)
  case less
  consider "mid = []" | x where "mid = [x]" | x m y where "mid = x # m @ [y]"
    by (metis append_butlast_last_id neq_Nil_conv)
  then show ?case
  proof cases
    case 3
    let ?i = "length as"
    have swap: "(as @ mid @ bs)[?i := (as @ mid @ bs) ! (?i + length m + 1),
        ?i + length m + 1 := (as @ mid @ bs) ! ?i] = (as @ [y]) @ m @ (x # bs)"
      using 3 by (simp add: nth_append list_update_append)
    have "reverse_loop (int (length (as @ [y]))) (int (length (as @ [y])) + int (length m) - 1)
        ((as @ [y]) @ m @ (x # bs)) = (as @ [y]) @ rev m @ (x # bs)"
      using less 3 by (intro less.hyps) auto
    moreover have "reverse_loop (int ?i) (int ?i + int (length mid) - 1) (as @ mid @ bs) =
        reverse_loop (int ?i + 1) (int ?i + int (length m)) ((as @ [y]) @ m @ (x # bs))"
      using 3 swap by (subst reverse_loop.simps) (simp add: nat_add_distrib algebra_simps)
    ultimately show ?thesis using 3 by (simp add: algebra_simps)
  qed (subst reverse_loop.simps, simp)+
qed

lemma reverse_rev [simp]: "reverse s = rev s"
  using reverse_loop_mid [of "[]" "[]" s] by (simp add: reverse_def)

text \<open>The digits as a list of numbers, lowest first, and the value of a digit string.\<close>

fun digits :: "nat \<Rightarrow> nat \<Rightarrow> nat list" where
  "digits b n = (if n = 0 \<or> b < 2 then [] else n mod b # digits b (n div b))"

declare digits.simps [simp del]

definition digit_value :: "char \<Rightarrow> nat" where
  "digit_value c = (if of_char c \<ge> (97::nat) then of_char c - 87 else of_char c - 48)"

definition number_value :: "nat \<Rightarrow> string \<Rightarrow> nat" where
  "number_value b s = foldl (\<lambda>v c. v * b + digit_value c) 0 s"

lemma digit_value_char: "r < 36 \<Longrightarrow> digit_value (digit_char r) = r"
  by (simp add: digit_value_def digit_char_def)

lemma itoa_loop_digits:
  "2 \<le> base \<Longrightarrow> itoa_loop n base = Some (map digit_char (digits (unat base) (unat n)))"
proof (induction "unat n" arbitrary: n rule: less_induct)
  case less
  have b: "unat base \<ge> 2" using less.prems by (simp add: word_le_nat_alt)
  show ?case
  proof (cases "n = 0")
    case True
    then show ?thesis by (subst itoa_loop.simps) (simp add: digits.simps)
  next
    case False
    then have n: "0 < unat n" by (simp add: unat_gt_0)
    then have "unat (n div base) < unat n" using b by (simp add: unat_div)
    from less.hyps [OF this less.prems]
    have "itoa_loop (n div base) base = Some (map digit_char (digits (unat base) (unat n div unat base)))"
      by (simp add: unat_div)
    moreover have "base \<noteq> 0" using less.prems by auto
    ultimately show ?thesis using n b False
      by (subst itoa_loop.simps, subst digits.simps) (simp add: word_gt_0 unat_mod)
  qed
qed

lemma digits_value:
  "2 \<le> b \<Longrightarrow> b \<le> 36 \<Longrightarrow> foldr (\<lambda>r v. v * b + digit_value (digit_char r)) (digits b n) 0 = n"
proof (induction b n rule: digits.induct)
  case (1 b n)
  show ?case
  proof (cases "n = 0")
    case False
    then have "digits b n = n mod b # digits b (n div b)" using 1(2) by (subst digits.simps) simp
    moreover have "n mod b < 36" using 1(2,3) using mod_less_divisor [of b n] by linarith
    ultimately show ?thesis using 1 False by (simp add: digit_value_char)
  qed (simp add: digits.simps)
qed

lemma digits_length: "2 \<le> b \<Longrightarrow> n < b ^ k \<Longrightarrow> length (digits b n) \<le> k"
proof (induction k arbitrary: n)
  case (Suc k)
  have "n div b < b ^ k"
    using Suc.prems by (intro less_mult_imp_div_less) (simp add: mult.commute)
  then show ?case using Suc by (subst digits.simps) simp
qed (simp add: digits.simps)

lemma digits_last: "2 \<le> b \<Longrightarrow> n \<noteq> 0 \<Longrightarrow> digits b n \<noteq> [] \<and> last (digits b n) \<noteq> 0 \<and> last (digits b n) < b"
proof (induction b n rule: digits.induct)
  case (1 b n)
  then have d: "digits b n = n mod b # digits b (n div b)" by (subst digits.simps) simp
  show ?case
  proof (cases "n div b = 0")
    case True
    then show ?thesis using 1 d by (simp add: digits.simps div_eq_0_iff)
  next
    case False
    then show ?thesis using 1 d by simp
  qed
qed

lemma itoa_value:
  assumes "2 \<le> base" "base \<le> 36"
  obtains s where "itoa n base = Some s" "number_value (unat base) s = unat n" "s \<noteq> []" "length s \<le> 64"
    "n \<noteq> 0 \<Longrightarrow> hd s \<noteq> CHR ''0''"
proof (cases "n = 0")
  case True
  then show ?thesis
    by (intro that [of "''0''"]) (simp_all add: itoa_def number_value_def digit_value_def)
next
  case False
  have b: "2 \<le> unat base" "unat base \<le> 36" using assms by (simp_all add: word_le_nat_alt)
  have n: "unat n \<noteq> 0" using False by (simp add: unat_eq_0)
  let ?ds = "digits (unat base) (unat n)"
  let ?s = "rev (map digit_char ?ds)"
  have i: "itoa n base = Some ?s" using False itoa_loop_digits [OF assms(1), of n] by (simp add: itoa_def)
  have "number_value (unat base) ?s = unat n"
    using digits_value [OF b] by (simp add: number_value_def foldr_conv_foldl rev_map foldl_map)
  moreover have "length ?s \<le> 64"
    using digits_length [OF b(1), of "unat n" 64] unsigned_less [where 'a = nat, of n] power_mono [OF b(1), of 64] by simp
  moreover note digits_last [OF b(1) n]
  moreover have "hd ?s = digit_char (last ?ds)" using digits_last [OF b(1) n] by (simp add: hd_rev last_map)
  ultimately show ?thesis using i that digit_value_char [of "last ?ds"] b(2)
    by (force simp: digit_value_def)
qed

text \<open>
  Printing a number and reading the digits back gives the number, in every base from 2 to 36; the text
  has no leading zero and fits the 65 bytes of \<open>buf\<close>.
\<close>

theorem itoa_roundtrip:
  assumes "2 \<le> base" and "base \<le> 36"
  shows "\<exists>s. itoa n base = Some s \<and> number_value (unat base) s = unat n \<and> length s \<le> 64 \<and>
    (s = ''0'' \<or> s \<noteq> [] \<and> hd s \<noteq> CHR ''0'')"
proof (cases "n = 0")
  case True
  then show ?thesis by (simp add: itoa_def number_value_def digit_value_def)
next
  case False
  then show ?thesis using itoa_value [OF assms, of n] by metis
qed

theorem itoa_roundtrip_witness:
  "\<exists>s. itoa 0xFFFFFFFFFFFFFFFF 16 = Some s \<and> number_value 16 s = 0xFFFFFFFFFFFFFFFF \<and> length s \<le> 64"
  using itoa_roundtrip [of 16 "0xFFFFFFFFFFFFFFFF"] by auto

subsection \<open>What a format means\<close>

text \<open>The text of a number in the two bases the directives use, and of a signed number.\<close>

definition number_text :: "u64 \<Rightarrow> u64 \<Rightarrow> string" where
  "number_text base n = the (itoa n base)"

definition signed_text :: "u64 \<Rightarrow> string" where
  "signed_text n = (if sint n < 0 then CHR ''-'' # number_text 10 (- n) else number_text 10 n)"

fun directive_text :: "char \<Rightarrow> va_arg list \<Rightarrow> (string \<times> va_arg list) option" where
  "directive_text d (Slot n # rest) =
     (if d = CHR ''c'' then Some ([char_of (unat (n AND 0xFF))], rest)
      else if d = CHR ''s'' then None
      else if d = CHR ''d'' then Some (signed_text n, rest)
      else if d = CHR ''u'' then Some (number_text 10 n, rest)
      else if d \<in> {CHR ''x'', CHR ''p''} then Some (number_text 16 n, rest)
      else Some ([d], Slot n # rest))"
| "directive_text d (Text s # rest) =
     (if d = CHR ''s'' then Some (s, rest)
      else if d \<in> {CHR ''c'', CHR ''d'', CHR ''u'', CHR ''x'', CHR ''p''} then None
      else Some ([d], Text s # rest))"
| "directive_text d [] =
     (if d \<in> {CHR ''c'', CHR ''s'', CHR ''d'', CHR ''u'', CHR ''x'', CHR ''p''} then None else Some ([d], []))"

fun render :: "string \<Rightarrow> va_arg list \<Rightarrow> string option" where
  "render [] args = Some []"
| "render [c] args = (if c \<noteq> CHR ''%'' then Some [c] else None)"
| "render (c # d # fmt) args =
     (if c \<noteq> CHR ''%'' then map_option (Cons c) (render (d # fmt) args)
      else do { (t, args') \<leftarrow> directive_text d args; u \<leftarrow> render fmt args'; Some (t @ u) })"

lemma itoa_text: "2 \<le> base \<Longrightarrow> base \<le> 36 \<Longrightarrow> itoa n base = Some (number_text base n)"
  by (metis itoa_value number_text_def option.sel)

lemma copy_str_take: "length out \<le> lim \<Longrightarrow> copy_str lim s out = take lim (out @ s)"
  by (induction lim s out rule: copy_str.induct) auto

lemma print_signed_text:
  "length out < lim \<Longrightarrow> print_signed lim n out = Some (take lim (out @ signed_text n))"
  by (simp add: print_signed_def signed_text_def word_sless_alt Let_def itoa_text copy_str_take)

lemma directive_renders:
  assumes "length out < lim"
  shows "directive lim d args out = map_option (\<lambda>(t, r). (take lim (out @ t), r)) (directive_text d args)"
  using assms by (cases "(d, args)" rule: directive_text.cases)
    (auto simp: directive_def itoa_text print_signed_text copy_str_take)

lemma vsnprintf_loop_renders:
  "render fmt args = Some t \<Longrightarrow> length out \<le> lim \<Longrightarrow>
   vsnprintf_loop lim fmt args out = Some (take lim (out @ t))"
proof (induction lim fmt args out arbitrary: t rule: vsnprintf_loop.induct)
  case (3 lim c d fmt args out)
  show ?case
  proof (cases "length out < lim")
    case lt: True
    show ?thesis
    proof (cases "c = CHR ''%''")
      case True
      with 3(3) obtain t1 args' u where d: "directive_text d args = Some (t1, args')"
        "render fmt args' = Some u" "t = t1 @ u" by (auto split: Option.bind_splits)
      have v: "directive lim d args out = Some (take lim (out @ t1), args')"
        using directive_renders [OF lt, of d args] d(1) by simp
      have l: "length (take lim (out @ t1)) \<le> lim" by simp
      have "vsnprintf_loop lim fmt args' (take lim (out @ t1)) = Some (take lim (take lim (out @ t1) @ u))"
        by (rule 3(2) [OF _ _ v refl d(2) l]) (use lt True in simp_all)
      moreover have "take lim (take lim (out @ t1) @ u) = take lim (out @ t)"
        unfolding d(3) using lt by (cases "length (out @ t1) \<le> lim") (auto simp: min_absorb1 less_imp_le)
      ultimately show ?thesis using lt True v by simp
    next
      case False
      with 3(3) obtain u where u: "render (d # fmt) args = Some u" "t = c # u" by auto
      have "vsnprintf_loop lim (d # fmt) args (out @ [c]) = Some (take lim ((out @ [c]) @ u))"
        by (rule 3(1)) (use lt False u in auto)
      then show ?thesis using lt False u by simp
    qed
  qed (use 3 in simp)
qed (auto split: if_splits)

text \<open>
  \<open>vsnprintf\<close> writes exactly what the format and its arguments mean, cut off at \<open>size - 1\<close> characters,
  so the text and its terminator never leave the buffer.
\<close>

theorem vsnprintf_renders:
  assumes "render fmt args = Some t" and "sz \<noteq> 0"
  shows "vsnprintf sz fmt args = Some (take (unat sz - 1) t)"
proof -
  have "unat (sz - 1) = unat sz - 1" using assms(2) by (simp add: unat_minus_one)
  then show ?thesis using vsnprintf_loop_renders [OF assms(1), of "[]"] by (simp add: vsnprintf_def)
qed

theorem vsnprintf_renders_witness:
  "vsnprintf 12 ''pid %d: %s'' [Slot (- 7), Text ''exited''] = Some (take 11 (''pid '' @ signed_text (- 7) @ '': exited''))"
  using vsnprintf_renders [of "''pid %d: %s''" "[Slot (- 7), Text ''exited'']" "''pid '' @ signed_text (- 7) @ '': exited''" 12]
  by simp

text \<open>A zero size wraps the limit, and a trailing percent sign reads behind the format.\<close>

lemma vsnprintf_zero_size: "vsnprintf 0 ''ab'' [] = Some ''ab''"
  by (simp add: vsnprintf_def unsigned_minus_1_eq_mask mask_eq_exp_minus_1)

lemma vsnprintf_trailing_percent: "vsnprintf 16 ''50%'' [] = None"
  by (simp add: vsnprintf_def)

end
