(* ===== verification/Console.thy ===== *)
theory Console
  imports Printf
begin

text \<open>
  The text console: the VGA text screen of \<open>src/kernel/vga.c\<close>, the serial port of
  \<open>src/kernel/serial.c\<close>, \<open>src/kernel/tty.c\<close> and the kernel log of \<open>src/kernel/klog.c\<close>. Writes to I/O ports
  are recorded in order; what the line status register answers to a read is an input of the model. The
  serial and log locks make each print a single step.
\<close>

subsection \<open>State\<close>

record vga_char =
  vc_character :: u8
  vc_color :: u8

text \<open>
  \<open>vga_buffer\<close> is the memory behind \<open>VGA_BUFFER\<close>, by index and without an end, so that a write outside the
  screen would be seen. \<open>row\<close> and \<open>col\<close> stay below 25 and at most 80, far from the bounds of \<open>size_t\<close>.
  \<open>lsr\<close> is what the \<open>n\<close>-th read of the line status register answers and \<open>lsr_reads\<close> how many reads there were;
  \<open>outs\<close> are the bytes written to I/O ports.
\<close>

datatype log_level = LOG_DEBUG | LOG_INFO | LOG_WARN | LOG_ERROR

record console =
  vga_buffer :: "nat \<Rightarrow> vga_char"
  vcol :: nat
  vrow :: nat
  vcolor :: u8
  lsr :: "nat \<Rightarrow> u8"
  lsr_reads :: nat
  outs :: "(u16 \<times> u8) list"
  klog_min_level :: log_level

definition NUM_COLS :: nat where "NUM_COLS = 80"
definition NUM_ROWS :: nat where "NUM_ROWS = 25"

subsection \<open>The VGA text screen\<close>

definition blank :: "u8 \<Rightarrow> vga_char" where
  "blank c = \<lparr>vc_character = 32, vc_color = c\<rparr>"

definition vga_clear :: "'a console_scheme \<Rightarrow> 'a console_scheme" where
  "vga_clear s =
     s\<lparr>vga_buffer := fold (\<lambda>i f. f(i := blank (vcolor s))) [0..<NUM_COLS * NUM_ROWS] (vga_buffer s),
       vcol := 0, vrow := 0\<rparr>"

text \<open>The two loops of the scroll: the copy of every row into the one above, and the blank bottom row.\<close>

definition scroll_row :: "nat \<Rightarrow> (nat \<Rightarrow> vga_char) \<Rightarrow> nat \<Rightarrow> vga_char" where
  "scroll_row r f = fold (\<lambda>c f. f((r - 1) * NUM_COLS + c := f (r * NUM_COLS + c))) [0..<NUM_COLS] f"

definition print_newline :: "'a console_scheme \<Rightarrow> 'a console_scheme" where
  "print_newline s =
     (let s = s\<lparr>vcol := 0\<rparr> in
      if vrow s < NUM_ROWS - 1 then s\<lparr>vrow := vrow s + 1\<rparr>
      else let f = fold scroll_row [1..<NUM_ROWS] (vga_buffer s)
        in s\<lparr>vga_buffer := fold (\<lambda>c f. f((NUM_ROWS - 1) * NUM_COLS + c := blank (vcolor s))) [0..<NUM_COLS] f\<rparr>)"

definition print_char :: "char \<Rightarrow> 'a console_scheme \<Rightarrow> 'a console_scheme" where
  "print_char c s =
     (if c = CHR 0x0A then print_newline s
      else let s1 = (if NUM_COLS \<le> vcol s then print_newline s else s)
        in s1\<lparr>vga_buffer := (vga_buffer s1)(vrow s1 * NUM_COLS + vcol s1 :=
                \<lparr>vc_character = of_char c, vc_color = vcolor s1\<rparr>),
              vcol := vcol s1 + 1\<rparr>)"

definition vga_print_char :: "char \<Rightarrow> 'a console_scheme \<Rightarrow> 'a console_scheme" where
  "vga_print_char c s = print_char c s"

definition vga_print :: "string \<Rightarrow> 'a console_scheme \<Rightarrow> 'a console_scheme" where
  "vga_print str s = fold print_char str s"

text \<open>The sixteen hexadecimal digits, from the highest nibble down.\<close>

definition hex_chars :: string where "hex_chars = ''0123456789ABCDEF''"

definition hex_digits :: "u64 \<Rightarrow> string" where
  "hex_digits val = map (\<lambda>i. hex_chars ! unat (drop_bit i val AND 0xF)) (map (\<lambda>k. 60 - 4 * k) [0..<16])"

definition vga_print_hex :: "u64 \<Rightarrow> 'a console_scheme \<Rightarrow> 'a console_scheme" where
  "vga_print_hex val s = fold print_char (hex_digits val) (vga_print ''0x'' s)"

subsection \<open>The serial port\<close>

definition COM1 :: u16 where "COM1 = 0x3F8"

definition outb :: "u16 \<Rightarrow> u8 \<Rightarrow> 'a console_scheme \<Rightarrow> 'a console_scheme" where
  "outb port b s = s\<lparr>outs := outs s @ [(port, b)]\<rparr>"

text \<open>\<open>pic_mask\<close> is what the read of port 0x21 answers.\<close>

definition serial_init :: "u8 \<Rightarrow> 'a console_scheme \<Rightarrow> 'a console_scheme" where
  "serial_init pic_mask s =
     fold (\<lambda>(p, b). outb p b)
       [(COM1 + 1, 0x00), (COM1 + 3, 0x80), (COM1 + 0, 0x03), (COM1 + 1, 0x00), (COM1 + 3, 0x03),
        (COM1 + 2, 0xC7), (COM1 + 4, 0x0B), (COM1 + 1, 0x01), (0x21, pic_mask AND NOT (push_bit 4 1))] s"

definition is_transmit_empty :: "'a console_scheme \<Rightarrow> u8 \<times> 'a console_scheme" where
  "is_transmit_empty s = (lsr s (lsr_reads s) AND 0x20, s\<lparr>lsr_reads := lsr_reads s + 1\<rparr>)"

partial_function (option) wait_transmit :: "'a console_scheme \<Rightarrow> 'a console_scheme option" where
  "wait_transmit s =
     (let (e, s') = is_transmit_empty s in if e = 0 then wait_transmit s' else Some s')"

definition serial_putc :: "char \<Rightarrow> 'a console_scheme \<Rightarrow> 'a console_scheme option" where
  "serial_putc c s = map_option (outb COM1 (of_char c)) (wait_transmit s)"

fun serial_print_locked :: "string \<Rightarrow> 'a console_scheme \<Rightarrow> 'a console_scheme option" where
  "serial_print_locked [] s = Some s"
| "serial_print_locked (c # cs) s = do { s1 \<leftarrow> serial_putc c s; serial_print_locked cs s1 }"

definition serial_print_no_lock :: "string \<Rightarrow> 'a console_scheme \<Rightarrow> 'a console_scheme option" where
  "serial_print_no_lock str s = serial_print_locked str s"

definition serial_print :: "string \<Rightarrow> 'a console_scheme \<Rightarrow> 'a console_scheme option" where
  "serial_print str s = serial_print_locked str s"

definition serial_print_hex :: "u64 \<Rightarrow> 'a console_scheme \<Rightarrow> 'a console_scheme option" where
  "serial_print_hex val s =
     do { s1 \<leftarrow> serial_putc (CHR ''0'') s; s2 \<leftarrow> serial_putc (CHR ''x'') s1; serial_print_locked (hex_digits val) s2 }"

text \<open>The digits in \<open>buf\<close>, lowest first; they are sent from the last one down.\<close>

function dec_loop :: "u64 \<Rightarrow> string" where
  "dec_loop val = (if val > 0 then char_of (unat (val mod 10) + 48) # dec_loop (val div 10) else [])"
  by pat_completeness auto

termination
  by (relation "measure unat") (simp_all add: word_gt_0 unat_div unat_gt_0)

declare dec_loop.simps [simp del]

definition serial_print_dec_no_lock :: "u64 \<Rightarrow> 'a console_scheme \<Rightarrow> 'a console_scheme option" where
  "serial_print_dec_no_lock val s =
     (if val = 0 then serial_putc (CHR ''0'') s else serial_print_locked (rev (dec_loop val)) s)"

definition serial_print_dec :: "u64 \<Rightarrow> 'a console_scheme \<Rightarrow> 'a console_scheme option" where
  "serial_print_dec val s =
     (if val = 0 then serial_putc (CHR ''0'') s else serial_print_locked (rev (dec_loop val)) s)"

subsection \<open>Terminal and log\<close>

definition tty_putchar :: "char \<Rightarrow> 'a console_scheme \<Rightarrow> 'a console_scheme option" where
  "tty_putchar c s = serial_putc c (vga_print_char c s)"

text \<open>\<open>size\<close> bytes from \<open>data\<close>, NUL or not.\<close>

fun tty_write :: "string \<Rightarrow> 'a console_scheme \<Rightarrow> 'a console_scheme option" where
  "tty_write [] s = Some s"
| "tty_write (c # cs) s = do { s1 \<leftarrow> tty_putchar c s; tty_write cs s1 }"

fun level_number :: "log_level \<Rightarrow> nat" where
  "level_number LOG_DEBUG = 0"
| "level_number LOG_INFO = 1"
| "level_number LOG_WARN = 2"
| "level_number LOG_ERROR = 3"

fun level_strings :: "log_level \<Rightarrow> string" where
  "level_strings LOG_DEBUG = ''[DEBUG]''"
| "level_strings LOG_INFO = ''[INFO ]''"
| "level_strings LOG_WARN = ''[WARN ]''"
| "level_strings LOG_ERROR = ''[ERROR]''"

definition klog_set_level :: "log_level \<Rightarrow> 'a console_scheme \<Rightarrow> 'a console_scheme" where
  "klog_set_level l s = s\<lparr>klog_min_level := l\<rparr>"

definition klog_get_level :: "'a console_scheme \<Rightarrow> log_level" where
  "klog_get_level s = klog_min_level s"

definition klog :: "log_level \<Rightarrow> string \<Rightarrow> string \<Rightarrow> va_arg list \<Rightarrow> 'a console_scheme \<Rightarrow> 'a console_scheme option" where
  "klog level modul fmt args s =
     (if level_number level < level_number (klog_min_level s) then Some s
      else do {
        buf \<leftarrow> vsnprintf 512 fmt args;
        let s1 = fold vga_print [level_strings level, '' '', modul, '': '', buf, [CHR 0x0A]] s;
        s2 \<leftarrow> serial_print (level_strings level) s1;
        s3 \<leftarrow> serial_print '' '' s2;
        s4 \<leftarrow> serial_print modul s3;
        s5 \<leftarrow> serial_print '': '' s4;
        s6 \<leftarrow> serial_print buf s5;
        serial_print [CHR 0x0A] s6 })"

subsection \<open>What the screen shows\<close>

lemma scroll_row_at:
  assumes "0 < r"
  shows "scroll_row r f i = (if (r - 1) * 80 \<le> i \<and> i < r * 80 then f (i + 80) else f i)"
proof -
  obtain q where r: "r = Suc q" using assms by (cases r) auto
  have "fold (\<lambda>c f. f(q * 80 + c := f (r * 80 + c))) [0..<n] f i =
      (if q * 80 \<le> i \<and> i < q * 80 + n then f (i + 80) else f i)" if "n \<le> 80" for n i
    using that
  proof (induction n arbitrary: i)
    case (Suc n)
    then show ?case by (auto simp: r algebra_simps)
  qed auto
  from this [of 80] show ?thesis by (simp add: scroll_row_def NUM_COLS_def r)
qed

lemma scroll_rows_at:
  "fold scroll_row [1..<Suc k] f i = (if i < k * 80 then f (i + 80) else f i)"
proof (induction k arbitrary: i)
  case (Suc k)
  have "fold scroll_row [1..<Suc (Suc k)] f i = scroll_row (Suc k) (fold scroll_row [1..<Suc k] f) i" by simp
  also have "\<dots> = (if i < Suc k * 80 then f (i + 80) else f i)"
    by (auto simp: scroll_row_at Suc.IH simp del: upt_Suc One_nat_def)
  finally show ?case .
qed simp

text \<open>
  An abstract terminal is the list of its lines, the current one last, without a bound on their number.
  A line feed starts a new line, and so does a character that finds 80 others before it.
\<close>

fun put_char :: "char \<Rightarrow> string list \<Rightarrow> string list" where
  "put_char c ls =
     (if c = CHR 0x0A then ls @ [[]]
      else if 80 \<le> length (last ls) then ls @ [[c]]
      else butlast ls @ [last ls @ [c]])"

definition cell :: "u8 \<Rightarrow> string \<Rightarrow> nat \<Rightarrow> vga_char" where
  "cell col l c = (if c < length l then \<lparr>vc_character = of_char (l ! c), vc_color = col\<rparr> else blank col)"

definition visible :: "string list \<Rightarrow> nat \<Rightarrow> nat \<Rightarrow> string" where
  "visible ls bottom r = (if r \<le> bottom then ls ! (length ls - 1 - bottom + r) else [])"

definition vga_shows :: "'a console_scheme \<Rightarrow> string list \<Rightarrow> bool" where
  "vga_shows s ls \<longleftrightarrow> ls \<noteq> [] \<and> (\<forall>l \<in> set ls. length l \<le> 80) \<and>
     vrow s = min 24 (length ls - 1) \<and> vcol s = length (last ls) \<and>
     (\<forall>r < 25. \<forall>c < 80. vga_buffer s (r * 80 + c) = cell (vcolor s) (visible ls (vrow s) r) c)"

lemma fold_blank:
  "fold (\<lambda>c f. f(a + c := b)) [0..<n] f i = (if a \<le> i \<and> i < a + n then b else f i)"
  by (induction n arbitrary: i) auto

lemma clear_shows: "vga_shows (vga_clear s) [[]]"
proof -
  have "fold (\<lambda>i f. f(i := blank (vcolor s))) [0..<2000] (vga_buffer s) i = (if i < 2000 then blank (vcolor s) else vga_buffer s i)" for i
    using fold_blank [of 0 "blank (vcolor s)" 2000 "vga_buffer s" i] by simp
  then show ?thesis
    by (auto simp: vga_shows_def vga_clear_def NUM_COLS_def NUM_ROWS_def cell_def visible_def)
qed

lemma newline_shows:
  assumes s: "vga_shows s ls"
  shows "vga_shows (print_newline s) (ls @ [[]])"
proof (cases "vrow s < 24")
  case True
  then have row: "vrow s = length ls - 1" "length ls \<le> 24" "0 < length ls" using s by (auto simp: vga_shows_def)
  have "visible (ls @ [[]]) (vrow s + 1) r = visible ls (vrow s) r" for r
    using row by (cases ls rule: rev_exhaust) (auto simp: visible_def nth_append)
  then show ?thesis using s row True
    by (auto simp: vga_shows_def print_newline_def Let_def NUM_ROWS_def)
next
  case False
  then have row: "vrow s = 24" "25 \<le> length ls" using s by (auto simp: vga_shows_def)
  let ?s' = "print_newline s"
  have scrolled: "fold scroll_row [Suc 0..<25] f i = (if i < 1920 then f (i + 80) else f i)" for f i
    using scroll_rows_at [of 24 f i] by simp
  have buf: "vga_buffer ?s' i = (if 1920 \<le> i \<and> i < 2000 then blank (vcolor s)
      else if i < 1920 then vga_buffer s (i + 80) else vga_buffer s i)" for i
    using False fold_blank [of 1920 "blank (vcolor s)" 80 "fold scroll_row [Suc 0..<25] (vga_buffer s)" i]
    by (simp add: print_newline_def Let_def NUM_ROWS_def NUM_COLS_def scrolled)
  have "vga_buffer ?s' (r * 80 + c) = cell (vcolor s) (visible (ls @ [[]]) 24 r) c"
    if "r < 25" "c < 80" for r c
  proof (cases "r = 24")
    case True
    then show ?thesis using that row by (simp add: buf visible_def cell_def nth_append)
  next
    case False
    then have r: "Suc r < 25" "r * 80 + c < 1920" using that by auto
    have "vga_buffer ?s' (r * 80 + c) = vga_buffer s (Suc r * 80 + c)" using r by (simp add: buf algebra_simps)
    also have "\<dots> = cell (vcolor s) (visible ls 24 (Suc r)) c" using s r(1) that(2) row(1) unfolding vga_shows_def by metis
    also have "visible ls 24 (Suc r) = visible (ls @ [[]]) 24 r"
    proof -
      from row(2) obtain k where "length ls = 25 + k" by (metis le_add_diff_inverse)
      then show ?thesis using r(1) by (simp add: visible_def nth_append)
    qed
    finally show ?thesis .
  qed
  then show ?thesis using s row False
    by (auto simp: vga_shows_def print_newline_def Let_def NUM_ROWS_def)
qed

lemma write_cell_shows:
  assumes s: "vga_shows s (as @ [l])" and l: "length l < 80"
  shows "vga_shows (s\<lparr>vga_buffer := (vga_buffer s)(vrow s * 80 + vcol s :=
      \<lparr>vc_character = of_char c, vc_color = vcolor s\<rparr>), vcol := vcol s + 1\<rparr>) (as @ [l @ [c]])"
    (is "vga_shows ?s' ?ls'")
proof -
  from s have row: "vrow s = min 24 (length as)" and col: "vcol s = length l"
    and len: "\<forall>l \<in> set (as @ [l]). length l \<le> 80"
    and cells: "\<And>r d. r < 25 \<Longrightarrow> d < 80 \<Longrightarrow>
      vga_buffer s (r * 80 + d) = cell (vcolor s) (visible (as @ [l]) (vrow s) r) d"
    by (simp_all add: vga_shows_def)
  have vis: "visible (as @ [x]) (vrow s) r = (if r = vrow s then x else if r < vrow s then as ! (length as - vrow s + r) else [])"
    for x r using row by (auto simp: visible_def nth_append)
  have "vga_buffer ?s' (r * 80 + d) = cell (vcolor s) (visible ?ls' (vrow s) r) d" if "r < 25" "d < 80" for r d
  proof (cases "r = vrow s")
    case True
    have "vga_buffer s (vrow s * 80 + d) = cell (vcolor s) l d"
      using cells [of "vrow s" d] that True by (simp add: vis)
    moreover have "vga_buffer ?s' (vrow s * 80 + d) = (if d = length l then \<lparr>vc_character = of_char c, vc_color = vcolor s\<rparr>
        else vga_buffer s (vrow s * 80 + d))" using col by simp
    moreover have "visible ?ls' (vrow s) (vrow s) = l @ [c]" using vis by simp
    ultimately show ?thesis unfolding True
      by (simp only: cell_def length_append nth_append) (auto split: if_splits)
  next
    case False
    then have "r < vrow s \<or> vrow s < r" by (rule nat_neq_iff [THEN iffD1])
    then have "r * 80 + d \<noteq> vrow s * 80 + vcol s" using that l col by linarith
    then show ?thesis using cells [OF that] False by (simp add: vis)
  qed
  moreover have "\<forall>x \<in> set ?ls'. length x \<le> 80" using len l by auto
  ultimately show ?thesis using row col by (simp add: vga_shows_def)
qed

lemma print_char_shows: "vga_shows s ls \<Longrightarrow> vga_shows (print_char c s) (put_char c ls)"
proof -
  assume s: "vga_shows s ls"
  show ?thesis
  proof (cases "c = CHR 0x0A")
    case True
    then show ?thesis using newline_shows [OF s] by (simp add: print_char_def)
  next
    case c: False
    show ?thesis
    proof (cases "80 \<le> length (last ls)")
      case True
      moreover have "vcol s = length (last ls)" using s by (simp add: vga_shows_def)
      ultimately show ?thesis using write_cell_shows [OF newline_shows [OF s], of c] c
        by (simp add: print_char_def Let_def NUM_COLS_def)
    next
      case False
      moreover have "vcol s = length (last ls)" "butlast ls @ [last ls] = ls"
        using s by (simp_all add: vga_shows_def)
      ultimately show ?thesis using write_cell_shows [of s "butlast ls" "last ls" c] s c
        by (simp add: print_char_def Let_def NUM_COLS_def)
    qed
  qed
qed

text \<open>
  C18. The screen shows the terminal: printing keeps the last 25 lines of the text on it, wrapped at 80
  columns, in the order of printing.
\<close>

theorem vga_print_shows:
  assumes "vga_shows s ls"
  shows "vga_shows (vga_print str s) (fold put_char str ls)"
  using assms unfolding vga_print_def
  by (induction str arbitrary: s ls) (simp_all add: print_char_shows del: put_char.simps)

definition console0 :: console where
  "console0 = \<lparr>vga_buffer = (\<lambda>_. blank 7), vcol = 0, vrow = 0, vcolor = 7, lsr = (\<lambda>n. if even n then 0 else 0x20),
     lsr_reads = 0, outs = [], klog_min_level = LOG_WARN\<rparr>"

theorem vga_print_shows_witness:
  "vga_shows (vga_print ''hi'' (vga_clear console0)) [''hi'']"
  using vga_print_shows [OF clear_shows, of "''hi''" console0] by simp

subsection \<open>Serial output\<close>

text \<open>The transmitter becomes empty again and again, as the hardware does when it sends.\<close>

definition line_live :: "'a console_scheme \<Rightarrow> bool" where
  "line_live s \<longleftrightarrow> (\<forall>n. \<exists>k \<ge> n. lsr s k AND 0x20 \<noteq> 0)"

text \<open>A state that differs only in the bytes sent and the reads made.\<close>

definition sent :: "string \<Rightarrow> 'a console_scheme \<Rightarrow> 'a console_scheme \<Rightarrow> bool" where
  "sent str s s' \<longleftrightarrow> (\<exists>n. s' = s\<lparr>outs := outs s @ map (\<lambda>c. (COM1, of_char c)) str, lsr_reads := n\<rparr>)"

lemma wait_transmit_returns:
  assumes "lsr s k AND 0x20 \<noteq> 0" and "lsr_reads s \<le> k"
  shows "\<exists>n. wait_transmit s = Some (s\<lparr>lsr_reads := n\<rparr>)"
  using assms
proof (induction "k - lsr_reads s" arbitrary: s)
  case 0
  then show ?case by (subst wait_transmit.simps) (auto simp: is_transmit_empty_def)
next
  case (Suc d)
  show ?case
  proof (cases "lsr s (lsr_reads s) AND 0x20 = 0")
    case True
    from Suc(1) [of "s\<lparr>lsr_reads := lsr_reads s + 1\<rparr>"] Suc(2-) have
      "\<exists>n. wait_transmit (s\<lparr>lsr_reads := lsr_reads s + 1\<rparr>) = Some (s\<lparr>lsr_reads := n\<rparr>)" by simp
    then show ?thesis using True by (subst wait_transmit.simps) (simp add: is_transmit_empty_def)
  next
    case False
    then show ?thesis by (subst wait_transmit.simps) (auto simp: is_transmit_empty_def)
  qed
qed

lemma wait_transmit_stuck:
  assumes "\<forall>k \<ge> lsr_reads s. lsr s k AND 0x20 = 0"
  shows "wait_transmit s = None"
proof -
  have "\<exists>k \<ge> lsr_reads s. lsr s k AND 0x20 \<noteq> 0" if "wait_transmit s = Some t" for t
  proof (rule wait_transmit.raw_induct [of "\<lambda>s t. \<exists>k \<ge> lsr_reads s. lsr s k AND 0x20 \<noteq> 0", OF _ that], goal_cases)
    case (1 wait s t)
    show ?case
    proof (cases "lsr s (lsr_reads s) AND 0x20 = 0")
      case True
      then show ?thesis using 1(1) [of "s\<lparr>lsr_reads := lsr_reads s + 1\<rparr>" t] 1(2)
        by (auto simp: is_transmit_empty_def dest: Suc_leD)
    qed blast
  qed
  then show ?thesis using assms by (cases "wait_transmit s") auto
qed

lemma serial_putc_sent:
  assumes "line_live s"
  obtains s' where "serial_putc c s = Some s'" "sent [c] s s'"
proof -
  from assms obtain k where "lsr_reads s \<le> k" "lsr s k AND 0x20 \<noteq> 0" unfolding line_live_def by blast
  with wait_transmit_returns obtain n where "wait_transmit s = Some (s\<lparr>lsr_reads := n\<rparr>)" by blast
  then show ?thesis
    by (intro that [of "outb COM1 (of_char c) (s\<lparr>lsr_reads := n\<rparr>)"])
      (auto simp: serial_putc_def outb_def sent_def intro: exI [of _ n])
qed

lemma sent_trans: "sent a s s1 \<Longrightarrow> sent b s1 s2 \<Longrightarrow> sent (a @ b) s s2"
  by (auto simp: sent_def)

lemma sent_live: "sent a s s' \<Longrightarrow> line_live s' = line_live s"
  by (auto simp: sent_def line_live_def)

lemma serial_print_locked_sent:
  "line_live s \<Longrightarrow> \<exists>s'. serial_print_locked str s = Some s' \<and> sent str s s'"
proof (induction str arbitrary: s)
  case Nil
  show ?case by (simp add: sent_def exI [of _ "lsr_reads s"])
next
  case (Cons c str)
  obtain s1 where s1: "serial_putc c s = Some s1" "sent [c] s s1" using serial_putc_sent [OF Cons.prems] .
  with Cons obtain s2 where "serial_print_locked str s1 = Some s2" "sent str s1 s2" by (metis sent_live)
  then show ?case using s1 sent_trans [OF s1(2)] by fastforce
qed

text \<open>
  Printing on the serial line returns whenever the transmitter becomes empty again and again, and has
  then sent exactly the string; when the transmitter stays busy it never returns.
\<close>

theorem serial_print_terminates:
  "(line_live s \<longrightarrow> (\<exists>s'. serial_print str s = Some s' \<and>
      outs s' = outs s @ map (\<lambda>c. (COM1, of_char c)) str \<and> vga_buffer s' = vga_buffer s)) \<and>
   ((\<forall>k \<ge> lsr_reads s. lsr s k AND 0x20 = 0) \<longrightarrow> str \<noteq> [] \<longrightarrow> serial_print str s = None)"
proof (intro conjI impI)
  assume "line_live s"
  then show "\<exists>s'. serial_print str s = Some s' \<and>
      outs s' = outs s @ map (\<lambda>c. (COM1, of_char c)) str \<and> vga_buffer s' = vga_buffer s"
    using serial_print_locked_sent [of s str] by (auto simp: serial_print_def sent_def)
next
  assume "\<forall>k \<ge> lsr_reads s. lsr s k AND 0x20 = 0" "str \<noteq> []"
  then show "serial_print str s = None"
    using wait_transmit_stuck [of s] by (cases str) (auto simp: serial_print_def serial_putc_def)
qed

lemma console0_live: "line_live console0"
  unfolding line_live_def
proof
  fix n
  show "\<exists>k \<ge> n. lsr console0 k AND 0x20 \<noteq> 0"
    by (rule exI [of _ "2 * n + 1"]) (simp add: console0_def)
qed

theorem serial_print_terminates_witness:
  "\<exists>s'. serial_print ''ok'' console0 = Some s' \<and> outs s' = [(0x3F8, 111), (0x3F8, 107)]"
  using serial_print_terminates [of console0 "''ok''"] console0_live by (auto simp: console0_def COM1_def)

text \<open>The decimal printer sends the digits \<open>itoa\<close> computes; they fit the 20 bytes of \<open>buf\<close>.\<close>

lemma dec_loop_digits: "dec_loop val = map digit_char (digits 10 (unat val))"
proof (induction val rule: dec_loop.induct)
  case (1 val)
  show ?case
  proof (cases "val = 0")
    case False
    then have "0 < unat val" by (simp add: unat_gt_0)
    moreover have "unat (val mod 10) = unat val mod 10" "unat (val div 10) = unat val div 10"
      using unat_mod [of val 10] unat_div [of val 10] by simp_all
    moreover have "unat val mod 10 < 10" by simp
    ultimately show ?thesis using 1 False
      by (subst dec_loop.simps, subst digits.simps) (simp add: word_gt_0 digit_char_def add.commute)
  qed (subst dec_loop.simps, simp add: digits.simps)
qed

lemma dec_loop_length: "length (dec_loop val) \<le> 20"
  using digits_length [of 10 "unat val" 20] unsigned_less [where 'a = nat, of val] by (simp add: dec_loop_digits)

lemma serial_print_dec_itoa: "serial_print_dec val s = serial_print (number_text 10 val) s"
proof (cases "val = 0")
  case True
  then show ?thesis
    by (cases "serial_putc (CHR ''0'') s") (simp_all add: serial_print_dec_def serial_print_def number_text_def itoa_def)
next
  case False
  then show ?thesis
    using itoa_loop_digits [of 10 val]
    by (simp add: serial_print_dec_def serial_print_def number_text_def itoa_def dec_loop_digits)
qed

subsection \<open>The log\<close>

lemma vga_print_append: "vga_print (a @ b) s = vga_print b (vga_print a s)"
  by (simp add: vga_print_def)

lemma print_newline_frame: "outs (print_newline s) = outs s \<and> lsr (print_newline s) = lsr s \<and>
    lsr_reads (print_newline s) = lsr_reads s \<and> klog_min_level (print_newline s) = klog_min_level s"
  by (simp add: print_newline_def Let_def)

lemma vga_print_frame: "outs (vga_print str s) = outs s \<and> lsr (vga_print str s) = lsr s \<and>
    lsr_reads (vga_print str s) = lsr_reads s \<and> klog_min_level (vga_print str s) = klog_min_level s"
  unfolding vga_print_def
  by (induction str arbitrary: s) (simp_all add: print_char_def print_newline_frame Let_def)

lemma serial_print_then:
  assumes "line_live s" and "\<And>s'. sent a s s' \<Longrightarrow> line_live s' \<Longrightarrow> \<exists>t. f s' = Some t \<and> sent b s' t"
  shows "\<exists>t. (serial_print a s \<bind> f) = Some t \<and> sent (a @ b) s t"
proof -
  from serial_print_locked_sent [OF assms(1), of a] obtain s' where
    s': "serial_print a s = Some s'" "sent a s s'" by (auto simp: serial_print_def)
  with assms(2) [OF s'(2)] sent_live [OF s'(2)] assms(1) show ?thesis by (auto intro: sent_trans)
qed

text \<open>
  A message below the minimal level leaves no trace. Any other returns while the serial line is
  live, and the same text, its level, module and formatted message, goes to the screen and to the line.
\<close>

theorem klog_prints:
  fixes level :: log_level and modul :: string
  assumes v: "render fmt args = Some t" and live: "line_live s"
  defines "msg \<equiv> level_strings level @ '' '' @ modul @ '': '' @ take 511 t @ [CHR 0x0A]"
  shows "if level_number level < level_number (klog_min_level s) then klog level modul fmt args s = Some s
    else \<exists>s'. klog level modul fmt args s = Some s' \<and>
      outs s' = outs s @ map (\<lambda>c. (COM1, of_char c)) msg \<and> vga_buffer s' = vga_buffer (vga_print msg s)"
proof -
  let ?s1 = "vga_print msg s"
  have f: "vsnprintf 512 fmt args = Some (take 511 t)" using vsnprintf_renders [OF v, of 512] by simp
  have s1: "fold vga_print [level_strings level, '' '', modul, '': '', take 511 t, [CHR 0x0A]] s = ?s1"
    by (simp add: msg_def flip: vga_print_append)
  have live1: "line_live ?s1" using live vga_print_frame [of msg s] by (simp add: line_live_def)
  have k: "klog level modul fmt args s = (if level_number level < level_number (klog_min_level s) then Some s
    else do {
        s2 \<leftarrow> serial_print (level_strings level) ?s1;
        s3 \<leftarrow> serial_print '' '' s2;
        s4 \<leftarrow> serial_print modul s3;
        s5 \<leftarrow> serial_print '': '' s4;
        s6 \<leftarrow> serial_print (take 511 t) s5;
        serial_print [CHR 0x0A] s6 })"
    by (simp only: klog_def f s1 Let_def Option.bind.simps)
  have "\<exists>s'. do {
        s2 \<leftarrow> serial_print (level_strings level) ?s1;
        s3 \<leftarrow> serial_print '' '' s2;
        s4 \<leftarrow> serial_print modul s3;
        s5 \<leftarrow> serial_print '': '' s4;
        s6 \<leftarrow> serial_print (take 511 t) s5;
        serial_print [CHR 0x0A] s6 } = Some s' \<and> sent msg ?s1 s'"
    unfolding msg_def
    by (intro serial_print_then live1 [unfolded msg_def])
      (use serial_print_locked_sent in \<open>auto simp: serial_print_def simp del: serial_print_locked.simps\<close>)
  then show ?thesis
    using vga_print_frame [of msg s] by (auto simp: k sent_def)
qed

theorem klog_prints_witness:
  "\<exists>s'. klog LOG_ERROR ''MEM'' ''no %s'' [Text ''frame''] console0 = Some s' \<and>
     outs s' = map (\<lambda>c. (COM1, of_char c)) (''[ERROR] MEM: no frame'' @ [CHR 0x0A])"
  using klog_prints [of "''no %s''" "[Text ''frame'']" "''no frame''" console0 LOG_ERROR "''MEM''"] console0_live
  by (auto simp: console0_def)

end
