(* ===== verification/Pmm.thy ===== *)
theory Pmm
  imports Prelude Interfaces
begin

text \<open>
  Model of \<open>src/kernel/pmm.c\<close>: the physical frame allocator. One bit of \<open>frame_bitmap\<close> per
  4 KiB frame (set: unavailable), a stack of free frame addresses, and a reference count per
  frame. Every operation runs under \<open>pmm_lock\<close>, so each is one atomic state change here.
  \<open>pmm_init\<close> walks the Multiboot2 tags in memory; its loops are driven by sizes found in the
  tags and need not end, so it is option-valued: \<open>None\<close> is "does not return" or a store past
  the end of the bitmap.
\<close>

definition PAGE_SIZE :: u64 where "PAGE_SIZE = 4096"

definition MAX_FRAMES :: u64 where "MAX_FRAMES = 1024 * 1024"

record pmm =
  frame_bitmap :: "nat \<Rightarrow> u32"
  free_stack :: "nat \<Rightarrow> u64"
  stack_ptr :: int
  ref_counts :: "nat \<Rightarrow> u32"
  total_frames :: u64

subsection \<open>Bitmap helpers\<close>

definition bitmap_set :: "(nat \<Rightarrow> u32) \<Rightarrow> u64 \<Rightarrow> (nat \<Rightarrow> u32)" where
  "bitmap_set bm frame =
     (let i = unat (frame div 32)
      in bm(i := bm i OR push_bit (unat (frame mod 32)) 1))"

definition bitmap_unset :: "(nat \<Rightarrow> u32) \<Rightarrow> u64 \<Rightarrow> (nat \<Rightarrow> u32)" where
  "bitmap_unset bm frame =
     (let i = unat (frame div 32)
      in bm(i := bm i AND NOT (push_bit (unat (frame mod 32)) 1)))"

definition bitmap_test :: "(nat \<Rightarrow> u32) \<Rightarrow> u64 \<Rightarrow> u32" where
  "bitmap_test bm frame = bm (unat (frame div 32)) AND push_bit (unat (frame mod 32)) 1"

lemma frame_index_eq:
  "unat (f div 32) = unat (g div 32) \<Longrightarrow> unat (f mod 32) = unat (g mod 32) \<Longrightarrow> f = (g :: u64)"
  by (metis div_mult_mod_eq unat_eq_iff)

lemma frame_bit_less: "unat ((f :: u64) mod 32) < 32"
  by (simp add: unat_mod)

lemma bitmap_test_bit:
  "bitmap_test bm f \<noteq> 0 \<longleftrightarrow> bit (bm (unat (f div 32))) (unat (f mod 32))"
  by (simp only: bitmap_test_def one_bit_test)

lemma bit_or_single: "n < 32 \<Longrightarrow> bit ((w :: u32) OR push_bit n 1) k \<longleftrightarrow> k = n \<or> bit w k"
  by (auto simp: bit_simps)

lemma bit_clear_single: "n < 32 \<Longrightarrow> bit ((w :: u32) AND NOT (push_bit n 1)) k \<longleftrightarrow> k \<noteq> n \<and> bit w k"
  by (auto simp: bit_simps dest: bit_imp_le_length)

lemma bitmap_test_set [simp]:
  "bitmap_test (bitmap_set bm f) g \<noteq> 0 \<longleftrightarrow> g = f \<or> bitmap_test bm g \<noteq> 0"
proof (cases "unat (g div 32) = unat (f div 32)")
  case True
  then have "g = f \<longleftrightarrow> unat (g mod 32) = unat (f mod 32)"
    using frame_index_eq [of g f] by blast
  then show ?thesis
    by (simp only: bitmap_test_bit bitmap_set_def Let_def fun_upd_apply True if_True simp_thms
        bit_or_single [OF frame_bit_less])
next
  case False
  then have "g \<noteq> f" by auto
  then show ?thesis
    by (simp only: bitmap_test_bit bitmap_set_def Let_def fun_upd_apply False if_False simp_thms)
qed

lemma bitmap_test_unset [simp]:
  "bitmap_test (bitmap_unset bm f) g \<noteq> 0 \<longleftrightarrow> g \<noteq> f \<and> bitmap_test bm g \<noteq> 0"
proof (cases "unat (g div 32) = unat (f div 32)")
  case True
  then have "g = f \<longleftrightarrow> unat (g mod 32) = unat (f mod 32)"
    using frame_index_eq [of g f] by blast
  then show ?thesis
    by (simp only: bitmap_test_bit bitmap_unset_def Let_def fun_upd_apply True if_True simp_thms
        bit_clear_single [OF frame_bit_less])
next
  case False
  then have "g \<noteq> f" by auto
  then show ?thesis
    by (simp only: bitmap_test_bit bitmap_unset_def Let_def fun_upd_apply False if_False simp_thms)
qed

lemma bitmap_test_set_0 [simp]:
  "bitmap_test (bitmap_set bm f) g = 0 \<longleftrightarrow> g \<noteq> f \<and> bitmap_test bm g = 0"
  using bitmap_test_set [of bm f g] by blast

lemma bitmap_test_unset_0 [simp]:
  "bitmap_test (bitmap_unset bm f) g = 0 \<longleftrightarrow> g = f \<or> bitmap_test bm g = 0"
  using bitmap_test_unset [of bm f g] by blast

subsection \<open>Operations\<close>

definition pmm_get_total_frames :: "pmm \<Rightarrow> u64" where
  "pmm_get_total_frames s = total_frames s"

definition pmm_alloc_frame :: "pmm \<Rightarrow> u64 option \<times> pmm" where
  "pmm_alloc_frame s =
     (if stack_ptr s < 0 then (None, s)
      else
        let addr = free_stack s (nat (stack_ptr s));
            f = addr div PAGE_SIZE
        in (Some addr,
            s\<lparr>stack_ptr := stack_ptr s - 1,
              frame_bitmap := bitmap_set (frame_bitmap s) f,
              ref_counts := (ref_counts s)(unat f := 1)\<rparr>))"

definition pmm_free_frame :: "u64 \<Rightarrow> pmm \<Rightarrow> pmm" where
  "pmm_free_frame addr s =
     (let f = addr div PAGE_SIZE in
      if f \<ge> MAX_FRAMES then s
      else if ref_counts s (unat f) > 0 then
        let s1 = s\<lparr>ref_counts := (ref_counts s)(unat f := ref_counts s (unat f) - 1)\<rparr> in
        if ref_counts s1 (unat f) = 0 then
          if bitmap_test (frame_bitmap s1) f \<noteq> 0 then
            s1\<lparr>frame_bitmap := bitmap_unset (frame_bitmap s1) f,
               stack_ptr := stack_ptr s1 + 1,
               free_stack := (free_stack s1)(nat (stack_ptr s1 + 1) := addr)\<rparr>
          else s1
        else s1
      else s)"

definition pmm_ref_inc :: "u64 \<Rightarrow> pmm \<Rightarrow> pmm" where
  "pmm_ref_inc addr s =
     (let f = addr div PAGE_SIZE in
      if f < MAX_FRAMES
      then s\<lparr>ref_counts := (ref_counts s)(unat f := ref_counts s (unat f) + 1)\<rparr>
      else s)"

definition pmm_get_ref :: "u64 \<Rightarrow> pmm \<Rightarrow> u32" where
  "pmm_get_ref addr s =
     (let f = addr div PAGE_SIZE in if f < MAX_FRAMES then ref_counts s (unat f) else 0)"

definition pmm_get_free_count :: "pmm \<Rightarrow> u64" where
  "pmm_get_free_count s = word_of_int (stack_ptr s + 1)"

subsection \<open>Initialization from the Multiboot2 memory map\<close>

text \<open>\<open>for (addr = entry->addr; addr < entry->addr + entry->len; addr += PAGE_SIZE)\<close>\<close>

partial_function (option) mark_available ::
  "u64 \<Rightarrow> u64 \<Rightarrow> (nat \<Rightarrow> u32) \<Rightarrow> u64 \<Rightarrow> ((nat \<Rightarrow> u32) \<times> u64) option" where
  "mark_available addr stop bm max_addr =
     (if addr < stop then
        let frame = addr div PAGE_SIZE in
        if frame < MAX_FRAMES
        then mark_available (addr + PAGE_SIZE) stop (bitmap_unset bm frame)
               (if addr + PAGE_SIZE > max_addr then addr + PAGE_SIZE else max_addr)
        else mark_available (addr + PAGE_SIZE) stop bm max_addr
      else Some (bm, max_addr))"

text \<open>The entries of one memory-map tag: \<open>addr\<close> at offset 0, \<open>len\<close> at 8, \<open>type\<close> at 16.\<close>

partial_function (option) scan_mmap_entries ::
  "mem \<Rightarrow> u64 \<Rightarrow> u64 \<Rightarrow> u64 \<Rightarrow> (nat \<Rightarrow> u32) \<Rightarrow> u64 \<Rightarrow> ((nat \<Rightarrow> u32) \<times> u64) option" where
  "scan_mmap_entries m entry tag_end entry_size bm max_addr =
     (if entry < tag_end then
        if read32 m (entry + 16) = 1 then
          do { (bm', max') \<leftarrow> mark_available (read64 m entry)
                 (read64 m entry + read64 m (entry + 8)) bm max_addr;
               scan_mmap_entries m (entry + entry_size) tag_end entry_size bm' max' }
        else scan_mmap_entries m (entry + entry_size) tag_end entry_size bm max_addr
      else Some (bm, max_addr))"

definition MULTIBOOT_TAG_TYPE_END :: u32 where "MULTIBOOT_TAG_TYPE_END = 0"
definition MULTIBOOT_TAG_TYPE_MMAP :: u32 where "MULTIBOOT_TAG_TYPE_MMAP = 6"

text \<open>The tag walk: \<open>type\<close> at offset 0, \<open>size\<close> at 4, a memory map's \<open>entry_size\<close> at 8.\<close>

partial_function (option) scan_tags ::
  "mem \<Rightarrow> u64 \<Rightarrow> (nat \<Rightarrow> u32) \<Rightarrow> u64 \<Rightarrow> ((nat \<Rightarrow> u32) \<times> u64) option" where
  "scan_tags m tag bm max_addr =
     (if read32 m tag \<noteq> MULTIBOOT_TAG_TYPE_END then
        let size = read32 m (tag + 4);
            next_tag = tag + ucast ((size + 7) AND NOT 7)
        in if read32 m tag = MULTIBOOT_TAG_TYPE_MMAP then
             do { (bm', max') \<leftarrow> scan_mmap_entries m (tag + 16) (tag + ucast size)
                    (ucast (read32 m (tag + 8))) bm max_addr;
                  scan_tags m next_tag bm' max' }
           else scan_tags m next_tag bm max_addr
      else Some (bm, max_addr))"

text \<open>\<open>for (addr = ...; addr < stop; addr += PAGE_SIZE) bitmap_set(addr / PAGE_SIZE)\<close>\<close>

partial_function (option) reserve_range ::
  "u64 \<Rightarrow> u64 \<Rightarrow> (nat \<Rightarrow> u32) \<Rightarrow> (nat \<Rightarrow> u32) option" where
  "reserve_range addr stop bm =
     (if addr < stop then
        if addr div PAGE_SIZE \<ge> MAX_FRAMES then None
        else reserve_range (addr + PAGE_SIZE) stop (bitmap_set bm (addr div PAGE_SIZE))
      else Some bm)"

text \<open>The body of the loop that builds the free-frame stack from the bitmap.\<close>

definition push_if_free :: "nat \<Rightarrow> pmm \<Rightarrow> pmm" where
  "push_if_free n s =
     (let f = word_of_nat n in
      if bitmap_test (frame_bitmap s) f = 0
      then s\<lparr>stack_ptr := stack_ptr s + 1,
             free_stack := (free_stack s)(nat (stack_ptr s + 1) := f * PAGE_SIZE),
             total_frames := total_frames s + 1\<rparr>
      else s)"

definition pmm_init :: "mem \<Rightarrow> u64 \<Rightarrow> u64 \<Rightarrow> pmm \<Rightarrow> pmm option" where
  "pmm_init m mb_info kernel_end s =
     (let bm0 = (\<lambda>i. if i < unat (MAX_FRAMES div 32) then 0xFFFFFFFF else frame_bitmap s i);
          rc0 = (\<lambda>i. if i < unat MAX_FRAMES then 0 else ref_counts s i);
          mbi_end = mb_info + ucast (read32 m mb_info)
      in do {
        (bm1, max_addr) \<leftarrow> scan_tags m (mb_info + 8) bm0 0;
        bm2 \<leftarrow> reserve_range 0 kernel_end bm1;
        bm3 \<leftarrow> reserve_range mb_info mbi_end bm2;
        let max_frame = min (max_addr div PAGE_SIZE) MAX_FRAMES;
        Some (fold push_if_free [0..<unat max_frame]
                (s\<lparr>frame_bitmap := bm3, ref_counts := rc0\<rparr>)) })"

subsection \<open>The free stack as a list, and the invariant\<close>

definition frame_no :: "u64 \<Rightarrow> u64" where "frame_no a = a div PAGE_SIZE"

definition stack_list :: "pmm \<Rightarrow> u64 list" where
  "stack_list s = map (free_stack s) [0..<nat (stack_ptr s + 1)]"

definition free_frames :: "pmm \<Rightarrow> u64 set" where
  "free_frames s = set (stack_list s)"

text \<open>
  The invariant: the addresses on the stack belong to distinct frames below \<open>MAX_FRAMES\<close>, and
  each of these frames is marked available in the bitmap.
\<close>

definition free_listed :: "(nat \<Rightarrow> u32) \<Rightarrow> u64 list \<Rightarrow> bool" where
  "free_listed bm xs \<longleftrightarrow> distinct (map frame_no xs) \<and>
     (\<forall>a \<in> set xs. frame_no a < MAX_FRAMES \<and> bitmap_test bm (frame_no a) = 0)"

definition pmm_inv :: "pmm \<Rightarrow> bool" where
  "pmm_inv s \<longleftrightarrow> -1 \<le> stack_ptr s \<and> free_listed (frame_bitmap s) (stack_list s)"

lemma stack_list_more [simp]:
  "stack_list (s\<lparr>frame_bitmap := b\<rparr>) = stack_list s"
  "stack_list (s\<lparr>ref_counts := r\<rparr>) = stack_list s"
  "stack_list (s\<lparr>total_frames := t\<rparr>) = stack_list s"
  by (simp_all add: stack_list_def)

lemma stack_list_push:
  assumes "-1 \<le> stack_ptr s" and "stack_ptr t = stack_ptr s + 1"
    and "free_stack t = (free_stack s)(nat (stack_ptr s + 1) := x)"
  shows "stack_list t = stack_list s @ [x]"
proof -
  have "nat (stack_ptr s + 2) = Suc (nat (stack_ptr s + 1))" using assms(1) by simp
  then show ?thesis by (simp add: stack_list_def add.assoc assms(2,3))
qed

lemma stack_list_pop:
  assumes "0 \<le> stack_ptr s"
  shows "stack_list s = stack_list (s\<lparr>stack_ptr := stack_ptr s - 1\<rparr>) @ [free_stack s (nat (stack_ptr s))]"
proof -
  have "nat (stack_ptr s + 1) = Suc (nat (stack_ptr s))" using assms by simp
  then show ?thesis by (simp add: stack_list_def)
qed

lemma length_stack_list: "-1 \<le> stack_ptr s \<Longrightarrow> int (length (stack_list s)) = stack_ptr s + 1"
  by (simp add: stack_list_def)

lemma pmm_free_count_length:
  "-1 \<le> stack_ptr s \<Longrightarrow> pmm_get_free_count s = word_of_nat (length (stack_list s))"
  by (simp only: pmm_get_free_count_def length_stack_list [symmetric] of_int_of_nat_eq)

lemma stack_list_Nil_iff: "-1 \<le> stack_ptr s \<Longrightarrow> stack_list s = [] \<longleftrightarrow> stack_ptr s < 0"
  by (auto simp: stack_list_def)

lemma free_listed_push:
  assumes "free_listed bm xs" and "bitmap_test bm (frame_no x) \<noteq> 0" and "frame_no x < MAX_FRAMES"
  shows "free_listed (bitmap_unset bm (frame_no x)) (xs @ [x])"
  using assms by (auto simp: free_listed_def)

lemma free_listed_pop:
  assumes "free_listed bm (xs @ [x])"
  shows "free_listed (bitmap_set bm (frame_no x)) xs"
  using assms by (auto simp: free_listed_def) (metis imageI)

lemma free_listed_bounded:
  assumes "free_listed bm xs"
  shows "length xs \<le> unat MAX_FRAMES"
proof -
  have "distinct (map unat (map frame_no xs))"
    using assms unfolding free_listed_def distinct_map [of unat] by (simp add: inj_on_def unat_eq_iff)
  moreover have "\<forall>n \<in> set (map unat (map frame_no xs)). n < unat MAX_FRAMES"
    using assms by (auto simp: free_listed_def word_less_nat_alt)
  ultimately show ?thesis using length_distinct_bounded by fastforce
qed

subsection \<open>Every operation keeps the invariant\<close>

text \<open>The branches of \<open>pmm_alloc_frame\<close>: an empty stack, or a pop.\<close>

lemma pmm_alloc_none [op_simps]: "stack_ptr s < 0 \<Longrightarrow> pmm_alloc_frame s = (None, s)"
  by (simp add: pmm_alloc_frame_def)

lemma pmm_alloc_pop:
  assumes "pmm_inv s" and "0 \<le> stack_ptr s"
  obtains xs a s' where "stack_list s = xs @ [a]" and "pmm_alloc_frame s = (Some a, s')"
    and "stack_list s' = xs" and "stack_ptr s' = stack_ptr s - 1"
    and "frame_bitmap s' = bitmap_set (frame_bitmap s) (frame_no a)"
    and "ref_counts s' = (ref_counts s)(unat (frame_no a) := 1)"
    and "total_frames s' = total_frames s"
proof -
  let ?a = "free_stack s (nat (stack_ptr s))"
  let ?s = "snd (pmm_alloc_frame s)"
  show thesis
  proof (rule that [of "stack_list (s\<lparr>stack_ptr := stack_ptr s - 1\<rparr>)" ?a ?s])
    show "stack_list s = stack_list (s\<lparr>stack_ptr := stack_ptr s - 1\<rparr>) @ [?a]"
      by (rule stack_list_pop [OF assms(2)])
  qed (use assms(2) in \<open>simp_all add: pmm_alloc_frame_def Let_def frame_no_def\<close>)
qed

text \<open>The branches of \<open>pmm_free_frame\<close>.\<close>

lemma pmm_free_out_of_range [op_simps]: "frame_no a \<ge> MAX_FRAMES \<Longrightarrow> pmm_free_frame a s = s"
  by (simp add: pmm_free_frame_def frame_no_def Let_def)

lemma pmm_free_unreferenced [op_simps]: "ref_counts s (unat (frame_no a)) = 0 \<Longrightarrow> pmm_free_frame a s = s"
  by (simp add: pmm_free_frame_def frame_no_def Let_def)

lemma pmm_free_shared [op_simps]:
  "frame_no a < MAX_FRAMES \<Longrightarrow> ref_counts s (unat (frame_no a)) > 1 \<Longrightarrow>
   pmm_free_frame a s =
     s\<lparr>ref_counts := (ref_counts s)(unat (frame_no a) := ref_counts s (unat (frame_no a)) - 1)\<rparr>"
  by (auto simp: pmm_free_frame_def frame_no_def Let_def word_gt_0 not_le [symmetric])

lemma pmm_free_last:
  assumes "-1 \<le> stack_ptr s" and "frame_no a < MAX_FRAMES"
    and "ref_counts s (unat (frame_no a)) = 1" and "bitmap_test (frame_bitmap s) (frame_no a) \<noteq> 0"
  shows "stack_list (pmm_free_frame a s) = stack_list s @ [a]"
    and "stack_ptr (pmm_free_frame a s) = stack_ptr s + 1"
    and "frame_bitmap (pmm_free_frame a s) = bitmap_unset (frame_bitmap s) (frame_no a)"
    and "ref_counts (pmm_free_frame a s) = (ref_counts s)(unat (frame_no a) := 0)"
proof -
  show ptr: "stack_ptr (pmm_free_frame a s) = stack_ptr s + 1"
    and "frame_bitmap (pmm_free_frame a s) = bitmap_unset (frame_bitmap s) (frame_no a)"
    and "ref_counts (pmm_free_frame a s) = (ref_counts s)(unat (frame_no a) := 0)"
    using assms(2-4) by (auto simp: pmm_free_frame_def frame_no_def Let_def not_le [symmetric])
  have "free_stack (pmm_free_frame a s) = (free_stack s)(nat (stack_ptr s + 1) := a)"
    using assms(2-4) by (auto simp: pmm_free_frame_def frame_no_def Let_def not_le [symmetric])
  then show "stack_list (pmm_free_frame a s) = stack_list s @ [a]"
    by (rule stack_list_push [OF assms(1) ptr])
qed

text \<open>
  A frame with one reference that is not marked in use (it was referenced while free) is not
  pushed a second time: the bitmap guards the stack.
\<close>

lemma pmm_free_unmarked [op_simps]:
  "frame_no a < MAX_FRAMES \<Longrightarrow> ref_counts s (unat (frame_no a)) = 1 \<Longrightarrow>
   bitmap_test (frame_bitmap s) (frame_no a) = 0 \<Longrightarrow>
   pmm_free_frame a s = s\<lparr>ref_counts := (ref_counts s)(unat (frame_no a) := 0)\<rparr>"
  by (auto simp: pmm_free_frame_def frame_no_def Let_def not_le [symmetric])

lemma pmm_free_cases:
  obtains "frame_no a \<ge> MAX_FRAMES" | "ref_counts s (unat (frame_no a)) = 0"
    | "frame_no a < MAX_FRAMES" "ref_counts s (unat (frame_no a)) > 1"
    | "frame_no a < MAX_FRAMES" "ref_counts s (unat (frame_no a)) = 1"
      "bitmap_test (frame_bitmap s) (frame_no a) = 0"
    | "frame_no a < MAX_FRAMES" "ref_counts s (unat (frame_no a)) = 1"
      "bitmap_test (frame_bitmap s) (frame_no a) \<noteq> 0"
proof -
  have "ref_counts s (unat (frame_no a)) = 0 \<or> ref_counts s (unat (frame_no a)) = 1 \<or>
    ref_counts s (unat (frame_no a)) > 1"
    by (simp add: unat_arith_simps) arith
  then show thesis using that not_le by blast
qed

lemma pmm_alloc_inv [inv_pres]:
  assumes "pmm_inv s" shows "pmm_inv (snd (pmm_alloc_frame s))"
proof (cases "stack_ptr s < 0")
  case True
  with assms show ?thesis by (simp add: op_simps)
next
  case False
  then obtain xs a s' where "stack_list s = xs @ [a]" "pmm_alloc_frame s = (Some a, s')"
    "stack_list s' = xs" "stack_ptr s' = stack_ptr s - 1"
    "frame_bitmap s' = bitmap_set (frame_bitmap s) (frame_no a)"
    using pmm_alloc_pop [OF assms] by (metis not_less)
  with assms False show ?thesis
    using free_listed_pop by (auto simp: pmm_inv_def)
qed

lemma pmm_free_inv [inv_pres]:
  assumes "pmm_inv s" shows "pmm_inv (pmm_free_frame a s)"
proof (cases rule: pmm_free_cases [where a = a and s = s])
  case 5
  with assms show ?thesis
    using free_listed_push [of "frame_bitmap s" "stack_list s" a] pmm_free_last [OF _ 5]
    by (simp add: pmm_inv_def)
qed (use assms in \<open>simp_all add: op_simps pmm_inv_def\<close>)

lemma pmm_ref_inc_inv [inv_pres]: "pmm_inv s \<Longrightarrow> pmm_inv (pmm_ref_inc a s)"
  by (simp add: pmm_inv_def pmm_ref_inc_def Let_def)

subsection \<open>Runs of the allocator\<close>

datatype pmm_op = Alloc | Free u64 | RefInc u64

text \<open>A run returns the frames its allocations handed out, with the final state.\<close>

fun pmm_run :: "pmm_op list \<Rightarrow> pmm \<Rightarrow> u64 list \<times> pmm" where
  "pmm_run [] s = ([], s)"
| "pmm_run (Alloc # ops) s =
     (let (r, s') = pmm_alloc_frame s; (rs, s'') = pmm_run ops s'
      in (case r of None \<Rightarrow> rs | Some a \<Rightarrow> a # rs, s''))"
| "pmm_run (Free a # ops) s = pmm_run ops (pmm_free_frame a s)"
| "pmm_run (RefInc a # ops) s = pmm_run ops (pmm_ref_inc a s)"

lemma pmm_run_inv: "pmm_inv s \<Longrightarrow> pmm_inv (snd (pmm_run ops s))"
proof (induction ops s rule: pmm_run.induct)
  case (2 ops s)
  then show ?case
    using pmm_alloc_inv [OF 2(2)] by (auto simp: Let_def split: prod.splits)
qed (auto intro: inv_pres)

interpretation pmm: frame_allocator pmm_alloc_frame free_frames pmm_inv
proof (unfold_locales, goal_cases)
  case (1 s s')
  then have "stack_ptr s < 0" using pmm_alloc_pop [OF 1(1)] by (metis fst_conv not_less option.distinct(1))
  with 1 show ?case by (simp add: op_simps free_frames_def stack_list_def)
next
  case (2 s f s')
  have "0 \<le> stack_ptr s" using 2 by (simp add: pmm_alloc_frame_def split: if_splits)
  then obtain xs where xs: "stack_list s = xs @ [f]" "stack_list s' = xs"
    using pmm_alloc_pop [OF 2(1)] 2(2) by (metis Pair_inject option.inject)
  then have "f \<notin> set xs" using 2(1) by (auto simp: pmm_inv_def free_listed_def)
  then show ?case using xs pmm_alloc_inv [OF 2(1)] 2(2) by (auto simp: free_frames_def)
qed

subsection \<open>Frames in use\<close>

text \<open>How many operations of a run free, or reference, the frame with number \<open>f\<close>.\<close>

definition op_frees :: "u64 \<Rightarrow> pmm_op list \<Rightarrow> nat" where
  "op_frees f ops = length (filter (\<lambda>x. case x of Free a \<Rightarrow> frame_no a = f | _ \<Rightarrow> False) ops)"

definition op_refs :: "u64 \<Rightarrow> pmm_op list \<Rightarrow> nat" where
  "op_refs f ops = length (filter (\<lambda>x. case x of RefInc a \<Rightarrow> frame_no a = f | _ \<Rightarrow> False) ops)"

lemma op_count_simps [simp]:
  "op_frees f [] = 0" "op_refs f [] = 0"
  "op_frees f (Alloc # ops) = op_frees f ops" "op_refs f (Alloc # ops) = op_refs f ops"
  "op_frees f (Free a # ops) = (if frame_no a = f then 1 else 0) + op_frees f ops"
  "op_refs f (Free a # ops) = op_refs f ops"
  "op_frees f (RefInc a # ops) = op_frees f ops"
  "op_refs f (RefInc a # ops) = (if frame_no a = f then 1 else 0) + op_refs f ops"
  by (simp_all add: op_frees_def op_refs_def)

text \<open>A frame is held when it is marked in use and somebody references it.\<close>

definition held :: "pmm \<Rightarrow> u64 \<Rightarrow> nat \<Rightarrow> bool" where
  "held s f n \<longleftrightarrow> f < MAX_FRAMES \<and> bitmap_test (frame_bitmap s) f \<noteq> 0 \<and> unat (ref_counts s (unat f)) = n"

lemma held_not_free: "pmm_inv s \<Longrightarrow> held s f n \<Longrightarrow> a \<in> free_frames s \<Longrightarrow> frame_no a \<noteq> f"
  by (auto simp: pmm_inv_def free_listed_def held_def free_frames_def)

lemma held_alloc:
  assumes "pmm_inv s" and "held s f n" and "pmm_alloc_frame s = (r, s')"
  shows "held s' f n" and "r \<noteq> Some a \<or> frame_no a \<noteq> f"
proof -
  show 2: "r \<noteq> Some a \<or> frame_no a \<noteq> f" for a
    using assms pmm.alloc_some [OF assms(1), of a s'] held_not_free [OF assms(1,2)] by blast
  show "held s' f n"
  proof (cases "stack_ptr s < 0")
    case True
    with assms show ?thesis by (simp add: op_simps)
  next
    case False
    then have p: "0 \<le> stack_ptr s" by simp
    obtain xs a t where "pmm_alloc_frame s = (Some a, t)" "frame_bitmap t = bitmap_set (frame_bitmap s) (frame_no a)"
      "ref_counts t = (ref_counts s)(unat (frame_no a) := 1)" by (rule pmm_alloc_pop [OF assms(1) p])
    then show ?thesis using assms(2,3) 2 [of a] by (auto simp: held_def unat_eq_iff)
  qed
qed

lemma held_free_other:
  "pmm_inv s \<Longrightarrow> held s f n \<Longrightarrow> frame_no a \<noteq> f \<Longrightarrow> held (pmm_free_frame a s) f n"
  by (cases rule: pmm_free_cases [where a = a and s = s])
    (auto simp: held_def op_simps pmm_free_last pmm_inv_def unat_eq_iff)

lemma held_free_shared:
  assumes "held s f (Suc (Suc n))" and "frame_no a = f"
  shows "held (pmm_free_frame a s) f (Suc n)"
proof -
  have "ref_counts s (unat f) > 1" using assms by (simp add: held_def word_less_nat_alt)
  then show ?thesis using assms by (simp add: held_def op_simps unat_sub_if')
qed

lemma held_ref_inc:
  assumes "held s f n" and "frame_no a = f \<longrightarrow> Suc n < 2 ^ 32"
  shows "held (pmm_ref_inc a s) f (if frame_no a = f then Suc n else n)"
  using assms by (auto simp: held_def pmm_ref_inc_def frame_no_def Let_def unat_plus_if' unat_eq_iff)

lemma held_run:
  "pmm_inv s \<Longrightarrow> held s f n \<Longrightarrow> op_frees f ops < n \<Longrightarrow> n + op_refs f ops < 2 ^ 32 \<Longrightarrow>
   (\<forall>a \<in> set (fst (pmm_run ops s)). frame_no a \<noteq> f) \<and>
   held (snd (pmm_run ops s)) f (n + op_refs f ops - op_frees f ops)"
proof (induction ops s arbitrary: n rule: pmm_run.induct)
  case (1 s)
  then show ?case by simp
next
  case (2 ops s)
  obtain r s' where a: "pmm_alloc_frame s = (r, s')" by fastforce
  have "pmm_inv s'" using pmm_alloc_inv [OF 2(2)] a by simp
  moreover have "held s' f n" and "\<And>a. r \<noteq> Some a \<or> frame_no a \<noteq> f"
    using held_alloc [OF 2(2,3) a] by auto
  ultimately show ?case
    using 2(1) [OF a [symmetric] refl] 2(4,5) a
    by (auto simp: Let_def split: prod.splits option.splits)
next
  case (3 a ops s)
  have i: "pmm_inv (pmm_free_frame a s)" by (rule pmm_free_inv [OF 3(2)])
  show ?case
  proof (cases "frame_no a = f")
    case True
    with 3(4) have "1 < n" by simp
    from less_imp_Suc_add [OF this] obtain k where n: "n = Suc (Suc k)" by auto
    have "held (pmm_free_frame a s) f (Suc k)" using held_free_shared [of s f k a] 3(3) True n by simp
    with 3(1) [OF i this] 3(4,5) True n show ?thesis by simp
  next
    case False
    with 3(1) [OF i held_free_other [OF 3(2,3) False]] 3(4,5) show ?thesis by simp
  qed
next
  case (4 a ops s)
  have h: "held (pmm_ref_inc a s) f (if frame_no a = f then Suc n else n)"
    using held_ref_inc [OF 4(3), of a] 4(5) by (cases "frame_no a = f") simp_all
  show ?case
  proof (cases "frame_no a = f")
    case True
    with 4(1) [OF pmm_ref_inc_inv [OF 4(2)] h] 4(4,5) show ?thesis by simp
  next
    case False
    with 4(1) [OF pmm_ref_inc_inv [OF 4(2)] h] 4(4,5) show ?thesis by simp
  qed
qed

subsection \<open>What initialization leaves on the stack\<close>

lemma reserve_range_marks:
  assumes "reserve_range addr stop bm = Some bm'"
  shows "(\<forall>g. bitmap_test bm g \<noteq> 0 \<longrightarrow> bitmap_test bm' g \<noteq> 0) \<and>
    (\<forall>k. unat addr + k * 4096 < unat stop \<longrightarrow>
       bitmap_test bm' ((addr + word_of_nat k * PAGE_SIZE) div PAGE_SIZE) \<noteq> 0)"
proof (rule reserve_range.raw_induct [where P = "\<lambda>addr stop bm bm'.
    (\<forall>g. bitmap_test bm g \<noteq> 0 \<longrightarrow> bitmap_test bm' g \<noteq> 0) \<and>
    (\<forall>k. unat addr + k * 4096 < unat stop \<longrightarrow>
       bitmap_test bm' ((addr + word_of_nat k * PAGE_SIZE) div PAGE_SIZE) \<noteq> 0)", OF _ assms])
  fix f addr stop bm bm'
  assume IH: "\<And>addr stop bm bm'. f addr stop bm = Some bm' \<Longrightarrow>
      (\<forall>g. bitmap_test bm g \<noteq> 0 \<longrightarrow> bitmap_test bm' g \<noteq> 0) \<and>
      (\<forall>k. unat addr + k * 4096 < unat stop \<longrightarrow>
         bitmap_test bm' ((addr + word_of_nat k * PAGE_SIZE) div PAGE_SIZE) \<noteq> 0)"
    and eq: "(if addr < stop then if addr div PAGE_SIZE \<ge> MAX_FRAMES then None
        else f (addr + PAGE_SIZE) stop (bitmap_set bm (addr div PAGE_SIZE)) else Some bm) = Some bm'"
  show "(\<forall>g. bitmap_test bm g \<noteq> 0 \<longrightarrow> bitmap_test bm' g \<noteq> 0) \<and>
    (\<forall>k. unat addr + k * 4096 < unat stop \<longrightarrow>
       bitmap_test bm' ((addr + word_of_nat k * PAGE_SIZE) div PAGE_SIZE) \<noteq> 0)"
  proof (cases "addr < stop")
    case False
    with eq show ?thesis by (auto simp: word_less_nat_alt)
  next
    case True
    with eq have r: "f (addr + PAGE_SIZE) stop (bitmap_set bm (addr div PAGE_SIZE)) = Some bm'"
      by (simp split: if_splits)
    have mono: "bitmap_test bm' g \<noteq> 0" if "g = addr div PAGE_SIZE \<or> bitmap_test bm g \<noteq> 0" for g
      using IH [OF r] that by auto
    have "bitmap_test bm' ((addr + word_of_nat k * PAGE_SIZE) div PAGE_SIZE) \<noteq> 0"
      if lt: "unat addr + k * 4096 < unat stop" for k
    proof (cases k)
      case 0
      then show ?thesis using mono by simp
    next
      case (Suc j)
      have "unat stop < 2 ^ 64" using unsigned_less [of stop] by simp
      with lt Suc have "unat (addr + PAGE_SIZE) = unat addr + 4096"
        by (simp add: PAGE_SIZE_def unat_plus_if')
      with lt Suc have "unat (addr + PAGE_SIZE) + j * 4096 < unat stop" by simp
      then have "bitmap_test bm' ((addr + PAGE_SIZE + word_of_nat j * PAGE_SIZE) div PAGE_SIZE) \<noteq> 0"
        using IH [OF r] by blast
      then show ?thesis by (simp add: Suc algebra_simps)
    qed
    then show ?thesis using mono by blast
  qed
qed

lemma push_if_free_skip:
  "bitmap_test (frame_bitmap s) (word_of_nat n) \<noteq> 0 \<Longrightarrow> push_if_free n s = s"
  by (simp add: push_if_free_def Let_def)

lemma push_if_free_push:
  assumes "bitmap_test (frame_bitmap s) (word_of_nat n) = 0" and "-1 \<le> stack_ptr s"
  shows "frame_bitmap (push_if_free n s) = frame_bitmap s"
    and "ref_counts (push_if_free n s) = ref_counts s"
    and "stack_ptr (push_if_free n s) = stack_ptr s + 1"
    and "stack_list (push_if_free n s) = stack_list s @ [word_of_nat n * PAGE_SIZE]"
    and "total_frames (push_if_free n s) = total_frames s + 1"
  using assms by (simp_all add: push_if_free_def Let_def stack_list_push)

lemma push_all_free:
  assumes "stack_ptr s = -1"
  defines "t n \<equiv> fold push_if_free [0..<n] s"
  shows "frame_bitmap (t n) = frame_bitmap s \<and> ref_counts (t n) = ref_counts s \<and>
    -1 \<le> stack_ptr (t n) \<and>
    stack_list (t n) = map (\<lambda>k. word_of_nat k * PAGE_SIZE)
      (filter (\<lambda>k. bitmap_test (frame_bitmap s) (word_of_nat k) = 0) [0..<n]) \<and>
    total_frames (t n) = total_frames s + word_of_nat (length (stack_list (t n)))"
proof (induction n)
  case 0
  with assms show ?case by (simp add: stack_list_def)
next
  case (Suc n)
  have t: "t (Suc n) = push_if_free n (t n)" by (simp add: t_def)
  show ?case
  proof (cases "bitmap_test (frame_bitmap s) (word_of_nat n) = 0")
    case True
    with Suc show ?thesis by (simp add: t push_if_free_push)
  next
    case False
    with Suc show ?thesis by (simp add: t push_if_free_skip)
  qed
qed

lemma frame_no_of_nat:
  assumes "k < unat MAX_FRAMES" shows "frame_no (word_of_nat k * PAGE_SIZE) = word_of_nat k"
proof -
  have k: "k < 1048576" using assms by (simp add: MAX_FRAMES_def)
  then have u: "unat (word_of_nat k :: u64) = k" by (simp add: unat_of_nat)
  have "unat (word_of_nat k * PAGE_SIZE) = k * 4096"
    using k by (simp add: PAGE_SIZE_def unat_word_ariths unat_of_nat)
  then have "unat (frame_no (word_of_nat k * PAGE_SIZE)) = unat (word_of_nat k :: u64)"
    using u by (simp add: frame_no_def unat_div PAGE_SIZE_def)
  then show ?thesis by (simp add: unat_eq_iff)
qed

lemma pmm_init_stack:
  assumes "pmm_init m mb_info kernel_end s = Some s'" and "stack_ptr s = -1"
  obtains bm bm' n where "reserve_range 0 kernel_end bm = Some bm'"
    and "\<forall>g. bitmap_test bm' g \<noteq> 0 \<longrightarrow> bitmap_test (frame_bitmap s') g \<noteq> 0"
    and "n \<le> unat MAX_FRAMES" and "-1 \<le> stack_ptr s'"
    and "ref_counts s' = (\<lambda>i. if i < unat MAX_FRAMES then 0 else ref_counts s i)"
    and "stack_list s' = map (\<lambda>k. word_of_nat k * PAGE_SIZE)
      (filter (\<lambda>k. bitmap_test (frame_bitmap s') (word_of_nat k) = 0) [0..<n])"
    and "total_frames s' = total_frames s + word_of_nat (length (stack_list s'))"
proof -
  let ?rc = "\<lambda>i. if i < unat MAX_FRAMES then 0 else ref_counts s i"
  from assms(1) obtain bm1 mx bm2 bm3 where r2: "reserve_range 0 kernel_end bm1 = Some bm2"
    and r3: "reserve_range mb_info (mb_info + ucast (read32 m mb_info)) bm2 = Some bm3"
    and s': "s' = fold push_if_free [0..<unat (min (mx div PAGE_SIZE) MAX_FRAMES)]
                (s\<lparr>frame_bitmap := bm3, ref_counts := ?rc\<rparr>)"
    unfolding pmm_init_def Let_def by (auto simp: bind_eq_Some_conv split: prod.splits)
  have n: "unat (min (mx div PAGE_SIZE) MAX_FRAMES) \<le> unat MAX_FRAMES"
    by (simp add: word_le_nat_alt [symmetric])
  show thesis
    using push_all_free [of "s\<lparr>frame_bitmap := bm3, ref_counts := ?rc\<rparr>"
        "unat (min (mx div PAGE_SIZE) MAX_FRAMES)"] assms(2) reserve_range_marks [OF r3]
    by (intro that [OF r2 _ n]) (simp_all add: s')
qed

lemma frame_of_address:
  assumes "unat (g :: u64) * 4096 < 2 ^ 64"
  shows "(0 + word_of_nat (unat g) * PAGE_SIZE) div PAGE_SIZE = g"
proof -
  have "unat ((0 + word_of_nat (unat g) * PAGE_SIZE) div PAGE_SIZE) = unat g"
    using assms by (simp add: PAGE_SIZE_def unat_div unat_word_ariths)
  then show ?thesis by (simp add: unat_eq_iff)
qed

lemma pmm_init_free_listed:
  assumes "n \<le> unat MAX_FRAMES"
    and "xs = map (\<lambda>k. word_of_nat k * PAGE_SIZE) (filter (\<lambda>k. bitmap_test bm (word_of_nat k) = 0) [0..<n])"
  shows "free_listed bm xs"
proof -
  have k: "frame_no (word_of_nat k * PAGE_SIZE) = word_of_nat k \<and> word_of_nat k < MAX_FRAMES" if "k < n" for k
    using frame_no_of_nat [of k] assms(1) that of_nat_unat_less [of k MAX_FRAMES]
    by (simp add: word_less_nat_alt)
  have "inj_on (\<lambda>k. word_of_nat k :: u64) {..<n}"
    using assms(1) of_nat_unat_less [of _ MAX_FRAMES] by (intro inj_onI) (metis lessThan_iff order_less_le_trans)
  then have "distinct (map (\<lambda>k. word_of_nat k :: u64) (filter (\<lambda>k. bitmap_test bm (word_of_nat k) = 0) [0..<n]))"
    by (auto simp: distinct_map inj_on_def)
  moreover have "map frame_no xs = map word_of_nat (filter (\<lambda>k. bitmap_test bm (word_of_nat k) = 0) [0..<n])"
    using k by (simp add: assms(2))
  ultimately have "distinct (map frame_no xs)" by (simp only:)
  moreover have "\<forall>a \<in> set xs. frame_no a < MAX_FRAMES \<and> bitmap_test bm (frame_no a) = 0"
    using k by (auto simp: assms(2))
  ultimately show ?thesis by (simp add: free_listed_def)
qed

lemma held_funpow:
  "held s (frame_no a) n \<Longrightarrow> k < n \<Longrightarrow>
   held ((pmm_free_frame a ^^ k) s) (frame_no a) (n - k) \<and>
   stack_list ((pmm_free_frame a ^^ k) s) = stack_list s \<and>
   stack_ptr ((pmm_free_frame a ^^ k) s) = stack_ptr s"
proof (induction k)
  case (Suc k)
  let ?t = "(pmm_free_frame a ^^ k) s"
  from Suc.prems(2) less_imp_Suc_add [of "Suc k" n] obtain j where n: "n = Suc (Suc k + j)" by auto
  with Suc have h: "held ?t (frame_no a) (Suc (Suc j))" and t: "stack_list ?t = stack_list s" "stack_ptr ?t = stack_ptr s"
    by (simp_all add: Suc_diff_le)
  then have "frame_no a < MAX_FRAMES" "ref_counts ?t (unat (frame_no a)) > 1"
    by (simp_all add: held_def word_less_nat_alt)
  with held_free_shared [OF h refl] t n show ?case by (simp add: op_simps Suc_diff_le)
qed simp

lemma pmm_double_free:
  "pmm_get_ref a s = 0 \<Longrightarrow> (pmm_free_frame a ^^ j) s = s"
  by (induction j) (auto simp: pmm_get_ref_def frame_no_def Let_def not_less op_simps split: if_splits)

subsection \<open>The properties of the allocator\<close>

text \<open>
  C1. \<open>pmm_alloc_frame\<close> returns NULL exactly when no frame is free and then changes nothing.
  Otherwise it hands out a frame that was free, removes exactly this frame from the free set,
  gives it one reference, marks it in use, lowers the free count by one and keeps the invariant.
\<close>

theorem pmm_alloc_frame_correct:
  assumes "pmm_inv s"
  shows "case pmm_alloc_frame s of
      (None, s') \<Rightarrow> free_frames s = {} \<and> s' = s
    | (Some a, s') \<Rightarrow> a \<in> free_frames s \<and> free_frames s' = free_frames s - {a} \<and>
        pmm_get_ref a s' = 1 \<and> bitmap_test (frame_bitmap s') (frame_no a) \<noteq> 0 \<and>
        pmm_get_free_count s' = pmm_get_free_count s - 1 \<and> pmm_inv s'"
proof (cases "stack_ptr s < 0")
  case True
  then show ?thesis by (simp add: op_simps free_frames_def stack_list_def)
next
  case False
  then have p: "0 \<le> stack_ptr s" by simp
  obtain xs a s' where s': "stack_list s = xs @ [a]" "pmm_alloc_frame s = (Some a, s')"
    "stack_ptr s' = stack_ptr s - 1" "frame_bitmap s' = bitmap_set (frame_bitmap s) (frame_no a)"
    "ref_counts s' = (ref_counts s)(unat (frame_no a) := 1)" by (rule pmm_alloc_pop [OF assms p])
  then have "frame_no a < MAX_FRAMES" using assms by (simp add: pmm_inv_def free_listed_def)
  then show ?thesis
    using s' pmm.alloc_some [OF assms s'(2)] pmm_alloc_inv [OF assms]
    by (simp add: pmm_get_ref_def pmm_get_free_count_def frame_no_def)
qed

text \<open>
  C2. A frame that is marked in use with \<open>n\<close> references is never handed out by any later
  allocation, and stays in use, in every run of allocations, frees and references in which
  fewer than \<open>n\<close> operations free it (the reference count not overflowing 32 bits).
\<close>

theorem held_frame_not_reissued:
  assumes "pmm_inv s" and "f < MAX_FRAMES" and "bitmap_test (frame_bitmap s) f \<noteq> 0"
    and "op_frees f ops < unat (ref_counts s (unat f))"
    and "unat (ref_counts s (unat f)) + op_refs f ops < 2 ^ 32"
  shows "(\<forall>a \<in> set (fst (pmm_run ops s)). frame_no a \<noteq> f) \<and>
    bitmap_test (frame_bitmap (snd (pmm_run ops s))) f \<noteq> 0"
  using held_run [OF assms(1) _ assms(4,5)] assms(2,3) by (simp add: held_def)

text \<open>
  Sharing. A frame in use with \<open>n > 0\<close> references stays out of the free set through its
  first \<open>n - 1\<close> frees; the \<open>n\<close>-th returns exactly its address to the free set; any further
  free changes nothing.
\<close>

theorem pmm_refcount_release:
  assumes "pmm_inv s" and "frame_no a < MAX_FRAMES" and "bitmap_test (frame_bitmap s) (frame_no a) \<noteq> 0"
    and "0 < unat (pmm_get_ref a s)"
  defines "n \<equiv> unat (pmm_get_ref a s)"
  shows "(\<forall>k < n. free_frames ((pmm_free_frame a ^^ k) s) = free_frames s) \<and>
    free_frames ((pmm_free_frame a ^^ n) s) = insert a (free_frames s) \<and> a \<notin> free_frames s \<and>
    (\<forall>j. (pmm_free_frame a ^^ (n + j)) s = (pmm_free_frame a ^^ n) s)"
proof -
  let ?t = "(pmm_free_frame a ^^ (n - 1)) s"
  have h: "held s (frame_no a) n"
    using assms(2,3) by (simp add: held_def n_def pmm_get_ref_def frame_no_def Let_def)
  have n: "0 < n" and n1: "n = Suc (n - 1)" using assms(4) by (simp_all add: n_def)
  have t: "held ?t (frame_no a) 1" "stack_list ?t = stack_list s" "stack_ptr ?t = stack_ptr s"
    using held_funpow [OF h, of "n - 1"] n by simp_all
  then have r: "ref_counts ?t (unat (frame_no a)) = 1"
    by (metis held_def unat_1 unat_eq_iff)
  have last: "(pmm_free_frame a ^^ n) s = pmm_free_frame a ?t" by (subst n1) simp
  have p: "-1 \<le> stack_ptr ?t" using assms(1) t(3) by (simp add: pmm_inv_def)
  have "bitmap_test (frame_bitmap ?t) (frame_no a) \<noteq> 0" using t(1) by (simp add: held_def)
  note l = pmm_free_last [OF p assms(2) r this, folded last]
  have "pmm_get_ref a ((pmm_free_frame a ^^ n) s) = 0"
    using l(4) by (simp add: pmm_get_ref_def Let_def frame_no_def)
  then have "(pmm_free_frame a ^^ (j + n)) s = (pmm_free_frame a ^^ n) s" for j
    by (simp add: funpow_add pmm_double_free)
  then have "\<forall>j. (pmm_free_frame a ^^ (n + j)) s = (pmm_free_frame a ^^ n) s"
    by (simp only: add.commute [of n]) simp
  moreover have "\<forall>k < n. free_frames ((pmm_free_frame a ^^ k) s) = free_frames s"
    using held_funpow [OF h] by (simp add: free_frames_def)
  moreover have "free_frames ((pmm_free_frame a ^^ n) s) = insert a (free_frames s)"
    using l(1) t(2) by (simp add: free_frames_def)
  ultimately show ?thesis using held_not_free [OF assms(1) h, of a] by blast
qed

text \<open>
  From any state satisfying the invariant, no run of allocator operations pushes past the
  end of \<open>free_stack\<close>: the stack pointer stays below \<open>MAX_FRAMES\<close>, and \<open>pmm_get_free_count\<close>
  is exactly the number of free frames.
\<close>

theorem pmm_stack_bounded:
  assumes "pmm_inv s" and "pmm_run ops s = (rs, s')"
  shows "-1 \<le> stack_ptr s' \<and> stack_ptr s' < 1024 * 1024 \<and>
    unat (pmm_get_free_count s') = card (free_frames s')"
proof -
  have i: "pmm_inv s'" using pmm_run_inv [OF assms(1), of ops] assms(2) by simp
  then have ptr: "-1 \<le> stack_ptr s'" and l: "free_listed (frame_bitmap s') (stack_list s')"
    by (simp_all add: pmm_inv_def)
  have "length (stack_list s') \<le> 1048576"
    using free_listed_bounded [OF l] by (simp add: MAX_FRAMES_def)
  with length_stack_list [OF ptr] have b: "stack_ptr s' < 1048576" by linarith
  have "distinct (stack_list s')" using l by (auto simp: free_listed_def distinct_map)
  then have "card (free_frames s') = length (stack_list s')"
    by (simp add: free_frames_def distinct_card)
  moreover have "unat (pmm_get_free_count s') = length (stack_list s')"
    using \<open>length (stack_list s') \<le> 1048576\<close> by (simp add: pmm_free_count_length [OF ptr] unat_of_nat)
  ultimately show ?thesis using ptr b by simp
qed

text \<open>
  \<open>pmm_init\<close>, started on the zeroed allocator state, establishes the invariant; the total
  equals the free count; every free address is page-aligned and unreferenced, and no frame that
  overlaps the kernel image \<open>[0, kernel_end)\<close> is free.
\<close>

theorem pmm_init_correct:
  assumes "pmm_init m mb_info kernel_end s = Some s'" and "stack_ptr s = -1" and "total_frames s = 0"
  shows "pmm_inv s' \<and> pmm_get_total_frames s' = pmm_get_free_count s' \<and>
    (\<forall>a \<in> free_frames s'. a mod PAGE_SIZE = 0 \<and> pmm_get_ref a s' = 0 \<and> kernel_end \<le> a)"
proof -
  obtain bm bm' n where r: "reserve_range 0 kernel_end bm = Some bm'"
    and k: "\<forall>g. bitmap_test bm' g \<noteq> 0 \<longrightarrow> bitmap_test (frame_bitmap s') g \<noteq> 0"
    and n: "n \<le> unat MAX_FRAMES" and ptr: "-1 \<le> stack_ptr s'"
    and rc: "ref_counts s' = (\<lambda>i. if i < unat MAX_FRAMES then 0 else ref_counts s i)"
    and xs: "stack_list s' = map (\<lambda>k. word_of_nat k * PAGE_SIZE)
      (filter (\<lambda>k. bitmap_test (frame_bitmap s') (word_of_nat k) = 0) [0..<n])"
    and t: "total_frames s' = total_frames s + word_of_nat (length (stack_list s'))"
    by (rule pmm_init_stack [OF assms(1,2)])
  have l: "free_listed (frame_bitmap s') (stack_list s')" by (rule pmm_init_free_listed [OF n xs])
  have "a mod PAGE_SIZE = 0 \<and> pmm_get_ref a s' = 0 \<and> kernel_end \<le> a" if a: "a \<in> free_frames s'" for a
  proof -
    from a xs obtain i where i: "i < n" "a = word_of_nat i * PAGE_SIZE"
      "bitmap_test (frame_bitmap s') (word_of_nat i) = 0" by (auto simp: free_frames_def)
    then have fn: "frame_no a = word_of_nat i" using frame_no_of_nat n by simp
    have "i < 1048576" using i(1) n by (simp add: MAX_FRAMES_def)
    then have ua: "unat a = i * 4096" by (simp add: i(2) PAGE_SIZE_def unat_word_ariths unat_of_nat)
    then have "unat (a mod PAGE_SIZE) = 0" by (simp add: unat_mod PAGE_SIZE_def)
    moreover have "\<not> unat 0 + i * 4096 < unat kernel_end"
      using reserve_range_marks [OF r] k i(3) frame_no_of_nat [of i] i(1) n fn i(2)
      by (auto simp: frame_no_def)
    moreover have "pmm_get_ref a s' = 0"
      using rc by (simp add: pmm_get_ref_def Let_def word_less_nat_alt)
    ultimately show ?thesis using ua by (simp add: word_le_nat_alt unat_eq_0)
  qed
  then show ?thesis
    using l ptr t assms(3)
    by (simp add: pmm_inv_def pmm_get_total_frames_def pmm_free_count_length [OF ptr])
qed

subsection \<open>Concrete boots and witnesses\<close>

text \<open>
  A Multiboot2 block at \<open>base\<close> of 64 bytes: one memory-map tag with one entry, 12 KiB of RAM at
  address 0, followed by the end tag; and the zeroed static state of the allocator.
\<close>

definition boot_mem :: "u64 \<Rightarrow> mem" where
  "boot_mem base = (\<lambda>_. 0)(base := 64, base + 8 := 6, base + 12 := 40, base + 16 := 24,
     base + 33 := 0x30, base + 40 := 1)"

definition pmm_zero :: pmm where
  "pmm_zero = \<lparr>frame_bitmap = (\<lambda>_. 0), free_stack = (\<lambda>_. 0), stack_ptr = -1,
     ref_counts = (\<lambda>_. 0), total_frames = 0\<rparr>"

lemmas init_eval = pmm_init_def scan_tags.simps scan_mmap_entries.simps mark_available.simps
  reserve_range.simps read64_def read32_def read16_def boot_mem_def PAGE_SIZE_def MAX_FRAMES_def
  MULTIBOOT_TAG_TYPE_MMAP_def MULTIBOOT_TAG_TYPE_END_def pmm_zero_def

lemmas stack_eval = upt_rec push_if_free_def free_frames_def stack_list_def bitmap_set_def
  bitmap_unset_def bitmap_test_def PAGE_SIZE_def

lemma boot_example:
  "\<exists>s'. pmm_init (boot_mem 0x1000) 0x1000 0x1000 pmm_zero = Some s' \<and> free_frames s' = {0x2000}"
  by (simp add: init_eval) (simp add: stack_eval word_le_nat_alt)

text \<open>
  The loop that reserves the Multiboot information block steps from its unaligned start by
  whole pages, so a block that crosses a page boundary can leave its last page free: there is a
  boot after which a free frame overlaps the block.
\<close>

theorem pmm_init_mbi_tail_free:
  "\<exists>m mb_info kernel_end s'. pmm_init m mb_info kernel_end pmm_zero = Some s' \<and>
     (\<exists>a \<in> free_frames s'. a < mb_info + ucast (read32 m mb_info) \<and> mb_info < a + PAGE_SIZE)"
proof -
  have "\<exists>s'. pmm_init (boot_mem 0x1FF8) 0x1FF8 0x1000 pmm_zero = Some s' \<and> free_frames s' = {0x2000}"
    by (simp add: init_eval) (simp add: stack_eval word_le_nat_alt)
  moreover have "(0x2000 :: u64) < 0x1FF8 + ucast (read32 (boot_mem 0x1FF8) 0x1FF8)"
    by (simp add: read32_def read16_def boot_mem_def)
  moreover have "(0x1FF8 :: u64) < 0x2000 + PAGE_SIZE" by (simp add: PAGE_SIZE_def)
  ultimately show ?thesis by blast
qed

text \<open>An allocator state with frames 1 and 2 free and frame 5 shared by two owners.\<close>

definition pmm_ex :: pmm where
  "pmm_ex = \<lparr>frame_bitmap = (\<lambda>_. 0xFFFFFFF9), free_stack = (\<lambda>_. 0)(0 := 0x1000, 1 := 0x2000), stack_ptr = 1,
     ref_counts = (\<lambda>_. 0)(5 := 2), total_frames = 2\<rparr>"

lemmas pmm_ex_eval = pmm_ex_def pmm_inv_def free_listed_def stack_list_def upt_rec frame_no_def
  PAGE_SIZE_def MAX_FRAMES_def bitmap_test_def

lemma pmm_ex_inv: "pmm_inv pmm_ex"
  by (simp add: pmm_ex_eval)

theorem pmm_alloc_frame_correct_witness:
  "\<exists>s'. pmm_alloc_frame pmm_ex = (Some 0x2000, s') \<and> 0x2000 \<in> free_frames pmm_ex \<and> pmm_inv s'"
proof -
  obtain s' where "pmm_alloc_frame pmm_ex = (Some 0x2000, s')"
    by (simp add: pmm_alloc_frame_def pmm_ex_def Let_def)
  with pmm_alloc_frame_correct [OF pmm_ex_inv] show ?thesis by simp
qed

theorem held_frame_not_reissued_witness:
  "5 \<notin> frame_no ` set (fst (pmm_run [Alloc, Free 0x5000, RefInc 0x5000, Alloc] pmm_ex))"
  using held_frame_not_reissued [OF pmm_ex_inv, of 5 "[Alloc, Free 0x5000, RefInc 0x5000, Alloc]"]
  by (auto simp: pmm_ex_eval)

theorem pmm_refcount_release_witness:
  "free_frames ((pmm_free_frame 0x5000 ^^ 2) pmm_ex) = insert 0x5000 (free_frames pmm_ex)"
  using pmm_refcount_release [OF pmm_ex_inv, of "0x5000"]
  by (simp add: pmm_ex_eval pmm_get_ref_def)

theorem pmm_stack_bounded_witness:
  "stack_ptr (snd (pmm_run [Alloc, Alloc, Alloc] pmm_ex)) < 1024 * 1024"
  using pmm_stack_bounded [OF pmm_ex_inv, of "[Alloc, Alloc, Alloc]"] by (metis prod.collapse)

theorem pmm_init_correct_witness:
  "\<exists>s'. pmm_init (boot_mem 0x1000) 0x1000 0x1000 pmm_zero = Some s' \<and> pmm_inv s' \<and> free_frames s' = {0x2000}"
  using boot_example pmm_init_correct [of "boot_mem 0x1000" "0x1000" "0x1000" pmm_zero]
  by (auto simp: pmm_zero_def)

end
