(* ===== verification/Kmalloc.thy ===== *)
theory Kmalloc
  imports Prelude Interfaces Pmm
begin

text \<open>
  Model of \<open>src/kernel/kmalloc.c\<close>: a first-fit heap of 16 MiB at 16 MiB. Every block is a
  24-byte header (\<open>size\<close>, \<open>is_free\<close>, \<open>next\<close>) followed by its payload; headers form a singly
  linked list in address order. Memory is represented by the header stored at each address
  (\<open>hdrs\<close>); the payload bytes are not represented, and \<open>kmalloc_disjoint\<close> below shows that no
  header lies in the payload of a live block. Each operation runs under \<open>kmalloc_lock\<close> and is
  one state change. The list loops follow pointers and are option-valued: \<open>None\<close> is a walk
  that does not end; the theorems prove that it ends on every heap the operations build.
\<close>

subsection \<open>State\<close>

definition HEAP_START :: u64 where "HEAP_START = 0x1000000"

definition HEAP_SIZE :: u64 where "HEAP_SIZE = 0x1000000"

text \<open>\<open>sizeof(struct kmalloc_header)\<close>: two 8-byte fields and an \<open>int\<close> padded to 8 bytes.\<close>

definition HEADER_SIZE :: u64 where "HEADER_SIZE = 24"

record kmalloc_header =
  hd_size :: u64
  is_free :: u32
  hd_next :: u64

record kmalloc_stats_t =
  alloc_count :: u64
  free_count :: u64
  live_allocations :: u64
  bytes_used :: u64
  peak_bytes_used :: u64
  bytes_free :: u64
  largest_free_block :: u64
  failed_allocations :: u64

record kheap =
  hdrs :: "u64 \<Rightarrow> kmalloc_header"
  free_list_head :: u64
  kmalloc_stats :: kmalloc_stats_t

subsection \<open>Operations\<close>

definition kmalloc_init :: "kheap \<Rightarrow> pmm \<Rightarrow> kheap \<times> pmm" where
  "kmalloc_init s p =
     (let p' = ((\<lambda>p. snd (pmm_alloc_frame p)) ^^ unat (HEAP_SIZE div PAGE_SIZE)) p;
          h = \<lparr>hd_size = HEAP_SIZE - HEADER_SIZE, is_free = 1, hd_next = 0\<rparr>
      in (s\<lparr>hdrs := (hdrs s)(HEAP_START := h),
            free_list_head := HEAP_START,
            kmalloc_stats := \<lparr>alloc_count = 0, free_count = 0, live_allocations = 0,
              bytes_used = 0, peak_bytes_used = 0, bytes_free = hd_size h,
              largest_free_block = hd_size h, failed_allocations = 0\<rparr>\<rparr>, p'))"

text \<open>The split of block \<open>cur\<close> when the rest can hold a header and 8 bytes.\<close>

definition split_block :: "u64 \<Rightarrow> u64 \<Rightarrow> (u64 \<Rightarrow> kmalloc_header) \<Rightarrow> (u64 \<Rightarrow> kmalloc_header)" where
  "split_block sz cur h =
     (if hd_size (h cur) \<ge> sz + HEADER_SIZE + 8 then
        let new_block = cur + HEADER_SIZE + sz;
            h1 = h(new_block := \<lparr>hd_size = hd_size (h cur) - sz - HEADER_SIZE, is_free = 1,
                                 hd_next = hd_next (h cur)\<rparr>)
        in h1(cur := (h1 cur)\<lparr>hd_size := sz, hd_next := new_block\<rparr>)
      else h)"

definition count_alloc :: "u64 \<Rightarrow> kmalloc_stats_t \<Rightarrow> kmalloc_stats_t" where
  "count_alloc sz st =
     (let st1 = st\<lparr>alloc_count := alloc_count st + 1,
                   live_allocations := live_allocations st + 1,
                   bytes_used := bytes_used st + sz\<rparr>
      in if bytes_used st1 > peak_bytes_used st1
         then st1\<lparr>peak_bytes_used := bytes_used st1\<rparr> else st1)"

definition take_block :: "u64 \<Rightarrow> u64 \<Rightarrow> kheap \<Rightarrow> kheap" where
  "take_block sz cur s =
     (let h1 = split_block sz cur (hdrs s);
          h2 = h1(cur := (h1 cur)\<lparr>is_free := 0\<rparr>)
      in s\<lparr>hdrs := h2, kmalloc_stats := count_alloc (hd_size (h2 cur)) (kmalloc_stats s)\<rparr>)"

definition fail_alloc :: "kheap \<Rightarrow> kheap" where
  "fail_alloc s = s\<lparr>kmalloc_stats := (kmalloc_stats s)
     \<lparr>failed_allocations := failed_allocations (kmalloc_stats s) + 1\<rparr>\<rparr>"

partial_function (option) kmalloc_loop :: "u64 \<Rightarrow> u64 \<Rightarrow> kheap \<Rightarrow> (u64 \<times> kheap) option" where
  "kmalloc_loop sz cur s =
     (if cur \<noteq> 0 then
        if is_free (hdrs s cur) \<noteq> 0 \<and> hd_size (hdrs s cur) \<ge> sz
        then Some (cur + HEADER_SIZE, take_block sz cur s)
        else kmalloc_loop sz (hd_next (hdrs s cur)) s
      else Some (0, fail_alloc s))"

definition align8 :: "u64 \<Rightarrow> u64" where
  "align8 sz = (sz + 7) AND NOT 7"

definition kmalloc :: "u64 \<Rightarrow> kheap \<Rightarrow> (u64 \<times> kheap) option" where
  "kmalloc sz s = kmalloc_loop (align8 sz) (free_list_head s) s"

text \<open>The pass over the list that merges each free block with the free blocks after it.\<close>

partial_function (option) merge_loop ::
  "u64 \<Rightarrow> (u64 \<Rightarrow> kmalloc_header) \<Rightarrow> (u64 \<Rightarrow> kmalloc_header) option" where
  "merge_loop cur h =
     (if cur \<noteq> 0 \<and> hd_next (h cur) \<noteq> 0 then
        let nxt = hd_next (h cur) in
        if is_free (h cur) \<noteq> 0 \<and> is_free (h nxt) \<noteq> 0
        then merge_loop cur (h(cur := (h cur)
               \<lparr>hd_size := hd_size (h cur) + (hd_size (h nxt) + HEADER_SIZE), hd_next := hd_next (h nxt)\<rparr>))
        else merge_loop nxt h
      else Some h)"

definition count_free :: "u64 \<Rightarrow> kmalloc_stats_t \<Rightarrow> kmalloc_stats_t" where
  "count_free sz st =
     (let st1 = st\<lparr>free_count := free_count st + 1\<rparr>;
          st2 = (if live_allocations st1 > 0
                 then st1\<lparr>live_allocations := live_allocations st1 - 1\<rparr> else st1)
      in if bytes_used st2 \<ge> sz then st2\<lparr>bytes_used := bytes_used st2 - sz\<rparr>
         else st2\<lparr>bytes_used := 0\<rparr>)"

definition kfree :: "u64 \<Rightarrow> kheap \<Rightarrow> kheap option" where
  "kfree ptr s =
     (if ptr = 0 then Some s
      else
        let header = ptr - HEADER_SIZE in
        if is_free (hdrs s header) \<noteq> 0 then Some s
        else do {
          let h1 = (hdrs s)(header := (hdrs s header)\<lparr>is_free := 1\<rparr>);
          h2 \<leftarrow> merge_loop (free_list_head s) h1;
          Some (s\<lparr>hdrs := h2, kmalloc_stats := count_free (hd_size (h1 header)) (kmalloc_stats s)\<rparr>) })"

partial_function (option) stats_loop ::
  "u64 \<Rightarrow> (u64 \<Rightarrow> kmalloc_header) \<Rightarrow> u64 \<Rightarrow> u64 \<Rightarrow> (u64 \<times> u64) option" where
  "stats_loop cur h free_sum largest =
     (if cur \<noteq> 0 then
        if is_free (h cur) \<noteq> 0
        then stats_loop (hd_next (h cur)) h (free_sum + hd_size (h cur))
               (if hd_size (h cur) > largest then hd_size (h cur) else largest)
        else stats_loop (hd_next (h cur)) h free_sum largest
      else Some (free_sum, largest))"

definition kmalloc_get_stats :: "kheap \<Rightarrow> (kmalloc_stats_t \<times> kheap) option" where
  "kmalloc_get_stats s =
     do { (free_sum, largest) \<leftarrow> stats_loop (free_list_head s) (hdrs s) 0 0;
          let st = (kmalloc_stats s)\<lparr>bytes_free := free_sum, largest_free_block := largest\<rparr>;
          Some (st, s\<lparr>kmalloc_stats := st\<rparr>) }"

subsection \<open>The abstract heap: a list of blocks in address order\<close>

text \<open>A block is its payload size and whether it is free.\<close>

type_synonym block = "nat \<times> bool"

text \<open>
  \<open>rep h p lo bs\<close>: the headers reachable from \<open>p\<close>, the first at address \<open>lo\<close>, are exactly the
  blocks \<open>bs\<close>, laid out without gaps up to the end of the heap.
\<close>

primrec rep :: "(u64 \<Rightarrow> kmalloc_header) \<Rightarrow> u64 \<Rightarrow> nat \<Rightarrow> block list \<Rightarrow> bool" where
  "rep h p lo [] \<longleftrightarrow> p = 0 \<and> lo = 0x2000000"
| "rep h p lo (b # bs) \<longleftrightarrow> unat p = lo \<and> unat (hd_size (h p)) = fst b \<and> (is_free (h p) \<noteq> 0) = snd b
     \<and> 8 dvd fst b \<and> rep h (hd_next (h p)) (lo + 24 + fst b) bs"

definition extent :: "block list \<Rightarrow> nat" where
  "extent bs = sum_list (map (\<lambda>b. 24 + fst b) bs)"

primrec lives :: "nat \<Rightarrow> block list \<Rightarrow> (nat \<times> nat) list" where
  "lives lo [] = []"
| "lives lo (b # bs) = (if snd b then [] else [(lo + 24, fst b)]) @ lives (lo + 24 + fst b) bs"

definition carve :: "nat \<Rightarrow> nat \<Rightarrow> block list" where
  "carve n m = (if n + 32 \<le> m then [(n, False), (m - n - 24, True)] else [(m, False)])"

primrec first_fit :: "nat \<Rightarrow> nat \<Rightarrow> block list \<Rightarrow> (nat \<times> block list) option" where
  "first_fit lo n [] = None"
| "first_fit lo n (b # bs) =
     (if snd b \<and> n \<le> fst b then Some (lo + 24, carve n (fst b) @ bs)
      else map_option (\<lambda>(a, bs'). (a, b # bs')) (first_fit (lo + 24 + fst b) n bs))"

primrec release :: "nat \<Rightarrow> nat \<Rightarrow> block list \<Rightarrow> block list" where
  "release lo a [] = []"
| "release lo a (b # bs) =
     (if a = lo + 24 then (fst b, True) # bs else b # release (lo + 24 + fst b) a bs)"

fun coalesce :: "block list \<Rightarrow> block list" where
  "coalesce [] = []"
| "coalesce [b] = [b]"
| "coalesce ((m, f) # (n, g) # bs) =
     (if f \<and> g then coalesce ((m + n + 24, True) # bs) else (m, f) # coalesce ((n, g) # bs))"

abbreviation coalesced :: "block list \<Rightarrow> bool" where
  "coalesced \<equiv> successively (\<lambda>b c. \<not> (snd b \<and> snd c))"

lemma extent_simps [simp]:
  "extent [] = 0" "extent (b # bs) = 24 + fst b + extent bs" "extent (xs @ ys) = extent xs + extent ys"
  by (simp_all add: extent_def)

lemma lives_append: "lives lo (xs @ ys) = lives lo xs @ lives (lo + extent xs) ys"
  by (induction xs arbitrary: lo) (auto simp: algebra_simps)

lemma lives_coalesce [simp]: "lives lo (coalesce bs) = lives lo bs"
proof (induction bs arbitrary: lo rule: coalesce.induct)
  case (3 m f n g bs)
  then show ?case by (cases "f \<and> g") (auto simp: algebra_simps)
qed simp_all

lemma extent_coalesce [simp]: "extent (coalesce bs) = extent bs"
  by (induction bs rule: coalesce.induct) auto

lemma coalesce_hd: "\<exists>b' cs. coalesce (b # bs) = b' # cs \<and> (snd b' \<longleftrightarrow> snd b)"
proof (induction "b # bs" arbitrary: b bs rule: coalesce.induct)
  case (3 m f n g bs)
  show ?case
  proof (cases "f \<and> g")
    case True
    then show ?thesis using 3(1) [OF True] True by auto
  qed auto
qed auto

lemma coalesced_coalesce: "coalesced (coalesce bs)"
proof (induction bs rule: coalesce.induct)
  case (3 m f n g bs)
  obtain b' cs where c: "coalesce ((n, g) # bs) = b' # cs" "snd b' \<longleftrightarrow> snd (n, g)"
    using coalesce_hd by blast
  show ?case
  proof (cases "f \<and> g")
    case True
    then show ?thesis using 3(1) by simp
  next
    case False
    then have "coalesced (coalesce ((n, g) # bs))" using 3(2) by blast
    then show ?thesis using False c by auto
  qed
qed simp_all

lemma lives_range: "(a, k) \<in> set (lives lo bs) \<Longrightarrow> lo + 24 \<le> a \<and> a + k \<le> lo + extent bs"
proof (induction bs arbitrary: lo)
  case (Cons b bs)
  show ?case
  proof (cases "(a, k) \<in> set (lives (lo + 24 + fst b) bs)")
    case True
    then show ?thesis using Cons.IH [OF True] by simp
  next
    case False
    then show ?thesis using Cons.prems by (auto split: if_splits)
  qed
qed simp

text \<open>Live payloads are separated by at least a header, in address order.\<close>

lemma lives_separated: "sorted_wrt (\<lambda>(a, k) (b, j). a + k + 24 \<le> b) (lives lo bs)"
proof (induction bs arbitrary: lo)
  case (Cons b bs)
  have "lo + 24 + fst b + 24 \<le> fst x" if "x \<in> set (lives (lo + 24 + fst b) bs)" for x
    using lives_range [of "fst x" "snd x" "lo + 24 + fst b" bs] that by simp
  then show ?case using Cons.IH by (auto simp: sorted_wrt_append)
qed simp

lemma lives_split:
  "(a, k) \<in> set (lives lo bs) \<Longrightarrow>
   \<exists>xs ys. bs = xs @ (k, False) # ys \<and> a = lo + extent xs + 24"
proof (induction bs arbitrary: lo)
  case (Cons b bs)
  show ?case
  proof (cases "(a, k) \<in> set (lives (lo + 24 + fst b) bs)")
    case True
    from Cons.IH [OF this] obtain xs ys
      where "bs = xs @ (k, False) # ys" "a = lo + 24 + fst b + extent xs + 24" by blast
    then have "b # bs = (b # xs) @ (k, False) # ys \<and> a = lo + extent (b # xs) + 24" by simp
    then show ?thesis by blast
  next
    case False
    with Cons.prems have "b # bs = [] @ (k, False) # bs \<and> a = lo + extent [] + 24"
      by (cases b) (auto split: if_splits)
    then show ?thesis by blast
  qed
qed simp

lemma first_fit_split:
  "first_fit lo n bs = Some (a, bs') \<Longrightarrow>
   \<exists>xs m ys. bs = xs @ (m, True) # ys \<and> n \<le> m \<and> a = lo + extent xs + 24 \<and> bs' = xs @ carve n m @ ys"
proof (induction bs arbitrary: lo bs')
  case (Cons b bs)
  show ?case
  proof (cases "snd b \<and> n \<le> fst b")
    case True
    with Cons.prems have "b # bs = [] @ (fst b, True) # bs \<and> n \<le> fst b \<and> a = lo + extent [] + 24 \<and>
        bs' = [] @ carve n (fst b) @ bs" by (cases b) auto
    then show ?thesis by blast
  next
    case False
    with Cons.prems obtain cs where c: "first_fit (lo + 24 + fst b) n bs = Some (a, cs)" "bs' = b # cs"
      by (auto split: if_splits)
    from Cons.IH [OF c(1)] obtain xs m ys where "bs = xs @ (m, True) # ys" "n \<le> m"
      "a = lo + 24 + fst b + extent xs + 24" "cs = xs @ carve n m @ ys" by blast
    with c(2) have "b # bs = (b # xs) @ (m, True) # ys \<and> n \<le> m \<and> a = lo + extent (b # xs) + 24 \<and>
        bs' = (b # xs) @ carve n m @ ys" by simp
    then show ?thesis by blast
  qed
qed simp

lemma first_fit_None: "first_fit lo n bs = None \<longleftrightarrow> (\<forall>b \<in> set bs. \<not> (snd b \<and> n \<le> fst b))"
  by (induction bs arbitrary: lo) auto

lemma release_split:
  "a = lo + extent xs + 24 \<Longrightarrow> release lo a (xs @ (k, f) # ys) = xs @ (k, True) # ys"
proof (induction xs arbitrary: lo)
  case (Cons b xs)
  have "a = lo + 24 + fst b + extent xs + 24" and "a \<noteq> lo + 24" using Cons.prems by simp_all
  with Cons.IH [OF this(1)] show ?case by (simp only: append_Cons release.simps if_False)
qed simp

subsection \<open>From headers to blocks\<close>

lemma rep_extent: "rep h p lo bs \<Longrightarrow> lo + extent bs = 0x2000000"
proof (induction bs arbitrary: p lo)
  case (Cons b bs)
  have "rep h (hd_next (h p)) (lo + 24 + fst b) bs" using Cons.prems by simp
  from Cons.IH [OF this] show ?case by simp
qed simp

lemma rep_frame:
  "rep h p lo bs \<Longrightarrow> (\<And>q. lo \<le> unat q \<Longrightarrow> h' q = h q) \<Longrightarrow> rep h' p lo bs"
proof (induction bs arbitrary: p lo)
  case (Cons b bs)
  then have "h' p = h p" by simp
  moreover have "rep h' (hd_next (h p)) (lo + 24 + fst b) bs"
    using Cons.prems by (intro Cons.IH) auto
  ultimately show ?case using Cons.prems by simp
qed simp

lemma rep_tail:
  "rep h p lo (xs @ ys) \<Longrightarrow> ys \<noteq> [] \<Longrightarrow> rep h (word_of_nat (lo + extent xs)) (lo + extent xs) ys"
proof (induction xs arbitrary: p lo)
  case Nil
  then obtain y zs where "ys = y # zs" by (cases ys) auto
  with Nil have "unat p = lo" by simp
  then have "p = word_of_nat lo" by auto
  with Nil show ?case by simp
next
  case (Cons b xs)
  then have "rep h (hd_next (h p)) (lo + 24 + fst b) (xs @ ys)" by simp
  from Cons.IH [OF this Cons.prems(2)] show ?case by (simp add: algebra_simps)
qed

text \<open>The blocks from some point on are replaced, the headers before that point unchanged.\<close>

lemma rep_replace:
  assumes "rep h p lo (xs @ ys)" and "ys \<noteq> []"
    and "\<And>q. unat q < lo + extent xs \<Longrightarrow> h' q = h q"
    and "rep h' (word_of_nat (lo + extent xs)) (lo + extent xs) zs"
  shows "rep h' p lo (xs @ zs)"
  using assms
proof (induction xs arbitrary: p lo)
  case Nil
  then obtain y ys' where "ys = y # ys'" by (cases ys) auto
  with Nil have "unat p = lo" by simp
  then have "p = word_of_nat lo" by auto
  with Nil show ?case by simp
next
  case (Cons b xs)
  then have p: "unat p = lo" and r: "rep h (hd_next (h p)) (lo + 24 + fst b) (xs @ ys)" by simp_all
  have e: "lo + extent (b # xs) = lo + 24 + fst b + extent xs" by simp
  have "h' p = h p" using p by (intro Cons.prems(3)) simp
  moreover have "rep h' (hd_next (h p)) (lo + 24 + fst b) (xs @ zs)"
  proof (rule Cons.IH [OF r Cons.prems(2)])
    show "h' q = h q" if "unat q < lo + 24 + fst b + extent xs" for q
      using that by (intro Cons.prems(3)) (simp only: e)
    show "rep h' (word_of_nat (lo + 24 + fst b + extent xs)) (lo + 24 + fst b + extent xs) zs"
      using Cons.prems(4) unfolding e .
  qed
  ultimately show ?case using Cons.prems(1) by simp
qed

lemma rep_words:
  assumes "rep h p lo (b # bs)"
  shows "unat (p + HEADER_SIZE) = lo + 24" "fst b \<le> 0x2000000" "lo + 24 + fst b \<le> 0x2000000"
    "p = word_of_nat lo" "hd_size (h p) = word_of_nat (fst b)"
proof -
  have e: "lo + extent (b # bs) = 0x2000000" by (rule rep_extent [OF assms])
  then show "fst b \<le> 0x2000000" and "lo + 24 + fst b \<le> 0x2000000" by simp_all
  have "unat p = lo" "unat (hd_size (h p)) = fst b" using assms by simp_all
  then show "p = word_of_nat lo" and "hd_size (h p) = word_of_nat (fst b)"
    by (simp_all only: word_of_natI)
  show "unat (p + HEADER_SIZE) = lo + 24"
    using \<open>unat p = lo\<close> \<open>lo + 24 + fst b \<le> _\<close> by (simp add: HEADER_SIZE_def unat_word_ariths)
qed

lemma kmalloc_loop_first_fit:
  "rep (hdrs s) p lo bs \<Longrightarrow> 0 < lo \<Longrightarrow>
   kmalloc_loop n p s = (case first_fit lo (unat n) bs of
     None \<Rightarrow> Some (0, fail_alloc s)
   | Some (a, _) \<Rightarrow> Some (word_of_nat a, take_block n (word_of_nat (a - 24)) s))"
proof (induction bs arbitrary: p lo)
  case Nil
  then show ?case by (simp add: kmalloc_loop.simps)
next
  case (Cons b bs)
  have p: "p \<noteq> 0" using Cons.prems by auto
  note w = rep_words [OF Cons.prems(1)]
  have "p + HEADER_SIZE = word_of_nat (lo + 24)"
    by (rule word_of_natI [OF w(1)])
  moreover have "hd_size (hdrs s p) \<ge> n \<longleftrightarrow> unat n \<le> fst b"
    using Cons.prems(1) by (simp add: word_le_nat_alt)
  moreover have "kmalloc_loop n (hd_next (hdrs s p)) s = (case first_fit (lo + 24 + fst b) (unat n) bs of
     None \<Rightarrow> Some (0, fail_alloc s)
   | Some (a, _) \<Rightarrow> Some (word_of_nat a, take_block n (word_of_nat (a - 24)) s))"
    using Cons.prems by (intro Cons.IH) auto
  moreover have "(is_free (hdrs s p) \<noteq> 0) = snd b" using Cons.prems(1) by simp
  ultimately show ?case
    using p w(4) by (subst kmalloc_loop.simps) (auto split: option.splits)
qed

lemma split_block_rep:
  assumes r: "rep h c lo ((m, f) # ys)" and lo: "0 < lo" and n: "unat n \<le> m" "8 dvd unat n"
  defines "h' \<equiv> (split_block n c h)(c := (split_block n c h c)\<lparr>is_free := 0\<rparr>)"
  shows "rep h' c lo (carve (unat n) m @ ys)" and "\<And>q. unat q < lo \<Longrightarrow> h' q = h q"
    and "unat (hd_size (h' c)) = fst (hd (carve (unat n) m))"
proof -
  have c: "unat c = lo" "unat (hd_size (h c)) = m" "8 dvd m" "rep h (hd_next (h c)) (lo + 24 + m) ys"
    using r by simp_all
  have b: "lo + 24 + m \<le> 0x2000000" using rep_words(3) [OF r] by simp
  have fits: "hd_size (h c) \<ge> n + HEADER_SIZE + 8 \<longleftrightarrow> unat n + 32 \<le> m"
    using n b c(2) by (simp add: word_le_nat_alt HEADER_SIZE_def unat_word_ariths) linarith
  have "rep h' c lo (carve (unat n) m @ ys) \<and> (\<forall>q. unat q < lo \<longrightarrow> h' q = h q) \<and>
    unat (hd_size (h' c)) = fst (hd (carve (unat n) m))"
  proof (cases "unat n + 32 \<le> m")
    case True
    let ?d = "c + HEADER_SIZE + n"
    have d: "unat ?d = lo + 24 + unat n"
      using True b c(1) by (simp add: HEADER_SIZE_def unat_word_ariths)
    have cd: "?d \<noteq> c"
    proof
      assume "?d = c"
      with d have "unat c = lo + 24 + unat n" by (simp only:)
      with c(1) show False by simp
    qed
    have rest: "unat (hd_size (h c) - n - HEADER_SIZE) = m - unat n - 24"
      using True c(2) b by (simp add: HEADER_SIZE_def unat_sub_if')
    have h': "h' = h(?d := \<lparr>hd_size = hd_size (h c) - n - HEADER_SIZE, is_free = 1, hd_next = hd_next (h c)\<rparr>,
        c := (h c)\<lparr>hd_size := n, hd_next := ?d, is_free := 0\<rparr>)"
      using True fits cd by (simp add: h'_def split_block_def Let_def)
    have "lo + 24 + unat n + 24 + (m - unat n - 24) = lo + 24 + m" using True by simp
    moreover have "rep h' (hd_next (h c)) (lo + 24 + m) ys"
    proof (rule rep_frame [OF c(4)])
      show "h' q = h q" if "lo + 24 + m \<le> unat q" for q
        using that c(1) d True unfolding h' by auto
    qed
    moreover have "8 dvd m - unat n - 24" using c(3) n(2) by (intro dvd_diff_nat) simp_all
    moreover have "h' q = h q" if "unat q < lo" for q
      using that c(1) d unfolding h' by auto
    moreover have hd: "h' c = (h c)\<lparr>hd_size := n, hd_next := ?d, is_free := 0\<rparr>"
      "h' ?d = \<lparr>hd_size = hd_size (h c) - n - HEADER_SIZE, is_free = 1, hd_next = hd_next (h c)\<rparr>"
      using cd by (simp_all add: h')
    ultimately have "rep h' ?d (lo + 24 + unat n) ((m - unat n - 24, True) # ys)"
      using d rest by (simp only: rep.simps fst_conv snd_conv kmalloc_header.simps) simp
    with hd c(1) n(2) True \<open>\<And>q. unat q < lo \<Longrightarrow> h' q = h q\<close> show ?thesis
      by (simp only: carve_def if_True append_Cons append_Nil rep.simps fst_conv snd_conv list.sel)
        (simp only: kmalloc_header.simps, simp)
  next
    case False
    have h': "h' = h(c := (h c)\<lparr>is_free := 0\<rparr>)" using False fits by (simp add: h'_def split_block_def)
    have "rep h' (hd_next (h c)) (lo + 24 + m) ys"
    proof (rule rep_frame [OF c(4)])
      show "h' q = h q" if "lo + 24 + m \<le> unat q" for q using that c(1) unfolding h' by auto
    qed
    moreover have "h' q = h q" if "unat q < lo" for q using that c(1) unfolding h' by auto
    ultimately show ?thesis using False c by (simp add: h' carve_def)
  qed
  then show "rep h' c lo (carve (unat n) m @ ys)" and "\<And>q. unat q < lo \<Longrightarrow> h' q = h q"
    and "unat (hd_size (h' c)) = fst (hd (carve (unat n) m))" by blast+
qed

lemma take_block_rep:
  assumes r: "rep (hdrs s) p lo (xs @ (m, True) # ys)" and lo: "0 < lo"
    and n: "unat n \<le> m" "8 dvd unat n" and c: "c = word_of_nat (lo + extent xs)"
  shows "rep (hdrs (take_block n c s)) p lo (xs @ carve (unat n) m @ ys)"
    and "unat (hd_size (hdrs (take_block n c s) c)) = fst (hd (carve (unat n) m))"
proof -
  have t: "rep (hdrs s) c (lo + extent xs) ((m, True) # ys)" using rep_tail [OF r] c by simp
  have l: "0 < lo + extent xs" using lo by simp
  have h: "hdrs (take_block n c s) = (split_block n c (hdrs s))(c := (split_block n c (hdrs s) c)\<lparr>is_free := 0\<rparr>)"
    by (simp add: take_block_def Let_def)
  note sb = split_block_rep [OF t l n, folded h]
  show "rep (hdrs (take_block n c s)) p lo (xs @ carve (unat n) m @ ys)"
    by (rule rep_replace [OF r]) (use sb c in simp_all)
  show "unat (hd_size (hdrs (take_block n c s) c)) = fst (hd (carve (unat n) m))" by (rule sb)
qed

lemma merge_loop_coalesce:
  "rep h p lo bs \<Longrightarrow> 0 < lo \<Longrightarrow>
   \<exists>h'. merge_loop p h = Some h' \<and> rep h' p lo (coalesce bs) \<and> (\<forall>q. unat q < lo \<longrightarrow> h' q = h q)"
proof (induction bs arbitrary: h p lo rule: coalesce.induct)
  case 1
  then show ?case by (simp add: merge_loop.simps)
next
  case (2 b)
  then show ?case by (simp add: merge_loop.simps)
next
  case (3 m f n g bs)
  let ?q = "hd_next (h p)"
  have p: "unat p = lo" "p \<noteq> 0" "(is_free (h p) \<noteq> 0) = f" "unat (hd_size (h p)) = m" "8 dvd m"
    and tail: "rep h ?q (lo + 24 + m) ((n, g) # bs)" using 3(3,4) by auto
  have q: "unat ?q = lo + 24 + m" "?q \<noteq> 0" "(is_free (h ?q) \<noteq> 0) = g" "unat (hd_size (h ?q)) = n" "8 dvd n"
    and tail': "rep h (hd_next (h ?q)) (lo + 24 + m + 24 + n) bs" using tail by auto
  show ?case
  proof (cases "f \<and> g")
    case True
    let ?h = "h(p := (h p)\<lparr>hd_size := hd_size (h p) + (hd_size (h ?q) + HEADER_SIZE), hd_next := hd_next (h ?q)\<rparr>)"
    have "unat (hd_size (h p) + (hd_size (h ?q) + HEADER_SIZE)) = m + n + 24"
      using p(4) q(4) rep_words(3) [OF tail] by (simp add: HEADER_SIZE_def unat_word_ariths)
    moreover have "8 dvd m + n + 24" using p(5) q(5) by (intro dvd_add) simp_all
    moreover have "rep ?h (hd_next (h ?q)) (lo + 24 + m + 24 + n) bs"
      by (rule rep_frame [OF tail']) (use p(1) in auto)
    then have "rep ?h (hd_next (h ?q)) (lo + 24 + (m + n + 24)) bs"
      by (simp only: ac_simps)
    ultimately have "rep ?h p lo ((m + n + 24, True) # bs)"
      using p(1,3) True by simp
    from 3(1) [OF True this 3(4)] obtain h' where h': "merge_loop p ?h = Some h'"
      "rep h' p lo (coalesce ((m + n + 24, True) # bs))" "\<forall>q. unat q < lo \<longrightarrow> h' q = ?h q" by blast
    have "merge_loop p h = merge_loop p ?h"
      using p(2,3) q(2,3) True by (subst merge_loop.simps) (simp add: Let_def)
    moreover have "\<forall>q. unat q < lo \<longrightarrow> h' q = h q" using h'(3) p(1) by auto
    ultimately show ?thesis using h'(1,2) True by simp
  next
    case False
    have l: "0 < lo + 24 + m" by simp
    from 3(2) [OF False tail l] obtain h' where h': "merge_loop ?q h = Some h'"
      "rep h' ?q (lo + 24 + m) (coalesce ((n, g) # bs))" "\<forall>q. unat q < lo + 24 + m \<longrightarrow> h' q = h q" by blast
    have "merge_loop p h = merge_loop ?q h"
      using p(2,3) q(2,3) False by (subst merge_loop.simps) (auto simp: Let_def)
    moreover have "h' p = h p" using h'(3) p(1) by simp
    moreover have "coalesce ((m, f) # (n, g) # bs) = (m, f) # coalesce ((n, g) # bs)"
      using False by auto
    ultimately show ?thesis using h' p by simp
  qed
qed

subsection \<open>The heap invariant\<close>

text \<open>The block list read off the headers; a heap of 16 MiB holds at most 699050 headers.\<close>

primrec walk :: "nat \<Rightarrow> (u64 \<Rightarrow> kmalloc_header) \<Rightarrow> u64 \<Rightarrow> block list" where
  "walk 0 h p = []"
| "walk (Suc n) h p =
     (if p = 0 then [] else (unat (hd_size (h p)), is_free (h p) \<noteq> 0) # walk n h (hd_next (h p)))"

definition HEAP_LO :: nat where "HEAP_LO = 0x1000000"

definition heap_blocks :: "kheap \<Rightarrow> block list" where
  "heap_blocks s = walk 699050 (hdrs s) (free_list_head s)"

text \<open>Address and size of every live payload.\<close>

definition live :: "kheap \<Rightarrow> (nat \<times> nat) set" where
  "live s = set (lives HEAP_LO (heap_blocks s))"

definition stats_ok :: "kmalloc_stats_t \<Rightarrow> (nat \<times> nat) list \<Rightarrow> bool" where
  "stats_ok st ls \<longleftrightarrow> unat (bytes_used st) = sum_list (map snd ls) \<and>
     unat (live_allocations st) = length ls \<and> bytes_used st \<le> peak_bytes_used st"

definition heap_inv :: "kheap \<Rightarrow> bool" where
  "heap_inv s \<longleftrightarrow> rep (hdrs s) (free_list_head s) HEAP_LO (heap_blocks s) \<and>
     coalesced (heap_blocks s) \<and> stats_ok (kmalloc_stats s) (lives HEAP_LO (heap_blocks s))"

lemma walk_rep: "rep h p lo bs \<Longrightarrow> 0 < lo \<Longrightarrow> length bs \<le> n \<Longrightarrow> walk n h p = bs"
proof (induction bs arbitrary: p lo n)
  case Nil
  then show ?case by (cases n) auto
next
  case (Cons b bs)
  then obtain k where n: "n = Suc k" and k: "length bs \<le> k" by (cases n) auto
  have "rep h (hd_next (h p)) (lo + 24 + fst b) bs" using Cons.prems(1) by simp
  from Cons.IH [OF this _ k] have "walk k h (hd_next (h p)) = bs" by simp
  then show ?case using Cons.prems n by (cases b) auto
qed

lemma length_extent: "24 * length bs \<le> extent bs"
  by (induction bs) auto

lemma heap_blocks_rep:
  assumes "rep (hdrs s) (free_list_head s) HEAP_LO bs" shows "heap_blocks s = bs"
proof -
  have "24 * length bs \<le> 0x1000000" using rep_extent [OF assms] length_extent [of bs]
    by (simp add: HEAP_LO_def)
  then show ?thesis unfolding heap_blocks_def using assms
    by (intro walk_rep [of _ _ HEAP_LO]) (simp_all add: HEAP_LO_def)
qed

lemma heap_invI:
  assumes "rep (hdrs s) (free_list_head s) HEAP_LO bs" and "coalesced bs"
    and "stats_ok (kmalloc_stats s) (lives HEAP_LO bs)"
  shows "heap_inv s" "heap_blocks s = bs"
  using assms heap_blocks_rep [OF assms(1)] by (simp_all add: heap_inv_def)

lemma sum_lives: "sum_list (map snd (lives lo bs)) + 24 * length (lives lo bs) \<le> extent bs"
proof (induction bs arbitrary: lo)
  case (Cons b bs)
  from Cons.IH [of "lo + 24 + fst b"] show ?case by (cases "snd b") simp_all
qed simp

lemma stats_bound:
  assumes "rep h p HEAP_LO bs" and "stats_ok st (lives HEAP_LO bs)"
  shows "unat (bytes_used st) + 24 * unat (live_allocations st) \<le> 0x1000000"
  using rep_extent [OF assms(1)] sum_lives [of HEAP_LO bs] assms(2)
  by (simp add: stats_ok_def HEAP_LO_def)

lemma align8_dvd: "8 dvd unat (align8 n)"
proof -
  have "take_bit 3 (align8 n) = 0"
    by (rule bit_word_eqI) (auto simp: align8_def bit_simps)
  then have "take_bit 3 (unat (align8 n)) = 0"
    by (simp flip: unsigned_take_bit_eq)
  then show ?thesis by (simp add: take_bit_eq_mod dvd_eq_mod_eq_0)
qed

lemma extent_carve [simp]: "n \<le> m \<Longrightarrow> extent (carve n m) = 24 + m"
  by (simp add: carve_def)

lemma lives_carve: "n \<le> m \<Longrightarrow> lives lo (carve n m @ ys) = (lo + 24, fst (hd (carve n m))) # lives (lo + 24 + m) ys"
  by (simp add: carve_def) (simp only: ac_simps, simp)

lemma carve_size: "n \<le> m \<Longrightarrow> n \<le> fst (hd (carve n m))"
  by (simp add: carve_def)

lemma coalesced_carve: "coalesced (xs @ (m, True) # ys) \<Longrightarrow> coalesced (xs @ carve n m @ ys)"
  by (auto simp: carve_def successively_append_iff successively_Cons)

lemma count_alloc_ok:
  assumes "stats_ok st (us @ vs)" and "unat k + sum_list (map snd (us @ vs)) \<le> 0x1000000"
    and "length (us @ vs) \<le> 0x1000000"
  shows "stats_ok (count_alloc k st) (us @ (a, unat k) # vs)"
proof -
  have "unat (bytes_used st + k) = unat (bytes_used st) + unat k"
    and "unat (live_allocations st + 1) = unat (live_allocations st) + 1"
    using assms by (simp_all add: stats_ok_def unat_word_ariths)
  then show ?thesis using assms(1) by (auto simp: stats_ok_def count_alloc_def Let_def)
qed

lemma rep_dvd: "rep h p lo (xs @ ys) \<Longrightarrow> 8 dvd extent xs"
proof (induction xs arbitrary: p lo)
  case (Cons b xs)
  have "rep h (hd_next (h p)) (lo + 24 + fst b) (xs @ ys)" "8 dvd fst b" using Cons.prems by simp_all
  with Cons.IH show ?case by simp
qed simp

lemma take_block_stats [simp]:
  "kmalloc_stats (take_block n c s) = count_alloc (hd_size (hdrs (take_block n c s) c)) (kmalloc_stats s)"
  "free_list_head (take_block n c s) = free_list_head s"
  by (simp_all add: take_block_def Let_def)

lemma fail_alloc_inv [inv_pres]: "heap_inv s \<Longrightarrow> heap_inv (fail_alloc s)"
  and fail_alloc_blocks [simp]: "heap_blocks (fail_alloc s) = heap_blocks s"
  by (simp_all add: heap_inv_def fail_alloc_def heap_blocks_def stats_ok_def)

text \<open>The successful branch: which block is taken, and what the heap is afterwards.\<close>

lemma kmalloc_some:
  assumes inv: "heap_inv s" and ff: "first_fit HEAP_LO (unat (align8 n)) (heap_blocks s) = Some (a, bs')"
  obtains s' us vs k where "kmalloc n s = Some (word_of_nat a, s')" "heap_inv s'" "heap_blocks s' = bs'"
    "lives HEAP_LO (heap_blocks s) = us @ vs" "lives HEAP_LO bs' = us @ (a, k) # vs"
    "unat (align8 n) \<le> k" "8 dvd a" "HEAP_LO < a" "a + k \<le> 0x2000000"
proof -
  let ?n = "align8 n" and ?p = "free_list_head s" and ?bs = "heap_blocks s"
  from first_fit_split [OF ff] obtain xs m ys where bs: "?bs = xs @ (m, True) # ys" and m: "unat ?n \<le> m"
    and a: "a = HEAP_LO + extent xs + 24" and bs': "bs' = xs @ carve (unat ?n) m @ ys" by blast
  have r: "rep (hdrs s) ?p HEAP_LO (xs @ (m, True) # ys)" and co: "coalesced (xs @ (m, True) # ys)"
    and st: "stats_ok (kmalloc_stats s) (lives HEAP_LO ?bs)" using inv bs by (simp_all add: heap_inv_def)
  define c :: u64 where "c = word_of_nat (HEAP_LO + extent xs)"
  define s' where "s' = take_block ?n c s"
  have pos: "0 < HEAP_LO" by (simp add: HEAP_LO_def)
  note tb = take_block_rep [OF r pos m align8_dvd c_def]
  have r': "rep (hdrs s') (free_list_head s') HEAP_LO bs'" using tb(1) by (simp add: s'_def bs')
  define us vs where "us = lives HEAP_LO xs" and "vs = lives (HEAP_LO + extent xs + 24 + m) ys"
  define k where "k = hd_size (hdrs s' c)"
  have k: "unat k = fst (hd (carve (unat ?n) m))" using tb(2) by (simp add: k_def s'_def)
  have l: "lives HEAP_LO ?bs = us @ vs" by (simp add: bs lives_append us_def vs_def)
  have l': "lives HEAP_LO bs' = us @ (a, unat k) # vs"
    by (simp only: bs' lives_append [of _ xs] lives_carve [OF m] us_def vs_def k a)
  have e: "extent bs' = 0x1000000" using rep_extent [OF r'] by (simp add: HEAP_LO_def)
  then have "stats_ok (count_alloc k (kmalloc_stats s)) (us @ (a, unat k) # vs)"
    using sum_lives [of HEAP_LO bs'] st unfolding l l' by (intro count_alloc_ok) simp_all
  then have "heap_inv s' \<and> heap_blocks s' = bs'"
    using heap_invI [OF r'] coalesced_carve [OF co] l' bs' by (simp add: s'_def k_def)
  moreover have "kmalloc n s = Some (word_of_nat a, s')"
    using kmalloc_loop_first_fit [OF r pos] ff a bs by (simp add: kmalloc_def s'_def c_def)
  moreover have "8 dvd a"
    using rep_dvd [OF r] by (simp add: a HEAP_LO_def)
  moreover have "HEAP_LO < a" by (simp add: a)
  moreover have "a + unat k \<le> 0x2000000"
    using lives_range [of a "unat k" HEAP_LO bs'] l' e by (simp add: HEAP_LO_def)
  moreover have "unat ?n \<le> unat k" using carve_size [OF m] k by simp
  ultimately show ?thesis using that l l' by blast
qed

lemma count_free_ok:
  assumes "stats_ok st (us @ (a, unat k) # vs)"
  shows "stats_ok (count_free k st) (us @ vs)"
proof -
  have st: "unat (bytes_used st) = unat k + sum_list (map snd (us @ vs))"
    "unat (live_allocations st) = Suc (length (us @ vs))" "bytes_used st \<le> peak_bytes_used st"
    using assms by (simp_all add: stats_ok_def)
  then have "k \<le> bytes_used st" "live_allocations st > 0"
    by (simp_all add: word_le_nat_alt word_less_nat_alt)
  moreover have "unat (bytes_used st - k) = sum_list (map snd (us @ vs))"
    using st(1) \<open>k \<le> bytes_used st\<close> by (simp add: unat_sub_if' word_le_nat_alt)
  moreover have "unat (live_allocations st - 1) = length (us @ vs)"
    using st(2) by (simp add: unat_sub_if')
  ultimately show ?thesis
    using st(1,3) by (simp add: stats_ok_def count_free_def Let_def word_le_nat_alt)
qed

lemma kfree_live:
  assumes inv: "heap_inv s" and lv: "(a, k) \<in> live s"
  obtains s' us vs where "kfree (word_of_nat a) s = Some s'" "heap_inv s'"
    "heap_blocks s' = coalesce (release HEAP_LO a (heap_blocks s))"
    "lives HEAP_LO (heap_blocks s) = us @ (a, k) # vs" "lives HEAP_LO (heap_blocks s') = us @ vs"
proof -
  let ?p = "free_list_head s"
  from lives_split [OF lv [unfolded live_def]] obtain xs ys
    where bs: "heap_blocks s = xs @ (k, False) # ys" and a: "a = HEAP_LO + extent xs + 24" by blast
  have r: "rep (hdrs s) ?p HEAP_LO (xs @ (k, False) # ys)"
    and st: "stats_ok (kmalloc_stats s) (lives HEAP_LO (heap_blocks s))"
    using inv bs by (simp_all add: heap_inv_def)
  have pos: "0 < HEAP_LO" by (simp add: HEAP_LO_def)
  define c :: u64 where "c = word_of_nat (HEAP_LO + extent xs)"
  have t: "rep (hdrs s) c (HEAP_LO + extent xs) ((k, False) # ys)" using rep_tail [OF r] c_def by simp
  then have c: "unat c = HEAP_LO + extent xs" "is_free (hdrs s c) = 0" "unat (hd_size (hdrs s c)) = k" by simp_all
  have ac: "word_of_nat a - HEADER_SIZE = c" by (simp add: a c_def HEADER_SIZE_def)
  have a0: "(word_of_nat a :: u64) \<noteq> 0"
  proof -
    have "unat (c + HEADER_SIZE) = HEAP_LO + extent xs + 24" by (rule rep_words(1) [OF t])
    moreover have "word_of_nat a = c + HEADER_SIZE" by (simp add: a c_def HEADER_SIZE_def)
    ultimately show ?thesis by auto
  qed
  define h1 where "h1 = (hdrs s)(c := (hdrs s c)\<lparr>is_free := 1\<rparr>)"
  have "rep h1 c (HEAP_LO + extent xs) ((k, True) # ys)"
  proof -
    have "rep h1 (hd_next (hdrs s c)) (HEAP_LO + extent xs + 24 + k) ys"
      by (rule rep_frame [of "hdrs s"]) (use t c(1) in \<open>auto simp: h1_def\<close>)
    then show ?thesis using t by (simp add: h1_def)
  qed
  then have r1: "rep h1 ?p HEAP_LO (xs @ (k, True) # ys)"
    by (intro rep_replace [OF r]) (use c(1) in \<open>auto simp: h1_def c_def\<close>)
  from merge_loop_coalesce [OF r1 pos] obtain h2 where h2: "merge_loop ?p h1 = Some h2"
    "rep h2 ?p HEAP_LO (coalesce (xs @ (k, True) # ys))" by blast
  define s' where "s' = s\<lparr>hdrs := h2, kmalloc_stats := count_free (hd_size (h1 c)) (kmalloc_stats s)\<rparr>"
  define us vs where "us = lives HEAP_LO xs" and "vs = lives (HEAP_LO + extent xs + 24 + k) ys"
  have l: "lives HEAP_LO (heap_blocks s) = us @ (a, k) # vs"
    by (simp add: bs lives_append us_def vs_def a)
  have l': "lives HEAP_LO (coalesce (xs @ (k, True) # ys)) = us @ vs"
    by (simp add: lives_append us_def vs_def)
  have "hd_size (h1 c) = hd_size (hdrs s c)" by (simp add: h1_def)
  then have "stats_ok (kmalloc_stats s') (us @ vs)"
    using st l c(3) by (simp add: s'_def) (metis count_free_ok)
  then have "heap_inv s'" "heap_blocks s' = coalesce (xs @ (k, True) # ys)"
    using heap_invI [of s'] h2(2) coalesced_coalesce l' by (simp_all add: s'_def)
  moreover have "kfree (word_of_nat a) s = Some s'"
    using a0 c(2) h2(1) by (simp add: kfree_def ac Let_def s'_def flip: h1_def)
  ultimately show ?thesis using that l l' by (simp add: bs release_split [OF a])
qed

lemma align8_ge: "unat sz \<le> 2 ^ 64 - 8 \<Longrightarrow> unat sz \<le> unat (align8 sz)"
proof -
  assume le: "unat sz \<le> 2 ^ 64 - 8"
  then have s: "unat (sz + 7) = unat sz + 7" by (simp add: unat_word_ariths)
  have "sz + 7 = align8 sz + take_bit 3 (sz + 7)"
  proof -
    have "align8 sz = (sz + 7) AND NOT (mask 3)" by (simp add: align8_def mask_eq_exp_minus_1)
    then have "align8 sz + take_bit 3 (sz + 7) = (sz + 7) AND NOT (mask 3) OR (sz + 7) AND mask 3"
      by (simp add: take_bit_eq_mask) (rule disjunctive_add, auto simp: bit_simps)
    also have "\<dots> = sz + 7" by (rule bit_word_eqI) (auto simp: bit_simps)
    finally show ?thesis by simp
  qed
  then have "unat (sz + 7) \<le> unat (align8 sz) + unat (take_bit 3 (sz + 7))"
    using unat_add_le [of "align8 sz" "take_bit 3 (sz + 7)"] by simp
  moreover have "unat (take_bit 3 (sz + 7)) < 8"
    by (simp add: take_bit_eq_mod unat_mod)
  ultimately show ?thesis using s by simp
qed

lemma lives_apart:
  assumes "(a, k) \<in> set (lives lo bs)" and "(b, j) \<in> set (lives lo bs)" and "(a, k) \<noteq> (b, j)"
  shows "a + k < b \<or> b + j < a"
proof -
  have t: "sorted_wrt (\<lambda>(a, k) (b, j). a + k + 24 \<le> b) xs \<Longrightarrow> x \<in> set xs \<Longrightarrow> y \<in> set xs \<Longrightarrow> x \<noteq> y \<Longrightarrow>
    fst x + snd x + 24 \<le> fst y \<or> fst y + snd y + 24 \<le> fst x" for x y :: "nat \<times> nat" and xs
    by (induction xs) auto
  from t [OF lives_separated assms] show ?thesis by auto
qed

lemma lives_distinct: "distinct (lives lo bs)"
proof -
  have "sorted_wrt (\<noteq>) (lives lo bs)"
    by (rule sorted_wrt_mono_rel [OF _ lives_separated]) auto
  then show ?thesis by (simp add: distinct_conv_nth sorted_wrt_iff_nth_less) (metis nat_neq_iff)
qed

lemma live_insert:
  assumes "lives HEAP_LO (heap_blocks s) = us @ vs" and "lives HEAP_LO (heap_blocks s') = us @ x # vs"
  shows "x \<notin> live s" "live s' = insert x (live s)"
  using assms lives_distinct [of HEAP_LO "heap_blocks s'"] by (auto simp: live_def)

lemma live_in_heap: "heap_inv s \<Longrightarrow> (a, k) \<in> live s \<Longrightarrow> HEAP_LO < a \<and> a + k \<le> 0x2000000"
  using lives_range [of a k HEAP_LO "heap_blocks s"] rep_extent [of "hdrs s" "free_list_head s" HEAP_LO "heap_blocks s"]
  by (simp add: live_def heap_inv_def)

lemma kmalloc_cases:
  assumes "heap_inv s" and "kmalloc n s = Some (p, s')"
  obtains (full) "p = 0" "s' = fail_alloc s" "first_fit HEAP_LO (unat (align8 n)) (heap_blocks s) = None"
  | (granted) a k us vs where "p = word_of_nat a" "unat p = a" "heap_inv s'"
      "first_fit HEAP_LO (unat (align8 n)) (heap_blocks s) = Some (a, heap_blocks s')"
      "lives HEAP_LO (heap_blocks s) = us @ vs" "lives HEAP_LO (heap_blocks s') = us @ (a, k) # vs"
      "unat (align8 n) \<le> k" "8 dvd a" "HEAP_LO < a" "a + k \<le> 0x2000000"
proof (cases "first_fit HEAP_LO (unat (align8 n)) (heap_blocks s)")
  case None
  have "kmalloc n s = Some (0, fail_alloc s)"
    using kmalloc_loop_first_fit [of s "free_list_head s" HEAP_LO "heap_blocks s" "align8 n"] assms(1) None
    by (simp add: kmalloc_def heap_inv_def HEAP_LO_def)
  with assms(2) None show ?thesis using full by simp
next
  case (Some r)
  obtain a bs' where r: "first_fit HEAP_LO (unat (align8 n)) (heap_blocks s) = Some (a, bs')"
    using Some by (cases r) auto
  from kmalloc_some [OF assms(1) r] obtain s1 us vs k where k: "kmalloc n s = Some (word_of_nat a, s1)"
    "heap_inv s1" "heap_blocks s1 = bs'" "lives HEAP_LO (heap_blocks s) = us @ vs"
    "lives HEAP_LO bs' = us @ (a, k) # vs" "unat (align8 n) \<le> k" "8 dvd a" "HEAP_LO < a" "a + k \<le> 0x2000000" .
  moreover have "unat (word_of_nat a :: u64) = a" using k(9) by (simp add: unat_of_nat)
  ultimately show ?thesis using granted [of a us vs k] r assms(2) by simp
qed

lemma kmalloc_total: "heap_inv s \<Longrightarrow> \<exists>p s'. kmalloc n s = Some (p, s')"
  using kmalloc_loop_first_fit [of s "free_list_head s" HEAP_LO "heap_blocks s" "align8 n"]
  by (auto simp: kmalloc_def heap_inv_def HEAP_LO_def split: option.splits)

text \<open>kmalloc.c provides the heap interface its clients rest on.\<close>

interpretation heap: heap_allocator kmalloc kfree 0 unat "\<lambda>n. unat (align8 n)" live heap_inv
proof (unfold_locales, goal_cases)
  case (1 s n)
  then show ?case by (rule kmalloc_total)
next
  case (2 s n s')
  from 2 show ?case
  proof (cases rule: kmalloc_cases)
    case full
    with 2(1) show ?thesis by (simp add: fail_alloc_inv live_def)
  next
    case (granted a k us vs)
    from granted(2,9) show ?thesis by simp
  qed
next
  case (3 s n p s')
  from 3(1,2) show ?case
  proof (cases rule: kmalloc_cases)
    case full
    with 3(3) show ?thesis by simp
  next
    case (granted a k us vs)
    from live_insert [OF granted(5,6)] granted(2,3,7) show ?thesis
      by (intro conjI exI [of _ k]) simp_all
  qed
next
  case (4 s a k b j)
  then show ?case using lives_apart by (simp add: live_def)
next
  case (5 s p k)
  from kfree_live [OF 5] obtain s' us vs where "kfree (word_of_nat (unat p)) s = Some s'" "heap_inv s'"
    "lives HEAP_LO (heap_blocks s) = us @ (unat p, k) # vs" "lives HEAP_LO (heap_blocks s') = us @ vs" .
  then show ?case
    using live_insert [of s' us vs s "(unat p, k)"] by (intro exI [of _ s']) simp
next
  case (6 s)
  then show ?case by (simp add: kfree_def)
qed

subsection \<open>Statistics and initialization\<close>

definition free_sizes :: "block list \<Rightarrow> nat list" where
  "free_sizes bs = map fst (filter snd bs)"

lemma free_sizes_simps [simp]:
  "free_sizes [] = []" "free_sizes (b # bs) = (if snd b then [fst b] else []) @ free_sizes bs"
  by (simp_all add: free_sizes_def)

lemma stats_loop_rep:
  "rep h p lo bs \<Longrightarrow> 0 < lo \<Longrightarrow>
   stats_loop p h n g = Some (n + word_of_nat (sum_list (free_sizes bs)),
     word_of_nat (fold max (free_sizes bs) (unat g)))"
proof (induction bs arbitrary: p lo n g)
  case Nil
  then show ?case by (simp add: stats_loop.simps)
next
  case (Cons b bs)
  have p: "p \<noteq> 0" "(is_free (h p) \<noteq> 0) = snd b" "hd_size (h p) = word_of_nat (fst b)"
    "unat (hd_size (h p)) = fst b" "rep h (hd_next (h p)) (lo + 24 + fst b) bs"
    using Cons.prems rep_words(5) [OF Cons.prems(1)] by auto
  have "unat (if hd_size (h p) > g then hd_size (h p) else g) = max (fst b) (unat g)"
    using p(4) by (auto simp: word_less_nat_alt max_def)
  then show ?case
    using p Cons.IH [OF p(5), of "n + hd_size (h p)"] Cons.IH [OF p(5), of n g]
    by (subst stats_loop.simps) (simp add: add.assoc)
qed

lemma kmalloc_init_inv: "heap_inv (fst (kmalloc_init s p))"
  and kmalloc_init_blocks: "heap_blocks (fst (kmalloc_init s p)) = [(0xFFFFE8, True)]"
proof -
  let ?s = "fst (kmalloc_init s p)"
  have "rep (hdrs ?s) (free_list_head ?s) HEAP_LO [(0xFFFFE8, True)]"
    by (simp add: kmalloc_init_def HEAP_LO_def HEAP_START_def HEAP_SIZE_def HEADER_SIZE_def Let_def)
  from heap_invI [OF this] show "heap_inv ?s" "heap_blocks ?s = [(0xFFFFE8, True)]"
    by (simp_all add: stats_ok_def kmalloc_init_def Let_def)
qed

lemma kmalloc_stats_inv [inv_pres]: "heap_inv s \<Longrightarrow> kmalloc_get_stats s = Some (st, s') \<Longrightarrow> heap_inv s'"
  by (auto simp: kmalloc_get_stats_def heap_inv_def heap_blocks_def stats_ok_def Let_def
      split: Option.bind_splits prod.splits)

text \<open>
  The steps a correct client may take: requests of any size, the return of null or of a live
  pointer, and reading the statistics.
\<close>

inductive heap_step :: "kheap \<Rightarrow> kheap \<Rightarrow> bool" where
  step_malloc: "kmalloc n s = Some (p, s') \<Longrightarrow> heap_step s s'"
| step_free: "(unat p, k) \<in> live s \<Longrightarrow> kfree p s = Some s' \<Longrightarrow> heap_step s s'"
| step_free_null: "kfree 0 s = Some s' \<Longrightarrow> heap_step s s'"
| step_stats: "kmalloc_get_stats s = Some (st, s') \<Longrightarrow> heap_step s s'"

lemma heap_step_inv [inv_pres]: "heap_step s s' \<Longrightarrow> heap_inv s \<Longrightarrow> heap_inv s'"
proof (induction rule: heap_step.induct)
  case (step_malloc n s p s')
  then show ?case using heap.malloc_inv by blast
next
  case (step_free p k s s')
  then show ?case using heap.give_back_live [of s p k] by auto
next
  case (step_free_null s s')
  then show ?case by (simp add: kfree_def)
next
  case (step_stats s st s')
  then show ?case using kmalloc_stats_inv by blast
qed

lemma heap_steps_inv: "heap_step\<^sup>*\<^sup>* s s' \<Longrightarrow> heap_inv s \<Longrightarrow> heap_inv s'"
  by (induction rule: rtranclp_induct) (auto intro: heap_step_inv)

lemma lives_Nil: "lives lo bs = [] \<Longrightarrow> \<forall>b \<in> set bs. snd b"
  by (induction bs arbitrary: lo) (auto split: if_splits)

lemma all_free_single:
  assumes "coalesced bs" and "\<forall>b \<in> set bs. snd b" and "extent bs = 0x1000000"
  shows "bs = [(0xFFFFE8, True)]"
proof (cases bs)
  case Nil
  with assms(3) show ?thesis by simp
next
  case (Cons b cs)
  have "cs = []"
  proof (rule ccontr)
    assume "cs \<noteq> []"
    then show False using assms(1,2) Cons by (cases cs) auto
  qed
  with Cons assms(2,3) show ?thesis by (cases b) simp
qed

subsection \<open>Properties\<close>

lemma sum_blocks:
  "sum_list (free_sizes bs) + sum_list (map snd (lives lo bs)) + 24 * length bs = extent bs"
proof (induction bs arbitrary: lo)
  case (Cons b bs)
  from Cons.IH [of "lo + 24 + fst b"] show ?case by (cases "snd b") simp_all
qed simp

lemma fold_max_le: "(\<forall>x \<in> set xs. x \<le> N) \<Longrightarrow> a \<le> (N::nat) \<Longrightarrow> fold max xs a \<le> N"
  by (induction xs arbitrary: a) simp_all

text \<open>
  C3. Functional refinement of \<open>kmalloc\<close>: on a well-formed heap it is first fit on the block
  list. When no free block is large enough it answers NULL and only counts the failure;
  otherwise it answers the payload of the first free block that is large enough, split when the
  rest holds a header and 8 bytes, and the new heap is well-formed with exactly these blocks.
\<close>

theorem kmalloc_first_fit:
  assumes "heap_inv s"
  shows "case first_fit HEAP_LO (unat (align8 n)) (heap_blocks s) of
     None \<Rightarrow> kmalloc n s = Some (0, fail_alloc s)
   | Some (a, bs') \<Rightarrow> \<exists>s'. kmalloc n s = Some (word_of_nat a, s') \<and> heap_blocks s' = bs' \<and> heap_inv s'"
proof -
  obtain p s' where k: "kmalloc n s = Some (p, s')" using kmalloc_total [OF assms] by blast
  from assms k show ?thesis
  proof (cases rule: kmalloc_cases)
    case full
    then show ?thesis using k by simp
  next
    case (granted a j us vs)
    then show ?thesis using k by simp
  qed
qed

text \<open>
  C4. Safety of \<open>kmalloc\<close>: a non-NULL answer to a request that does not wrap is 8-byte aligned
  and has at least the requested bytes inside the heap, apart from the payload of every other
  live block by at least a byte of header.
\<close>

theorem kmalloc_disjoint:
  assumes "heap_inv s" and "kmalloc n s = Some (p, s')" and "p \<noteq> 0" and "unat n \<le> 2 ^ 64 - 8"
  shows "unat p mod 8 = 0 \<and> (\<exists>k \<ge> unat n. live s' = insert (unat p, k) (live s) \<and>
     HEAP_LO < unat p \<and> unat p + k \<le> 0x2000000 \<and>
     (\<forall>(b, j) \<in> live s. unat p + k < b \<or> b + j < unat p))"
  using assms(1,2)
proof (cases rule: kmalloc_cases)
  case full
  with assms(3) show ?thesis by simp
next
  case (granted a k us vs)
  note li = live_insert [OF granted(5,6)]
  have "a + k < b \<or> b + j < a" if "(b, j) \<in> live s" for b j
    using li that by (intro heap.live_apart [OF granted(3)]) auto
  moreover have "unat n \<le> k" using align8_ge [OF assms(4)] granted(7) by simp
  ultimately show ?thesis using granted(2,8,9,10) li(2) by (intro conjI exI [of _ k]) auto
qed

text \<open>
  C5. Functional refinement of \<open>kfree\<close>: returning a live payload ends, marks its block free,
  merges all neighbouring free blocks, removes exactly this payload from the live ones (all
  others keep their address and size), and keeps the heap well-formed.
\<close>

theorem kfree_refines:
  assumes "heap_inv s" and "(unat p, k) \<in> live s"
  shows "\<exists>s'. kfree p s = Some s' \<and> heap_inv s' \<and> live s' = live s - {(unat p, k)} \<and>
    heap_blocks s' = coalesce (release HEAP_LO (unat p) (heap_blocks s))"
proof -
  from kfree_live [OF assms] obtain s' where "kfree (word_of_nat (unat p)) s = Some s'"
    "heap_blocks s' = coalesce (release HEAP_LO (unat p) (heap_blocks s))" by metis
  then show ?thesis using heap.give_back_live [OF assms] by auto
qed

text \<open>
  Double free: a second \<open>kfree\<close> of the same pointer, right after the first, finds the
  header marked free and changes nothing; this needs no well-formedness of the heap.
\<close>

theorem kfree_twice:
  assumes "kfree p s = Some s'"
  shows "kfree p s' = Some s'"
proof -
  have keep: "merge_loop c h = Some h' \<Longrightarrow> is_free (h' q) = is_free (h q)" for c h h' q
  proof (rule merge_loop.raw_induct [of "\<lambda>c h h'. is_free (h' q) = is_free (h q)"], goal_cases)
    case (1 f c h h')
    then show ?case by (auto simp: Let_def split: if_splits)
  qed
  show ?thesis using assms by (auto simp: kfree_def Let_def keep split: if_splits Option.bind_splits)
qed

text \<open>
  C6. Accounting over every history: however a correct client allocates, frees and reads the
  statistics after \<open>kmalloc_init\<close>, the heap stays well-formed (in particular \<open>bytes_used\<close> and
  \<open>live_allocations\<close> are the size and number of the live payloads, and no two adjacent
  blocks are free), and when the live count is back to 0 the heap is one free block again.
\<close>

theorem heap_history_accounted:
  assumes "heap_step\<^sup>*\<^sup>* (fst (kmalloc_init s0 p0)) s"
  shows "heap_inv s \<and> (live_allocations (kmalloc_stats s) = 0 \<longrightarrow> heap_blocks s = [(0xFFFFE8, True)])"
proof -
  have i: "heap_inv s" by (rule heap_steps_inv [OF assms kmalloc_init_inv])
  moreover have "heap_blocks s = [(0xFFFFE8, True)]" if "live_allocations (kmalloc_stats s) = 0"
  proof -
    have "lives HEAP_LO (heap_blocks s) = []" using i that by (simp add: heap_inv_def stats_ok_def)
    moreover have "HEAP_LO + extent (heap_blocks s) = 0x2000000"
      using i rep_extent by (auto simp: heap_inv_def)
    ultimately show ?thesis
      using i lives_Nil by (intro all_free_single) (auto simp: heap_inv_def HEAP_LO_def)
  qed
  ultimately show ?thesis by blast
qed

text \<open>
  \<open>kmalloc_get_stats\<close> always returns; its free total is the sum of the free block sizes
  and its largest block their maximum, and nothing but the statistics changes.
\<close>

theorem kmalloc_get_stats_correct:
  assumes "heap_inv s"
  shows "\<exists>st. kmalloc_get_stats s = Some (st, s\<lparr>kmalloc_stats := st\<rparr>) \<and>
     unat (bytes_free st) = sum_list (free_sizes (heap_blocks s)) \<and>
     unat (largest_free_block st) = fold max (free_sizes (heap_blocks s)) 0 \<and>
     unat (bytes_used st) + unat (bytes_free st) + 24 * length (heap_blocks s) = unat HEAP_SIZE"
proof -
  let ?bs = "heap_blocks s" and ?f = "free_sizes (heap_blocks s)"
  have r: "rep (hdrs s) (free_list_head s) HEAP_LO ?bs"
    and st: "stats_ok (kmalloc_stats s) (lives HEAP_LO ?bs)" using assms by (simp_all add: heap_inv_def)
  have e: "extent ?bs = 0x1000000" using rep_extent [OF r] by (simp add: HEAP_LO_def)
  note sum = sum_blocks [of ?bs HEAP_LO, unfolded e]
  have "x \<le> sum_list ?f" if "x \<in> set ?f" for x by (rule member_le_sum_list [OF that]) simp
  then have m: "fold max ?f 0 \<le> 0x1000000" using sum by (intro fold_max_le) fastforce+
  let ?st = "(kmalloc_stats s)\<lparr>bytes_free := word_of_nat (sum_list ?f),
    largest_free_block := word_of_nat (fold max ?f 0)\<rparr>"
  have "kmalloc_get_stats s = Some (?st, s\<lparr>kmalloc_stats := ?st\<rparr>)"
    using stats_loop_rep [OF r, of 0 0] by (simp add: kmalloc_get_stats_def Let_def HEAP_LO_def)
  moreover have "unat (word_of_nat (sum_list ?f) :: u64) = sum_list ?f"
    using sum by (simp add: unat_of_nat)
  moreover have "unat (word_of_nat (fold max ?f 0) :: u64) = fold max ?f 0"
    using m by (simp add: unat_of_nat)
  ultimately show ?thesis
    using st sum by (intro exI [of _ ?st]) (simp add: stats_ok_def HEAP_SIZE_def)
qed

text \<open>
  The rounding to 8 bytes wraps: a request for the last 7 sizes below \<open>2^64\<close> is served as a
  request for 0 bytes. On a fresh heap it returns a non-NULL pointer to an empty payload.
\<close>

theorem kmalloc_size_wraps:
  "\<exists>s'. kmalloc 0xFFFFFFFFFFFFFFFF (fst (kmalloc_init s p)) = Some (0x1000018, s') \<and>
     live s' = {(0x1000018, 0)}"
proof -
  let ?s = "fst (kmalloc_init s p)"
  have a: "align8 0xFFFFFFFFFFFFFFFF = 0" by (simp add: align8_def)
  have "first_fit HEAP_LO 0 (heap_blocks ?s) = Some (0x1000018, [(0, False), (0xFFFFD0, True)])"
    by (simp add: kmalloc_init_blocks carve_def HEAP_LO_def)
  with kmalloc_first_fit [OF kmalloc_init_inv, of "0xFFFFFFFFFFFFFFFF" s p]
  obtain s' where "kmalloc 0xFFFFFFFFFFFFFFFF ?s = Some (0x1000018, s')"
    "heap_blocks s' = [(0, False), (0xFFFFD0, True)]" by (auto simp: a)
  then show ?thesis by (simp add: live_def HEAP_LO_def)
qed

text \<open>A machine whose lowest \<open>n\<close> frames are free.\<close>

definition flat_pmm :: "nat \<Rightarrow> pmm" where
  "flat_pmm n = \<lparr>frame_bitmap = (\<lambda>_. 0), free_stack = (\<lambda>i. word_of_nat i * PAGE_SIZE),
     stack_ptr = int n - 1, ref_counts = (\<lambda>_. 0), total_frames = word_of_nat n\<rparr>"

lemma pops_stack:
  "int k \<le> stack_ptr p + 1 \<Longrightarrow>
   free_stack (((\<lambda>p. snd (pmm_alloc_frame p)) ^^ k) p) = free_stack p \<and>
   stack_ptr (((\<lambda>p. snd (pmm_alloc_frame p)) ^^ k) p) = stack_ptr p - int k"
  by (induction k) (auto simp: pmm_alloc_frame_def Let_def)

text \<open>
  \<open>kmalloc_init\<close> does not reserve the frames of its heap. It pops 4096 frames, but the free
  stack holds the highest frames on top: on a machine with 64 MiB of free memory, all frames of
  the heap's 16 MiB are still free afterwards and will be handed out.
\<close>

theorem kmalloc_init_heap_frames_free:
  "pmm_inv (flat_pmm 16384) \<and>
   {a. HEAP_START \<le> a \<and> a < HEAP_START + HEAP_SIZE \<and> a mod PAGE_SIZE = 0}
     \<subseteq> free_frames (snd (kmalloc_init s (flat_pmm 16384)))"
proof
  have "stack_list (flat_pmm 16384) = map (\<lambda>k. word_of_nat k * PAGE_SIZE)
      (filter (\<lambda>k. bitmap_test (\<lambda>_. 0) (word_of_nat k) = 0) [0..<16384])"
    by (simp add: stack_list_def flat_pmm_def bitmap_test_def)
  from pmm_init_free_listed [OF _ this] show "pmm_inv (flat_pmm 16384)"
    by (simp add: pmm_inv_def MAX_FRAMES_def flat_pmm_def)
next
  define q where "q = ((\<lambda>p. snd (pmm_alloc_frame p)) ^^ unat (HEAP_SIZE div PAGE_SIZE)) (flat_pmm 16384)"
  have n: "unat (HEAP_SIZE div PAGE_SIZE) = 4096" by (simp add: HEAP_SIZE_def PAGE_SIZE_def)
  have flat: "free_stack (flat_pmm 16384) = (\<lambda>i. word_of_nat i * PAGE_SIZE)" "stack_ptr (flat_pmm 16384) = 16383"
    by (simp_all add: flat_pmm_def)
  have p: "free_stack q = (\<lambda>i. word_of_nat i * PAGE_SIZE)" "stack_ptr q = 12287"
    using pops_stack [of "unat (HEAP_SIZE div PAGE_SIZE)" "flat_pmm 16384", folded q_def]
    by (simp_all only: flat n)
  have e: "snd (kmalloc_init s (flat_pmm 16384)) = q"
    by (simp only: kmalloc_init_def Let_def snd_conv q_def)
  have q: "a \<in> free_frames q"
    if "HEAP_START \<le> a" "a < HEAP_START + HEAP_SIZE" "a mod PAGE_SIZE = 0" for a
  proof -
    have b: "unat a < 0x2000000" using that(2) by (simp add: HEAP_START_def HEAP_SIZE_def word_less_nat_alt)
    have "unat (a mod PAGE_SIZE) = unat a mod 4096" by (simp add: unat_mod PAGE_SIZE_def)
    then have "unat a mod 4096 = 0" using that(3) by simp
    then have "unat a div 4096 * 4096 = unat a" using div_mult_mod_eq [of "unat a" 4096] by simp
    then have "unat (word_of_nat (unat a div 4096) * PAGE_SIZE :: u64) = unat a"
      using b by (simp add: PAGE_SIZE_def unat_word_ariths unat_of_nat)
    then have "word_of_nat (unat a div 4096) * PAGE_SIZE = a" by (simp add: unat_eq_iff)
    moreover have "unat a div 4096 < 12288" using b by simp
    ultimately show ?thesis unfolding free_frames_def stack_list_def p
      by (auto simp: image_iff intro!: bexI [of _ "unat a div 4096"])
  qed
  show "{a. HEAP_START \<le> a \<and> a < HEAP_START + HEAP_SIZE \<and> a mod PAGE_SIZE = 0}
     \<subseteq> free_frames (snd (kmalloc_init s (flat_pmm 16384)))"
    unfolding e by (rule subsetI) (elim CollectE conjE, rule q)
qed

subsection \<open>Witnesses\<close>

text \<open>A fresh heap, and the heap after one request of 100 bytes.\<close>

definition heap0 :: kheap where
  "heap0 = fst (kmalloc_init \<lparr>hdrs = (\<lambda>_. \<lparr>hd_size = 0, is_free = 0, hd_next = 0\<rparr>), free_list_head = 0,
     kmalloc_stats = \<lparr>alloc_count = 0, free_count = 0, live_allocations = 0, bytes_used = 0,
       peak_bytes_used = 0, bytes_free = 0, largest_free_block = 0, failed_allocations = 0\<rparr>\<rparr> pmm_zero)"

lemma heap0_inv: "heap_inv heap0" and heap0_blocks: "heap_blocks heap0 = [(0xFFFFE8, True)]"
  by (simp_all add: heap0_def kmalloc_init_inv kmalloc_init_blocks)

lemma heap1_example:
  "\<exists>s'. kmalloc 100 heap0 = Some (0x1000018, s') \<and> heap_inv s' \<and>
     heap_blocks s' = [(104, False), (0xFFFF68, True)]"
proof -
  have "align8 100 = 104" by (simp add: align8_def)
  then show ?thesis
    using kmalloc_some [OF heap0_inv, of 100 "0x1000018" "[(104, False), (0xFFFF68, True)]"]
    by (auto simp: heap0_blocks carve_def HEAP_LO_def)
qed

theorem kmalloc_first_fit_witness:
  "\<exists>s'. kmalloc 100 heap0 = Some (0x1000018, s') \<and> heap_blocks s' = [(104, False), (0xFFFF68, True)]"
proof -
  have "align8 100 = 104" by (simp add: align8_def)
  then show ?thesis using kmalloc_first_fit [OF heap0_inv, of 100]
    by (auto simp: heap0_blocks carve_def HEAP_LO_def)
qed

theorem kmalloc_disjoint_witness:
  "\<exists>s' k. kmalloc 100 heap0 = Some (0x1000018, s') \<and> (0x1000018, k) \<in> live s' \<and> 100 \<le> k"
proof -
  obtain s' where "kmalloc 100 heap0 = Some (0x1000018, s')" using heap1_example by blast
  with kmalloc_disjoint [OF heap0_inv this] show ?thesis by auto
qed

theorem kfree_refines_witness:
  "\<exists>s s'. kmalloc 100 heap0 = Some (0x1000018, s) \<and> kfree 0x1000018 s = Some s' \<and>
     heap_blocks s' = [(0xFFFFE8, True)]"
proof -
  obtain s where s: "kmalloc 100 heap0 = Some (0x1000018, s)" "heap_inv s"
    "heap_blocks s = [(104, False), (0xFFFF68, True)]" using heap1_example by blast
  then have "(unat (0x1000018 :: u64), 104) \<in> live s" by (simp add: live_def HEAP_LO_def)
  from kfree_refines [OF s(2) this] s show ?thesis by (auto simp: HEAP_LO_def)
qed

theorem kfree_twice_witness:
  "\<exists>s s'. kmalloc 100 heap0 = Some (0x1000018, s) \<and> kfree 0x1000018 s = Some s' \<and>
     kfree 0x1000018 s' = Some s'"
proof -
  obtain s where s: "kmalloc 100 heap0 = Some (0x1000018, s)" "heap_inv s"
    "heap_blocks s = [(104, False), (0xFFFF68, True)]" using heap1_example by blast
  then have "(unat (0x1000018 :: u64), 104) \<in> live s" by (simp add: live_def HEAP_LO_def)
  from heap.give_back_live [OF s(2) this] obtain s' where "kfree 0x1000018 s = Some s'" by blast
  with kfree_twice [OF this] s(1) show ?thesis by blast
qed

theorem heap_history_accounted_witness:
  "\<exists>s s'. kmalloc 100 heap0 = Some (0x1000018, s) \<and> kfree 0x1000018 s = Some s' \<and> heap_inv s'"
proof -
  obtain s where s: "kmalloc 100 heap0 = Some (0x1000018, s)" "heap_inv s"
    "heap_blocks s = [(104, False), (0xFFFF68, True)]" using heap1_example by blast
  then have l: "(unat (0x1000018 :: u64), 104) \<in> live s" by (simp add: live_def HEAP_LO_def)
  from heap.give_back_live [OF s(2) this] obtain s' where f: "kfree 0x1000018 s = Some s'" by blast
  have "heap_step\<^sup>*\<^sup>* heap0 s'"
    using step_malloc [OF s(1)] step_free [OF l f] by (meson rtranclp.simps)
  with heap_history_accounted s(1) f show ?thesis unfolding heap0_def by blast
qed

theorem kmalloc_get_stats_correct_witness:
  "\<exists>st s'. kmalloc_get_stats heap0 = Some (st, s') \<and> unat (bytes_free st) = 0xFFFFE8"
  using kmalloc_get_stats_correct [OF heap0_inv] by (auto simp: heap0_blocks)

end
