(* ===== verification/Vmm.thy ===== *)
theory Vmm
  imports Prelude Interfaces Pmm "HOL-Library.Sublist"
begin

text \<open>
  Model of \<open>src/kernel/vmm.c\<close>: four-level x86-64 page tables in physical memory. \<open>pmem\<close> holds
  the 64-bit word at each physical address (the kernel runs identity-mapped, so a table pointer
  is its physical address); a table is 512 words at a frame the PMM handed out. The paging
  structures are reached only through their addresses, so aliasing between a table and a data
  page is visible in the model. Changes under \<open>vmm_lock\<close> are one state change each; cr3 loads
  and TLB flushes are the register \<open>cr3\<close> and no further state.
\<close>

subsection \<open>Constants and state\<close>

definition PAGE_PRESENT :: u64 where "PAGE_PRESENT = push_bit 0 1"
definition PAGE_WRITABLE :: u64 where "PAGE_WRITABLE = push_bit 1 1"
definition PAGE_USER :: u64 where "PAGE_USER = push_bit 2 1"
definition PAGE_COW :: u64 where "PAGE_COW = push_bit 9 1"
definition PAGE_HUGE :: u64 where "PAGE_HUGE = push_bit 7 1"

definition PML4_INDEX :: "u64 \<Rightarrow> u64" where "PML4_INDEX a = drop_bit 39 a AND 0x1FF"
definition PDPT_INDEX :: "u64 \<Rightarrow> u64" where "PDPT_INDEX a = drop_bit 30 a AND 0x1FF"
definition PD_INDEX :: "u64 \<Rightarrow> u64" where "PD_INDEX a = drop_bit 21 a AND 0x1FF"
definition PT_INDEX :: "u64 \<Rightarrow> u64" where "PT_INDEX a = drop_bit 12 a AND 0x1FF"

type_synonym pmem = "u64 \<Rightarrow> u64"

record vmm =
  pmem :: pmem
  frames :: pmm
  current_pml4 :: u64
  cr3 :: u64

text \<open>The address of \<open>table[index]\<close>.\<close>

definition ent :: "u64 \<Rightarrow> u64 \<Rightarrow> u64" where "ent t i = t + 8 * i"

text \<open>The pointer \<open>pmm_alloc_frame\<close> returns: NULL is 0.\<close>

definition alloc_frame_ptr :: "vmm \<Rightarrow> u64 \<times> vmm" where
  "alloc_frame_ptr s =
     (let (r, p) = pmm_alloc_frame (frames s)
      in (case r of None \<Rightarrow> 0 | Some a \<Rightarrow> a, s\<lparr>frames := p\<rparr>))"

text \<open>\<open>for (int i = 0; i < 512; i++) table[i] = 0;\<close>\<close>

definition zero_table :: "u64 \<Rightarrow> pmem \<Rightarrow> pmem" where
  "zero_table t m = fold (\<lambda>i m. m(ent t (word_of_nat i) := 0)) [0..<512] m"

subsection \<open>Address spaces\<close>

definition vmm_init :: "vmm \<Rightarrow> vmm" where
  "vmm_init s = s\<lparr>current_pml4 := cr3 s\<rparr>"

definition vmm_create_address_space :: "vmm \<Rightarrow> u64 \<times> vmm" where
  "vmm_create_address_space s =
     (let (new_pml4, s1) = alloc_frame_ptr s in
      if new_pml4 = 0 then (0, s1)
      else
        let m = zero_table new_pml4 (pmem s1)
        in (new_pml4, s1\<lparr>pmem := m(ent new_pml4 0 := m (ent (current_pml4 s1) 0))\<rparr>))"

definition vmm_switch_address_space :: "u64 \<Rightarrow> vmm \<Rightarrow> vmm" where
  "vmm_switch_address_space pml4 s = s\<lparr>cr3 := pml4\<rparr>"

definition alloc_zeroed_table :: "vmm \<Rightarrow> u64 \<times> vmm" where
  "alloc_zeroed_table s =
     (let (next_table, s1) = alloc_frame_ptr s in
      if next_table = 0 then (0, s1)
      else (next_table, s1\<lparr>pmem := zero_table next_table (pmem s1)\<rparr>))"

definition get_existing_table :: "pmem \<Rightarrow> u64 \<Rightarrow> u64 \<Rightarrow> u64" where
  "get_existing_table m table index =
     (if m (ent table index) AND PAGE_PRESENT = 0 then 0 else m (ent table index) AND NOT 0xFFF)"

definition ensure_next_table :: "u64 \<Rightarrow> u64 \<Rightarrow> vmm \<Rightarrow> u64 \<times> vmm" where
  "ensure_next_table table index s =
     (let nxt = get_existing_table (pmem s) table index in
      if nxt \<noteq> 0 then (nxt, s)
      else
        let (new_table, s1) = alloc_zeroed_table s in
        if new_table = 0 then (0, s1)
        else
          let nxt = get_existing_table (pmem s1) table index in
          if nxt = 0
          then (new_table, s1\<lparr>pmem := (pmem s1)(ent table index :=
                  new_table OR PAGE_PRESENT OR PAGE_WRITABLE OR PAGE_USER)\<rparr>)
          else (nxt, s1\<lparr>frames := pmm_free_frame new_table (frames s1)\<rparr>))"

subsection \<open>Mapping and translation\<close>

definition vmm_map :: "u64 \<Rightarrow> u64 \<Rightarrow> u64 \<Rightarrow> u64 \<Rightarrow> vmm \<Rightarrow> vmm" where
  "vmm_map pml4 virt phys flags s =
     (let (pdpt, s1) = ensure_next_table pml4 (PML4_INDEX virt) s in
      if pdpt = 0 then s1
      else
        let (pd, s2) = ensure_next_table pdpt (PDPT_INDEX virt) s1 in
        if pd = 0 then s2
        else if flags AND PAGE_HUGE \<noteq> 0
        then s2\<lparr>pmem := (pmem s2)(ent pd (PD_INDEX virt) :=
               (phys AND NOT 0x1FFFFF) OR flags OR PAGE_PRESENT)\<rparr>
        else
          let (pt, s3) = ensure_next_table pd (PD_INDEX virt) s2 in
          if pt = 0 then s3
          else s3\<lparr>pmem := (pmem s3)(ent pt (PT_INDEX virt) :=
                 (phys AND NOT 0xFFF) OR flags OR PAGE_PRESENT)\<rparr>)"

partial_function (option) map_range_loop ::
  "u64 \<Rightarrow> u64 \<Rightarrow> u64 \<Rightarrow> u64 \<Rightarrow> u64 \<Rightarrow> u64 \<Rightarrow> vmm \<Rightarrow> vmm option" where
  "map_range_loop i pml4 virt phys sz flags s =
     (if i < sz then
        if (virt + i) mod 0x200000 = 0 \<and> (phys + i) mod 0x200000 = 0 \<and> sz - i \<ge> 0x200000
        then map_range_loop (i + 0x200000) pml4 virt phys sz flags
               (vmm_map pml4 (virt + i) (phys + i) (flags OR PAGE_HUGE) s)
        else map_range_loop (i + 0x1000) pml4 virt phys sz flags
               (vmm_map pml4 (virt + i) (phys + i) flags s)
      else Some s)"

definition vmm_map_range :: "u64 \<Rightarrow> u64 \<Rightarrow> u64 \<Rightarrow> u64 \<Rightarrow> u64 \<Rightarrow> vmm \<Rightarrow> vmm option" where
  "vmm_map_range pml4 virt phys sz flags s = map_range_loop 0 pml4 virt phys sz flags s"

definition vmm_unmap :: "u64 \<Rightarrow> u64 \<Rightarrow> vmm \<Rightarrow> vmm" where
  "vmm_unmap pml4 virt s =
     (let m = pmem s; pdpt = get_existing_table m pml4 (PML4_INDEX virt) in
      if pdpt = 0 then s
      else
        let pd = get_existing_table m pdpt (PDPT_INDEX virt) in
        if pd = 0 then s
        else if m (ent pd (PD_INDEX virt)) AND PAGE_HUGE \<noteq> 0
        then s\<lparr>pmem := m(ent pd (PD_INDEX virt) := 0)\<rparr>
        else
          let pt = get_existing_table m pd (PD_INDEX virt) in
          if pt \<noteq> 0 then s\<lparr>pmem := m(ent pt (PT_INDEX virt) := 0)\<rparr> else s)"

partial_function (option) unmap_range_loop :: "u64 \<Rightarrow> u64 \<Rightarrow> u64 \<Rightarrow> u64 \<Rightarrow> vmm \<Rightarrow> vmm option" where
  "unmap_range_loop i pml4 virt sz s =
     (if i < sz then
        let m = pmem s;
            pdpt = get_existing_table m (current_pml4 s) (PML4_INDEX (virt + i));
            pd = (if pdpt \<noteq> 0 then get_existing_table m pdpt (PDPT_INDEX (virt + i)) else 0)
        in if pd \<noteq> 0 \<and> m (ent pd (PD_INDEX (virt + i))) AND PAGE_HUGE \<noteq> 0
           then unmap_range_loop (i + 0x200000) pml4 virt sz (vmm_unmap pml4 (virt + i) s)
           else unmap_range_loop (i + 0x1000) pml4 virt sz (vmm_unmap pml4 (virt + i) s)
      else Some s)"

definition vmm_unmap_range :: "u64 \<Rightarrow> u64 \<Rightarrow> u64 \<Rightarrow> vmm \<Rightarrow> vmm option" where
  "vmm_unmap_range pml4 virt sz s = unmap_range_loop 0 pml4 virt sz s"

definition vmm_get_phys :: "u64 \<Rightarrow> u64 \<Rightarrow> vmm \<Rightarrow> u64" where
  "vmm_get_phys pml4 virt s =
     (let m = pmem s; pdpt = get_existing_table m pml4 (PML4_INDEX virt) in
      if pdpt = 0 then 0
      else
        let pd = get_existing_table m pdpt (PDPT_INDEX virt) in
        if pd = 0 then 0
        else if m (ent pd (PD_INDEX virt)) AND PAGE_HUGE \<noteq> 0
        then (m (ent pd (PD_INDEX virt)) AND NOT 0x1FFFFF) OR (virt AND 0x1FFFFF)
        else
          let pt = get_existing_table m pd (PD_INDEX virt) in
          if pt = 0 then 0
          else (m (ent pt (PT_INDEX virt)) AND NOT 0xFFF) OR (virt AND 0xFFF))"

definition vmm_get_flags :: "u64 \<Rightarrow> u64 \<Rightarrow> vmm \<Rightarrow> u64" where
  "vmm_get_flags pml4 virt s =
     (let m = pmem s; pdpt = get_existing_table m pml4 (PML4_INDEX virt) in
      if pdpt = 0 then 0
      else
        let pd = get_existing_table m pdpt (PDPT_INDEX virt) in
        if pd = 0 then 0
        else if m (ent pd (PD_INDEX virt)) AND PAGE_HUGE \<noteq> 0
        then m (ent pd (PD_INDEX virt)) AND 0xFFF
        else
          let pt = get_existing_table m pd (PD_INDEX virt) in
          if pt = 0 then 0 else m (ent pt (PT_INDEX virt)) AND 0xFFF)"

subsection \<open>Cloning and destroying address spaces\<close>

text \<open>
  A present entry shared copy-on-write: the source entry loses \<open>PAGE_WRITABLE\<close> and gains
  \<open>PAGE_COW\<close> if it was writable, the destination gets the same entry, and the frame one more
  reference. \<open>mask\<close> selects the frame address (4 KiB or 2 MiB).
\<close>

definition cow_flags :: "u64 \<Rightarrow> u64" where
  "cow_flags flags =
     (if flags AND PAGE_WRITABLE \<noteq> 0 then (flags AND NOT PAGE_WRITABLE) OR PAGE_COW else flags)"

definition share_entry :: "u64 \<Rightarrow> u64 \<Rightarrow> u64 \<Rightarrow> u64 \<Rightarrow> vmm \<Rightarrow> vmm" where
  "share_entry addr_mask src dst i s =
     (let e = pmem s (ent src i); phys = e AND addr_mask; flags = e AND 0xFFF;
          m1 = (if flags AND PAGE_WRITABLE \<noteq> 0
                then (pmem s)(ent src i := phys OR cow_flags flags OR PAGE_PRESENT) else pmem s)
      in s\<lparr>pmem := m1(ent dst i := phys OR cow_flags flags OR PAGE_PRESENT),
           frames := pmm_ref_inc phys (frames s)\<rparr>)"

definition clone_pte :: "u64 \<Rightarrow> u64 \<Rightarrow> nat \<Rightarrow> vmm \<Rightarrow> vmm" where
  "clone_pte src_pt dst_pt l s =
     (if pmem s (ent src_pt (word_of_nat l)) AND PAGE_PRESENT \<noteq> 0
      then share_entry (NOT 0xFFF) src_pt dst_pt (word_of_nat l) s else s)"

definition clone_pde :: "u64 \<Rightarrow> u64 \<Rightarrow> nat \<Rightarrow> vmm \<Rightarrow> vmm" where
  "clone_pde src_pd dst_pd k s =
     (let e = pmem s (ent src_pd (word_of_nat k)) in
      if e AND PAGE_PRESENT = 0 then s
      else if e AND PAGE_HUGE \<noteq> 0 then share_entry (NOT 0x1FFFFF) src_pd dst_pd (word_of_nat k) s
      else
        let (dst_pt, s1) = ensure_next_table dst_pd (word_of_nat k) s
        in fold (clone_pte (e AND NOT 0xFFF) dst_pt) [0..<512] s1)"

definition clone_pdpte :: "u64 \<Rightarrow> u64 \<Rightarrow> nat \<Rightarrow> vmm \<Rightarrow> vmm" where
  "clone_pdpte src_pdpt dst_pdpt j s =
     (let e = pmem s (ent src_pdpt (word_of_nat j)) in
      if e AND PAGE_PRESENT = 0 then s
      else
        let (dst_pd, s1) = ensure_next_table dst_pdpt (word_of_nat j) s
        in fold (clone_pde (e AND NOT 0xFFF) dst_pd) [0..<512] s1)"

definition clone_pml4e :: "u64 \<Rightarrow> u64 \<Rightarrow> nat \<Rightarrow> vmm \<Rightarrow> vmm" where
  "clone_pml4e src_pml4 dst_pml4 i s =
     (let e = pmem s (ent src_pml4 (word_of_nat i)) in
      if e AND PAGE_PRESENT = 0 then s
      else
        let (dst_pdpt, s1) = ensure_next_table dst_pml4 (word_of_nat i) s
        in fold (clone_pdpte (e AND NOT 0xFFF) dst_pdpt) [0..<512] s1)"

definition vmm_clone_address_space :: "u64 \<Rightarrow> vmm \<Rightarrow> u64 \<times> vmm" where
  "vmm_clone_address_space src_pml4 s =
     (let (dst_pml4, s1) = vmm_create_address_space s
      in (dst_pml4, fold (clone_pml4e src_pml4 dst_pml4) [1..<512] s1))"

text \<open>Destruction reads the tables and frees frames; the memory itself is not changed.\<close>

definition destroy_pte :: "pmem \<Rightarrow> u64 \<Rightarrow> nat \<Rightarrow> pmm \<Rightarrow> pmm" where
  "destroy_pte m pt l p =
     (let e = m (ent pt (word_of_nat l)) in
      if e AND PAGE_PRESENT \<noteq> 0 then pmm_free_frame (e AND NOT 0xFFF) p else p)"

definition destroy_table :: "(pmem \<Rightarrow> u64 \<Rightarrow> nat \<Rightarrow> pmm \<Rightarrow> pmm) \<Rightarrow> pmem \<Rightarrow> u64 \<Rightarrow> nat \<Rightarrow> pmm \<Rightarrow> pmm" where
  "destroy_table destroy_child m table i p =
     (let e = m (ent table (word_of_nat i)); child = e AND NOT 0xFFF in
      if e AND PAGE_PRESENT \<noteq> 0
      then pmm_free_frame child (fold (destroy_child m child) [0..<512] p) else p)"

definition vmm_destroy_address_space :: "u64 \<Rightarrow> vmm \<Rightarrow> vmm" where
  "vmm_destroy_address_space pml4 s =
     (let p = fold (destroy_table (destroy_table (destroy_table destroy_pte)) (pmem s) pml4)
                [1..<512] (frames s)
      in s\<lparr>frames := pmm_free_frame pml4 p\<rparr>)"

subsection \<open>Entries and addresses\<close>

definition aligned :: "u64 \<Rightarrow> bool" where "aligned a \<longleftrightarrow> a AND 0xFFF = 0"

lemma mask_consts: "(0xFFF :: u64) = mask 12" "(0x1FF :: u64) = mask 9" "(0x1FFFFF :: u64) = mask 21"
  "(7 :: u64) = mask 3"
  by (simp_all add: mask_eq_exp_minus_1)

lemma aligned_bit: "aligned a \<longleftrightarrow> (\<forall>n < 12. \<not> bit a n)"
proof -
  have "aligned a \<longleftrightarrow> (\<forall>n < 64. \<not> (n < 12 \<and> bit a n))"
    by (auto simp: aligned_def mask_consts bit_eq_iff bit_simps)
  then show ?thesis by auto
qed

lemma aligned_mod: "aligned a \<longleftrightarrow> unat a mod 4096 = 0"
proof -
  have "aligned a \<longleftrightarrow> take_bit 12 a = 0" by (simp add: aligned_def mask_consts take_bit_eq_mask)
  also have "\<dots> \<longleftrightarrow> unat (take_bit 12 a) = 0" by (rule unat_eq_0 [symmetric])
  also have "unat (take_bit 12 a) = unat a mod 4096" by (simp add: take_bit_eq_mod unat_mod)
  finally show ?thesis .
qed

lemma aligned_clear [simp]: "aligned (a AND NOT 0xFFF)"
  by (simp add: aligned_bit mask_consts bit_simps)

lemma index_less [simp]:
  "PML4_INDEX a < 512" "PDPT_INDEX a < 512" "PD_INDEX a < 512" "PT_INDEX a < 512"
  by (simp_all add: PML4_INDEX_def PDPT_INDEX_def PD_INDEX_def PT_INDEX_def mask_consts
      take_bit_eq_mask [symmetric] word_less_nat_alt take_bit_eq_mod unat_mod)

lemma page_split:
  assumes "x mod 4096 = 0" and "k < (4096::nat)"
  shows "(x + k) div 4096 = x div 4096" "(x + k) mod 4096 = k"
proof -
  obtain c where "x = 4096 * c" using assms(1) by auto
  then show "(x + k) div 4096 = x div 4096" "(x + k) mod 4096 = k" using assms(2) by simp_all
qed

lemma unat_ent: "aligned t \<Longrightarrow> i < 512 \<Longrightarrow> unat (ent t i) = unat t + 8 * unat i"
proof -
  assume "aligned t" and "i < 512"
  then have "unat t mod 4096 = 0" and i: "unat i < 512" by (simp_all add: aligned_mod word_less_nat_alt)
  then obtain c where c: "unat t = 4096 * c" by auto
  have "unat t < 2 ^ LENGTH(64)" by (rule unsigned_less)
  then have "c < 2 ^ 52" by (simp add: c)
  then have "unat t + 8 * unat i < 2 ^ 64" using i by (simp add: c)
  then show ?thesis by (simp add: ent_def unat_word_ariths)
qed

lemma ent_eq_iff [simp]:
  assumes "aligned t" and "aligned u" and "i < 512" and "j < 512"
  shows "ent t i = ent u j \<longleftrightarrow> t = u \<and> i = j"
proof
  assume "ent t i = ent u j"
  then have e: "unat t + 8 * unat i = unat u + 8 * unat j"
    by (simp only: unat_ent assms flip: unat_ent [OF assms(1,3)])
  have i: "8 * unat i < 4096" "8 * unat j < 4096" using assms by (simp_all add: word_less_nat_alt)
  have m: "unat t mod 4096 = 0" "unat u mod 4096 = 0" using assms by (simp_all add: aligned_mod)
  have "8 * unat i = 8 * unat j" using page_split(2) [OF m(1) i(1)] page_split(2) [OF m(2) i(2)] e by simp
  then show "t = u \<and> i = j" using e by (simp add: unat_eq_iff)
qed simp

lemma zero_table_apply:
  assumes "aligned t"
  shows "zero_table t m a = (if \<exists>i < 512. a = ent t i then 0 else m a)"
proof -
  have f: "n \<le> 512 \<Longrightarrow> fold (\<lambda>i m. m(ent t (word_of_nat i) := 0)) [0..<n] m a =
    (if \<exists>i < n. a = ent t (word_of_nat i) then 0 else m a)" for n
    by (induction n) (auto simp: less_Suc_eq)
  have "(\<exists>i < (512::nat). a = ent t (word_of_nat i)) \<longleftrightarrow> (\<exists>i < (512::u64). a = ent t i)"
  proof
    assume "\<exists>i < (512::nat). a = ent t (word_of_nat i)"
    then obtain i :: nat where "i < 512" "a = ent t (word_of_nat i)" by blast
    then show "\<exists>i < (512::u64). a = ent t i"
      by (intro exI [of _ "word_of_nat i"]) (simp add: word_less_nat_alt unat_of_nat)
  next
    assume "\<exists>i < (512::u64). a = ent t i"
    then obtain i :: u64 where "i < 512" "a = ent t i" by blast
    then show "\<exists>i < (512::nat). a = ent t (word_of_nat i)"
      by (intro exI [of _ "unat i"]) (simp add: word_less_nat_alt)
  qed
  then show ?thesis using f [of 512] by (simp add: zero_table_def)
qed

lemma zero_table_ent [simp]:
  assumes "aligned t" and "aligned u" and "i < 512"
  shows "zero_table t m (ent u i) = (if u = t then 0 else m (ent u i))"
  using assms by (auto simp: zero_table_apply)

lemma table_entry:
  assumes "aligned f"
  defines "e \<equiv> f OR PAGE_PRESENT OR PAGE_WRITABLE OR PAGE_USER"
  shows "e AND PAGE_PRESENT \<noteq> 0" "e AND NOT 0xFFF = f" "e AND PAGE_HUGE = 0"
proof -
  have "bit (e AND PAGE_PRESENT) 0" by (simp add: e_def PAGE_PRESENT_def bit_simps)
  then show "e AND PAGE_PRESENT \<noteq> 0" by auto
  have e: "e = f OR mask 3"
    by (simp add: e_def PAGE_PRESENT_def PAGE_WRITABLE_def PAGE_USER_def mask_eq_exp_minus_1 or.assoc)
  show "e AND NOT 0xFFF = f"
    by (rule bit_word_eqI) (use assms(1) in \<open>auto simp: e aligned_bit mask_consts bit_simps\<close>)
  show "e AND PAGE_HUGE = 0"
    using one_bit_test [of e 7] assms(1) by (simp add: PAGE_HUGE_def e aligned_bit bit_simps)
qed

subsection \<open>The tree of page tables\<close>

text \<open>
  \<open>tab m root p\<close>: the table reached from \<open>root\<close> along the indices \<open>p\<close>, the last index first; 0
  where there is none. A huge entry of a page directory leads to no table.
\<close>

definition next_tab :: "pmem \<Rightarrow> nat \<Rightarrow> u64 \<Rightarrow> u64 \<Rightarrow> u64" where
  "next_tab m lvl t i =
     (if lvl = 2 \<and> m (ent t i) AND PAGE_HUGE \<noteq> 0 then 0 else get_existing_table m t i)"

primrec tab :: "pmem \<Rightarrow> u64 \<Rightarrow> u64 list \<Rightarrow> u64" where
  "tab m root [] = root"
| "tab m root (i # p) = (if tab m root p = 0 then 0 else next_tab m (length p) (tab m root p) i)"

definition path :: "u64 list \<Rightarrow> bool" where
  "path p \<longleftrightarrow> length p \<le> 3 \<and> (\<forall>i \<in> set p. i < 512)"

text \<open>
  The paging structure below a root is a tree (no table is reached along two paths), and none
  of its tables is a free frame.
\<close>

definition pt_tree :: "pmem \<Rightarrow> u64 \<Rightarrow> bool" where
  "pt_tree m root \<longleftrightarrow> root \<noteq> 0 \<and> aligned root \<and>
     (\<forall>p q. path p \<longrightarrow> path q \<longrightarrow> tab m root p \<noteq> 0 \<longrightarrow> tab m root p = tab m root q \<longrightarrow> p = q)"

definition tables :: "pmem \<Rightarrow> u64 \<Rightarrow> u64 set" where
  "tables m root = {tab m root p | p. path p} - {0}"

definition vm_ok :: "vmm \<Rightarrow> u64 \<Rightarrow> bool" where
  "vm_ok s root \<longleftrightarrow> pt_tree (pmem s) root \<and> tables (pmem s) root \<inter> free_frames (frames s) = {} \<and>
     pmm_inv (frames s) \<and> (\<forall>a \<in> free_frames (frames s). aligned a \<and> a \<noteq> 0)"

text \<open>
  The specification: what the processor translates an address to (the physical address and the
  flags of the leaf entry), or nothing.
\<close>

definition leaf :: "u64 \<Rightarrow> u64 \<Rightarrow> u64 \<Rightarrow> (u64 \<times> u64) option" where
  "leaf e off_mask virt =
     (if e AND PAGE_PRESENT = 0 then None
      else Some ((e AND NOT off_mask) OR (virt AND off_mask), e AND 0xFFF))"

definition mmu :: "pmem \<Rightarrow> u64 \<Rightarrow> u64 \<Rightarrow> (u64 \<times> u64) option" where
  "mmu m root virt =
     (let pd = tab m root [PDPT_INDEX virt, PML4_INDEX virt];
          pt = tab m root [PD_INDEX virt, PDPT_INDEX virt, PML4_INDEX virt] in
      if pd = 0 then None
      else if m (ent pd (PD_INDEX virt)) AND PAGE_HUGE \<noteq> 0
      then leaf (m (ent pd (PD_INDEX virt))) 0x1FFFFF virt
      else if pt = 0 then None
      else leaf (m (ent pt (PT_INDEX virt))) 0xFFF virt)"

lemma path_Nil [simp]: "path []" by (simp add: path_def)

lemma path_Cons: "path (i # p) \<longleftrightarrow> path p \<and> length p < 3 \<and> i < 512"
  by (auto simp: path_def)

lemma path_suffix: "suffix p q \<Longrightarrow> path q \<Longrightarrow> path p"
  by (auto simp: path_def dest: suffix_length_le set_mono_suffix)

lemma aligned_next [simp]: "aligned (next_tab m l t i)"
  using aligned_clear [of "m (ent t i)"] by (simp add: next_tab_def get_existing_table_def) (simp add: aligned_def)

lemma aligned_tab: "aligned root \<Longrightarrow> aligned (tab m root p)"
  by (cases p) (simp_all, simp add: aligned_def)

lemma tab_suffix: "suffix p q \<Longrightarrow> tab m root q \<noteq> 0 \<Longrightarrow> tab m root p \<noteq> 0"
proof (induction q)
  case (Cons i q)
  then show ?case by (auto simp: suffix_Cons split: if_splits)
qed simp

lemma pt_tree_inj:
  "pt_tree m root \<Longrightarrow> path p \<Longrightarrow> path q \<Longrightarrow> tab m root p \<noteq> 0 \<Longrightarrow> tab m root p = tab m root q \<Longrightarrow> p = q"
  by (simp add: pt_tree_def)

text \<open>A write to entry \<open>i\<close> of the table at \<open>p\<close> moves only the tables below that entry.\<close>

lemma tab_write:
  assumes t: "pt_tree m root" "path p" "tab m root p \<noteq> 0" "i < 512"
    and other: "\<And>u j. aligned u \<Longrightarrow> j < 512 \<Longrightarrow> u \<in> tables m root \<Longrightarrow> (u, j) \<noteq> (tab m root p, i) \<Longrightarrow>
      m' (ent u j) = m (ent u j)"
    and q: "path q" "\<not> suffix (i # p) q"
  shows "tab m' root q = tab m root q"
  using q
proof (induction q)
  case (Cons j q)
  then have pq: "path q" "\<not> suffix (i # p) q" "j < 512" and ne: "\<not> (i = j \<and> p = q)"
    by (auto simp: path_Cons suffix_Cons)
  have IH: "tab m' root q = tab m root q" by (rule Cons.IH [OF pq(1,2)])
  show ?case
  proof (cases "tab m root q = 0")
    case False
    have "aligned (tab m root q)" using t(1) by (intro aligned_tab) (simp add: pt_tree_def)
    moreover have "(tab m root q, j) \<noteq> (tab m root p, i)"
      using pt_tree_inj [OF t(1,2) pq(1) t(3)] ne by auto
    moreover have "tab m root q \<in> tables m root" using False pq(1) by (auto simp: tables_def)
    ultimately have "m' (ent (tab m root q) j) = m (ent (tab m root q) j)" using pq(3) other by blast
    then show ?thesis using IH by (simp add: next_tab_def get_existing_table_def)
  qed (simp add: IH)
qed simp

lemma tab_in_tables: "path p \<Longrightarrow> tab m root p \<noteq> 0 \<Longrightarrow> tab m root p \<in> tables m root"
  by (auto simp: tables_def)

lemma tables_aligned: "aligned root \<Longrightarrow> u \<in> tables m root \<Longrightarrow> aligned u"
  by (auto simp: tables_def aligned_tab)

definition pd_path :: "u64 \<Rightarrow> u64 list" where
  "pd_path v = [PDPT_INDEX v, PML4_INDEX v]"

definition pt_path :: "u64 \<Rightarrow> u64 list" where
  "pt_path v = [PD_INDEX v, PDPT_INDEX v, PML4_INDEX v]"

lemma paths [simp]: "path (pd_path v)" "path (pt_path v)"
  by (simp_all add: path_def pd_path_def pt_path_def)

lemma pt_path_Cons: "pt_path v = PD_INDEX v # pd_path v"
  by (simp add: pd_path_def pt_path_def)

lemma mmu_paths: "mmu m root v =
  (let pd = tab m root (pd_path v); pt = tab m root (pt_path v) in
    if pd = 0 then None
    else if m (ent pd (PD_INDEX v)) AND PAGE_HUGE \<noteq> 0 then leaf (m (ent pd (PD_INDEX v))) 0x1FFFFF v
    else if pt = 0 then None else leaf (m (ent pt (PT_INDEX v))) 0xFFF v)"
  by (simp only: mmu_def pd_path_def pt_path_def)

text \<open>The address lies in a region mapped by a huge page directory entry.\<close>

definition pde_huge :: "pmem \<Rightarrow> u64 \<Rightarrow> u64 \<Rightarrow> bool" where
  "pde_huge m root v \<longleftrightarrow> tab m root (pd_path v) \<noteq> 0 \<and>
     m (ent (tab m root (pd_path v)) (PD_INDEX v)) AND PAGE_HUGE \<noteq> 0"

lemma leaf_0 [simp]: "leaf 0 k v = None"
  by (simp add: leaf_def)

text \<open>
  Grafting: a zeroed table \<open>f\<close> outside the tree is hung into an empty entry. The tree gains
  exactly the table \<open>f\<close>, and the translation of no address changes.
\<close>

lemma graft:
  assumes t: "pt_tree m root" "path (i # p)" "tab m root p \<noteq> 0" "next_tab m (length p) (tab m root p) i = 0"
    and nh: "length p = 2 \<Longrightarrow> m (ent (tab m root p) i) AND PAGE_HUGE = 0"
    and f: "aligned f" "f \<noteq> 0" "f \<notin> tables m root"
    and new: "\<And>j. j < 512 \<Longrightarrow> m' (ent f j) = 0"
    and link: "m' (ent (tab m root p) i) = f OR PAGE_PRESENT OR PAGE_WRITABLE OR PAGE_USER"
    and other: "\<And>u j. aligned u \<Longrightarrow> j < 512 \<Longrightarrow> u \<in> tables m root \<Longrightarrow> (u, j) \<noteq> (tab m root p, i) \<Longrightarrow>
      m' (ent u j) = m (ent u j)"
  shows "pt_tree m' root" and "tables m' root \<subseteq> insert f (tables m root)"
    and "tab m' root (i # p) = f" and "mmu m' root v = mmu m root v"
    and "pde_huge m' root v \<Longrightarrow> pde_huge m root v"
proof -
  have i: "path p" "length p < 3" "i < 512" using t(2) by (auto simp: path_Cons)
  have al: "aligned root" "root \<noteq> 0" using t(1) by (simp_all add: pt_tree_def)
  have keep: "path q \<Longrightarrow> \<not> suffix (i # p) q \<Longrightarrow> tab m' root q = tab m root q" for q
    using tab_write [OF t(1) i(1) t(3) i(3) other] .
  have "\<not> suffix (i # p) p" by (auto dest: suffix_length_le)
  then have p: "tab m' root p = tab m root p" by (rule keep [OF i(1)])
  note te = table_entry [OF f(1)]
  have here: "tab m' root (i # p) = f"
    using t(3) link te f(2) by (simp add: p next_tab_def get_existing_table_def)
  have below: "path q \<Longrightarrow> suffix (i # p) q \<Longrightarrow> q \<noteq> i # p \<Longrightarrow> tab m' root q = 0" for q
  proof (induction q)
    case (Cons j q)
    then have q: "suffix (i # p) q" "path q" "j < 512" by (auto simp: suffix_Cons path_Cons)
    show ?case
    proof (cases "q = i # p")
      case True
      then have e: "tab m' root q = f" using here by (simp only:)
      have "next_tab m' (length q) f j = 0"
        using new [OF q(3)] by (simp add: next_tab_def get_existing_table_def)
      then show ?thesis by (simp only: tab.simps(2) e if_cancel)
    next
      case False
      then show ?thesis using Cons.IH q by simp
    qed
  qed simp
  show "tab m' root (i # p) = f" by (rule here)
  have old0: "tab m root q = 0" if "suffix (i # p) q" for q
    using tab_suffix [OF that, of m root] t(3,4) by auto
  have val: "tab m' root q = (if q = i # p then f else tab m root q)" if "path q" for q
    using keep below here old0 that by (cases "suffix (i # p) q") auto
  show "tables m' root \<subseteq> insert f (tables m root)"
    by (auto simp: tables_def val)
  show "pt_tree m' root"
    unfolding pt_tree_def
  proof (intro conjI allI impI)
    fix q r assume q: "path q" "path r" "tab m' root q \<noteq> 0" "tab m' root q = tab m' root r"
    show "q = r"
      using q val [of q] val [of r] tab_in_tables [of _ m root] f(3) pt_tree_inj [OF t(1)]
      by (auto split: if_splits)
  qed (use al in auto)
  have pdpt: "suffix (i # p) (pd_path v) \<or> suffix (i # p) (pt_path v) \<Longrightarrow> suffix (i # p) (pt_path v)"
    by (auto simp: pt_path_Cons suffix_Cons)
  have ent_keep: "m' (ent (tab m root q) j) = m (ent (tab m root q) j)"
    if "path q" "tab m root q \<noteq> 0" "j < 512" "(q, j) \<noteq> (p, i)" for q j
    using that pt_tree_inj [OF t(1) i(1) that(1) t(3)] aligned_tab [OF al(1)]
    by (intro other) (auto simp: tab_in_tables)
  have pd: "pde_huge m root v" if "pde_huge m' root v"
  proof (cases "pd_path v = i # p")
    case True
    then show ?thesis using that here new [of "PD_INDEX v"] by (simp add: pde_huge_def)
  next
    case False
    then have e: "tab m' root (pd_path v) = tab m root (pd_path v)" by (simp add: val)
    show ?thesis
    proof (cases "(pd_path v, PD_INDEX v) = (p, i)")
      case True
      then show ?thesis using that link te(3) p by (auto simp: pde_huge_def)
    next
      case False
      then show ?thesis using that ent_keep [of "pd_path v" "PD_INDEX v"] by (simp add: pde_huge_def e)
    qed
  qed
  then show "pde_huge m' root v \<Longrightarrow> pde_huge m root v" .
  show "mmu m' root v = mmu m root v"
  proof (cases "suffix (i # p) (pt_path v)")
    case False
    then have "pd_path v \<noteq> i # p" "pt_path v \<noteq> i # p" "\<not> suffix (i # p) (pd_path v)" using pdpt by auto
    then have e: "tab m' root (pd_path v) = tab m root (pd_path v)" "tab m' root (pt_path v) = tab m root (pt_path v)"
      by (simp_all add: val)
    have "(pd_path v, PD_INDEX v) \<noteq> (p, i)" using False by (auto simp: pt_path_Cons)
    moreover have "pt_path v \<noteq> p" using i(2) by (auto simp: pt_path_def)
    ultimately show ?thesis
      using ent_keep [of "pd_path v" "PD_INDEX v"] ent_keep [of "pt_path v" "PT_INDEX v"]
      by (simp add: mmu_paths e Let_def)
  next
    case True
    have pt0: "tab m root (pt_path v) = 0" by (rule old0 [OF True])
    have "\<not> pde_huge m root v"
    proof
      assume h: "pde_huge m root v"
      have "\<not> suffix (i # p) (pd_path v)" using h old0 by (auto simp: pde_huge_def)
      then have "pd_path v = p" "PD_INDEX v = i" using True by (auto simp: pt_path_Cons suffix_Cons)
      moreover have "length (pd_path v) = 2" by (simp add: pd_path_def)
      ultimately show False using h nh by (auto simp: pde_huge_def)
    qed
    moreover from this have "\<not> pde_huge m' root v" using pd by blast
    moreover have "tab m' root (pt_path v) = 0 \<or> m' (ent (tab m' root (pt_path v)) (PT_INDEX v)) = 0"
      using val [of "pt_path v"] pt0 new by auto
    ultimately show ?thesis using pt0 by (auto simp: mmu_paths Let_def pde_huge_def)
  qed
qed

subsection \<open>Building the next level\<close>

lemma alloc_zeroed_cases:
  assumes "pmm_inv (frames s)" and "\<forall>a \<in> free_frames (frames s). aligned a \<and> a \<noteq> 0"
    and "alloc_zeroed_table s = (n, s')"
  obtains (oom) "n = 0" "s' = s" "free_frames (frames s) = {}"
  | (fresh) "n \<in> free_frames (frames s)" "aligned n" "n \<noteq> 0" "pmem s' = zero_table n (pmem s)"
      "current_pml4 s' = current_pml4 s" "cr3 s' = cr3 s"
      "free_frames (frames s') = free_frames (frames s) - {n}" "pmm_inv (frames s')"
proof -
  obtain r p where a: "pmm_alloc_frame (frames s) = (r, p)" by (cases "pmm_alloc_frame (frames s)")
  show ?thesis
  proof (cases r)
    case None
    from pmm.alloc_none [OF assms(1)] a None have "free_frames (frames s) = {}" "p = frames s" by auto
    then show ?thesis using oom assms(3) a None
      by (simp add: alloc_zeroed_table_def alloc_frame_ptr_def)
  next
    case (Some f)
    from pmm.alloc_some [OF assms(1)] a Some have f: "f \<in> free_frames (frames s)"
      "free_frames p = free_frames (frames s) - {f}" "pmm_inv p" by auto
    then have "aligned f" "f \<noteq> 0" using assms(2) by auto
    moreover from this have "n = f" "s' = s\<lparr>frames := p, pmem := zero_table f (pmem s)\<rparr>"
      using assms(3) a Some by (auto simp: alloc_zeroed_table_def alloc_frame_ptr_def)
    ultimately show ?thesis using fresh f by simp
  qed
qed

text \<open>
  \<open>ensure_next_table\<close> on a table of the tree: it answers the table below entry \<open>i\<close>, built if
  need be, or NULL when memory is exhausted; the translation of no address changes.
\<close>

lemma ensure_next:
  assumes ok: "vm_ok s root" and p: "path (i # p)" "tab (pmem s) root p \<noteq> 0"
    and nh: "length p = 2 \<Longrightarrow> pmem s (ent (tab (pmem s) root p) i) AND PAGE_HUGE = 0"
    and e: "ensure_next_table (tab (pmem s) root p) i s = (n, s')"
  shows "vm_ok s' root" and "n \<noteq> 0 \<Longrightarrow> n = tab (pmem s') root (i # p)"
    and "mmu (pmem s') root v = mmu (pmem s) root v"
    and "pde_huge (pmem s') root v \<Longrightarrow> pde_huge (pmem s) root v"
    and "n = 0 \<Longrightarrow> s' = s \<and> free_frames (frames s) = {}"
    and "free_frames (frames s') \<subseteq> free_frames (frames s)"
    and "card (free_frames (frames s)) \<le> card (free_frames (frames s')) + 1"
proof -
  let ?m = "pmem s" and ?t = "tab (pmem s) root p"
  have tree: "pt_tree ?m root" and dis: "tables ?m root \<inter> free_frames (frames s) = {}"
    and inv: "pmm_inv (frames s)" and fr: "\<forall>a \<in> free_frames (frames s). aligned a \<and> a \<noteq> 0"
    using ok by (simp_all add: vm_ok_def)
  have al: "aligned root" "aligned ?t" "i < 512" "path p"
    using tree p(1) by (auto simp: pt_tree_def aligned_tab path_Cons)
  have nt: "next_tab ?m (length p) ?t i = get_existing_table ?m ?t i"
    using nh by (auto simp: next_tab_def)
  have "vm_ok s' root \<and> (n \<noteq> 0 \<longrightarrow> n = tab (pmem s') root (i # p)) \<and> mmu (pmem s') root v = mmu ?m root v
    \<and> (pde_huge (pmem s') root v \<longrightarrow> pde_huge ?m root v) \<and> (n = 0 \<longrightarrow> s' = s \<and> free_frames (frames s) = {})
    \<and> free_frames (frames s') \<subseteq> free_frames (frames s)
    \<and> card (free_frames (frames s)) \<le> card (free_frames (frames s')) + 1"
  proof (cases "get_existing_table ?m ?t i = 0")
    case False
    then have "(n, s') = (get_existing_table ?m ?t i, s)"
      unfolding e [symmetric] by (simp add: ensure_next_table_def Let_def)
    then have n: "n = get_existing_table ?m ?t i" and s': "s' = s" by blast+
    have "tab ?m root (i # p) = n" using p(2) nt n by simp
    then show ?thesis unfolding s' using False ok n by simp
  next
    case True
    obtain f s1 where a: "alloc_zeroed_table s = (f, s1)" by (cases "alloc_zeroed_table s")
    from inv fr a show ?thesis
    proof (cases rule: alloc_zeroed_cases)
      case oom
      then have "n = 0" "s' = s" using e True a by (simp_all add: ensure_next_table_def)
      then show ?thesis using ok oom by simp
    next
      case fresh
      have ft: "f \<notin> tables ?m root" using dis fresh(1) by auto
      have tt: "?t \<in> tables ?m root" by (rule tab_in_tables [OF al(4) p(2)])
      then have "get_existing_table (pmem s1) ?t i = 0"
        using True ft al fresh(2,4) by (auto simp: get_existing_table_def)
      then have s': "n = f" "pmem s' = (zero_table f ?m)(ent ?t i := f OR PAGE_PRESENT OR PAGE_WRITABLE OR PAGE_USER)"
        "frames s' = frames s1"
        using e True a fresh(3,4) by (auto simp: ensure_next_table_def)
      have new: "pmem s' (ent f j) = 0" if "j < 512" for j
        using that fresh(2) al ft tt by (auto simp: s'(2))
      have link: "pmem s' (ent ?t i) = f OR PAGE_PRESENT OR PAGE_WRITABLE OR PAGE_USER"
        by (simp add: s'(2))
      have other: "pmem s' (ent u j) = ?m (ent u j)"
        if "aligned u" "j < 512" "u \<in> tables ?m root" "(u, j) \<noteq> (?t, i)" for u j
      proof -
        have "u \<noteq> f" using that(3) ft by auto
        then show ?thesis using that fresh(2) al by (auto simp: s'(2))
      qed
      note g = graft [OF tree p(1,2) nt [unfolded True] nh fresh(2,3) ft new link other]
      have fin: "finite (free_frames (frames s))" by (simp add: free_frames_def)
      have "tables (pmem s') root \<inter> free_frames (frames s') = {}"
        using g(2) dis unfolding s'(3) fresh(7) by blast
      moreover have "\<forall>a \<in> free_frames (frames s'). aligned a \<and> a \<noteq> 0"
        using fr unfolding s'(3) fresh(7) by blast
      moreover have "pmm_inv (frames s')" unfolding s'(3) by (rule fresh(8))
      moreover have "pt_tree (pmem s') root" by (rule g(1))
      ultimately have "vm_ok s' root" unfolding vm_ok_def by (intro conjI)
      moreover have "card (free_frames (frames s)) \<le> card (free_frames (frames s')) + 1"
        unfolding s'(3) fresh(7) using fin fresh(1) by (simp add: card_Diff_singleton)
      moreover have "free_frames (frames s') \<subseteq> free_frames (frames s)"
        unfolding s'(3) fresh(7) by blast
      moreover have "n = tab (pmem s') root (i # p)" unfolding s'(1) by (rule g(3) [symmetric])
      moreover have "n \<noteq> 0" using fresh(3) s'(1) by simp
      ultimately show ?thesis using g(4,5) by blast
    qed
  qed
  then show "vm_ok s' root" and "n \<noteq> 0 \<Longrightarrow> n = tab (pmem s') root (i # p)"
    and "mmu (pmem s') root v = mmu (pmem s) root v"
    and "pde_huge (pmem s') root v \<Longrightarrow> pde_huge (pmem s) root v"
    and "n = 0 \<Longrightarrow> s' = s \<and> free_frames (frames s) = {}"
    and "free_frames (frames s') \<subseteq> free_frames (frames s)"
    and "card (free_frames (frames s)) \<le> card (free_frames (frames s')) + 1" by blast+
qed

subsection \<open>Writing leaf entries\<close>

lemma pd_suffix: "suffix (pd_path v) (pt_path v)"
  unfolding pt_path_Cons by (rule suffix_ConsI) simp

lemma paths_differ [simp]: "pd_path v \<noteq> pt_path w" "pt_path w \<noteq> pd_path v"
  by (simp_all add: pd_path_def pt_path_def)

lemma length_pd_path [simp]: "length (pd_path v) = 2"
  by (simp add: pd_path_def)

definition same_page :: "u64 \<Rightarrow> u64 \<Rightarrow> bool" where
  "same_page v w \<longleftrightarrow> pt_path v = pt_path w \<and> PT_INDEX v = PT_INDEX w"

definition same_huge :: "u64 \<Rightarrow> u64 \<Rightarrow> bool" where
  "same_huge v w \<longleftrightarrow> pt_path v = pt_path w"

lemma write_pte:
  fixes e :: u64
  assumes t: "pt_tree m root" "tab m root (pt_path v) \<noteq> 0"
  defines "m' \<equiv> m(ent (tab m root (pt_path v)) (PT_INDEX v) := e)"
  shows "pt_tree m' root" and "tables m' root = tables m root"
    and "\<not> pde_huge m root v \<Longrightarrow> mmu m' root w = (if same_page v w then leaf e 0xFFF w else mmu m root w)"
    and "pde_huge m' root w = pde_huge m root w"
proof -
  have al: "aligned root" using t(1) by (simp add: pt_tree_def)
  have other: "m' (ent u j) = m (ent u j)"
    if "aligned u" "j < 512" "(u, j) \<noteq> (tab m root (pt_path v), PT_INDEX v)" for u j
    using that aligned_tab [OF al] by (auto simp: m'_def)
  have tab: "tab m' root q = tab m root q" if "path q" for q
  proof (rule tab_write [OF t(1) paths(2) t(2) index_less(4) _ that])
    show "\<not> suffix (PT_INDEX v # pt_path v) q"
      using that by (auto dest!: suffix_length_le simp: path_def pt_path_def)
  qed (use other in blast)
  have "{tab m' root p | p. path p} = {tab m root p | p. path p}"
    using tab by (intro Collect_cong) metis
  then show "tables m' root = tables m root" by (simp add: tables_def)
  show "pt_tree m' root" using t(1) by (auto simp: pt_tree_def tab)
  have pd: "m' (ent (tab m root (pd_path w)) j) = m (ent (tab m root (pd_path w)) j)"
    if "tab m root (pd_path w) \<noteq> 0" "j < 512" for j
    using that pt_tree_inj [OF t(1) paths(1) paths(2) that(1), of v] aligned_tab [OF al]
    by (intro other) (auto simp: pd_path_def pt_path_def)
  show "pde_huge m' root w = pde_huge m root w"
    using pd [of "PD_INDEX w"] by (auto simp: pde_huge_def tab)
  assume nh: "\<not> pde_huge m root v"
  have pt: "m' (ent (tab m root (pt_path w)) (PT_INDEX w)) =
      (if same_page v w then e else m (ent (tab m root (pt_path w)) (PT_INDEX w)))"
    if "tab m root (pt_path w) \<noteq> 0"
    using that pt_tree_inj [OF t(1) paths(2) paths(2) that, of v] aligned_tab [OF al]
    by (auto simp: m'_def same_page_def)
  have "pd_path v = pd_path w" "PD_INDEX v = PD_INDEX w" if "same_page v w"
    using that by (auto simp: same_page_def pt_path_Cons)
  moreover have "tab m root (pd_path v) \<noteq> 0"
    using t(2) tab_suffix [OF pd_suffix] by blast
  ultimately show "mmu m' root w = (if same_page v w then leaf e 0xFFF w else mmu m root w)"
    using pd pt t(2) nh by (auto simp: mmu_paths tab Let_def pde_huge_def same_page_def)
qed

lemma write_pde:
  assumes t: "pt_tree m root" "tab m root (pd_path v) \<noteq> 0" and e: "e AND PAGE_HUGE \<noteq> 0 \<or> e = 0"
  defines "m' \<equiv> m(ent (tab m root (pd_path v)) (PD_INDEX v) := e)"
  shows "pt_tree m' root" and "tables m' root \<subseteq> tables m root"
    and "mmu m' root w = (if same_huge v w then leaf e 0x1FFFFF w else mmu m root w)"
proof -
  have al: "aligned root" using t(1) by (simp add: pt_tree_def)
  have other: "m' (ent u j) = m (ent u j)"
    if "aligned u" "j < 512" "(u, j) \<noteq> (tab m root (pd_path v), PD_INDEX v)" for u j
    using that aligned_tab [OF al] by (auto simp: m'_def)
  have keep: "tab m' root q = tab m root q" if "path q" "q \<noteq> pt_path v" for q
  proof (rule tab_write [OF t(1) paths(1) t(2) index_less(3) _ that(1)])
    show "\<not> suffix (PD_INDEX v # pd_path v) q"
      using that by (auto dest!: suffix_length_le simp: path_def pt_path_Cons pd_path_def suffix_def)
  qed (use other in blast)
  have pd: "tab m' root (pd_path w) = tab m root (pd_path w)" for w
    by (rule keep [OF paths(1)]) (simp add: pd_path_def pt_path_def)
  have gone: "tab m' root (pt_path v) = 0"
  proof -
    have "m' (ent (tab m root (pd_path v)) (PD_INDEX v)) = e" by (simp add: m'_def)
    then show ?thesis
      using e by (auto simp: pt_path_Cons pd next_tab_def get_existing_table_def)
  qed
  have val: "tab m' root q = (if q = pt_path v then 0 else tab m root q)" if "path q" for q
    using keep [OF that] gone by simp
  show "tables m' root \<subseteq> tables m root" by (auto simp: tables_def val)
  show "pt_tree m' root" using t(1) by (auto simp: pt_tree_def val split: if_splits)
  have pde: "m' (ent (tab m root (pd_path w)) (PD_INDEX w)) =
      (if same_huge v w then e else m (ent (tab m root (pd_path w)) (PD_INDEX w)))"
    if "tab m root (pd_path w) \<noteq> 0"
    using that pt_tree_inj [OF t(1) paths(1) paths(1) that, of v] aligned_tab [OF al]
    by (auto simp: m'_def same_huge_def pt_path_Cons)
  have pt: "m' (ent (tab m root (pt_path w)) (PT_INDEX w)) = m (ent (tab m root (pt_path w)) (PT_INDEX w))"
    if "tab m root (pt_path w) \<noteq> 0"
    using that pt_tree_inj [OF t(1) paths(2) paths(1) that, of v] aligned_tab [OF al]
    by (intro other) (auto simp: pd_path_def pt_path_def)
  have "pd_path v = pd_path w" if "same_huge v w" using that by (simp add: same_huge_def pt_path_Cons)
  then show "mmu m' root w = (if same_huge v w then leaf e 0x1FFFFF w else mmu m root w)"
    using pde pt t(2) e by (auto simp: mmu_paths val Let_def same_huge_def)
qed

lemma vm_okD:
  assumes "vm_ok s root"
  shows "pt_tree (pmem s) root" "root \<noteq> 0" "aligned root"
  using assms by (simp_all add: vm_ok_def pt_tree_def)

lemma vm_ok_mem:
  "vm_ok s root \<Longrightarrow> pt_tree m root \<Longrightarrow> tables m root \<subseteq> tables (pmem s) root \<Longrightarrow> vm_ok (s\<lparr>pmem := m\<rparr>) root"
  by (auto simp: vm_ok_def)

text \<open>The kernel's walk to the page directory and the page table is the walk along the tree.\<close>

lemma walk_pd:
  "root \<noteq> 0 \<Longrightarrow> tab m root (pd_path v) =
     (let pdpt = get_existing_table m root (PML4_INDEX v)
      in if pdpt = 0 then 0 else get_existing_table m pdpt (PDPT_INDEX v))"
  by (simp add: pd_path_def next_tab_def Let_def)

lemma walk_pt:
  "tab m root (pt_path v) = (let pd = tab m root (pd_path v) in
     if pd = 0 \<or> m (ent pd (PD_INDEX v)) AND PAGE_HUGE \<noteq> 0 then 0
     else get_existing_table m pd (PD_INDEX v))"
  by (simp add: pt_path_Cons next_tab_def Let_def)

text \<open>The first two levels, as every mapping builds them.\<close>

lemma ensure_pd:
  assumes ok: "vm_ok s root" and card: "2 \<le> card (free_frames (frames s))"
  obtains pdpt s1 pd s2 where "ensure_next_table root (PML4_INDEX v) s = (pdpt, s1)" "pdpt \<noteq> 0"
    "ensure_next_table pdpt (PDPT_INDEX v) s1 = (pd, s2)" "pd \<noteq> 0" "pd = tab (pmem s2) root (pd_path v)"
    "vm_ok s2 root" "\<And>w. mmu (pmem s2) root w = mmu (pmem s) root w"
    "\<And>w. pde_huge (pmem s2) root w \<Longrightarrow> pde_huge (pmem s) root w"
    "card (free_frames (frames s)) \<le> card (free_frames (frames s2)) + 2"
proof -
  obtain pdpt s1 where a: "ensure_next_table root (PML4_INDEX v) s = (pdpt, s1)"
    by (cases "ensure_next_table root (PML4_INDEX v) s")
  have pa: "path [PML4_INDEX v]" "path [PDPT_INDEX v, PML4_INDEX v]" by (simp_all add: path_def)
  have r: "tab (pmem s) root [] \<noteq> 0" using vm_okD [OF ok] by simp
  note e1 = ensure_next [OF ok pa(1) r, simplified, OF a]
  have p0: "pdpt \<noteq> 0" using e1(5) card by auto
  obtain pd s2 where b: "ensure_next_table pdpt (PDPT_INDEX v) s1 = (pd, s2)"
    by (cases "ensure_next_table pdpt (PDPT_INDEX v) s1")
  have t1: "tab (pmem s1) root [PML4_INDEX v] = pdpt" using e1(2) [OF p0] by simp
  have n0: "tab (pmem s1) root [PML4_INDEX v] \<noteq> 0" using t1 p0 by simp
  note e2 = ensure_next [OF e1(1) pa(2) n0 _ b [folded t1]]
  have "pd \<noteq> 0" using e2(5) e1(7) card by auto
  show ?thesis
  proof (rule that [OF a p0 b \<open>pd \<noteq> 0\<close>])
    show "pd = tab (pmem s2) root (pd_path v)" using e2(2) \<open>pd \<noteq> 0\<close> by (simp add: pd_path_def)
    show "vm_ok s2 root" using e2(1) by simp
    show "mmu (pmem s2) root w = mmu (pmem s) root w" for w using e2(3) [of w] e1(3) [of w] by simp
    show "pde_huge (pmem s) root w" if "pde_huge (pmem s2) root w" for w
      using e2(4) [of w] e1(4) [of w] that by simp
    show "card (free_frames (frames s)) \<le> card (free_frames (frames s2)) + 2" using e2(7) e1(7) by simp
  qed
qed

text \<open>Memory that agrees on the tables translates alike.\<close>

lemma tab_agree:
  assumes "\<And>u j. u \<in> tables m root \<Longrightarrow> j < 512 \<Longrightarrow> m' (ent u j) = m (ent u j)"
  shows "path q \<Longrightarrow> tab m' root q = tab m root q"
proof (induction q)
  case (Cons j q)
  then have q: "path q" "j < 512" "tab m' root q = tab m root q" by (auto simp: path_Cons)
  then show ?case
    using assms [OF tab_in_tables [OF q(1)] q(2)] by (auto simp: next_tab_def get_existing_table_def)
qed simp

lemma mmu_agree:
  assumes "\<And>u j. u \<in> tables m root \<Longrightarrow> j < 512 \<Longrightarrow> m' (ent u j) = m (ent u j)"
  shows "mmu m' root v = mmu m root v" and "tables m' root = tables m root"
    and "pt_tree m root \<Longrightarrow> pt_tree m' root"
proof -
  note t = tab_agree [of m root m', OF assms]
  show "mmu m' root v = mmu m root v"
    using assms [OF tab_in_tables [OF paths(1) [of v]]] assms [OF tab_in_tables [OF paths(2) [of v]]]
    by (simp add: mmu_paths t Let_def)
  have "{tab m' root p | p. path p} = {tab m root p | p. path p}"
    using t by (intro Collect_cong) metis
  then show "tables m' root = tables m root" by (simp add: tables_def)
  show "pt_tree m root \<Longrightarrow> pt_tree m' root" by (auto simp: pt_tree_def t)
qed

subsection \<open>Properties\<close>

text \<open>The step of a mapping, with the frames it may use up.\<close>

lemma map_page_step:
  assumes "vm_ok s root" and "3 \<le> card (free_frames (frames s))"
    and "flags AND PAGE_HUGE = 0" and "\<not> pde_huge (pmem s) root v"
  shows "vm_ok (vmm_map root v phys flags s) root \<and>
    (\<forall>w. mmu (pmem (vmm_map root v phys flags s)) root w =
      (if same_page v w then leaf ((phys AND NOT 0xFFF) OR flags OR PAGE_PRESENT) 0xFFF w
       else mmu (pmem s) root w)) \<and>
    (\<forall>w. pde_huge (pmem (vmm_map root v phys flags s)) root w \<longrightarrow> pde_huge (pmem s) root w) \<and>
    card (free_frames (frames s)) \<le> card (free_frames (frames (vmm_map root v phys flags s))) + 3"
proof -
  have c2: "2 \<le> card (free_frames (frames s))" using assms(2) by simp
  obtain pdpt s1 pd s2 where d: "ensure_next_table root (PML4_INDEX v) s = (pdpt, s1)" "pdpt \<noteq> 0"
    "ensure_next_table pdpt (PDPT_INDEX v) s1 = (pd, s2)" "pd \<noteq> 0" "pd = tab (pmem s2) root (pd_path v)"
    "vm_ok s2 root" "\<And>w. mmu (pmem s2) root w = mmu (pmem s) root w"
    "\<And>w. pde_huge (pmem s2) root w \<Longrightarrow> pde_huge (pmem s) root w"
    "card (free_frames (frames s)) \<le> card (free_frames (frames s2)) + 2"
    by (rule ensure_pd [OF assms(1) c2, of v]) blast
  obtain pt s3 where e: "ensure_next_table pd (PD_INDEX v) s2 = (pt, s3)"
    by (cases "ensure_next_table pd (PD_INDEX v) s2")
  have pa: "path (PD_INDEX v # pd_path v)" using paths(2) [of v] by (simp only: pt_path_Cons)
  have n0: "tab (pmem s2) root (pd_path v) \<noteq> 0" using d(4,5) by simp
  have nh2: "\<not> pde_huge (pmem s2) root v" using d(8) assms(4) by blast
  then have nh: "pmem s2 (ent (tab (pmem s2) root (pd_path v)) (PD_INDEX v)) AND PAGE_HUGE = 0"
    using n0 by (simp add: pde_huge_def)
  note e3 = ensure_next [OF d(6) pa n0 nh e [unfolded d(5)]]
  have pt0: "pt \<noteq> 0"
  proof
    assume "pt = 0"
    then have "free_frames (frames s2) = {}" using e3(5) by blast
    then show False using d(9) assms(2) by simp
  qed
  have t: "pt = tab (pmem s3) root (pt_path v)" using e3(2) [OF pt0] by (simp only: pt_path_Cons)
  have m: "vmm_map root v phys flags s = s3\<lparr>pmem := (pmem s3)(ent pt (PT_INDEX v) :=
      (phys AND NOT 0xFFF) OR flags OR PAGE_PRESENT)\<rparr>"
    using d(2,4) pt0 assms(3) by (simp add: vmm_map_def d(1,3) e)
  have tn: "tab (pmem s3) root (pt_path v) \<noteq> 0" using t pt0 by simp
  note w = write_pte [OF vm_okD(1) [OF e3(1)] tn, folded t]
  have nh3: "\<not> pde_huge (pmem s3) root v" using e3(4) nh2 by blast
  show ?thesis
    unfolding m using vm_ok_mem [OF e3(1) w(1)] w(2,3,4) nh3 e3(3,4,7) d(7,8,9) by simp
qed

text \<open>
  C7. Mapping a page. With three free frames and no huge mapping at the address, \<open>vmm_map\<close>
  makes the processor translate every address of the page to the given frame with the given
  flags, changes the translation of no other address, and keeps the tables well-formed.
\<close>

theorem vmm_map_page:
  assumes "vm_ok s root" and "3 \<le> card (free_frames (frames s))"
    and "flags AND PAGE_HUGE = 0" and "\<not> pde_huge (pmem s) root v"
  shows "vm_ok (vmm_map root v phys flags s) root \<and>
    (\<forall>w. mmu (pmem (vmm_map root v phys flags s)) root w =
      (if same_page v w then leaf ((phys AND NOT 0xFFF) OR flags OR PAGE_PRESENT) 0xFFF w
       else mmu (pmem s) root w))"
  using map_page_step [OF assms] by blast

text \<open>
  Mapping a huge page. With two free frames, \<open>vmm_map\<close> with \<open>PAGE_HUGE\<close> makes the
  processor translate every address of the 2 MiB region to the given 2 MiB frame, whatever was
  mapped there before, and changes the translation of no address outside it.
\<close>

theorem vmm_map_huge_page:
  assumes "vm_ok s root" and "2 \<le> card (free_frames (frames s))" and "flags AND PAGE_HUGE \<noteq> 0"
  shows "vm_ok (vmm_map root v phys flags s) root \<and>
    (\<forall>w. mmu (pmem (vmm_map root v phys flags s)) root w =
      (if same_huge v w then leaf ((phys AND NOT 0x1FFFFF) OR flags OR PAGE_PRESENT) 0x1FFFFF w
       else mmu (pmem s) root w))"
proof -
  obtain pdpt s1 pd s2 where d: "ensure_next_table root (PML4_INDEX v) s = (pdpt, s1)" "pdpt \<noteq> 0"
    "ensure_next_table pdpt (PDPT_INDEX v) s1 = (pd, s2)" "pd \<noteq> 0" "pd = tab (pmem s2) root (pd_path v)"
    "vm_ok s2 root" "\<And>w. mmu (pmem s2) root w = mmu (pmem s) root w"
    by (rule ensure_pd [OF assms(1,2), of v]) blast
  let ?e = "(phys AND NOT 0x1FFFFF) OR flags OR PAGE_PRESENT"
  have m: "vmm_map root v phys flags s = s2\<lparr>pmem := (pmem s2)(ent pd (PD_INDEX v) := ?e)\<rparr>"
    using d(2,4) assms(3) by (simp add: vmm_map_def d(1,3))
  have "bit flags 7" using assms(3) one_bit_test [of flags 7] by (simp add: PAGE_HUGE_def)
  then have "bit ?e 7" by (simp add: bit_simps)
  then have h: "?e AND PAGE_HUGE \<noteq> 0 \<or> ?e = 0" using one_bit_test [of ?e 7] by (simp add: PAGE_HUGE_def)
  have n0: "tab (pmem s2) root (pd_path v) \<noteq> 0" using d(4,5) by simp
  note w = write_pde [OF vm_okD(1) [OF d(6)] n0 h, folded d(5)]
  show ?thesis unfolding m using vm_ok_mem [OF d(6) w(1,2)] w(3) d(7) by simp
qed

text \<open>
  C8. Unmapping removes exactly the page of the address, or the whole 2 MiB region when it is
  mapped huge; every other translation stays, and so does the well-formedness of the tables.
\<close>

theorem vmm_unmap_correct:
  assumes "vm_ok s root"
  shows "vm_ok (vmm_unmap root v s) root \<and>
    (\<forall>w. mmu (pmem (vmm_unmap root v s)) root w =
      (if (if pde_huge (pmem s) root v then same_huge v w else same_page v w) then None
       else mmu (pmem s) root w))"
proof -
  let ?m = "pmem s"
  note r = vm_okD [OF assms]
  note pd = walk_pd [OF r(2), of ?m v]
  show ?thesis
  proof (cases "tab ?m root (pd_path v) = 0")
    case True
    then have u: "vmm_unmap root v s = s" using pd by (auto simp: vmm_unmap_def Let_def split: if_splits)
    have "mmu ?m root w = None" if "same_page v w" for w
      using that True by (auto simp: mmu_paths same_page_def pt_path_Cons)
    then show ?thesis using assms True by (auto simp: u pde_huge_def)
  next
    case False
    show ?thesis
    proof (cases "pde_huge ?m root v")
      case True
      then have u: "vmm_unmap root v s = s\<lparr>pmem := ?m(ent (tab ?m root (pd_path v)) (PD_INDEX v) := 0)\<rparr>"
        using pd False by (auto simp: vmm_unmap_def Let_def pde_huge_def split: if_splits)
      have z: "(0::u64) AND PAGE_HUGE \<noteq> 0 \<or> (0::u64) = 0" by simp
      note w = write_pde [OF r(1) False z]
      show ?thesis unfolding u using vm_ok_mem [OF assms w(1,2)] w(3) True by simp
    next
      case nh: False
      then have pt: "tab ?m root (pt_path v) = get_existing_table ?m (tab ?m root (pd_path v)) (PD_INDEX v)"
        using False by (simp add: walk_pt pde_huge_def)
      show ?thesis
      proof (cases "tab ?m root (pt_path v) = 0")
        case True
        then have u: "vmm_unmap root v s = s"
          using pd False nh pt by (auto simp: vmm_unmap_def Let_def pde_huge_def split: if_splits)
        have "mmu ?m root w = None" if "same_page v w" for w
          using that True nh by (auto simp: mmu_paths same_page_def pde_huge_def pt_path_Cons Let_def)
        then show ?thesis using assms nh by (auto simp: u)
      next
        case pt0: False
        then have u: "vmm_unmap root v s = s\<lparr>pmem := ?m(ent (tab ?m root (pt_path v)) (PT_INDEX v) := 0)\<rparr>"
          using pd False nh pt by (auto simp: vmm_unmap_def Let_def pde_huge_def split: if_splits)
        note w = write_pte [OF r(1) pt0, of 0]
        show ?thesis unfolding u using vm_ok_mem [OF assms w(1)] w(2,3) nh by simp
      qed
    qed
  qed
qed

text \<open>The software walk on a mapped address.\<close>

lemma walk_translates:
  assumes "root \<noteq> 0" and "mmu (pmem s) root v = Some (phys, flags)"
  shows "vmm_get_phys root v s = phys \<and> vmm_get_flags root v s = flags"
proof -
  note pd = walk_pd [OF assms(1), of "pmem s" v] and pt = walk_pt [of "pmem s" root v]
  show ?thesis
    using assms pd pt by (auto simp: mmu_paths vmm_get_phys_def vmm_get_flags_def Let_def leaf_def split: if_splits)
qed


text \<open>
  The kernel's header documents 0 for an unmapped address. After a page is unmapped (or
  when only its neighbour was ever mapped) the walk still finds the page table, does not look
  at the present bit of the entry, and answers the offset in the page.
\<close>

theorem vmm_get_phys_unmapped:
  assumes "vm_ok s root" and "tab (pmem s) root (pt_path v) \<noteq> 0" and "\<not> pde_huge (pmem s) root v"
  shows "mmu (pmem (vmm_unmap root v s)) root v = None \<and>
    vmm_get_phys root v (vmm_unmap root v s) = v AND 0xFFF"
proof -
  let ?m = "pmem s" and ?t = "tab (pmem s) root (pt_path v)"
  note r = vm_okD [OF assms(1)]
  have pd0: "tab ?m root (pd_path v) \<noteq> 0" using tab_suffix [OF pd_suffix assms(2)] .
  have pt: "?t = get_existing_table ?m (tab ?m root (pd_path v)) (PD_INDEX v)"
    using pd0 assms(3) by (simp add: walk_pt pde_huge_def)
  have u: "pmem (vmm_unmap root v s) = ?m(ent ?t (PT_INDEX v) := 0)"
    using walk_pd [OF r(2), of ?m v] pd0 assms(2,3) pt
    by (auto simp: vmm_unmap_def Let_def pde_huge_def split: if_splits)
  have t: "tab (?m(ent ?t (PT_INDEX v) := 0)) root q = tab ?m root q" if "path q" for q
  proof (rule tab_write [OF r(1) paths(2) assms(2) index_less(4) _ that])
    show "\<not> suffix (PT_INDEX v # pt_path v) q"
      using that by (auto dest!: suffix_length_le simp: path_def pt_path_def)
  qed (use aligned_tab [OF r(3)] in auto)
  let ?m' = "?m(ent ?t (PT_INDEX v) := 0)"
  have k: "tab ?m' root (pd_path v) = tab ?m root (pd_path v)" "tab ?m' root (pt_path v) = ?t"
    by (rule t, simp)+
  have nh': "?m' (ent (tab ?m root (pd_path v)) (PD_INDEX v)) AND PAGE_HUGE = 0"
    using walk_pt [of ?m' root v] k assms(2) pd0 by (auto simp: Let_def split: if_splits)
  have "vmm_get_phys root v (vmm_unmap root v s) = v AND 0xFFF"
    using walk_pd [OF r(2), of ?m' v] walk_pt [of ?m' root v] k pd0 assms(2) nh'
    by (simp add: vmm_get_phys_def u Let_def split: if_splits)
  moreover have "mmu (pmem (vmm_unmap root v s)) root v = None"
    using write_pte(3) [OF r(1) assms(2,3), of 0 v] by (simp add: u same_page_def)
  ultimately show ?thesis by simp
qed

text \<open>
  Mapping a 4 KiB page at an address that lies in a huge mapping (as the kernel does for
  MMIO windows below 4 GiB and for user windows) is not detected: the entry is written into
  the 2 MiB data page as if it were a page table, and the address still translates as before.
\<close>

theorem vmm_map_inside_huge:
  assumes ok: "vm_ok s root" and h: "pde_huge (pmem s) root v" and fl: "flags AND PAGE_HUGE = 0"
    and e: "pmem s (ent (tab (pmem s) root (pd_path v)) (PD_INDEX v)) = e" "e AND PAGE_PRESENT \<noteq> 0"
    and b: "e AND NOT 0xFFF \<noteq> 0" "e AND NOT 0xFFF \<notin> tables (pmem s) root"
  shows "vmm_map root v phys flags s = s\<lparr>pmem := (pmem s)(ent (e AND NOT 0xFFF) (PT_INDEX v) :=
      (phys AND NOT 0xFFF) OR flags OR PAGE_PRESENT)\<rparr> \<and>
    (\<forall>w. mmu (pmem (vmm_map root v phys flags s)) root w = mmu (pmem s) root w)"
proof -
  let ?pdpt = "get_existing_table (pmem s) root (PML4_INDEX v)" and ?pd = "tab (pmem s) root (pd_path v)"
  note r = vm_okD [OF ok]
  have pd: "?pd \<noteq> 0" using h by (simp add: pde_huge_def)
  then have "?pdpt \<noteq> 0" "get_existing_table (pmem s) ?pdpt (PDPT_INDEX v) = ?pd"
    using walk_pd [OF r(2), of "pmem s" v] by (auto simp: Let_def split: if_splits)
  moreover have "get_existing_table (pmem s) ?pd (PD_INDEX v) = e AND NOT 0xFFF"
    using e by (simp add: get_existing_table_def)
  ultimately have m: "vmm_map root v phys flags s = s\<lparr>pmem := (pmem s)(ent (e AND NOT 0xFFF) (PT_INDEX v) :=
      (phys AND NOT 0xFFF) OR flags OR PAGE_PRESENT)\<rparr>"
    using pd b(1) fl by (simp add: vmm_map_def ensure_next_table_def Let_def)
  have "mmu (pmem (vmm_map root v phys flags s)) root w = mmu (pmem s) root w" for w
  proof (rule mmu_agree)
    show "pmem (vmm_map root v phys flags s) (ent u j) = pmem s (ent u j)"
      if "u \<in> tables (pmem s) root" "j < 512" for u j
    proof -
      have "u \<noteq> e AND NOT 0xFFF" using that(1) b(2) by blast
      then have "ent u j \<noteq> ent (e AND NOT 0xFFF) (PT_INDEX v)"
        using ent_eq_iff [OF tables_aligned [OF r(3) that(1)] aligned_clear that(2) index_less(4)] by blast
      then show ?thesis unfolding m by simp
    qed
  qed
  then show ?thesis using m by blast
qed

text \<open>
  A new address space shares exactly the first 512 GiB (the kernel mapping) with the
  current one and maps nothing else; the current address space is unchanged.
\<close>

theorem vmm_create_shares_kernel:
  assumes ok: "vm_ok s (current_pml4 s)" and c: "vmm_create_address_space s = (new, s')" and n: "new \<noteq> 0"
  shows "vm_ok s' new \<and> new \<in> free_frames (frames s) \<and>
    (\<forall>v. mmu (pmem s') new v = (if PML4_INDEX v = 0 then mmu (pmem s) (current_pml4 s) v else None) \<and>
         mmu (pmem s') (current_pml4 s) v = mmu (pmem s) (current_pml4 s) v)"
proof -
  let ?m = "pmem s" and ?cur = "current_pml4 s"
  obtain r p where a: "pmm_alloc_frame (frames s) = (r, p)" by (cases "pmm_alloc_frame (frames s)")
  have inv: "pmm_inv (frames s)" and fr: "\<forall>a \<in> free_frames (frames s). aligned a \<and> a \<noteq> 0"
    and dis: "tables ?m ?cur \<inter> free_frames (frames s) = {}" using ok by (simp_all add: vm_ok_def)
  note cur = vm_okD [OF ok]
  from c n a obtain r': "r = Some new" and s': "frames s' = p"
    and m': "pmem s' = (zero_table new ?m)(ent new 0 := zero_table new ?m (ent ?cur 0))"
    by (auto simp: vmm_create_address_space_def alloc_frame_ptr_def Let_def split: if_splits option.splits)
  from pmm.alloc_some [OF inv] a r' have f: "new \<in> free_frames (frames s)"
    "free_frames p = free_frames (frames s) - {new}" "pmm_inv p" by auto
  then have al: "aligned new" and nt: "new \<notin> tables ?m ?cur" using fr dis by auto
  have "?cur \<in> tables ?m ?cur" using tab_in_tables [of "[]" ?m ?cur] cur(2) by simp
  then have nc: "new \<noteq> ?cur" using nt by auto
  have agree: "pmem s' (ent u j) = ?m (ent u j)" if "u \<in> tables ?m ?cur" "j < 512" for u j
  proof -
    have "u \<noteq> new" "aligned u" using that nt tables_aligned [OF cur(3)] by auto
    then show ?thesis using that al cur(3) by (simp add: m')
  qed
  have kernel: "pmem s' (ent new j) = (if j = 0 then ?m (ent ?cur 0) else 0)" if "j < 512" for j
    using that al cur(3) nc by (simp add: m')
  have tab: "tab (pmem s') new q = (if q = [] then new else if last q = 0 then tab ?m ?cur q else 0)"
    if "path q" for q using that
  proof (induction q)
    case (Cons j q)
    then have q: "path q" "j < 512" by (auto simp: path_Cons)
    show ?case
    proof (cases "q = []")
      case True
      then show ?thesis using kernel [OF q(2)] n cur(2)
        by (cases "j = 0") (simp_all add: next_tab_def get_existing_table_def)
    next
      case False
      then show ?thesis using Cons.IH [OF q(1)] agree [OF tab_in_tables [OF q(1)] q(2)]
        by (auto simp: next_tab_def get_existing_table_def)
    qed
  qed simp
  have sub: "tables (pmem s') new \<subseteq> insert new (tables ?m ?cur)"
    by (auto simp: tables_def tab)
  have "pt_tree (pmem s') new"
    unfolding pt_tree_def
  proof (intro conjI allI impI)
    fix q r assume q: "path q" "path r" "tab (pmem s') new q \<noteq> 0" "tab (pmem s') new q = tab (pmem s') new r"
    show "q = r"
      using q tab [OF q(1)] tab [OF q(2)] nt tab_in_tables [of _ ?m ?cur] pt_tree_inj [OF cur(1) q(1,2)]
      by (auto split: if_splits)
  qed (use n al in auto)
  then have "vm_ok s' new" unfolding vm_ok_def s' f(2) using sub dis fr f(3) by auto
  moreover have "mmu (pmem s') new v = (if PML4_INDEX v = 0 then mmu ?m ?cur v else None)" for v
    using agree [OF tab_in_tables [OF paths(1) [of v]]] agree [OF tab_in_tables [OF paths(2) [of v]]]
    by (simp add: mmu_paths tab Let_def) (simp add: pd_path_def pt_path_def)
  moreover have "mmu (pmem s') ?cur v = mmu ?m ?cur v" for v
    by (rule mmu_agree(1)) (rule agree)
  ultimately show ?thesis using f(1) by blast
qed

text \<open>The entry both address spaces hold after sharing.\<close>

definition shared_pte :: "u64 \<Rightarrow> u64" where
  "shared_pte e = (e AND NOT 0xFFF) OR cow_flags (e AND 0xFFF) OR PAGE_PRESENT"

lemma bit_PAGE:
  "bit PAGE_PRESENT n \<longleftrightarrow> n = 0" "bit PAGE_WRITABLE n \<longleftrightarrow> n = 1" "bit PAGE_COW n \<longleftrightarrow> n = 9"
proof -
  have w: "bit (push_bit k (1::u64)) n \<longleftrightarrow> n = k" if "k < 64" for k using that by (auto simp: bit_simps)
  show "bit PAGE_PRESENT n \<longleftrightarrow> n = 0" unfolding PAGE_PRESENT_def by (rule w) simp
  show "bit PAGE_WRITABLE n \<longleftrightarrow> n = 1" unfolding PAGE_WRITABLE_def by (rule w) simp
  show "bit PAGE_COW n \<longleftrightarrow> n = 9" unfolding PAGE_COW_def by (rule w) simp
qed

lemma and_PAGE: "w AND PAGE_PRESENT \<noteq> 0 \<longleftrightarrow> bit w 0" "w AND PAGE_WRITABLE \<noteq> 0 \<longleftrightarrow> bit w 1"
  unfolding PAGE_PRESENT_def PAGE_WRITABLE_def by (rule one_bit_test)+

lemma shared_pte_read_only: "shared_pte e AND PAGE_WRITABLE = 0"
proof -
  have "\<not> bit (shared_pte e) 1"
    by (simp add: shared_pte_def cow_flags_def mask_consts bit_simps bit_PAGE and_PAGE)
  then show ?thesis using and_PAGE(2) by blast
qed

lemma shared_pte_id:
  assumes "e AND PAGE_PRESENT \<noteq> 0" and "(e AND 0xFFF) AND PAGE_WRITABLE = 0"
  shows "shared_pte e = e"
proof -
  have "bit e 0" using assms(1) and_PAGE(1) by blast
  moreover have "cow_flags (e AND 0xFFF) = e AND 0xFFF" using assms(2) by (simp add: cow_flags_def)
  ultimately show ?thesis
    unfolding shared_pte_def by (intro bit_word_eqI) (auto simp: mask_consts bit_simps bit_PAGE)
qed

lemma clone_pte_step:
  fixes s :: vmm
  assumes "aligned src" and "aligned dst" and "src \<noteq> dst" and "n < 512"
  defines "i \<equiv> word_of_nat n" and "e \<equiv> pmem s (ent src (word_of_nat n))"
  shows "clone_pte src dst n s =
    (if e AND PAGE_PRESENT \<noteq> 0
     then s\<lparr>pmem := (pmem s)(ent src i := shared_pte e, ent dst i := shared_pte e),
            frames := pmm_ref_inc (e AND NOT 0xFFF) (frames s)\<rparr> else s)"
proof (cases "e AND PAGE_PRESENT = 0")
  case False
  show ?thesis
  proof (cases "(e AND 0xFFF) AND PAGE_WRITABLE = 0")
    case True
    have "shared_pte e = e" using shared_pte_id [OF _ True] False by simp
    then show ?thesis using False True
      by (simp add: clone_pte_def share_entry_def Let_def shared_pte_def e_def i_def)
  next
    case writable: False
    then show ?thesis using False
      by (simp add: clone_pte_def share_entry_def Let_def shared_pte_def e_def i_def)
  qed
qed (simp add: clone_pte_def e_def)

lemma clone_ptes:
  fixes s :: vmm
  assumes t: "aligned src" "aligned dst" "src \<noteq> dst" and "n \<le> 512"
  defines "E \<equiv> \<lambda>l. pmem s (ent src (word_of_nat l))" and "s' \<equiv> fold (clone_pte src dst) [0..<n] s"
  shows "(\<forall>l < n. E l AND PAGE_PRESENT \<noteq> 0 \<longrightarrow> pmem s' (ent src (word_of_nat l)) = shared_pte (E l) \<and>
      pmem s' (ent dst (word_of_nat l)) = shared_pte (E l)) \<and>
    (\<forall>a. (\<forall>l < n. E l AND PAGE_PRESENT \<noteq> 0 \<longrightarrow> a \<noteq> ent src (word_of_nat l) \<and> a \<noteq> ent dst (word_of_nat l)) \<longrightarrow>
      pmem s' a = pmem s a) \<and>
    frames s' = fold pmm_ref_inc (map (\<lambda>e. e AND NOT 0xFFF)
      (filter (\<lambda>e. e AND PAGE_PRESENT \<noteq> 0) (map E [0..<n]))) (frames s)"
  using assms(4) unfolding s'_def
proof (induction n)
  case (Suc n)
  define s1 where "s1 = fold (clone_pte src dst) [0..<n] s"
  from Suc have IH: "\<forall>l < n. E l AND PAGE_PRESENT \<noteq> 0 \<longrightarrow> pmem s1 (ent src (word_of_nat l)) = shared_pte (E l) \<and>
      pmem s1 (ent dst (word_of_nat l)) = shared_pte (E l)"
    "\<forall>a. (\<forall>l < n. E l AND PAGE_PRESENT \<noteq> 0 \<longrightarrow> a \<noteq> ent src (word_of_nat l) \<and> a \<noteq> ent dst (word_of_nat l)) \<longrightarrow>
      pmem s1 a = pmem s a"
    "frames s1 = fold pmm_ref_inc (map (\<lambda>e. e AND NOT 0xFFF)
      (filter (\<lambda>e. e AND PAGE_PRESENT \<noteq> 0) (map E [0..<n]))) (frames s)" and n: "n < 512"
    by (simp_all add: s1_def)
  have idx: "(word_of_nat l :: u64) < 512" "(word_of_nat l :: u64) \<noteq> word_of_nat n" if "l < n" for l
  proof -
    have u: "unat (word_of_nat l :: u64) = l" "unat (word_of_nat n :: u64) = n" using that n by (simp_all add: unat_of_nat)
    then show "(word_of_nat l :: u64) < 512" using that n by (simp add: word_less_nat_alt)
    show "(word_of_nat l :: u64) \<noteq> word_of_nat n" using u that by auto
  qed
  have idn: "(word_of_nat n :: u64) < 512" using n by (simp add: word_less_nat_alt unat_of_nat)
  have e: "pmem s1 (ent src (word_of_nat n)) = E n"
    using IH(2) [rule_format, of "ent src (word_of_nat n)"] t idx idx(2) [THEN not_sym] idn by (auto simp: E_def)
  note step = clone_pte_step [OF t n, of s1, unfolded e]
  have s2: "fold (clone_pte src dst) [0..<Suc n] s = clone_pte src dst n s1" by (simp add: s1_def)
  show ?case
    unfolding s2 step
  proof (intro conjI allI impI, goal_cases)
    case (1 l)
    then show ?case using IH(1) idx idn t by (cases "l = n") (auto simp: less_Suc_eq)
  next
    case (2 l)
    then show ?case using IH(1) idx idn t by (cases "l = n") (auto simp: less_Suc_eq)
  next
    case (3 a)
    then show ?case using IH(2) by (auto simp: less_Suc_eq)
  next
    case 4
    then show ?case using IH(3) by simp
  qed
qed simp

text \<open>
  Copy-on-write sharing of a page table (the inner loop of \<open>vmm_clone_address_space\<close>):
  every present entry of the source ends up equal in both tables, without write permission in
  either, still pointing to the same frame, and that frame gains one reference per entry;
  entries that are not present and all other memory are unchanged.
\<close>

theorem clone_page_table_shares:
  assumes "aligned src" and "aligned dst" and "src \<noteq> dst"
    and "s' = fold (clone_pte src dst) [0..<512] s"
  shows "(\<forall>l < 512. pmem s (ent src l) AND PAGE_PRESENT \<noteq> 0 \<longrightarrow>
      pmem s' (ent src l) = shared_pte (pmem s (ent src l)) \<and>
      pmem s' (ent dst l) = shared_pte (pmem s (ent src l)) \<and>
      pmem s' (ent dst l) AND PAGE_WRITABLE = 0) \<and>
    (\<forall>a. (\<forall>l < 512. pmem s (ent src l) AND PAGE_PRESENT \<noteq> 0 \<longrightarrow> a \<noteq> ent src l \<and> a \<noteq> ent dst l) \<longrightarrow>
      pmem s' a = pmem s a) \<and>
    frames s' = fold pmm_ref_inc (map (\<lambda>e. e AND NOT 0xFFF)
      (filter (\<lambda>e. e AND PAGE_PRESENT \<noteq> 0) (map (\<lambda>l. pmem s (ent src (word_of_nat l))) [0..<512]))) (frames s)"
proof -
  note c = clone_ptes [OF assms(1-3) order_refl, of s, folded assms(4)]
  have w: "l = word_of_nat (unat l)" "unat l < 512" if "l < 512" for l :: u64
    using that by (simp_all add: word_less_nat_alt)
  have a: "pmem s' (ent src l) = shared_pte (pmem s (ent src l)) \<and>
      pmem s' (ent dst l) = shared_pte (pmem s (ent src l)) \<and> pmem s' (ent dst l) AND PAGE_WRITABLE = 0"
    if "l < 512" "pmem s (ent src l) AND PAGE_PRESENT \<noteq> 0" for l
    using c w [OF that(1)] that(2) shared_pte_read_only by (metis of_nat_unat)
  have b: "pmem s' a = pmem s a"
    if old: "\<forall>l < 512. pmem s (ent src l) AND PAGE_PRESENT \<noteq> 0 \<longrightarrow> a \<noteq> ent src l \<and> a \<noteq> ent dst l" for a
  proof (rule c [THEN conjunct2, THEN conjunct1, rule_format])
    show "a \<noteq> ent src (word_of_nat l) \<and> a \<noteq> ent dst (word_of_nat l)"
      if "l < 512" "pmem s (ent src (word_of_nat l)) AND PAGE_PRESENT \<noteq> 0" for l
    proof -
      have "(word_of_nat l :: u64) < 512" using that(1) by (simp add: word_less_nat_alt unat_of_nat)
      then show ?thesis using old that(2) by blast
    qed
  qed
  have "\<forall>l < 512. pmem s (ent src l) AND PAGE_PRESENT \<noteq> 0 \<longrightarrow>
      pmem s' (ent src l) = shared_pte (pmem s (ent src l)) \<and>
      pmem s' (ent dst l) = shared_pte (pmem s (ent src l)) \<and> pmem s' (ent dst l) AND PAGE_WRITABLE = 0"
    using a by blast
  then show ?thesis using b c [THEN conjunct2, THEN conjunct2] by (intro conjI) blast+
qed

subsection \<open>Witnesses\<close>

text \<open>
  A root at \<open>0x1000\<close> that maps the page \<open>0x5000\<close> to frame \<open>0x9000\<close> and the region at
  \<open>0x200000\<close> by a huge entry, with three free frames.
\<close>

definition vm_mem :: pmem where
  "vm_mem = (\<lambda>_. 0)(0x1000 := 0x2007, 0x2000 := 0x3007, 0x3000 := 0x4007, 0x3008 := 0x200083,
     0x4028 := 0x9003)"

definition vm_ex :: vmm where
  "vm_ex = \<lparr>pmem = vm_mem,
     frames = \<lparr>frame_bitmap = (\<lambda>_. 0), free_stack = (\<lambda>_. 0)(0 := 0x5000, 1 := 0x6000, 2 := 0x7000),
       stack_ptr = 2, ref_counts = (\<lambda>_. 0), total_frames = 3\<rparr>,
     current_pml4 = 0x1000, cr3 = 0x1000\<rparr>"

lemmas vm_eval = vm_mem_def ent_def PAGE_PRESENT_def PAGE_HUGE_def get_existing_table_def next_tab_def
  PML4_INDEX_def PDPT_INDEX_def PD_INDEX_def PT_INDEX_def mmu_def leaf_def pde_huge_def pd_path_def
  pt_path_def

lemma vm_mem_zero: "a \<notin> {0x1000, 0x2000, 0x3000, 0x3008, 0x4028} \<Longrightarrow> vm_mem a = 0"
  by (simp add: vm_mem_def)

lemma ent_ne: "aligned t \<Longrightarrow> i < 512 \<Longrightarrow> aligned u \<Longrightarrow> j < 512 \<Longrightarrow> ent u j = a \<Longrightarrow> (t, i) \<noteq> (u, j) \<Longrightarrow> ent t i \<noteq> a"
  by auto

lemma vm_mem_tabs:
  "path q \<Longrightarrow> tab vm_mem 0x1000 q =
    (if set q \<subseteq> {0} then [0x1000, 0x2000, 0x3000, 0x4000] ! length q else 0)"
proof (induction q)
  case (Cons j q)
  then have q: "path q" "j < 512" "length q < 3" by (auto simp: path_Cons)
  note IH = Cons.IH [OF q(1)]
  have al: "aligned 0x1000" "aligned 0x2000" "aligned 0x3000" "aligned 0x4000"
    by (simp_all add: aligned_def)
  have e: "vm_mem (ent t j) = 0" if "j \<noteq> 0" "t \<in> {0x1000, 0x2000}" for t
  proof (rule vm_mem_zero)
    have "ent t j \<noteq> ent u k" if "(t, j) \<noteq> (u, k)" "u \<in> {0x1000, 0x2000, 0x3000, 0x4000}" "k < 512" for u k
      using that \<open>t \<in> _\<close> q(2) al by auto
    from this [of "0x1000" 0] this [of "0x2000" 0] this [of "0x3000" 0] this [of "0x3000" 1] this [of "0x4000" 5] that
    show "ent t j \<notin> {0x1000, 0x2000, 0x3000, 0x3008, 0x4028}" by (auto simp: ent_def)
  qed
  have e3: "next_tab vm_mem 2 0x3000 j = 0" if "j \<noteq> 0"
  proof (cases "j = 1")
    case True
    then show ?thesis by (simp add: vm_eval)
  next
    case False
    have "ent 0x3000 j \<noteq> ent u k" if "(0x3000, j) \<noteq> (u, k)" "u \<in> {0x1000, 0x2000, 0x3000, 0x4000}" "k < 512" for u k
      using that q(2) al by auto
    from this [of "0x1000" 0] this [of "0x2000" 0] this [of "0x3000" 0] this [of "0x3000" 1] this [of "0x4000" 5] that False
    have "ent 0x3000 j \<notin> {0x1000, 0x2000, 0x3000, 0x3008, 0x4028}" by (auto simp: ent_def)
    from vm_mem_zero [OF this] show ?thesis by (simp add: next_tab_def get_existing_table_def)
  qed
  have n: "next_tab vm_mem 0 0x1000 j = (if j = 0 then 0x2000 else 0)"
    "next_tab vm_mem 1 0x2000 j = (if j = 0 then 0x3000 else 0)"
    "next_tab vm_mem 2 0x3000 j = (if j = 0 then 0x4000 else 0)"
    using e [of "0x1000"] e [of "0x2000"] e3
    by (cases "j = 0"; simp add: next_tab_def get_existing_table_def; simp add: vm_eval)+
  consider "length q = 0" | "length q = 1" | "length q = 2" using q(3) by linarith
  then show ?case using IH n by cases auto
qed simp

lemma vm_ex_frames: "free_frames (frames vm_ex) = {0x5000, 0x6000, 0x7000}" "pmm_inv (frames vm_ex)"
  by (simp_all add: vm_ex_def free_frames_def stack_list_def upt_rec pmm_inv_def free_listed_def
      frame_no_def PAGE_SIZE_def MAX_FRAMES_def bitmap_test_def insert_commute)

lemma vm_ex_tables: "tables vm_mem 0x1000 \<subseteq> {0x1000, 0x2000, 0x3000, 0x4000}"
proof
  fix u assume "u \<in> tables vm_mem 0x1000"
  then obtain q where q: "path q" "u = tab vm_mem 0x1000 q" "u \<noteq> 0" by (auto simp: tables_def)
  then have "length q < 4" by (simp add: path_def)
  then show "u \<in> {0x1000, 0x2000, 0x3000, 0x4000}"
    using q(2,3) by (auto simp: vm_mem_tabs [OF q(1)] nth_Cons' split: if_splits)
qed

lemma vm_ex_ok: "vm_ok vm_ex 0x1000"
proof -
  have m: "pmem vm_ex = vm_mem" by (simp add: vm_ex_def)
  have z: "q = replicate (length q) 0" if "set q \<subseteq> {0::u64}" for q
    using that by (metis replicate_eqI singletonD subsetD)
  have v: "tab vm_mem 0x1000 q = tab vm_mem 0x1000 r \<Longrightarrow> tab vm_mem 0x1000 q \<noteq> 0 \<Longrightarrow> path q \<Longrightarrow> path r \<Longrightarrow> q = r" for q r
  proof -
    assume a: "tab vm_mem 0x1000 q = tab vm_mem 0x1000 r" "tab vm_mem 0x1000 q \<noteq> 0" "path q" "path r"
    then have s: "set q \<subseteq> {0}" "set r \<subseteq> {0}" using vm_mem_tabs by (auto split: if_splits)
    have "length q < 4" "length r < 4" using a(3,4) by (auto simp: path_def)
    then have "length q = length r"
      using a(1) s by (simp add: vm_mem_tabs [OF a(3)] vm_mem_tabs [OF a(4)] nth_Cons' split: if_splits)
        (simp_all add: le_Suc_eq)
    then show "q = r" using z s by metis
  qed
  have "pt_tree vm_mem 0x1000" using v by (simp add: pt_tree_def aligned_def)
  then show ?thesis using vm_ex_tables vm_ex_frames m by (auto simp: vm_ok_def aligned_def)
qed

lemma vm_ex_mem: "pmem vm_ex = vm_mem" "current_pml4 vm_ex = 0x1000"
  by (simp_all add: vm_ex_def)

theorem vmm_map_page_witness:
  "mmu (pmem (vmm_map 0x1000 0x40000000 0x8000 3 vm_ex)) 0x1000 0x40000123 = Some (0x8123, 3)"
proof -
  have "\<not> pde_huge (pmem vm_ex) 0x1000 0x40000000" by (simp add: vm_ex_mem vm_eval)
  moreover have "same_page 0x40000000 0x40000123"
    by (simp add: same_page_def vm_eval)
  ultimately show ?thesis
    using vmm_map_page [OF vm_ex_ok, of 3 "0x40000000" "0x8000"]
    by (simp add: vm_ex_frames PAGE_HUGE_def PAGE_PRESENT_def leaf_def)
qed

theorem vmm_map_huge_page_witness:
  "mmu (pmem (vmm_map 0x1000 0x40000000 0x600000 0x83 vm_ex)) 0x1000 0x40012345 = Some (0x612345, 0x83)"
proof -
  have "same_huge 0x40000000 0x40012345" by (simp add: same_huge_def vm_eval)
  then show ?thesis
    using vmm_map_huge_page [OF vm_ex_ok, of "0x83" "0x40000000" "0x600000"]
    by (simp add: vm_ex_frames PAGE_HUGE_def PAGE_PRESENT_def leaf_def)
qed

theorem vmm_unmap_correct_witness:
  "mmu (pmem vm_ex) 0x1000 0x5123 = Some (0x9123, 3) \<and>
   mmu (pmem (vmm_unmap 0x1000 0x5000 vm_ex)) 0x1000 0x5123 = None"
proof -
  have "\<not> pde_huge (pmem vm_ex) 0x1000 0x5000" "same_page 0x5000 0x5123"
    by (simp_all add: vm_ex_mem vm_eval same_page_def)
  moreover have "mmu (pmem vm_ex) 0x1000 0x5123 = Some (0x9123, 3)" by (simp add: vm_ex_mem vm_eval)
  ultimately show ?thesis using vmm_unmap_correct [OF vm_ex_ok, of "0x5000"] by simp
qed


theorem vmm_get_phys_unmapped_witness:
  "vmm_get_phys 0x1000 0x5123 (vmm_unmap 0x1000 0x5123 vm_ex) = 0x123"
proof -
  have "tab (pmem vm_ex) 0x1000 (pt_path 0x5123) \<noteq> 0" "\<not> pde_huge (pmem vm_ex) 0x1000 0x5123"
    by (simp_all add: vm_ex_mem vm_eval)
  from vmm_get_phys_unmapped [OF vm_ex_ok this] show ?thesis by simp
qed

theorem vmm_map_inside_huge_witness:
  "vmm_get_phys 0x1000 0x201000 (vmm_map 0x1000 0x201000 0xFEE00000 3 vm_ex) = 0x201000 \<and>
   pmem (vmm_map 0x1000 0x201000 0xFEE00000 3 vm_ex) 0x200008 = 0xFEE00003"
proof -
  have t: "0x200000 \<notin> tables (pmem vm_ex) 0x1000"
  proof
    assume "0x200000 \<in> tables (pmem vm_ex) 0x1000"
    then obtain q where q: "path q" "tab vm_mem 0x1000 q = 0x200000" by (auto simp: tables_def vm_ex_mem)
    then have "length q < 4" by (simp add: path_def)
    then show False using q(2) by (auto simp: vm_mem_tabs [OF q(1)] nth_Cons' split: if_splits)
  qed
  have "pde_huge (pmem vm_ex) 0x1000 0x201000"
    "pmem vm_ex (ent (tab (pmem vm_ex) 0x1000 (pd_path 0x201000)) (PD_INDEX 0x201000)) = 0x200083"
    by (simp_all add: vm_ex_mem vm_eval)
  from vmm_map_inside_huge [OF vm_ex_ok this(1) _ this(2), of 3 "0xFEE00000"] t
  have m: "vmm_map 0x1000 0x201000 0xFEE00000 3 vm_ex = vm_ex\<lparr>pmem := (pmem vm_ex)(0x200008 := 0xFEE00003)\<rparr>"
    by (simp add: PAGE_HUGE_def PAGE_PRESENT_def ent_def PT_INDEX_def)
  show ?thesis by (simp add: m vmm_get_phys_def vm_ex_mem vm_eval)
qed

theorem vmm_create_shares_kernel_witness:
  "\<exists>s'. vmm_create_address_space vm_ex = (0x7000, s') \<and> mmu (pmem s') 0x7000 0x5123 = Some (0x9123, 3) \<and>
     mmu (pmem s') 0x7000 0x8000005123 = None"
proof -
  obtain n s' where c: "vmm_create_address_space vm_ex = (n, s')" by (cases "vmm_create_address_space vm_ex")
  have a: "n = 0x7000" using c
    by (auto simp: vmm_create_address_space_def alloc_frame_ptr_def vm_ex_def pmm_alloc_frame_def Let_def)
  have ok: "vm_ok vm_ex (current_pml4 vm_ex)" using vm_ex_ok by (simp add: vm_ex_mem)
  have "mmu vm_mem 0x1000 0x5123 = Some (0x9123, 3)" by (simp add: vm_eval)
  then show ?thesis
    using vmm_create_shares_kernel [OF ok c] c a by (simp add: vm_ex_mem PML4_INDEX_def)
qed

theorem clone_page_table_shares_witness:
  "pmem (fold (clone_pte 0x4000 0x6000) [0..<512] vm_ex) 0x6028 = 0x9201"
proof -
  have "pmem vm_ex (ent 0x4000 5) = 0x9003" "(5 :: u64) < 512" by (simp_all add: vm_ex_mem vm_eval)
  moreover have "shared_pte 0x9003 = 0x9201"
    by (simp add: shared_pte_def cow_flags_def PAGE_PRESENT_def PAGE_WRITABLE_def PAGE_COW_def)
  moreover have "aligned 0x4000" "aligned 0x6000" by (simp_all add: aligned_def)
  ultimately have "pmem (fold (clone_pte 0x4000 0x6000) [0..<512] vm_ex) (ent 0x6000 5) = 0x9201"
    using clone_page_table_shares [OF _ _ _ refl, of "0x4000" "0x6000" vm_ex]
    by (simp add: PAGE_PRESENT_def)
  then show ?thesis by (simp add: ent_def)
qed

end
