(* ===== verification/Kstring.thy ===== *)
theory Kstring
  imports Prelude
begin

text \<open>
  Model of \<open>src/kernel/string.c\<close> over byte memory. \<open>memset\<close> and \<open>memcpy\<close> are the string
  instructions of the source: \<open>rep stosq\<close>/\<open>rep movsq\<close> for the whole 8-byte words, then
  \<open>rep stosb\<close>/\<open>rep movsb\<close> for the rest, upwards (the direction flag is clear). The loops
  that stop at a byte found in memory are option-valued: \<open>None\<close> is a loop that does not end.
\<close>

subsection \<open>Little-endian words in byte memory\<close>

definition byte :: "nat \<Rightarrow> u64 \<Rightarrow> u8" where
  "byte i v = ucast (drop_bit (8 * i) v)"

definition write64 :: "mem \<Rightarrow> u64 \<Rightarrow> u64 \<Rightarrow> mem" where
  "write64 m a v = m(a := byte 0 v, a + 1 := byte 1 v, a + 2 := byte 2 v, a + 3 := byte 3 v,
     a + 4 := byte 4 v, a + 5 := byte 5 v, a + 6 := byte 6 v, a + 7 := byte 7 v)"

subsection \<open>The string instructions\<close>

primrec rep_stosq :: "nat \<Rightarrow> u64 \<Rightarrow> u64 \<Rightarrow> mem \<Rightarrow> mem" where
  "rep_stosq 0 d v m = m"
| "rep_stosq (Suc k) d v m = rep_stosq k (d + 8) v (write64 m d v)"

primrec rep_stosb :: "nat \<Rightarrow> u64 \<Rightarrow> u8 \<Rightarrow> mem \<Rightarrow> mem" where
  "rep_stosb 0 d c m = m"
| "rep_stosb (Suc k) d c m = rep_stosb k (d + 1) c (m(d := c))"

primrec rep_movsq :: "nat \<Rightarrow> u64 \<Rightarrow> u64 \<Rightarrow> mem \<Rightarrow> mem" where
  "rep_movsq 0 d s m = m"
| "rep_movsq (Suc k) d s m = rep_movsq k (d + 8) (s + 8) (write64 m d (read64 m s))"

primrec rep_movsb :: "nat \<Rightarrow> u64 \<Rightarrow> u64 \<Rightarrow> mem \<Rightarrow> mem" where
  "rep_movsb 0 d s m = m"
| "rep_movsb (Suc k) d s m = rep_movsb k (d + 1) (s + 1) (m(d := m s))"

subsection \<open>The functions of string.c\<close>

definition fill_word :: "u8 \<Rightarrow> u64" where
  "fill_word c =
     (let v0 = ucast c;
          v1 = v0 OR push_bit 8 v0;
          v2 = v1 OR push_bit 16 v1
      in v2 OR push_bit 32 v2)"

definition memset :: "u64 \<Rightarrow> u8 \<Rightarrow> u64 \<Rightarrow> mem \<Rightarrow> mem" where
  "memset s c n m =
     (let qwords = unat (n div 8); bytes = unat (n mod 8)
      in rep_stosb bytes (s + 8 * word_of_nat qwords) (ucast (fill_word c))
           (rep_stosq qwords s (fill_word c) m))"

definition memcpy :: "u64 \<Rightarrow> u64 \<Rightarrow> u64 \<Rightarrow> mem \<Rightarrow> mem" where
  "memcpy dest src n m =
     (let qwords = unat (n div 8); bytes = unat (n mod 8); off = 8 * word_of_nat qwords
      in rep_movsb bytes (dest + off) (src + off) (rep_movsq qwords dest src m))"

text \<open>\<open>for (i = n; i != 0; i--) d[i - 1] = s[i - 1];\<close>\<close>

primrec move_down :: "nat \<Rightarrow> u64 \<Rightarrow> u64 \<Rightarrow> mem \<Rightarrow> mem" where
  "move_down 0 d s m = m"
| "move_down (Suc i) d s m = move_down i d s (m(d + word_of_nat i := m (s + word_of_nat i)))"

definition memmove :: "u64 \<Rightarrow> u64 \<Rightarrow> u64 \<Rightarrow> mem \<Rightarrow> mem" where
  "memmove dest src n m =
     (if dest = src \<or> n = 0 then m
      else if dest < src \<or> dest \<ge> src + n then memcpy dest src n m
      else move_down (unat n) dest src m)"

primrec memcmp_loop :: "nat \<Rightarrow> u64 \<Rightarrow> u64 \<Rightarrow> mem \<Rightarrow> int" where
  "memcmp_loop 0 p1 p2 m = 0"
| "memcmp_loop (Suc n) p1 p2 m =
     (if m p1 \<noteq> m p2 then uint (m p1) - uint (m p2) else memcmp_loop n (p1 + 1) (p2 + 1) m)"

definition memcmp :: "u64 \<Rightarrow> u64 \<Rightarrow> u64 \<Rightarrow> mem \<Rightarrow> int" where
  "memcmp s1 s2 n m = memcmp_loop (unat n) s1 s2 m"

partial_function (option) strcmp :: "u64 \<Rightarrow> u64 \<Rightarrow> mem \<Rightarrow> int option" where
  "strcmp s1 s2 m =
     (if m s1 \<noteq> 0 \<and> m s1 = m s2 then strcmp (s1 + 1) (s2 + 1) m
      else Some (uint (m s1) - uint (m s2)))"

partial_function (option) strcpy_loop :: "u64 \<Rightarrow> u64 \<Rightarrow> mem \<Rightarrow> mem option" where
  "strcpy_loop d s m =
     (let m' = m(d := m s) in if m s \<noteq> 0 then strcpy_loop (d + 1) (s + 1) m' else Some m')"

definition strcpy :: "u64 \<Rightarrow> u64 \<Rightarrow> mem \<Rightarrow> mem option" where
  "strcpy dest src m = strcpy_loop dest src m"

partial_function (option) strlen_loop :: "u64 \<Rightarrow> u64 \<Rightarrow> mem \<Rightarrow> u64 option" where
  "strlen_loop s len m = (if m (s + len) \<noteq> 0 then strlen_loop s (len + 1) m else Some len)"

definition strlen :: "u64 \<Rightarrow> mem \<Rightarrow> u64 option" where
  "strlen s m = strlen_loop s 0 m"

subsection \<open>Bytes of a word\<close>

lemma bit_byte: "bit (byte i v) n \<longleftrightarrow> n < 8 \<and> bit v (8 * i + n)"
  by (auto simp: byte_def bit_simps)

lemma bit_read16: "bit (read16 m a) n \<longleftrightarrow> (if n < 8 then bit (m a) n else n < 16 \<and> bit (m (a + 1)) (n - 8))"
  by (auto simp: read16_def bit_simps dest: bit_imp_le_length)

lemma bit_read32: "bit (read32 m a) n \<longleftrightarrow>
  (if n < 16 then bit (read16 m a) n else n < 32 \<and> bit (read16 m (a + 2)) (n - 16))"
  by (auto simp: read32_def bit_simps dest: bit_imp_le_length)

lemma bit_read64: "bit (read64 m a) n \<longleftrightarrow>
  (if n < 32 then bit (read32 m a) n else n < 64 \<and> bit (read32 m (a + 4)) (n - 32))"
  by (auto simp: read64_def bit_simps dest: bit_imp_le_length)

lemma byte_read64: "i < 8 \<Longrightarrow> byte i (read64 m a) = m (a + word_of_nat i)"
proof -
  assume "i < 8"
  then consider "i = 0" | "i = 1" | "i = 2" | "i = 3" | "i = 4" | "i = 5" | "i = 6" | "i = 7" by linarith
  then show ?thesis
    by cases (auto intro!: bit_word_eqI simp: bit_byte bit_read16 bit_read32 bit_read64 algebra_simps)
qed

lemma byte_fill: "i < 8 \<Longrightarrow> byte i (fill_word c) = c"
proof -
  assume "i < 8"
  have nb: "\<not> bit c k" if "8 \<le> k" for k using that bit_imp_le_length [of c k] by auto
  from \<open>i < 8\<close> consider "i = 0" | "i = 1" | "i = 2" | "i = 3" | "i = 4" | "i = 5" | "i = 6" | "i = 7" by linarith
  then show ?thesis
    by cases (auto intro!: bit_word_eqI simp: bit_byte fill_word_def Let_def bit_simps nb)
qed

lemma write64_apply:
  "write64 m a v x = (if unat (x - a) < 8 then byte (unat (x - a)) v else m x)"
proof (cases "unat (x - a) < 8")
  case True
  define i where "i = unat (x - a)"
  then have x: "x = a + word_of_nat i" by simp
  have b: "write64 m a v x = byte i v" if "i = 0 \<or> i = 1 \<or> i = 2 \<or> i = 3 \<or> i = 4 \<or> i = 5 \<or> i = 6 \<or> i = 7"
    using that by (elim disjE) (simp_all add: x write64_def)
  have "i < 8" using True i_def by simp
  then have "write64 m a v x = byte i v" by (intro b) linarith
  then show ?thesis using True by (simp only: i_def if_True)
next
  case False
  have "x \<noteq> a + word_of_nat i" if "i < 8" for i
  proof
    assume "x = a + word_of_nat i"
    then have "unat (x - a) = i" using that by (simp add: unat_of_nat)
    then show False using that False by simp
  qed
  from this [of 0] this [of 1] this [of 2] this [of 3] this [of 4] this [of 5] this [of 6] this [of 7] False
  show ?thesis by (simp add: write64_def)
qed

subsection \<open>The string instructions, byte by byte\<close>

text \<open>
  \<open>x\<close> is one of the \<open>n\<close> bytes from \<open>d\<close>. The instructions are used on ranges that do not wrap
  around the end of the address space.
\<close>

definition within :: "u64 \<Rightarrow> nat \<Rightarrow> u64 \<Rightarrow> bool" where
  "within d n x \<longleftrightarrow> unat d \<le> unat x \<and> unat x < unat d + n"

definition no_wrap :: "u64 \<Rightarrow> nat \<Rightarrow> bool" where
  "no_wrap d n \<longleftrightarrow> unat d + n \<le> 2 ^ 64"

text \<open>The reference for copying: bytes of the source as they were at the start.\<close>

definition copied :: "u64 \<Rightarrow> u64 \<Rightarrow> nat \<Rightarrow> mem \<Rightarrow> mem" where
  "copied d s n m = (\<lambda>x. if within d n x then m (s + (x - d)) else m x)"

lemma unat_plus: "no_wrap d n \<Longrightarrow> k < n \<Longrightarrow> unat (d + word_of_nat k) = unat d + k"
  by (simp add: no_wrap_def unat_word_ariths unat_of_nat)

lemma within_offset: "within d n x \<Longrightarrow> unat (x - d) = unat x - unat d"
  by (simp add: within_def unat_sub_if' word_le_nat_alt)

lemma write64_within:
  assumes "no_wrap d n" and "8 \<le> n"
  shows "write64 m d v x = (if within d 8 x then byte (unat x - unat d) v else m x)"
proof (cases "within d 8 x")
  case True
  then have "unat x - unat d < 8" by (auto simp: within_def)
  with True show ?thesis using within_offset [OF True] by (simp add: write64_apply)
next
  case False
  have "\<not> unat (x - d) < 8"
  proof
    assume "unat (x - d) < 8"
    then have "unat (x - d) < n" using assms(2) by simp
    from unat_plus [OF assms(1) this] have "unat x = unat d + unat (x - d)"
      by (simp only: of_nat_unat ucast_id add_diff_cancel_left' diff_add_cancel add.commute [of d])
    then show False using False \<open>unat (x - d) < 8\<close> by (simp add: within_def)
  qed
  then show ?thesis using False by (simp add: write64_apply)
qed

lemma rep_stosq_fill:
  "no_wrap d (8 * k) \<Longrightarrow> rep_stosq k d (fill_word c) m x = (if within d (8 * k) x then c else m x)"
proof (induction k arbitrary: d m)
  case (Suc k)
  have w: "write64 m d (fill_word c) x = (if within d 8 x then c else m x)"
    using write64_within [OF Suc.prems, of m "fill_word c" x] by (auto simp: within_def byte_fill)
  show ?case
  proof (cases "k = 0")
    case True
    then show ?thesis using w by simp
  next
    case False
    then have d: "unat (d + 8) = unat d + 8" using unat_plus [OF Suc.prems, of 8] by simp
    then have "no_wrap (d + 8) (8 * k)" using Suc.prems by (simp add: no_wrap_def)
    from Suc.IH [OF this] show ?thesis using w d by (auto simp: within_def)
  qed
qed (auto simp: within_def)

lemma within_1: "within d (Suc 0) x \<longleftrightarrow> x = d"
proof -
  have "within d (Suc 0) x \<longleftrightarrow> unat x = unat d" by (auto simp: within_def)
  then show ?thesis by (simp only: unat_eq_iff)
qed

lemma rep_stosb_fill:
  "no_wrap d k \<Longrightarrow> rep_stosb k d c m x = (if within d k x then c else m x)"
proof (induction k arbitrary: d m)
  case (Suc k)
  show ?case
  proof (cases "k = 0")
    case True
    then show ?thesis by (simp add: within_1)
  next
    case False
    then have d: "unat (d + 1) = unat d + 1" using unat_plus [OF Suc.prems, of 1] by simp
    then have "no_wrap (d + 1) k" using Suc.prems by (simp add: no_wrap_def)
    moreover have "within d (Suc k) x \<longleftrightarrow> x = d \<or> within (d + 1) k x"
    proof -
      have "within d (Suc k) x \<longleftrightarrow> unat x = unat d \<or> within (d + 1) k x"
        using d by (auto simp: within_def)
      then show ?thesis by (simp only: unat_eq_iff)
    qed
    moreover have "\<not> within (d + 1) k d" using d by (simp add: within_def)
    ultimately show ?thesis using Suc.IH by auto
  qed
qed (auto simp: within_def)

text \<open>Copying upwards is safe when the destination is below the source or past its end.\<close>

definition forward_safe :: "u64 \<Rightarrow> u64 \<Rightarrow> nat \<Rightarrow> bool" where
  "forward_safe d s n \<longleftrightarrow> no_wrap d n \<and> no_wrap s n \<and> (unat d \<le> unat s \<or> unat s + n \<le> unat d)"

lemma copied_append:
  assumes "forward_safe d s (a + b)" and "0 < b"
  shows "copied (d + word_of_nat a) (s + word_of_nat a) b (copied d s a m) = copied d s (a + b) m"
proof
  fix x
  have w: "unat (d + word_of_nat a) = unat d + a" "unat (s + word_of_nat a) = unat s + a"
    using assms unat_plus [of d "a + b" a] unat_plus [of s "a + b" a] by (simp_all add: forward_safe_def)
  show "copied (d + word_of_nat a) (s + word_of_nat a) b (copied d s a m) x = copied d s (a + b) m x"
  proof (cases "within (d + word_of_nat a) b x")
    case True
    define j where "j = unat x - (unat d + a)"
    have j: "j < b" "unat x = unat d + (a + j)" using True w by (auto simp: within_def j_def)
    have x: "x = d + word_of_nat (a + j)"
      using unat_plus [of d "a + b" "a + j"] j assms by (simp add: forward_safe_def flip: unat_eq_iff)
    have y: "unat (s + word_of_nat (a + j)) = unat s + (a + j)"
      using unat_plus [of s "a + b" "a + j"] j assms by (simp add: forward_safe_def)
    have e: "s + word_of_nat a + (x - (d + word_of_nat a)) = s + word_of_nat (a + j)"
      "s + (x - d) = s + word_of_nat (a + j)" by (simp_all add: x)
    have "\<not> within d a (s + word_of_nat (a + j))"
      using y j(1) assms by (auto simp: within_def forward_safe_def)
    moreover have "within d (a + b) x" using j by (simp add: within_def)
    ultimately show ?thesis using True by (simp add: copied_def e)
  next
    case False
    then have "within d (a + b) x \<longleftrightarrow> within d a x" using w by (auto simp: within_def)
    then show ?thesis using False by (simp add: copied_def)
  qed
qed

lemma forward_safe_step:
  assumes "forward_safe d s (a + b)" and "0 < b"
  shows "forward_safe d s a" "forward_safe (d + word_of_nat a) (s + word_of_nat a) b"
  using assms unat_plus [of d "a + b" a] unat_plus [of s "a + b" a]
  by (auto simp: forward_safe_def no_wrap_def)

lemma copied_0 [simp]: "copied d s 0 m = m"
  by (auto simp: copied_def within_def fun_eq_iff)

lemma movsq_1:
  assumes "forward_safe d s 8"
  shows "write64 m d (read64 m s) = copied d s 8 m"
proof
  fix x
  have w: "no_wrap d 8" using assms by (simp add: forward_safe_def)
  show "write64 m d (read64 m s) x = copied d s 8 m x"
  proof (cases "within d 8 x")
    case True
    then have "unat x - unat d < 8" by (auto simp: within_def)
    then have "byte (unat x - unat d) (read64 m s) = m (s + word_of_nat (unat x - unat d))"
      by (rule byte_read64)
    also have "word_of_nat (unat x - unat d) = x - d"
      using word_of_natI [OF within_offset [OF True]] by simp
    finally show ?thesis using True write64_within [OF w order_refl] by (simp add: copied_def)
  qed (use write64_within [OF w order_refl] in \<open>simp add: copied_def\<close>)
qed

lemma rep_movsq_copied: "forward_safe d s (8 * k) \<Longrightarrow> rep_movsq k d s m = copied d s (8 * k) m"
proof (induction k arbitrary: d s m)
  case (Suc k)
  show ?case
  proof (cases "k = 0")
    case True
    then show ?thesis using Suc.prems by (simp add: movsq_1)
  next
    case False
    have f: "forward_safe d s (8 + 8 * k)" "0 < 8 * k" using Suc.prems False by simp_all
    note st = forward_safe_step [OF f]
    show ?thesis using Suc.IH [OF st(2)] movsq_1 [OF st(1), of m] copied_append [OF f, of m] by simp
  qed
qed simp

lemma rep_movsb_copied: "forward_safe d s k \<Longrightarrow> rep_movsb k d s m = copied d s k m"
proof (induction k arbitrary: d s m)
  case (Suc k)
  have one: "m(d := m s) = copied d s 1 m"
    by (auto simp: copied_def within_1)
  show ?case
  proof (cases "k = 0")
    case True
    then show ?thesis using one by simp
  next
    case False
    have f: "forward_safe d s (1 + k)" "0 < k" using Suc.prems False by simp_all
    note st = forward_safe_step [OF f]
    show ?thesis using Suc.IH [OF st(2)] one copied_append [OF f, of m] by simp
  qed
qed simp

lemma div_mod_8: "unat (n div 8) * 8 + unat (n mod 8) = unat (n::u64)"
  by (simp add: unat_div unat_mod)

lemma memcpy_copied:
  assumes "forward_safe d s (unat n)"
  shows "memcpy d s n m = copied d s (unat n) m"
proof -
  let ?k = "unat (n div 8)" and ?r = "unat (n mod 8)"
  have n: "8 * ?k + ?r = unat n" using div_mod_8 [of n] by (simp only: mult.commute)
  have o: "8 * word_of_nat ?k = (word_of_nat (8 * ?k) :: u64)" by simp
  show ?thesis
  proof (cases "?r = 0")
    case True
    then have "forward_safe d s (8 * ?k)" using assms n by simp
    then show ?thesis using True n rep_movsq_copied by (simp add: memcpy_def Let_def del: of_nat_mult)
  next
    case False
    have f: "forward_safe d s (8 * ?k + ?r)" "0 < ?r" using assms n False by simp_all
    note st = forward_safe_step [OF f]
    show ?thesis
      using rep_movsq_copied [OF st(1)] rep_movsb_copied [OF st(2)] copied_append [OF f, of m] n
      by (simp only: memcpy_def Let_def o)
  qed
qed

lemma memset_fill:
  assumes "no_wrap d (unat n)"
  shows "memset d c n m = (\<lambda>x. if within d (unat n) x then c else m x)"
proof
  fix x
  let ?k = "unat (n div 8)" and ?r = "unat (n mod 8)"
  have n: "8 * ?k + ?r = unat n" using div_mod_8 [of n] by (simp only: mult.commute)
  have c: "ucast (fill_word c) = c" using byte_fill [of 0 c] by (simp add: byte_def)
  have q: "no_wrap d (8 * ?k)" using assms n by (simp add: no_wrap_def)
  show "memset d c n m x = (if within d (unat n) x then c else m x)"
  proof (cases "?r = 0")
    case True
    then show ?thesis using n rep_stosq_fill [OF q] by (simp add: memset_def Let_def)
  next
    case False
    have u: "unat (d + 8 * word_of_nat ?k) = unat d + 8 * ?k"
      using unat_plus [OF assms, of "8 * ?k"] n False by simp
    then have "no_wrap (d + 8 * word_of_nat ?k) ?r" using assms n by (simp add: no_wrap_def)
    then have "memset d c n m x = (if within (d + 8 * word_of_nat ?k) ?r x then c
        else if within d (8 * ?k) x then c else m x)"
      using rep_stosb_fill rep_stosq_fill [OF q] by (simp add: memset_def Let_def c)
    also have "\<dots> = (if within d (unat n) x then c else m x)"
      using u n by (auto simp: within_def)
    finally show ?thesis .
  qed
qed

lemma move_down_apply:
  assumes "no_wrap d n" and "no_wrap s n" and "unat s < unat d" and "i \<le> n"
  shows "move_down i d s m x = (if within d i x then m (s + (x - d)) else m x)"
  using assms(4)
proof (induction i arbitrary: m)
  case (Suc i)
  let ?m = "m(d + word_of_nat i := m (s + word_of_nat i))"
  have u: "unat (d + word_of_nat i) = unat d + i" "unat (s + word_of_nat i) = unat s + i"
    using unat_plus [OF assms(1)] unat_plus [OF assms(2)] Suc.prems by simp_all
  have IH: "move_down i d s ?m x = (if within d i x then ?m (s + (x - d)) else ?m x)"
    by (rule Suc.IH) (use Suc.prems in simp)
  have "s + (x - d) \<noteq> d + word_of_nat i" if w: "within d i x"
  proof -
    have "unat x - unat d < n" using w Suc.prems by (auto simp: within_def)
    then have "unat (s + word_of_nat (unat x - unat d)) = unat s + (unat x - unat d)"
      by (rule unat_plus [OF assms(2)])
    moreover have "word_of_nat (unat x - unat d) = x - d"
      using word_of_natI [OF within_offset [OF w]] by simp
    ultimately have "unat (s + (x - d)) = unat s + (unat x - unat d)" by simp
    then have "unat (s + (x - d)) < unat d + i" using w assms(3) by (auto simp: within_def)
    then have "unat (s + (x - d)) \<noteq> unat (d + word_of_nat i)" using u(1) by simp
    then show ?thesis by metis
  qed
  moreover have "within d (Suc i) x \<longleftrightarrow> within d i x \<or> x = d + word_of_nat i"
    using u(1) by (auto simp: within_def less_Suc_eq simp flip: unat_eq_iff)
  moreover have "\<not> within d i (d + word_of_nat i)" using u(1) by (simp add: within_def)
  ultimately show ?case using IH by auto
qed (auto simp: within_def)

subsection \<open>C strings\<close>

text \<open>The string at \<open>a\<close>: bytes different from 0, then a 0.\<close>

fun cstr :: "mem \<Rightarrow> u64 \<Rightarrow> u8 list \<Rightarrow> bool" where
  "cstr m a [] \<longleftrightarrow> m a = 0"
| "cstr m a (c # cs) \<longleftrightarrow> m a = c \<and> c \<noteq> 0 \<and> cstr m (a + 1) cs"

text \<open>The order \<open>strcmp\<close> computes: the difference at the first byte that differs.\<close>

fun str_diff :: "u8 list \<Rightarrow> u8 list \<Rightarrow> int" where
  "str_diff [] [] = 0"
| "str_diff [] (d # ds) = - uint d"
| "str_diff (c # cs) [] = uint c"
| "str_diff (c # cs) (d # ds) = (if c = d then str_diff cs ds else uint c - uint d)"

lemma strcmp_diff: "cstr m a cs \<Longrightarrow> cstr m b ds \<Longrightarrow> strcmp a b m = Some (str_diff cs ds)"
proof (induction cs ds arbitrary: a b rule: str_diff.induct)
  case (4 c cs d ds)
  then show ?case by (subst strcmp.simps) auto
qed (subst strcmp.simps, auto)+

lemma str_diff_0: "0 \<notin> set cs \<Longrightarrow> 0 \<notin> set ds \<Longrightarrow> str_diff cs ds = 0 \<longleftrightarrow> cs = ds"
proof (induction cs ds rule: str_diff.induct)
  case (2 d ds)
  then have "uint d \<noteq> 0" by (auto simp: uint_0_iff)
  then show ?case by simp
next
  case (3 c cs)
  then have "uint c \<noteq> 0" by (auto simp: uint_0_iff)
  then show ?case by simp
next
  case (4 c cs d ds)
  then show ?case by (auto simp: word_uint_eq_iff)
qed simp

lemma cstr_nonzero: "cstr m a cs \<Longrightarrow> 0 \<notin> set cs"
  by (induction cs arbitrary: a) auto

lemma strlen_loop_cstr: "cstr m (s + k) cs \<Longrightarrow> strlen_loop s k m = Some (k + word_of_nat (length cs))"
proof (induction cs arbitrary: k)
  case Nil
  then show ?case by (simp add: strlen_loop.simps)
next
  case (Cons c cs)
  then have "strlen_loop s (k + 1) m = Some (k + 1 + word_of_nat (length cs))"
    by (intro Cons.IH) (simp add: add.assoc)
  with Cons.prems show ?case by (subst strlen_loop.simps) (auto simp: add.assoc)
qed

subsection \<open>Properties\<close>

text \<open>
  \<open>memmove\<close> leaves in the destination exactly the bytes the source had before the call,
  however the two ranges overlap, and changes nothing else (the ranges not wrapping).
\<close>

theorem memmove_copies:
  assumes "unat dest + unat n < 2 ^ 64" and "unat src + unat n < 2 ^ 64"
  shows "memmove dest src n m = copied dest src (unat n) m"
proof -
  have w: "no_wrap dest (unat n)" "no_wrap src (unat n)" using assms by (simp_all add: no_wrap_def)
  have sn: "unat (src + n) = unat src + unat n" using assms(2) by (simp add: unat_word_ariths)
  consider "dest = src \<or> n = 0" | "dest \<noteq> src \<and> n \<noteq> 0 \<and> (dest < src \<or> dest \<ge> src + n)"
    | "\<not> (dest = src \<or> n = 0)" "\<not> (dest < src \<or> dest \<ge> src + n)" by blast
  then show ?thesis
  proof cases
    case 1
    then have "copied dest src (unat n) m = m" by (auto simp: copied_def within_def fun_eq_iff)
    then show ?thesis using 1 by (simp add: memmove_def)
  next
    case 2
    then have "forward_safe dest src (unat n)"
      using w sn by (auto simp: forward_safe_def word_le_nat_alt word_less_nat_alt)
    then show ?thesis using 2 memcpy_copied by (auto simp: memmove_def)
  next
    case 3
    then have "unat src < unat dest" by (auto simp: word_less_nat_alt unat_eq_iff [symmetric])
    from move_down_apply [OF w this order_refl] show ?thesis
      using 3 by (auto simp: memmove_def copied_def fun_eq_iff)
  qed
qed

text \<open>
  \<open>memset\<close>, stored by 8-byte words and a tail, is the byte-wise fill of the range.
\<close>

theorem memset_fills:
  assumes "unat s + unat n \<le> 2 ^ 64"
  shows "memset s c n m = (\<lambda>x. if unat s \<le> unat x \<and> unat x < unat s + unat n then c else m x)"
  using memset_fill [of s n c m] assms by (simp add: no_wrap_def within_def)

text \<open>
  On two C strings \<open>strcmp\<close> returns, with the difference at the first byte where they
  differ; it is 0 exactly when the strings are equal. \<open>strlen\<close> returns the length.
\<close>

theorem strcmp_strlen_correct:
  assumes "cstr m a cs" and "cstr m b ds"
  shows "strcmp a b m = Some (str_diff cs ds) \<and> (str_diff cs ds = 0 \<longleftrightarrow> cs = ds) \<and>
    strlen a m = Some (word_of_nat (length cs))"
  using assms strcmp_diff str_diff_0 cstr_nonzero strlen_loop_cstr [of m a 0 cs]
  by (simp add: strlen_def)

theorem memmove_copies_witness:
  "memmove 0x1002 0x1000 4 ((\<lambda>_. 0)(0x1000 := 1, 0x1001 := 2, 0x1002 := 3, 0x1003 := 4)) 0x1004 = 3"
  using memmove_copies [of "0x1002" 4 "0x1000"] by (simp add: copied_def within_def)

theorem memset_fills_witness: "memset 0x1003 7 13 (\<lambda>_. 0) 0x100F = 7 \<and> memset 0x1003 7 13 (\<lambda>_. 0) 0x1010 = 0"
  using memset_fills [of "0x1003" 13] by simp

theorem strcmp_strlen_correct_witness:
  "strcmp 0 16 ((\<lambda>_. 0)(0 := 97, 1 := 98, 16 := 97)) = Some 98"
  using strcmp_strlen_correct [of "(\<lambda>_. 0)(0 := 97, 1 := 98, 16 := 97)" 0 "[97, 98]" 16 "[97]"]
  by simp

end
