(* ===== verification/Elf.thy ===== *)
theory Elf
  imports Prelude Pmm Vmm Kstring
begin

text \<open>
  Model of \<open>src/kernel/elf.c\<close>: loading an ELF image into a fresh address space. The image
  lies at \<open>elf_data\<close> in the same physical memory as the page tables, and its fields are read
  from that memory each time the source reads them.
\<close>

subsection \<open>Physical memory byte by byte\<close>

text \<open>
  The page tables see physical memory as 64-bit words at aligned addresses, the string
  functions as bytes; \<open>on_bytes\<close> applies a byte operation to the memory.
\<close>

definition bytes_of :: "pmem \<Rightarrow> mem" where
  "bytes_of m = (\<lambda>a. byte (unat (a AND 7)) (m (a AND NOT 7)))"

definition on_bytes :: "(mem \<Rightarrow> mem) \<Rightarrow> pmem \<Rightarrow> pmem" where
  "on_bytes f m = read64 (f (bytes_of m))"

subsection \<open>Header fields\<close>

definition ELF_MAGIC :: u32 where "ELF_MAGIC = 0x464C457F"
definition PT_LOAD :: u32 where "PT_LOAD = 1"

text \<open>Offsets in \<open>elf_header_t\<close> (packed).\<close>

definition hdr_magic :: "mem \<Rightarrow> u64 \<Rightarrow> u32" where "hdr_magic m h = read32 m h"
definition hdr_entry :: "mem \<Rightarrow> u64 \<Rightarrow> u64" where "hdr_entry m h = read64 m (h + 24)"
definition hdr_phoff :: "mem \<Rightarrow> u64 \<Rightarrow> u64" where "hdr_phoff m h = read64 m (h + 32)"
definition hdr_phentsize :: "mem \<Rightarrow> u64 \<Rightarrow> u16" where "hdr_phentsize m h = read16 m (h + 54)"
definition hdr_phnum :: "mem \<Rightarrow> u64 \<Rightarrow> u16" where "hdr_phnum m h = read16 m (h + 56)"

text \<open>Offsets in \<open>elf_phdr_t\<close>.\<close>

definition ph_type :: "mem \<Rightarrow> u64 \<Rightarrow> u32" where "ph_type m p = read32 m p"
definition ph_flags :: "mem \<Rightarrow> u64 \<Rightarrow> u32" where "ph_flags m p = read32 m (p + 4)"
definition ph_offset :: "mem \<Rightarrow> u64 \<Rightarrow> u64" where "ph_offset m p = read64 m (p + 8)"
definition ph_vaddr :: "mem \<Rightarrow> u64 \<Rightarrow> u64" where "ph_vaddr m p = read64 m (p + 16)"
definition ph_filesz :: "mem \<Rightarrow> u64 \<Rightarrow> u64" where "ph_filesz m p = read64 m (p + 32)"
definition ph_memsz :: "mem \<Rightarrow> u64 \<Rightarrow> u64" where "ph_memsz m p = read64 m (p + 40)"

subsection \<open>Loading\<close>

text \<open>The bytes of the file that belong in page \<open>p\<close> of the segment are copied to its frame.\<close>

definition elf_copy_page :: "u64 \<Rightarrow> u64 \<Rightarrow> u64 \<Rightarrow> u64 \<Rightarrow> u64 \<Rightarrow> u64 \<Rightarrow> mem \<Rightarrow> mem" where
  "elf_copy_page frame elf_data offset filesz vaddr_start p m =
     (let copy_offset_in_page = (if p = 0 then vaddr_start AND 0xFFF else 0);
          copy_src_offset = (if p = 0 then offset + p * 4096
                             else offset + p * 4096 - (vaddr_start AND 0xFFF));
          copy_size = (if p = 0 then 4096 - copy_offset_in_page else 4096)
      in if copy_src_offset < offset + filesz then
           let bytes_from_file = min ((offset + filesz) - copy_src_offset) copy_size
           in memcpy (frame + copy_offset_in_page) (elf_data + copy_src_offset) bytes_from_file m
         else m)"

definition elf_load_page :: "u64 \<Rightarrow> u64 \<Rightarrow> u64 \<Rightarrow> u64 \<Rightarrow> u64 \<Rightarrow> nat \<Rightarrow> vmm \<Rightarrow> vmm" where
  "elf_load_page pml4 elf_data phdr vaddr_start flags n s =
     (let p = word_of_nat n;
          current_vpage = (vaddr_start AND NOT 0xFFF) + p * 4096;
          (frame, s1) = alloc_frame_ptr s;
          s2 = vmm_map pml4 current_vpage frame flags s1;
          m3 = on_bytes (memset frame 0 4096) (pmem s2);
          b = bytes_of m3
      in s2\<lparr>pmem := on_bytes (elf_copy_page frame elf_data (ph_offset b phdr) (ph_filesz b phdr)
               vaddr_start p) m3\<rparr>)"

definition elf_load_segment :: "u64 \<Rightarrow> u64 \<Rightarrow> u64 \<Rightarrow> vmm \<Rightarrow> vmm" where
  "elf_load_segment pml4 elf_data phdr s =
     (let b = bytes_of (pmem s) in
      if ph_type b phdr = PT_LOAD then
        let flags = (if ph_flags b phdr AND 2 \<noteq> 0 then PAGE_USER OR PAGE_WRITABLE else PAGE_USER);
            vaddr_start = ph_vaddr b phdr;
            vaddr_end = ph_vaddr b phdr + ph_memsz b phdr;
            page_start = vaddr_start AND NOT 0xFFF;
            page_end = (vaddr_end + 4095) AND NOT 0xFFF;
            num_pages = (page_end - page_start) div 4096
        in fold (elf_load_page pml4 elf_data phdr vaddr_start flags) [0..<unat num_pages] s
      else s)"

text \<open>The loop over the program headers; \<open>phnum\<close> is read anew before every round.\<close>

function elf_segments :: "nat \<Rightarrow> u64 \<Rightarrow> u64 \<Rightarrow> vmm \<Rightarrow> vmm" where
  "elf_segments i pml4 elf_data s =
     (let b = bytes_of (pmem s) in
      if i < unat (hdr_phnum b elf_data) then
        let phdr = elf_data + hdr_phoff b elf_data
                   + word_of_nat i * ucast (hdr_phentsize b elf_data)
        in elf_segments (Suc i) pml4 elf_data (elf_load_segment pml4 elf_data phdr s)
      else s)"
  by pat_completeness auto
termination
proof (relation "measure (\<lambda>(i, _). 65536 - i)")
  fix i pml4 elf_data phdr :: u64 and n :: nat and s :: vmm and b
  assume "n < unat (hdr_phnum b elf_data)"
  moreover have "unat (hdr_phnum b elf_data) < 2 ^ LENGTH(16)" by (rule unsigned_less)
  ultimately have "n < 65536" by simp
  then show "((Suc n, pml4, elf_data, elf_load_segment pml4 elf_data phdr s), n, pml4, elf_data, s)
    \<in> measure (\<lambda>(i, _). 65536 - i)" by simp
qed simp

text \<open>\<open>None\<close> is the answer false; otherwise the entry point and the new address space.\<close>

definition elf_load :: "u64 \<Rightarrow> vmm \<Rightarrow> (u64 \<times> u64) option \<times> vmm" where
  "elf_load elf_data s =
     (if hdr_magic (bytes_of (pmem s)) elf_data \<noteq> ELF_MAGIC then (None, s)
      else
        let (pml4, s1) = vmm_create_address_space s;
            entry = hdr_entry (bytes_of (pmem s1)) elf_data
        in (Some (entry, pml4), elf_segments 0 pml4 elf_data s1))"

subsection \<open>Properties\<close>

text \<open>
  C13. The page image. After the fill with zeros and the copy, byte \<open>x\<close> of the frame of page
  \<open>p\<close> is the byte of the segment's file image that belongs at that virtual address, and 0
  outside the file image (before the segment's start and in its zero-initialized tail).
\<close>

theorem elf_page_image:
  fixes p frame elf_data offset filesz vaddr :: u64
  defines "v0 \<equiv> unat (vaddr AND 0xFFF)"
  assumes fr: "unat frame + 4096 \<le> 2 ^ 64"
    and img: "unat elf_data + unat offset + unat filesz < 2 ^ 63" and p: "unat p < 2 ^ 40"
    and apart: "unat elf_data + unat offset + unat filesz \<le> unat frame \<or>
      unat frame + 4096 \<le> unat elf_data + unat offset"
    and x: "x < 4096"
  shows "elf_copy_page frame elf_data offset filesz vaddr p (memset frame 0 4096 m) (frame + word_of_nat x) =
    (let j = int (unat p * 4096 + x) - int v0 in
     if 0 \<le> j \<and> j < int (unat filesz) then m (elf_data + offset + word_of_int j) else 0)"
proof -
  define P O' F D where "P = unat p" and "O' = unat offset" and "F = unat filesz" and "D = unat elf_data"
  define m1 where "m1 = memset frame 0 4096 m"
  define off k where "off = (if p = 0 then v0 else 0)" and "k = (if p = 0 then 0 else P * 4096 - v0)"
  define src :: u64 where "src = (if p = 0 then offset + p * 4096 else offset + p * 4096 - (vaddr AND 0xFFF))"
  have v0: "v0 < 4096"
    by (simp add: v0_def mask_consts take_bit_eq_mod unat_mod flip: take_bit_eq_mask)
  have P0: "p = 0 \<longleftrightarrow> P = 0" by (simp add: P_def unat_eq_0)
  have b: "P < 2 ^ 40" "D + O' + F < 2 ^ 63" using p img by (simp_all add: P_def O'_def F_def D_def)
  have up: "unat (offset + p * 4096) = O' + P * 4096"
    using b by (simp add: unat_word_ariths P_def O'_def)
  have src: "unat src = O' + k"
  proof (cases "p = 0")
    case True
    then show ?thesis using up by (simp add: src_def k_def P0)
  next
    case False
    then have "v0 \<le> P * 4096" using v0 P0 by simp
    then show ?thesis using False up b
      by (simp add: src_def k_def v0_def unat_sub_if')
  qed
  have oF: "unat (offset + filesz) = O' + F" using b by (simp add: unat_word_ariths O'_def F_def)
  have lt: "src < offset + filesz \<longleftrightarrow> k < F" by (simp add: word_less_nat_alt src oF)
  have sub: "unat ((offset + filesz) - src) = F - k" if "k < F"
    using that by (simp add: unat_sub_if' src oF)
  have x1: "unat (frame + word_of_nat x) = unat frame + x"
    using fr x unat_plus [of frame 4096 x] by (simp add: no_wrap_def)
  have m1: "m1 y = (if unat frame \<le> unat y \<and> unat y < unat frame + 4096 then 0 else m y)" for y
    using memset_fill [of frame "0x1000" 0 m] fr by (simp add: m1_def no_wrap_def within_def)
  have j: "int (P * 4096 + x) - int v0 = int k + (int x - int off)"
    using v0 P0 by (auto simp: k_def off_def)
  show ?thesis
  proof (cases "k < F")
    case False
    have "elf_copy_page frame elf_data offset filesz vaddr p m1 = m1"
      using lt False by (simp add: elf_copy_page_def src_def Let_def)
    moreover have "\<not> (0 \<le> int k + (int x - int off) \<and> int k + (int x - int off) < int F)"
      using False v0 P0 by (auto simp: k_def off_def)
    ultimately show ?thesis
      using m1 x1 x j by (auto simp: Let_def P_def F_def simp flip: m1_def)
  next
    case True
    define sz :: u64 where "sz = (if p = 0 then 4096 - word_of_nat off else 4096)"
    define n :: u64 where "n = min ((offset + filesz) - src) sz"
    have sz: "unat sz = 4096 - off"
      using v0 by (auto simp: sz_def off_def unat_sub_if' unat_of_nat)
    have n: "unat n = min (F - k) (4096 - off)"
      using sub [OF True] sz by (simp add: n_def min_def word_le_nat_alt)
    have offw: "(if p = 0 then vaddr AND 0xFFF else 0) = (word_of_nat off :: u64)"
      by (simp add: off_def v0_def)
    have c: "elf_copy_page frame elf_data offset filesz vaddr p m1 =
        memcpy (frame + word_of_nat off) (elf_data + src) n m1"
      using lt True by (simp add: elf_copy_page_def Let_def n_def sz_def offw [symmetric] src_def)
    have ol: "off < 4096" using v0 by (simp add: off_def)
    have d: "unat (frame + word_of_nat off) = unat frame + off"
      using fr ol unat_plus [of frame 4096 off] by (simp add: no_wrap_def)
    have kO: "O' + k < 2 ^ 64 - D" using True b by simp
    have s': "unat (elf_data + src) = D + O' + k"
      using kO src by (simp add: unat_word_ariths D_def)
    have fs: "forward_safe (frame + word_of_nat off) (elf_data + src) (unat n)"
      using d s' n fr b True apart ol
      by (auto simp: forward_safe_def no_wrap_def D_def O'_def F_def)
    note cp = memcpy_copied [OF fs, of m1]
    show ?thesis
    proof (cases "off \<le> x \<and> x < off + unat n")
      case in_file: True
      have w: "within (frame + word_of_nat off) (unat n) (frame + word_of_nat x)"
        using in_file by (simp add: within_def d x1)
      have jn: "int k + (int x - int off) = int (k + (x - off))" using in_file by simp
      have lF: "k + (x - off) < F" using in_file n by auto
      have a: "elf_data + src + (frame + word_of_nat x - (frame + word_of_nat off)) =
          elf_data + offset + word_of_nat (k + (x - off))"
      proof -
        have "src = offset + word_of_nat k"
          using src kO by (simp add: O'_def unat_of_nat unat_word_ariths flip: unat_eq_iff)
        moreover have "word_of_nat x - word_of_nat off = (word_of_nat (x - off) :: u64)"
          using in_file by (simp add: of_nat_diff)
        ultimately show ?thesis by simp
      qed
      have "unat (elf_data + offset + word_of_nat (k + (x - off)) :: u64) = D + O' + (k + (x - off))"
        using lF b by (simp add: unat_word_ariths unat_of_nat D_def O'_def)
      then have mm: "m1 (elf_data + offset + word_of_nat (k + (x - off))) = m (elf_data + offset + word_of_nat (k + (x - off)))"
        using m1 lF apart by (auto simp: D_def O'_def F_def)
      have jj: "int (unat p * 4096 + x) - int v0 = int (k + (x - off))"
        using j jn by (simp only: P_def)
      have "elf_copy_page frame elf_data offset filesz vaddr p m1 (frame + word_of_nat x) =
          m (elf_data + offset + word_of_nat (k + (x - off)))"
        by (simp only: c cp copied_def w if_True a mm)
      then show ?thesis
        using lF unfolding m1_def [symmetric] Let_def jj F_def [symmetric]
        by (simp only: of_nat_less_iff of_nat_0_le_iff if_True simp_thms of_int_of_nat_eq)
    next
      case out: False
      have "\<not> within (frame + word_of_nat off) (unat n) (frame + word_of_nat x)"
        using out by (auto simp: within_def d x1)
      then have "elf_copy_page frame elf_data offset filesz vaddr p m1 (frame + word_of_nat x) = 0"
        using m1 x1 x by (simp add: c cp copied_def)
      moreover have "\<not> (0 \<le> int k + (int x - int off) \<and> int k + (int x - int off) < int F)"
        using out n v0 x P0 by (auto simp: k_def off_def)
      moreover have "int (unat p * 4096 + x) - int v0 = int k + (int x - int off)" using j by (simp only: P_def)
      ultimately show ?thesis unfolding m1_def [symmetric] Let_def F_def [symmetric] by (simp only: if_False)
    qed
  qed
qed

text \<open>
  An image without the ELF magic is refused and nothing changes; otherwise the answer is
  the entry point of its header and a new address space.
\<close>

theorem elf_load_answer:
  "(hdr_magic (bytes_of (pmem s)) d \<noteq> ELF_MAGIC \<longrightarrow> elf_load d s = (None, s)) \<and>
   (hdr_magic (bytes_of (pmem s)) d = ELF_MAGIC \<longrightarrow>
     (\<exists>s'. elf_load d s = (Some (hdr_entry (bytes_of (pmem (snd (vmm_create_address_space s)))) d,
       fst (vmm_create_address_space s)), s')))"
  by (simp add: elf_load_def split: prod.splits)

theorem elf_page_image_witness:
  "elf_copy_page 0x5000 0x100000 0x40 5 0x400010 0 (memset 0x5000 0 4096 (\<lambda>a. ucast a)) 0x5012 = 0x42"
  using elf_page_image [of "0x5000" "0x100000" "0x40" 5 0 "0x12" "0x400010" "\<lambda>a. ucast a"]
  by simp

end
