(* ===== verification/Task.thy ===== *)
theory Task
  imports Prelude Interfaces Pmm Kmalloc Vmm Kstring Elf
begin

text \<open>
  Model of \<open>src/kernel/task.c\<close> and of the per-CPU state of \<open>src/kernel/cpu.c\<close>: task control
  blocks stored by address, one intrusive runqueue per CPU, task creation, the scheduler with
  work stealing, and timer accounting. \<open>get_cpu\<close> is the index \<open>c\<close> of the executing CPU, a CPU
  pointer its index in \<open>cpus\<close>. The runqueue operations run under the queue's lock and are one
  state change each. \<open>task_schedule\<close> is first given as the function it computes when no other
  CPU interferes; a step relation with its unlocked intervals follows.
\<close>

subsection \<open>State\<close>

definition TASK_DEFAULT_TIMESLICE :: u32 where "TASK_DEFAULT_TIMESLICE = 4"

datatype task_state = TASK_READY | TASK_RUNNING | TASK_EXITED

record task =
  t_id :: u64
  rsp :: u64
  stack_bottom :: u64
  user_stack_bottom :: u64
  kernel_rsp :: u64
  t_pml4 :: u64
  t_state :: task_state
  t_cpu_id :: u32
  timeslice :: u32
  t_total_ticks :: u64
  t_next :: u64

record runqueue =
  rq_head :: u64
  rq_tail :: u64
  rq_count :: u32

record cpu =
  c_id :: u8
  need_resched :: u8
  current_task :: u64
  c_total_ticks :: u64
  c_idle_ticks :: u64
  runqueue :: runqueue
  idle_task :: u64
  kernel_stack :: u64
  tss_rsp0 :: u64

type_synonym tasks = "u64 \<Rightarrow> task"

text \<open>The state task.c works on; the components above it extend this record.\<close>

record ksys =
  kvm :: vmm
  heap :: kheap
  tasks :: tasks
  cpus :: "cpu list"
  next_id :: u64

subsection \<open>Runqueues\<close>

definition enqueue_task :: "u64 \<Rightarrow> tasks \<times> runqueue \<Rightarrow> tasks \<times> runqueue" where
  "enqueue_task task q =
     (let (ts, rq) = q; ts1 = ts(task := (ts task)\<lparr>t_next := 0\<rparr>) in
      if rq_tail rq \<noteq> 0
      then (ts1(rq_tail rq := (ts1 (rq_tail rq))\<lparr>t_next := task\<rparr>),
            rq\<lparr>rq_tail := task, rq_count := rq_count rq + 1\<rparr>)
      else (ts1, rq\<lparr>rq_head := task, rq_tail := task, rq_count := rq_count rq + 1\<rparr>))"

definition dequeue_task :: "tasks \<times> runqueue \<Rightarrow> u64 \<times> (tasks \<times> runqueue)" where
  "dequeue_task q =
     (let (ts, rq) = q in
      if rq_head rq = 0 then (0, q)
      else
        let task = rq_head rq;
            rq1 = rq\<lparr>rq_head := t_next (ts task)\<rparr>;
            rq2 = (if rq_head rq1 = 0 then rq1\<lparr>rq_tail := 0\<rparr> else rq1)
        in (task, (ts, rq2\<lparr>rq_count := rq_count rq2 - 1\<rparr>)))"

text \<open>The tasks of a runqueue, and its well-formedness.\<close>

primrec rq_walk :: "nat \<Rightarrow> tasks \<Rightarrow> u64 \<Rightarrow> u64 list" where
  "rq_walk 0 ts p = []"
| "rq_walk (Suc n) ts p = (if p = 0 then [] else p # rq_walk n ts (t_next (ts p)))"

definition rq_list :: "tasks \<times> runqueue \<Rightarrow> u64 list" where
  "rq_list q = rq_walk (unat (rq_count (snd q))) (fst q) (rq_head (snd q))"

primrec linked :: "tasks \<Rightarrow> u64 \<Rightarrow> u64 list \<Rightarrow> bool" where
  "linked ts p [] \<longleftrightarrow> p = 0"
| "linked ts p (x # xs) \<longleftrightarrow> p = x \<and> x \<noteq> 0 \<and> linked ts (t_next (ts x)) xs"

definition rq_rep :: "tasks \<times> runqueue \<Rightarrow> u64 list \<Rightarrow> bool" where
  "rq_rep q xs \<longleftrightarrow> linked (fst q) (rq_head (snd q)) xs \<and> distinct xs \<and>
     rq_tail (snd q) = (if xs = [] then 0 else last xs) \<and> unat (rq_count (snd q)) = length xs"

definition rq_ok :: "tasks \<times> runqueue \<Rightarrow> bool" where
  "rq_ok q \<longleftrightarrow> rq_rep q (rq_list q)"

definition rq_fits :: "u64 \<Rightarrow> tasks \<times> runqueue \<Rightarrow> bool" where
  "rq_fits x q \<longleftrightarrow> x \<noteq> 0 \<and> x \<notin> set (rq_list q) \<and> length (rq_list q) < 2 ^ 32 - 1"

lemma linked_cong: "(\<And>x. x \<in> set xs \<Longrightarrow> t_next (ts' x) = t_next (ts x)) \<Longrightarrow> linked ts' p xs = linked ts p xs"
  by (induction xs arbitrary: p) auto

lemma linked_nonzero: "linked ts p xs \<Longrightarrow> 0 \<notin> set xs"
  by (induction xs arbitrary: p) auto

lemma rq_walk_linked: "linked ts p xs \<Longrightarrow> rq_walk (length xs) ts p = xs"
  by (induction xs arbitrary: p) auto

lemma rq_rep_list: "rq_rep q xs \<Longrightarrow> rq_list q = xs"
  by (auto simp: rq_rep_def rq_list_def rq_walk_linked)

lemma rq_rep_ok: "rq_rep q xs \<Longrightarrow> rq_ok q"
  using rq_rep_list by (auto simp: rq_ok_def)

lemma rq_rep_cong:
  "rq_rep (ts, rq) xs \<Longrightarrow> (\<And>x. x \<in> set xs \<Longrightarrow> t_next (ts' x) = t_next (ts x)) \<Longrightarrow> rq_rep (ts', rq) xs"
  using linked_cong [of xs ts' ts] by (simp add: rq_rep_def)

lemma linked_snoc:
  "linked ts p xs \<Longrightarrow> xs \<noteq> [] \<Longrightarrow> distinct xs \<Longrightarrow> x \<notin> set xs \<Longrightarrow> x \<noteq> 0 \<Longrightarrow> t_next (ts x) = 0 \<Longrightarrow>
   linked (ts(last xs := (ts (last xs))\<lparr>t_next := x\<rparr>)) p (xs @ [x])"
proof (induction xs arbitrary: p)
  case (Cons y ys)
  note prems = Cons.prems and IH = Cons.IH
  show ?case
  proof (cases ys)
    case Nil
    with prems show ?thesis by simp
  next
    case (Cons z zs)
    hence ne: "ys \<noteq> []" by simp
    with prems have "linked (ts(last ys := (ts (last ys))\<lparr>t_next := x\<rparr>)) (t_next (ts y)) (ys @ [x])"
      by (intro IH) auto
    moreover from prems(3) ne have y: "y \<noteq> last ys" by auto
    ultimately show ?thesis
      unfolding append_Cons linked.simps last_ConsR [OF ne] fun_upd_other [OF y]
      using prems(1,5) by simp
  qed
qed simp

lemma enqueue_rep:
  assumes "rq_rep q xs" and "x \<noteq> 0" and "x \<notin> set xs" and "length xs < 2 ^ 32 - 1"
  shows "rq_rep (enqueue_task x q) (xs @ [x])"
proof -
  obtain ts rq where q: "q = (ts, rq)" by (cases q)
  have r: "linked ts (rq_head rq) xs" "distinct xs" "rq_tail rq = (if xs = [] then 0 else last xs)"
    "unat (rq_count rq) = length xs" using assms(1) by (simp_all add: q rq_rep_def)
  have c: "unat (rq_count rq + 1) = length xs + 1" using r(4) assms(4) by (simp add: unat_word_ariths)
  let ?ts = "ts(x := (ts x)\<lparr>t_next := 0\<rparr>)"
  have l: "linked ?ts (rq_head rq) xs" by (subst linked_cong [of xs _ ts]) (use r(1) assms(3) in auto)
  show ?thesis
  proof (cases "xs = []")
    case True
    then show ?thesis using r c assms(2) by (simp add: q enqueue_task_def rq_rep_def Let_def)
  next
    case False
    then have "last xs \<noteq> 0" using linked_nonzero [OF r(1)] last_in_set [OF False] by metis
    moreover have "linked (?ts(last xs := (?ts (last xs))\<lparr>t_next := x\<rparr>)) (rq_head rq) (xs @ [x])"
      by (rule linked_snoc [OF l False r(2) assms(3,2)]) simp
    ultimately show ?thesis
      using False r c assms(3) by (simp add: q enqueue_task_def rq_rep_def Let_def)
  qed
qed

lemma dequeue_rep:
  assumes "rq_rep q (x # xs)"
  shows "\<exists>q'. dequeue_task q = (x, q') \<and> fst q' = fst q \<and> rq_rep q' xs"
proof -
  obtain ts rq where q: "q = (ts, rq)" by (cases q)
  have r: "rq_head rq = x" "x \<noteq> 0" "linked ts (t_next (ts x)) xs" "x \<notin> set xs" "distinct xs"
    "rq_tail rq = (if xs = [] then x else last xs)" "unat (rq_count rq) = Suc (length xs)"
    using assms by (simp_all add: q rq_rep_def)
  have c: "unat (rq_count rq - 1) = length xs" using r(7) by (simp add: unat_sub_if')
  have n: "t_next (ts x) = 0 \<longleftrightarrow> xs = []" using r(3) by (cases xs) auto
  show ?thesis using r c n by (auto simp: q dequeue_task_def rq_rep_def Let_def)
qed

lemma dequeue_empty: "rq_rep q [] \<Longrightarrow> dequeue_task q = (0, q)"
  by (auto simp: rq_rep_def dequeue_task_def split: prod.splits)

definition dequeue_opt :: "tasks \<times> runqueue \<Rightarrow> u64 option \<times> (tasks \<times> runqueue)" where
  "dequeue_opt q = (let (t, q') = dequeue_task q in (if t = 0 then None else Some t, q'))"

text \<open>The runqueue is a FIFO queue.\<close>

interpretation rq: fifo enqueue_task dequeue_opt rq_list rq_ok rq_fits
proof (unfold_locales, goal_cases)
  case (1 q x)
  then have "rq_rep (enqueue_task x q) (rq_list q @ [x])"
    by (intro enqueue_rep) (auto simp: rq_ok_def rq_fits_def)
  then show ?case using rq_rep_ok rq_rep_list by blast
next
  case (2 q)
  then show ?case using dequeue_empty [of q] by (simp add: rq_ok_def dequeue_opt_def)
next
  case (3 q x xs)
  then have r: "rq_rep q (x # xs)" by (simp add: rq_ok_def)
  then have "x \<noteq> 0" by (simp add: rq_rep_def)
  from dequeue_rep [OF r] obtain q' where "dequeue_task q = (x, q')" "rq_rep q' xs" by blast
  with \<open>x \<noteq> 0\<close> show ?case using rq_rep_ok rq_rep_list by (auto simp: dequeue_opt_def)
next
  case (4 q x q')
  show ?case
  proof (cases "rq_list q")
    case Nil
    then show ?thesis using 4 dequeue_empty [of q] by (simp add: rq_ok_def dequeue_opt_def)
  next
    case (Cons y ys)
    then have r: "rq_rep q (y # ys)" using 4(1) by (simp add: rq_ok_def)
    then have y: "y \<noteq> 0" "y \<notin> set ys" "length ys < unat (rq_count (snd q))" by (simp_all add: rq_rep_def)
    from dequeue_rep [OF r] obtain q1 where q1: "dequeue_task q = (y, q1)" "rq_rep q1 ys" by blast
    then have "x = y" "q' = q1" using 4(2) y(1) by (simp_all add: dequeue_opt_def)
    moreover have "unat (rq_count (snd q)) < 2 ^ LENGTH(32)" by (rule unsigned_less)
    ultimately show ?thesis using y rq_rep_list [OF q1(2)] by (simp add: rq_fits_def)
  qed
qed

subsection \<open>Choosing a CPU\<close>

definition queue_of :: "nat \<Rightarrow> 'a ksys_scheme \<Rightarrow> tasks \<times> runqueue" where
  "queue_of c s = (tasks s, runqueue (cpus s ! c))"

definition set_queue :: "nat \<Rightarrow> tasks \<times> runqueue \<Rightarrow> 'a ksys_scheme \<Rightarrow> 'a ksys_scheme" where
  "set_queue c q s = s\<lparr>tasks := fst q, cpus := (cpus s)[c := (cpus s ! c)\<lparr>runqueue := snd q\<rparr>]\<rparr>"

definition upd_task :: "u64 \<Rightarrow> (task \<Rightarrow> task) \<Rightarrow> 'a ksys_scheme \<Rightarrow> 'a ksys_scheme" where
  "upd_task t f s = s\<lparr>tasks := (tasks s)(t := f (tasks s t))\<rparr>"

definition upd_cpu :: "nat \<Rightarrow> (cpu \<Rightarrow> cpu) \<Rightarrow> 'a ksys_scheme \<Rightarrow> 'a ksys_scheme" where
  "upd_cpu c f s = s\<lparr>cpus := (cpus s)[c := f (cpus s ! c)]\<rparr>"

definition current :: "nat \<Rightarrow> 'a ksys_scheme \<Rightarrow> u64" where
  "current c s = current_task (cpus s ! c)"

text \<open>Runnable load: the queued tasks and the current one unless it is idle.\<close>

definition cpu_load :: "'a ksys_scheme \<Rightarrow> nat \<Rightarrow> u32" where
  "cpu_load s i =
     (let cp = cpus s ! i in
      if current_task cp \<noteq> 0 \<and> t_id (tasks s (current_task cp)) \<noteq> 0
      then rq_count (runqueue cp) + 1 else rq_count (runqueue cp))"

definition pick_least_loaded_cpu :: "'a ksys_scheme \<Rightarrow> nat" where
  "pick_least_loaded_cpu s =
     fst (fold (\<lambda>i (least, min_load).
            if sint (cpu_load s i) < sint min_load then (i, cpu_load s i) else (least, min_load))
          [1..<length (cpus s)] (0, cpu_load s 0))"

subsection \<open>Creating tasks\<close>

definition task_init_global :: "'a ksys_scheme \<Rightarrow> 'a ksys_scheme" where
  "task_init_global s = s\<lparr>next_id := 1\<rparr>"

text \<open>\<open>sizeof(task_t)\<close>: eight 8-byte fields, and three 4-byte fields padded to 16 bytes.\<close>

definition TASK_SIZE :: u64 where "TASK_SIZE = 80"

definition STACK_SIZE :: u64 where "STACK_SIZE = 4096 * 4"

definition kmalloc_k :: "u64 \<Rightarrow> 'a ksys_scheme \<Rightarrow> (u64 \<times> 'a ksys_scheme) option" where
  "kmalloc_k n s = do { (p, h) \<leftarrow> kmalloc n (heap s); Some (p, s\<lparr>heap := h\<rparr>) }"

definition kfree_k :: "u64 \<Rightarrow> 'a ksys_scheme \<Rightarrow> 'a ksys_scheme option" where
  "kfree_k p s = do { h \<leftarrow> kfree p (heap s); Some (s\<lparr>heap := h\<rparr>) }"

definition fresh_id :: "u64 \<Rightarrow> 'a ksys_scheme \<Rightarrow> 'a ksys_scheme" where
  "fresh_id t s = (upd_task t (\<lambda>tk. tk\<lparr>t_id := next_id s\<rparr>) s)\<lparr>next_id := next_id s + 1\<rparr>"

text \<open>\<open>*(--stack) = v;\<close>\<close>

definition push64 :: "u64 \<Rightarrow> u64 \<times> pmem \<Rightarrow> u64 \<times> pmem" where
  "push64 v sm = (fst sm - 8, (snd sm)(fst sm - 8 := v))"

text \<open>
  The initial interrupt frame below \<open>stk_top\<close>: SS, RSP, RFLAGS, CS, RIP, the vector and error
  code, and fifteen zeroed registers.
\<close>

definition initial_frame :: "u64 \<Rightarrow> u64 \<Rightarrow> u64 \<Rightarrow> u64 \<Rightarrow> u64 \<Rightarrow> pmem \<Rightarrow> u64 \<times> pmem" where
  "initial_frame ss user_rsp cs entry stk_top m =
     (push64 0 ^^ 17) (push64 entry (push64 cs (push64 0x202 (push64 user_rsp (push64 ss (stk_top, m))))))"

definition set_pmem :: "pmem \<Rightarrow> 'a ksys_scheme \<Rightarrow> 'a ksys_scheme" where
  "set_pmem m s = s\<lparr>kvm := (kvm s)\<lparr>pmem := m\<rparr>\<rparr>"

definition task_init_per_cpu :: "nat \<Rightarrow> 'a ksys_scheme \<Rightarrow> 'a ksys_scheme option" where
  "task_init_per_cpu c s = do {
     let s1 = upd_cpu c (\<lambda>cp. cp\<lparr>runqueue := \<lparr>rq_head = 0, rq_tail = 0, rq_count = 0\<rparr>\<rparr>) s;
     (idle, s2) \<leftarrow> kmalloc_k TASK_SIZE s1;
     let s3 = upd_task idle (\<lambda>tk. tk\<lparr>t_id := 0, t_state := TASK_RUNNING,
                t_cpu_id := ucast (c_id (cpus s2 ! c)), t_next := 0, rsp := 0, kernel_rsp := 0,
                stack_bottom := 0, user_stack_bottom := 0, timeslice := 0, t_pml4 := cr3 (kvm s2)\<rparr>) s2;
     Some (upd_cpu c (\<lambda>cp. cp\<lparr>idle_task := idle, current_task := idle,
                c_total_ticks := 0, c_idle_ticks := 0\<rparr>) s3) }"

text \<open>The end all creations share: the fields of a new runnable task, and its placement.\<close>

definition start_task :: "u64 \<Rightarrow> u64 \<Rightarrow> 'a ksys_scheme \<Rightarrow> 'a ksys_scheme" where
  "start_task t sp s =
     (let s1 = upd_task t (\<lambda>tk. tk\<lparr>rsp := sp, t_state := TASK_READY,
                 timeslice := TASK_DEFAULT_TIMESLICE, t_total_ticks := 0\<rparr>) s;
          target = pick_least_loaded_cpu s1;
          s2 = upd_task t (\<lambda>tk. tk\<lparr>t_cpu_id := ucast (c_id (cpus s1 ! target))\<rparr>) s1
      in set_queue target (enqueue_task t (queue_of target s2)) s2)"

definition task_create :: "u64 \<Rightarrow> 'a ksys_scheme \<Rightarrow> (u64 \<times> 'a ksys_scheme) option" where
  "task_create entry s = do {
     (t, s1) \<leftarrow> kmalloc_k TASK_SIZE s;
     let s2 = upd_task t (\<lambda>tk. tk\<lparr>t_pml4 := cr3 (kvm s1)\<rparr>) (fresh_id t s1);
     (stk, s3) \<leftarrow> kmalloc_k STACK_SIZE s2;
     let stk_top = stk + STACK_SIZE;
     let s4 = upd_task t (\<lambda>tk. tk\<lparr>stack_bottom := stk, user_stack_bottom := 0, kernel_rsp := stk_top\<rparr>) s3;
     let (sp, m) = initial_frame 0x10 (stk_top - 8) 0x08 entry stk_top (pmem (kvm s4));
     Some (t, start_task t sp (set_pmem m s4)) }"

text \<open>A user task on a given address space: separate user and kernel stacks.\<close>

definition user_task :: "u64 \<Rightarrow> u64 \<Rightarrow> u64 \<Rightarrow> 'a ksys_scheme \<Rightarrow> (u64 \<times> 'a ksys_scheme) option" where
  "user_task t entry pml4 s = do {
     let s1 = upd_task t (\<lambda>tk. tk\<lparr>t_pml4 := pml4\<rparr>) s;
     (ustk, s2) \<leftarrow> kmalloc_k STACK_SIZE s1;
     let s3 = upd_task t (\<lambda>tk. tk\<lparr>user_stack_bottom := ustk\<rparr>) s2;
     (kstk, s4) \<leftarrow> kmalloc_k STACK_SIZE s3;
     let stk_top = kstk + STACK_SIZE;
     let s5 = upd_task t (\<lambda>tk. tk\<lparr>stack_bottom := kstk, kernel_rsp := stk_top\<rparr>) s4;
     let (sp, m) = initial_frame 0x1B (ustk + STACK_SIZE) 0x23 entry stk_top (pmem (kvm s5));
     Some (t, start_task t sp (set_pmem m s5)) }"

definition task_create_user :: "u64 \<Rightarrow> 'a ksys_scheme \<Rightarrow> (u64 \<times> 'a ksys_scheme) option" where
  "task_create_user entry s = do {
     (t, s1) \<leftarrow> kmalloc_k TASK_SIZE s;
     let s2 = fresh_id t s1;
     let (pml4, v) = vmm_create_address_space (kvm s2);
     user_task t entry pml4 (s2\<lparr>kvm := v\<rparr>) }"

definition task_exec :: "u64 \<Rightarrow> 'a ksys_scheme \<Rightarrow> (u64 \<times> 'a ksys_scheme) option" where
  "task_exec elf_data s =
     (let (r, v) = elf_load elf_data (kvm s); s1 = s\<lparr>kvm := v\<rparr> in
      case r of
        None \<Rightarrow> Some (0, s1)
      | Some (entry, pml4) \<Rightarrow> do {
          (t, s2) \<leftarrow> kmalloc_k TASK_SIZE s1;
          user_task t entry pml4 (fresh_id t s2) })"

definition task_fork :: "nat \<Rightarrow> 'a ksys_scheme \<Rightarrow> (u64 \<times> 'a ksys_scheme) option" where
  "task_fork c s = do {
     let parent = current c s;
     (child, s1) \<leftarrow> kmalloc_k TASK_SIZE s;
     let s2 = fresh_id child s1;
     let (pml4, v) = vmm_clone_address_space (t_pml4 (tasks s2 parent)) (kvm s2);
     let s3 = upd_task child (\<lambda>tk. tk\<lparr>t_pml4 := pml4\<rparr>) (s2\<lparr>kvm := v\<rparr>);
     (kstk, s4) \<leftarrow> kmalloc_k STACK_SIZE s3;
     let s5 = upd_task child (\<lambda>tk. tk\<lparr>stack_bottom := kstk\<rparr>) s4;
     (ustk, s6) \<leftarrow> (if user_stack_bottom (tasks s5 parent) \<noteq> 0 then kmalloc_k STACK_SIZE s5
                   else Some (0, s5));
     let p = tasks s6 parent;
     let stack_top_offset = kernel_rsp p - rsp p;
     let stk_top = kstk + STACK_SIZE;
     let sp = stk_top - stack_top_offset;
     let m = on_bytes (memcpy sp (rsp p) stack_top_offset) (pmem (kvm s6));
     let s7 = set_pmem (m(sp := 0)) s6;
     let s8 = upd_task child (\<lambda>tk. tk\<lparr>user_stack_bottom := ustk, kernel_rsp := stk_top, rsp := sp,
                t_state := TASK_READY, t_cpu_id := t_cpu_id p,
                timeslice := TASK_DEFAULT_TIMESLICE, t_total_ticks := 0\<rparr>) s7;
     let s9 = set_queue c (enqueue_task child (queue_of c s8)) s8;
     Some (t_id (tasks s9 child), s9) }"

subsection \<open>Scheduling\<close>

text \<open>
  \<open>wd\<close> is \<open>window_destroy_by_pid\<close> of window.c, which task.c calls on a finished task's id.
\<close>

definition task_reap :: "(u64 \<Rightarrow> 'a ksys_scheme \<Rightarrow> 'a ksys_scheme option) \<Rightarrow> u64 \<Rightarrow>
    'a ksys_scheme \<Rightarrow> 'a ksys_scheme option" where
  "task_reap wd t s = do {
     let tk = tasks s t;
     let s1 = (if t_pml4 tk \<noteq> 0 then s\<lparr>kvm := vmm_destroy_address_space (t_pml4 tk) (kvm s)\<rparr> else s);
     s2 \<leftarrow> wd (t_id tk) s1;
     s3 \<leftarrow> (if stack_bottom tk \<noteq> 0 then kfree_k (stack_bottom tk) s2 else Some s2);
     s4 \<leftarrow> (if user_stack_bottom tk \<noteq> 0 then kfree_k (user_stack_bottom tk) s3 else Some s3);
     kfree_k t s4 }"

definition dequeue_on :: "nat \<Rightarrow> 'a ksys_scheme \<Rightarrow> u64 \<times> 'a ksys_scheme" where
  "dequeue_on i s = (let (t, q) = dequeue_task (queue_of i s) in (t, set_queue i q s))"

primrec steal_from :: "nat list \<Rightarrow> nat \<Rightarrow> 'a ksys_scheme \<Rightarrow> u64 \<times> 'a ksys_scheme" where
  "steal_from [] c s = (0, s)"
| "steal_from (i # is) c s =
     (if i = c then steal_from is c s
      else
        let (t, s1) = dequeue_on i s in
        if t \<noteq> 0
        then (t, upd_task t (\<lambda>tk. tk\<lparr>t_cpu_id := ucast (c_id (cpus s1 ! c))\<rparr>) s1)
        else steal_from is c s1)"

definition task_steal :: "nat \<Rightarrow> 'a ksys_scheme \<Rightarrow> u64 \<times> 'a ksys_scheme" where
  "task_steal c s = steal_from [0..<length (cpus s)] c s"

text \<open>The loop that looks for the next task; 0 when there is none.\<close>

partial_function (option) pick_loop ::
  "(u64 \<Rightarrow> 'a ksys_scheme \<Rightarrow> 'a ksys_scheme option) \<Rightarrow> nat \<Rightarrow> 'a ksys_scheme \<Rightarrow> (u64 \<times> 'a ksys_scheme) option" where
  "pick_loop wd c s =
     (let (own, s1) = dequeue_on c s;
          (nxt, s2) = (if own = 0 then task_steal c s1 else (own, s1))
      in if nxt = 0 then Some (0, s2)
         else if t_state (tasks s2 nxt) = TASK_EXITED
         then do { s3 \<leftarrow> task_reap wd nxt s2; pick_loop wd c s3 }
         else if t_state (tasks s2 nxt) = TASK_READY then Some (nxt, s2)
         else pick_loop wd c (set_queue c (enqueue_task nxt (queue_of c s2)) s2))"

text \<open>The outgoing task is put back when it is still runnable.\<close>

definition requeue_current :: "nat \<Rightarrow> u64 \<Rightarrow> 'a ksys_scheme \<Rightarrow> 'a ksys_scheme" where
  "requeue_current c current_rsp s =
     (let cur = current c s;
          s1 = upd_cpu c (\<lambda>cp. cp\<lparr>need_resched := 0\<rparr>) s;
          s2 = upd_task cur (\<lambda>tk. tk\<lparr>rsp := current_rsp\<rparr>) s1
      in if t_state (tasks s2 cur) = TASK_RUNNING then
           let s3 = upd_task cur (\<lambda>tk. tk\<lparr>t_state := TASK_READY\<rparr>) s2 in
           if t_id (tasks s3 cur) \<noteq> 0 then set_queue c (enqueue_task cur (queue_of c s3)) s3 else s3
         else s2)"

definition switch_to :: "nat \<Rightarrow> u64 \<Rightarrow> 'a ksys_scheme \<Rightarrow> u64 \<times> 'a ksys_scheme" where
  "switch_to c nxt s =
     (let t = (if nxt = 0 then idle_task (cpus s ! c) else nxt);
          s1 = upd_cpu c (\<lambda>cp. cp\<lparr>current_task := t\<rparr>) s;
          s2 = upd_task t (\<lambda>tk. tk\<lparr>t_state := TASK_RUNNING,
                 timeslice := (if t_id tk = 0 then 0 else TASK_DEFAULT_TIMESLICE)\<rparr>) s1;
          k = kernel_rsp (tasks s2 t);
          s3 = upd_cpu c (\<lambda>cp. cp\<lparr>tss_rsp0 := k, kernel_stack := k\<rparr>) s2;
          s4 = s3\<lparr>kvm := vmm_switch_address_space (t_pml4 (tasks s3 t)) (kvm s3)\<rparr>
      in (rsp (tasks s4 t), s4))"

definition task_schedule :: "(u64 \<Rightarrow> 'a ksys_scheme \<Rightarrow> 'a ksys_scheme option) \<Rightarrow> nat \<Rightarrow> u64 \<Rightarrow>
    'a ksys_scheme \<Rightarrow> (u64 \<times> 'a ksys_scheme) option" where
  "task_schedule wd c current_rsp s =
     (if current c s = 0 then Some (current_rsp, s)
      else do {
        (nxt, s1) \<leftarrow> pick_loop wd c (requeue_current c current_rsp s);
        Some (switch_to c nxt s1) })"

definition task_request_reschedule :: "nat \<Rightarrow> 'a ksys_scheme \<Rightarrow> 'a ksys_scheme" where
  "task_request_reschedule c s = upd_cpu c (\<lambda>cp. cp\<lparr>need_resched := 1\<rparr>) s"

definition task_needs_schedule :: "nat \<Rightarrow> 'a ksys_scheme \<Rightarrow> u8" where
  "task_needs_schedule c s = need_resched (cpus s ! c)"

definition task_timer_tick :: "nat \<Rightarrow> 'a ksys_scheme \<Rightarrow> 'a ksys_scheme" where
  "task_timer_tick c s =
     (let cur = current c s;
          s1 = upd_cpu c (\<lambda>cp. cp\<lparr>c_total_ticks := c_total_ticks cp + 1\<rparr>) s in
      if cur = 0 then task_request_reschedule c s1
      else
        let s2 = upd_task cur (\<lambda>tk. tk\<lparr>t_total_ticks := t_total_ticks tk + 1\<rparr>) s1;
            idle = (t_id (tasks s2 cur) = 0);
            s3 = (if idle then upd_cpu c (\<lambda>cp. cp\<lparr>c_idle_ticks := c_idle_ticks cp + 1\<rparr>) s2 else s2)
        in if t_state (tasks s3 cur) \<noteq> TASK_RUNNING then task_request_reschedule c s3
           else if idle
           then (if rq_count (runqueue (cpus s3 ! c)) \<noteq> 0 then task_request_reschedule c s3 else s3)
           else
             let s4 = (if timeslice (tasks s3 cur) > 0
                       then upd_task cur (\<lambda>tk. tk\<lparr>timeslice := timeslice tk - 1\<rparr>) s3 else s3)
             in if timeslice (tasks s4 cur) = 0 then task_request_reschedule c s4 else s4)"

subsection \<open>Snapshots for user space\<close>

record task_info =
  ti_id :: u64
  ti_cpu_id :: u32
  ti_total_ticks :: u64
  ti_state :: task_state

definition info_of :: "cpu \<Rightarrow> task \<Rightarrow> task_info" where
  "info_of cp tk = \<lparr>ti_id = t_id tk, ti_cpu_id = ucast (c_id cp),
     ti_total_ticks = t_total_ticks tk, ti_state = t_state tk\<rparr>"

text \<open>At most \<open>n\<close> tasks of the list from \<open>p\<close> on.\<close>

primrec queue_infos :: "nat \<Rightarrow> cpu \<Rightarrow> tasks \<Rightarrow> u64 \<Rightarrow> task_info list" where
  "queue_infos 0 cp ts p = []"
| "queue_infos (Suc n) cp ts p =
     (if p = 0 then [] else info_of cp (ts p) # queue_infos n cp ts (t_next (ts p)))"

definition cpu_infos :: "nat \<Rightarrow> tasks \<Rightarrow> cpu \<Rightarrow> task_info list" where
  "cpu_infos n ts cp =
     (let now = (if current_task cp \<noteq> 0 \<and> 0 < n then [info_of cp (ts (current_task cp))] else [])
      in now @ queue_infos (n - length now) cp ts (rq_head (runqueue cp)))"

text \<open>The entries written to the output array; the answer is their number.\<close>

definition task_get_all_info :: "u32 \<Rightarrow> 'a ksys_scheme \<Rightarrow> task_info list" where
  "task_get_all_info max_tasks s =
     fold (\<lambda>cp infos. infos @ cpu_infos (unat max_tasks - length infos) (tasks s) cp) (cpus s) []"

subsection \<open>The queues of all CPUs\<close>

definition queues :: "'a ksys_scheme \<Rightarrow> u64 list list" where
  "queues s = map (\<lambda>c. rq_list (queue_of c s)) [0..<length (cpus s)]"

definition idle :: "nat \<Rightarrow> 'a ksys_scheme \<Rightarrow> u64" where
  "idle c s = idle_task (cpus s ! c)"

definition queues_ok :: "'a ksys_scheme \<Rightarrow> bool" where
  "queues_ok s \<longleftrightarrow> (\<forall>c < length (cpus s). rq_ok (queue_of c s)) \<and> distinct (concat (queues s))"

lemma length_queues [simp]: "length (queues s) = length (cpus s)"
  by (simp add: queues_def)

lemma queues_nth: "c < length (cpus s) \<Longrightarrow> queues s ! c = rq_list (queue_of c s)"
  by (simp add: queues_def)

lemma queues_ok_rep: "queues_ok s \<Longrightarrow> c < length (cpus s) \<Longrightarrow> rq_rep (queue_of c s) (queues s ! c)"
  unfolding queues_ok_def rq_ok_def by (simp add: queues_nth)

lemma rq_frame:
  assumes "rq_ok (ts, rq)" and "\<And>x. x \<in> set (rq_list (ts, rq)) \<Longrightarrow> t_next (ts' x) = t_next (ts x)"
  shows "rq_ok (ts', rq)" "rq_list (ts', rq) = rq_list (ts, rq)"
proof -
  have "rq_rep (ts', rq) (rq_list (ts, rq))"
    by (rule rq_rep_cong [OF assms(1) [unfolded rq_ok_def] assms(2)])
  then show "rq_ok (ts', rq)" "rq_list (ts', rq) = rq_list (ts, rq)"
    by (rule rq_rep_ok, rule rq_rep_list)
qed

lemma distinct_concat_nth:
  "distinct (concat Q) \<Longrightarrow> i < length Q \<Longrightarrow> j < length Q \<Longrightarrow> i \<noteq> j \<Longrightarrow> set (Q ! i) \<inter> set (Q ! j) = {}"
proof (induction Q arbitrary: i j)
  case (Cons q Q)
  have d: "distinct (concat Q)" "set q \<inter> set (concat Q) = {}" using Cons.prems(1) by auto
  have m: "set q \<inter> set (Q ! k) = {}" if "k < length Q" for k
    using d(2) nth_mem [OF that] by auto
  show ?case
  proof (cases i)
    case 0
    then obtain k where "j = Suc k" "k < length Q" using Cons.prems(3,4) by (cases j) auto
    then show ?thesis using 0 m by simp
  next
    case (Suc k)
    show ?thesis
    proof (cases j)
      case 0
      then show ?thesis using Suc m [of k] Cons.prems(2) by auto
    next
      case (Suc l)
      then show ?thesis using Cons.IH [OF d(1), of k l] Cons.prems \<open>i = Suc k\<close> by simp
    qed
  qed
qed simp

lemma distinct_concat_update:
  "distinct (concat Q) \<Longrightarrow> c < length Q \<Longrightarrow> distinct xs \<Longrightarrow>
   set xs \<inter> set (concat Q) \<subseteq> set (Q ! c) \<Longrightarrow> distinct (concat (Q[c := xs]))"
proof (induction Q arbitrary: c)
  case (Cons q Q)
  show ?case
  proof (cases c)
    case 0
    then show ?thesis using Cons.prems by auto
  next
    case (Suc k)
    then have "set xs \<inter> set (concat Q) \<subseteq> set (Q ! k)" using Cons.prems(4) by auto
    then have IH: "distinct (concat (Q[k := xs]))" using Cons.IH [of k] Cons.prems Suc by simp
    have "set (Q ! k) \<subseteq> set (concat Q)" using Cons.prems(2) Suc by (auto intro: nth_mem)
    then have "set q \<inter> set xs = {}" using Cons.prems(1,4) Suc by auto
    then have "set q \<inter> set (concat (Q[k := xs])) = {}"
      using Cons.prems(1) set_update_subset_insert [of Q k xs] by auto
    then show ?thesis using IH Cons.prems(1) Suc by simp
  qed
qed simp

lemma set_concat_update_subset: "set (concat (Q[c := xs])) \<subseteq> set (concat Q) \<union> set xs"
  using set_update_subset_insert [of Q c xs] by auto

lemma queue_set_queue [simp]:
  "c < length (cpus s) \<Longrightarrow> queue_of c (set_queue c q s) = q"
  "j \<noteq> c \<Longrightarrow> queue_of j (set_queue c q s) = (fst q, runqueue (cpus s ! j))"
  "length (cpus (set_queue c q s)) = length (cpus s)"
  by (simp_all add: queue_of_def set_queue_def)

lemma set_queue_fields [simp]:
  "c < length (cpus s) \<Longrightarrow> current j (set_queue c q s) = current j s"
  "c < length (cpus s) \<Longrightarrow> idle j (set_queue c q s) = idle j s"
  "tasks (set_queue c q s) = fst q"
  "heap (set_queue c q s) = heap s" "kvm (set_queue c q s) = kvm s"
  by (simp_all add: current_def idle_def set_queue_def nth_list_update)

text \<open>Everything of a task but its link and the CPU it is placed on.\<close>

definition same_run :: "tasks \<Rightarrow> tasks \<Rightarrow> bool" where
  "same_run ts ts' \<longleftrightarrow> (\<forall>t. (ts' t)\<lparr>t_next := 0, t_cpu_id := 0\<rparr> = (ts t)\<lparr>t_next := 0, t_cpu_id := 0\<rparr>)"

lemma same_runD:
  assumes "same_run ts ts'"
  shows "t_id (ts' t) = t_id (ts t)" "t_state (ts' t) = t_state (ts t)" "rsp (ts' t) = rsp (ts t)"
    "timeslice (ts' t) = timeslice (ts t)" "kernel_rsp (ts' t) = kernel_rsp (ts t)"
    "t_pml4 (ts' t) = t_pml4 (ts t)"
proof -
  let ?z = "\<lambda>tk. tk\<lparr>t_next := 0, t_cpu_id := 0\<rparr>"
  have e: "?z (ts' t) = ?z (ts t)" using assms by (simp add: same_run_def)
  show "t_id (ts' t) = t_id (ts t)" using arg_cong [OF e, of t_id] by simp
  show "t_state (ts' t) = t_state (ts t)" using arg_cong [OF e, of t_state] by simp
  show "rsp (ts' t) = rsp (ts t)" using arg_cong [OF e, of rsp] by simp
  show "timeslice (ts' t) = timeslice (ts t)" using arg_cong [OF e, of timeslice] by simp
  show "kernel_rsp (ts' t) = kernel_rsp (ts t)" using arg_cong [OF e, of kernel_rsp] by simp
  show "t_pml4 (ts' t) = t_pml4 (ts t)" using arg_cong [OF e, of t_pml4] by simp
qed

lemma same_run_refl [simp]: "same_run ts ts"
  by (simp add: same_run_def)

lemma same_run_trans: "same_run a b \<Longrightarrow> same_run b c \<Longrightarrow> same_run a c"
  by (simp add: same_run_def)

text \<open>Changing a task apart from its link changes no queue.\<close>

lemma queues_tasks:
  assumes ok: "queues_ok s" and c: "cpus s' = cpus s"
    and n: "\<And>t. t_next (tasks s' t) = t_next (tasks s t)"
  shows "queues_ok s'" "queues s' = queues s"
proof -
  have j: "rq_ok (queue_of j s') \<and> rq_list (queue_of j s') = rq_list (queue_of j s)" if "j < length (cpus s)" for j
    using rq_frame [of "tasks s" "runqueue (cpus s ! j)" "tasks s'"] ok that n
    by (auto simp: queues_ok_def queue_of_def c)
  show "queues s' = queues s" by (simp add: queues_def c j cong: map_cong)
  then show "queues_ok s'" using ok j by (simp add: queues_ok_def c)
qed

lemma nth_concat_subset: "c < length Q \<Longrightarrow> set (Q ! c) \<subseteq> set (concat Q)"
  by (auto intro: nth_mem)

lemma enqueue_effect:
  assumes "rq_ok (ts, rq)" and "rq_fits x (ts, rq)"
  shows "same_run ts (fst (enqueue_task x (ts, rq)))"
    and "t \<noteq> x \<Longrightarrow> t \<notin> set (rq_list (ts, rq)) \<Longrightarrow> t_next (fst (enqueue_task x (ts, rq)) t) = t_next (ts t)"
proof -
  have tl: "rq_tail rq \<noteq> 0 \<Longrightarrow> rq_tail rq \<in> set (rq_list (ts, rq))"
    using assms(1) by (auto simp: rq_ok_def rq_rep_def split: if_splits)
  show "same_run ts (fst (enqueue_task x (ts, rq)))"
    by (simp add: same_run_def enqueue_task_def Let_def)
  show "t_next (fst (enqueue_task x (ts, rq)) t) = t_next (ts t)"
    if "t \<noteq> x" "t \<notin> set (rq_list (ts, rq))"
    using that tl by (auto simp: enqueue_task_def Let_def)
qed

text \<open>Adding a task to one queue leaves the others alone.\<close>

lemma enqueue_on:
  assumes ok: "queues_ok s" and c: "c < length (cpus s)" and x: "x \<noteq> 0" "x \<notin> set (concat (queues s))"
    and small: "length (concat (queues s)) < 2 ^ 32 - 1"
  defines "s' \<equiv> set_queue c (enqueue_task x (queue_of c s)) s"
  shows "queues_ok s'" and "queues s' = (queues s)[c := queues s ! c @ [x]]"
    and "same_run (tasks s) (tasks s')"
proof -
  have okc: "rq_ok (queue_of c s)" using ok c by (simp add: queues_ok_def)
  have sub: "set (queues s ! c) \<subseteq> set (concat (queues s))" by (rule nth_concat_subset) (simp add: c)
  have "length (queues s ! c) \<le> length (concat (queues s))"
    using c member_le_sum_list [of "length (queues s ! c)" "map length (queues s)"]
    by (simp add: length_concat)
  then have fits: "rq_fits x (queue_of c s)"
    using x sub small c by (auto simp: rq_fits_def queues_nth)
  have q: "queue_of c s = (tasks s, runqueue (cpus s ! c))" by (simp add: queue_of_def)
  note e = enqueue_effect [OF okc [unfolded q] fits [unfolded q], folded q]
  have enq: "rq_ok (enqueue_task x (queue_of c s))" "rq_list (enqueue_task x (queue_of c s)) = queues s ! c @ [x]"
    using rq.enq_items [OF okc fits] c by (simp_all add: queues_nth)
  show "same_run (tasks s) (tasks s')" using e(1) c by (simp add: s'_def)
  have j: "rq_ok (queue_of j s') \<and> rq_list (queue_of j s') = (queues s)[c := queues s ! c @ [x]] ! j"
    if "j < length (cpus s)" for j
  proof (cases "j = c")
    case True
    then show ?thesis using enq c by (simp add: s'_def)
  next
    case False
    have dj: "set (queues s ! j) \<inter> set (queues s ! c) = {}"
      using ok that c False by (intro distinct_concat_nth) (auto simp: queues_ok_def)
    have xj: "x \<notin> set (queues s ! j)" using x(2) nth_concat_subset [of j "queues s"] that by auto
    have okj: "rq_ok (tasks s, runqueue (cpus s ! j))" using ok that by (simp add: queues_ok_def queue_of_def)
    have lj: "rq_list (tasks s, runqueue (cpus s ! j)) = queues s ! j" using that by (simp add: queues_nth queue_of_def)
    have "t_next (fst (enqueue_task x (queue_of c s)) t) = t_next (tasks s t)"
      if "t \<in> set (rq_list (tasks s, runqueue (cpus s ! j)))" for t
      using that dj xj c unfolding lj by (intro e(2)) (auto simp: queues_nth)
    from rq_frame [OF okj this] show ?thesis using False c lj by (simp add: s'_def)
  qed
  show qs: "queues s' = (queues s)[c := queues s ! c @ [x]]"
    by (rule nth_equalityI) (use j c in \<open>simp_all add: s'_def queues_nth\<close>)
  have "distinct (concat (queues s'))"
    unfolding qs using ok c x(2) sub
    by (intro distinct_concat_update) (auto simp: queues_ok_def distinct_concat_iff)
  then show "queues_ok s'" using j by (simp add: queues_ok_def s'_def)
qed

lemma set_queue_same [simp]: "c < length (cpus s) \<Longrightarrow> set_queue c (queue_of c s) s = s"
  by (simp add: set_queue_def queue_of_def)

lemma dequeue_on_empty:
  "queues_ok s \<Longrightarrow> c < length (cpus s) \<Longrightarrow> queues s ! c = [] \<Longrightarrow> dequeue_on c s = (0, s)"
  using dequeue_empty [of "queue_of c s"] queues_ok_rep [of s c] by (simp add: dequeue_on_def)

lemma dequeue_on_some:
  assumes ok: "queues_ok s" and c: "c < length (cpus s)" and q: "queues s ! c = x # xs"
  shows "\<exists>s'. dequeue_on c s = (x, s') \<and> queues_ok s' \<and> queues s' = (queues s)[c := xs] \<and>
    tasks s' = tasks s \<and> length (cpus s') = length (cpus s) \<and> x \<noteq> 0 \<and>
    (\<forall>j. current j s' = current j s \<and> idle j s' = idle j s) \<and> heap s' = heap s \<and> kvm s' = kvm s \<and>
    (\<forall>j. c_id (cpus s' ! j) = c_id (cpus s ! j))"
proof -
  have r: "rq_rep (queue_of c s) (x # xs)" using queues_ok_rep [OF ok c] q by simp
  then have x: "x \<noteq> 0" by (simp add: rq_rep_def)
  from dequeue_rep [OF r] obtain q' where q': "dequeue_task (queue_of c s) = (x, q')"
    "fst q' = fst (queue_of c s)" "rq_rep q' xs" by blast
  define s' where "s' = set_queue c q' s"
  have ts: "fst q' = tasks s" using q'(2) by (simp add: queue_of_def)
  have j: "rq_ok (queue_of j s') \<and> rq_list (queue_of j s') = (queues s)[c := xs] ! j"
    if "j < length (cpus s)" for j
  proof (cases "j = c")
    case True
    then show ?thesis using c rq_rep_ok [OF q'(3)] rq_rep_list [OF q'(3)] by (simp add: s'_def)
  next
    case False
    then have "queue_of j s' = queue_of j s" using c ts by (simp add: s'_def queue_of_def set_queue_def)
    then show ?thesis using ok that False by (simp add: queues_ok_def queues_nth)
  qed
  have qs: "queues s' = (queues s)[c := xs]"
    by (rule nth_equalityI) (use j c in \<open>simp_all add: s'_def queues_nth\<close>)
  have "distinct (concat (queues s'))"
    unfolding qs using ok c q r
    by (intro distinct_concat_update) (auto simp: queues_ok_def rq_rep_def)
  then have "queues_ok s'" using j by (simp add: queues_ok_def s'_def)
  moreover have "\<forall>j. c_id (cpus s' ! j) = c_id (cpus s ! j)"
    using c by (simp add: s'_def set_queue_def nth_list_update)
  ultimately show ?thesis using qs q'(1) x c ts by (auto simp: dequeue_on_def s'_def Let_def)
qed

end
