(* ===== verification/Sched.thy ===== *)
theory Sched
  imports Task
begin

text \<open>
  Correctness of the scheduler of \<open>src/kernel/task.c\<close>: \<open>task_schedule\<close> refines an abstract
  scheduler on the lists of queued tasks, keeps the scheduler invariant, and is a round robin on
  one CPU. The last part drops the assumption that a CPU is undisturbed: a step relation runs
  the parts of \<open>task_schedule\<close> between two lock acquisitions as separate steps.
\<close>

subsection \<open>The abstract scheduler\<close>

text \<open>
  On the lists of all queues: the oldest task of the own queue, else the oldest of the first
  other queue that has one, else none (0).
\<close>

definition abs_pick :: "nat \<Rightarrow> u64 list list \<Rightarrow> u64 \<times> u64 list list" where
  "abs_pick c Q =
     (if Q ! c \<noteq> [] then (hd (Q ! c), Q[c := tl (Q ! c)])
      else case find (\<lambda>j. j \<noteq> c \<and> Q ! j \<noteq> []) [0..<length Q] of
        None \<Rightarrow> (0, Q)
      | Some j \<Rightarrow> (hd (Q ! j), Q[j := tl (Q ! j)]))"

definition same_cpus :: "'a ksys_scheme \<Rightarrow> 'a ksys_scheme \<Rightarrow> bool" where
  "same_cpus s s' \<longleftrightarrow> length (cpus s') = length (cpus s) \<and>
     (\<forall>j. current j s' = current j s \<and> idle j s' = idle j s) \<and> heap s' = heap s \<and> kvm s' = kvm s"

lemma upd_task_simps [simp]:
  "cpus (upd_task t f s) = cpus s" "tasks (upd_task t f s) = (tasks s)(t := f (tasks s t))"
  "current j (upd_task t f s) = current j s" "idle j (upd_task t f s) = idle j s"
  "heap (upd_task t f s) = heap s" "kvm (upd_task t f s) = kvm s"
  by (simp_all add: upd_task_def current_def idle_def)

lemma steal_from_abs:
  assumes "queues_ok s" and "set is \<subseteq> {..<length (cpus s)}"
  shows "case find (\<lambda>j. j \<noteq> c \<and> queues s ! j \<noteq> []) is of
      None \<Rightarrow> steal_from is c s = (0, s)
    | Some j \<Rightarrow> \<exists>s'. steal_from is c s = (hd (queues s ! j), s') \<and> hd (queues s ! j) \<noteq> 0 \<and> queues_ok s' \<and>
        queues s' = (queues s)[j := tl (queues s ! j)] \<and> same_run (tasks s) (tasks s') \<and> same_cpus s s'"
  using assms
proof (induction "is")
  case (Cons i "is")
  then have i: "i < length (cpus s)" and IH: "case find (\<lambda>j. j \<noteq> c \<and> queues s ! j \<noteq> []) is of
      None \<Rightarrow> steal_from is c s = (0, s)
    | Some j \<Rightarrow> \<exists>s'. steal_from is c s = (hd (queues s ! j), s') \<and> hd (queues s ! j) \<noteq> 0 \<and> queues_ok s' \<and>
        queues s' = (queues s)[j := tl (queues s ! j)] \<and> same_run (tasks s) (tasks s') \<and> same_cpus s s'"
    by simp_all
  consider "i = c" | "i \<noteq> c" "queues s ! i = []" | x xs where "i \<noteq> c" "queues s ! i = x # xs"
    by (cases "queues s ! i") auto
  then show ?case
  proof cases
    case 1
    then have e: "steal_from (i # is) c s = steal_from is c s"
      "find (\<lambda>j. j \<noteq> c \<and> queues s ! j \<noteq> []) (i # is) = find (\<lambda>j. j \<noteq> c \<and> queues s ! j \<noteq> []) is" by simp_all
    show ?thesis unfolding e by (rule IH)
  next
    case 2
    then have e: "steal_from (i # is) c s = steal_from is c s"
      "find (\<lambda>j. j \<noteq> c \<and> queues s ! j \<noteq> []) (i # is) = find (\<lambda>j. j \<noteq> c \<and> queues s ! j \<noteq> []) is"
      using dequeue_on_empty [OF Cons.prems(1) i 2(2)] by simp_all
    show ?thesis unfolding e by (rule IH)
  next
    case (3 x xs)
    from dequeue_on_some [OF Cons.prems(1) i 3(2)] obtain s1 where s1: "dequeue_on i s = (x, s1)" "queues_ok s1"
      "queues s1 = (queues s)[i := xs]" "tasks s1 = tasks s" "length (cpus s1) = length (cpus s)" "x \<noteq> 0"
      "\<forall>j. current j s1 = current j s \<and> idle j s1 = idle j s" "heap s1 = heap s" "kvm s1 = kvm s" by blast
    let ?s = "upd_task x (\<lambda>tk. tk\<lparr>t_cpu_id := ucast (c_id (cpus s1 ! c))\<rparr>) s1"
    have q: "queues_ok ?s" "queues ?s = queues s1" by (rule queues_tasks [OF s1(2)]; simp)+
    have "same_run (tasks s) (tasks ?s)" by (simp add: same_run_def s1(4))
    then show ?thesis using 3 s1 q by (auto simp: same_cpus_def)
  qed
qed simp

lemma pick_loop_abs:
  assumes ok: "queues_ok s" and c: "c < length (cpus s)"
    and ready: "\<forall>t \<in> set (concat (queues s)). t_state (tasks s t) = TASK_READY"
  shows "\<exists>s'. pick_loop wd c s = Some (fst (abs_pick c (queues s)), s') \<and> queues_ok s' \<and>
    queues s' = snd (abs_pick c (queues s)) \<and> same_run (tasks s) (tasks s') \<and> same_cpus s s'"
proof (cases "queues s ! c")
  case Nil
  have sub: "set [0..<length (cpus s)] \<subseteq> {..<length (cpus s)}" by auto
  note st = steal_from_abs [OF ok sub, of c]
  have d: "dequeue_on c s = (0, s)" by (rule dequeue_on_empty [OF ok c Nil])
  show ?thesis
  proof (cases "find (\<lambda>j. j \<noteq> c \<and> queues s ! j \<noteq> []) [0..<length (cpus s)]")
    case None
    then show ?thesis using st Nil d ok
      by (subst pick_loop.simps) (simp add: abs_pick_def task_steal_def same_cpus_def)
  next
    case (Some j)
    with st obtain s' where s': "steal_from [0..<length (cpus s)] c s = (hd (queues s ! j), s')"
      "hd (queues s ! j) \<noteq> 0" "queues_ok s'" "queues s' = (queues s)[j := tl (queues s ! j)]"
      "same_run (tasks s) (tasks s')" "same_cpus s s'" by auto
    have "j < length (cpus s)" "queues s ! j \<noteq> []" using Some by (auto simp: find_Some_iff)
    then have "hd (queues s ! j) \<in> set (concat (queues s))"
      using subsetD [OF nth_concat_subset [of j "queues s"]] by simp
    then have "t_state (tasks s (hd (queues s ! j))) = TASK_READY" by (rule ready [THEN bspec])
    then have "t_state (tasks s' (hd (queues s ! j))) = TASK_READY"
      using same_runD(2) [OF s'(5)] by simp
    then show ?thesis using Some s' Nil d
      by (subst pick_loop.simps) (simp add: abs_pick_def task_steal_def)
  qed
next
  case (Cons x xs)
  from dequeue_on_some [OF ok c Cons] obtain s' where s': "dequeue_on c s = (x, s')" "queues_ok s'"
    "queues s' = (queues s)[c := xs]" "tasks s' = tasks s" "length (cpus s') = length (cpus s)" "x \<noteq> 0"
    "\<forall>j. current j s' = current j s \<and> idle j s' = idle j s" "heap s' = heap s" "kvm s' = kvm s" by blast
  have "x \<in> set (concat (queues s))" using nth_concat_subset [of c "queues s"] c Cons by auto
  then have "t_state (tasks s x) = TASK_READY" by (rule ready [THEN bspec])
  then have "t_state (tasks s' x) = TASK_READY" by (simp only: s'(4))
  then show ?thesis using s' Cons
    by (subst pick_loop.simps) (simp add: abs_pick_def same_cpus_def)
qed

subsection \<open>The scheduler invariant\<close>

text \<open>
  The queues are well-formed and disjoint and hold only runnable tasks; every CPU has a current
  and an idle task; a current task is queued nowhere, is not merely ready, and is the CPU's own
  idle task if it is idle at all; no two CPUs share a current task.
\<close>

definition sched_inv :: "'a ksys_scheme \<Rightarrow> bool" where
  "sched_inv s \<longleftrightarrow> queues_ok s \<and>
     (\<forall>t \<in> set (concat (queues s)). t_state (tasks s t) = TASK_READY \<and> t_id (tasks s t) \<noteq> 0) \<and>
     (\<forall>c < length (cpus s). current c s \<noteq> 0 \<and> idle c s \<noteq> 0 \<and> t_id (tasks s (idle c s)) = 0 \<and>
        current c s \<notin> set (concat (queues s)) \<and> t_state (tasks s (current c s)) \<noteq> TASK_READY \<and>
        (t_id (tasks s (current c s)) = 0 \<longrightarrow> current c s = idle c s)) \<and>
     inj_on (\<lambda>c. current c s) {..<length (cpus s)} \<and> inj_on (\<lambda>c. idle c s) {..<length (cpus s)} \<and>
     length (concat (queues s)) + length (cpus s) < 2 ^ 32 - 1"

definition still_runnable :: "nat \<Rightarrow> 'a ksys_scheme \<Rightarrow> bool" where
  "still_runnable c s \<longleftrightarrow> t_state (tasks s (current c s)) = TASK_RUNNING \<and> t_id (tasks s (current c s)) \<noteq> 0"

definition requeued :: "nat \<Rightarrow> 'a ksys_scheme \<Rightarrow> u64 list list" where
  "requeued c s = (if still_runnable c s then (queues s)[c := queues s ! c @ [current c s]] else queues s)"

text \<open>A change of a CPU that keeps its runqueue changes no queue.\<close>

lemma upd_cpu_queues:
  assumes "\<And>cp. runqueue (f cp) = runqueue cp"
  shows "queues_ok (upd_cpu c f s) = queues_ok s" "queues (upd_cpu c f s) = queues s"
proof -
  have q: "queue_of j (upd_cpu c f s) = queue_of j s" if "j < length (cpus s)" for j
    using assms that by (cases "j = c") (simp_all add: queue_of_def upd_cpu_def)
  have l: "length (cpus (upd_cpu c f s)) = length (cpus s)" by (simp add: upd_cpu_def)
  show "queues (upd_cpu c f s) = queues s" by (simp add: queues_def q l cong: map_cong)
  then show "queues_ok (upd_cpu c f s) = queues_ok s" by (simp add: queues_ok_def q l)
qed

lemma upd_cpu_fields [simp]:
  "tasks (upd_cpu c f s) = tasks s" "heap (upd_cpu c f s) = heap s" "kvm (upd_cpu c f s) = kvm s"
  "length (cpus (upd_cpu c f s)) = length (cpus s)"
  by (simp_all add: upd_cpu_def)

lemma upd_cpu_flag [simp]:
  "queues_ok (upd_cpu c (\<lambda>cp. cp\<lparr>need_resched := b\<rparr>) s) = queues_ok s"
  "queues (upd_cpu c (\<lambda>cp. cp\<lparr>need_resched := b\<rparr>) s) = queues s"
  by (rule upd_cpu_queues; simp)+

lemma upd_cpu_flag_current [simp]:
  assumes "c < length (cpus s)"
  shows "current j (upd_cpu c (\<lambda>cp. cp\<lparr>need_resched := b\<rparr>) s) = current j s"
    "idle j (upd_cpu c (\<lambda>cp. cp\<lparr>need_resched := b\<rparr>) s) = idle j s"
  using assms by (cases "j = c"; simp add: current_def idle_def upd_cpu_def)+

lemma requeue_current_abs:
  assumes ok: "queues_ok s" and c: "c < length (cpus s)"
    and cur: "current c s \<noteq> 0" "current c s \<notin> set (concat (queues s))"
    and small: "length (concat (queues s)) < 2 ^ 32 - 1"
  shows "queues_ok (requeue_current c r s)" "queues (requeue_current c r s) = requeued c s"
    "same_cpus s (requeue_current c r s)"
    "same_run ((tasks s)(current c s := (tasks s (current c s))\<lparr>rsp := r, t_state :=
       (if t_state (tasks s (current c s)) = TASK_RUNNING then TASK_READY else t_state (tasks s (current c s)))\<rparr>))
       (tasks (requeue_current c r s))"
proof -
  let ?cur = "current c s"
  define s1 where "s1 = upd_task ?cur (\<lambda>tk. tk\<lparr>rsp := r\<rparr>) (upd_cpu c (\<lambda>cp. cp\<lparr>need_resched := 0\<rparr>) s)"
  define s3 where "s3 = upd_task ?cur (\<lambda>tk. tk\<lparr>t_state := TASK_READY\<rparr>) s1"
  have ok0: "queues_ok (upd_cpu c (\<lambda>cp. cp\<lparr>need_resched := 0\<rparr>) s)" using ok c by simp
  have q1: "queues_ok s1" "queues s1 = queues s"
    using queues_tasks [OF ok0, of s1] c by (simp_all add: s1_def)
  have q3: "queues_ok s3" "queues s3 = queues s"
    using queues_tasks [OF q1(1), of s3] q1(2) by (simp_all add: s3_def)
  have l: "length (cpus s3) = length (cpus s)" "length (cpus s1) = length (cpus s)"
    using c by (simp_all add: s3_def s1_def)
  have cc: "current j s3 = current j s" "idle j s3 = idle j s" "current j s1 = current j s" "idle j s1 = idle j s" for j
    using c by (simp_all add: s3_def s1_def)
  have rq: "requeue_current c r s = (if t_state (tasks s ?cur) = TASK_RUNNING then
      (if t_id (tasks s ?cur) \<noteq> 0 then set_queue c (enqueue_task ?cur (queue_of c s3)) s3 else s3) else s1)"
    using c by (simp add: requeue_current_def Let_def s3_def s1_def)
  have c3: "c < length (cpus s3)" using c l by simp
  have x3: "?cur \<notin> set (concat (queues s3))" "length (concat (queues s3)) < 2 ^ 32 - 1"
    using cur(2) small q3(2) by simp_all
  note e = enqueue_on [OF q3(1) c3 cur(1) x3]
  show "queues_ok (requeue_current c r s)" using e q1 q3 by (simp add: rq)
  show "queues (requeue_current c r s) = requeued c s"
    using e q1 q3 by (simp add: rq requeued_def still_runnable_def)
  have h: "heap s3 = heap s" "kvm s3 = kvm s" "heap s1 = heap s" "kvm s1 = kvm s" by (simp_all add: s3_def s1_def)
  show "same_cpus s (requeue_current c r s)" using l cc c3 h by (simp add: rq same_cpus_def)
  have t: "tasks s3 = (tasks s)(?cur := (tasks s ?cur)\<lparr>rsp := r, t_state := TASK_READY\<rparr>)"
    "tasks s1 = (tasks s)(?cur := (tasks s ?cur)\<lparr>rsp := r\<rparr>)" using c by (simp_all add: s3_def s1_def)
  show "same_run ((tasks s)(?cur := (tasks s ?cur)\<lparr>rsp := r, t_state :=
       (if t_state (tasks s ?cur) = TASK_RUNNING then TASK_READY else t_state (tasks s ?cur))\<rparr>))
       (tasks (requeue_current c r s))"
    using e(3) t by (simp add: rq)
qed

text \<open>What a pick takes away: one task of the queues, or nothing when they are all empty.\<close>

lemma concat_update_tl:
  "distinct (concat Q) \<Longrightarrow> j < length Q \<Longrightarrow> Q ! j \<noteq> [] \<Longrightarrow>
   set (concat (Q[j := tl (Q ! j)])) = set (concat Q) - {hd (Q ! j)} \<and>
   length (concat Q) = Suc (length (concat (Q[j := tl (Q ! j)])))"
proof (induction Q arbitrary: j)
  case (Cons q Q)
  show ?case
  proof (cases j)
    case 0
    then obtain y ys where "q = y # ys" using Cons.prems(3) by (cases q) auto
    then show ?thesis using 0 Cons.prems(1) by auto
  next
    case (Suc k)
    then have k: "distinct (concat Q)" "k < length Q" "Q ! k \<noteq> []" using Cons.prems by simp_all
    note IH = Cons.IH [OF k]
    have "hd (Q ! k) \<in> set (concat Q)" using subsetD [OF nth_concat_subset [OF k(2)]] k(3) by simp
    then have "hd (Q ! k) \<notin> set q" using Cons.prems(1) by auto
    then show ?thesis using IH Suc by auto
  qed
qed simp

lemma abs_pick_cases:
  assumes "c < length Q"
  obtains "abs_pick c Q = (0, Q)" "Q ! c = []"
  | j where "j < length Q" "Q ! j \<noteq> []" "abs_pick c Q = (hd (Q ! j), Q[j := tl (Q ! j)])"
proof (cases "Q ! c = []")
  case True
  show thesis
  proof (cases "find (\<lambda>j. j \<noteq> c \<and> Q ! j \<noteq> []) [0..<length Q]")
    case None
    then show thesis using that(1) True by (simp add: abs_pick_def)
  next
    case (Some j)
    then have "j < length Q" "Q ! j \<noteq> []" by (auto simp: find_Some_iff)
    then show thesis using that(2) [of j] True Some by (simp add: abs_pick_def)
  qed
next
  case False
  then show thesis using that(2) [of c] assms by (simp add: abs_pick_def)
qed

lemma abs_pick_none: "c < length Q \<Longrightarrow> Q ! c = [] \<Longrightarrow> concat Q = [] \<Longrightarrow> abs_pick c Q = (0, Q)"
  by (rule abs_pick_cases [of c Q]) (auto simp: concat_eq_Nil_conv)

subsection \<open>task_schedule implements the abstract scheduler\<close>

lemma switch_to_facts:
  assumes c: "c < length (cpus s)" and t: "t = (if nxt = 0 then idle c s else nxt)"
  shows "fst (switch_to c nxt s) = rsp (tasks s t)"
    "queues_ok s \<Longrightarrow> queues_ok (snd (switch_to c nxt s))"
    "queues_ok s \<Longrightarrow> queues (snd (switch_to c nxt s)) = queues s"
    "length (cpus (snd (switch_to c nxt s))) = length (cpus s)"
    "tasks (snd (switch_to c nxt s)) = (tasks s)(t := (tasks s t)\<lparr>t_state := TASK_RUNNING,
       timeslice := (if t_id (tasks s t) = 0 then 0 else TASK_DEFAULT_TIMESLICE)\<rparr>)"
    "current j (snd (switch_to c nxt s)) = (if j = c then t else current j s)"
    "idle j (snd (switch_to c nxt s)) = idle j s"
    "heap (snd (switch_to c nxt s)) = heap s"
    "cr3 (kvm (snd (switch_to c nxt s))) = t_pml4 (tasks s t)"
    "tss_rsp0 (cpus (snd (switch_to c nxt s)) ! c) = kernel_rsp (tasks s t)"
    "frames (kvm (snd (switch_to c nxt s))) = frames (kvm s)"
proof -
  define f where "f = (\<lambda>tk :: task. tk\<lparr>t_state := TASK_RUNNING,
                 timeslice := (if t_id tk = 0 then 0 else TASK_DEFAULT_TIMESLICE)\<rparr>)"
  let ?k = "kernel_rsp (tasks s t)"
  define s1 where "s1 = upd_cpu c (\<lambda>cp. cp\<lparr>current_task := t\<rparr>) s"
  define s2 where "s2 = upd_task t f s1"
  define s3 where "s3 = upd_cpu c (\<lambda>cp. cp\<lparr>tss_rsp0 := ?k, kernel_stack := ?k\<rparr>) s2"
  have k: "kernel_rsp (tasks s2 t) = ?k" by (simp add: s2_def s1_def f_def)
  have sw: "switch_to c nxt s =
      (rsp (tasks s t), s3\<lparr>kvm := vmm_switch_address_space (t_pml4 (tasks s t)) (kvm s3)\<rparr>)"
    by (simp add: switch_to_def Let_def t [unfolded idle_def, symmetric] flip: s1_def f_def s2_def k)
      (simp add: s3_def k s2_def s1_def f_def)
  have l: "length (cpus s3) = length (cpus s)" by (simp add: s3_def s2_def s1_def)
  show "fst (switch_to c nxt s) = rsp (tasks s t)" "heap (snd (switch_to c nxt s)) = heap s"
    "frames (kvm (snd (switch_to c nxt s))) = frames (kvm s)"
    "cr3 (kvm (snd (switch_to c nxt s))) = t_pml4 (tasks s t)"
    "length (cpus (snd (switch_to c nxt s))) = length (cpus s)"
    by (simp_all add: sw l vmm_switch_address_space_def) (simp_all add: s3_def s2_def s1_def)
  show "tasks (snd (switch_to c nxt s)) = (tasks s)(t := (tasks s t)\<lparr>t_state := TASK_RUNNING,
       timeslice := (if t_id (tasks s t) = 0 then 0 else TASK_DEFAULT_TIMESLICE)\<rparr>)"
    by (simp add: sw s3_def s2_def s1_def f_def)
  show "current j (snd (switch_to c nxt s)) = (if j = c then t else current j s)"
    "idle j (snd (switch_to c nxt s)) = idle j s"
    "tss_rsp0 (cpus (snd (switch_to c nxt s)) ! c) = kernel_rsp (tasks s t)"
    using c by (simp_all add: sw s3_def s2_def s1_def current_def idle_def upd_cpu_def upd_task_def nth_list_update)
  assume ok: "queues_ok s"
  have q1: "queues_ok s1" "queues s1 = queues s" using ok by (simp_all add: s1_def upd_cpu_queues)
  have "queues_ok s2" "queues s2 = queues s1"
    by (rule queues_tasks [OF q1(1)]; simp add: s2_def f_def)+
  then have q3: "queues_ok s3" "queues s3 = queues s" using q1 by (simp_all add: s3_def upd_cpu_queues)
  have "queues_ok (snd (switch_to c nxt s))" "queues (snd (switch_to c nxt s)) = queues s3"
    by (rule queues_tasks [OF q3(1)]; simp add: sw)+
  then show "queues_ok (snd (switch_to c nxt s))" "queues (snd (switch_to c nxt s)) = queues s"
    using q3 by simp_all
qed

definition next_task :: "nat \<Rightarrow> 'a ksys_scheme \<Rightarrow> u64" where
  "next_task c s = (let t = fst (abs_pick c (requeued c s)) in if t = 0 then idle c s else t)"

lemma concat_update_snoc:
  "c < length Q \<Longrightarrow> set (concat (Q[c := Q ! c @ [x]])) = insert x (set (concat Q)) \<and>
    length (concat (Q[c := Q ! c @ [x]])) = Suc (length (concat Q))"
  by (induction Q arbitrary: c) (auto split: nat.splits)

lemma set_requeued:
  assumes "c < length (cpus s)"
  shows "set (concat (requeued c s)) =
    set (concat (queues s)) \<union> (if still_runnable c s then {current c s} else {})"
  using concat_update_snoc [of c "queues s" "current c s"] assms
  by (simp add: requeued_def del: set_concat)

lemma length_requeued:
  assumes "c < length (cpus s)"
  shows "length (concat (requeued c s)) =
    length (concat (queues s)) + (if still_runnable c s then 1 else 0)"
  using concat_update_snoc [of c "queues s" "current c s"] assms by (simp add: requeued_def)

text \<open>The invariant in the form the proofs use it.\<close>

lemma sched_invD:
  assumes "sched_inv s"
  shows "queues_ok s" "\<And>t. t \<in> set (concat (queues s)) \<Longrightarrow> t_state (tasks s t) = TASK_READY \<and> t_id (tasks s t) \<noteq> 0"
    "\<And>c. c < length (cpus s) \<Longrightarrow> current c s \<noteq> 0 \<and> idle c s \<noteq> 0 \<and> t_id (tasks s (idle c s)) = 0 \<and>
        current c s \<notin> set (concat (queues s)) \<and> t_state (tasks s (current c s)) \<noteq> TASK_READY \<and>
        (t_id (tasks s (current c s)) = 0 \<longrightarrow> current c s = idle c s)"
    "\<And>c j. c < length (cpus s) \<Longrightarrow> j < length (cpus s) \<Longrightarrow> current c s = current j s \<Longrightarrow> c = j"
    "\<And>c j. c < length (cpus s) \<Longrightarrow> j < length (cpus s) \<Longrightarrow> idle c s = idle j s \<Longrightarrow> c = j"
    "length (concat (queues s)) + length (cpus s) < 2 ^ 32 - 1"
  using assms unfolding sched_inv_def inj_on_def by blast+

lemma zero_not_queued:
  assumes "queues_ok s" shows "0 \<notin> set (concat (queues s))"
proof -
  have "0 \<notin> set (queues s ! c)" if "c < length (cpus s)" for c
    using queues_ok_rep [OF assms that] linked_nonzero unfolding rq_rep_def by blast
  then show ?thesis by (auto simp: in_set_conv_nth)
qed

text \<open>The scheduler on a state of which \<open>requeue_current\<close> made \<open>s1\<close>.\<close>

lemma schedule_step:
  assumes inv: "sched_inv s" and c: "c < length (cpus s)"
  obtains s2 where
    "task_schedule wd c r s = Some (switch_to c (fst (abs_pick c (requeued c s))) s2)"
    "queues_ok s2" "queues s2 = snd (abs_pick c (requeued c s))" "same_cpus s s2"
    "same_run ((tasks s)(current c s := (tasks s (current c s))\<lparr>rsp := r, t_state :=
       (if t_state (tasks s (current c s)) = TASK_RUNNING then TASK_READY else t_state (tasks s (current c s)))\<rparr>))
       (tasks s2)"
proof -
  define s1 where "s1 = requeue_current c r s"
  note I = sched_invD [OF inv]
  have pre: "current c s \<noteq> 0" "current c s \<notin> set (concat (queues s))" "length (concat (queues s)) < 2 ^ 32 - 1"
    using I(3) [OF c] I(6) by simp_all
  note rc = requeue_current_abs [OF I(1) c pre, of r, folded s1_def]
  have c1: "c < length (cpus s1)" using c rc(3) by (simp add: same_cpus_def)
  have "t_state (tasks s1 t) = TASK_READY" if "t \<in> set (concat (queues s1))" for t
  proof -
    have t: "t \<in> set (concat (queues s)) \<or> (still_runnable c s \<and> t = current c s)"
      using that unfolding rc(2) set_requeued [OF c] by (auto split: if_splits)
    then have "t \<noteq> current c s \<or> still_runnable c s" using I(3) [OF c] by auto
    then show ?thesis using t I(2) same_runD(2) [OF rc(4), of t] by (auto simp: still_runnable_def)
  qed
  then have ready: "\<forall>t \<in> set (concat (queues s1)). t_state (tasks s1 t) = TASK_READY" by blast
  from pick_loop_abs [OF rc(1) c1 ready, of wd] obtain s2 where s2:
    "pick_loop wd c s1 = Some (fst (abs_pick c (requeued c s)), s2)" "queues_ok s2"
    "queues s2 = snd (abs_pick c (requeued c s))" "same_run (tasks s1) (tasks s2)" "same_cpus s1 s2"
    unfolding rc(2) by blast
  have "task_schedule wd c r s = Some (switch_to c (fst (abs_pick c (requeued c s))) s2)"
    using I(3) [OF c] by (simp add: task_schedule_def s2(1) flip: s1_def)
  moreover have "same_cpus s s2" using rc(3) s2(5) by (simp add: same_cpus_def)
  ultimately show thesis using that s2 same_run_trans [OF rc(4) s2(4)] by blast
qed

lemma pick_requeued:
  assumes inv: "sched_inv s" and c: "c < length (cpus s)"
  defines "t \<equiv> next_task c s" and "Q \<equiv> snd (abs_pick c (requeued c s))"
  shows "t \<notin> set (concat Q)" "set (concat Q) \<subseteq> set (concat (requeued c s))" "length Q = length (cpus s)"
    "length (concat Q) \<le> length (concat (queues s))"
    "t_id (tasks s t) \<noteq> 0 \<Longrightarrow> t \<in> set (concat (requeued c s)) \<and> t = fst (abs_pick c (requeued c s))"
    "t_id (tasks s t) = 0 \<Longrightarrow> t = idle c s" "t \<noteq> 0"
    "t = (if fst (abs_pick c (requeued c s)) = 0 then idle c s else fst (abs_pick c (requeued c s)))"
proof -
  note I = sched_invD [OF inv]
  have pre: "current c s \<noteq> 0" "current c s \<notin> set (concat (queues s))" "length (concat (queues s)) < 2 ^ 32 - 1"
    using I(3) [OF c] I(6) by simp_all
  note rc = requeue_current_abs [OF I(1) c pre, of 0]
  have d: "distinct (concat (requeued c s))" and z: "0 \<notin> set (concat (requeued c s))"
    using rc(1) zero_not_queued [OF rc(1)] unfolding rc(2) by (simp_all add: queues_ok_def rc(2))
  have ids: "t_id (tasks s x) \<noteq> 0" if "x \<in> set (concat (requeued c s))" for x
    using that I(2) unfolding set_requeued [OF c] by (auto simp: still_runnable_def split: if_splits)
  have cQ: "c < length (requeued c s)" using c by (simp add: requeued_def)
  have "t \<notin> set (concat Q) \<and> set (concat Q) \<subseteq> set (concat (requeued c s)) \<and> length Q = length (cpus s) \<and>
    length (concat Q) \<le> length (concat (queues s)) \<and>
    (if t_id (tasks s t) = 0 then t = idle c s
     else t \<in> set (concat (requeued c s)) \<and> t = fst (abs_pick c (requeued c s))) \<and> t \<noteq> 0"
    using cQ
  proof (cases rule: abs_pick_cases)
    case 1
    then have "\<not> still_runnable c s" using c by (auto simp: requeued_def)
    then have l: "length (concat Q) = length (concat (queues s))" using 1 length_requeued [OF c] by (simp add: Q_def)
    have t: "t = idle c s" using 1 by (simp add: t_def next_task_def)
    then have "t \<notin> set (concat (requeued c s))" using ids I(3) [OF c] by blast
    then show ?thesis using 1 l t I(3) [OF c] by (simp add: Q_def requeued_def)
  next
    case (2 j)
    have m: "hd (requeued c s ! j) \<in> set (concat (requeued c s))"
      using subsetD [OF nth_concat_subset [OF 2(1)]] 2(2) by simp
    with z have "hd (requeued c s ! j) \<noteq> 0" by metis
    then have t: "t = hd (requeued c s ! j)" "t = fst (abs_pick c (requeued c s))" "t \<noteq> 0"
      using 2 by (simp_all add: t_def next_task_def)
    have Q: "Q = (requeued c s)[j := tl (requeued c s ! j)]" using 2 by (simp add: Q_def)
    have "length (concat Q) \<le> length (concat (queues s))"
      using concat_update_tl [OF d 2(1,2)] length_requeued [OF c] by (simp add: Q split: if_splits)
    then show ?thesis using concat_update_tl [OF d 2(1,2)] Q t m ids [OF m]
      by (simp add: requeued_def del: set_concat)
  qed
  then show "t \<notin> set (concat Q)" "set (concat Q) \<subseteq> set (concat (requeued c s))" "length Q = length (cpus s)"
    "length (concat Q) \<le> length (concat (queues s))"
    "t_id (tasks s t) \<noteq> 0 \<Longrightarrow> t \<in> set (concat (requeued c s)) \<and> t = fst (abs_pick c (requeued c s))"
    "t_id (tasks s t) = 0 \<Longrightarrow> t = idle c s" "t \<noteq> 0" by metis+
  show "t = (if fst (abs_pick c (requeued c s)) = 0 then idle c s else fst (abs_pick c (requeued c s)))"
    by (simp add: t_def next_task_def Let_def)
qed

lemma task_schedule_result:
  assumes inv: "sched_inv s" and c: "c < length (cpus s)"
  obtains s' where "task_schedule wd c r s =
       Some (if next_task c s = current c s then r else rsp (tasks s (next_task c s)), s')"
     "sched_inv s'" "queues s' = snd (abs_pick c (requeued c s))" "length (cpus s') = length (cpus s)"
     "\<And>j. current j s' = (if j = c then next_task c s else current j s)" "\<And>j. idle j s' = idle j s"
     "t_state (tasks s' (next_task c s)) = TASK_RUNNING"
     "timeslice (tasks s' (next_task c s)) =
       (if t_id (tasks s (next_task c s)) = 0 then 0 else TASK_DEFAULT_TIMESLICE)"
     "rsp (tasks s' (current c s)) = r" "cr3 (kvm s') = t_pml4 (tasks s (next_task c s))"
     "tss_rsp0 (cpus s' ! c) = kernel_rsp (tasks s (next_task c s))"
     "\<And>t. t_id (tasks s' t) = t_id (tasks s t)" "heap s' = heap s" "frames (kvm s') = frames (kvm s)"
proof -
  let ?n = "next_task c s" and ?x = "fst (abs_pick c (requeued c s))"
  from schedule_step [OF inv c, of wd r] obtain s2 where s2:
    "task_schedule wd c r s = Some (switch_to c ?x s2)" "queues_ok s2"
    "queues s2 = snd (abs_pick c (requeued c s))" "same_cpus s s2"
    "same_run ((tasks s)(current c s := (tasks s (current c s))\<lparr>rsp := r, t_state :=
       (if t_state (tasks s (current c s)) = TASK_RUNNING then TASK_READY else t_state (tasks s (current c s)))\<rparr>))
       (tasks s2)" .
  note I = sched_invD [OF inv] and p = pick_requeued [OF inv c]
  have cc: "current j s2 = current j s" "idle j s2 = idle j s" "length (cpus s2) = length (cpus s)" "heap s2 = heap s" for j
    using s2(4) by (simp_all add: same_cpus_def)
  have c2: "c < length (cpus s2)" using c cc by simp
  have n: "?n = (if ?x = 0 then idle c s2 else ?x)" using p(8) cc by simp
  define s' where "s' = snd (switch_to c ?x s2)"
  note sw = switch_to_facts [OF c2 n, folded s'_def]
  note run = same_runD [OF s2(5)]
  have id2: "t_id (tasks s2 t) = t_id (tasks s t)" for t
    using run(1) [of t] by (cases "t = current c s") simp_all
  then have id: "t_id (tasks s' t) = t_id (tasks s t)" for t by (simp add: sw(5))
  have other: "t_state (tasks s' t) = t_state (tasks s t)" if "t \<noteq> ?n" "t \<noteq> current c s" for t
    using that run(2) [of t] by (simp add: sw(5))
  have ready: "t_state (tasks s' t) = TASK_READY \<and> t_id (tasks s' t) \<noteq> 0" if t: "t \<in> set (concat (queues s'))" for t
  proof -
    have q: "t \<in> set (concat (snd (abs_pick c (requeued c s))))" using t sw(3) s2 by simp
    then have "t \<noteq> ?n" using p(1) by blast
    moreover have "t \<in> set (concat (queues s)) \<or> (still_runnable c s \<and> t = current c s)"
      using subsetD [OF p(2) q] unfolding set_requeued [OF c] by (auto split: if_splits)
    ultimately show ?thesis using I(2,3) c run(1,2) [of t] by (auto simp: sw(5) still_runnable_def)
  qed
  have cur: "current j s' \<noteq> 0 \<and> idle j s' \<noteq> 0 \<and> t_id (tasks s' (idle j s')) = 0 \<and>
     current j s' \<notin> set (concat (queues s')) \<and> t_state (tasks s' (current j s')) \<noteq> TASK_READY \<and>
     (t_id (tasks s' (current j s')) = 0 \<longrightarrow> current j s' = idle j s')" if j: "j < length (cpus s')" for j
  proof -
    have j': "j < length (cpus s)" using j sw(4) cc by simp
    have q: "queues s' = snd (abs_pick c (requeued c s))" using sw(3) s2 by simp
    show ?thesis
    proof (cases "j = c")
      case True
      then have e: "current j s' = ?n" "idle j s' = idle c s" using sw(6,7) cc by simp_all
      have "t_state (tasks s' ?n) = TASK_RUNNING" by (simp add: sw(5))
      then show ?thesis unfolding id e q using p(1,6,7) I(3) [OF c] by simp
    next
      case False
      then have jc: "current j s \<noteq> current c s" using I(4) [OF j' c] by blast
      have nr: "current j s \<notin> set (concat (requeued c s))"
        using I(3) [OF j'] jc unfolding set_requeued [OF c] by auto
      then have jn: "current j s \<noteq> ?n"
        using p(5,6) I(3) [OF j'] I(3) [OF c] I(5) [OF j' c] False by metis
      have e: "current j s' = current j s" "idle j s' = idle j s" using False sw(6,7) cc by simp_all
      have "current j s \<notin> set (concat (snd (abs_pick c (requeued c s))))" using nr p(2) by blast
      then show ?thesis using I(3) [OF j'] other [OF jn jc] unfolding id e q by simp
    qed
  qed
  have inj: "a = b" if "a < length (cpus s')" "b < length (cpus s')" "current a s' = current b s'" for a b
  proof -
    have ab: "a < length (cpus s)" "b < length (cpus s)" using that sw(4) cc by simp_all
    have k: "current j s \<noteq> ?n" if "j < length (cpus s)" "j \<noteq> c" for j
    proof
      assume e: "current j s = ?n"
      have "current j s \<noteq> current c s" using I(4) [OF that(1) c] that(2) by blast
      then have "current j s \<notin> set (concat (requeued c s))"
        using I(3) [OF that(1)] unfolding set_requeued [OF c] by auto
      then show False using p(5,6) I(3) [OF that(1)] I(5) [OF that(1) c] that(2) e by metis
    qed
    then show ?thesis using that(3) I(4) [OF ab] k [OF ab(1)] k [OF ab(2)] unfolding sw(6) cc
      by (auto split: if_splits)
  qed
  have "sched_inv s'"
    unfolding sched_inv_def inj_on_def
    using sw(2) [OF s2(2)] ready cur inj I(5,6) p(4) sw(3) [OF s2(2)]
    by (simp add: sw(4,7) cc s2(3) del: set_concat)
  moreover have "fst (switch_to c ?x s2) = (if ?n = current c s then r else rsp (tasks s ?n))"
    using run(3) [of ?n] by (simp add: sw(1))
  then have "task_schedule wd c r s = Some (if ?n = current c s then r else rsp (tasks s ?n), s')"
    unfolding s2(1) s'_def by (simp add: prod_eq_iff)
  moreover have "rsp (tasks s' (current c s)) = r" using run(3) [of "current c s"] by (auto simp: sw(5))
  moreover have "cr3 (kvm s') = t_pml4 (tasks s ?n)" "tss_rsp0 (cpus s' ! c) = kernel_rsp (tasks s ?n)"
    using run(5,6) [of ?n] by (cases "?n = current c s"; simp add: sw(9,10))+
  moreover have "t_state (tasks s' ?n) = TASK_RUNNING \<and>
      timeslice (tasks s' ?n) = (if t_id (tasks s ?n) = 0 then 0 else TASK_DEFAULT_TIMESLICE)"
    using id2 [of ?n] by (simp add: sw(5))
  moreover have "frames (kvm s') = frames (kvm s)" using sw(11) s2(4) by (simp add: same_cpus_def)
  ultimately show thesis using that [of s'] sw(3) [OF s2(2)] sw(4,6,7,8) id by (simp add: cc s2(3))
qed

text \<open>
  C10. A call of task_schedule on CPU c always returns: the outgoing task goes to the back of the own
  queue when it is still runnable, the next task is the oldest of the own queue, else the oldest
  of the first CPU that has one, else the idle task; that task becomes current, RUNNING, with a
  full timeslice, its stack pointer is the answer and its page table the one loaded, the queues are
  those of the abstract scheduler, no other CPU changes, and the scheduler invariant holds again.
\<close>

theorem schedule_refines:
  assumes "sched_inv s" and "c < length (cpus s)"
  shows "\<exists>s'. task_schedule wd c r s =
       Some (if next_task c s = current c s then r else rsp (tasks s (next_task c s)), s') \<and>
     sched_inv s' \<and> queues s' = snd (abs_pick c (requeued c s)) \<and> 
     t_state (tasks s' (next_task c s)) = TASK_RUNNING \<and>
     timeslice (tasks s' (next_task c s)) =
       (if t_id (tasks s (next_task c s)) = 0 then 0 else TASK_DEFAULT_TIMESLICE) \<and>
     rsp (tasks s' (current c s)) = r \<and> cr3 (kvm s') = t_pml4 (tasks s (next_task c s)) \<and>
     tss_rsp0 (cpus s' ! c) = kernel_rsp (tasks s (next_task c s)) \<and>
     (\<forall>j. current j s' = (if j = c then next_task c s else current j s)) \<and> heap s' = heap s"
  by (rule task_schedule_result [OF assms, of wd r]) blast

subsection \<open>Histories of the scheduler\<close>

text \<open>Calls of task_schedule, each by a CPU and with the stack pointer it saves.\<close>

primrec schedules :: "(u64 \<Rightarrow> 'a ksys_scheme \<Rightarrow> 'a ksys_scheme option) \<Rightarrow> (nat \<times> u64) list \<Rightarrow>
    'a ksys_scheme \<Rightarrow> 'a ksys_scheme option" where
  "schedules wd [] s = Some s"
| "schedules wd (x # xs) s =
     do { (a, s1) \<leftarrow> task_schedule wd (fst x) (snd x) s; schedules wd xs s1 }"

text \<open>
  C11. On one CPU the running task and its queue rotate: a task that is running at every call, with
  the others queued behind it, comes back to run after exactly as many calls as there are tasks,
  and every task has its turn in the order of the queue.
\<close>

theorem schedule_round_robin:
  assumes "sched_inv s" and "length (cpus s) = 1"
    and "t_state (tasks s (current 0 s)) = TASK_RUNNING" and "t_id (tasks s (current 0 s)) \<noteq> 0"
  shows "\<exists>s'. schedules wd (map (Pair 0) rs) s = Some s' \<and> sched_inv s' \<and>
    current 0 s' # queues s' ! 0 = rotate (length rs) (current 0 s # queues s ! 0)"
  using assms
proof (induction rs arbitrary: s)
  case (Cons r rs)
  define q where "q = queues s ! 0"
  obtain y ys where y: "q @ [current 0 s] = y # ys" by (cases "q @ [current 0 s]") auto
  have "queues s = [q]" using Cons.prems(2) by (simp add: q_def list_eq_iff_nth_eq)
  then have rq: "requeued 0 s = [y # ys]"
    using Cons.prems(3,4) y by (simp add: requeued_def still_runnable_def)
  have c: "0 < length (cpus s)" using Cons.prems(2) by simp
  have pk: "abs_pick 0 (requeued 0 s) = (y, [ys])" by (simp add: abs_pick_def rq)
  have yi: "t_id (tasks s y) \<noteq> 0" "y \<noteq> 0"
  proof -
    have "y \<in> set (concat (queues s)) \<or> y = current 0 s"
      using y by (cases q) (auto simp: \<open>queues s = [q]\<close>)
    then show "t_id (tasks s y) \<noteq> 0" "y \<noteq> 0"
      using sched_invD(2) [OF Cons.prems(1)] Cons.prems(4) sched_invD(3) [OF Cons.prems(1) c]
        zero_not_queued [OF sched_invD(1) [OF Cons.prems(1)]] by metis+
  qed
  then have n: "next_task 0 s = y" by (simp add: next_task_def pk)
  have "\<exists>s1 a. task_schedule wd 0 r s = Some (a, s1) \<and> sched_inv s1 \<and> queues s1 = [ys] \<and>
    length (cpus s1) = length (cpus s) \<and> current 0 s1 = y \<and> t_state (tasks s1 y) = TASK_RUNNING \<and>
    t_id (tasks s1 y) = t_id (tasks s y)"
    by (rule task_schedule_result [OF Cons.prems(1) c, of wd r, unfolded n pk]) auto
  then obtain s1 a where s1:
    "task_schedule wd 0 r s = Some (a, s1)" "sched_inv s1" "queues s1 = [ys]" "length (cpus s1) = length (cpus s)"
    "current 0 s1 = y" "t_state (tasks s1 y) = TASK_RUNNING" "t_id (tasks s1 y) = t_id (tasks s y)" by blast
  from Cons.IH [of s1] s1 Cons.prems(2) yi obtain s' where s': "schedules wd (map (Pair 0) rs) s1 = Some s'"
    "sched_inv s'" "current 0 s' # queues s' ! 0 = rotate (length rs) (y # ys)" by auto
  have "rotate (length rs) (y # ys) = rotate (length (r # rs)) (current 0 s # q)"
    using y by (simp add: rotate1_rotate_swap)
  then show ?case using s1(1) s' by (simp add: q_def)
qed simp

subsection \<open>Finished tasks\<close>

text \<open>
  No CPU will ever reach the task: it is neither queued nor current, and nobody's idle task.
\<close>

definition unreachable :: "u64 \<Rightarrow> 'a ksys_scheme \<Rightarrow> bool" where
  "unreachable t s \<longleftrightarrow> t \<notin> set (concat (queues s)) \<and>
     (\<forall>c < length (cpus s). current c s \<noteq> t \<and> idle c s \<noteq> t)"

lemma next_task_cases:
  assumes "sched_inv s" and "c < length (cpus s)"
  shows "next_task c s = idle c s \<or> next_task c s \<in> set (concat (queues s)) \<or>
    (still_runnable c s \<and> next_task c s = current c s)"
proof -
  note p = pick_requeued [OF assms]
  show ?thesis
  proof (cases "t_id (tasks s (next_task c s)) = 0")
    case True
    then show ?thesis using p(6) by blast
  next
    case False
    then have "next_task c s \<in> set (concat (requeued c s))" using p(5) by blast
    then show ?thesis unfolding set_requeued [OF assms(2)] by (auto split: if_splits)
  qed
qed

lemma unreachable_step:
  assumes inv: "sched_inv s" and c: "c < length (cpus s)"
    and t: "unreachable t s \<or> (t = current c s \<and> t_state (tasks s t) = TASK_EXITED \<and> t_id (tasks s t) \<noteq> 0)"
  shows "\<exists>a s'. task_schedule wd c r s = Some (a, s') \<and> sched_inv s' \<and> unreachable t s' \<and> heap s' = heap s \<and>
    frames (kvm s') = frames (kvm s) \<and> length (cpus s') = length (cpus s)"
proof -
  note I = sched_invD [OF inv]
  have i: "idle j s \<noteq> t" if "j < length (cpus s)" for j
    using t I(3) [OF that] that by (auto simp: unreachable_def)
  have o: "current j s \<noteq> t" if "j < length (cpus s)" "j \<noteq> c" for j
    using t I(4) [OF that(1) c] that by (auto simp: unreachable_def)
  have q: "t \<notin> set (concat (queues s))" using t I(3) [OF c] by (auto simp: unreachable_def)
  have nr: "\<not> (still_runnable c s \<and> current c s = t)"
    using t c by (auto simp: unreachable_def still_runnable_def)
  have rq: "t \<notin> set (concat (requeued c s))"
    unfolding set_requeued [OF c] using q nr by auto
  have n: "next_task c s \<noteq> t" using next_task_cases [OF inv c] i [OF c] q nr by auto
  have "t \<notin> set (concat (snd (abs_pick c (requeued c s))))" using pick_requeued(2) [OF inv c] rq by blast
  then show ?thesis
    by (rule_tac task_schedule_result [OF inv c, of wd r]) (use n i o in \<open>auto simp: unreachable_def simp del: set_concat\<close>)
qed

text \<open>
  A task that has exited is never reaped: the call of task_schedule that leaves it does not queue
  it, and only queued tasks are looked at. Whatever the CPUs schedule afterwards, the task is never
  reached again, and the heap with its descriptor and its stacks and the frames of its address
  space stay as they are.
\<close>

theorem exited_task_never_reaped:
  assumes "sched_inv s" and "c < length (cpus s)" and "t_state (tasks s (current c s)) = TASK_EXITED"
    and "t_id (tasks s (current c s)) \<noteq> 0" and "list_all (\<lambda>x. fst x < length (cpus s)) xs"
  shows "\<exists>s'. schedules wd ((c, r) # xs) s = Some s' \<and> unreachable (current c s) s' \<and>
    heap s' = heap s \<and> frames (kvm s') = frames (kvm s)"
proof -
  have run: "\<exists>s'. schedules wd xs s1 = Some s' \<and> unreachable t s' \<and> heap s' = heap s1 \<and>
      frames (kvm s') = frames (kvm s1)"
    if "sched_inv s1" "unreachable t s1" "list_all (\<lambda>x. fst x < length (cpus s1)) xs" for t and s1 :: "'a ksys_scheme"
    using that
  proof (induction xs arbitrary: s1)
    case (Cons x xs)
    then obtain a s2 where s2: "task_schedule wd (fst x) (snd x) s1 = Some (a, s2)" "sched_inv s2"
      "unreachable t s2" "heap s2 = heap s1" "frames (kvm s2) = frames (kvm s1)" "length (cpus s2) = length (cpus s1)"
      using unreachable_step [of s1 "fst x" t wd "snd x"] by auto
    then show ?case using Cons.IH [of s2] Cons.prems by simp
  qed simp
  from unreachable_step [OF assms(1,2), of "current c s" wd r] assms(3,4) obtain a s1 where s1:
    "task_schedule wd c r s = Some (a, s1)" "sched_inv s1" "unreachable (current c s) s1" "heap s1 = heap s"
    "frames (kvm s1) = frames (kvm s)" "length (cpus s1) = length (cpus s)" by blast
  then show ?thesis using run [of s1 "current c s"] assms(5) by simp
qed

subsection \<open>The timer\<close>

lemma ticks_running:
  assumes "c < length (cpus s)" "current c s \<noteq> 0"
    and "t_state (tasks s (current c s)) = TASK_RUNNING" "t_id (tasks s (current c s)) \<noteq> 0"
  defines "s' \<equiv> task_timer_tick c s" and "t \<equiv> current c s"
  shows "current c s' = t" "length (cpus s') = length (cpus s)" "t_state (tasks s' t) = TASK_RUNNING"
    "t_id (tasks s' t) = t_id (tasks s t)" "t_total_ticks (tasks s' t) = t_total_ticks (tasks s t) + 1"
    "timeslice (tasks s' t) = (if timeslice (tasks s t) = 0 then 0 else timeslice (tasks s t) - 1)"
    "need_resched (cpus s' ! c) = (if timeslice (tasks s' t) = 0 then 1 else need_resched (cpus s ! c))"
  using assms(1-4) unfolding s'_def t_def
  by (auto simp: task_timer_tick_def Let_def current_def upd_cpu_def upd_task_def task_request_reschedule_def word_gt_0)

text \<open>
  A running task that is not idle keeps the CPU for exactly its timeslice: every tick is counted,
  the reschedule flag stays as it was while slice is left, and is set from the tick that uses it up.
\<close>

theorem timeslice_exact:
  assumes "c < length (cpus s)" and "current c s \<noteq> 0"
    and "t_state (tasks s (current c s)) = TASK_RUNNING" and "t_id (tasks s (current c s)) \<noteq> 0"
    and "timeslice (tasks s (current c s)) \<noteq> 0"
  shows "need_resched (cpus ((task_timer_tick c ^^ n) s) ! c) =
      (if n < unat (timeslice (tasks s (current c s))) then need_resched (cpus s ! c) else 1) \<and>
    t_total_ticks (tasks ((task_timer_tick c ^^ n) s) (current c s)) =
      t_total_ticks (tasks s (current c s)) + word_of_nat n"
proof -
  define t where "t = current c s"
  define f where "f = (\<lambda>n. (task_timer_tick c ^^ n) s)"
  have "current c (f n) = t \<and> length (cpus (f n)) = length (cpus s) \<and> t_state (tasks (f n) t) = TASK_RUNNING \<and>
    t_id (tasks (f n) t) = t_id (tasks s t) \<and> t_total_ticks (tasks (f n) t) = t_total_ticks (tasks s t) + word_of_nat n \<and>
    unat (timeslice (tasks (f n) t)) = unat (timeslice (tasks s t)) - n \<and>
    need_resched (cpus (f n) ! c) = (if n < unat (timeslice (tasks s t)) then need_resched (cpus s ! c) else 1)"
  proof (induction n)
    case 0
    then show ?case using assms(3,5) by (simp add: f_def t_def unat_eq_0 neq0_conv [symmetric])
  next
    case (Suc n)
    have c: "c < length (cpus (f n))" "current c (f n) \<noteq> 0" "t_state (tasks (f n) (current c (f n))) = TASK_RUNNING"
      "t_id (tasks (f n) (current c (f n))) \<noteq> 0" using Suc assms(1,2,4) by (simp_all add: t_def)
    note k = ticks_running [OF c]
    have f: "f (Suc n) = task_timer_tick c (f n)" by (simp add: f_def)
    have cur: "current c (f n) = t" using Suc by blast
    have u: "unat (timeslice (tasks (f (Suc n)) t)) = unat (timeslice (tasks s t)) - Suc n"
      using k(6) Suc unfolding f cur by (auto simp: unat_sub_if' unat_eq_0 word_le_nat_alt unat_gt_0)
    show ?case using k Suc u unfolding f cur by (auto simp: unat_eq_0 [symmetric])
  qed
  then show ?thesis by (simp add: f_def t_def)
qed

subsection \<open>Placing and creating tasks\<close>

text \<open>
  pick_least_loaded_cpu answers the first of the CPUs whose load, read as the C \<open>int\<close>, is least.
\<close>

theorem pick_least_loaded_minimal:
  assumes "cpus s \<noteq> []"
  defines "p \<equiv> pick_least_loaded_cpu s"
  shows "p < length (cpus s) \<and> (\<forall>i < length (cpus s). sint (cpu_load s p) \<le> sint (cpu_load s i)) \<and>
    (\<forall>i < p. sint (cpu_load s p) < sint (cpu_load s i))"
proof -
  define step where "step = (\<lambda>i (least :: nat, min_load :: u32).
            if sint (cpu_load s i) < sint min_load then (i, cpu_load s i) else (least, min_load))"
  define good where "good = (\<lambda>n (k, l). k < n \<and> l = cpu_load s k \<and>
    (\<forall>i < n. sint (cpu_load s k) \<le> sint (cpu_load s i)) \<and> (\<forall>i < k. sint (cpu_load s k) < sint (cpu_load s i)))"
  have "good (Suc n) (fold step [1..<Suc n] (0, cpu_load s 0))" for n
  proof (induction n)
    case (Suc n)
    obtain k l where k: "fold step [1..<Suc n] (0, cpu_load s 0) = (k, l)" by fastforce
    have "fold step [1..<Suc (Suc n)] (0, cpu_load s 0) = step (Suc n) (k, l)" using k by simp
    then show ?case using Suc unfolding k by (auto simp: good_def step_def less_Suc_eq)
  qed (simp add: good_def)
  from this [of "length (cpus s) - 1"] assms(1)
  have "good (length (cpus s)) (fold step [1..<length (cpus s)] (0, cpu_load s 0))" by simp
  then show ?thesis unfolding p_def pick_least_loaded_cpu_def good_def step_def by (auto split: prod.splits)
qed

lemma pick_least_loaded_bound: "cpus s \<noteq> [] \<Longrightarrow> pick_least_loaded_cpu s < length (cpus s)"
proof -
  assume ne: "cpus s \<noteq> []"
  have "fst (fold (\<lambda>i (least :: nat, min_load :: u32).
            if sint (cpu_load s i) < sint min_load then (i, cpu_load s i) else (least, min_load)) xs (k, l))
        < length (cpus s)" if "set xs \<subseteq> {..<length (cpus s)}" "k < length (cpus s)" for xs k l
    using that by (induction xs arbitrary: k l) auto
  then show ?thesis using ne by (simp add: pick_least_loaded_cpu_def subset_iff)
qed

text \<open>Changing descriptors that no CPU and no queue refers to.\<close>

lemma sched_inv_frame:
  assumes inv: "sched_inv s" and c: "cpus s' = cpus s"
    and t: "\<And>t. \<not> unreachable t s \<Longrightarrow> tasks s' t = tasks s t"
  shows "sched_inv s'" "queues s' = queues s"
proof -
  note I = sched_invD [OF inv]
  have q: "tasks s' t = tasks s t" if "t \<in> set (concat (queues s))" for t
    using t that by (simp add: unreachable_def)
  have ci: "tasks s' (current j s) = tasks s (current j s)" "tasks s' (idle j s) = tasks s (idle j s)"
    if "j < length (cpus s)" for j using t that by (auto simp: unreachable_def)
  have j: "rq_ok (queue_of j s') \<and> rq_list (queue_of j s') = queues s ! j" if "j < length (cpus s)" for j
  proof -
    have "rq_ok (tasks s, runqueue (cpus s ! j))" "rq_list (tasks s, runqueue (cpus s ! j)) = queues s ! j"
      using I(1) that by (simp_all add: queues_ok_def queue_of_def queues_nth)
    then show ?thesis
      using rq_frame [of "tasks s" "runqueue (cpus s ! j)" "tasks s'"] q subsetD [OF nth_concat_subset [of j "queues s"]] that
      by (simp add: queue_of_def c)
  qed
  show qs: "queues s' = queues s"
    by (rule nth_equalityI) (use j in \<open>simp_all add: c queues_nth\<close>)
  have "queues_ok s'" using I(1) j by (simp add: queues_ok_def qs c)
  moreover have cur: "current j s' = current j s" "idle j s' = idle j s" for j by (simp_all add: current_def idle_def c)
  ultimately show "sched_inv s'"
    using inv ci q unfolding sched_inv_def cur qs c by (metis (no_types, lifting))
qed

lemma cpu_load_frame:
  assumes "cpus s' = cpus s" and "\<And>t. t \<noteq> x \<Longrightarrow> tasks s' t = tasks s t"
    and "unreachable x s" and "cpus s \<noteq> []"
  shows "pick_least_loaded_cpu s' = pick_least_loaded_cpu s"
proof -
  have l: "cpu_load s' i = cpu_load s i" if "i < length (cpus s)" for i
    using assms(1-3) that by (simp add: cpu_load_def unreachable_def current_def Let_def)
  have "fold (\<lambda>i (least :: nat, min_load :: u32).
            if sint (cpu_load s' i) < sint min_load then (i, cpu_load s' i) else (least, min_load)) xs a =
        fold (\<lambda>i (least, min_load).
            if sint (cpu_load s i) < sint min_load then (i, cpu_load s i) else (least, min_load)) xs a"
    if "set xs \<subseteq> {..<length (cpus s)}" for xs a
    using that by (intro fold_cong) (auto simp: l fun_eq_iff subset_iff)
  from this [of "[1..<length (cpus s)]"] show ?thesis
    using assms(1,4) l [of 0] by (simp add: pick_least_loaded_cpu_def subset_iff)
qed

lemma start_task_correct:
  fixes sp :: u64
  assumes inv: "sched_inv s" and ne: "cpus s \<noteq> []" and t: "unreachable t s" "t \<noteq> 0" "t_id (tasks s t) \<noteq> 0"
    and room: "length (concat (queues s)) + length (cpus s) + 1 < 2 ^ 32 - 1"
  defines "p \<equiv> pick_least_loaded_cpu s" and "s' \<equiv> start_task t sp s"
  shows "sched_inv s'" "queues s' = (queues s)[p := queues s ! p @ [t]]" "heap s' = heap s" "kvm s' = kvm s"
    "next_id s' = next_id s" "t_id (tasks s' t) = t_id (tasks s t)" "t_state (tasks s' t) = TASK_READY"
    "rsp (tasks s' t) = sp" "kernel_rsp (tasks s' t) = kernel_rsp (tasks s t)"
    "timeslice (tasks s' t) = TASK_DEFAULT_TIMESLICE" "t_pml4 (tasks s' t) = t_pml4 (tasks s t)"
proof -
  define s1 where "s1 = upd_task t (\<lambda>tk. tk\<lparr>rsp := sp, t_state := TASK_READY,
                 timeslice := TASK_DEFAULT_TIMESLICE, t_total_ticks := 0\<rparr>) s"
  have "cpus s1 = cpus s" by (simp add: s1_def)
  then have p1: "pick_least_loaded_cpu s1 = p"
    unfolding p_def by (rule cpu_load_frame [OF _ _ t(1) ne]) (simp add: s1_def)
  define s2 where "s2 = upd_task t (\<lambda>tk. tk\<lparr>t_cpu_id := ucast (c_id (cpus s1 ! p))\<rparr>) s1"
  have s': "s' = set_queue p (enqueue_task t (queue_of p s2)) s2"
    by (simp add: s'_def start_task_def Let_def p1 flip: s1_def s2_def)
  have c2: "cpus s2 = cpus s" by (simp add: s2_def s1_def)
  have "tasks s2 x = tasks s x" if "\<not> unreachable x s" for x using that t(1) by (auto simp: s2_def s1_def)
  then have f: "sched_inv s2" "queues s2 = queues s" using sched_inv_frame [OF inv c2] by blast+
  note I = sched_invD [OF f(1)]
  have p: "p < length (cpus s2)" using pick_least_loaded_bound [OF ne] by (simp add: p_def c2)
  have x: "t \<notin> set (concat (queues s2))" "length (concat (queues s2)) < 2 ^ 32 - 1"
    using t(1) room f(2) by (simp_all add: unreachable_def)
  note e = enqueue_on [OF I(1) p t(2) x, folded s']
  note run = same_runD [OF e(3)]
  have cc: "current j s' = current j s2" "idle j s' = idle j s2" "length (cpus s') = length (cpus s2)" for j
    using p by (simp_all add: s')
  have nt: "current j s2 \<noteq> t" if "j < length (cpus s2)" for j using t(1) that by (simp add: unreachable_def current_def c2)
  have sq: "set (concat (queues s')) = insert t (set (concat (queues s2)))"
    "length (concat (queues s')) = Suc (length (concat (queues s2)))"
    using concat_update_snoc [of p "queues s2" t] p e(2) by simp_all
  have "t_state (tasks s2 t) = TASK_READY \<and> t_id (tasks s2 t) \<noteq> 0" using t(3) by (simp add: s2_def s1_def)
  then have "\<forall>x \<in> set (concat (queues s')). t_state (tasks s' x) = TASK_READY \<and> t_id (tasks s' x) \<noteq> 0"
    unfolding sq run using I(2) by blast
  moreover have "\<forall>c < length (cpus s'). current c s' \<noteq> 0 \<and> idle c s' \<noteq> 0 \<and> t_id (tasks s' (idle c s')) = 0 \<and>
        current c s' \<notin> set (concat (queues s')) \<and> t_state (tasks s' (current c s')) \<noteq> TASK_READY \<and>
        (t_id (tasks s' (current c s')) = 0 \<longrightarrow> current c s' = idle c s')"
    unfolding cc run sq using I(3) nt by blast
  moreover have "length (concat (queues s')) + length (cpus s') < 2 ^ 32 - 1"
    unfolding sq cc using room f(2) c2 by simp
  ultimately show "sched_inv s'" using e(1) I(4,5) unfolding sched_inv_def inj_on_def cc by blast
  show "queues s' = (queues s)[p := queues s ! p @ [t]]" using e(2) f(2) by simp
  show "heap s' = heap s" "kvm s' = kvm s" "t_id (tasks s' t) = t_id (tasks s t)" "t_state (tasks s' t) = TASK_READY"
    "rsp (tasks s' t) = sp" "kernel_rsp (tasks s' t) = kernel_rsp (tasks s t)"
    "timeslice (tasks s' t) = TASK_DEFAULT_TIMESLICE" "t_pml4 (tasks s' t) = t_pml4 (tasks s t)"
    unfolding run by (simp_all add: s' s2_def s1_def)
  show "next_id s' = next_id s" by (simp add: s' set_queue_def s2_def s1_def upd_task_def)
qed

text \<open>
  Every descriptor in use lies in a live payload of the heap, so a new one is none of them.
\<close>

definition tasks_live :: "'a ksys_scheme \<Rightarrow> bool" where
  "tasks_live s \<longleftrightarrow> heap_inv (heap s) \<and> (\<forall>t. \<not> unreachable t s \<longrightarrow> (\<exists>k. (unat t, k) \<in> live (heap s)))"

lemma kmalloc_k_total: "heap_inv (heap s) \<Longrightarrow> \<exists>p h. kmalloc_k n s = Some (p, s\<lparr>heap := h\<rparr>) \<and>
    kmalloc n (heap s) = Some (p, h) \<and> heap_inv h \<and> live (heap s) \<subseteq> live h"
  using heap.malloc_total [of "heap s" n] heap.malloc_inv [of "heap s" n] by (fastforce simp: kmalloc_k_def)

lemma fresh_task:
  assumes "tasks_live s" and "kmalloc n (heap s) = Some (p, h)" and "p \<noteq> 0"
  shows "unreachable p s"
proof (rule ccontr)
  assume "\<not> unreachable p s"
  then obtain k where k: "(unat p, k) \<in> live (heap s)" "heap_inv (heap s)"
    using assms(1) by (auto simp: tasks_live_def)
  from heap.malloc_fresh [OF k(2) assms(2,3) k(1)] show False by simp
qed

lemma push_zeroes: "(push64 0 ^^ 17) x = push64 0 (push64 0 (push64 0 (push64 0 (push64 0 (push64 0 (push64 0 (push64 0 (push64 0 (push64 0 (push64 0 (push64 0 (push64 0 (push64 0 (push64 0 (push64 0 (push64 0 x))))))))))))))))"
proof -
  have "(17::nat) = Suc (Suc (Suc (Suc (Suc (Suc (Suc (Suc (Suc (Suc (Suc (Suc (Suc (Suc (Suc (Suc (Suc (0)))))))))))))))))" by simp
  then show ?thesis by (simp only: funpow.simps o_apply id_apply)
qed

lemma initial_frame_fst: "fst (initial_frame ss ursp cs entry stk_top m) = stk_top - 176"
  by (simp add: initial_frame_def push_zeroes) (simp add: push64_def)

lemma initial_frame_words:
  "snd (initial_frame ss ursp cs entry stk_top m) (stk_top - 8) = ss"
  "snd (initial_frame ss ursp cs entry stk_top m) (stk_top - 16) = ursp"
  "snd (initial_frame ss ursp cs entry stk_top m) (stk_top - 24) = 0x202"
  "snd (initial_frame ss ursp cs entry stk_top m) (stk_top - 32) = cs"
  "snd (initial_frame ss ursp cs entry stk_top m) (stk_top - 40) = entry"
  by (simp_all add: initial_frame_def push_zeroes) (simp_all add: push64_def)

lemma task_fields_upd [simp]:
  "next_id (upd_task t f s) = next_id s" "next_id (set_pmem m s) = next_id s"
  "tasks (set_pmem m s) = tasks s" "cpus (set_pmem m s) = cpus s" "heap (set_pmem m s) = heap s"
  "pmem (kvm (set_pmem m s)) = m"
  by (simp_all add: upd_task_def set_pmem_def)

text \<open>
  task_create on a kernel in good order always returns; when the descriptor was granted, it is one
  that no CPU and no queue refers to, it carries the next id, is READY with a full timeslice, stands
  at the back of the queue of the least loaded CPU and nowhere else, its saved stack pointer is 176
  bytes under the top of its stack, where an interrupt frame that starts \<open>entry\<close> in kernel mode
  with interrupts enabled is laid out, and the scheduler invariant holds.
\<close>

theorem task_create_queued:
  assumes inv: "sched_inv s" and lv: "tasks_live s" and ne: "cpus s \<noteq> []" and id: "next_id s \<noteq> 0"
    and room: "length (concat (queues s)) + length (cpus s) + 1 < 2 ^ 32 - 1"
  shows "\<exists>t s'. task_create entry s = Some (t, s') \<and> (t \<noteq> 0 \<longrightarrow> unreachable t s \<and> sched_inv s' \<and>
    queues s' = (queues s)[pick_least_loaded_cpu s := queues s ! pick_least_loaded_cpu s @ [t]] \<and>
    t_id (tasks s' t) = next_id s \<and> next_id s' = next_id s + 1 \<and> t_state (tasks s' t) = TASK_READY \<and>
    timeslice (tasks s' t) = TASK_DEFAULT_TIMESLICE \<and> t_pml4 (tasks s' t) = cr3 (kvm s) \<and>
    rsp (tasks s' t) = kernel_rsp (tasks s' t) - 176 \<and>
    pmem (kvm s') (kernel_rsp (tasks s' t) - 40) = entry \<and>
    pmem (kvm s') (kernel_rsp (tasks s' t) - 32) = 0x08 \<and>
    pmem (kvm s') (kernel_rsp (tasks s' t) - 24) = 0x202)"
proof -
  have hi: "heap_inv (heap s)" using lv by (simp add: tasks_live_def)
  from kmalloc_k_total [OF hi, of TASK_SIZE] obtain t h where t: "kmalloc_k TASK_SIZE s = Some (t, s\<lparr>heap := h\<rparr>)"
    "kmalloc TASK_SIZE (heap s) = Some (t, h)" "heap_inv h" by blast
  define s2 where "s2 = upd_task t (\<lambda>tk. tk\<lparr>t_pml4 := cr3 (kvm s)\<rparr>) (fresh_id t (s\<lparr>heap := h\<rparr>))"
  have "heap_inv (heap s2)" using t(3) by (simp add: s2_def fresh_id_def)
  from kmalloc_k_total [OF this, of STACK_SIZE] obtain stk h2 where
    stk: "kmalloc_k STACK_SIZE s2 = Some (stk, s2\<lparr>heap := h2\<rparr>)" by blast
  define stk_top where "stk_top = stk + STACK_SIZE"
  define fr where "fr = initial_frame 0x10 (stk_top - 8) 0x08 entry stk_top (pmem (kvm s))"
  define s4 where "s4 = set_pmem (snd fr) (upd_task t (\<lambda>tk. tk\<lparr>stack_bottom := stk,
     user_stack_bottom := 0, kernel_rsp := stk_top\<rparr>) (s2\<lparr>heap := h2\<rparr>))"
  have k2: "kvm s2 = kvm s" by (simp add: s2_def fresh_id_def)
  have tc: "task_create entry s = Some (t, start_task t (stk_top - 176) s4)"
    using t(1) stk initial_frame_fst [of "0x10" "stk_top - 8" "0x08" entry stk_top "pmem (kvm s)"]
    by (simp add: task_create_def Let_def split_beta s4_def stk_top_def fr_def k2 flip: s2_def)
  have s4: "cpus s4 = cpus s" "next_id s4 = next_id s + 1" "t_id (tasks s4 t) = next_id s"
    "t_pml4 (tasks s4 t) = cr3 (kvm s)" "kernel_rsp (tasks s4 t) = stk_top" "pmem (kvm s4) = snd fr"
    "\<And>x. x \<noteq> t \<Longrightarrow> tasks s4 x = tasks s x"
    by (simp_all add: s4_def s2_def fresh_id_def)
  have "t \<noteq> 0 \<Longrightarrow> unreachable t s \<and> sched_inv s4 \<and> queues s4 = queues s \<and> unreachable t s4 \<and>
    pick_least_loaded_cpu s4 = pick_least_loaded_cpu s"
  proof -
    assume "t \<noteq> 0"
    then have u: "unreachable t s" using fresh_task [OF lv t(2)] by blast
    then have "tasks s4 x = tasks s x" if "\<not> unreachable x s" for x using that s4(7) by metis
    then have f: "sched_inv s4" "queues s4 = queues s" using sched_inv_frame [OF inv s4(1)] by blast+
    moreover have "unreachable t s4" using u f(2) by (simp add: unreachable_def s4(1) current_def idle_def)
    ultimately show ?thesis using u cpu_load_frame [OF s4(1) s4(7) u ne] by blast
  qed
  note g = this
  have "t \<noteq> 0 \<Longrightarrow> ?thesis"
  proof -
    assume nz: "t \<noteq> 0"
    note g = g [OF nz]
    have pre: "cpus s4 \<noteq> []" "t_id (tasks s4 t) \<noteq> 0"
      "length (concat (queues s4)) + length (cpus s4) + 1 < 2 ^ 32 - 1" using ne id room g s4 by simp_all
    note r = start_task_correct [of s4 t "stk_top - 176", OF _ pre(1) _ nz pre(2) pre(3)]
    show ?thesis unfolding tc using r g s4 initial_frame_words [of "0x10" "stk_top - 8" "0x08" entry stk_top "pmem (kvm s)"]
      by (simp add: fr_def)
  qed
  then show ?thesis using tc by blast
qed

subsection \<open>The scheduler step by step\<close>

text \<open>
  task_schedule holds no lock between the requeueing of the outgoing task and the switch, so other
  CPUs act in between. \<open>inside c\<close> tells that CPU \<open>c\<close> has requeued its task and not yet switched; all
  that time it executes on the kernel stack of \<open>current c\<close>.
\<close>

inductive sched_step :: "'a ksys_scheme \<times> (nat \<Rightarrow> bool) \<Rightarrow> 'a ksys_scheme \<times> (nat \<Rightarrow> bool) \<Rightarrow> bool" where
  requeue: "c < length (cpus s) \<Longrightarrow> \<not> inside c \<Longrightarrow> current c s \<noteq> 0 \<Longrightarrow>
    sched_step (s, inside) (requeue_current c r s, inside(c := True))"
| switch: "inside c \<Longrightarrow> pick_loop wd c s = Some (nxt, s1) \<Longrightarrow>
    sched_step (s, inside) (snd (switch_to c nxt s1), inside(c := False))"

inductive_cases sched_stepE: "sched_step (s, inside) (s', inside')"

text \<open>Run to its end without interference, the two steps are task_schedule.\<close>

lemma sched_step_sequential:
  assumes "c < length (cpus s)" and "current c s \<noteq> 0" and "\<not> inside c" and "task_schedule wd c r s = Some (a, s')"
  shows "sched_step\<^sup>*\<^sup>* (s, inside) (s', inside)"
proof -
  from assms(2,4) obtain n s1 where p: "pick_loop wd c (requeue_current c r s) = Some (n, s1)"
    "s' = snd (switch_to c n s1)" by (auto simp: task_schedule_def split: Option.bind_splits)
  have "sched_step (s, inside) (requeue_current c r s, inside(c := True))" using assms by (intro requeue)
  moreover have "sched_step (requeue_current c r s, inside(c := True)) (s', (inside(c := True))(c := False))"
    unfolding p(2) by (rule switch) (use p(1) in auto)
  moreover have "(inside(c := True))(c := False) = inside" using assms(3) by (simp add: fun_eq_iff)
  ultimately show ?thesis by (metis rtranclp.simps)
qed

lemma steal_race_step:
  assumes inv: "sched_inv s" and c: "c < length (cpus s)" and d: "d < length (cpus s)" "c \<noteq> d"
    and run: "still_runnable c s" "\<not> still_runnable d s" and e: "concat (queues s) = []"
  obtains s' where "sched_step\<^sup>*\<^sup>* (s, \<lambda>_. False) (s', (\<lambda>_. False)(c := True))"
    "current c s' = current c s" "current d s' = current c s" "rsp (tasks s' (current d s')) = r"
proof -
  note I = sched_invD [OF inv]
  let ?t = "current c s"
  define s1 where "s1 = requeue_current c r s"
  have pre: "?t \<noteq> 0" "?t \<notin> set (concat (queues s))" "length (concat (queues s)) < 2 ^ 32 - 1"
    using I(3) [OF c] I(6) by simp_all
  note rc = requeue_current_abs [OF I(1) c pre, of r, folded s1_def]
  have qe: "queues s ! j = []" if "j < length (cpus s)" for j using e that nth_mem [of j "queues s"] by (simp add: concat_eq_Nil_conv)
  have q1: "queues s1 = (queues s)[c := [?t]]" using rc(2) run(1) qe [OF c] by (simp add: requeued_def)
  have u1: "set (concat (queues s1)) = {?t}" "length (concat (queues s1)) = 1"
    using concat_update_snoc [of c "queues s" ?t] c qe [OF c] e by (simp_all add: q1)
  have l1: "length (cpus s1) = length (cpus s)" "current j s1 = current j s" "idle j s1 = idle j s" for j
    using rc(3) by (simp_all add: same_cpus_def)
  have dc: "current d s \<noteq> ?t" using I(4) [OF d(1) c] d(2) by auto
  define s2 where "s2 = requeue_current d 0 s1"
  have d1: "d < length (cpus s1)" using d l1 by simp
  have pre1: "current d s1 \<noteq> 0" "current d s1 \<notin> set (concat (queues s1))" "length (concat (queues s1)) < 2 ^ 32 - 1"
    using I(3) [OF d(1)] dc unfolding u1 l1 by simp_all
  note rd = requeue_current_abs [OF rc(1) d1 pre1, of 0, folded s2_def]
  note r1 = same_runD [OF rc(4)] and r2 = same_runD [OF rd(4)]
  have "\<not> still_runnable d s1" using run(2) dc r1(1,2) [of "current d s"] by (simp add: still_runnable_def l1)
  then have q2: "queues s2 = (queues s)[c := [?t]]" using rd(2) q1 by (simp add: requeued_def)
  have l2: "length (cpus s2) = length (cpus s)" "current j s2 = current j s" "idle j s2 = idle j s" for j
    using rd(3) l1 by (simp_all add: same_cpus_def)
  have t2: "t_state (tasks s2 ?t) = TASK_READY" "rsp (tasks s2 ?t) = r"
    using r2(2,3) [of ?t] r1(2,3) [of ?t] dc run(1) by (simp_all add: l1 still_runnable_def)
  have d2: "d < length (cpus s2)" using d l2 by simp
  have "\<forall>t \<in> set (concat (queues s2)). t_state (tasks s2 t) = TASK_READY" using t2 u1 q1 q2 by (simp del: set_concat)
  note pick = pick_loop_abs [OF rd(1) d2 this, of "\<lambda>_. Some"]
  have find: "find (\<lambda>j. j \<noteq> d \<and> (queues s)[c := [?t]] ! j \<noteq> []) [0..<length (cpus s)] = Some c"
    using c d qe by (auto simp: find_Some_iff nth_list_update intro!: exI [of _ c])
  have ap: "fst (abs_pick d (queues s2)) = ?t" using find c d qe [OF d(1)] by (simp add: abs_pick_def q2)
  from pick [unfolded ap] obtain s3 where s3: "pick_loop (\<lambda>_. Some) d s2 = Some (?t, s3)"
    "same_run (tasks s2) (tasks s3)" "same_cpus s2 s3" by blast
  have d3: "d < length (cpus s3)" using d2 s3(3) by (simp add: same_cpus_def)
  note sw = switch_to_facts [OF d3 refl, where nxt = ?t]
  define s' where "s' = snd (switch_to d ?t s3)"
  have st1: "sched_step (s, \<lambda>_. False) (s1, (\<lambda>_. False)(c := True))"
    unfolding s1_def by (rule requeue) (use c pre in auto)
  have st2: "sched_step (s1, (\<lambda>_. False)(c := True)) (s2, (\<lambda>_. False)(c := True, d := True))"
    unfolding s2_def by (rule requeue) (use d d1 pre1 in auto)
  have "sched_step (s2, (\<lambda>_. False)(c := True, d := True)) (s', ((\<lambda>_. False)(c := True, d := True))(d := False))"
    unfolding s'_def by (rule switch) (use s3 in auto)
  moreover have "((\<lambda>_. False)(c := True, d := True))(d := False) = (\<lambda>_. False)(c := True)"
    using d(2) by (simp add: fun_eq_iff)
  ultimately have "sched_step\<^sup>*\<^sup>* (s, \<lambda>_. False) (s', (\<lambda>_. False)(c := True))"
    using st1 st2 by (metis (no_types, lifting) rtranclp.simps)
  moreover have cs: "current c s' = ?t" "current d s' = ?t"
    using sw(6) s3(3) l2 d(2) pre(1) by (simp_all add: s'_def same_cpus_def)
  moreover have "rsp (tasks s' (current d s')) = r"
    unfolding cs using sw(5) pre(1) same_runD(3) [OF s3(2), of ?t] t2 by (simp add: s'_def)
  ultimately show thesis by (rule that)
qed

text \<open>
  C12. Two CPUs can come to run on one stack. task_schedule puts the outgoing task into a queue while it
  still executes on that task's kernel stack; an idle CPU that schedules at that moment takes the
  task over, with the stack pointer just saved. This can happen in every state in which CPU c runs
  a task, CPU d is idle and nothing is queued.
\<close>

theorem steal_race:
  assumes "sched_inv s" and "c < length (cpus s)" and "d < length (cpus s)" and "c \<noteq> d"
    and "still_runnable c s" and "\<not> still_runnable d s" and "concat (queues s) = []"
  shows "\<exists>s' inside. sched_step\<^sup>*\<^sup>* (s, \<lambda>_. False) (s', inside) \<and> inside c \<and> \<not> inside d \<and>
    current c s' = current d s' \<and> rsp (tasks s' (current d s')) = r"
  using assms(4) by (rule_tac steal_race_step [OF assms, of r]) (auto intro!: exI)

subsection \<open>Examples\<close>

definition demo_task :: "u64 \<Rightarrow> task_state \<Rightarrow> u64 \<Rightarrow> task" where
  "demo_task i st nxt = \<lparr>t_id = i, rsp = 0x9000, stack_bottom = 0, user_stack_bottom = 0, kernel_rsp = 0xA000,
     t_pml4 = 0x1000, t_state = st, t_cpu_id = 0, timeslice = 4, t_total_ticks = 0, t_next = nxt\<rparr>"

definition demo_cpu :: "u8 \<Rightarrow> u64 \<Rightarrow> u64 \<Rightarrow> runqueue \<Rightarrow> cpu" where
  "demo_cpu i idl cur q = \<lparr>c_id = i, need_resched = 0, current_task = cur, c_total_ticks = 0,
     c_idle_ticks = 0, runqueue = q, idle_task = idl, kernel_stack = 0, tss_rsp0 = 0\<rparr>"

definition demo_sys :: "cpu list \<Rightarrow> task_state \<Rightarrow> ksys" where
  "demo_sys cs st = \<lparr>kvm = \<lparr>pmem = (\<lambda>_. 0), frames = flat_pmm 0, current_pml4 = 0x1000, cr3 = 0x1000\<rparr>,
     heap = heap0,
     tasks = (\<lambda>p. if p = 0x300 then demo_task 1 st 0 else if p = 0x400 then demo_task 2 TASK_READY 0x500
        else if p = 0x500 then demo_task 3 TASK_READY 0 else demo_task 0 TASK_RUNNING 0),
     cpus = cs, next_id = 4\<rparr>"

text \<open>One CPU on which task 1 runs while 2 and 3 wait; two CPUs, the second one idle.\<close>

definition demo1 :: "task_state \<Rightarrow> ksys" where
  "demo1 st = demo_sys [demo_cpu 0 0x100 0x300 \<lparr>rq_head = 0x400, rq_tail = 0x500, rq_count = 2\<rparr>] st"

definition demo2 :: ksys where
  "demo2 = demo_sys [demo_cpu 0 0x100 0x300 \<lparr>rq_head = 0, rq_tail = 0, rq_count = 0\<rparr>,
     demo_cpu 1 0x200 0x200 \<lparr>rq_head = 0, rq_tail = 0, rq_count = 0\<rparr>] TASK_RUNNING"

lemma rq_walk_two: "rq_walk 2 ts p = (if p = 0 then [] else p # (if t_next (ts p) = 0 then [] else [t_next (ts p)]))"
  by (simp add: numeral_2_eq_2)

lemma demo1_queues: "queues (demo1 st) = [[0x400, 0x500]]" "queues_ok (demo1 st)"
  by (simp_all add: queues_ok_def queues_def rq_ok_def rq_rep_def rq_list_def queue_of_def demo1_def demo_sys_def
      demo_cpu_def demo_task_def rq_walk_two)

lemma demo2_queues: "queues demo2 = [[], []]" "queues_ok demo2"
proof -
  have u: "[0..<2] = [0, 1::nat]" by (simp add: numeral_2_eq_2)
  show "queues demo2 = [[], []]"
    by (simp add: queues_def rq_list_def queue_of_def demo2_def demo_sys_def demo_cpu_def u)
  then show "queues_ok demo2"
    by (auto simp: queues_ok_def rq_ok_def rq_rep_def rq_list_def queue_of_def demo2_def demo_sys_def
      demo_cpu_def nth_Cons split: nat.splits)
qed

lemma demo1_inv:
  assumes "st \<noteq> TASK_READY"
  shows "sched_inv (demo1 st)"
  unfolding sched_inv_def demo1_queues
  by (intro conjI demo1_queues(2); use assms in \<open>simp add: inj_on_def current_def idle_def demo1_def demo_sys_def demo_cpu_def demo_task_def\<close>)

lemma demo2_inv: "sched_inv demo2"
proof -
  have c: "(\<forall>c < length (cpus demo2). P c) \<longleftrightarrow> P 0 \<and> P 1" for P
    by (auto simp: demo2_def demo_sys_def less_Suc_eq)
  show ?thesis
    unfolding sched_inv_def demo2_queues inj_on_def Ball_def lessThan_iff c
    by (intro conjI demo2_queues(2);
      simp add: inj_on_def current_def idle_def demo2_def demo_sys_def demo_cpu_def demo_task_def less_Suc_eq)
qed

text \<open>A CPU whose idle task, the only task, is the first payload of a heap.\<close>

definition demo3 :: "kheap \<Rightarrow> ksys" where
  "demo3 h = (demo_sys [demo_cpu 0 0x1000018 0x1000018 \<lparr>rq_head = 0, rq_tail = 0, rq_count = 0\<rparr>]
     TASK_RUNNING)\<lparr>heap := h\<rparr>"

lemma demo3_inv: "sched_inv (demo3 h)" "queues (demo3 h) = [[]]"
proof -
  show q: "queues (demo3 h) = [[]]"
    by (simp add: queues_def rq_list_def queue_of_def demo3_def demo_sys_def demo_cpu_def)
  have "queues_ok (demo3 h)" unfolding queues_ok_def q
    by (simp add: rq_ok_def rq_rep_def rq_list_def queue_of_def demo3_def demo_sys_def demo_cpu_def)
  then show "sched_inv (demo3 h)" unfolding sched_inv_def q
    by (intro conjI) (simp_all add: inj_on_def current_def idle_def demo3_def demo_sys_def demo_cpu_def demo_task_def)
qed

lemma demo1_fields: "current 0 (demo1 st) = 0x300" "t_state (tasks (demo1 st) 0x300) = st"
  "t_id (tasks (demo1 st) 0x300) = 1" "length (cpus (demo1 st)) = 1" "timeslice (tasks (demo1 st) 0x300) = 4"
  "need_resched (cpus (demo1 st) ! 0) = 0" "t_total_ticks (tasks (demo1 st) 0x300) = 0"
  by (simp_all add: current_def demo1_def demo_sys_def demo_cpu_def demo_task_def)

theorem schedule_refines_witness:
  "\<exists>s'. task_schedule (\<lambda>_. Some) 0 0x7000 (demo1 TASK_RUNNING) = Some (0x9000, s') \<and>
     queues s' = [[0x500, 0x300]] \<and> current 0 s' = 0x400 \<and> rsp (tasks s' 0x300) = 0x7000"
proof -
  let ?s = "demo1 TASK_RUNNING"
  have r: "requeued 0 ?s = [[0x400, 0x500, 0x300]]"
    by (simp add: requeued_def still_runnable_def demo1_fields demo1_queues)
  have "next_task 0 ?s = 0x400" by (simp add: next_task_def abs_pick_def r)
  moreover have "rsp (tasks ?s 0x400) = 0x9000" "0 < length (cpus ?s)"
    by (simp_all add: demo1_def demo_sys_def demo_task_def)
  ultimately show ?thesis using schedule_refines [OF demo1_inv, of TASK_RUNNING 0 "\<lambda>_. Some" "0x7000"]
    by (auto simp: demo1_fields r abs_pick_def)
qed

theorem schedule_round_robin_witness:
  "\<exists>s'. schedules (\<lambda>_. Some) (map (Pair 0) [1, 2]) (demo1 TASK_RUNNING) = Some s' \<and>
     current 0 s' # queues s' ! 0 = [0x500, 0x300, 0x400]"
  using schedule_round_robin [OF demo1_inv, of TASK_RUNNING "\<lambda>_. Some" "[1, 2]"]
  by (auto simp: demo1_fields demo1_queues rotate_def)

theorem exited_task_never_reaped_witness:
  "\<exists>s'. schedules (\<lambda>_. Some) [(0, 1), (0, 2), (0, 3)] (demo1 TASK_EXITED) = Some s' \<and> unreachable 0x300 s' \<and>
     heap s' = heap (demo1 TASK_EXITED)"
  using exited_task_never_reaped [OF demo1_inv, of TASK_EXITED 0 "[(0, 2), (0, 3)]" "\<lambda>_. Some" 1]
  by (auto simp: demo1_fields)

theorem timeslice_exact_witness:
  "need_resched (cpus ((task_timer_tick 0 ^^ 3) (demo1 TASK_RUNNING)) ! 0) = 0 \<and>
   need_resched (cpus ((task_timer_tick 0 ^^ 4) (demo1 TASK_RUNNING)) ! 0) = 1"
  using timeslice_exact [of 0 "demo1 TASK_RUNNING" 3] timeslice_exact [of 0 "demo1 TASK_RUNNING" 4]
  by (simp add: demo1_fields del: funpow.simps)

theorem pick_least_loaded_minimal_witness:
  "pick_least_loaded_cpu demo2 = 1 \<and> cpu_load demo2 1 = 0"
proof -
  have l: "cpu_load demo2 0 = 1" "cpu_load demo2 1 = 0" "length (cpus demo2) = 2" "cpus demo2 \<noteq> []"
    by (simp_all add: cpu_load_def demo2_def demo_sys_def demo_cpu_def demo_task_def)
  have "pick_least_loaded_cpu demo2 < 2" "sint (cpu_load demo2 (pick_least_loaded_cpu demo2)) \<le> sint (cpu_load demo2 1)"
    using pick_least_loaded_minimal [OF l(4)] unfolding l(3) by simp_all
  moreover have "k = 1" if "k < 2" "sint (cpu_load demo2 k) \<le> sint (cpu_load demo2 1)" for k
    using that l(1,2) by (cases k) simp_all
  ultimately show ?thesis using l(2) by blast
qed

theorem task_create_queued_witness:
  "\<exists>h s'. task_create 0x400000 (demo3 h) = Some (0x1000098, s') \<and> queues s' = [[0x1000098]] \<and>
     t_id (tasks s' 0x1000098) = 4"
proof -
  obtain h where h: "heap_inv h" "heap_blocks h = [(104, False), (0xFFFF68, True)]" using heap1_example by blast
  have "unat (0x1000018 :: u64) = 0x1000018" by simp
  then have "(unat (0x1000018 :: u64), 104) \<in> live h" using h(2) by (simp add: live_def HEAP_LO_def)
  moreover have e: "heap (demo3 h) = h" by (simp add: demo3_def)
  moreover have "t = 0x1000018" if "\<not> unreachable t (demo3 h)" for t
    using that by (auto simp: demo3_inv unreachable_def)
      (simp_all add: demo3_def demo_sys_def demo_cpu_def current_def idle_def)
  ultimately have l: "tasks_live (demo3 h)" using h(1) unfolding tasks_live_def by metis
  have p: "pick_least_loaded_cpu (demo3 h) = 0" "length (cpus (demo3 h)) = 1" "next_id (demo3 h) = 4" "cpus (demo3 h) \<noteq> []"
    by (simp_all add: pick_least_loaded_cpu_def demo3_def demo_sys_def)
  have "align8 TASK_SIZE = 80" by (simp add: align8_def TASK_SIZE_def)
  then obtain h' where k: "kmalloc TASK_SIZE h = Some (0x1000098, h')"
    using kmalloc_some [OF h(1), of TASK_SIZE "0x1000098"] h(2) by (auto simp: carve_def HEAP_LO_def)
  have "t = 0x1000098" if "task_create 0x400000 (demo3 h) = Some (t, s')" for t s'
    using that k e by (auto simp: task_create_def kmalloc_k_def Let_def split: Option.bind_splits prod.splits)
  moreover obtain t s' where "task_create 0x400000 (demo3 h) = Some (t, s')"
    "t \<noteq> 0 \<longrightarrow> queues s' = [[t]] \<and> t_id (tasks s' t) = 4"
    using task_create_queued [OF demo3_inv(1) l p(4), of "0x400000"] p(1-3) by (auto simp: demo3_inv)
  ultimately show ?thesis by auto
qed

theorem steal_race_witness:
  "\<exists>s' inside. sched_step\<^sup>*\<^sup>* (demo2, \<lambda>_. False) (s', inside) \<and> inside 0 \<and> \<not> inside 1 \<and>
     current 0 s' = current 1 s' \<and> rsp (tasks s' (current 1 s')) = 0x7000"
proof -
  have "still_runnable 0 demo2" "\<not> still_runnable 1 demo2" "0 < length (cpus demo2)" "1 < length (cpus demo2)"
    by (simp_all add: still_runnable_def current_def demo2_def demo_sys_def demo_cpu_def demo_task_def)
  then show ?thesis by (intro steal_race [OF demo2_inv]) (simp_all add: demo2_queues)
qed

end
