(* ===== verification/Graphics.thy ===== *)
theory Graphics
  imports Prelude Pmm Kmalloc Vmm Kstring Elf
begin

text \<open>
  Model of \<open>src/kernel/graphics.c\<close>: the back buffer and the framebuffer, the drawing primitives
  and the copying of dirty rectangles. An \<open>int32_t\<close> is a 32-bit word read with \<open>sint\<close>; its sums
  wrap. The back buffer and the pixel buffers of windows are arrays of pixels by index, the
  framebuffer is an array of pixels by byte address. They are distinct objects.
\<close>

subsection \<open>State\<close>

type_synonym i32 = "32 word"
type_synonym pixels = "u64 \<Rightarrow> u32"

record rect_t =
  r_x :: i32
  r_y :: i32
  r_w :: i32
  r_h :: i32

definition make_rect :: "i32 \<Rightarrow> i32 \<Rightarrow> i32 \<Rightarrow> i32 \<Rightarrow> rect_t" where
  "make_rect x y w h = \<lparr>r_x = x, r_y = y, r_w = w, r_h = h\<rparr>"

text \<open>\<open>backbuffer\<close> is the pointer (0 for NULL), \<open>back_px\<close> the array it points to, \<open>front_px\<close> the framebuffer.\<close>

record gfx =
  fb_addr :: u64
  backbuffer :: u64
  fb_width :: u32
  fb_height :: u32
  fb_pitch :: u32
  fb_bpp :: u8
  back_px :: pixels
  front_px :: pixels

record multiboot_tag_framebuffer =
  tag_addr :: u64
  tag_pitch :: u32
  tag_width :: u32
  tag_height :: u32
  tag_bpp :: u8

subsection \<open>Initialization\<close>

text \<open>\<open>fb_pitch * fb_height\<close> is a 32-bit product, widened afterwards. The page attributes are PWT and PCD.\<close>

definition graphics_init :: "multiboot_tag_framebuffer \<Rightarrow> gfx \<Rightarrow> vmm \<Rightarrow> kheap \<Rightarrow> (gfx \<times> vmm \<times> kheap) option" where
  "graphics_init tag g v h = do {
     let g1 = g\<lparr>fb_width := tag_width tag, fb_height := tag_height tag, fb_pitch := tag_pitch tag,
                fb_bpp := tag_bpp tag, fb_addr := tag_addr tag\<rparr>;
     let fb_size = (ucast (fb_pitch g1 * fb_height g1) :: u64);
     v1 \<leftarrow> vmm_map_range (cr3 v) (fb_addr g1) (tag_addr tag) fb_size
                (PAGE_WRITABLE OR PAGE_PRESENT OR push_bit 3 1 OR push_bit 4 1) v;
     (p, h1) \<leftarrow> kmalloc fb_size h;
     Some (g1\<lparr>backbuffer := p\<rparr>, v1, h1) }"

subsection \<open>Clipping\<close>

text \<open>The clipped rectangle, and whether any of it is left.\<close>

definition clip_rect :: "gfx \<Rightarrow> rect_t \<Rightarrow> bool \<times> rect_t" where
  "clip_rect g r =
     (let x2 = r_x r + r_w r; y2 = r_y r + r_h r;
          r1 = (if sint (r_x r) < 0 then r\<lparr>r_x := 0\<rparr> else r);
          r2 = (if sint (r_y r1) < 0 then r1\<lparr>r_y := 0\<rparr> else r1);
          x2' = (if sint x2 > sint (fb_width g) then fb_width g else x2);
          y2' = (if sint y2 > sint (fb_height g) then fb_height g else y2);
          r3 = r2\<lparr>r_w := x2' - r_x r2, r_h := y2' - r_y r2\<rparr>
      in (0 < sint (r_w r3) \<and> 0 < sint (r_h r3), r3))"

subsection \<open>Pixels\<close>

text \<open>The index \<open>y * fb_width + x\<close> is a 32-bit expression.\<close>

definition graphics_put_pixel :: "u32 \<Rightarrow> u32 \<Rightarrow> u32 \<Rightarrow> gfx \<Rightarrow> gfx" where
  "graphics_put_pixel x y color g =
     (if backbuffer g = 0 \<or> x \<ge> fb_width g \<or> y \<ge> fb_height g then g
      else g\<lparr>back_px := (back_px g)(ucast (y * fb_width g + x) := color)\<rparr>)"

definition graphics_draw_rect :: "u32 \<Rightarrow> u32 \<Rightarrow> u32 \<Rightarrow> u32 \<Rightarrow> u32 \<Rightarrow> gfx \<Rightarrow> gfx" where
  "graphics_draw_rect x y w h color g =
     (if backbuffer g = 0 then g
      else fold (\<lambda>i. fold (\<lambda>j. graphics_put_pixel (x + word_of_nat j) (y + word_of_nat i) color)
                [0..<unat w]) [0..<unat h] g)"

definition graphics_draw_cursor :: "u32 \<Rightarrow> u32 \<Rightarrow> gfx \<Rightarrow> gfx" where
  "graphics_draw_cursor x y g =
     (if backbuffer g = 0 then g
      else fold (\<lambda>i. fold (\<lambda>j. if j < i div 2 + 1
                  then graphics_put_pixel (x + word_of_nat j) (y + word_of_nat i) 0xFFFFFFFF else (\<lambda>g. g))
                [0..<10]) [0..<15] g)"

definition graphics_clear :: "u32 \<Rightarrow> gfx \<Rightarrow> gfx" where
  "graphics_clear color g =
     (if backbuffer g = 0 then g
      else g\<lparr>back_px := (\<lambda>i. if i < ucast (fb_width g * fb_height g) then color else back_px g i)\<rparr>)"

text \<open>Row \<open>y + py\<close> of the back buffer starts at index \<open>(uint64_t)(y + py) * fb_width\<close>.\<close>

definition row_index :: "gfx \<Rightarrow> rect_t \<Rightarrow> nat \<Rightarrow> u64" where
  "row_index g r py = scast (r_y r + word_of_nat py) * ucast (fb_width g) + scast (r_x r)"

definition graphics_clear_rect :: "i32 \<Rightarrow> i32 \<Rightarrow> i32 \<Rightarrow> i32 \<Rightarrow> u32 \<Rightarrow> gfx \<Rightarrow> gfx" where
  "graphics_clear_rect x y w h color g =
     (if backbuffer g = 0 then g
      else let (some, r) = clip_rect g (make_rect x y w h) in
        if \<not> some then g
        else fold (\<lambda>py. fold (\<lambda>px g'. g'\<lparr>back_px := (back_px g')(row_index g r py + word_of_nat px := color)\<rparr>)
               [0..<nat (sint (r_w r))]) [0..<nat (sint (r_h r))] g)"

subsection \<open>Copying to the framebuffer\<close>

text \<open>\<open>memcpy\<close> of \<open>n\<close> pixels of the back buffer from index \<open>i\<close> to framebuffer address \<open>a\<close>.\<close>

definition blit :: "u64 \<Rightarrow> u64 \<Rightarrow> nat \<Rightarrow> gfx \<Rightarrow> gfx" where
  "blit a i n g = fold (\<lambda>k g. g\<lparr>front_px := (front_px g)(a + 4 * word_of_nat k := back_px g (i + word_of_nat k))\<rparr>) [0..<n] g"

definition graphics_swap :: "gfx \<Rightarrow> gfx" where
  "graphics_swap g =
     (if backbuffer g = 0 \<or> fb_addr g = 0 then g
      else blit (fb_addr g) 0 (unat (fb_pitch g * fb_height g) div 4) g)"

definition swap_rect :: "rect_t \<Rightarrow> gfx \<Rightarrow> gfx" where
  "swap_rect rect g =
     (let (some, r) = clip_rect g rect in
      if \<not> some then g
      else fold (\<lambda>row. blit (fb_addr g + scast (r_y r + word_of_nat row) * ucast (fb_pitch g) + scast (r_x r) * 4)
                           (row_index g r row) (nat (sint (r_w r))))
             [0..<nat (sint (r_h r))] g)"

definition graphics_swap_rects :: "rect_t list \<Rightarrow> gfx \<Rightarrow> gfx" where
  "graphics_swap_rects rects g =
     (if backbuffer g = 0 \<or> fb_addr g = 0 then g else fold swap_rect rects g)"

definition graphics_draw_line_buffer :: "u32 \<Rightarrow> u32 \<Rightarrow> u32 \<Rightarrow> pixels \<Rightarrow> gfx \<Rightarrow> gfx" where
  "graphics_draw_line_buffer x y w buffer g =
     (if backbuffer g = 0 \<or> x + w > fb_width g \<or> y \<ge> fb_height g then g
      else fold (\<lambda>k g. g\<lparr>back_px := (back_px g)(ucast y * ucast (fb_width g) + ucast x + word_of_nat k := buffer (word_of_nat k))\<rparr>)
             [0..<unat w] g)"

definition graphics_get_width :: "gfx \<Rightarrow> u32" where "graphics_get_width g = fb_width g"
definition graphics_get_height :: "gfx \<Rightarrow> u32" where "graphics_get_height g = fb_height g"
definition graphics_get_fb_addr :: "gfx \<Rightarrow> u64" where "graphics_get_fb_addr g = fb_addr g"

subsection \<open>Drawing into pixel buffers\<close>

text \<open>Glyphs, by character code; every other code below 128 is blank.\<close>

definition font8x8_glyphs :: "(nat \<times> u8 list) list" where
  "font8x8_glyphs =
    [(0x20, [0x00, 0x00, 0x00, 0x00, 0x00, 0x00, 0x00, 0x00]),
     (0x41, [0x18, 0x3C, 0x66, 0x7E, 0x66, 0x66, 0x66, 0x00]),
     (0x42, [0x7C, 0x66, 0x66, 0x7C, 0x66, 0x66, 0x7C, 0x00]),
     (0x43, [0x3C, 0x66, 0x60, 0x60, 0x60, 0x66, 0x3C, 0x00]),
     (0x44, [0x78, 0x6C, 0x66, 0x66, 0x66, 0x6C, 0x78, 0x00]),
     (0x45, [0x7E, 0x60, 0x60, 0x7C, 0x60, 0x60, 0x7E, 0x00]),
     (0x46, [0x7E, 0x60, 0x60, 0x7C, 0x60, 0x60, 0x60, 0x00]),
     (0x47, [0x3C, 0x66, 0x60, 0x6E, 0x66, 0x66, 0x3C, 0x00]),
     (0x48, [0x66, 0x66, 0x66, 0x7E, 0x66, 0x66, 0x66, 0x00]),
     (0x49, [0x3C, 0x18, 0x18, 0x18, 0x18, 0x18, 0x3C, 0x00]),
     (0x4A, [0x1E, 0x0C, 0x0C, 0x0C, 0x0C, 0x6C, 0x38, 0x00]),
     (0x4B, [0x66, 0x6C, 0x78, 0x70, 0x78, 0x6C, 0x66, 0x00]),
     (0x4C, [0x60, 0x60, 0x60, 0x60, 0x60, 0x60, 0x7E, 0x00]),
     (0x4D, [0x63, 0x77, 0x7F, 0x6B, 0x63, 0x63, 0x63, 0x00]),
     (0x4E, [0x63, 0x73, 0x7B, 0x6F, 0x67, 0x63, 0x63, 0x00]),
     (0x4F, [0x3C, 0x66, 0x66, 0x66, 0x66, 0x66, 0x3C, 0x00]),
     (0x50, [0x7C, 0x66, 0x66, 0x7C, 0x60, 0x60, 0x60, 0x00]),
     (0x51, [0x3C, 0x66, 0x66, 0x66, 0x66, 0x3C, 0x0E, 0x00]),
     (0x52, [0x7C, 0x66, 0x66, 0x7C, 0x78, 0x6C, 0x66, 0x00]),
     (0x53, [0x3C, 0x66, 0x60, 0x3C, 0x06, 0x66, 0x3C, 0x00]),
     (0x54, [0x7E, 0x18, 0x18, 0x18, 0x18, 0x18, 0x18, 0x00]),
     (0x55, [0x66, 0x66, 0x66, 0x66, 0x66, 0x66, 0x3C, 0x00]),
     (0x56, [0x66, 0x66, 0x66, 0x66, 0x66, 0x3C, 0x18, 0x00]),
     (0x57, [0x63, 0x63, 0x63, 0x6B, 0x7F, 0x77, 0x63, 0x00]),
     (0x58, [0x66, 0x66, 0x3C, 0x18, 0x3C, 0x66, 0x66, 0x00]),
     (0x59, [0x66, 0x66, 0x66, 0x3C, 0x18, 0x18, 0x18, 0x00]),
     (0x5A, [0x7E, 0x06, 0x0C, 0x18, 0x30, 0x60, 0x7E, 0x00]),
     (0x30, [0x3C, 0x66, 0x6E, 0x76, 0x66, 0x66, 0x3C, 0x00]),
     (0x31, [0x18, 0x38, 0x18, 0x18, 0x18, 0x18, 0x3C, 0x00]),
     (0x32, [0x3C, 0x66, 0x06, 0x0C, 0x18, 0x30, 0x7E, 0x00]),
     (0x33, [0x3C, 0x66, 0x06, 0x1C, 0x06, 0x66, 0x3C, 0x00]),
     (0x34, [0x0C, 0x1C, 0x2C, 0x4C, 0x7E, 0x0C, 0x0C, 0x00]),
     (0x35, [0x7E, 0x60, 0x60, 0x7C, 0x06, 0x06, 0x7C, 0x00]),
     (0x36, [0x3C, 0x66, 0x60, 0x7C, 0x66, 0x66, 0x3C, 0x00]),
     (0x37, [0x7E, 0x06, 0x0C, 0x18, 0x18, 0x18, 0x18, 0x00]),
     (0x38, [0x3C, 0x66, 0x66, 0x3C, 0x66, 0x66, 0x3C, 0x00]),
     (0x39, [0x3C, 0x66, 0x66, 0x3E, 0x06, 0x66, 0x3C, 0x00]),
     (0x3E, [0x60, 0x30, 0x18, 0x0C, 0x18, 0x30, 0x60, 0x00]),
     (0x3A, [0x00, 0x18, 0x18, 0x00, 0x18, 0x18, 0x00, 0x00]),
     (0x2C, [0x00, 0x00, 0x00, 0x00, 0x00, 0x18, 0x18, 0x30]),
     (0x2E, [0x00, 0x00, 0x00, 0x00, 0x00, 0x18, 0x18, 0x00]),
     (0x61, [0x00, 0x00, 0x3C, 0x06, 0x3E, 0x66, 0x3E, 0x00]),
     (0x62, [0x60, 0x60, 0x7C, 0x66, 0x66, 0x66, 0x7C, 0x00]),
     (0x63, [0x00, 0x00, 0x3C, 0x60, 0x60, 0x66, 0x3C, 0x00]),
     (0x64, [0x06, 0x06, 0x3E, 0x66, 0x66, 0x66, 0x3E, 0x00]),
     (0x65, [0x00, 0x00, 0x3C, 0x66, 0x7E, 0x60, 0x3C, 0x00]),
     (0x66, [0x0E, 0x18, 0x3E, 0x18, 0x18, 0x18, 0x18, 0x00]),
     (0x67, [0x00, 0x00, 0x3E, 0x66, 0x66, 0x3E, 0x06, 0x3C]),
     (0x68, [0x60, 0x60, 0x7C, 0x66, 0x66, 0x66, 0x66, 0x00]),
     (0x69, [0x18, 0x00, 0x38, 0x18, 0x18, 0x18, 0x3C, 0x00]),
     (0x6A, [0x06, 0x00, 0x06, 0x06, 0x06, 0x06, 0x06, 0x3C]),
     (0x6B, [0x60, 0x60, 0x66, 0x6C, 0x78, 0x6C, 0x66, 0x00]),
     (0x6C, [0x38, 0x18, 0x18, 0x18, 0x18, 0x18, 0x3C, 0x00]),
     (0x6D, [0x00, 0x00, 0x66, 0x7F, 0x7F, 0x6B, 0x63, 0x00]),
     (0x6E, [0x00, 0x00, 0x7C, 0x66, 0x66, 0x66, 0x66, 0x00]),
     (0x6F, [0x00, 0x00, 0x3C, 0x66, 0x66, 0x66, 0x3C, 0x00]),
     (0x70, [0x00, 0x00, 0x7C, 0x66, 0x66, 0x7C, 0x60, 0x60]),
     (0x71, [0x00, 0x00, 0x3E, 0x66, 0x66, 0x3E, 0x06, 0x06]),
     (0x72, [0x00, 0x00, 0x7C, 0x66, 0x60, 0x60, 0x60, 0x00]),
     (0x73, [0x00, 0x00, 0x3E, 0x60, 0x3C, 0x06, 0x7C, 0x00]),
     (0x74, [0x18, 0x18, 0x3E, 0x18, 0x18, 0x18, 0x0E, 0x00]),
     (0x75, [0x00, 0x00, 0x66, 0x66, 0x66, 0x66, 0x3E, 0x00]),
     (0x76, [0x00, 0x00, 0x66, 0x66, 0x66, 0x3C, 0x18, 0x00]),
     (0x77, [0x00, 0x00, 0x63, 0x6B, 0x7F, 0x3E, 0x36, 0x00]),
     (0x78, [0x00, 0x00, 0x66, 0x3C, 0x18, 0x3C, 0x66, 0x00]),
     (0x79, [0x00, 0x00, 0x66, 0x66, 0x66, 0x3E, 0x06, 0x3C]),
     (0x7A, [0x00, 0x00, 0x7E, 0x0C, 0x18, 0x30, 0x7E, 0x00])]"

definition font8x8_basic :: "nat \<Rightarrow> u8 list" where
  "font8x8_basic c = (case map_of font8x8_glyphs c of Some rows \<Rightarrow> rows | None \<Rightarrow> replicate 8 0)"

definition draw_glyph_row :: "u32 \<Rightarrow> u32 \<Rightarrow> u32 \<Rightarrow> u8 \<Rightarrow> u32 \<Rightarrow> pixels \<Rightarrow> pixels" where
  "draw_glyph_row w x py row color =
     fold (\<lambda>j b. if bit row (7 - j) then
               let px = x + word_of_nat j in
               if px < w then b(ucast (py * w + px) := color) else b
             else b) [0..<8]"

definition graphics_draw_char :: "u32 \<Rightarrow> u32 \<Rightarrow> u32 \<Rightarrow> u8 \<Rightarrow> u32 \<Rightarrow> pixels \<Rightarrow> pixels" where
  "graphics_draw_char w x y c color b =
     (if c \<ge> 128 then b
      else fold (\<lambda>i. draw_glyph_row w x (y + word_of_nat i) (font8x8_basic (unat c) ! i) color) [0..<8] b)"

text \<open>The characters of a string up to its terminator.\<close>

definition graphics_draw_string :: "u32 \<Rightarrow> u32 \<Rightarrow> u32 \<Rightarrow> u8 list \<Rightarrow> u32 \<Rightarrow> pixels \<Rightarrow> pixels" where
  "graphics_draw_string w x y str color b =
     fold (\<lambda>(i, c). graphics_draw_char w (x + word_of_nat i * 8) y c color) (enumerate 0 (takeWhile (\<lambda>c. c \<noteq> 0) str)) b"

definition graphics_fill_rect_buffer :: "u32 \<Rightarrow> u32 \<Rightarrow> u32 \<Rightarrow> u32 \<Rightarrow> u32 \<Rightarrow> u32 \<Rightarrow> pixels \<Rightarrow> pixels" where
  "graphics_fill_rect_buffer buf_w x y w h color b =
     fold (\<lambda>i. fold (\<lambda>j b. b(ucast (y + word_of_nat i) * ucast buf_w + ucast x + word_of_nat j := color))
            [0..<unat w]) [0..<unat h] b"

subsection \<open>Rectangles as sets of points\<close>

definition points :: "rect_t \<Rightarrow> (int \<times> int) set" where
  "points r = {(px, py). sint (r_x r) \<le> px \<and> px < sint (r_x r) + sint (r_w r) \<and>
                         sint (r_y r) \<le> py \<and> py < sint (r_y r) + sint (r_h r)}"

definition screen :: "gfx \<Rightarrow> (int \<times> int) set" where
  "screen g = {(px, py). 0 \<le> px \<and> px < sint (fb_width g) \<and> 0 \<le> py \<and> py < sint (fb_height g)}"

text \<open>No side of the rectangle is negative and its far corner is a coordinate.\<close>

definition rect_ok :: "rect_t \<Rightarrow> bool" where
  "rect_ok r \<longleftrightarrow> 0 \<le> sint (r_w r) \<and> 0 \<le> sint (r_h r) \<and>
     sint (r_x r) + sint (r_w r) < 2 ^ 31 \<and> sint (r_y r) + sint (r_h r) < 2 ^ 31"

text \<open>
  The screen sizes are those of a display: the product of the sides fits 32 bits, a row of pixels
  fits the pitch, and the framebuffer does not wrap around the address space.
\<close>

definition gfx_ok :: "gfx \<Rightarrow> bool" where
  "gfx_ok g \<longleftrightarrow> 0 \<le> sint (fb_width g) \<and> 0 \<le> sint (fb_height g) \<and>
     sint (fb_width g) * sint (fb_height g) < 2 ^ 32 \<and>
     4 * unat (fb_width g) \<le> unat (fb_pitch g) \<and>
     unat (fb_addr g) + unat (fb_pitch g) * unat (fb_height g) < 2 ^ 64"

lemma points_nonempty: "points r \<noteq> {} \<longleftrightarrow> 0 < sint (r_w r) \<and> 0 < sint (r_h r)"
proof
  assume "0 < sint (r_w r) \<and> 0 < sint (r_h r)"
  then have "(sint (r_x r), sint (r_y r)) \<in> points r" by (simp add: points_def)
  then show "points r \<noteq> {}" by blast
qed (auto simp: points_def)

lemma clip_rect_points:
  assumes g: "gfx_ok g" and r: "rect_ok r" and c: "clip_rect g r = (b, r')"
  shows "b \<longleftrightarrow> points r \<inter> screen g \<noteq> {}"
    and "b \<Longrightarrow> points r' = points r \<inter> screen g"
    and "b \<Longrightarrow> 0 \<le> sint (r_x r') \<and> 0 \<le> sint (r_y r') \<and> 0 < sint (r_w r') \<and> 0 < sint (r_h r') \<and>
      sint (r_x r') + sint (r_w r') \<le> sint (fb_width g) \<and> sint (r_y r') + sint (r_h r') \<le> sint (fb_height g)"
proof -
  have rg: "- (2 ^ 31) \<le> sint (v :: i32)" "sint v < 2 ^ 31" for v by (rule sint_range32)+
  let ?x2 = "r_x r + r_w r" and ?y2 = "r_y r + r_h r"
  have x2: "sint ?x2 = sint (r_x r) + sint (r_w r)" and y2: "sint ?y2 = sint (r_y r) + sint (r_h r)"
    using r rg [of "r_x r"] rg [of "r_y r"] by (auto simp: rect_ok_def intro!: sint_plus)
  let ?x1 = "if sint (r_x r) < 0 then 0 else r_x r" and ?y1 = "if sint (r_y r) < 0 then 0 else r_y r"
  let ?x3 = "if sint ?x2 > sint (fb_width g) then fb_width g else ?x2"
  let ?y3 = "if sint ?y2 > sint (fb_height g) then fb_height g else ?y2"
  have r': "r' = \<lparr>r_x = ?x1, r_y = ?y1, r_w = ?x3 - ?x1, r_h = ?y3 - ?y1\<rparr>"
    and b: "b \<longleftrightarrow> 0 < sint (?x3 - ?x1) \<and> 0 < sint (?y3 - ?y1)"
    using c by (auto simp: clip_rect_def Let_def)
  have w: "sint (?x3 - ?x1) = sint ?x3 - sint ?x1"
    using g r rg [of ?x3] rg [of "r_x r"] x2 by (intro sint_minus) (auto simp: gfx_ok_def rect_ok_def)
  have h: "sint (?y3 - ?y1) = sint ?y3 - sint ?y1"
    using g r rg [of ?y3] rg [of "r_y r"] y2 by (intro sint_minus) (auto simp: gfx_ok_def rect_ok_def)
  have x3: "sint ?x3 = min (sint (fb_width g)) (sint (r_x r) + sint (r_w r))" using x2 by auto
  have y3: "sint ?y3 = min (sint (fb_height g)) (sint (r_y r) + sint (r_h r))" using y2 by auto
  have x1: "sint ?x1 = max 0 (sint (r_x r))" and y1: "sint ?y1 = max 0 (sint (r_y r))" by auto
  have p: "points r' = points r \<inter> screen g" unfolding r' points_def screen_def
    by (auto simp: w h x1 y1 x3 y3 simp del: if_split)
  have "b \<longleftrightarrow> points r' \<noteq> {}" unfolding points_nonempty b r' by simp
  then show "b \<longleftrightarrow> points r \<inter> screen g \<noteq> {}" by (simp only: p)
  show "b \<Longrightarrow> points r' = points r \<inter> screen g" by (rule p)
  show "b \<Longrightarrow> 0 \<le> sint (r_x r') \<and> 0 \<le> sint (r_y r') \<and> 0 < sint (r_w r') \<and> 0 < sint (r_h r') \<and>
      sint (r_x r') + sint (r_w r') \<le> sint (fb_width g) \<and> sint (r_y r') + sint (r_h r') \<le> sint (fb_height g)"
    unfolding b r' rect_t.simps w h x1 y1 x3 y3 by auto
qed

subsection \<open>What the primitives paint\<close>

text \<open>Index of a pixel in the back buffer, and its address in the framebuffer.\<close>

definition pixel_index :: "gfx \<Rightarrow> nat \<Rightarrow> nat \<Rightarrow> u64" where
  "pixel_index g px py = word_of_nat (py * unat (fb_width g) + px)"

definition pixel_addr :: "gfx \<Rightarrow> nat \<Rightarrow> nat \<Rightarrow> u64" where
  "pixel_addr g px py = word_of_nat (unat (fb_addr g) + py * unat (fb_pitch g) + 4 * px)"

lemma grid_bound: "x < w \<Longrightarrow> y < h \<Longrightarrow> y * w + x < w * (h::nat)"
proof -
  assume a: "x < w" "y < h"
  then have "Suc y * w \<le> h * w" by (intro mult_le_mono) simp_all
  then show ?thesis using a by (simp add: mult.commute)
qed

lemma grid_eq:
  assumes "y * w + x = y' * w + (x'::nat)" "x < w" "x' < w"
  shows "x = x' \<and> y = y'"
proof -
  have "(y * w + x) mod w = x" "(y' * w + x') mod w = x'" using assms(2,3) by simp_all
  then have "x = x'" using assms(1) by simp
  then show ?thesis using assms by simp
qed

lemma gfx_okD:
  assumes "gfx_ok g"
  shows "unat (fb_width g) * unat (fb_height g) < 2 ^ 32" "4 * unat (fb_width g) \<le> unat (fb_pitch g)"
    "unat (fb_addr g) + unat (fb_pitch g) * unat (fb_height g) < 2 ^ 64"
    "nat (sint (fb_width g)) = unat (fb_width g)" "nat (sint (fb_height g)) = unat (fb_height g)"
    "int (unat (fb_width g)) = sint (fb_width g)" "int (unat (fb_height g)) = sint (fb_height g)"
proof -
  show w: "int (unat (fb_width g)) = sint (fb_width g)" and h: "int (unat (fb_height g)) = sint (fb_height g)"
    by (rule unat_sint32; use assms in \<open>simp add: gfx_ok_def\<close>)+
  then show "nat (sint (fb_width g)) = unat (fb_width g)" "nat (sint (fb_height g)) = unat (fb_height g)"
    by (metis nat_int)+
  have "int (unat (fb_width g) * unat (fb_height g)) < int (2 ^ 32)"
    unfolding of_nat_mult w h using assms by (simp add: gfx_ok_def)
  then show "unat (fb_width g) * unat (fb_height g) < 2 ^ 32" unfolding of_nat_less_iff .
  show "4 * unat (fb_width g) \<le> unat (fb_pitch g)"
    "unat (fb_addr g) + unat (fb_pitch g) * unat (fb_height g) < 2 ^ 64" using assms by (simp_all add: gfx_ok_def)
qed

text \<open>A rectangle inside the screen, with natural-number sides.\<close>

definition inside :: "gfx \<Rightarrow> rect_t \<Rightarrow> bool" where
  "inside g r \<longleftrightarrow> 0 \<le> sint (r_x r) \<and> 0 \<le> sint (r_y r) \<and> 0 < sint (r_w r) \<and> 0 < sint (r_h r) \<and>
     sint (r_x r) + sint (r_w r) \<le> sint (fb_width g) \<and> sint (r_y r) + sint (r_h r) \<le> sint (fb_height g)"

abbreviation rx :: "rect_t \<Rightarrow> nat" where "rx r \<equiv> nat (sint (r_x r))"
abbreviation ry :: "rect_t \<Rightarrow> nat" where "ry r \<equiv> nat (sint (r_y r))"
abbreviation rw :: "rect_t \<Rightarrow> nat" where "rw r \<equiv> nat (sint (r_w r))"
abbreviation rh :: "rect_t \<Rightarrow> nat" where "rh r \<equiv> nat (sint (r_h r))"

lemma points_inside:
  assumes "inside g r"
  shows "(int px, int py) \<in> points r \<longleftrightarrow> (\<exists>i < rh r. \<exists>j < rw r. px = rx r + j \<and> py = ry r + i)"
proof
  assume "(int px, int py) \<in> points r"
  then have "py - ry r < rh r" "px - rx r < rw r" "px = rx r + (px - rx r)" "py = ry r + (py - ry r)"
    using assms by (auto simp: points_def inside_def)
  then show "\<exists>i < rh r. \<exists>j < rw r. px = rx r + j \<and> py = ry r + i" by blast
qed (use assms in \<open>auto simp: points_def inside_def\<close>)

lemma row_pixel:
  assumes g: "gfx_ok g" and r: "inside g r" and i: "i < rh r" and j: "j < rw r"
  shows "ry r + i < unat (fb_height g)" "rx r + j < unat (fb_width g)"
    "row_index g r i + word_of_nat j = pixel_index g (rx r + j) (ry r + i)"
    "fb_addr g + scast (r_y r + word_of_nat i) * ucast (fb_pitch g) + scast (r_x r) * 4 + 4 * word_of_nat j =
     pixel_addr g (rx r + j) (ry r + i)"
proof -
  note d = gfx_okD [OF g]
  have b: "rx r + rw r \<le> unat (fb_width g)" "ry r + rh r \<le> unat (fb_height g)"
    using r unfolding d(4,5) [symmetric] by (auto simp: inside_def)
  then show y: "ry r + i < unat (fb_height g)" and x: "rx r + j < unat (fb_width g)" using i j by simp_all
  have i31: "i < 2 ^ 31" and hb: "unat (fb_height g) < 2 ^ 31"
    using i sint_range32(2) [of "r_h r"] sint_range32(2) [of "fb_height g"] unfolding d(5) [symmetric] by auto
  have s: "sint (r_y r + word_of_nat i) = int (ry r + i)"
    using r y hb i31 sint_of_nat32 [OF i31] by (subst sint_plus) (auto simp: inside_def)
  then have u: "unat (scast (r_y r + word_of_nat i) :: u64) = ry r + i"
    using unat_scast32 [of "r_y r + word_of_nat i", unfolded s] by (simp only: nat_int of_nat_0_le_iff simp_thms)
  have v: "unat (scast (r_x r) :: u64) = rx r" using unat_scast32 [of "r_x r"] r by (simp add: inside_def)
  have e: "(scast (r_y r + word_of_nat i) :: u64) = word_of_nat (ry r + i)" "(scast (r_x r) :: u64) = word_of_nat (rx r)"
    using word_of_natI [OF u] word_of_natI [OF v] by simp_all
  have w: "(ucast a :: u64) = word_of_nat (unat (a :: u32))" for a by (simp add: unat_eq_iff [symmetric])
  show "row_index g r i + word_of_nat j = pixel_index g (rx r + j) (ry r + i)"
    unfolding row_index_def pixel_index_def e w by (simp add: algebra_simps)
  have "fb_addr g = word_of_nat (unat (fb_addr g))" by simp
  then show "fb_addr g + scast (r_y r + word_of_nat i) * ucast (fb_pitch g) + scast (r_x r) * 4 + 4 * word_of_nat j =
     pixel_addr g (rx r + j) (ry r + i)"
    unfolding pixel_addr_def e w by (simp add: algebra_simps)
qed

lemma pixel_index_inj:
  assumes "gfx_ok g" "px < unat (fb_width g)" "py < unat (fb_height g)" "qx < unat (fb_width g)" "qy < unat (fb_height g)"
  shows "pixel_index g px py = pixel_index g qx qy \<longleftrightarrow> px = qx \<and> py = qy"
    "unat (pixel_index g px py) < unat (fb_width g) * unat (fb_height g)"
proof -
  have u: "unat (pixel_index g a b) = b * unat (fb_width g) + a \<and> b * unat (fb_width g) + a < unat (fb_width g) * unat (fb_height g)"
    if "a < unat (fb_width g)" "b < unat (fb_height g)" for a b
    using grid_bound [OF that] gfx_okD(1) [OF assms(1)] unfolding pixel_index_def
    by (subst unat_of_nat, subst mod_less) simp_all
  show "unat (pixel_index g px py) < unat (fb_width g) * unat (fb_height g)" using u [OF assms(2,3)] by simp
  show "pixel_index g px py = pixel_index g qx qy \<longleftrightarrow> px = qx \<and> py = qy"
    using u [OF assms(2,3)] u [OF assms(4,5)] grid_eq [of py "unat (fb_width g)" px qy qx] assms(2,4)
    by (auto simp flip: unat_eq_iff)
qed

lemma pixel_addr_inj:
  assumes "gfx_ok g" "px < unat (fb_width g)" "py < unat (fb_height g)" "qx < unat (fb_width g)" "qy < unat (fb_height g)"
  shows "pixel_addr g px py = pixel_addr g qx qy \<longleftrightarrow> px = qx \<and> py = qy"
proof -
  note d = gfx_okD [OF assms(1)]
  have p: "4 * a < unat (fb_pitch g)" if "a < unat (fb_width g)" for a using that d(2) by simp
  have u: "unat (pixel_addr g a b) = unat (fb_addr g) + (b * unat (fb_pitch g) + 4 * a)"
    if "a < unat (fb_width g)" "b < unat (fb_height g)" for a b
    using grid_bound [OF p [OF that(1)] that(2)] d(3) unfolding pixel_addr_def
    by (subst unat_of_nat, subst mod_less) simp_all
  show ?thesis
    using u [OF assms(2,3)] u [OF assms(4,5)] grid_eq [of py "unat (fb_pitch g)" "4 * px" qy "4 * qx"] p [OF assms(2)] p [OF assms(4)]
    by (auto simp flip: unat_eq_iff)
qed

text \<open>Loops over a rectangle that write one array, as writes over the product of the ranges.\<close>

lemma fold_back:
  "fold (\<lambda>k g. g\<lparr>back_px := (back_px g)(a k := v)\<rparr>) xs g = g\<lparr>back_px := fold (\<lambda>k f. f(a k := v)) xs (back_px g)\<rparr>"
  by (induction xs arbitrary: g) simp_all

lemma fold_front:
  "fold (\<lambda>k g. g\<lparr>front_px := (front_px g)(a k := back_px g (b k))\<rparr>) xs g =
   g\<lparr>front_px := fold (\<lambda>k f. f(a k := back_px g (b k))) xs (front_px g)\<rparr>"
  by (induction xs arbitrary: g) simp_all

lemma clear_inside:
  assumes g: "gfx_ok g" and r: "inside g r" and p: "px < unat (fb_width g)" "py < unat (fb_height g)"
  shows "fold (\<lambda>i. fold (\<lambda>j f. f(row_index g r i + word_of_nat j := c)) [0..<rw r]) [0..<rh r] f (pixel_index g px py) =
    (if (int px, int py) \<in> points r then c else f (pixel_index g px py))"
    and "unat i \<ge> unat (fb_width g) * unat (fb_height g) \<Longrightarrow>
      fold (\<lambda>i. fold (\<lambda>j f. f(row_index g r i + word_of_nat j := c)) [0..<rw r]) [0..<rh r] f i = f i"
proof -
  let ?a = "\<lambda>(i, j). row_index g r i + word_of_nat j" and ?P = "List.product [0..<rh r] [0..<rw r]"
  have e: "fold (\<lambda>i. fold (\<lambda>j f. f(row_index g r i + word_of_nat j := c)) [0..<rw r]) [0..<rh r] f =
      fold (\<lambda>k f. f(?a k := c)) ?P f"
    by (simp add: fold_nested case_prod_unfold)
  have m: "pixel_index g px py \<in> ?a ` set ?P \<longleftrightarrow> (int px, int py) \<in> points r"
  proof -
    have "pixel_index g px py = row_index g r i + word_of_nat j \<longleftrightarrow> px = rx r + j \<and> py = ry r + i"
      if "i < rh r" "j < rw r" for i j
      using row_pixel [OF g r that] pixel_index_inj(1) [OF g p] by simp
    then show ?thesis unfolding points_inside [OF r] by (auto simp: image_iff)
  qed
  show "fold (\<lambda>i. fold (\<lambda>j f. f(row_index g r i + word_of_nat j := c)) [0..<rw r]) [0..<rh r] f (pixel_index g px py) =
    (if (int px, int py) \<in> points r then c else f (pixel_index g px py))"
    unfolding e m [symmetric] by (rule fold_writes) simp
  assume i: "unat i \<ge> unat (fb_width g) * unat (fb_height g)"
  have "i \<notin> ?a ` set ?P"
  proof
    assume "i \<in> ?a ` set ?P"
    then obtain a b where ab: "a < rh r" "b < rw r" "i = row_index g r a + word_of_nat b" by auto
    note rp = row_pixel [OF g r ab(1,2)]
    from pixel_index_inj(2) [OF g rp(2,1) rp(2,1)] show False using i ab(3) rp(3) by simp
  qed
  then show "fold (\<lambda>i. fold (\<lambda>j f. f(row_index g r i + word_of_nat j := c)) [0..<rw r]) [0..<rh r] f i = f i"
    unfolding e using fold_writes [of ?P ?a i "\<lambda>_. c" c f] by simp
qed

lemma clip_inside:
  assumes "gfx_ok g" and "rect_ok r" and "clip_rect g r = (True, r')"
  shows "inside g r'" "points r' = points r \<inter> screen g"
  using clip_rect_points [OF assms] by (simp_all add: inside_def)

lemma on_screen: "gfx_ok g \<Longrightarrow> px < unat (fb_width g) \<Longrightarrow> py < unat (fb_height g) \<Longrightarrow> (int px, int py) \<in> screen g"
  by (simp only: screen_def mem_Collect_eq prod.case gfx_okD(6,7) [symmetric] of_nat_less_iff of_nat_0_le_iff simp_thms)

lemma fold_back2:
  "fold (\<lambda>i. fold (\<lambda>j g. g\<lparr>back_px := (back_px g)(a i j := v)\<rparr>) ys) xs g =
   g\<lparr>back_px := fold (\<lambda>i. fold (\<lambda>j f. f(a i j := v)) ys) xs (back_px g)\<rparr>"
  by (induction xs arbitrary: g) (simp_all add: fold_back)

lemma fold_front2:
  "fold (\<lambda>i. fold (\<lambda>j g. g\<lparr>front_px := (front_px g)(a i j := back_px g (b i j))\<rparr>) ys) xs g =
   g\<lparr>front_px := fold (\<lambda>i. fold (\<lambda>j f. f(a i j := back_px g (b i j))) ys) xs (front_px g)\<rparr>"
  by (induction xs arbitrary: g) (simp_all add: fold_front)

lemma clear_rect_back:
  "graphics_clear_rect x y w h c g =
     (let (some, r) = clip_rect g (make_rect x y w h) in
      if backbuffer g = 0 \<or> \<not> some then g
      else g\<lparr>back_px := fold (\<lambda>i. fold (\<lambda>j f. f(row_index g r i + word_of_nat j := c)) [0..<rw r]) [0..<rh r] (back_px g)\<rparr>)"
  by (simp add: graphics_clear_rect_def fold_back2 split: prod.splits)

lemma blit_loop:
  "blit a i n = fold (\<lambda>k g. g\<lparr>front_px := (front_px g)(a + 4 * word_of_nat k := back_px g (i + word_of_nat k))\<rparr>) [0..<n]"
  by (rule ext) (simp add: blit_def)

lemma swap_rect_front:
  "swap_rect rect g =
     (let (some, r) = clip_rect g rect in
      if \<not> some then g
      else g\<lparr>front_px := fold (\<lambda>i. fold (\<lambda>j f. f(fb_addr g + scast (r_y r + word_of_nat i) * ucast (fb_pitch g) +
              scast (r_x r) * 4 + 4 * word_of_nat j := back_px g (row_index g r i + word_of_nat j))) [0..<rw r]) [0..<rh r] (front_px g)\<rparr>)"
  by (simp add: swap_rect_def blit_loop fold_front2 split: prod.splits)

text \<open>
  Clearing a rectangle paints exactly the pixels of the screen that lie in it, whatever part of it is
  outside the screen, and writes nothing outside the pixels of the back buffer.
\<close>

theorem clear_rect_paints:
  assumes g: "gfx_ok g" and b: "backbuffer g \<noteq> 0" and r: "rect_ok (make_rect x y w h)"
    and p: "px < unat (fb_width g)" "py < unat (fb_height g)"
  shows "back_px (graphics_clear_rect x y w h c g) (pixel_index g px py) =
      (if (int px, int py) \<in> points (make_rect x y w h) then c else back_px g (pixel_index g px py)) \<and>
    (\<forall>i. unat (fb_width g) * unat (fb_height g) \<le> unat i \<longrightarrow>
      back_px (graphics_clear_rect x y w h c g) i = back_px g i)"
proof -
  obtain some r' where c: "clip_rect g (make_rect x y w h) = (some, r')" by (cases "clip_rect g (make_rect x y w h)")
  show ?thesis
  proof (cases some)
    case False
    then have "(int px, int py) \<notin> points (make_rect x y w h)"
      using clip_rect_points(1) [OF g r c] on_screen [OF g p] by auto
    then show ?thesis using False c by (simp add: clear_rect_back)
  next
    case True
    note ci = clip_inside [OF g r c [unfolded True [THEN eqTrueI]]]
    have "(int px, int py) \<in> points (make_rect x y w h) \<longleftrightarrow> (int px, int py) \<in> points r'"
      using ci(2) on_screen [OF g p] by auto
    then show ?thesis
      using b True c clear_inside [OF g ci(1) p, where c = c and f = "back_px g"] by (simp add: clear_rect_back)
  qed
qed

lemma swap_rect_fields [simp]:
  "fb_width (swap_rect r g) = fb_width g" "fb_height (swap_rect r g) = fb_height g" "fb_pitch (swap_rect r g) = fb_pitch g"
  "fb_addr (swap_rect r g) = fb_addr g" "back_px (swap_rect r g) = back_px g" "backbuffer (swap_rect r g) = backbuffer g"
  by (simp_all add: swap_rect_front split: prod.splits)

lemma swap_rect_fields_eq [simp]:
  "gfx_ok (swap_rect r g) = gfx_ok g" "pixel_addr (swap_rect r g) = pixel_addr g" "pixel_index (swap_rect r g) = pixel_index g"
  by (simp_all add: gfx_ok_def pixel_addr_def pixel_index_def fun_eq_iff)

lemma swap_rect_copies:
  assumes g: "gfx_ok g" and r: "rect_ok r" and p: "px < unat (fb_width g)" "py < unat (fb_height g)"
  shows "front_px (swap_rect r g) (pixel_addr g px py) =
    (if (int px, int py) \<in> points r then back_px g (pixel_index g px py) else front_px g (pixel_addr g px py))"
proof -
  obtain some r' where c: "clip_rect g r = (some, r')" by (cases "clip_rect g r")
  show ?thesis
  proof (cases some)
    case False
    then have "(int px, int py) \<notin> points r"
      using clip_rect_points(1) [OF g r c] on_screen [OF g p] by auto
    then show ?thesis using False c by (simp add: swap_rect_front)
  next
    case True
    note ci = clip_inside [OF g r c [unfolded True [THEN eqTrueI]]]
    let ?a = "\<lambda>(i, j). fb_addr g + scast (r_y r' + word_of_nat i) * ucast (fb_pitch g) + scast (r_x r') * 4 + 4 * word_of_nat j"
    let ?v = "\<lambda>(i, j). back_px g (row_index g r' i + word_of_nat j)" and ?P = "List.product [0..<rh r'] [0..<rw r']"
    have eq: "?a k = pixel_addr g px py \<longleftrightarrow> px = rx r' + snd k \<and> py = ry r' + fst k"
      "px = rx r' + snd k \<and> py = ry r' + fst k \<Longrightarrow> ?v k = back_px g (pixel_index g px py)" if "k \<in> set ?P" for k
    proof -
      have "fst k < rh r'" "snd k < rw r'" using that by auto
      note rp = row_pixel [OF g ci(1) this]
      show "?a k = pixel_addr g px py \<longleftrightarrow> px = rx r' + snd k \<and> py = ry r' + fst k"
        using rp(4) pixel_addr_inj [OF g rp(2,1) p] by (auto simp: case_prod_unfold)
      show "px = rx r' + snd k \<and> py = ry r' + fst k \<Longrightarrow> ?v k = back_px g (pixel_index g px py)"
        using rp(3) by (simp add: case_prod_unfold)
    qed
    have im: "q \<in> f ` S \<longleftrightarrow> (\<exists>k \<in> S. f k = q)" for q :: u64 and f and S :: "(nat \<times> nat) set" by auto
    have "pixel_addr g px py \<in> ?a ` set ?P \<longleftrightarrow> (\<exists>k \<in> set ?P. ?a k = pixel_addr g px py)" by (rule im)
    also have "\<dots> \<longleftrightarrow> (\<exists>k \<in> set ?P. px = rx r' + snd k \<and> py = ry r' + fst k)" using eq(1) by blast
    also have "\<dots> \<longleftrightarrow> (int px, int py) \<in> points r'" unfolding points_inside [OF ci(1)] by auto
    also have "\<dots> \<longleftrightarrow> (int px, int py) \<in> points r" using ci(2) on_screen [OF g p] by auto
    finally have m: "pixel_addr g px py \<in> ?a ` set ?P \<longleftrightarrow> (int px, int py) \<in> points r" .
    have f: "front_px (swap_rect r g) = fold (\<lambda>k f. f(?a k := ?v k)) ?P (front_px g)"
      using True c by (simp add: swap_rect_front fold_nested case_prod_unfold)
    show ?thesis unfolding m [symmetric] f by (rule fold_writes) (use eq in blast)
  qed
qed

text \<open>
  Copying a list of rectangles makes the framebuffer show the back buffer at exactly the pixels
  that some rectangle of the list contains, and leaves every other pixel of the screen as it was.
\<close>

lemma swap_rects_copies:
  assumes "gfx_ok g" and "backbuffer g \<noteq> 0" and "fb_addr g \<noteq> 0" and "list_all rect_ok rs"
    and "px < unat (fb_width g)" and "py < unat (fb_height g)"
  shows "front_px (graphics_swap_rects rs g) (pixel_addr g px py) =
    (if list_ex (\<lambda>r. (int px, int py) \<in> points r) rs
     then back_px g (pixel_index g px py) else front_px g (pixel_addr g px py))"
proof -
  have "front_px (fold swap_rect rs g) (pixel_addr g px py) =
    (if list_ex (\<lambda>r. (int px, int py) \<in> points r) rs
     then back_px g (pixel_index g px py) else front_px g (pixel_addr g px py))"
    using assms(1,4,5,6)
  proof (induction rs arbitrary: g)
    case (Cons r rs)
    have "front_px (fold swap_rect rs (swap_rect r g)) (pixel_addr (swap_rect r g) px py) =
      (if list_ex (\<lambda>r. (int px, int py) \<in> points r) rs then back_px (swap_rect r g) (pixel_index (swap_rect r g) px py)
       else front_px (swap_rect r g) (pixel_addr (swap_rect r g) px py))"
      using Cons.prems by (intro Cons.IH) simp_all
    then show ?case using swap_rect_copies [OF Cons.prems(1) _ Cons.prems(3,4), of r] Cons.prems(2) by simp
  qed simp
  then show ?thesis using assms(2,3) by (simp add: graphics_swap_rects_def)
qed

subsection \<open>Witnesses\<close>

definition demo_gfx :: gfx where
  "demo_gfx = \<lparr>fb_addr = 0xE0000000, backbuffer = 0x1000018, fb_width = 4, fb_height = 3, fb_pitch = 32, fb_bpp = 32,
     back_px = (\<lambda>_. 7), front_px = (\<lambda>_. 0)\<rparr>"

theorem clear_rect_paints_witness:
  "back_px (graphics_clear_rect (- 1) 1 3 100 9 demo_gfx) (pixel_index demo_gfx 1 2) = 9"
  using clear_rect_paints [of demo_gfx "- 1" 1 3 100 1 2 9]
  by (simp add: demo_gfx_def gfx_ok_def rect_ok_def make_rect_def points_def)

end
