(* ===== verification/Window.thy ===== *)
theory Window
  imports "HOL-Library.Multiset" Prelude Interfaces Pmm Kmalloc Vmm Task Graphics
begin

text \<open>
  Model of \<open>src/kernel/window.c\<close>: windows stored by address, the list of windows from front to
  back, the queue of dirty rectangles, the event ring of each window, hit testing, dragging, and
  redrawing. The chain of \<open>next\<close> pointers that starts at \<open>window_list\<close> is the list of the addresses
  on it; the first \<open>dirty_count\<close> entries of \<open>dirty_rects\<close> are a list. A function body between two
  lock operations is one state change; \<open>window_update\<close> and \<open>window_draw_all\<close> are composed of their
  critical sections, so that what other CPUs do in between can be put between them.
\<close>

subsection \<open>State\<close>

definition GUI_EVENT_MOUSE_CLICK :: u32 where "GUI_EVENT_MOUSE_CLICK = 1"
definition GUI_EVENT_MOUSE_MOVE :: u32 where "GUI_EVENT_MOUSE_MOVE = 2"
definition GUI_EVENT_KEY_PRESS :: u32 where "GUI_EVENT_KEY_PRESS = 3"
definition WINDOW_MAX_DIRTY_RECTS :: nat where "WINDOW_MAX_DIRTY_RECTS = 32"
definition DESKTOP_COLOR :: u32 where "DESKTOP_COLOR = 0xFF112233"
definition WINDOW_TITLE_HEIGHT :: i32 where "WINDOW_TITLE_HEIGHT = 25"
definition WINDOW_SHADOW_OFFSET :: i32 where "WINDOW_SHADOW_OFFSET = 5"
definition CURSOR_W :: i32 where "CURSOR_W = 10"
definition CURSOR_H :: i32 where "CURSOR_H = 15"

record gui_event_t =
  ev_type :: u32
  ev_x :: u32
  ev_y :: u32
  ev_data :: u32

record window_t =
  w_id :: u32
  w_x :: u32
  w_y :: u32
  w_w :: u32
  w_h :: u32
  title_color :: u32
  bg_color :: u32
  w_buffer :: u64
  owner_pid :: u64
  w_dirty :: u8
  destroyed :: u8
  refcount :: u32
  event_queue :: "u8 \<Rightarrow> gui_event_t"
  event_head :: u8
  event_tail :: u8

text \<open>\<open>sizeof(window_t)\<close>, with its padding.\<close>

definition WINDOW_SIZE :: u64 where "WINDOW_SIZE = 328"

record wsys = ksys +
  gfx :: gfx
  bufs :: "u64 \<Rightarrow> pixels"
  wins :: "u64 \<Rightarrow> window_t"
  window_list :: "u64 list"
  next_window_id :: u32
  dirty_rects :: "rect_t list"
  cursor_x :: i32
  cursor_y :: i32
  cursor_initialized :: bool
  dragging_window :: u64
  drag_off_x :: i32
  drag_off_y :: i32
  last_mb :: u8
  last_mx :: i32
  last_my :: i32

record window_snapshot_t =
  s_x :: u32
  s_y :: u32
  s_w :: u32
  s_h :: u32
  s_title_color :: u32
  s_bg_color :: u32
  s_buffer :: u64

record window_hit_t =
  hit_win :: u64
  local_x :: u32
  local_y :: u32
  in_title :: bool
  in_body :: bool

definition upd_win :: "u64 \<Rightarrow> (window_t \<Rightarrow> window_t) \<Rightarrow> 'a wsys_scheme \<Rightarrow> 'a wsys_scheme" where
  "upd_win p f s = s\<lparr>wins := (wins s)(p := f (wins s p))\<rparr>"

subsection \<open>Rectangles\<close>

definition rect_union :: "rect_t \<Rightarrow> rect_t \<Rightarrow> rect_t" where
  "rect_union a b =
     (let x1 = (if sint (r_x a) < sint (r_x b) then r_x a else r_x b);
          y1 = (if sint (r_y a) < sint (r_y b) then r_y a else r_y b);
          x2 = (if sint (r_x a + r_w a) > sint (r_x b + r_w b) then r_x a + r_w a else r_x b + r_w b);
          y2 = (if sint (r_y a + r_h a) > sint (r_y b + r_h b) then r_y a + r_h a else r_y b + r_h b)
      in make_rect x1 y1 (x2 - x1) (y2 - y1))"

text \<open>\<open>None\<close> is the answer 0; otherwise the rectangle written to \<open>out\<close>.\<close>

definition rect_intersect :: "rect_t \<Rightarrow> rect_t \<Rightarrow> rect_t option" where
  "rect_intersect a b =
     (let x1 = (if sint (r_x a) > sint (r_x b) then r_x a else r_x b);
          y1 = (if sint (r_y a) > sint (r_y b) then r_y a else r_y b);
          x2 = (if sint (r_x a + r_w a) < sint (r_x b + r_w b) then r_x a + r_w a else r_x b + r_w b);
          y2 = (if sint (r_y a + r_h a) < sint (r_y b + r_h b) then r_y a + r_h a else r_y b + r_h b)
      in if sint x2 \<le> sint x1 \<or> sint y2 \<le> sint y1 then None
         else Some (make_rect x1 y1 (x2 - x1) (y2 - y1)))"

definition window_outer_rect :: "window_t \<Rightarrow> rect_t" where
  "window_outer_rect win =
     make_rect (w_x win) (w_y win) (w_w win + WINDOW_SHADOW_OFFSET) (w_h win + WINDOW_SHADOW_OFFSET)"

definition cursor_rect :: "i32 \<Rightarrow> i32 \<Rightarrow> rect_t" where
  "cursor_rect x y = make_rect x y CURSOR_W CURSOR_H"

definition screen_rect :: "gfx \<Rightarrow> rect_t" where
  "screen_rect g = make_rect 0 0 (graphics_get_width g) (graphics_get_height g)"

subsection \<open>Dirty rectangles\<close>

text \<open>The first queued rectangle that overlaps the new one absorbs it.\<close>

primrec merge_dirty :: "rect_t \<Rightarrow> rect_t list \<Rightarrow> rect_t list option" where
  "merge_dirty c [] = None"
| "merge_dirty c (d # ds) =
     (if rect_intersect d c \<noteq> None then Some (rect_union d c # ds)
      else map_option (Cons d) (merge_dirty c ds))"

definition add_dirty :: "rect_t \<Rightarrow> rect_t list \<Rightarrow> rect_t list" where
  "add_dirty c ds =
     (case merge_dirty c ds of
        Some ds' \<Rightarrow> ds'
      | None \<Rightarrow> if length ds < WINDOW_MAX_DIRTY_RECTS then ds @ [c] else [rect_union (ds ! 0) c])"

definition queue_dirty_rect :: "rect_t \<Rightarrow> 'a wsys_scheme \<Rightarrow> 'a wsys_scheme" where
  "queue_dirty_rect rect s =
     (case rect_intersect rect (screen_rect (gfx s)) of
        None \<Rightarrow> s
      | Some clipped \<Rightarrow> s\<lparr>dirty_rects := add_dirty clipped (dirty_rects s)\<rparr>)"

subsection \<open>Lifetime of windows\<close>

definition free_window :: "u64 \<Rightarrow> 'a wsys_scheme \<Rightarrow> 'a wsys_scheme option" where
  "free_window win s =
     (if win = 0 then Some s
      else do {
        h1 \<leftarrow> (if w_buffer (wins s win) \<noteq> 0 then kfree (w_buffer (wins s win)) (heap s) else Some (heap s));
        h2 \<leftarrow> kfree win h1;
        Some (s\<lparr>heap := h2\<rparr>) })"

definition retain_window_locked :: "u64 \<Rightarrow> 'a wsys_scheme \<Rightarrow> 'a wsys_scheme" where
  "retain_window_locked win s =
     (if win = 0 then s else upd_win win (\<lambda>w. w\<lparr>refcount := refcount w + 1\<rparr>) s)"

definition release_window_locked :: "u64 \<Rightarrow> 'a wsys_scheme \<Rightarrow> 'a wsys_scheme option" where
  "release_window_locked win s =
     (if win = 0 \<or> refcount (wins s win) = 0 then Some s
      else
        let s1 = upd_win win (\<lambda>w. w\<lparr>refcount := refcount w - 1\<rparr>) s in
        if destroyed (wins s1 win) \<noteq> 0 \<and> refcount (wins s1 win) = 0 then free_window win s1 else Some s1)"

definition snap :: "window_t \<Rightarrow> window_snapshot_t" where
  "snap w = \<lparr>s_x = w_x w, s_y = w_y w, s_w = w_w w, s_h = w_h w, s_title_color = title_color w,
             s_bg_color = bg_color w, s_buffer = w_buffer w\<rparr>"

text \<open>The held windows with their snapshots, in list order.\<close>

definition snapshot_window_list :: "nat \<Rightarrow> 'a wsys_scheme \<Rightarrow> (u64 \<times> window_snapshot_t) list \<times> 'a wsys_scheme" where
  "snapshot_window_list max_count s =
     (let held = take max_count (window_list s)
      in (map (\<lambda>p. (p, snap (wins s p))) held, fold retain_window_locked held s))"

primrec release_window_refs_locked :: "u64 list \<Rightarrow> 'a wsys_scheme \<Rightarrow> 'a wsys_scheme option" where
  "release_window_refs_locked [] s = Some s"
| "release_window_refs_locked (p # ps) s =
     do { s1 \<leftarrow> release_window_locked p s; release_window_refs_locked ps s1 }"

subsection \<open>Operations on windows\<close>

definition window_init :: "'a wsys_scheme \<Rightarrow> 'a wsys_scheme" where
  "window_init s =
     queue_dirty_rect (screen_rect (gfx s)) (s\<lparr>window_list := [], dirty_rects := [], cursor_initialized := False\<rparr>)"

definition window_create :: "u32 \<Rightarrow> u32 \<Rightarrow> u32 \<Rightarrow> u32 \<Rightarrow> u32 \<Rightarrow> 'a wsys_scheme \<Rightarrow> (u64 \<times> 'a wsys_scheme) option" where
  "window_create x y w h bg s = do {
     (win, hp) \<leftarrow> kmalloc WINDOW_SIZE (heap s);
     let s1 = s\<lparr>heap := hp, next_window_id := next_window_id s + 1\<rparr>;
     let s2 = upd_win win (\<lambda>wd. wd\<lparr>w_id := next_window_id s, w_x := x, w_y := y, w_w := w, w_h := h,
                bg_color := bg, title_color := 0xFF555555, w_buffer := 0, owner_pid := 0, w_dirty := 1,
                destroyed := 0, refcount := 0, event_head := 0, event_tail := 0\<rparr>) s1;
     let s3 = s2\<lparr>window_list := win # window_list s2\<rparr>;
     Some (win, queue_dirty_rect (window_outer_rect (wins s3 win)) s3) }"

definition window_mark_dirty :: "u64 \<Rightarrow> 'a wsys_scheme \<Rightarrow> 'a wsys_scheme" where
  "window_mark_dirty win s =
     (if win = 0 then s
      else let s1 = upd_win win (\<lambda>w. w\<lparr>w_dirty := 1\<rparr>) s
           in queue_dirty_rect (window_outer_rect (wins s1 win)) s1)"

definition window_mark_region_dirty :: "u64 \<Rightarrow> i32 \<Rightarrow> i32 \<Rightarrow> i32 \<Rightarrow> i32 \<Rightarrow> 'a wsys_scheme \<Rightarrow> 'a wsys_scheme" where
  "window_mark_region_dirty win x y w h s =
     (if win = 0 then s
      else let s1 = upd_win win (\<lambda>wd. wd\<lparr>w_dirty := 1\<rparr>) s
           in queue_dirty_rect (make_rect (w_x (wins s1 win) + x)
                (w_y (wins s1 win) + WINDOW_TITLE_HEIGHT + y) w h) s1)"

definition window_needs_redraw :: "'a wsys_scheme \<Rightarrow> bool" where
  "window_needs_redraw s \<longleftrightarrow> dirty_rects s \<noteq> []"

text \<open>The ring keeps one slot free, so it holds at most 15 events; a full ring drops the event.\<close>

definition push_event :: "gui_event_t \<Rightarrow> window_t \<Rightarrow> window_t" where
  "push_event ev win =
     (let nxt = (event_tail win + 1) mod 16 in
      if nxt = event_head win then win
      else win\<lparr>event_queue := (event_queue win)(event_tail win := ev), event_tail := nxt\<rparr>)"

definition window_push_event :: "u64 \<Rightarrow> gui_event_t \<Rightarrow> 'a wsys_scheme \<Rightarrow> 'a wsys_scheme" where
  "window_push_event p ev s = upd_win p (push_event ev) s"

text \<open>The first window of the list with that id; \<open>None\<close> when there is none or it is destroyed.\<close>

definition find_id :: "u32 \<Rightarrow> 'a wsys_scheme \<Rightarrow> u64 option" where
  "find_id i s =
     (case find (\<lambda>p. w_id (wins s p) = i) (window_list s) of
        None \<Rightarrow> None
      | Some p \<Rightarrow> if destroyed (wins s p) \<noteq> 0 then None else Some p)"

definition window_get_by_id :: "u32 \<Rightarrow> 'a wsys_scheme \<Rightarrow> u64" where
  "window_get_by_id i s = (case find_id i s of None \<Rightarrow> 0 | Some p \<Rightarrow> p)"

definition window_set_owner :: "u64 \<Rightarrow> u64 \<Rightarrow> 'a wsys_scheme \<Rightarrow> 'a wsys_scheme" where
  "window_set_owner win pid s =
     (if win = 0 \<or> destroyed (wins s win) \<noteq> 0 then s else upd_win win (\<lambda>w. w\<lparr>owner_pid := pid\<rparr>) s)"

definition window_set_buffer :: "u64 \<Rightarrow> u64 \<Rightarrow> 'a wsys_scheme \<Rightarrow> 'a wsys_scheme" where
  "window_set_buffer win buf s =
     (if win = 0 \<or> destroyed (wins s win) \<noteq> 0 then s
      else let s1 = upd_win win (\<lambda>w. w\<lparr>w_buffer := buf, w_dirty := 1\<rparr>) s
           in queue_dirty_rect (window_outer_rect (wins s1 win)) s1)"

text \<open>Taking an event: -1 no such window, 0 nothing queued, 1 an event.\<close>

definition pop_event :: "window_t \<Rightarrow> gui_event_t option \<times> window_t" where
  "pop_event win =
     (if event_head win = event_tail win then (None, win)
      else (Some (event_queue win (event_head win)), win\<lparr>event_head := (event_head win + 1) mod 16\<rparr>))"

definition window_pop_event :: "u32 \<Rightarrow> 'a wsys_scheme \<Rightarrow> (int \<times> gui_event_t option) \<times> 'a wsys_scheme" where
  "window_pop_event i s =
     (case find_id i s of
        None \<Rightarrow> ((- 1, None), s)
      | Some p \<Rightarrow>
          (case pop_event (wins s p) of
             (None, _) \<Rightarrow> ((0, None), s)
           | (Some ev, w) \<Rightarrow> ((1, Some ev), s\<lparr>wins := (wins s)(p := w)\<rparr>)))"

text \<open>The walk of \<open>window_destroy_by_pid\<close>; the windows kept stay linked in their order.\<close>

primrec destroy_walk :: "u64 \<Rightarrow> u64 list \<Rightarrow> 'a wsys_scheme \<Rightarrow> (u64 list \<times> 'a wsys_scheme) option" where
  "destroy_walk pid [] s = Some ([], s)"
| "destroy_walk pid (p # ps) s =
     (if owner_pid (wins s p) = pid then do {
        let s1 = queue_dirty_rect (window_outer_rect (wins s p)) s;
        let s2 = (if dragging_window s1 = p then s1\<lparr>dragging_window := 0\<rparr> else s1);
        let s3 = upd_win p (\<lambda>w. w\<lparr>destroyed := 1\<rparr>) s2;
        s4 \<leftarrow> (if refcount (wins s3 p) = 0 then free_window p s3 else Some s3);
        destroy_walk pid ps s4 }
      else do { (kept, s1) \<leftarrow> destroy_walk pid ps s; Some (p # kept, s1) })"

definition window_destroy_by_pid :: "u64 \<Rightarrow> 'a wsys_scheme \<Rightarrow> 'a wsys_scheme option" where
  "window_destroy_by_pid pid s = do {
     (kept, s1) \<leftarrow> destroy_walk pid (window_list s) s;
     Some (s1\<lparr>window_list := kept\<rparr>) }"

subsection \<open>Mouse input\<close>

definition no_hit :: window_hit_t where
  "no_hit = \<lparr>hit_win = 0, local_x = 0, local_y = 0, in_title = False, in_body = False\<rparr>"

definition hits :: "i32 \<Rightarrow> i32 \<Rightarrow> window_snapshot_t \<Rightarrow> bool" where
  "hits mx my sn \<longleftrightarrow> \<not> (sint mx < sint (s_x sn) \<or> sint mx \<ge> sint (s_x sn + s_w sn)) \<and>
     \<not> (sint my < sint (s_y sn) \<or> sint my \<ge> sint (s_y sn + s_h sn))"

primrec find_window_hit :: "(u64 \<times> window_snapshot_t) list \<Rightarrow> i32 \<Rightarrow> i32 \<Rightarrow> window_hit_t" where
  "find_window_hit [] mx my = no_hit"
| "find_window_hit (x # xs) mx my =
     (let (win, sn) = x in
      if hits mx my sn then
        if sint my < sint (s_y sn + WINDOW_TITLE_HEIGHT)
        then \<lparr>hit_win = win, local_x = mx - s_x sn, local_y = my - s_y sn, in_title = True, in_body = False\<rparr>
        else \<lparr>hit_win = win, local_x = mx - s_x sn, local_y = my - s_y sn - WINDOW_TITLE_HEIGHT,
               in_title = False, in_body = True\<rparr>
      else find_window_hit xs mx my)"

text \<open>The window goes to the front of the list when some other window precedes it.\<close>

definition raise_window :: "u64 \<Rightarrow> 'a wsys_scheme \<Rightarrow> 'a wsys_scheme" where
  "raise_window p s =
     (case window_list s of
        [] \<Rightarrow> s
      | q # _ \<Rightarrow>
          if p = q \<or> p \<notin> set (window_list s) then s
          else
            let old_rect = window_outer_rect (wins s p);
                s1 = queue_dirty_rect old_rect (s\<lparr>window_list := p # remove1 p (window_list s)\<rparr>)
            in queue_dirty_rect (window_outer_rect (wins s1 p)) s1)"

definition body_event :: "u32 \<Rightarrow> u32 \<Rightarrow> i32 \<Rightarrow> i32 \<Rightarrow> window_t \<Rightarrow> gui_event_t" where
  "body_event kind data mx my w =
     \<lparr>ev_type = kind, ev_x = mx - w_x w, ev_y = my - w_y w - WINDOW_TITLE_HEIGHT, ev_data = data\<rparr>"

text \<open>The left button is down: start a drag, deliver a click, or move the dragged window.\<close>

definition handle_press :: "i32 \<Rightarrow> i32 \<Rightarrow> window_hit_t \<Rightarrow> 'a wsys_scheme \<Rightarrow> 'a wsys_scheme" where
  "handle_press mx my press s =
     (let p = hit_win press; d = dragging_window s in
      if d = 0 then
        if p \<noteq> 0 \<and> destroyed (wins s p) = 0 then
          if in_title press then
            raise_window p (s\<lparr>dragging_window := p, drag_off_x := mx - w_x (wins s p), drag_off_y := my - w_y (wins s p)\<rparr>)
          else if in_body press \<and> \<not> bit (last_mb s) 0
          then window_push_event p (body_event GUI_EVENT_MOUSE_CLICK 1 mx my (wins s p)) s
          else s
        else s
      else if destroyed (wins s d) = 0 then
        let old_rect = window_outer_rect (wins s d);
            s1 = upd_win d (\<lambda>w. w\<lparr>w_x := mx - drag_off_x s, w_y := my - drag_off_y s, w_dirty := 1\<rparr>) s;
            s2 = queue_dirty_rect old_rect s1
        in queue_dirty_rect (window_outer_rect (wins s2 d)) s2
      else s\<lparr>dragging_window := 0\<rparr>)"

definition handle_move :: "i32 \<Rightarrow> i32 \<Rightarrow> window_hit_t \<Rightarrow> 'a wsys_scheme \<Rightarrow> 'a wsys_scheme" where
  "handle_move mx my move_hit s =
     (let s1 = queue_dirty_rect (cursor_rect (cursor_x s) (cursor_y s)) s;
          s2 = queue_dirty_rect (cursor_rect mx my) s1;
          p = hit_win move_hit
      in if p \<noteq> 0 \<and> in_body move_hit \<and> destroyed (wins s2 p) = 0
         then window_push_event p (body_event GUI_EVENT_MOUSE_MOVE 0 mx my (wins s2 p)) s2 else s2)"

text \<open>What the first critical section of \<open>window_update\<close> hands to the second.\<close>

record update_ctx =
  cursor_was_initialized :: bool
  drag_candidate :: u64
  snaps :: "(u64 \<times> window_snapshot_t) list"

definition update_idle :: "i32 \<Rightarrow> i32 \<Rightarrow> u8 \<Rightarrow> 'a wsys_scheme \<Rightarrow> bool" where
  "update_idle mx my mb s \<longleftrightarrow> cursor_initialized s \<and> dragging_window s = 0 \<and>
     mx = last_mx s \<and> my = last_my s \<and> mb = last_mb s"

definition update_begin :: "i32 \<Rightarrow> i32 \<Rightarrow> 'a wsys_scheme \<Rightarrow> update_ctx \<times> 'a wsys_scheme" where
  "update_begin mx my s =
     (let s1 = (if cursor_initialized s then s
                else s\<lparr>cursor_initialized := True, cursor_x := mx, cursor_y := my\<rparr>);
          (sn, s2) = snapshot_window_list 16 s1
      in (\<lparr>cursor_was_initialized = cursor_initialized s, drag_candidate = dragging_window s1, snaps = sn\<rparr>, s2))"

definition update_finish :: "i32 \<Rightarrow> i32 \<Rightarrow> u8 \<Rightarrow> update_ctx \<Rightarrow> 'a wsys_scheme \<Rightarrow> 'a wsys_scheme option" where
  "update_finish mx my mb ctx s =
     (let moved = (mx \<noteq> last_mx s \<or> my \<noteq> last_my s);
          press = (if bit mb 0 \<and> drag_candidate ctx = 0 then find_window_hit (snaps ctx) mx my else no_hit);
          move_hit = (if moved then find_window_hit (snaps ctx) mx my else no_hit);
          s1 = (if cursor_was_initialized ctx then s else queue_dirty_rect (cursor_rect mx my) s);
          s2 = (if bit mb 0 then handle_press mx my press s1 else s1\<lparr>dragging_window := 0\<rparr>);
          s3 = (if moved then handle_move mx my move_hit s2 else s2);
          s4 = s3\<lparr>cursor_x := mx, cursor_y := my, last_mb := mb, last_mx := mx, last_my := my\<rparr>
      in do {
        s5 \<leftarrow> release_window_refs_locked (map fst (snaps ctx)) s4;
        Some (if dragging_window s5 \<noteq> 0 \<and> destroyed (wins s5 (dragging_window s5)) \<noteq> 0
              then s5\<lparr>dragging_window := 0\<rparr> else s5) })"

text \<open>\<open>mx\<close>, \<open>my\<close> and \<open>mb\<close> are the answers of mouse.c.\<close>

definition window_update :: "i32 \<Rightarrow> i32 \<Rightarrow> u8 \<Rightarrow> 'a wsys_scheme \<Rightarrow> 'a wsys_scheme option" where
  "window_update mx my mb s =
     (if update_idle mx my mb s then Some s
      else let (ctx, s1) = update_begin mx my s in update_finish mx my mb ctx s1)"

subsection \<open>Drawing\<close>

definition draw_rect_clipped :: "rect_t \<Rightarrow> i32 \<Rightarrow> i32 \<Rightarrow> i32 \<Rightarrow> i32 \<Rightarrow> u32 \<Rightarrow> gfx \<Rightarrow> gfx" where
  "draw_rect_clipped clip x y w h color g =
     (case rect_intersect clip (make_rect x y w h) of
        None \<Rightarrow> g
      | Some r \<Rightarrow> graphics_draw_rect (r_x r) (r_y r) (r_w r) (r_h r) color g)"

definition draw_window_buffer_clipped :: "(u64 \<Rightarrow> pixels) \<Rightarrow> rect_t \<Rightarrow> window_snapshot_t \<Rightarrow> gfx \<Rightarrow> gfx" where
  "draw_window_buffer_clipped bs clip win g =
     (if s_buffer win = 0
      then draw_rect_clipped clip (s_x win) (s_y win + WINDOW_TITLE_HEIGHT) (s_w win)
             (s_h win - WINDOW_TITLE_HEIGHT) (s_bg_color win) g
      else
        case rect_intersect clip (make_rect (s_x win) (s_y win + WINDOW_TITLE_HEIGHT) (s_w win)
               (s_h win - WINDOW_TITLE_HEIGHT)) of
          None \<Rightarrow> g
        | Some r \<Rightarrow>
            let src_x = r_x r - s_x win; src_y = r_y r - (s_y win + WINDOW_TITLE_HEIGHT) in
            fold (\<lambda>y. fold (\<lambda>x.
                graphics_put_pixel (r_x r + word_of_nat x) (r_y r + word_of_nat y)
                  (bs (s_buffer win) (scast (src_y + word_of_nat y) * ucast (s_w win) + scast (src_x + word_of_nat x))))
              [0..<nat (sint (r_w r))]) [0..<nat (sint (r_h r))] g)"

definition draw_window_clipped :: "(u64 \<Rightarrow> pixels) \<Rightarrow> rect_t \<Rightarrow> window_snapshot_t \<Rightarrow> gfx \<Rightarrow> gfx" where
  "draw_window_clipped bs clip win g =
     (let x = s_x win; y = s_y win; w = s_w win; h = s_h win;
          g1 = draw_rect_clipped clip (x + WINDOW_SHADOW_OFFSET) (y + WINDOW_SHADOW_OFFSET) w h 0xAA000000 g;
          g2 = draw_window_buffer_clipped bs clip win g1;
          g3 = draw_rect_clipped clip x y w WINDOW_TITLE_HEIGHT (s_title_color win) g2;
          g4 = draw_rect_clipped clip x y w 1 0xFFFFFFFF g3;
          g5 = draw_rect_clipped clip x (y + h - 1) w 1 0xFFFFFFFF g4;
          g6 = draw_rect_clipped clip x y 1 h 0xFFFFFFFF g5
      in draw_rect_clipped clip (x + w - 1) y 1 h 0xFFFFFFFF g6)"

text \<open>One dirty rectangle: the desktop, then the windows from back to front.\<close>

definition redraw_rect :: "(u64 \<Rightarrow> pixels) \<Rightarrow> window_snapshot_t list \<Rightarrow> rect_t \<Rightarrow> gfx \<Rightarrow> gfx" where
  "redraw_rect bs sns r g =
     fold (draw_window_clipped bs r) (rev sns)
       (graphics_clear_rect (r_x r) (r_y r) (r_w r) (r_h r) DESKTOP_COLOR g)"

definition draw_begin :: "'a wsys_scheme \<Rightarrow> (rect_t list \<times> (u64 \<times> window_snapshot_t) list \<times> rect_t) \<times> 'a wsys_scheme" where
  "draw_begin s =
     (let redraw = dirty_rects s;
          (sn, s1) = snapshot_window_list 16 (s\<lparr>dirty_rects := []\<rparr>)
      in ((redraw, sn, cursor_rect (cursor_x s1) (cursor_y s1)), s1))"

definition draw_frame :: "(u64 \<Rightarrow> pixels) \<Rightarrow> rect_t list \<Rightarrow> window_snapshot_t list \<Rightarrow> rect_t \<Rightarrow> gfx \<Rightarrow> gfx" where
  "draw_frame bs redraw sns cursor g =
     (let g1 = fold (redraw_rect bs sns) redraw g;
          g2 = (if list_ex (\<lambda>r. rect_intersect r cursor \<noteq> None) redraw
                then graphics_draw_cursor (r_x cursor) (r_y cursor) g1 else g1)
      in graphics_swap_rects redraw g2)"

definition window_draw_all :: "'a wsys_scheme \<Rightarrow> 'a wsys_scheme option" where
  "window_draw_all s =
     (if dirty_rects s = [] then Some s
      else
        let ((redraw, sn, cursor), s1) = draw_begin s;
            s2 = s1\<lparr>gfx := draw_frame (bufs s1) redraw (map snd sn) cursor (gfx s1)\<rparr>
        in release_window_refs_locked (map fst sn) s2)"

subsection \<open>Rectangles as sets of points\<close>

lemma rect_intersect_points:
  assumes a: "rect_ok a" and b: "rect_ok b"
  shows "rect_intersect a b = None \<Longrightarrow> points a \<inter> points b = {}"
    and "rect_intersect a b = Some r \<Longrightarrow> points r = points a \<inter> points b \<and> 0 < sint (r_w r) \<and> 0 < sint (r_h r) \<and>
      sint (r_x r) = max (sint (r_x a)) (sint (r_x b)) \<and> sint (r_y r) = max (sint (r_y a)) (sint (r_y b)) \<and>
      sint (r_x r) + sint (r_w r) = min (sint (r_x a) + sint (r_w a)) (sint (r_x b) + sint (r_w b)) \<and>
      sint (r_y r) + sint (r_h r) = min (sint (r_y a) + sint (r_h a)) (sint (r_y b) + sint (r_h b))"
proof -
  have rg: "- (2 ^ 31) \<le> sint (v :: i32)" "sint v < 2 ^ 31" for v by (rule sint_range32)+
  have s: "sint (r_x a + r_w a) = sint (r_x a) + sint (r_w a)" "sint (r_y a + r_h a) = sint (r_y a) + sint (r_h a)"
    "sint (r_x b + r_w b) = sint (r_x b) + sint (r_w b)" "sint (r_y b + r_h b) = sint (r_y b) + sint (r_h b)"
    using a b rg [of "r_x a"] rg [of "r_y a"] rg [of "r_x b"] rg [of "r_y b"]
    by (auto simp: rect_ok_def intro!: sint_plus)
  define x1 where "x1 = (if sint (r_x a) > sint (r_x b) then r_x a else r_x b)"
  define y1 where "y1 = (if sint (r_y a) > sint (r_y b) then r_y a else r_y b)"
  define x2 where "x2 = (if sint (r_x a + r_w a) < sint (r_x b + r_w b) then r_x a + r_w a else r_x b + r_w b)"
  define y2 where "y2 = (if sint (r_y a + r_h a) < sint (r_y b + r_h b) then r_y a + r_h a else r_y b + r_h b)"
  have v: "sint x1 = max (sint (r_x a)) (sint (r_x b))" "sint y1 = max (sint (r_y a)) (sint (r_y b))"
    "sint x2 = min (sint (r_x a) + sint (r_w a)) (sint (r_x b) + sint (r_w b))"
    "sint y2 = min (sint (r_y a) + sint (r_h a)) (sint (r_y b) + sint (r_h b))"
    using s by (auto simp: x1_def y1_def x2_def y2_def)
  have w: "sint (x2 - x1) = sint x2 - sint x1" if "sint x1 < sint x2"
    using a b v(1,3) that rg [of "r_w a"] rg [of "r_w b"] by (intro sint_minus) (auto simp: rect_ok_def)
  have h: "sint (y2 - y1) = sint y2 - sint y1" if "sint y1 < sint y2"
    using a b v(2,4) that rg [of "r_h a"] rg [of "r_h b"] by (intro sint_minus) (auto simp: rect_ok_def)
  have e: "rect_intersect a b = (if sint x2 \<le> sint x1 \<or> sint y2 \<le> sint y1 then None
      else Some (make_rect x1 y1 (x2 - x1) (y2 - y1)))"
    by (simp add: rect_intersect_def Let_def x1_def y1_def x2_def y2_def)
  show "points a \<inter> points b = {}" if "rect_intersect a b = None"
    using that v unfolding e by (auto simp: points_def split: if_splits)
  assume "rect_intersect a b = Some r"
  then have r: "r = make_rect x1 y1 (x2 - x1) (y2 - y1)" and lt: "sint x1 < sint x2" "sint y1 < sint y2"
    unfolding e by (auto split: if_splits)
  note wh = w [OF lt(1)] h [OF lt(2)]
  show "points r = points a \<inter> points b \<and> 0 < sint (r_w r) \<and> 0 < sint (r_h r) \<and>
      sint (r_x r) = max (sint (r_x a)) (sint (r_x b)) \<and> sint (r_y r) = max (sint (r_y a)) (sint (r_y b)) \<and>
      sint (r_x r) + sint (r_w r) = min (sint (r_x a) + sint (r_w a)) (sint (r_x b) + sint (r_w b)) \<and>
      sint (r_y r) + sint (r_h r) = min (sint (r_y a) + sint (r_h a)) (sint (r_y b) + sint (r_h b))"
    using lt unfolding r make_rect_def points_def rect_t.simps wh v by auto
qed

lemma inside_rect_ok: "inside g r \<Longrightarrow> rect_ok r"
  using sint_range32(2) [of "fb_width g"] sint_range32(2) [of "fb_height g"] by (auto simp: inside_def rect_ok_def)

lemma rect_union_points:
  assumes a: "inside g a" and b: "inside g b"
  shows "points a \<union> points b \<subseteq> points (rect_union a b)" "inside g (rect_union a b)"
proof -
  have rg: "- (2 ^ 31) \<le> sint (v :: i32)" "sint v < 2 ^ 31" for v by (rule sint_range32)+
  note ok = inside_rect_ok [OF a] inside_rect_ok [OF b]
  have s: "sint (r_x a + r_w a) = sint (r_x a) + sint (r_w a)" "sint (r_y a + r_h a) = sint (r_y a) + sint (r_h a)"
    "sint (r_x b + r_w b) = sint (r_x b) + sint (r_w b)" "sint (r_y b + r_h b) = sint (r_y b) + sint (r_h b)"
    using ok rg [of "r_x a"] rg [of "r_y a"] rg [of "r_x b"] rg [of "r_y b"]
    by (auto simp: rect_ok_def intro!: sint_plus)
  define x1 where "x1 = (if sint (r_x a) < sint (r_x b) then r_x a else r_x b)"
  define y1 where "y1 = (if sint (r_y a) < sint (r_y b) then r_y a else r_y b)"
  define x2 where "x2 = (if sint (r_x a + r_w a) > sint (r_x b + r_w b) then r_x a + r_w a else r_x b + r_w b)"
  define y2 where "y2 = (if sint (r_y a + r_h a) > sint (r_y b + r_h b) then r_y a + r_h a else r_y b + r_h b)"
  have v: "sint x1 = min (sint (r_x a)) (sint (r_x b))" "sint y1 = min (sint (r_y a)) (sint (r_y b))"
    "sint x2 = max (sint (r_x a) + sint (r_w a)) (sint (r_x b) + sint (r_w b))"
    "sint y2 = max (sint (r_y a) + sint (r_h a)) (sint (r_y b) + sint (r_h b))"
    using s by (auto simp: x1_def y1_def x2_def y2_def)
  have w: "sint (x2 - x1) = sint x2 - sint x1" "sint (y2 - y1) = sint y2 - sint y1"
    using a b v rg [of x2] rg [of y2] by (intro sint_minus; auto simp: inside_def)+
  have e: "rect_union a b = make_rect x1 y1 (x2 - x1) (y2 - y1)"
    by (simp add: rect_union_def Let_def x1_def y1_def x2_def y2_def)
  show "points a \<union> points b \<subseteq> points (rect_union a b)"
    unfolding e make_rect_def points_def rect_t.simps w v by auto
  show "inside g (rect_union a b)"
    using a b unfolding e make_rect_def inside_def rect_t.simps w v by auto
qed

subsection \<open>The dirty region\<close>

definition dirty_ok :: "gfx \<Rightarrow> rect_t list \<Rightarrow> bool" where
  "dirty_ok g ds \<longleftrightarrow> list_all (inside g) ds \<and> length ds \<le> WINDOW_MAX_DIRTY_RECTS"

definition region :: "rect_t list \<Rightarrow> (int \<times> int) set" where
  "region ds = (\<Union>r \<in> set ds. points r)"

lemma merge_dirty_some:
  "list_all (inside g) ds \<Longrightarrow> inside g c \<Longrightarrow> merge_dirty c ds = Some ds' \<Longrightarrow>
   list_all (inside g) ds' \<and> length ds' = length ds \<and> region ds \<union> points c \<subseteq> region ds'"
proof (induction ds arbitrary: ds')
  case (Cons d ds)
  show ?case
  proof (cases "rect_intersect d c = None")
    case True
    with Cons.prems(3) obtain es where es: "merge_dirty c ds = Some es" "ds' = d # es" by auto
    from Cons.IH [OF _ Cons.prems(2) es(1)] Cons.prems(1) es(2) show ?thesis by (auto simp: region_def)
  next
    case False
    then have "ds' = rect_union d c # ds" using Cons.prems(3) by simp
    then show ?thesis using rect_union_points [of g d c] Cons.prems(1,2) by (auto simp: region_def)
  qed
qed simp

lemma add_dirty_covers:
  assumes ds: "dirty_ok g ds" and c: "inside g c"
  shows "dirty_ok g (add_dirty c ds)"
    and "length ds < WINDOW_MAX_DIRTY_RECTS \<or> merge_dirty c ds \<noteq> None \<Longrightarrow> region ds \<union> points c \<subseteq> region (add_dirty c ds)"
    and "points c \<subseteq> region (add_dirty c ds)"
proof -
  have all: "list_all (inside g) ds" and len: "length ds \<le> WINDOW_MAX_DIRTY_RECTS" using ds by (simp_all add: dirty_ok_def)
  have "dirty_ok g (add_dirty c ds) \<and> points c \<subseteq> region (add_dirty c ds) \<and>
    (length ds < WINDOW_MAX_DIRTY_RECTS \<or> merge_dirty c ds \<noteq> None \<longrightarrow> region ds \<subseteq> region (add_dirty c ds))"
  proof (cases "merge_dirty c ds")
    case None
    show ?thesis
    proof (cases "length ds < WINDOW_MAX_DIRTY_RECTS")
      case True
      then show ?thesis using None all c by (auto simp: add_dirty_def dirty_ok_def region_def)
    next
      case False
      then obtain d es where "ds = d # es" using len by (cases ds) (simp_all add: WINDOW_MAX_DIRTY_RECTS_def)
      then show ?thesis using None False all rect_union_points [of g d c] c
        by (auto simp: add_dirty_def dirty_ok_def region_def WINDOW_MAX_DIRTY_RECTS_def)
    qed
  next
    case (Some ds')
    from merge_dirty_some [OF all c Some] len show ?thesis by (auto simp: add_dirty_def Some dirty_ok_def)
  qed
  then show "dirty_ok g (add_dirty c ds)"
    "length ds < WINDOW_MAX_DIRTY_RECTS \<or> merge_dirty c ds \<noteq> None \<Longrightarrow> region ds \<union> points c \<subseteq> region (add_dirty c ds)"
    "points c \<subseteq> region (add_dirty c ds)" by blast+
qed

lemma screen_rect_points:
  assumes "gfx_ok g"
  shows "points (screen_rect g) = screen g" "rect_ok (screen_rect g)"
  using assms sint_range32(2) [of "fb_width g"] sint_range32(2) [of "fb_height g"]
  by (auto simp: points_def screen_def screen_rect_def make_rect_def graphics_get_width_def
      graphics_get_height_def rect_ok_def gfx_ok_def)

lemma clipped_inside:
  assumes g: "gfx_ok g" and r: "rect_ok r" and c: "rect_intersect r (screen_rect g) = Some c"
  shows "inside g c" "points c = points r \<inter> screen g"
proof -
  note s = screen_rect_points [OF g]
  from rect_intersect_points(2) [OF r s(2) c]
  show "points c = points r \<inter> screen g" "inside g c" unfolding s(1)
    by (auto simp: inside_def screen_rect_def make_rect_def graphics_get_width_def graphics_get_height_def)
qed

lemma queue_dirty_fields [simp]:
  "wins (queue_dirty_rect r s) = wins s" "window_list (queue_dirty_rect r s) = window_list s"
  "gfx (queue_dirty_rect r s) = gfx s" "heap (queue_dirty_rect r s) = heap s"
  "dragging_window (queue_dirty_rect r s) = dragging_window s" "bufs (queue_dirty_rect r s) = bufs s"
  "last_mb (queue_dirty_rect r s) = last_mb s" "drag_off_x (queue_dirty_rect r s) = drag_off_x s"
  "drag_off_y (queue_dirty_rect r s) = drag_off_y s"
  by (simp_all add: queue_dirty_rect_def split: option.splits)

text \<open>
  Marking a rectangle dirty keeps at most 32 rectangles, all non-empty and on the screen; the part of
  the rectangle that is on the screen becomes part of the dirty region, and as long as the queue is
  not full nothing of the region is lost.
\<close>

theorem queue_dirty_covers:
  assumes g: "gfx_ok (gfx s)" and ds: "dirty_ok (gfx s) (dirty_rects s)" and r: "rect_ok r"
  shows "dirty_ok (gfx s) (dirty_rects (queue_dirty_rect r s)) \<and>
    points r \<inter> screen (gfx s) \<subseteq> region (dirty_rects (queue_dirty_rect r s)) \<and>
    (length (dirty_rects s) < WINDOW_MAX_DIRTY_RECTS \<longrightarrow>
       region (dirty_rects s) \<subseteq> region (dirty_rects (queue_dirty_rect r s)))"
proof (cases "rect_intersect r (screen_rect (gfx s))")
  case None
  then have "points r \<inter> screen (gfx s) = {}"
    using rect_intersect_points(1) [OF r screen_rect_points(2) [OF g]] screen_rect_points(1) [OF g] by simp
  then show ?thesis using None ds by (simp add: queue_dirty_rect_def)
next
  case (Some c)
  note c = clipped_inside [OF g r Some]
  show ?thesis using add_dirty_covers [OF ds c(1)] c(2) Some by (auto simp: queue_dirty_rect_def)
qed

definition demo_rects :: "rect_t list" where
  "demo_rects = map (\<lambda>i. make_rect (word_of_nat (2 * i)) 0 1 1) [0..<32]"

definition wide_gfx :: gfx where
  "wide_gfx = \<lparr>fb_addr = 0xE0000000, backbuffer = 0x1000018, fb_width = 64, fb_height = 8, fb_pitch = 256, fb_bpp = 32,
     back_px = (\<lambda>_. 7), front_px = (\<lambda>_. 0)\<rparr>"

lemma wide_gfx_ok: "gfx_ok wide_gfx"
  by (simp add: wide_gfx_def gfx_ok_def)

text \<open>
  A full queue loses damage. When a new rectangle overlaps none of the 32 queued ones, the first is
  united with it and the other 31 are forgotten, so pixels that were marked dirty are never redrawn.
\<close>

theorem dirty_overflow_drops:
  "gfx_ok wide_gfx \<and> dirty_ok wide_gfx demo_rects \<and> (2, 0) \<in> region demo_rects \<and>
   (2, 0) \<notin> region (add_dirty (make_rect 0 5 1 1) demo_rects)"
proof -
  have upt: "[0..<32] = [0, 1, 2, 3, 4, 5, 6, 7, 8, 9, 10, 11, 12, 13, 14, 15, 16, 17, 18, 19, 20, 21, 22, 23,
      24, 25, 26, 27, 28, 29, 30, 31 :: nat]" by (simp add: upt_rec)
  have "add_dirty (make_rect 0 5 1 1) demo_rects = [make_rect 0 0 1 6]"
    by (simp add: add_dirty_def demo_rects_def upt rect_intersect_def rect_union_def make_rect_def Let_def WINDOW_MAX_DIRTY_RECTS_def)
  then have "(2, 0) \<notin> region (add_dirty (make_rect 0 5 1 1) demo_rects)" by (simp add: region_def points_def make_rect_def)
  moreover have "dirty_ok wide_gfx demo_rects" "(2, 0) \<in> region demo_rects"
    by (simp_all add: dirty_ok_def demo_rects_def upt inside_def make_rect_def wide_gfx_def WINDOW_MAX_DIRTY_RECTS_def
        region_def points_def)
  ultimately show ?thesis using wide_gfx_ok by blast
qed

subsection \<open>Event rings\<close>

definition ev_ok :: "window_t \<Rightarrow> bool" where
  "ev_ok w \<longleftrightarrow> unat (event_head w) < 16 \<and> unat (event_tail w) < 16"

definition ev_count :: "window_t \<Rightarrow> nat" where
  "ev_count w = (unat (event_tail w) + 16 - unat (event_head w)) mod 16"

definition ev_items :: "window_t \<Rightarrow> gui_event_t list" where
  "ev_items w = map (\<lambda>k. event_queue w (word_of_nat ((unat (event_head w) + k) mod 16))) [0..<ev_count w]"

definition ev_fits :: "gui_event_t \<Rightarrow> window_t \<Rightarrow> bool" where
  "ev_fits ev w \<longleftrightarrow> length (ev_items w) < 15"

lemma next_slot: "unat (t :: u8) < 16 \<Longrightarrow> unat ((t + 1) mod 16) = (unat t + 1) mod 16"
  by (simp add: unat_mod unat_word_ariths)

lemma ring_arith:
  assumes "h < 16" "t < (16::nat)"
  defines "n \<equiv> (t + 16 - h) mod 16"
  shows "(t + 1) mod 16 = h \<longleftrightarrow> n = 15" "n < 16" "(h + n) mod 16 = t" "h = t \<longleftrightarrow> n = 0"
    "n < 15 \<Longrightarrow> ((t + 1) mod 16 + 16 - h) mod 16 = n + 1" "k < n \<Longrightarrow> (h + k) mod 16 \<noteq> t"
    "0 < n \<Longrightarrow> (t + 16 - (h + 1) mod 16) mod 16 = n - 1"
proof -
  consider "h \<le> t" | "t < h" by linarith
  then have n: "n = (if h \<le> t then t - h else t + 16 - h)"
  proof cases
    case 1
    then have e: "t + 16 - h = (t - h) + 16" by simp
    have "n = (t - h) mod 16" unfolding n_def e by (rule mod_add_self2)
    then show ?thesis using 1 assms(2) by simp
  qed (simp add: n_def)
  have m: "(a + b) mod 16 = (if a + b < 16 then a + b else a + b - 16)" if "a < 16" "b \<le> 16" for a b :: nat
    using that by (auto simp: le_mod_geq)
  show "n < 16" by (simp add: n_def)
  show "(t + 1) mod 16 = h \<longleftrightarrow> n = 15" using m [of t 1] assms(1,2) n by auto
  show "(h + n) mod 16 = t" using m [of h n] assms(1,2) n by auto
  show "h = t \<longleftrightarrow> n = 0" using assms(1,2) n by auto
  show "k < n \<Longrightarrow> (h + k) mod 16 \<noteq> t" using m [of h k] assms(1,2) n by (auto split: if_splits)
  show "((t + 1) mod 16 + 16 - h) mod 16 = n + 1" if "n < 15"
  proof (cases "t = 15")
    case True
    then show ?thesis using that n assms(1) by (auto split: if_splits)
  next
    case False
    then have "((t + 1) mod 16 + 16 - h) mod 16 = (if h \<le> t + 1 then t + 1 - h else t + 17 - h)"
      using m [of "t + 1 - h" 16] assms(1,2) by (auto simp: le_mod_geq)
    then show ?thesis using that n assms(1,2) by (auto simp: Suc_diff_le split: if_splits)
  qed
  show "(t + 16 - (h + 1) mod 16) mod 16 = n - 1" if "0 < n"
  proof (cases "h = 15")
    case True
    then show ?thesis using that n assms(2) by (auto split: if_splits)
  next
    case False
    then show ?thesis using that n assms(1,2) m [of "t - (h + 1)" 16] by (auto simp: le_mod_geq split: if_splits)
  qed
qed

interpretation ev: fifo push_event pop_event ev_items ev_ok ev_fits
proof (unfold_locales, goal_cases)
  case (1 w e)
  let ?h = "unat (event_head w)" and ?t = "unat (event_tail w)"
  have b: "?h < 16" "?t < 16" and n: "ev_count w < 15" using 1 by (simp_all add: ev_ok_def ev_fits_def ev_items_def)
  note ra = ring_arith [OF b, folded ev_count_def]
  have "(event_tail w + 1) mod 16 \<noteq> event_head w"
    using ra(1) n next_slot [OF b(2)] by (auto simp flip: unat_eq_iff)
  then have p: "push_event e w = w\<lparr>event_queue := (event_queue w)(event_tail w := e), event_tail := (event_tail w + 1) mod 16\<rparr>"
    by (simp add: push_event_def Let_def)
  have c: "ev_count (push_event e w) = ev_count w + 1"
    using ra(5) [OF n] next_slot [OF b(2)] by (simp add: p ev_count_def)
  have slot: "word_of_nat ((?h + k) mod 16) = event_tail w \<longleftrightarrow> (?h + k) mod 16 = ?t" for k
    by (simp add: unat_of_nat flip: unat_eq_iff)
  have "ev_items (push_event e w) = ev_items w @ [e]"
    unfolding ev_items_def c using ra(3,6) by (simp add: p slot)
  then show ?case using b next_slot [OF b(2)] by (simp add: p ev_ok_def)
next
  case (2 w)
  then have "unat (event_head w) = unat (event_tail w)"
    using ring_arith(4) [of "unat (event_head w)" "unat (event_tail w)"] by (simp add: ev_ok_def ev_items_def ev_count_def)
  then show ?case by (simp add: pop_event_def unat_eq_iff)
next
  case (3 w e es)
  let ?h = "unat (event_head w)" and ?t = "unat (event_tail w)"
  have b: "?h < 16" "?t < 16" using 3 by (simp_all add: ev_ok_def)
  note ra = ring_arith [OF b, folded ev_count_def]
  have "ev_items w \<noteq> []" using 3(2) by simp
  then have n: "0 < ev_count w" by (simp add: ev_items_def)
  then obtain m where m: "ev_count w = Suc m" using gr0_implies_Suc by blast
  have ne: "event_head w \<noteq> event_tail w" using ra(4) n by auto
  define w' where "w' = w\<lparr>event_head := (event_head w + 1) mod 16\<rparr>"
  have c: "ev_count w' = m" using ra(7) [OF n] next_slot [OF b(1)] m by (simp add: w'_def ev_count_def)
  have "ev_items w = event_queue w (event_head w) # map (\<lambda>k. event_queue w (word_of_nat ((?h + Suc k) mod 16))) [0..<m]"
    unfolding ev_items_def m using b(1) by (simp add: upt_conv_Cons map_Suc_upt [symmetric] del: upt_Suc map_Suc_upt)
  moreover have "ev_items w' = map (\<lambda>k. event_queue w (word_of_nat ((?h + Suc k) mod 16))) [0..<m]"
    unfolding ev_items_def c by (simp add: w'_def next_slot [OF b(1)] mod_add_left_eq)
  ultimately show ?case using 3(2) ne b next_slot [OF b(1)]
    by (intro exI [of _ w']) (simp add: pop_event_def w'_def ev_ok_def)
next
  case (4 w e w')
  let ?h = "unat (event_head w)" and ?t = "unat (event_tail w)"
  have b: "?h < 16" "?t < 16" using 4 by (simp_all add: ev_ok_def)
  note ra = ring_arith [OF b, folded ev_count_def]
  have ne: "event_head w \<noteq> event_tail w" and w': "w' = w\<lparr>event_head := (event_head w + 1) mod 16\<rparr>"
    using 4(2) by (auto simp: pop_event_def split: if_splits)
  then have n: "0 < ev_count w" using ra(4) by (auto simp: unat_eq_iff)
  have "ev_count w' = ev_count w - 1" using ra(7) [OF n] next_slot [OF b(1)] by (simp add: w' ev_count_def)
  then show ?case using ra(2) n by (simp add: ev_fits_def ev_items_def)
qed

text \<open>\<open>n\<close> calls of \<open>window_pop_event\<close>: the events they deliver.\<close>

primrec pop_events :: "nat \<Rightarrow> u32 \<Rightarrow> 'a wsys_scheme \<Rightarrow> gui_event_t list \<times> 'a wsys_scheme" where
  "pop_events 0 i s = ([], s)"
| "pop_events (Suc n) i s =
     (case window_pop_event i s of
        ((_, Some ev), s1) \<Rightarrow> (let (evs, s2) = pop_events n i s1 in (ev # evs, s2))
      | (_, s1) \<Rightarrow> ([], s1))"

lemma push_event_fields [simp]:
  "w_id (push_event ev w) = w_id w" "destroyed (push_event ev w) = destroyed w" "refcount (push_event ev w) = refcount w"
  "w_buffer (push_event ev w) = w_buffer w" "owner_pid (push_event ev w) = owner_pid w"
  by (simp_all add: push_event_def Let_def)

lemma pop_event_fields:
  "pop_event w = (r, w') \<Longrightarrow> w_id w' = w_id w \<and> destroyed w' = destroyed w"
  by (auto simp: pop_event_def split: if_splits)

lemma find_id_cong:
  "window_list s' = window_list s \<Longrightarrow> (\<And>p. w_id (wins s' p) = w_id (wins s p) \<and> destroyed (wins s' p) = destroyed (wins s p)) \<Longrightarrow>
   find_id i s' = find_id i s"
  by (simp add: find_id_def cong: option.case_cong)

lemma push_events:
  assumes "ev_ok (wins s p)" and "length (ev_items (wins s p)) + length es \<le> 15"
  shows "ev_ok (wins (fold (window_push_event p) es s) p)"
    "ev_items (wins (fold (window_push_event p) es s) p) = ev_items (wins s p) @ es"
    "find_id i (fold (window_push_event p) es s) = find_id i s"
proof -
  have "ev_ok (wins (fold (window_push_event p) es s) p) \<and>
    ev_items (wins (fold (window_push_event p) es s) p) = ev_items (wins s p) @ es \<and>
    find_id i (fold (window_push_event p) es s) = find_id i s"
    using assms
  proof (induction es arbitrary: s)
    case (Cons e es)
    define s1 where "s1 = window_push_event p e s"
    have w: "wins s1 p = push_event e (wins s p)" by (simp add: s1_def window_push_event_def upd_win_def)
    have f: "find_id i s1 = find_id i s"
      by (rule find_id_cong) (simp_all add: s1_def window_push_event_def upd_win_def)
    have "ev_ok (wins s1 p)" "ev_items (wins s1 p) = ev_items (wins s p) @ [e]"
      using ev.enq_items [OF Cons.prems(1), of e] Cons.prems(2) by (simp_all add: w ev_fits_def)
    then show ?case using Cons.IH [of s1] Cons.prems(2) f by (simp add: s1_def)
  qed simp
  then show "ev_ok (wins (fold (window_push_event p) es s) p)"
    "ev_items (wins (fold (window_push_event p) es s) p) = ev_items (wins s p) @ es"
    "find_id i (fold (window_push_event p) es s) = find_id i s" by blast+
qed

lemma pop_events_items:
  "find_id i s = Some p \<Longrightarrow> ev_ok (wins s p) \<Longrightarrow>
   \<exists>s'. pop_events n i s = (take n (ev_items (wins s p)), s') \<and> find_id i s' = Some p \<and> ev_ok (wins s' p) \<and>
     ev_items (wins s' p) = drop n (ev_items (wins s p))"
proof (induction n arbitrary: s)
  case (Suc n)
  from Suc.prems(2) show ?case
  proof (cases rule: ev.deq_cases)
    case 1
    then show ?thesis using Suc.prems by (simp add: window_pop_event_def)
  next
    case (2 e w')
    define s1 where "s1 = s\<lparr>wins := (wins s)(p := w')\<rparr>"
    have "find_id i s1 = Some p" unfolding Suc.prems(1) [symmetric]
      by (rule find_id_cong) (use pop_event_fields [OF 2(2)] in \<open>simp_all add: s1_def\<close>)
    from Suc.IH [OF this] 2 obtain s' where "pop_events n i s1 = (take n (ev_items w'), s')" "find_id i s' = Some p"
      "ev_ok (wins s' p)" "ev_items (wins s' p) = drop n (ev_items w')" by (auto simp: s1_def)
    then show ?thesis using 2 Suc.prems(1) by (simp add: window_pop_event_def s1_def)
  qed
qed simp

text \<open>
  Events are delivered in the order in which they were sent: up to 15 events pushed to a window whose
  ring is empty come back one by one from window_pop_event, after which it answers that none is queued.
\<close>

theorem window_events_in_order:
  assumes "find_id i s = Some p" and "ev_ok (wins s p)" and "ev_items (wins s p) = []" and "length evs \<le> 15"
  shows "\<exists>s'. pop_events (length evs) i (fold (window_push_event p) evs s) = (evs, s') \<and>
    fst (window_pop_event i s') = (0, None)"
proof -
  note p = push_events [OF assms(2), of evs]
  from pop_events_items [of i "fold (window_push_event p) evs s" p "length evs"] p assms
  obtain s' where s': "pop_events (length evs) i (fold (window_push_event p) evs s) = (evs, s')" "find_id i s' = Some p"
    "ev_ok (wins s' p)" "ev_items (wins s' p) = []" by auto
  then show ?thesis using ev.deq_none [OF s'(3,4)] by (simp add: window_pop_event_def)
qed

subsection \<open>Stacking order and reference counts\<close>

text \<open>
  Windows on the list are distinct and not destroyed, and no reference count is at its maximum.
\<close>

definition win_inv :: "'a wsys_scheme \<Rightarrow> bool" where
  "win_inv s \<longleftrightarrow> distinct (window_list s) \<and> 0 \<notin> set (window_list s) \<and>
     (\<forall>p \<in> set (window_list s). destroyed (wins s p) = 0 \<and> refcount (wins s p) \<noteq> - 1)"

lemma retain_all:
  "distinct ps \<Longrightarrow> 0 \<notin> set ps \<Longrightarrow> fold retain_window_locked ps s =
   s\<lparr>wins := (\<lambda>p. if p \<in> set ps then (wins s p)\<lparr>refcount := refcount (wins s p) + 1\<rparr> else wins s p)\<rparr>"
proof (induction ps arbitrary: s)
  case (Cons p ps)
  define s1 where "s1 = upd_win p (\<lambda>w. w\<lparr>refcount := refcount w + 1\<rparr>) s"
  have "retain_window_locked p s = s1" using Cons.prems(2) by (simp add: retain_window_locked_def s1_def)
  then show ?case using Cons.IH [of s1] Cons.prems by (simp add: s1_def upd_win_def fun_eq_iff)
qed simp

lemma release_all:
  "distinct ps \<Longrightarrow> 0 \<notin> set ps \<Longrightarrow> (\<And>p. p \<in> set ps \<Longrightarrow> refcount (wins s p) \<noteq> 0 \<and> destroyed (wins s p) = 0) \<Longrightarrow>
   release_window_refs_locked ps s = Some (s\<lparr>wins := (\<lambda>p. if p \<in> set ps
      then (wins s p)\<lparr>refcount := refcount (wins s p) - 1\<rparr> else wins s p)\<rparr>)"
proof (induction ps arbitrary: s)
  case (Cons p ps)
  define s1 where "s1 = upd_win p (\<lambda>w. w\<lparr>refcount := refcount w - 1\<rparr>) s"
  have r: "release_window_locked p s = Some s1"
    using Cons.prems(2) Cons.prems(3) [of p] by (simp add: release_window_locked_def s1_def upd_win_def Let_def)
  have "refcount (wins s1 q) \<noteq> 0 \<and> destroyed (wins s1 q) = 0" if "q \<in> set ps" for q
    using that Cons.prems(1) Cons.prems(3) [of q] by (auto simp: s1_def upd_win_def)
  from Cons.IH [OF _ _ this] Cons.prems(1,2) r show ?case by (simp add: s1_def upd_win_def fun_eq_iff)
qed simp

text \<open>Steps that may reorder the list and change a window's place or events, but nothing of its lifetime.\<close>

definition keeps :: "'a wsys_scheme \<Rightarrow> 'a wsys_scheme \<Rightarrow> bool" where
  "keeps s s' \<longleftrightarrow> mset (window_list s') = mset (window_list s) \<and> heap s' = heap s \<and>
     (\<forall>p. refcount (wins s' p) = refcount (wins s p) \<and> destroyed (wins s' p) = destroyed (wins s p) \<and>
          w_buffer (wins s' p) = w_buffer (wins s p) \<and> owner_pid (wins s' p) = owner_pid (wins s p))"

lemma keeps_refl [simp]: "keeps s s"
  by (simp add: keeps_def)

lemma keeps_trans: "keeps s t \<Longrightarrow> keeps t u \<Longrightarrow> keeps s u"
  by (simp add: keeps_def)

lemma keeps_steps [simp]:
  "keeps s (queue_dirty_rect r s)" "keeps s (window_push_event p ev s)"
  "keeps s (s\<lparr>dragging_window := d\<rparr>)" "keeps s (s\<lparr>drag_off_x := ox\<rparr>)" "keeps s (s\<lparr>drag_off_y := oy\<rparr>)"
  "keeps s (upd_win p (\<lambda>w. w\<lparr>w_x := x, w_y := y, w_dirty := d8\<rparr>) s)"
  by (simp_all add: keeps_def window_push_event_def upd_win_def)

lemma keeps_then:
  "keeps s t \<Longrightarrow> keeps s (queue_dirty_rect r t)" "keeps s t \<Longrightarrow> keeps s (window_push_event p ev t)"
  by (simp_all add: keeps_def window_push_event_def upd_win_def)

lemma keeps_raise [simp]: "keeps s (raise_window p s)"
proof (cases "window_list s")
  case (Cons q qs)
  show ?thesis
  proof (cases "p = q \<or> p \<notin> set (window_list s)")
    case False
    then have "mset (p # remove1 p (window_list s)) = mset (window_list s)" by simp
    then have "keeps s (s\<lparr>window_list := p # remove1 p (window_list s)\<rparr>)" by (simp add: keeps_def)
    then show ?thesis using False Cons
      by (simp add: raise_window_def Let_def keeps_then)
  qed (use Cons in \<open>simp add: raise_window_def\<close>)
qed (simp add: raise_window_def)

lemma keeps_press: "keeps s (handle_press mx my h s)"
proof -
  have "keeps s (raise_window p (s\<lparr>dragging_window := p, drag_off_x := a, drag_off_y := b\<rparr>))" for p a b
    using keeps_trans [OF _ keeps_raise, of s "s\<lparr>dragging_window := p, drag_off_x := a, drag_off_y := b\<rparr>" p]
    by (simp add: keeps_def)
  moreover have "keeps s (queue_dirty_rect r2 (queue_dirty_rect r1 (upd_win d (\<lambda>w. w\<lparr>w_x := x, w_y := y, w_dirty := 1\<rparr>) s)))"
    for r1 r2 d x y by (intro keeps_then keeps_steps)
  ultimately show ?thesis by (simp add: handle_press_def Let_def)
qed

lemma keeps_move: "keeps s (handle_move mx my h s)"
  by (simp add: handle_move_def Let_def keeps_then)

lemma update_finish_core:
  assumes d: "distinct ps" "0 \<notin> set ps" and k: "keeps s s4"
    and p: "\<And>p. p \<in> set ps \<Longrightarrow> destroyed (wins s p) = 0 \<and> refcount (wins s p) \<noteq> 0"
  shows "\<exists>s5. release_window_refs_locked ps s4 = Some s5 \<and> mset (window_list s5) = mset (window_list s) \<and>
    heap s5 = heap s \<and> window_list s5 = window_list s4 \<and> dragging_window s5 = dragging_window s4 \<and>
    (\<forall>p. refcount (wins s5 p) = (if p \<in> set ps then refcount (wins s p) - 1 else refcount (wins s p)) \<and>
      destroyed (wins s5 p) = destroyed (wins s p))"
proof -
  have "refcount (wins s4 p) \<noteq> 0 \<and> destroyed (wins s4 p) = 0" if "p \<in> set ps" for p
    using p [OF that] k by (simp add: keeps_def)
  from release_all [OF d this] k show ?thesis by (simp add: keeps_def)
qed

text \<open>
  An update on mouse input always returns and neither loses nor duplicates a window: the list is a
  permutation of what it was, every reference count is back at its value from before the call, no
  window is destroyed and no memory freed.
\<close>

theorem window_update_keeps:
  assumes inv: "win_inv s"
  shows "\<exists>s'. window_update mx my mb s = Some s' \<and> mset (window_list s') = mset (window_list s) \<and> heap s' = heap s \<and>
    (\<forall>p. refcount (wins s' p) = refcount (wins s p) \<and> destroyed (wins s' p) = destroyed (wins s p))"
proof (cases "update_idle mx my mb s")
  case False
  let ?ps = "take 16 (window_list s)"
  have d: "distinct ?ps" "0 \<notin> set ?ps" and p: "\<And>p. p \<in> set ?ps \<Longrightarrow> destroyed (wins s p) = 0 \<and> refcount (wins s p) \<noteq> - 1"
    using inv by (auto simp: win_inv_def dest: in_set_takeD)
  define s1 where "s1 = (if cursor_initialized s then s else s\<lparr>cursor_initialized := True, cursor_x := mx, cursor_y := my\<rparr>)"
  have s1: "window_list s1 = window_list s" "wins s1 = wins s" "heap s1 = heap s" by (simp_all add: s1_def)
  define s2 where "s2 = fold retain_window_locked ?ps s1"
  have s2: "s2 = s1\<lparr>wins := (\<lambda>p. if p \<in> set ?ps then (wins s p)\<lparr>refcount := refcount (wins s p) + 1\<rparr> else wins s p)\<rparr>"
    unfolding s2_def retain_all [OF d] s1 by (rule refl)
  obtain ctx where ctx: "update_begin mx my s = (ctx, s2)" "map fst (snaps ctx) = ?ps"
    by (simp add: update_begin_def snapshot_window_list_def Let_def s2_def o_def s1 flip: s1_def)
  have p2: "\<And>p. p \<in> set ?ps \<Longrightarrow> destroyed (wins s2 p) = 0 \<and> refcount (wins s2 p) \<noteq> 0"
  proof -
    fix q assume q: "q \<in> set ?ps"
    then have "refcount (wins s q) + 1 \<noteq> 0" using p [OF q] by (metis add.commute add_eq_0_iff)
    then show "destroyed (wins s2 q) = 0 \<and> refcount (wins s2 q) \<noteq> 0" using p [OF q] q by (simp add: s2)
  qed
  have fin: "\<exists>s4. keeps s2 s4 \<and> update_finish mx my mb ctx s2 = do {
        s5 \<leftarrow> release_window_refs_locked (map fst (snaps ctx)) s4;
        Some (if dragging_window s5 \<noteq> 0 \<and> destroyed (wins s5 (dragging_window s5)) \<noteq> 0
              then s5\<lparr>dragging_window := 0\<rparr> else s5) }"
  proof -
    let ?q = "if cursor_was_initialized ctx then s2 else queue_dirty_rect (cursor_rect mx my) s2"
    let ?press = "if bit mb 0 \<and> drag_candidate ctx = 0 then find_window_hit (snaps ctx) mx my else no_hit"
    let ?b = "if bit mb 0 then handle_press mx my ?press ?q else ?q\<lparr>dragging_window := 0\<rparr>"
    let ?m = "mx \<noteq> last_mx s2 \<or> my \<noteq> last_my s2"
    let ?c = "if ?m then handle_move mx my (if ?m then find_window_hit (snaps ctx) mx my else no_hit) ?b else ?b"
    have "keeps s2 ?q" by simp
    moreover have "keeps ?q ?b" by (simp add: keeps_press)
    moreover have "keeps ?b ?c" by (simp add: keeps_move)
    moreover have "keeps ?c (?c\<lparr>cursor_x := mx, cursor_y := my, last_mb := mb, last_mx := mx, last_my := my\<rparr>)"
      by (simp add: keeps_def)
    ultimately have "keeps s2 (?c\<lparr>cursor_x := mx, cursor_y := my, last_mb := mb, last_mx := mx, last_my := my\<rparr>)"
      by (blast intro: keeps_trans)
    then show ?thesis by (intro exI conjI) (assumption, simp only: update_finish_def Let_def)
  qed
  then obtain s4 where s4: "keeps s2 s4" "update_finish mx my mb ctx s2 = do {
        s5 \<leftarrow> release_window_refs_locked ?ps s4;
        Some (if dragging_window s5 \<noteq> 0 \<and> destroyed (wins s5 (dragging_window s5)) \<noteq> 0
              then s5\<lparr>dragging_window := 0\<rparr> else s5) }" unfolding ctx(2) by blast
  from update_finish_core [OF d s4(1) p2] obtain s5 where s5: "release_window_refs_locked ?ps s4 = Some s5"
    "mset (window_list s5) = mset (window_list s2)" "heap s5 = heap s2"
    "\<forall>p. refcount (wins s5 p) = (if p \<in> set ?ps then refcount (wins s2 p) - 1 else refcount (wins s2 p)) \<and>
      destroyed (wins s5 p) = destroyed (wins s2 p)" by blast
  have "window_update mx my mb s = Some (if dragging_window s5 \<noteq> 0 \<and> destroyed (wins s5 (dragging_window s5)) \<noteq> 0
              then s5\<lparr>dragging_window := 0\<rparr> else s5)"
    using False ctx(1) s4(2) s5(1) by (simp add: window_update_def)
  then show ?thesis using s5(2-) s1 by (auto simp: s2)
qed (simp add: window_update_def)

subsection \<open>Destroying windows\<close>

text \<open>The payloads a window owns: itself and its pixel buffer.\<close>

definition owned :: "(u64 \<Rightarrow> window_t) \<Rightarrow> u64 \<Rightarrow> nat list" where
  "owned ws p = unat p # (if w_buffer (ws p) = 0 then [] else [unat (w_buffer (ws p))])"

definition windows_live :: "kheap \<Rightarrow> (u64 \<Rightarrow> window_t) \<Rightarrow> u64 list \<Rightarrow> bool" where
  "windows_live h ws ps \<longleftrightarrow> heap_inv h \<and> 0 \<notin> set ps \<and> distinct (concat (map (owned ws) ps)) \<and>
     (\<forall>a \<in> set (concat (map (owned ws) ps)). \<exists>k. (a, k) \<in> live h)"

text \<open>Live payloads without those at given addresses.\<close>

definition without :: "nat set \<Rightarrow> (nat \<times> nat) set \<Rightarrow> (nat \<times> nat) set" where
  "without A L = {(a, k) \<in> L. a \<notin> A}"

lemma kfree_without:
  assumes "heap_inv h" and "(unat p, k) \<in> live h"
  shows "\<exists>h'. kfree p h = Some h' \<and> heap_inv h' \<and> live h' = without {unat p} (live h)"
proof -
  from heap.give_back_live [OF assms] obtain h' where h': "kfree p h = Some h'" "heap_inv h'"
    "live h' = live h - {(unat p, k)}" by blast
  have "j = k" if "(unat p, j) \<in> live h" for j
    using heap.live_apart [OF assms(1) that assms(2)] by (cases "j = k") auto
  then show ?thesis using h' by (auto simp: without_def)
qed

lemma free_window_exact:
  assumes "windows_live (heap s) (wins s) (p # ps)"
  shows "\<exists>h'. free_window p s = Some (s\<lparr>heap := h'\<rparr>) \<and> windows_live h' (wins s) ps \<and>
    live h' = without (set (owned (wins s) p)) (live (heap s))"
proof -
  have h: "heap_inv (heap s)" and p: "p \<noteq> 0" and d: "distinct (owned (wins s) p)"
    and l: "\<And>a. a \<in> set (owned (wins s) p) \<Longrightarrow> \<exists>k. (a, k) \<in> live (heap s)"
    using assms by (auto simp: windows_live_def)
  obtain h1 where h1: "(if w_buffer (wins s p) \<noteq> 0 then kfree (w_buffer (wins s p)) (heap s) else Some (heap s)) = Some h1"
    "heap_inv h1" "live h1 = without (set (tl (owned (wins s) p))) (live (heap s))"
  proof (cases "w_buffer (wins s p) = 0")
    case True
    then show thesis using that [of "heap s"] h by (auto simp: owned_def without_def)
  next
    case False
    then obtain k where "(unat (w_buffer (wins s p)), k) \<in> live (heap s)" using l by (auto simp: owned_def)
    from kfree_without [OF h this] False that show thesis by (auto simp: owned_def)
  qed
  obtain k where "(unat p, k) \<in> live h1" using l [of "unat p"] d h1(3) by (auto simp: owned_def without_def split: if_splits)
  from kfree_without [OF h1(2) this] obtain h' where h': "kfree p h1 = Some h'" "heap_inv h'"
    "live h' = without {unat p} (live h1)" by blast
  have lv: "live h' = without (set (owned (wins s) p)) (live (heap s))"
    using h'(3) h1(3) by (auto simp: without_def owned_def)
  moreover have "windows_live h' (wins s) ps"
    using assms h'(2) lv unfolding windows_live_def by (fastforce simp: without_def)
  ultimately show ?thesis using p h1(1) h'(1) by (intro exI [of _ h']) (simp add: free_window_def)
qed

lemma destroy_walk_exact:
  "windows_live (heap s) (wins s) ps \<Longrightarrow>
   \<exists>s'. destroy_walk pid ps s = Some (filter (\<lambda>p. owner_pid (wins s p) \<noteq> pid) ps, s') \<and> heap_inv (heap s') \<and>
     wins s' = (\<lambda>p. if p \<in> set ps \<and> owner_pid (wins s p) = pid then (wins s p)\<lparr>destroyed := 1\<rparr> else wins s p) \<and>
     window_list s' = window_list s \<and>
     live (heap s') = without (\<Union>p \<in> {p \<in> set ps. owner_pid (wins s p) = pid \<and> refcount (wins s p) = 0}. set (owned (wins s) p))
       (live (heap s))"
proof (induction ps arbitrary: s)
  case Nil
  then show ?case by (simp add: windows_live_def without_def fun_eq_iff)
next
  case (Cons p ps)
  have tl: "windows_live (heap s) (wins s) ps" using Cons.prems by (auto simp: windows_live_def)
  have pn: "p \<notin> set ps"
    using Cons.prems by (auto simp: windows_live_def owned_def split: if_splits)
  show ?case
  proof (cases "owner_pid (wins s p) = pid")
    case False
    from Cons.IH [OF tl] obtain s' where "destroy_walk pid ps s = Some (filter (\<lambda>p. owner_pid (wins s p) \<noteq> pid) ps, s')"
      "heap_inv (heap s')" "window_list s' = window_list s"
      "wins s' = (\<lambda>p. if p \<in> set ps \<and> owner_pid (wins s p) = pid then (wins s p)\<lparr>destroyed := 1\<rparr> else wins s p)"
      "live (heap s') = without (\<Union>p \<in> {p \<in> set ps. owner_pid (wins s p) = pid \<and> refcount (wins s p) = 0}. set (owned (wins s) p))
       (live (heap s))" by blast
    moreover have "{q \<in> set (p # ps). owner_pid (wins s q) = pid \<and> refcount (wins s q) = 0} =
        {q \<in> set ps. owner_pid (wins s q) = pid \<and> refcount (wins s q) = 0}" using False by auto
    ultimately show ?thesis using False by (auto simp: fun_eq_iff)
  next
    case True
    define s1 where "s1 = queue_dirty_rect (window_outer_rect (wins s p)) s"
    define s3 where "s3 = upd_win p (\<lambda>w. w\<lparr>destroyed := 1\<rparr>) (if dragging_window s1 = p then s1\<lparr>dragging_window := 0\<rparr> else s1)"
    have s3: "heap s3 = heap s" "window_list s3 = window_list s"
      "wins s3 = (wins s)(p := (wins s p)\<lparr>destroyed := 1\<rparr>)" by (simp_all add: s3_def s1_def upd_win_def)
    have o3: "owned (wins s3) q = owned (wins s) q" for q by (simp add: s3 owned_def)
    then have of3: "owned (wins s3) = owned (wins s)" by (rule ext)
    have l3: "windows_live (heap s3) (wins s3) (p # ps)"
      using Cons.prems unfolding windows_live_def of3 s3(1) .
    obtain s4 where s4: "(if refcount (wins s3 p) = 0 then free_window p s3 else Some s3) = Some s4"
      "wins s4 = wins s3" "window_list s4 = window_list s" "windows_live (heap s4) (wins s3) ps"
      "live (heap s4) = without (if refcount (wins s p) = 0 then set (owned (wins s) p) else {}) (live (heap s))"
    proof (cases "refcount (wins s p) = 0")
      case True
      from free_window_exact [OF l3] that True s3 o3 show thesis by auto
    next
      case False
      have "windows_live (heap s3) (wins s3) ps" using tl unfolding windows_live_def of3 s3(1) .
      then show thesis using that [of s3] s3 False by (simp add: without_def)
    qed
    from Cons.IH [of s4] s4(2,4) obtain s' where s': "destroy_walk pid ps s4 = Some (filter (\<lambda>p. owner_pid (wins s4 p) \<noteq> pid) ps, s')"
      "heap_inv (heap s')" "window_list s' = window_list s4"
      "wins s' = (\<lambda>p. if p \<in> set ps \<and> owner_pid (wins s4 p) = pid then (wins s4 p)\<lparr>destroyed := 1\<rparr> else wins s4 p)"
      "live (heap s') = without (\<Union>p \<in> {p \<in> set ps. owner_pid (wins s4 p) = pid \<and> refcount (wins s4 p) = 0}. set (owned (wins s4) p))
       (live (heap s4))" by auto
    have e: "owner_pid (wins s4 q) = owner_pid (wins s q)" "refcount (wins s4 q) = refcount (wins s q)"
      "owned (wins s4) q = owned (wins s) q" for q by (simp_all add: s4(2) s3 o3 owned_def)
    have "destroy_walk pid (p # ps) s =
      do { s4 \<leftarrow> (if refcount (wins s3 p) = 0 then free_window p s3 else Some s3); destroy_walk pid ps s4 }"
      unfolding destroy_walk.simps if_P [OF True] Let_def s1_def [symmetric] s3_def [symmetric] by (rule refl)
    then have w: "destroy_walk pid (p # ps) s = destroy_walk pid ps s4" unfolding s4(1) by simp
    have "wins s' = (\<lambda>q. if q \<in> set (p # ps) \<and> owner_pid (wins s q) = pid then (wins s q)\<lparr>destroyed := 1\<rparr> else wins s q)"
      unfolding s'(4) e using True by (auto simp: s4(2) s3 fun_eq_iff)
    moreover have "live (heap s') = without (\<Union>q \<in> {q \<in> set (p # ps). owner_pid (wins s q) = pid \<and> refcount (wins s q) = 0}. set (owned (wins s) q))
       (live (heap s))" unfolding s'(5) e s4(5) using True by (auto simp: without_def)
    ultimately show ?thesis using True s'(1-3) s4(3) unfolding w by (simp add: e)
  qed
qed

text \<open>
  C14. window_destroy_by_pid always returns; the windows of the process leave the list, the others stay in
  their order; exactly the memory of those of its windows that nobody holds is freed, so a window
  that a redraw or an update in progress has retained, and its pixel buffer, remain allocated, marked
  destroyed.
\<close>

theorem window_destroy_exact:
  assumes "windows_live (heap s) (wins s) (window_list s)"
  shows "\<exists>s'. window_destroy_by_pid pid s = Some s' \<and> heap_inv (heap s') \<and>
    window_list s' = filter (\<lambda>p. owner_pid (wins s p) \<noteq> pid) (window_list s) \<and>
    (\<forall>p. destroyed (wins s' p) = (if p \<in> set (window_list s) \<and> owner_pid (wins s p) = pid then 1 else destroyed (wins s p))) \<and>
    live (heap s') = without (\<Union>p \<in> {p \<in> set (window_list s). owner_pid (wins s p) = pid \<and> refcount (wins s p) = 0}.
      set (owned (wins s) p)) (live (heap s))"
proof -
  from destroy_walk_exact [OF assms, of pid] obtain s' where
    "destroy_walk pid (window_list s) s = Some (filter (\<lambda>p. owner_pid (wins s p) \<noteq> pid) (window_list s), s')"
    "heap_inv (heap s')" "wins s' = (\<lambda>p. if p \<in> set (window_list s) \<and> owner_pid (wins s p) = pid
      then (wins s p)\<lparr>destroyed := 1\<rparr> else wins s p)"
    "live (heap s') = without (\<Union>p \<in> {p \<in> set (window_list s). owner_pid (wins s p) = pid \<and> refcount (wins s p) = 0}.
      set (owned (wins s) p)) (live (heap s))" by blast
  then show ?thesis by (simp add: window_destroy_by_pid_def)
qed

subsection \<open>Redrawing\<close>

text \<open>Drawing changes nothing but the back buffer.\<close>

definition draws :: "gfx \<Rightarrow> gfx \<Rightarrow> bool" where
  "draws g g' \<longleftrightarrow> g' = g\<lparr>back_px := back_px g'\<rparr>"

lemma draws_refl [simp]: "draws g g"
  by (simp add: draws_def)

lemma draws_trans: "draws g h \<Longrightarrow> draws h k \<Longrightarrow> draws g k"
  unfolding draws_def by (metis gfx.update_convs(7) gfx.surjective gfx.select_convs(7))

lemma draws_fold: "(\<And>x g. draws g (f x g)) \<Longrightarrow> draws g (fold f xs g)"
  by (induction xs arbitrary: g) (auto intro: draws_trans)

lemma draws_put_pixel [simp]: "draws g (graphics_put_pixel x y c g)"
  by (simp add: draws_def graphics_put_pixel_def)

lemma draws_primitives [simp]:
  "draws g (graphics_draw_rect x y w h c g)" "draws g (graphics_draw_cursor x y g)"
  "draws g (graphics_clear_rect rx' ry' rw' rh' c g)"
  by (simp_all add: graphics_draw_rect_def graphics_draw_cursor_def draws_fold clear_rect_back split: prod.splits)
    (simp add: draws_def)

lemma draws_clipped [simp]: "draws g (draw_rect_clipped cl x y w h c g)"
  by (simp add: draw_rect_clipped_def split: option.splits)

lemma draws_buffer [simp]: "draws g (draw_window_buffer_clipped bs cl win g)"
  by (simp add: draw_window_buffer_clipped_def Let_def draws_fold split: option.splits)

lemma draws_window [simp]: "draws g (draw_window_clipped bs cl win g)"
  unfolding draw_window_clipped_def Let_def
  by (rule draws_trans [OF _ draws_clipped] draws_trans [OF _ draws_buffer] draws_clipped)+

lemma draws_redraw [simp]: "draws g (redraw_rect bs sns r g)"
  unfolding redraw_rect_def by (rule draws_trans [OF draws_primitives(3) draws_fold]) simp

lemma draws_fields:
  assumes "draws g g'"
  shows "fb_width g' = fb_width g" "fb_height g' = fb_height g" "fb_pitch g' = fb_pitch g" "fb_addr g' = fb_addr g"
    "backbuffer g' = backbuffer g" "front_px g' = front_px g"
proof -
  obtain b where b: "g' = g\<lparr>back_px := b\<rparr>" using assms unfolding draws_def by blast
  show "fb_width g' = fb_width g" "fb_height g' = fb_height g" "fb_pitch g' = fb_pitch g" "fb_addr g' = fb_addr g"
    "backbuffer g' = backbuffer g" "front_px g' = front_px g" by (simp_all add: b)
qed

lemma swap_rects_fields [simp]:
  "back_px (graphics_swap_rects rs g) = back_px g"
proof -
  have "back_px (fold swap_rect rs g) = back_px g" by (induction rs arbitrary: g) simp_all
  then show ?thesis by (simp add: graphics_swap_rects_def)
qed


subsection \<open>Witnesses\<close>

definition demo_window :: "u32 \<Rightarrow> u64 \<Rightarrow> u32 \<Rightarrow> window_t" where
  "demo_window i pid refs = \<lparr>w_id = i, w_x = 1, w_y = 1, w_w = 40, w_h = 60, title_color = 0, bg_color = 0, w_buffer = 0,
     owner_pid = pid, w_dirty = 0, destroyed = 0, refcount = refs,
     event_queue = (\<lambda>_. \<lparr>ev_type = 0, ev_x = 0, ev_y = 0, ev_data = 0\<rparr>), event_head = 9, event_tail = 9\<rparr>"

text \<open>A system with the windows of a list, of which the first holds the single dirty rectangle.\<close>

definition demo_wsys :: "kheap \<Rightarrow> u64 list \<Rightarrow> (u64 \<Rightarrow> window_t) \<Rightarrow> wsys" where
  "demo_wsys h ps ws = \<lparr>kvm = \<lparr>pmem = (\<lambda>_. 0), frames = flat_pmm 0, current_pml4 = 0x1000, cr3 = 0x1000\<rparr>,
     heap = h, tasks = (\<lambda>_. \<lparr>t_id = 0, rsp = 0, stack_bottom = 0, user_stack_bottom = 0, kernel_rsp = 0, t_pml4 = 0,
       t_state = TASK_RUNNING, t_cpu_id = 0, timeslice = 0, t_total_ticks = 0, t_next = 0\<rparr>), cpus = [], next_id = 1,
     gfx = wide_gfx, bufs = (\<lambda>_ _. 0), wins = ws, window_list = ps, next_window_id = 3,
     dirty_rects = [make_rect 2 3 4 1], cursor_x = 0, cursor_y = 0, cursor_initialized = True, dragging_window = 0,
     drag_off_x = 0, drag_off_y = 0, last_mb = 0, last_mx = 0, last_my = 0\<rparr>"

definition demo_wins :: "u64 \<Rightarrow> window_t" where
  "demo_wins p = (if p = 0x1000018 then demo_window 1 7 1 else demo_window 2 8 0)"

lemma demo_wsys_fields [simp]:
  "gfx (demo_wsys h ps ws) = wide_gfx" "wins (demo_wsys h ps ws) = ws" "window_list (demo_wsys h ps ws) = ps"
  "dirty_rects (demo_wsys h ps ws) = [make_rect 2 3 4 1]" "heap (demo_wsys h ps ws) = h"
  by (simp_all add: demo_wsys_def)

lemma demo_dirty: "dirty_ok wide_gfx [make_rect 2 3 4 1]"
  by (simp add: dirty_ok_def inside_def make_rect_def wide_gfx_def WINDOW_MAX_DIRTY_RECTS_def)

theorem queue_dirty_covers_witness:
  "(1, 2) \<in> region (dirty_rects (queue_dirty_rect (make_rect (- 3) 2 9 2) (demo_wsys heap0 [] demo_wins)))"
proof -
  have "rect_ok (make_rect (- 3) 2 9 2)" "(1, 2) \<in> points (make_rect (- 3) 2 9 2) \<inter> screen wide_gfx"
    by (simp_all add: rect_ok_def make_rect_def points_def screen_def wide_gfx_def)
  then show ?thesis
    using queue_dirty_covers [of "demo_wsys heap0 [] demo_wins" "make_rect (- 3) 2 9 2"] wide_gfx_ok demo_dirty by auto
qed

theorem window_events_in_order_witness:
  "let evs = [\<lparr>ev_type = 3, ev_x = 0, ev_y = 0, ev_data = 65\<rparr>, \<lparr>ev_type = 3, ev_x = 0, ev_y = 0, ev_data = 66\<rparr>] in
   fst (pop_events (length evs) 1 (fold (window_push_event 0x1000018) evs (demo_wsys heap0 [0x1000018] demo_wins))) = evs"
proof -
  define evs where "evs = [\<lparr>ev_type = 3 :: u32, ev_x = 0 :: u32, ev_y = 0 :: u32, ev_data = 65 :: u32\<rparr>,
    \<lparr>ev_type = 3, ev_x = 0, ev_y = 0, ev_data = 66\<rparr>]"
  have "find_id 1 (demo_wsys heap0 [0x1000018] demo_wins) = Some 0x1000018" "ev_ok (demo_wins 0x1000018)"
    "ev_items (demo_wins 0x1000018) = []" "length evs \<le> 15"
    by (simp_all add: find_id_def demo_wins_def demo_window_def ev_ok_def ev_items_def ev_count_def evs_def)
  with window_events_in_order [of 1 "demo_wsys heap0 [0x1000018] demo_wins" "0x1000018" evs]
  have "fst (pop_events (length evs) 1 (fold (window_push_event 0x1000018) evs (demo_wsys heap0 [0x1000018] demo_wins))) = evs"
    by auto
  then show ?thesis unfolding evs_def Let_def .
qed

lemma demo_win_inv: "win_inv (demo_wsys h [0x1000018, 0x2000] demo_wins)"
  by (simp add: win_inv_def demo_wins_def demo_window_def)

theorem window_update_keeps_witness:
  "\<exists>s'. window_update 2 2 1 (demo_wsys heap0 [0x1000018, 0x2000] demo_wins) = Some s' \<and>
     mset (window_list s') = {#0x1000018, 0x2000#} \<and> refcount (wins s' 0x1000018) = 1"
  using window_update_keeps [OF demo_win_inv [of heap0], of 2 2 1] by (auto simp: demo_wins_def demo_window_def)


theorem window_destroy_exact_witness:
  "\<exists>h s'. window_destroy_by_pid 7 (demo_wsys h [0x1000018] demo_wins) = Some s' \<and> window_list s' = [] \<and>
     destroyed (wins s' 0x1000018) = 1 \<and> (unat (0x1000018 :: u64), 104) \<in> live (heap s')"
proof -
  obtain h where h: "heap_inv h" "heap_blocks h = [(104, False), (0xFFFF68, True)]" using heap1_example by blast
  have l: "(unat (0x1000018 :: u64), 104) \<in> live h" using h(2) by (simp add: live_def HEAP_LO_def)
  then have "windows_live h demo_wins [0x1000018]"
    using h(1) by (auto simp: windows_live_def owned_def demo_wins_def demo_window_def)
  then show ?thesis using window_destroy_exact [of "demo_wsys h [0x1000018] demo_wins" 7] l
    by (auto simp: demo_wins_def demo_window_def without_def intro!: exI [of _ h])
qed

end
