(* ===== verification/Heap_Clients.thy ===== *)
theory Heap_Clients
  imports Kmalloc
begin

text \<open>
  What clients of \<open>kmalloc\<close> and \<open>kfree\<close> need beyond the contract of the heap: a request that is freed
  again leaves the heap exactly as it was, and a heap with a large enough free block serves a request and
  still has room for what the client asks for next.
\<close>

subsection \<open>The live payloads determine the blocks\<close>

lemma lives_first:
  "lives lo bs = (a, k) # vs \<Longrightarrow> coalesced bs \<Longrightarrow>
   (a = lo + 24 \<and> (\<exists>cs. bs = (k, False) # cs \<and> lives (lo + 24 + k) cs = vs)) \<or>
   (\<exists>m cs. a = lo + 24 + m + 24 \<and> bs = (m, True) # (k, False) # cs \<and> lives (lo + 24 + m + 24 + k) cs = vs)"
proof (cases bs)
  case (Cons b cs)
  assume l: "lives lo bs = (a, k) # vs" and c: "coalesced bs"
  show ?thesis
  proof (cases "snd b")
    case False
    then show ?thesis using l Cons by (cases b) auto
  next
    case True
    show ?thesis
    proof (cases cs)
      case Nil
      then show ?thesis using l Cons True by simp
    next
      case (Cons d ds)
      then have "\<not> snd d" using c \<open>bs = b # cs\<close> True by simp
      then show ?thesis using l Cons \<open>bs = b # cs\<close> True by (cases b; cases d) auto
    qed
  qed
qed simp

lemma lives_none: "lives lo bs = [] \<Longrightarrow> coalesced bs \<Longrightarrow> bs = [] \<or> (\<exists>m. bs = [(m, True)])"
  by (cases bs; cases "tl bs") (auto split: if_splits)

lemma coalesced_tail: "coalesced (b # bs) \<Longrightarrow> coalesced bs"
  by (cases bs) auto

lemma blocks_unique:
  "lives lo bs = lives lo bs' \<Longrightarrow> coalesced bs \<Longrightarrow> coalesced bs' \<Longrightarrow> extent bs = extent bs' \<Longrightarrow> bs = bs'"
proof (induction "lives lo bs" arbitrary: lo bs bs')
  case Nil
  then show ?case using lives_none [of lo bs] lives_none [of lo bs'] by auto
next
  case (Cons x vs)
  obtain a k where x: "x = (a, k)" by (cases x)
  have l: "lives lo bs = (a, k) # vs" "lives lo bs' = (a, k) # vs" using Cons.hyps(2) Cons.prems(1) x by simp_all
  from lives_first [OF l(1) Cons.prems(2)] lives_first [OF l(2) Cons.prems(3)] show ?case
  proof (elim disjE exE conjE)
    fix cs cs'
    assume h: "bs = (k, False) # cs" "lives (lo + 24 + k) cs = vs" "bs' = (k, False) # cs'" "lives (lo + 24 + k) cs' = vs"
    have "coalesced cs" "coalesced cs'" "extent cs = extent cs'"
      using Cons.prems(2-4) coalesced_tail unfolding h(1,3) by (blast, blast, simp)
    then have "cs = cs'" using h(2,4) by (intro Cons.hyps(1) [of "lo + 24 + k"]) simp_all
    then show "bs = bs'" using h by simp
  next
    fix m m' cs cs'
    assume h: "a = lo + 24 + m + 24" "bs = (m, True) # (k, False) # cs" "lives (lo + 24 + m + 24 + k) cs = vs"
      "a = lo + 24 + m' + 24" "bs' = (m', True) # (k, False) # cs'" "lives (lo + 24 + m' + 24 + k) cs' = vs"
    then have m: "m = m'" by simp
    have "coalesced cs" "coalesced cs'" "extent cs = extent cs'"
      using Cons.prems(2-4) coalesced_tail m unfolding h(2,5) by (blast, blast, simp)
    then have "cs = cs'" using h(3,6) m by (intro Cons.hyps(1) [of "lo + 24 + m + 24 + k"]) simp_all
    then show "bs = bs'" using h m by simp
  qed auto
qed

lemma lives_sorted_unique:
  assumes "set (lives lo bs) = set (lives lo bs')"
  shows "lives lo bs = lives lo bs'"
proof -
  have "sorted_wrt (\<lambda>x y. fst x < fst y) (lives lo cs)" for cs
    by (rule sorted_wrt_mono_rel [OF _ lives_separated]) auto
  then have "sorted (map fst (lives lo cs)) \<and> distinct (map fst (lives lo cs))" for cs
    by (simp add: strict_sorted_iff sorted_wrt_map flip: sorted_wrt_map)
  then show ?thesis using assms map_sorted_distinct_set_unique [of fst "lives lo bs" "lives lo bs'"]
    by (simp add: inj_on_def) (metis distinct_map inj_on_def)
qed

text \<open>Two well-formed heaps with the same live payloads have the same blocks.\<close>

lemma live_determines_blocks:
  assumes "heap_inv s" and "heap_inv s'" and "live s = live s'"
  shows "heap_blocks s = heap_blocks s'"
proof (rule blocks_unique [of HEAP_LO])
  have "HEAP_LO + extent (heap_blocks s) = 0x2000000" "HEAP_LO + extent (heap_blocks s') = 0x2000000"
    using assms(1,2) by (auto simp: heap_inv_def intro: rep_extent)
  then show "extent (heap_blocks s) = extent (heap_blocks s')" by simp
  show "lives HEAP_LO (heap_blocks s) = lives HEAP_LO (heap_blocks s')"
    by (rule lives_sorted_unique) (use assms(3) in \<open>simp add: live_def\<close>)
qed (use assms(1,2) in \<open>simp_all add: heap_inv_def\<close>)

subsection \<open>Room\<close>

definition has_room :: "nat \<Rightarrow> kheap \<Rightarrow> bool" where
  "has_room k s \<longleftrightarrow> (\<exists>m \<ge> k. (m, True) \<in> set (heap_blocks s))"

lemma has_room_mono: "has_room k s \<Longrightarrow> j \<le> k \<Longrightarrow> has_room j s"
  unfolding has_room_def by (meson le_trans)

lemma has_room_blocks: "heap_blocks s = heap_blocks s' \<Longrightarrow> has_room k s = has_room k s'"
  by (simp add: has_room_def)

lemma kmalloc_room:
  assumes inv: "heap_inv s" and room: "has_room (k + unat (align8 n) + 24) s" and k: "8 \<le> k"
  obtains p j s' where "kmalloc n s = Some (p, s')" "p \<noteq> 0" "heap_inv s'" "has_room k s'"
    "(unat p, j) \<notin> live s" "live s' = insert (unat p, j) (live s)"
proof -
  let ?n = "unat (align8 n)"
  from kmalloc_total [OF inv] obtain p s' where m: "kmalloc n s = Some (p, s')" by blast
  from room obtain m0 where m0: "k + ?n + 24 \<le> m0" "(m0, True) \<in> set (heap_blocks s)" by (auto simp: has_room_def)
  from inv m show thesis
  proof (cases rule: kmalloc_cases)
    case full
    then show thesis using m0 by (auto simp: first_fit_None)
  next
    case (granted a j us vs)
    from first_fit_split [OF granted(4)] obtain xs l ys where bs: "heap_blocks s = xs @ (l, True) # ys"
      "heap_blocks s' = xs @ carve ?n l @ ys" by blast
    have "has_room k s'"
    proof (cases "(m0, True) \<in> set (xs @ ys)")
      case True
      then show ?thesis using m0(1) bs(2) unfolding has_room_def by (intro exI [of _ m0]) auto
    next
      case False
      then have "l = m0" using m0(2) bs(1) by auto
      then have "carve ?n l = [(?n, False), (m0 - ?n - 24, True)]" using m0(1) k by (simp add: carve_def)
      then show ?thesis using m0(1) bs(2) unfolding has_room_def by (intro exI [of _ "m0 - ?n - 24"]) auto
    qed
    moreover have "p \<noteq> 0" using granted(2,9) by auto
    moreover have "(a, j) \<notin> live s" "live s' = insert (a, j) (live s)" by (rule live_insert [OF granted(5,6)])+
    ultimately show thesis using that [OF m] granted(2,3) by simp
  qed
qed

end
