(* ===== verification/E1000.thy ===== *)
theory E1000
  imports Heap_Clients
begin

text \<open>
  The transmit and receive rings of the network card, \<open>src/kernel/e1000.c\<close>. The card is outside the
  sources: what a read of a descriptor's status answers, the frames that arrive and the values of the
  tick counter are inputs of the model, part of its state as sequences that the reads consume.
  The result \<open>None\<close> stands for a call that does not return or that writes outside its buffer.
\<close>

subsection \<open>State\<close>

record e1000_rx_desc =
  rx_addr :: u64
  rx_length :: u16
  rx_status :: u8

record e1000_tx_desc =
  tx_addr :: u64
  tx_length :: u16
  tx_cmd :: u8
  tx_status :: u8

text \<open>
  \<open>nmem\<close> is the memory of the packet buffers, \<open>nheap\<close> the kernel heap that temporary buffers come from.
  \<open>regs\<close> are the writes to the card's registers, \<open>wire\<close> the frames handed to it. The inputs: \<open>done_reads n\<close>
  is the status the \<open>n\<close>-th poll for completion reads; \<open>arrivals\<close> says for each read of a receive status
  whether a frame has arrived just before; \<open>ticks_at n\<close> is the \<open>n\<close>-th read of the tick counter.
\<close>

record nic =
  nheap :: kheap
  nmem :: mem
  mmio_base :: u64
  rx_descs :: "nat \<Rightarrow> e1000_rx_desc"
  tx_descs :: "nat \<Rightarrow> e1000_tx_desc"
  tx_tail :: u16
  rx_cur :: u16
  mac_addr :: "u8 list"
  regs :: "(u16 \<times> u32) list"
  wire :: "u8 list list"
  done_reads :: "nat \<Rightarrow> u8"
  done_pos :: nat
  arrivals :: "u8 list option list"
  rx_head :: nat
  ticks_at :: "nat \<Rightarrow> u64"
  tick_pos :: nat

definition NUM_RX_DESCS :: u16 where "NUM_RX_DESCS = 128"
definition NUM_TX_DESCS :: u16 where "NUM_TX_DESCS = 128"
definition REG_TDT :: u16 where "REG_TDT = 0x3818"
definition REG_RDT :: u16 where "REG_RDT = 0x2818"

definition write_reg :: "u16 \<Rightarrow> u32 \<Rightarrow> 'a nic_scheme \<Rightarrow> 'a nic_scheme" where
  "write_reg r v s = s\<lparr>regs := regs s @ [(r, v)]\<rparr>"

text \<open>\<open>n\<close> bytes of memory from an address on, and bytes copied to an address.\<close>

definition mbytes :: "mem \<Rightarrow> u64 \<Rightarrow> nat \<Rightarrow> u8 list" where
  "mbytes m a n = map (\<lambda>i. m (a + word_of_nat i)) [0..<n]"

fun put_bytes :: "u64 \<Rightarrow> u8 list \<Rightarrow> mem \<Rightarrow> mem" where
  "put_bytes a [] m = m"
| "put_bytes a (b # bs) m = put_bytes (a + 1) bs (m(a := b))"

subsection \<open>Addresses\<close>

text \<open>The two registers with the card's address, low byte first.\<close>

definition e1000_read_mac :: "u32 \<Rightarrow> u32 \<Rightarrow> 'a nic_scheme \<Rightarrow> 'a nic_scheme" where
  "e1000_read_mac low high s =
     s\<lparr>mac_addr := [ucast (low AND 0xFF), ucast (drop_bit 8 low AND 0xFF), ucast (drop_bit 16 low AND 0xFF),
        ucast (drop_bit 24 low AND 0xFF), ucast (high AND 0xFF), ucast (drop_bit 8 high AND 0xFF)]\<rparr>"

definition e1000_get_mac :: "'a nic_scheme \<Rightarrow> u8 list" where
  "e1000_get_mac s = take 6 (mac_addr s)"

subsection \<open>Transmit\<close>

text \<open>The loop that waits until the card reports the descriptor done.\<close>

partial_function (option) wait_done :: "nat \<Rightarrow> 'a nic_scheme \<Rightarrow> 'a nic_scheme option" where
  "wait_done old_tail s =
     (let st = done_reads s (done_pos s);
          s' = s\<lparr>done_pos := done_pos s + 1, tx_descs := (tx_descs s)(old_tail := (tx_descs s old_tail)\<lparr>tx_status := st\<rparr>)\<rparr>
      in if st AND 0xF = 0 then wait_done old_tail s' else Some s')"

text \<open>
  \<open>data\<close> are the \<open>len\<close> bytes behind the pointer. The write of the tail register hands the descriptor to
  the card, which fetches \<open>length\<close> bytes from \<open>addr\<close>.
\<close>

definition e1000_send_packet :: "u8 list \<Rightarrow> u16 \<Rightarrow> 'a nic_scheme \<Rightarrow> 'a nic_scheme option" where
  "e1000_send_packet data len s =
     (let t = unat (tx_tail s);
          d = (tx_descs s t)\<lparr>tx_length := len, tx_status := 0, tx_cmd := push_bit 3 1 OR 1\<rparr>;
          s1 = s\<lparr>tx_descs := (tx_descs s)(t := d), nmem := put_bytes (tx_addr d) (take (unat len) data) (nmem s)\<rparr>;
          s2 = s1\<lparr>tx_tail := (tx_tail s1 + 1) mod NUM_TX_DESCS\<rparr>;
          s3 = write_reg REG_TDT (ucast (tx_tail s2)) s2;
          s4 = s3\<lparr>wire := wire s3 @ [mbytes (nmem s3) (tx_addr d) (unat (tx_length d))]\<rparr>
      in wait_done t s4)"

subsection \<open>Receive\<close>

text \<open>An arriving frame fills the buffer and the descriptor at the card's head and sets its done bit.\<close>

definition card_receives :: "u8 list \<Rightarrow> 'a nic_scheme \<Rightarrow> 'a nic_scheme" where
  "card_receives fr s =
     (let i = rx_head s; d = rx_descs s i
      in s\<lparr>nmem := put_bytes (rx_addr d) fr (nmem s),
           rx_descs := (rx_descs s)(i := d\<lparr>rx_length := word_of_nat (length fr), rx_status := 1\<rparr>),
           rx_head := (i + 1) mod 128\<rparr>)"

definition read_rx_status :: "'a nic_scheme \<Rightarrow> u8 \<times> 'a nic_scheme" where
  "read_rx_status s =
     (let s1 = (case arrivals s of [] \<Rightarrow> s
                | None # rest \<Rightarrow> s\<lparr>arrivals := rest\<rparr>
                | Some fr # rest \<Rightarrow> card_receives fr (s\<lparr>arrivals := rest\<rparr>))
      in (rx_status (rx_descs s1 (unat (rx_cur s1))), s1))"

text \<open>
  The loop of \<open>e1000_poll\<close>. The handler \<open>net_handle_packet\<close> of the frame may poll again, so it is a parameter
  that receives the nested poll and the fuel left for the loops it contains.
\<close>

definition mounted :: "('a nic_scheme \<Rightarrow> 'a nic_scheme option) \<Rightarrow> 'a nic_scheme \<Rightarrow> 'a nic_scheme option" where
  "mounted f s = (if mmio_base s = 0 then Some s else f s)"

type_synonym 'a packet_handler = "('a nic_scheme \<Rightarrow> 'a nic_scheme option) \<Rightarrow> nat \<Rightarrow> u64 \<Rightarrow> u16 \<Rightarrow> 'a nic_scheme \<Rightarrow> 'a nic_scheme option"

primrec e1000_drain :: "'a packet_handler \<Rightarrow> nat \<Rightarrow> 'a nic_scheme \<Rightarrow> 'a nic_scheme option" where
  "e1000_drain handle 0 s = None"
| "e1000_drain handle (Suc n) s =
     (let (st, s0) = read_rx_status s
      in if st AND 1 = 0 then Some s0
         else let d = rx_descs s0 (unat (rx_cur s0)) in do {
           s1 \<leftarrow> handle (mounted (e1000_drain handle n)) n (rx_addr d) (rx_length d) s0;
           let old_cur = rx_cur s1;
           let s2 = s1\<lparr>rx_descs := (rx_descs s1)(unat old_cur := (rx_descs s1 (unat old_cur))\<lparr>rx_status := 0\<rparr>),
                         rx_cur := (old_cur + 1) mod NUM_RX_DESCS\<rparr>;
           let s3 = write_reg REG_RDT (ucast old_cur) s2;
           e1000_drain handle n s3 })"

definition e1000_poll :: "'a packet_handler \<Rightarrow> nat \<Rightarrow> 'a nic_scheme \<Rightarrow> 'a nic_scheme option" where
  "e1000_poll handle n s = mounted (e1000_drain handle n) s"

subsection \<open>Ticks\<close>

definition pit_get_ticks :: "'a nic_scheme \<Rightarrow> u64 \<times> 'a nic_scheme" where
  "pit_get_ticks s = (ticks_at s (tick_pos s), s\<lparr>tick_pos := tick_pos s + 1\<rparr>)"

subsection \<open>Temporary buffers\<close>

text \<open>
  A buffer of \<open>sz\<close> bytes from the heap is filled with \<open>content\<close>, used and freed. A null pointer, or a
  content longer than the request rounded up to the granularity of the heap, is a write outside the buffer.
\<close>

definition with_buffer :: "u64 \<Rightarrow> u8 list \<Rightarrow> ('a nic_scheme \<Rightarrow> 'a nic_scheme option) \<Rightarrow> 'a nic_scheme \<Rightarrow> 'a nic_scheme option" where
  "with_buffer sz content act s = do {
     (p, h) \<leftarrow> kmalloc sz (nheap s);
     if p = 0 \<or> unat (align8 sz) < length content then None
     else do {
       s1 \<leftarrow> act (s\<lparr>nheap := h\<rparr>);
       h' \<leftarrow> kfree p (nheap s1);
       Some (s1\<lparr>nheap := h'\<rparr>) } }"

subsection \<open>Memory lemmas\<close>

lemma length_mbytes [simp]: "length (mbytes m a n) = n"
  by (simp add: mbytes_def)

lemma mbytes_nth [simp]: "i < n \<Longrightarrow> mbytes m a n ! i = m (a + word_of_nat i)"
  by (simp add: mbytes_def)

lemma mbytes_0 [simp]: "mbytes m a 0 = []"
  by (simp add: mbytes_def)

lemma mbytes_Suc: "mbytes m a (Suc n) = m a # mbytes m (a + 1) n"
  by (rule nth_equalityI) (auto simp: nth_Cons add.assoc split: nat.splits)

lemma mbytes_add: "mbytes m a (k + n) = mbytes m a k @ mbytes m (a + word_of_nat k) n"
  by (induction k arbitrary: a) (simp_all add: mbytes_Suc add.assoc)

lemma mbytes_take: "k \<le> n \<Longrightarrow> take k (mbytes m a n) = mbytes m a k"
  by (rule nth_equalityI) simp_all

lemma mbytes_drop: "k \<le> n \<Longrightarrow> drop k (mbytes m a n) = mbytes m (a + word_of_nat k) (n - k)"
  by (rule nth_equalityI) (simp_all add: add.assoc)

lemma put_bytes_other: "\<forall>i < length bs. a + word_of_nat i \<noteq> x \<Longrightarrow> put_bytes a bs m x = m x"
proof (induction bs arbitrary: a m)
  case (Cons b bs)
  have "\<forall>i < length bs. a + 1 + word_of_nat i \<noteq> x"
  proof safe
    fix i assume "i < length bs" "x = a + 1 + word_of_nat i"
    then show False using Cons.prems [rule_format, of "Suc i"] by (simp add: add.assoc)
  qed
  moreover have "a \<noteq> x" using Cons.prems [rule_format, of 0] by simp
  ultimately show ?case using Cons.IH [of "a + 1" "m(a := b)"] by (metis fun_upd_other put_bytes.simps(2))
qed simp

lemma mbytes_put_bytes: "length bs \<le> 2 ^ 64 \<Longrightarrow> mbytes (put_bytes a bs m) a (length bs) = bs"
proof (induction bs arbitrary: a m)
  case (Cons b bs)
  have "put_bytes (a + 1) bs (m(a := b)) a = b"
  proof (subst put_bytes_other)
    show "\<forall>i < length bs. a + 1 + word_of_nat i \<noteq> a"
    proof safe
      fix i assume i: "i < length bs" "a + 1 + word_of_nat i = a"
      then have "word_of_nat (Suc i) = (0 :: u64)" by (simp add: add.assoc)
      then have "unat (word_of_nat (Suc i) :: u64) = 0" by simp
      moreover have "unat (word_of_nat (Suc i) :: u64) = Suc i"
        using i(1) Cons.prems by (simp add: unsigned_of_nat take_bit_nat_eq_self del: of_nat_Suc)
      ultimately show False by simp
    qed
  qed simp
  then show ?case using Cons by (simp add: mbytes_Suc)
qed simp

subsection \<open>Transmission\<close>

text \<open>The card reports a descriptor done, again and again.\<close>

definition card_live :: "'a nic_scheme \<Rightarrow> bool" where
  "card_live s \<longleftrightarrow> (\<forall>n. \<exists>k \<ge> n. done_reads s k AND 0xF \<noteq> 0)"

lemma wait_done_returns:
  assumes "done_reads s k AND 0xF \<noteq> 0" and "done_pos s \<le> k"
  shows "\<exists>n st. wait_done t s = Some (s\<lparr>done_pos := n, tx_descs := (tx_descs s)(t := (tx_descs s t)\<lparr>tx_status := st\<rparr>)\<rparr>)
    \<and> st AND 0xF \<noteq> 0"
  using assms
proof (induction "k - done_pos s" arbitrary: s)
  case 0
  then have "k = done_pos s" by simp
  then show ?case using 0 by (subst wait_done.simps) (auto simp: Let_def)
next
  case (Suc d)
  show ?case
  proof (cases "done_reads s (done_pos s) AND 0xF = 0")
    case True
    let ?s = "s\<lparr>done_pos := done_pos s + 1, tx_descs := (tx_descs s)(t := (tx_descs s t)\<lparr>tx_status := done_reads s (done_pos s)\<rparr>)\<rparr>"
    have "d = k - done_pos ?s" "done_pos ?s \<le> k" "done_reads ?s k AND 0xF \<noteq> 0"
      using Suc.hyps(2) Suc.prems by simp_all
    from Suc.hyps(1) [OF this(1,3,2)] obtain n st where
      "wait_done t ?s = Some (?s\<lparr>done_pos := n, tx_descs := (tx_descs ?s)(t := (tx_descs ?s t)\<lparr>tx_status := st\<rparr>)\<rparr>)"
      "st AND 0xF \<noteq> 0" by auto
    then show ?thesis using True by (subst wait_done.simps) (auto simp: Let_def)
  next
    case False
    then show ?thesis by (subst wait_done.simps) (auto simp: Let_def)
  qed
qed

text \<open>A sent frame reaches the card unchanged; the descriptor is done when the call returns.\<close>

lemma e1000_send_packet_sends:
  assumes "card_live s" and "unat len \<le> length data"
  obtains m td rg dp where "e1000_send_packet data len s = Some (s\<lparr>nmem := m, tx_descs := td,
      tx_tail := (tx_tail s + 1) mod 128, regs := rg, wire := wire s @ [take (unat len) data], done_pos := dp\<rparr>)"
    "tx_status (td (unat (tx_tail s))) AND 0xF \<noteq> 0" "tx_length (td (unat (tx_tail s))) = len"
    "\<And>i. tx_addr (td i) = tx_addr (tx_descs s i)"
    "\<And>i. i \<noteq> unat (tx_tail s) \<Longrightarrow> td i = tx_descs s i"
    "m = put_bytes (tx_addr (tx_descs s (unat (tx_tail s)))) (take (unat len) data) (nmem s)"
proof -
  define t where "t = unat (tx_tail s)"
  define d where "d = (tx_descs s t)\<lparr>tx_length := len, tx_status := 0, tx_cmd := push_bit 3 1 OR 1\<rparr>"
  define s4 where "s4 = s\<lparr>tx_descs := (tx_descs s)(t := d), nmem := put_bytes (tx_addr d) (take (unat len) data) (nmem s),
    tx_tail := (tx_tail s + 1) mod NUM_TX_DESCS, regs := regs s @ [(REG_TDT, ucast ((tx_tail s + 1) mod NUM_TX_DESCS))],
    wire := wire s @ [take (unat len) data]\<rparr>"
  have "length (take (unat len) data) = unat len" using assms(2) by simp
  moreover have "unat len \<le> 2 ^ 64" using unsigned_less [where 'a = nat, of len] by simp
  ultimately have "mbytes (put_bytes (tx_addr d) (take (unat len) data) (nmem s)) (tx_addr d) (unat len) = take (unat len) data"
    using mbytes_put_bytes [of "take (unat len) data" "tx_addr d" "nmem s"] by simp
  then have send: "e1000_send_packet data len s = wait_done t s4"
    by (simp add: e1000_send_packet_def Let_def write_reg_def s4_def d_def t_def)
  from assms(1) obtain k where "done_reads s4 k AND 0xF \<noteq> 0" "done_pos s4 \<le> k"
    unfolding card_live_def s4_def by auto
  from wait_done_returns [OF this, of t] obtain n st where
    w: "wait_done t s4 = Some (s4\<lparr>done_pos := n, tx_descs := (tx_descs s4)(t := (tx_descs s4 t)\<lparr>tx_status := st\<rparr>)\<rparr>)"
    "st AND 0xF \<noteq> 0" by blast
  show thesis
    by (rule that [of n "regs s4" "(tx_descs s4)(t := (tx_descs s4 t)\<lparr>tx_status := st\<rparr>)" "nmem s4"])
      (use w in \<open>simp_all add: send s4_def d_def t_def NUM_TX_DESCS_def\<close>)
qed

subsection \<open>Running with a buffer\<close>

text \<open>The heap is well-formed and has the same blocks.\<close>

definition heap_like :: "kheap \<Rightarrow> kheap \<Rightarrow> bool" where
  "heap_like h h' \<longleftrightarrow> heap_inv h' \<and> heap_blocks h' = heap_blocks h"

lemma heap_like_trans: "heap_like a b \<Longrightarrow> heap_like b c \<Longrightarrow> heap_like a c"
  by (simp add: heap_like_def)

lemma heap_like_room: "heap_like h h' \<Longrightarrow> has_room k h' = has_room k h"
  by (rule has_room_blocks) (simp add: heap_like_def)

text \<open>
  A buffer that fits, on a heap with room for it, is obtained, filled, used and freed, and the heap has the
  blocks of before. \<open>P\<close> is what the use of the buffer establishes.
\<close>

lemma with_buffer_runs:
  assumes inv: "heap_inv (nheap s)" and room: "has_room (k + unat (align8 sz) + 24) (nheap s)" and k: "8 \<le> k"
    and len: "length content \<le> unat (align8 sz)"
    and act: "\<And>h. heap_inv h \<Longrightarrow> has_room k h \<Longrightarrow>
      \<exists>s1. act (s\<lparr>nheap := h\<rparr>) = Some s1 \<and> heap_like h (nheap s1) \<and> P s1"
    and nh: "\<And>s1 h. P s1 \<Longrightarrow> P (s1\<lparr>nheap := h\<rparr>)"
  shows "\<exists>s'. with_buffer sz content act s = Some s' \<and> heap_like (nheap s) (nheap s') \<and> P s'"
proof -
  from kmalloc_room [OF inv room k] obtain p j h where h: "kmalloc sz (nheap s) = Some (p, h)" "p \<noteq> 0"
    "heap_inv h" "has_room k h" "(unat p, j) \<notin> live (nheap s)" "live h = insert (unat p, j) (live (nheap s))" .
  from act [OF h(3,4)] obtain s1 where s1: "act (s\<lparr>nheap := h\<rparr>) = Some s1" "heap_like h (nheap s1)" "P s1" by blast
  have l: "live (nheap s1) = live h" "heap_inv (nheap s1)" using s1(2) by (simp_all add: heap_like_def live_def)
  then have "(unat p, j) \<in> live (nheap s1)" using h(6) by simp
  from heap.give_back_live [OF l(2) this] obtain h' where h': "kfree p (nheap s1) = Some h'" "heap_inv h'"
    "live h' = live (nheap s1) - {(unat p, j)}" by blast
  have "live h' = live (nheap s)" using h'(3) l(1) h(5,6) by simp
  then have "heap_like (nheap s) h'"
    using live_determines_blocks [OF h'(2) inv] h'(2) by (simp add: heap_like_def)
  moreover have "with_buffer sz content act s = Some (s1\<lparr>nheap := h'\<rparr>)"
    using h s1 h' len by (simp add: with_buffer_def)
  ultimately show ?thesis using nh [OF s1(3)] by (intro exI [of _ "s1\<lparr>nheap := h'\<rparr>"]) simp
qed

end
