(* ===== verification/Net.thy ===== *)
theory Net
  imports E1000
begin

text \<open>
  The network stack of \<open>src/kernel/net.c\<close>: Ethernet, ARP, IPv4, ICMP, UDP and TCP segments. Packets that
  are built are lists of bytes in the layout of the packed structs of net.h; packets that arrive are
  read from memory, as the handlers do. The functions bound to ports are called through pointers: two
  functions that interpret such a pointer are parameters of the dispatch. Log messages are left out.
\<close>

subsection \<open>Byte order\<close>

definition swap16 :: "u16 \<Rightarrow> u16" where
  "swap16 x = push_bit 8 (x AND 0x00FF) OR drop_bit 8 (x AND 0xFF00)"

definition swap32 :: "u32 \<Rightarrow> u32" where
  "swap32 x = push_bit 24 (x AND 0x000000FF) OR push_bit 8 (x AND 0x0000FF00) OR
     drop_bit 8 (x AND 0x00FF0000) OR drop_bit 24 (x AND 0xFF000000)"

abbreviation htons :: "u16 \<Rightarrow> u16" where "htons \<equiv> swap16"
abbreviation ntohs :: "u16 \<Rightarrow> u16" where "ntohs \<equiv> swap16"
abbreviation htonl :: "u32 \<Rightarrow> u32" where "htonl \<equiv> swap32"
abbreviation ntohl :: "u32 \<Rightarrow> u32" where "ntohl \<equiv> swap32"

subsection \<open>State\<close>

record arp_entry =
  ae_ip :: "u8 list"
  ae_mac :: "u8 list"
  ae_valid :: bool

record binding =
  b_port :: u16
  b_handler :: u64
  b_valid :: bool

record net = nic +
  rx_packet_count :: u64
  tx_packet_count :: u64
  my_ip :: "u8 list"
  my_mac :: "u8 list"
  arp_cache :: "arp_entry list"
  udp_bindings :: "binding list"
  tcp_bindings :: "binding list"

definition ARP_CACHE_SIZE :: nat where "ARP_CACHE_SIZE = 32"
definition UDP_MAX_BINDINGS :: nat where "UDP_MAX_BINDINGS = 16"
definition TCP_MAX_BINDINGS :: nat where "TCP_MAX_BINDINGS = 16"
definition ETHERTYPE_IPV4 :: u16 where "ETHERTYPE_IPV4 = 0x0800"
definition ETHERTYPE_ARP :: u16 where "ETHERTYPE_ARP = 0x0806"
definition ARP_HTYPE_ETHERNET :: u16 where "ARP_HTYPE_ETHERNET = 1"
definition ARP_PTYPE_IPV4 :: u16 where "ARP_PTYPE_IPV4 = 0x0800"
definition ARP_OP_REQUEST :: u16 where "ARP_OP_REQUEST = 1"
definition ARP_OP_REPLY :: u16 where "ARP_OP_REPLY = 2"
definition IPV4_PROTO_ICMP :: u8 where "IPV4_PROTO_ICMP = 1"
definition IPV4_PROTO_TCP :: u8 where "IPV4_PROTO_TCP = 6"
definition IPV4_PROTO_UDP :: u8 where "IPV4_PROTO_UDP = 17"
definition ICMP_TYPE_ECHO_REPLY :: u8 where "ICMP_TYPE_ECHO_REPLY = 0"
definition ICMP_TYPE_ECHO_REQUEST :: u8 where "ICMP_TYPE_ECHO_REQUEST = 8"

definition broadcast_mac :: "u8 list" where "broadcast_mac = replicate 6 0xFF"

definition net_init :: "'a net_scheme \<Rightarrow> 'a net_scheme" where
  "net_init s = s\<lparr>my_mac := e1000_get_mac s,
     arp_cache := replicate ARP_CACHE_SIZE \<lparr>ae_ip = replicate 4 0, ae_mac = replicate 6 0, ae_valid = False\<rparr>,
     udp_bindings := replicate UDP_MAX_BINDINGS \<lparr>b_port = 0, b_handler = 0, b_valid = False\<rparr>,
     tcp_bindings := replicate TCP_MAX_BINDINGS \<lparr>b_port = 0, b_handler = 0, b_valid = False\<rparr>\<rparr>"

subsection \<open>Bindings and the ARP cache\<close>

fun bind_first :: "u16 \<Rightarrow> u64 \<Rightarrow> binding list \<Rightarrow> binding list" where
  "bind_first port handler [] = []"
| "bind_first port handler (b # bs) =
     (if \<not> b_valid b then \<lparr>b_port = port, b_handler = handler, b_valid = True\<rparr> # bs
      else b # bind_first port handler bs)"

definition net_udp_bind :: "u16 \<Rightarrow> u64 \<Rightarrow> 'a net_scheme \<Rightarrow> 'a net_scheme" where
  "net_udp_bind port handler s = s\<lparr>udp_bindings := bind_first port handler (udp_bindings s)\<rparr>"

definition net_tcp_bind :: "u16 \<Rightarrow> u64 \<Rightarrow> 'a net_scheme \<Rightarrow> 'a net_scheme" where
  "net_tcp_bind port handler s = s\<lparr>tcp_bindings := bind_first port handler (tcp_bindings s)\<rparr>"

fun find_binding :: "u16 \<Rightarrow> binding list \<Rightarrow> u64 option" where
  "find_binding port [] = None"
| "find_binding port (b # bs) = (if b_valid b \<and> b_port b = port then Some (b_handler b) else find_binding port bs)"

fun arp_update :: "u8 list \<Rightarrow> u8 list \<Rightarrow> arp_entry list \<Rightarrow> arp_entry list" where
  "arp_update ip mac [] = []"
| "arp_update ip mac (e # es) =
     (if \<not> ae_valid e \<or> ae_ip e = ip then \<lparr>ae_ip = ip, ae_mac = mac, ae_valid = True\<rparr> # es
      else e # arp_update ip mac es)"

fun arp_lookup :: "u8 list \<Rightarrow> arp_entry list \<Rightarrow> u8 list option" where
  "arp_lookup ip [] = None"
| "arp_lookup ip (e # es) = (if ae_valid e \<and> ae_ip e = ip then Some (ae_mac e) else arp_lookup ip es)"

subsection \<open>Checksum\<close>

text \<open>The two loops over \<open>len\<close>: pairs of bytes as little-endian words, then a last odd byte.\<close>

fun sum_words :: "u32 \<Rightarrow> u8 list \<Rightarrow> u32" where
  "sum_words sm (a # b # bs) = sum_words (sm + ucast (le16 a b)) bs"
| "sum_words sm [a] = sm + ucast a"
| "sum_words sm [] = sm"

function fold_carry :: "u32 \<Rightarrow> u32" where
  "fold_carry sm = (if drop_bit 16 sm \<noteq> 0 then fold_carry ((sm AND 0xFFFF) + drop_bit 16 sm) else sm)"
  by pat_completeness auto

lemma unat_low16: "unat (sm AND 0xFFFF :: u32) = unat sm mod 65536"
proof -
  have "sm AND 0xFFFF = take_bit 16 sm" by (simp add: take_bit_eq_mask mask_eq_exp_minus_1)
  then show ?thesis by (simp only: unsigned_take_bit_eq) (simp add: take_bit_eq_mod)
qed

lemma unat_high16: "unat (drop_bit 16 (sm :: u32)) = unat sm div 65536"
  by (simp only: unat_drop_bit_eq) (simp add: drop_bit_eq_div)

lemma unat_carried: "unat ((sm AND 0xFFFF) + drop_bit 16 sm :: u32) = unat sm mod 65536 + unat sm div 65536"
proof -
  have "unat sm div 65536 < 65536" "unat sm mod 65536 < 65536"
    using unsigned_less [where 'a = nat, of sm] by (simp_all add: less_mult_imp_div_less)
  then show ?thesis by (simp add: unat_plus_if' unat_low16 unat_high16)
qed

termination fold_carry
proof (relation "measure unat")
  fix sm :: u32
  assume "drop_bit 16 sm \<noteq> 0"
  then have "unat sm div 65536 \<noteq> 0" by (metis unat_high16 unat_eq_zero)
  then show "((sm AND 0xFFFF) + drop_bit 16 sm, sm) \<in> measure unat"
    using mod_mult_div_eq [of "unat sm" 65536] unfolding in_measure unat_carried by linarith
qed simp

declare fold_carry.simps [simp del]

definition net_checksum :: "u8 list \<Rightarrow> u16" where
  "net_checksum bs = ucast (NOT (fold_carry (sum_words 0 bs)))"

subsection \<open>Sending\<close>

definition net_send_eth :: "u8 list \<Rightarrow> u16 \<Rightarrow> u8 list \<Rightarrow> u16 \<Rightarrow> 'a net_scheme \<Rightarrow> 'a net_scheme option" where
  "net_send_eth dest_mac ty data len s =
     (if length data < unat len then None
      else let total_len = 14 + len;
               eth = dest_mac @ my_mac s @ bytes16 (htons ty) @ take (unat len) data
        in with_buffer (ucast total_len) eth
             (\<lambda>s. do { s1 \<leftarrow> e1000_send_packet eth total_len s; Some (s1\<lparr>tx_packet_count := tx_packet_count s1 + 1\<rparr>) }) s)"

definition arp_packet :: "u16 \<Rightarrow> u8 list \<Rightarrow> u8 list \<Rightarrow> 'a net_scheme \<Rightarrow> u8 list" where
  "arp_packet oper dst_mac dst_ip s =
     bytes16 (htons ARP_HTYPE_ETHERNET) @ bytes16 (htons ARP_PTYPE_IPV4) @ [6, 4] @ bytes16 (htons oper) @
     my_mac s @ my_ip s @ dst_mac @ dst_ip"

definition net_send_arp_request :: "u8 list \<Rightarrow> 'a net_scheme \<Rightarrow> 'a net_scheme option" where
  "net_send_arp_request target_ip s =
     net_send_eth broadcast_mac ETHERTYPE_ARP (arp_packet ARP_OP_REQUEST (replicate 6 0) target_ip s) 28 s"

definition ipv4_header :: "u16 \<Rightarrow> u8 \<Rightarrow> u16 \<Rightarrow> u8 list \<Rightarrow> 'a net_scheme \<Rightarrow> u8 list" where
  "ipv4_header total_len proto checksum dest_ip s =
     [0x45, 0] @ bytes16 (htons total_len) @ bytes16 (htons 0) @ bytes16 (htons 0) @ [64, proto] @
     bytes16 checksum @ my_ip s @ dest_ip"

definition net_send_ipv4 :: "u8 list \<Rightarrow> u8 list \<Rightarrow> u8 \<Rightarrow> u8 list \<Rightarrow> u16 \<Rightarrow> 'a net_scheme \<Rightarrow> 'a net_scheme option" where
  "net_send_ipv4 dest_ip dest_mac proto data len s =
     (let total_len = 20 + len;
          checksum = net_checksum (ipv4_header total_len proto 0 dest_ip s);
          ip = ipv4_header total_len proto checksum dest_ip s @ take (unat len) data
      in with_buffer (ucast total_len) ip (net_send_eth dest_mac ETHERTYPE_IPV4 ip total_len) s)"

definition net_send_udp :: "u8 list \<Rightarrow> u16 \<Rightarrow> u16 \<Rightarrow> u8 list \<Rightarrow> u16 \<Rightarrow> 'a net_scheme \<Rightarrow> 'a net_scheme option" where
  "net_send_udp target_ip src_port dst_port data len s =
     (case (if target_ip = replicate 4 255 then Some broadcast_mac else arp_lookup target_ip (arp_cache s)) of
        None \<Rightarrow> Some s
      | Some target_mac \<Rightarrow>
          let total_len = 8 + len;
              udp = bytes16 (htons src_port) @ bytes16 (htons dst_port) @ bytes16 (htons total_len) @ bytes16 0 @
                take (unat len) data
          in with_buffer (ucast total_len) udp (net_send_ipv4 target_ip target_mac IPV4_PROTO_UDP udp total_len) s)"

text \<open>
  The loop that waits for an ARP reply: it polls the card until the address is known or \<open>limit\<close> ticks are
  over. The fuel bounds its iterations; \<open>None\<close> means that it did not suffice.
\<close>

primrec arp_wait :: "('a net_scheme \<Rightarrow> 'a net_scheme option) \<Rightarrow> nat \<Rightarrow> u64 \<Rightarrow> u64 \<Rightarrow> u8 list \<Rightarrow>
    'a net_scheme \<Rightarrow> (u8 list option \<times> 'a net_scheme) option" where
  "arp_wait poll 0 limit start target_ip s = None"
| "arp_wait poll (Suc n) limit start target_ip s =
     (let (t, s1) = pit_get_ticks s
      in if t - start < limit then do {
           s2 \<leftarrow> poll s1;
           case arp_lookup target_ip (arp_cache s2) of
             Some mac \<Rightarrow> Some (Some mac, s2)
           | None \<Rightarrow> arp_wait poll n limit start target_ip s2 }
         else Some (None, s1))"

text \<open>The hardware address of an IP address, from the cache or by a request and the wait for its answer.\<close>

definition resolve :: "('a net_scheme \<Rightarrow> 'a net_scheme option) \<Rightarrow> nat \<Rightarrow> u64 \<Rightarrow> u8 list \<Rightarrow>
    'a net_scheme \<Rightarrow> (u8 list option \<times> 'a net_scheme) option" where
  "resolve poll n limit target_ip s =
     (case arp_lookup target_ip (arp_cache s) of
        Some mac \<Rightarrow> Some (Some mac, s)
      | None \<Rightarrow> do {
          s1 \<leftarrow> net_send_arp_request target_ip s;
          let (start, s2) = pit_get_ticks s1;
          arp_wait poll n limit start target_ip s2 })"

definition tcp_segment :: "u16 \<Rightarrow> u16 \<Rightarrow> u32 \<Rightarrow> u32 \<Rightarrow> u8 \<Rightarrow> u16 \<Rightarrow> u8 list \<Rightarrow> u8 list" where
  "tcp_segment src_port dst_port seq ack flags checksum data =
     bytes16 (htons src_port) @ bytes16 (htons dst_port) @ bytes32 (htonl seq) @ bytes32 (htonl ack) @
     [push_bit 4 (20 div 4), flags] @ bytes16 (htons 8192) @ bytes16 checksum @ bytes16 0 @ data"

definition pseudo_header :: "u8 list \<Rightarrow> u8 list \<Rightarrow> u16 \<Rightarrow> u8 list" where
  "pseudo_header src_ip dst_ip total_len = src_ip @ dst_ip @ [0, IPV4_PROTO_TCP] @ bytes16 (htons total_len)"

definition tcp_checksum :: "u8 list \<Rightarrow> u8 list \<Rightarrow> u16" where
  "tcp_checksum pseudo seg = ucast (NOT (fold_carry (sum_words (sum_words 0 pseudo) seg)))"

definition net_send_tcp :: "('a net_scheme \<Rightarrow> 'a net_scheme option) \<Rightarrow> nat \<Rightarrow> u8 list \<Rightarrow> u16 \<Rightarrow> u16 \<Rightarrow> u32 \<Rightarrow> u32 \<Rightarrow>
    u8 \<Rightarrow> u8 list \<Rightarrow> u16 \<Rightarrow> 'a net_scheme \<Rightarrow> 'a net_scheme option" where
  "net_send_tcp poll n target_ip src_port dst_port seq ack flags data len s = do {
     (m, s1) \<leftarrow> resolve poll n 10 target_ip s;
     case m of
       None \<Rightarrow> Some s1
     | Some target_mac \<Rightarrow>
         let total_len = 20 + len;
             seg = (\<lambda>c. tcp_segment src_port dst_port seq ack flags c (take (unat len) data));
             checksum = tcp_checksum (pseudo_header (my_ip s1) target_ip total_len) (seg 0)
         in with_buffer (ucast total_len) (seg checksum)
              (net_send_ipv4 target_ip target_mac IPV4_PROTO_TCP (seg checksum) total_len) s1 }"

definition net_ping :: "('a net_scheme \<Rightarrow> 'a net_scheme option) \<Rightarrow> nat \<Rightarrow> u8 list \<Rightarrow> 'a net_scheme \<Rightarrow> 'a net_scheme option" where
  "net_ping poll n target_ip s = do {
     (m, s1) \<leftarrow> resolve poll n 100 target_ip s;
     case m of
       None \<Rightarrow> Some s1
     | Some target_mac \<Rightarrow>
         let req = (\<lambda>c. [ICMP_TYPE_ECHO_REQUEST, 0] @ bytes16 c @ bytes16 (htons 0x1234) @ bytes16 (htons 1))
         in net_send_ipv4 target_ip target_mac IPV4_PROTO_ICMP (req (net_checksum (req 0))) 8 s1 }"

subsection \<open>Receiving\<close>

definition net_handle_arp :: "u64 \<Rightarrow> u16 \<Rightarrow> 'a net_scheme \<Rightarrow> 'a net_scheme option" where
  "net_handle_arp data len s =
     (if len < 28 then Some s
      else let m = nmem s in
        if ntohs (read16 m data) \<noteq> ARP_HTYPE_ETHERNET \<or> ntohs (read16 m (data + 2)) \<noteq> ARP_PTYPE_IPV4 then Some s
        else let src_mac = mbytes m (data + 8) 6; src_ip = mbytes m (data + 14) 4;
                 s1 = s\<lparr>arp_cache := arp_update src_ip src_mac (arp_cache s)\<rparr>
          in if ntohs (read16 m (data + 6)) = ARP_OP_REQUEST \<and> mbytes m (data + 24) 4 = my_ip s1
             then net_send_eth src_mac ETHERTYPE_ARP (arp_packet ARP_OP_REPLY src_mac src_ip s1) 28 s1
             else Some s1)"

text \<open>\<open>ip\<close> is the address of the IPv4 header.\<close>

definition net_handle_icmp :: "u8 list \<Rightarrow> u64 \<Rightarrow> u64 \<Rightarrow> u16 \<Rightarrow> 'a net_scheme \<Rightarrow> 'a net_scheme option" where
  "net_handle_icmp src_mac ip data len s =
     (if len < 8 then Some s
      else let m = nmem s in
        if m data = ICMP_TYPE_ECHO_REQUEST then
          let icmp = mbytes m data (unat len);
              reply = (\<lambda>c. [ICMP_TYPE_ECHO_REPLY, icmp ! 1] @ bytes16 c @ drop 4 icmp)
          in with_buffer (ucast len) (reply (net_checksum (reply 0)))
               (net_send_ipv4 (mbytes m (ip + 12) 4) src_mac IPV4_PROTO_ICMP (reply (net_checksum (reply 0))) len) s
        else Some s)"

type_synonym 'a udp_call = "u64 \<Rightarrow> u8 list \<Rightarrow> u16 \<Rightarrow> u16 \<Rightarrow> u64 \<Rightarrow> u16 \<Rightarrow> 'a net_scheme \<Rightarrow> 'a net_scheme option"
type_synonym 'a tcp_call = "u64 \<Rightarrow> u8 list \<Rightarrow> u16 \<Rightarrow> u16 \<Rightarrow> u64 \<Rightarrow> u64 \<Rightarrow> u16 \<Rightarrow> 'a net_scheme \<Rightarrow> 'a net_scheme option"

definition net_handle_udp :: "'a udp_call \<Rightarrow> u64 \<Rightarrow> u64 \<Rightarrow> u16 \<Rightarrow> 'a net_scheme \<Rightarrow> 'a net_scheme option" where
  "net_handle_udp udp_call ip data len s =
     (if len < 8 then Some s
      else let m = nmem s; src_port = ntohs (read16 m data); dst_port = ntohs (read16 m (data + 2));
               udp_len = ntohs (read16 m (data + 4))
        in if udp_len < 8 \<or> len < udp_len then Some s
           else case find_binding dst_port (udp_bindings s) of
               None \<Rightarrow> Some s
             | Some handler \<Rightarrow> udp_call handler (mbytes m (ip + 12) 4) src_port dst_port (data + 8) (udp_len - 8) s)"

definition net_handle_tcp :: "'a tcp_call \<Rightarrow> u64 \<Rightarrow> u64 \<Rightarrow> u16 \<Rightarrow> 'a net_scheme \<Rightarrow> 'a net_scheme option" where
  "net_handle_tcp tcp_call ip data len s =
     (if len < 20 then Some s
      else let m = nmem s; src_port = ntohs (read16 m data); dst_port = ntohs (read16 m (data + 2));
               header_len = drop_bit 4 (m (data + 12)) * 4
        in if header_len < 20 \<or> len < ucast header_len then Some s
           else case find_binding dst_port (tcp_bindings s) of
               None \<Rightarrow> Some s
             | Some handler \<Rightarrow> tcp_call handler (mbytes m (ip + 12) 4) src_port dst_port data
                 (data + ucast header_len) (len - ucast header_len) s)"

definition net_handle_ipv4 :: "'a udp_call \<Rightarrow> 'a tcp_call \<Rightarrow> u8 list \<Rightarrow> u64 \<Rightarrow> u16 \<Rightarrow> 'a net_scheme \<Rightarrow> 'a net_scheme option" where
  "net_handle_ipv4 udp_call tcp_call src_mac data len s =
     (if len < 20 then Some s
      else let m = nmem s in
        if mbytes m (data + 16) 4 \<noteq> my_ip s \<and> mbytes m (data + 16) 4 \<noteq> take 4 broadcast_mac then Some s
        else let payload = data + ucast (m data AND 0x0F) * 4;
                 payload_len = ntohs (read16 m (data + 2)) - ucast (m data AND 0x0F) * 4;
                 proto = m (data + 9)
          in if proto = IPV4_PROTO_ICMP then net_handle_icmp src_mac data payload payload_len s
             else if proto = IPV4_PROTO_UDP then net_handle_udp udp_call data payload payload_len s
             else if proto = IPV4_PROTO_TCP then net_handle_tcp tcp_call data payload payload_len s
             else Some s)"

definition net_handle_packet :: "'a udp_call \<Rightarrow> 'a tcp_call \<Rightarrow> u64 \<Rightarrow> u16 \<Rightarrow> 'a net_scheme \<Rightarrow> 'a net_scheme option" where
  "net_handle_packet udp_call tcp_call data len s =
     (if len < 14 then Some s
      else let s1 = s\<lparr>rx_packet_count := rx_packet_count s + 1\<rparr>;
               ty = ntohs (read16 (nmem s1) (data + 12));
               payload = data + 14; payload_len = len - 14
        in if ty = ETHERTYPE_ARP then net_handle_arp payload payload_len s1
           else if ty = ETHERTYPE_IPV4 then
             net_handle_ipv4 udp_call tcp_call (mbytes (nmem s1) (data + 6) 6) payload payload_len s1
           else Some s1)"

definition net_get_rx_count :: "'a net_scheme \<Rightarrow> u64" where "net_get_rx_count s = rx_packet_count s"
definition net_get_tx_count :: "'a net_scheme \<Rightarrow> u64" where "net_get_tx_count s = tx_packet_count s"
definition net_get_ip :: "'a net_scheme \<Rightarrow> u8 list" where "net_get_ip s = take 4 (my_ip s)"
definition net_set_ip :: "u8 list \<Rightarrow> 'a net_scheme \<Rightarrow> 'a net_scheme" where "net_set_ip ip s = s\<lparr>my_ip := take 4 ip\<rparr>"

subsection \<open>Checksums\<close>

lemma fold_carry_value:
  "unat (fold_carry sm) < 65536 \<and> unat (fold_carry sm) mod 65535 = unat sm mod 65535 \<and> (fold_carry sm = 0 \<longleftrightarrow> sm = 0)"
proof (induction sm rule: fold_carry.induct)
  case (1 sm)
  show ?case
  proof (cases "drop_bit 16 sm = 0")
    case True
    then have "unat sm div 65536 = 0" using unat_high16 [of sm] by simp
    then have "unat sm < 65536" by (simp add: div_eq_0_iff)
    moreover have "fold_carry sm = sm" using True by (subst fold_carry.simps) simp
    ultimately show ?thesis by simp
  next
    case False
    let ?t = "(sm AND 0xFFFF) + drop_bit 16 sm"
    have f: "fold_carry sm = fold_carry ?t" using False by (subst fold_carry.simps) simp
    have "unat sm = (unat sm mod 65536 + unat sm div 65536) + 65535 * (unat sm div 65536)"
      using mod_mult_div_eq [of "unat sm" 65536] by simp
    then have "unat ?t mod 65535 = unat sm mod 65535" unfolding unat_carried by (metis mod_mult_self2)
    moreover have "?t = 0 \<longleftrightarrow> sm = 0"
    proof -
      have "?t = 0 \<longleftrightarrow> unat ?t = 0" by (simp only: unat_eq_zero)
      also have "\<dots> \<longleftrightarrow> unat sm mod 65536 = 0 \<and> unat sm div 65536 = 0" unfolding unat_carried by simp
      also have "\<dots> \<longleftrightarrow> unat sm = 0" using mod_mult_div_eq [of "unat sm" 65536] by auto
      finally show ?thesis by (simp only: unat_eq_zero)
    qed
    ultimately show ?thesis using 1 [OF False] unfolding f by simp
  qed
qed

definition complement :: "u32 \<Rightarrow> u16" where
  "complement sm = ucast (NOT (fold_carry sm))"

lemma unat_complement: "unat (complement sm) = 65535 - unat (fold_carry sm)"
proof -
  let ?f = "fold_carry sm"
  have lt: "unat ?f < 2 ^ 16" using fold_carry_value [of sm] by simp
  have "NOT ?f = 0xFFFFFFFF - ?f" by (simp add: not_eq_complement)
  then have "unat (NOT ?f) = 0xFFFFFFFF - unat ?f"
    using lt by (simp add: unat_sub_if' word_le_nat_alt)
  then have "unat (ucast (NOT ?f) :: u16) = (0xFFFFFFFF - unat ?f) mod 2 ^ 16"
    by (simp add: unsigned_ucast_eq take_bit_eq_mod)
  also have "(0xFFFFFFFF - unat ?f) = (65535 - unat ?f) + 65535 * 2 ^ 16" using lt by simp
  also have "\<dots> mod 2 ^ 16 = 65535 - unat ?f" by (subst mod_mult_self1) simp
  finally show ?thesis by (simp add: complement_def)
qed

text \<open>Adding the complement to a sum makes the folded sum all ones, so the new complement is 0.\<close>

lemma complement_verifies:
  assumes "unat sm + 65535 < 2 ^ 32"
  shows "complement (sm + ucast (complement sm)) = 0"
proof -
  let ?t = "sm + ucast (complement sm)"
  note v = fold_carry_value [of sm] and t = fold_carry_value [of ?t]
  have u: "unat ?t = unat sm + (65535 - unat (fold_carry sm))"
  proof -
    have "unat sm + (65535 - unat (fold_carry sm)) < 2 ^ 32" using assms by linarith
    moreover have "unat (ucast (complement sm) :: u32) = 65535 - unat (fold_carry sm)"
      by (simp add: unat_complement unsigned_ucast_eq take_bit_nat_eq_self)
    ultimately show ?thesis by (simp add: unat_plus_if')
  qed
  have q: "unat sm = unat (fold_carry sm) + 65535 * (unat sm div 65535)
    \<or> (unat (fold_carry sm) = 65535 \<and> unat sm = 65535 * (unat sm div 65535) \<and> unat sm \<noteq> 0)"
  proof -
    have m: "unat sm = unat sm mod 65535 + 65535 * (unat sm div 65535)" by simp
    show ?thesis
    proof (cases "unat (fold_carry sm) = 65535")
      case True
      then have "unat sm mod 65535 = 0" "unat sm \<noteq> 0" using v by (auto simp: unat_gt_0)
      then show ?thesis using True m by simp
    next
      case False
      then have "unat (fold_carry sm) < 65535" using v by simp
      then show ?thesis using v m by simp
    qed
  qed
  then obtain k where k: "unat ?t = 65535 * Suc k"
  proof (elim disjE conjE)
    assume "unat sm = unat (fold_carry sm) + 65535 * (unat sm div 65535)"
    then have "unat ?t = 65535 * Suc (unat sm div 65535)"
      using u v [THEN conjunct1] unfolding mult_Suc_right by arith
    then show thesis by (rule that)
  next
    assume h: "unat (fold_carry sm) = 65535" "unat sm = 65535 * (unat sm div 65535)" "unat sm \<noteq> 0"
    then obtain j where "unat sm div 65535 = Suc j" by (cases "unat sm div 65535") auto
    then have "unat ?t = 65535 * Suc j" using h u by simp
    then show thesis by (rule that)
  qed
  then have "unat (fold_carry ?t) mod 65535 = 0" "?t \<noteq> 0" using t by auto
  then have "unat (fold_carry ?t) \<noteq> 0" "unat (fold_carry ?t) mod 65535 = 0" "unat (fold_carry ?t) < 65536"
    using t by (auto simp: unat_eq_zero)
  then have "unat (fold_carry ?t) = 65535" by (auto elim!: dvdE simp: mod_eq_0_iff_dvd)
  then have "unat (complement ?t) = 0" by (simp add: unat_complement)
  then show ?thesis by (simp only: unat_eq_zero)
qed

text \<open>The words of a packet as a number, and the sum without overflow.\<close>

fun word_sum :: "u8 list \<Rightarrow> nat" where
  "word_sum (a # b # bs) = unat (le16 a b) + word_sum bs"
| "word_sum [a] = unat a"
| "word_sum [] = 0"

lemma sum_words_value:
  "unat sm + word_sum bs < 2 ^ 32 \<Longrightarrow> unat (sum_words sm bs) = unat sm + word_sum bs"
proof (induction bs arbitrary: sm rule: word_sum.induct)
  case (1 a b bs)
  have "unat (sm + ucast (le16 a b)) = unat sm + unat (le16 a b)"
    using 1(2) by (simp add: unat_plus_if' unsigned_ucast_eq take_bit_nat_eq_self)
  then show ?case using 1 by (simp add: add.assoc)
next
  case (2 a)
  then show ?case by (simp add: unat_plus_if' unsigned_ucast_eq take_bit_nat_eq_self)
qed simp

lemma word_sum_append: "even (length as) \<Longrightarrow> word_sum (as @ bs) = word_sum as + word_sum bs"
  by (induction as rule: word_sum.induct) simp_all

lemma word_sum_bytes16 [simp]: "word_sum (bytes16 w @ bs) = unat w + word_sum bs"
  by (simp add: bytes16_def le16_bytes16)

lemma word_sum_bound: "word_sum bs \<le> 65535 * ((length bs + 1) div 2)"
proof (induction bs rule: word_sum.induct)
  case (1 a b bs)
  have "unat (le16 a b) \<le> 65535" using unsigned_less [where 'a = nat, of "le16 a b"] by simp
  then show ?case using 1 by simp
next
  case (2 a)
  then show ?case using unsigned_less [where 'a = nat, of a] by simp
qed simp

lemma sum_words_append: "even (length as) \<Longrightarrow> sum_words sm (as @ bs) = sum_words (sum_words sm as) bs"
  by (induction as arbitrary: sm rule: word_sum.induct) simp_all

lemma complement_insert:
  assumes "even (length as)" and "unat sm + word_sum as + word_sum bs + 65535 < 2 ^ 32"
  shows "complement (sum_words sm (as @ bytes16 (complement (sum_words sm (as @ bytes16 0 @ bs))) @ bs)) = 0"
proof -
  let ?S = "sum_words sm (as @ bytes16 0 @ bs)"
  let ?T = "sum_words sm (as @ bytes16 (complement ?S) @ bs)"
  have c: "unat (complement ?S) \<le> 65535" by (simp add: unat_complement)
  have S: "unat ?S = unat sm + word_sum as + word_sum bs"
    using assms by (subst sum_words_value) (simp_all add: word_sum_append)
  have T: "unat ?T = unat ?S + unat (complement ?S)"
    using assms c S by (subst sum_words_value) (simp_all add: word_sum_append)
  have "unat (?S + ucast (complement ?S)) = unat ?T"
    using T S assms(2) c by (simp add: unat_plus_if' unsigned_ucast_eq take_bit_nat_eq_self)
  then have "?T = ?S + ucast (complement ?S)" by (simp only: unat_eq_iff)
  then show ?thesis using complement_verifies [of ?S] S assms(2) by simp
qed

text \<open>
  Writing the checksum into its field makes the checksum over the whole packet 0, which is what a receiver
  verifies: for the Internet checksum of a packet of at most 65535 bytes, and for the TCP checksum with its
  pseudo header.
\<close>

theorem checksum_verifies:
  assumes "even (length as)" and "length as + 2 + length bs \<le> 65535" and "length src = 4" and "length dst = 4"
  shows "net_checksum (as @ bytes16 (net_checksum (as @ bytes16 0 @ bs)) @ bs) = 0 \<and>
    tcp_checksum (pseudo_header src dst n)
      (as @ bytes16 (tcp_checksum (pseudo_header src dst n) (as @ bytes16 0 @ bs)) @ bs) = 0"
proof -
  have len: "length (as @ bytes16 0 @ bs) \<le> 65535" using assms(2) by (simp add: bytes16_def)
  have "word_sum (as @ bytes16 0 @ bs) \<le> 65535 * ((length (as @ bytes16 0 @ bs) + 1) div 2)" by (rule word_sum_bound)
  also have "\<dots> \<le> 65535 * 32768" using len by (intro mult_le_mono2) linarith
  finally have b: "word_sum as + word_sum bs \<le> 65535 * 32768" using assms(1) by (simp add: word_sum_append)
  let ?p = "pseudo_header src dst n"
  have "length ?p = 12" using assms(3,4) by (simp add: pseudo_header_def bytes16_def)
  then have "word_sum ?p \<le> 65535 * 6" using word_sum_bound [of ?p] by simp
  then have p: "unat (sum_words 0 ?p) \<le> 65535 * 6" by (subst sum_words_value) simp_all
  have "complement (sum_words 0 (as @ bytes16 (complement (sum_words 0 (as @ bytes16 0 @ bs))) @ bs)) = 0"
    by (rule complement_insert [OF assms(1)]) (use b in simp)
  moreover have "complement (sum_words (sum_words 0 ?p) (as @ bytes16 (complement (sum_words (sum_words 0 ?p)
      (as @ bytes16 0 @ bs))) @ bs)) = 0"
    by (rule complement_insert [OF assms(1)]) (use b p in simp)
  ultimately show ?thesis by (simp add: net_checksum_def tcp_checksum_def complement_def)
qed

theorem checksum_verifies_witness:
  "net_checksum ([8, 0] @ bytes16 (net_checksum ([8, 0] @ bytes16 0 @ [0x12, 0x34, 0xFF])) @ [0x12, 0x34, 0xFF]) = 0"
  using checksum_verifies [of "[8, 0]" "[0x12, 0x34, 0xFF]" "[10, 0, 2, 15]" "[10, 0, 2, 2]" 25] by simp

subsection \<open>What sending does\<close>

text \<open>
  \<open>ready k s\<close>: the heap is well-formed with a free block of \<open>k\<close> bytes, the card completes what it is given, and
  the stack's own addresses have their lengths. \<open>sends fr s s'\<close>: exactly the frame \<open>fr\<close> goes out, and nothing
  else of the state changes but the ring and the memory behind it.
\<close>

definition ready :: "nat \<Rightarrow> 'a net_scheme \<Rightarrow> bool" where
  "ready k s \<longleftrightarrow> heap_inv (nheap s) \<and> has_room k (nheap s) \<and> card_live s \<and> length (my_mac s) = 6 \<and> length (my_ip s) = 4"

definition frame_out :: "u8 list \<Rightarrow> 'a net_scheme \<Rightarrow> 'a net_scheme \<Rightarrow> bool" where
  "frame_out fr s s' \<longleftrightarrow>
     wire s' = wire s @ [fr] \<and> tx_packet_count s' = tx_packet_count s + 1 \<and> rx_packet_count s' = rx_packet_count s \<and>
     my_ip s' = my_ip s \<and> my_mac s' = my_mac s \<and> arp_cache s' = arp_cache s \<and> udp_bindings s' = udp_bindings s \<and>
     tcp_bindings s' = tcp_bindings s \<and> done_reads s' = done_reads s \<and> arrivals s' = arrivals s \<and>
     rx_descs s' = rx_descs s \<and> rx_cur s' = rx_cur s \<and> rx_head s' = rx_head s \<and> mmio_base s' = mmio_base s \<and>
     mac_addr s' = mac_addr s \<and> ticks_at s' = ticks_at s \<and> tick_pos s' = tick_pos s \<and> net.more s' = net.more s"

definition sends :: "u8 list \<Rightarrow> 'a net_scheme \<Rightarrow> 'a net_scheme \<Rightarrow> bool" where
  "sends fr s s' \<longleftrightarrow> frame_out fr s s' \<and> heap_like (nheap s) (nheap s')"

lemma sends_fields:
  assumes "sends fr s s'"
  shows "wire s' = wire s @ [fr]" "tx_packet_count s' = tx_packet_count s + 1" "heap_like (nheap s) (nheap s')"
    "rx_packet_count s' = rx_packet_count s" "my_ip s' = my_ip s" "my_mac s' = my_mac s" "arp_cache s' = arp_cache s"
    "udp_bindings s' = udp_bindings s" "tcp_bindings s' = tcp_bindings s" "done_reads s' = done_reads s"
    "arrivals s' = arrivals s" "rx_descs s' = rx_descs s" "rx_cur s' = rx_cur s" "rx_head s' = rx_head s"
    "mmio_base s' = mmio_base s" "mac_addr s' = mac_addr s" "ticks_at s' = ticks_at s" "tick_pos s' = tick_pos s"
    "net.more s' = net.more s"
  using assms by (simp_all add: sends_def frame_out_def)

lemma ready_sends: "sends fr s s' \<Longrightarrow> ready k s' = ready k s \<or> \<not> heap_inv (nheap s)"
  using sends_fields [of fr s s'] heap_like_room [of "nheap s" "nheap s'" k]
  by (auto simp: ready_def card_live_def heap_like_def)

lemma ready_mono: "ready k s \<Longrightarrow> j \<le> k \<Longrightarrow> ready j s"
  by (auto simp: ready_def intro: has_room_mono)

lemma ready_heap: "ready k s \<Longrightarrow> heap_inv h \<Longrightarrow> has_room j h \<Longrightarrow> ready j (s\<lparr>nheap := h\<rparr>)"
  by (simp add: ready_def card_live_def)

text \<open>The room a temporary buffer of one packet takes, with its header.\<close>

definition ROOM :: nat where "ROOM = 0x10100"

lemma align8_u16: "unat (w :: u16) \<le> unat (align8 (ucast w))" "unat (align8 (ucast (w :: u16))) + 24 \<le> ROOM - 8"
proof -
  have w: "unat w < 65536" using unsigned_less [where 'a = nat, of w] by simp
  then have u: "unat (ucast w :: u64) = unat w" by (simp add: unsigned_ucast_eq take_bit_nat_eq_self)
  show "unat w \<le> unat (align8 (ucast w))" using align8_ge [of "ucast w"] u w by simp
  have "unat (align8 (ucast w)) \<le> unat (ucast w + 7 :: u64)"
    unfolding align8_def by (rule unat_le_mono) (rule word_and_le2)
  also have "\<dots> \<le> unat w + 7" using unat_add_le [of "ucast w :: u64" 7] u by simp
  finally show "unat (align8 (ucast w)) + 24 \<le> ROOM - 8" using w by (simp add: ROOM_def)
qed

text \<open>One layer of sending: a buffer for the packet around the layer below.\<close>

lemma buffer_sends_padded:
  assumes r: "ready (k + ROOM) s" and len: "length content \<le> unat (align8 (ucast w))"
    and below: "\<And>h. ready (k + 8) (s\<lparr>nheap := h\<rparr>) \<Longrightarrow> \<exists>s1. act (s\<lparr>nheap := h\<rparr>) = Some s1 \<and> sends fr (s\<lparr>nheap := h\<rparr>) s1"
  shows "\<exists>s'. with_buffer (ucast (w :: u16)) content act s = Some s' \<and> sends fr s s'"
proof -
  have "\<exists>s'. with_buffer (ucast w) content act s = Some s' \<and> heap_like (nheap s) (nheap s') \<and> frame_out fr s s'"
  proof (rule with_buffer_runs [of _ "k + 8"])
    show "heap_inv (nheap s)" using r by (simp add: ready_def)
    show "has_room (k + 8 + unat (align8 (ucast w)) + 24) (nheap s)"
      using r align8_u16(2) [of w] by (auto simp: ready_def ROOM_def intro: has_room_mono)
    show "length content \<le> unat (align8 (ucast w))" by (rule len)
    fix h assume h: "heap_inv h" "has_room (k + 8) h"
    from below [OF ready_heap [OF r h]] obtain s1 where "act (s\<lparr>nheap := h\<rparr>) = Some s1" "sends fr (s\<lparr>nheap := h\<rparr>) s1" by blast
    then show "\<exists>s1. act (s\<lparr>nheap := h\<rparr>) = Some s1 \<and> heap_like h (nheap s1) \<and> frame_out fr s s1"
      by (intro exI [of _ s1]) (simp add: sends_def frame_out_def)
  next
    show "frame_out fr s s1 \<Longrightarrow> frame_out fr s (s1\<lparr>nheap := h\<rparr>)" for s1 h
      by (simp add: frame_out_def)
  qed simp
  then show ?thesis by (auto simp: sends_def)
qed

lemma buffer_sends:
  assumes "ready (k + ROOM) s" and "length content \<le> unat w"
    and "\<And>h. ready (k + 8) (s\<lparr>nheap := h\<rparr>) \<Longrightarrow> \<exists>s1. act (s\<lparr>nheap := h\<rparr>) = Some s1 \<and> sends fr (s\<lparr>nheap := h\<rparr>) s1"
  shows "\<exists>s'. with_buffer (ucast (w :: u16)) content act s = Some s' \<and> sends fr s s'"
  using assms(1) le_trans [OF assms(2) align8_u16(1)] assms(3) by (rule buffer_sends_padded)

definition eth_frame :: "u8 list \<Rightarrow> u16 \<Rightarrow> u8 list \<Rightarrow> 'a net_scheme \<Rightarrow> u8 list" where
  "eth_frame dest_mac ty data s = dest_mac @ my_mac s @ bytes16 (htons ty) @ data"

lemma unat_add16: "unat (a :: u16) + k < 65536 \<Longrightarrow> unat (word_of_nat k + a) = k + unat a"
  by (subst unat_plus_if') (simp add: unsigned_of_nat take_bit_nat_eq_self)

lemma net_send_eth_sends:
  assumes r: "ready ROOM s" and len: "unat len \<le> length data" "unat len + 14 < 65536" and d: "length dest_mac = 6"
  shows "\<exists>s'. net_send_eth dest_mac ty data len s = Some s' \<and> sends (eth_frame dest_mac ty (take (unat len) data) s) s s'"
proof -
  let ?eth = "eth_frame dest_mac ty (take (unat len) data) s"
  have t: "unat (14 + len) = 14 + unat len" using unat_add16 [of len 14] len(2) by simp
  have l: "length ?eth = unat (14 + len)" using r len(1) d t by (simp add: eth_frame_def ready_def bytes16_def)
  let ?act = "\<lambda>s. do { s1 \<leftarrow> e1000_send_packet ?eth (14 + len) s; Some (s1\<lparr>tx_packet_count := tx_packet_count s1 + 1\<rparr>) }"
  have "\<exists>s'. with_buffer (ucast (14 + len)) ?eth ?act s = Some s' \<and> sends ?eth s s'"
  proof (rule buffer_sends [of 0])
    show "ready (0 + ROOM) s" using r by simp
    show "length ?eth \<le> unat (14 + len)" using l by simp
    fix h assume h: "ready (0 + 8) (s\<lparr>nheap := h\<rparr>)"
    then have "card_live (s\<lparr>nheap := h\<rparr>)" "unat (14 + len) \<le> length ?eth" using l by (simp_all add: ready_def)
    then obtain m td rg dp where
      e: "e1000_send_packet ?eth (14 + len) (s\<lparr>nheap := h\<rparr>) = Some ((s\<lparr>nheap := h\<rparr>)\<lparr>nmem := m, tx_descs := td,
        tx_tail := (tx_tail (s\<lparr>nheap := h\<rparr>) + 1) mod 128, regs := rg,
        wire := wire (s\<lparr>nheap := h\<rparr>) @ [take (unat (14 + len)) ?eth], done_pos := dp\<rparr>)"
      by (rule e1000_send_packet_sends) (rule that)
    have "heap_inv h" using h by (simp add: ready_def)
    moreover have tk: "take (unat (14 + len)) ?eth = ?eth" by (rule take_all) (simp only: l)
    ultimately show "\<exists>s1. ?act (s\<lparr>nheap := h\<rparr>) = Some s1 \<and> sends ?eth (s\<lparr>nheap := h\<rparr>) s1"
      unfolding e tk by (simp add: sends_def frame_out_def heap_like_def)
  qed
  then show ?thesis using len(1) by (simp add: net_send_eth_def Let_def eth_frame_def not_less [symmetric])
qed

definition ip_packet :: "u8 \<Rightarrow> u8 list \<Rightarrow> u8 list \<Rightarrow> 'a net_scheme \<Rightarrow> u8 list" where
  "ip_packet proto dest_ip data s =
     (let n = word_of_nat (20 + length data)
      in ipv4_header n proto (net_checksum (ipv4_header n proto 0 dest_ip s)) dest_ip s @ data)"

lemma net_send_ipv4_sends:
  assumes r: "ready (2 * ROOM) s" and len: "unat len \<le> length data" "unat len + 34 < 65536"
    and d: "length dest_mac = 6" "length dest_ip = 4"
  shows "\<exists>s'. net_send_ipv4 dest_ip dest_mac proto data len s = Some s' \<and>
    sends (eth_frame dest_mac ETHERTYPE_IPV4 (ip_packet proto dest_ip (take (unat len) data) s) s) s s'"
proof -
  have t: "unat (20 + len) = 20 + unat len" using unat_add16 [of len 20] len(2) by simp
  have w: "word_of_nat (20 + length (take (unat len) data)) = 20 + len" using len(1) t by (simp add: min_absorb2)
  let ?ip = "ip_packet proto dest_ip (take (unat len) data) s"
  have ip: "?ip = ipv4_header (20 + len) proto (net_checksum (ipv4_header (20 + len) proto 0 dest_ip s)) dest_ip s
      @ take (unat len) data"
    unfolding ip_packet_def Let_def w ..
  have l: "length ?ip = unat (20 + len)"
    using r d len(1) t by (simp add: ip ipv4_header_def bytes16_def ready_def)
  have "\<exists>s'. with_buffer (ucast (20 + len)) ?ip (net_send_eth dest_mac ETHERTYPE_IPV4 ?ip (20 + len)) s = Some s' \<and>
    sends (eth_frame dest_mac ETHERTYPE_IPV4 ?ip s) s s'"
  proof (rule buffer_sends [of ROOM])
    show "ready (ROOM + ROOM) s" using r by (simp add: mult_2)
    show "length ?ip \<le> unat (20 + len)" using l by simp
    fix h assume "ready (ROOM + 8) (s\<lparr>nheap := h\<rparr>)"
    then have "ready ROOM (s\<lparr>nheap := h\<rparr>)" by (rule ready_mono) simp
    from net_send_eth_sends [OF this, of "20 + len" ?ip dest_mac ETHERTYPE_IPV4]
    show "\<exists>s1. net_send_eth dest_mac ETHERTYPE_IPV4 ?ip (20 + len) (s\<lparr>nheap := h\<rparr>) = Some s1 \<and>
        sends (eth_frame dest_mac ETHERTYPE_IPV4 ?ip s) (s\<lparr>nheap := h\<rparr>) s1"
      using l d len(2) t by (simp add: eth_frame_def)
  qed
  then show ?thesis by (simp add: net_send_ipv4_def Let_def ip)
qed

definition udp_packet :: "u16 \<Rightarrow> u16 \<Rightarrow> u8 list \<Rightarrow> u8 list" where
  "udp_packet src_port dst_port data =
     bytes16 (htons src_port) @ bytes16 (htons dst_port) @ bytes16 (htons (word_of_nat (8 + length data))) @ bytes16 0 @ data"

lemma length_udp_packet [simp]: "length (udp_packet sp dp data) = 8 + length data"
  by (simp add: udp_packet_def bytes16_def)

definition udp_target :: "u8 list \<Rightarrow> 'a net_scheme \<Rightarrow> u8 list option" where
  "udp_target ip s = (if ip = replicate 4 255 then Some broadcast_mac else arp_lookup ip (arp_cache s))"

lemma net_send_udp_sends:
  assumes r: "ready (3 * ROOM) s" and len: "unat len \<le> length data" "unat len + 42 < 65536"
    and d: "udp_target ip s = Some mac" "length mac = 6" "length ip = 4"
  shows "\<exists>s'. net_send_udp ip src_port dst_port data len s = Some s' \<and>
    sends (eth_frame mac ETHERTYPE_IPV4 (ip_packet IPV4_PROTO_UDP ip (udp_packet src_port dst_port (take (unat len) data)) s) s) s s'"
proof -
  have t: "unat (8 + len) = 8 + unat len" using unat_add16 [of len 8] len(2) by simp
  let ?u = "udp_packet src_port dst_port (take (unat len) data)"
  have w: "word_of_nat (8 + length (take (unat len) data)) = 8 + len" using len(1) t by (simp add: min_absorb2)
  have u: "?u = bytes16 (htons src_port) @ bytes16 (htons dst_port) @ bytes16 (htons (8 + len)) @ bytes16 0 @ take (unat len) data"
    unfolding udp_packet_def w ..
  have l: "length ?u = unat (8 + len)" using len(1) t by simp
  have "\<exists>s'. with_buffer (ucast (8 + len)) ?u (net_send_ipv4 ip mac IPV4_PROTO_UDP ?u (8 + len)) s = Some s' \<and>
    sends (eth_frame mac ETHERTYPE_IPV4 (ip_packet IPV4_PROTO_UDP ip ?u s) s) s s'"
  proof (rule buffer_sends [of "2 * ROOM"])
    show "ready (2 * ROOM + ROOM) s" using r by simp
    show "length ?u \<le> unat (8 + len)" using l by simp
    fix h assume "ready (2 * ROOM + 8) (s\<lparr>nheap := h\<rparr>)"
    then have "ready (2 * ROOM) (s\<lparr>nheap := h\<rparr>)" by (rule ready_mono) simp
    from net_send_ipv4_sends [OF this, of "8 + len" ?u mac ip IPV4_PROTO_UDP]
    show "\<exists>s1. net_send_ipv4 ip mac IPV4_PROTO_UDP ?u (8 + len) (s\<lparr>nheap := h\<rparr>) = Some s1 \<and>
        sends (eth_frame mac ETHERTYPE_IPV4 (ip_packet IPV4_PROTO_UDP ip ?u s) s) (s\<lparr>nheap := h\<rparr>) s1"
      using l d len(2) t by (simp add: eth_frame_def ip_packet_def ipv4_header_def Let_def)
  qed
  then show ?thesis using d(1) by (simp add: net_send_udp_def udp_target_def Let_def u)
qed

subsection \<open>Packets in memory\<close>

text \<open>The memory from \<open>a\<close> on holds the bytes \<open>xs\<close>.\<close>

definition holds :: "mem \<Rightarrow> u64 \<Rightarrow> u8 list \<Rightarrow> bool" where
  "holds m a xs \<longleftrightarrow> mbytes m a (length xs) = xs"

lemma holds_Nil [simp]: "holds m a []"
  by (simp add: holds_def)

lemma holds_Cons [simp]: "holds m a (x # xs) \<longleftrightarrow> m a = x \<and> holds m (a + 1) xs"
  by (simp add: holds_def mbytes_Suc)

lemma holds_append [simp]: "holds m a (xs @ ys) \<longleftrightarrow> holds m a xs \<and> holds m (a + word_of_nat (length xs)) ys"
  by (simp add: holds_def mbytes_add)

lemma holds_bytes: "holds m a xs \<Longrightarrow> length xs = n \<Longrightarrow> mbytes m a n = xs"
  by (simp add: holds_def)

lemma holds_slice: "holds m a xs \<Longrightarrow> i + n \<le> length xs \<Longrightarrow> mbytes m (a + word_of_nat i) n = take n (drop i xs)"
proof -
  assume h: "holds m a xs" and n: "i + n \<le> length xs"
  have "take n (drop i (mbytes m a (length xs))) = mbytes m (a + word_of_nat i) n"
    using n by (simp add: mbytes_drop mbytes_take)
  then show ?thesis using h by (simp add: holds_def)
qed

lemma holds_put_bytes: "length xs \<le> 2 ^ 64 \<Longrightarrow> holds (put_bytes a xs m) a xs"
  by (simp add: holds_def mbytes_put_bytes)

lemma holds_bytes16 [simp]: "holds m a (bytes16 w) \<longleftrightarrow> read16 m a = w"
proof
  assume "holds m a (bytes16 w)"
  then show "read16 m a = w" using le16_bytes16 [of w] by (simp add: bytes16_def read16_def le16_def)
next
  assume "read16 m a = w"
  then have "w = ucast (m a) OR push_bit 8 (ucast (m (a + 1)))" by (simp add: read16_def)
  moreover have "\<not> bit (m a) (8 + n)" for n using bit_imp_le_length [of "m a" "8 + n"] by auto
  ultimately show "holds m a (bytes16 w)"
    by (auto simp: bytes16_def bit_simps intro!: bit_word_eqI)
qed

lemma swap16_swap16 [simp]: "swap16 (swap16 w) = w"
  by (rule bit_word_eq_upt) (simp add: upt_rec swap16_def bit_simps; simp add: numeral_eq_Suc)

lemma holds_eth:
  assumes "holds m a (eth_frame dest ty p s)" and "length dest = 6" and "length (my_mac s) = 6"
  shows "ntohs (read16 m (a + 12)) = ty" "mbytes m (a + 6) 6 = my_mac s" "holds m (a + 14) p" "mbytes m a 6 = dest"
  using assms by (auto simp: eth_frame_def holds_bytes ac_simps)

lemma holds_ip:
  assumes h: "holds m b (ip_packet proto dest data s)" and "length dest = 4" and "length (my_ip s) = 4"
  shows "m b = 0x45" "ntohs (read16 m (b + 2)) = word_of_nat (20 + length data)" "m (b + 9) = proto"
    "mbytes m (b + 12) 4 = my_ip s" "mbytes m (b + 16) 4 = dest" "holds m (b + 20) data"
  using assms by (auto simp: ip_packet_def ipv4_header_def Let_def holds_bytes ac_simps)

lemma holds_udp:
  assumes "holds m u (udp_packet sp dp data)"
  shows "ntohs (read16 m u) = sp" "ntohs (read16 m (u + 2)) = dp"
    "ntohs (read16 m (u + 4)) = word_of_nat (8 + length data)" "holds m (u + 8) data"
  using assms by (auto simp: udp_packet_def ac_simps)

lemma u16_le_nat: "(k :: u16) \<le> word_of_nat n \<longleftrightarrow> unat k \<le> n" if "n < 65536"
  using that by (simp add: word_le_nat_alt unsigned_of_nat take_bit_nat_eq_self)

lemma length_eth_frame: "length (my_mac s) = 6 \<Longrightarrow> length dest = 6 \<Longrightarrow> length (eth_frame dest ty p s) = 14 + length p"
  by (simp add: eth_frame_def)

lemma length_ip_packet: "length (my_ip s) = 4 \<Longrightarrow> length dest = 4 \<Longrightarrow> length (ip_packet proto dest data s) = 20 + length data"
  by (simp add: ip_packet_def ipv4_header_def Let_def)

text \<open>An IPv4 packet for this host reaches the handler of its protocol with its payload and its length.\<close>

lemma handle_ip_frame:
  assumes h: "holds (nmem r) a (eth_frame dest ETHERTYPE_IPV4 (ip_packet proto ip data s) s)"
    and l: "length dest = 6" "length (my_mac s) = 6" "length ip = 4" "length (my_ip s) = 4"
    and ip: "ip = my_ip r \<or> ip = take 4 broadcast_mac" and n: "length data + 34 < 65536"
  defines "r1 \<equiv> r\<lparr>rx_packet_count := rx_packet_count r + 1\<rparr>"
  shows "net_handle_packet uc tc a (word_of_nat (34 + length data)) r =
    (if proto = IPV4_PROTO_ICMP then net_handle_icmp (my_mac s) (a + 14) (a + 34) (word_of_nat (length data)) r1
     else if proto = IPV4_PROTO_UDP then net_handle_udp uc (a + 14) (a + 34) (word_of_nat (length data)) r1
     else if proto = IPV4_PROTO_TCP then net_handle_tcp tc (a + 14) (a + 34) (word_of_nat (length data)) r1
     else Some r1)" and "holds (nmem r) (a + 34) data" and "mbytes (nmem r) (a + 26) 4 = my_ip s"
proof -
  note e = holds_eth [OF h l(1,2)]
  note i = holds_ip [OF e(3) l(3,4)]
  have len: "\<not> (word_of_nat (34 + length data) :: u16) < 14" "\<not> (word_of_nat (20 + length data) :: u16) < 20"
    "(word_of_nat (34 + length data) :: u16) - 14 = word_of_nat (20 + length data)"
    using n u16_le_nat [of "34 + length data" 14] u16_le_nat [of "20 + length data" 20] by (simp_all add: not_less)
  have hdr: "ucast (nmem r (a + 14) AND 0x0F) * 4 = (20 :: u64)" "ucast (nmem r (a + 14) AND 0x0F) * 4 = (20 :: u16)"
    using i(1) by simp_all
  have eq: "ETHERTYPE_IPV4 \<noteq> ETHERTYPE_ARP" by (simp add: ETHERTYPE_IPV4_def ETHERTYPE_ARP_def)
  have "net_handle_packet uc tc a (word_of_nat (34 + length data)) r =
      net_handle_ipv4 uc tc (my_mac s) (a + 14) (word_of_nat (20 + length data)) r1"
    using len(1,3) e(1,2) eq by (simp add: net_handle_packet_def Let_def r1_def)
  also have "\<dots> = (if proto = IPV4_PROTO_ICMP then net_handle_icmp (my_mac s) (a + 14) (a + 34) (word_of_nat (length data)) r1
     else if proto = IPV4_PROTO_UDP then net_handle_udp uc (a + 14) (a + 34) (word_of_nat (length data)) r1
     else if proto = IPV4_PROTO_TCP then net_handle_tcp tc (a + 14) (a + 34) (word_of_nat (length data)) r1
     else Some r1)"
    using len(2) i(2,3,5) ip hdr
    by (cases "ip = my_ip r") (simp_all add: net_handle_ipv4_def Let_def r1_def add.assoc)
  finally show "net_handle_packet uc tc a (word_of_nat (34 + length data)) r =
    (if proto = IPV4_PROTO_ICMP then net_handle_icmp (my_mac s) (a + 14) (a + 34) (word_of_nat (length data)) r1
     else if proto = IPV4_PROTO_UDP then net_handle_udp uc (a + 14) (a + 34) (word_of_nat (length data)) r1
     else if proto = IPV4_PROTO_TCP then net_handle_tcp tc (a + 14) (a + 34) (word_of_nat (length data)) r1
     else Some r1)" .
  show "holds (nmem r) (a + 34) data" "mbytes (nmem r) (a + 26) 4 = my_ip s" using i(4,6) by (simp_all add: add.assoc)
qed

subsection \<open>Delivery\<close>

lemma bind_first_empty:
  "0 < n \<Longrightarrow> \<not> b_valid e \<Longrightarrow>
   bind_first p h (replicate n e) = \<lparr>b_port = p, b_handler = h, b_valid = True\<rparr> # replicate (n - 1) e"
  by (cases n) simp_all

text \<open>A demonstration host: an initialised heap, a card that is always done, and the addresses of QEMU.\<close>

definition host :: "u8 list \<Rightarrow> u8 list \<Rightarrow> mem \<Rightarrow> net" where
  "host ip mac m = \<lparr>nheap = heap0, nmem = m, mmio_base = 0xFEB80000,
     rx_descs = (\<lambda>i. \<lparr>rx_addr = 0x1100000 + word_of_nat i * 2048, rx_length = 0, rx_status = 0\<rparr>),
     tx_descs = (\<lambda>i. \<lparr>tx_addr = 0x1200000 + word_of_nat i * 2048, tx_length = 0, tx_cmd = 0, tx_status = 0\<rparr>),
     tx_tail = 0, rx_cur = 0, mac_addr = mac, regs = [], wire = [], done_reads = (\<lambda>_. 1), done_pos = 0, arrivals = [],
     rx_head = 0, ticks_at = (\<lambda>_. 0), tick_pos = 0, rx_packet_count = 0, tx_packet_count = 0, my_ip = ip, my_mac = mac,
     arp_cache = replicate ARP_CACHE_SIZE \<lparr>ae_ip = replicate 4 0, ae_mac = replicate 6 0, ae_valid = False\<rparr>,
     udp_bindings = replicate UDP_MAX_BINDINGS \<lparr>b_port = 0, b_handler = 0, b_valid = False\<rparr>,
     tcp_bindings = replicate TCP_MAX_BINDINGS \<lparr>b_port = 0, b_handler = 0, b_valid = False\<rparr>\<rparr>"

lemma host_ready: "k \<le> 0xFFFFE8 \<Longrightarrow> length ip = 4 \<Longrightarrow> length mac = 6 \<Longrightarrow> ready k (host ip mac m)"
proof -
  have "has_room 0xFFFFE8 heap0" unfolding has_room_def using heap0_blocks by auto
  then show "k \<le> 0xFFFFE8 \<Longrightarrow> length ip = 4 \<Longrightarrow> length mac = 6 \<Longrightarrow> ready k (host ip mac m)"
    using heap0_inv by (auto simp: ready_def host_def card_live_def intro: has_room_mono)
qed


definition demo_host :: net where
  "demo_host = host [10, 0, 2, 15] [0x52, 0x54, 0, 0x12, 0x34, 0x56] (\<lambda>_. 0)"

definition demo_datagram :: "u8 list" where
  "demo_datagram = eth_frame broadcast_mac ETHERTYPE_IPV4
     (ip_packet IPV4_PROTO_UDP (replicate 4 255) (udp_packet 68 67 [1, 2, 3]) demo_host) demo_host"

definition demo_receiver :: net where
  "demo_receiver = net_udp_bind 67 0x105000 (host [10, 0, 2, 2] [0x52, 0x55, 10, 0, 2, 2] (put_bytes 0x1100000 demo_datagram (\<lambda>_. 0)))"


subsection \<open>Echo replies\<close>

lemma with_buffer_ipv4_sends:
  assumes r: "ready (3 * ROOM) s" and l: "length data = unat w" "unat w + 34 < 65536" "length mac = 6" "length ip = 4"
  shows "\<exists>s'. with_buffer (ucast (w :: u16)) data (net_send_ipv4 ip mac proto data w) s = Some s' \<and>
    sends (eth_frame mac ETHERTYPE_IPV4 (ip_packet proto ip data s) s) s s'"
proof (rule buffer_sends [of "2 * ROOM"])
  show "ready (2 * ROOM + ROOM) s" using r by simp
  show "length data \<le> unat w" using l(1) by simp
  fix h assume "ready (2 * ROOM + 8) (s\<lparr>nheap := h\<rparr>)"
  then have "ready (2 * ROOM) (s\<lparr>nheap := h\<rparr>)" by (rule ready_mono) simp
  from net_send_ipv4_sends [OF this, of w data mac ip proto]
  show "\<exists>s1. net_send_ipv4 ip mac proto data w (s\<lparr>nheap := h\<rparr>) = Some s1 \<and>
      sends (eth_frame mac ETHERTYPE_IPV4 (ip_packet proto ip data s) s) (s\<lparr>nheap := h\<rparr>) s1"
    using l by (simp add: eth_frame_def ip_packet_def ipv4_header_def Let_def)
qed

lemma icmp_replies:
  assumes r: "ready (3 * ROOM) r" and n: "8 \<le> unat n" "unat n + 34 < 65536" and ty: "nmem r p = ICMP_TYPE_ECHO_REQUEST"
    and mac: "length mac = 6"
  defines "reply \<equiv> \<lambda>c. [ICMP_TYPE_ECHO_REPLY, nmem r (p + 1)] @ bytes16 c @ mbytes (nmem r) (p + 4) (unat n - 4)"
  shows "\<exists>r'. net_handle_icmp mac ip p n r = Some r' \<and> net_checksum (reply (net_checksum (reply 0))) = 0 \<and>
    sends (eth_frame mac ETHERTYPE_IPV4 (ip_packet IPV4_PROTO_ICMP (mbytes (nmem r) (ip + 12) 4) (reply (net_checksum (reply 0))) r) r) r r'"
proof -
  have icmp: "mbytes (nmem r) p (unat n) ! 1 = nmem r (p + 1)"
    "drop 4 (mbytes (nmem r) p (unat n)) = mbytes (nmem r) (p + 4) (unat n - 4)"
    using n by (simp_all add: mbytes_drop)
  have lr: "length (reply c) = unat n" for c using n by (simp add: reply_def)
  have "\<not> n < 8" using n by (simp add: word_less_nat_alt)
  then have "net_handle_icmp mac ip p n r =
      with_buffer (ucast n) (reply (net_checksum (reply 0)))
        (net_send_ipv4 (mbytes (nmem r) (ip + 12) 4) mac IPV4_PROTO_ICMP (reply (net_checksum (reply 0))) n) r"
    using ty icmp by (simp add: net_handle_icmp_def Let_def reply_def)
  moreover have "net_checksum (reply (net_checksum (reply 0))) = 0"
  proof -
    have "complement (sum_words 0 ([ICMP_TYPE_ECHO_REPLY, nmem r (p + 1)] @ bytes16 (complement (sum_words 0
      ([ICMP_TYPE_ECHO_REPLY, nmem r (p + 1)] @ bytes16 0 @ mbytes (nmem r) (p + 4) (unat n - 4)))) @ mbytes (nmem r) (p + 4) (unat n - 4))) = 0"
    proof (rule complement_insert)
      have "word_sum (mbytes (nmem r) (p + 4) (unat n - 4)) \<le> 65535 * 32768"
        using word_sum_bound [of "mbytes (nmem r) (p + 4) (unat n - 4)"] n(2) by simp
      moreover have "word_sum [ICMP_TYPE_ECHO_REPLY, nmem r (p + 1)] \<le> 65535"
        using word_sum_bound [of "[ICMP_TYPE_ECHO_REPLY, nmem r (p + 1)]"] by simp
      ultimately show "unat (0 :: u32) + word_sum [ICMP_TYPE_ECHO_REPLY, nmem r (p + 1)] +
          word_sum (mbytes (nmem r) (p + 4) (unat n - 4)) + 65535 < 2 ^ 32"
        by simp
    qed simp
    then show ?thesis by (simp add: net_checksum_def complement_def reply_def)
  qed
  ultimately show ?thesis
    using with_buffer_ipv4_sends [OF r lr [of "net_checksum (reply 0)"] n(2) mac, of "mbytes (nmem r) (ip + 12) 4" IPV4_PROTO_ICMP] by simp
qed

text \<open>
  An echo request is answered by one frame to its sender with a valid checksum. The number of bytes
  that come back is the length in the IP header, not that of the frame: a request whose IP header claims
  more than the frame holds is answered with the memory behind the frame.
\<close>

theorem icmp_echo_answers_claimed_length:
  assumes r: "ready (3 * ROOM) r" and flen: "34 \<le> unat flen"
    and eth: "ntohs (read16 (nmem r) (a + 12)) = ETHERTYPE_IPV4" and ver: "nmem r (a + 14) = 0x45"
    and proto: "nmem r (a + 23) = IPV4_PROTO_ICMP" and dst: "mbytes (nmem r) (a + 30) 4 = my_ip r"
    and claimed: "ntohs (read16 (nmem r) (a + 16)) = 20 + n" and n: "8 \<le> unat n" "unat n + 34 < 65536"
    and ty: "nmem r (a + 34) = ICMP_TYPE_ECHO_REQUEST"
  shows "\<exists>r' c. net_handle_packet uc tc a flen r = Some r' \<and> heap_like (nheap r) (nheap r') \<and>
    wire r' = wire r @ [eth_frame (mbytes (nmem r) (a + 6) 6) ETHERTYPE_IPV4
      (ip_packet IPV4_PROTO_ICMP (mbytes (nmem r) (a + 26) 4)
        ([ICMP_TYPE_ECHO_REPLY, nmem r (a + 35)] @ bytes16 c @ mbytes (nmem r) (a + 38) (unat n - 4)) r) r] \<and>
    net_checksum ([ICMP_TYPE_ECHO_REPLY, nmem r (a + 35)] @ bytes16 c @ mbytes (nmem r) (a + 38) (unat n - 4)) = 0"
proof -
  let ?r = "r\<lparr>rx_packet_count := rx_packet_count r + 1\<rparr>"
  have ready: "ready (3 * ROOM) ?r" using r by (simp add: ready_def card_live_def)
  have "\<not> flen < 14" "\<not> flen - 14 < 20"
    using flen by (simp_all add: word_less_nat_alt unat_sub_if' word_le_nat_alt)
  moreover have "ETHERTYPE_IPV4 \<noteq> ETHERTYPE_ARP" by (simp add: ETHERTYPE_IPV4_def ETHERTYPE_ARP_def)
  ultimately have "net_handle_packet uc tc a flen r =
      net_handle_icmp (mbytes (nmem ?r) (a + 6) 6) (a + 14) (a + 34) n ?r"
    using eth ver proto dst claimed
    by (simp add: net_handle_packet_def net_handle_ipv4_def Let_def add.assoc)
  moreover from icmp_replies [OF ready n, of "a + 34" "mbytes (nmem ?r) (a + 6) 6" "a + 14"] ty
  obtain r' where "net_handle_icmp (mbytes (nmem ?r) (a + 6) 6) (a + 14) (a + 34) n ?r = Some r'"
    "net_checksum ([ICMP_TYPE_ECHO_REPLY, nmem r (a + 35)] @ bytes16 (net_checksum ([ICMP_TYPE_ECHO_REPLY, nmem r (a + 35)] @
      bytes16 0 @ mbytes (nmem r) (a + 38) (unat n - 4))) @ mbytes (nmem r) (a + 38) (unat n - 4)) = 0"
    "sends (eth_frame (mbytes (nmem r) (a + 6) 6) ETHERTYPE_IPV4 (ip_packet IPV4_PROTO_ICMP (mbytes (nmem r) (a + 26) 4)
      ([ICMP_TYPE_ECHO_REPLY, nmem r (a + 35)] @ bytes16 (net_checksum ([ICMP_TYPE_ECHO_REPLY, nmem r (a + 35)] @
        bytes16 0 @ mbytes (nmem r) (a + 38) (unat n - 4))) @ mbytes (nmem r) (a + 38) (unat n - 4)) r) r) ?r r'"
    by (auto simp: add.assoc eth_frame_def ip_packet_def ipv4_header_def Let_def)
  ultimately show ?thesis using sends_fields(1,3) by fastforce
qed

definition echo_memory :: mem where
  "echo_memory = put_bytes 0x1100000 ([0, 0, 0, 0, 0, 0, 1, 2, 3, 4, 5, 6, 8, 0, 0x45, 0, 4, 0, 0, 0, 0, 0, 64, 1, 0, 0,
     10, 0, 2, 2, 10, 0, 2, 15, 8, 0, 0, 0, 0, 0, 0, 0]) (\<lambda>_. 0x41)"

text \<open>
  A frame of 42 bytes whose IP header claims 1024: the reply carries 996 bytes from behind the 8 bytes of
  the request.
\<close>

theorem icmp_echo_answers_claimed_length_witness:
  "\<exists>r' c. net_handle_packet (\<lambda>_ _ _ _ _ _. Some) (\<lambda>_ _ _ _ _ _ _. Some) 0x1100000 42
      (host [10, 0, 2, 15] [0x52, 0x54, 0, 0x12, 0x34, 0x56] echo_memory) = Some r' \<and>
    wire r' = [eth_frame [1, 2, 3, 4, 5, 6] ETHERTYPE_IPV4
      (ip_packet IPV4_PROTO_ICMP [10, 0, 2, 2] ([0, 0] @ bytes16 c @ mbytes echo_memory 0x1100026 1000)
        (host [10, 0, 2, 15] [0x52, 0x54, 0, 0x12, 0x34, 0x56] echo_memory))
      (host [10, 0, 2, 15] [0x52, 0x54, 0, 0x12, 0x34, 0x56] echo_memory)] \<and>
    echo_memory 0x110002A = 0x41"
proof -
  let ?r = "host [10, 0, 2, 15] [0x52, 0x54, 0, 0x12, 0x34, 0x56] echo_memory"
  have r: "ready (3 * ROOM) ?r" by (rule host_ready) (simp_all add: ROOM_def)
  have h: "holds echo_memory 0x1100000 [0, 0, 0, 0, 0, 0, 1, 2, 3, 4, 5, 6, 8, 0, 0x45, 0, 4, 0, 0, 0, 0, 0, 64, 1, 0, 0,
     10, 0, 2, 2, 10, 0, 2, 15, 8, 0, 0, 0, 0, 0, 0, 0]"
    unfolding echo_memory_def by (rule holds_put_bytes) simp
  have behind: "echo_memory 0x110002A = 0x41"
    unfolding echo_memory_def by (simp add: put_bytes.simps)
  have mac: "mbytes echo_memory (0x1100000 + 6) 6 = [1, 2, 3, 4, 5, 6]"
    and dst: "mbytes echo_memory (0x1100000 + 30) 4 = [10, 0, 2, 15]"
    and src: "mbytes echo_memory (0x1100000 + 26) 4 = [10, 0, 2, 2]"
    using holds_slice [OF h, of 6 6] holds_slice [OF h, of 30 4] holds_slice [OF h, of 26 4] by simp_all
  have fields: "ntohs (read16 echo_memory (0x1100000 + 12)) = ETHERTYPE_IPV4" "echo_memory (0x1100000 + 14) = 0x45"
    "echo_memory (0x1100000 + 23) = IPV4_PROTO_ICMP" "ntohs (read16 echo_memory (0x1100000 + 16)) = 20 + 1004"
    "echo_memory (0x1100000 + 34) = ICMP_TYPE_ECHO_REQUEST" "echo_memory (0x1100000 + 35) = 0"
    using h by (simp_all add: read16_def ETHERTYPE_IPV4_def IPV4_PROTO_ICMP_def ICMP_TYPE_ECHO_REQUEST_def swap16_def)
  have m: "nmem ?r = echo_memory" "my_ip ?r = [10, 0, 2, 15]" "wire ?r = []" by (simp_all add: host_def)
  have l: "34 \<le> unat (42 :: u16)" "8 \<le> unat (1004 :: u16)" "unat (1004 :: u16) + 34 < 65536" by simp_all
  from icmp_echo_answers_claimed_length [OF r l(1), unfolded m, OF fields(1-3) dst fields(4) l(2,3) fields(5),
      of "\<lambda>_ _ _ _ _ _. Some" "\<lambda>_ _ _ _ _ _ _. Some"]
  show ?thesis using mac src fields(6) behind by (auto simp: ICMP_TYPE_ECHO_REPLY_def)
qed

subsection \<open>Address resolution and bindings\<close>

definition arp_room :: "u8 list \<Rightarrow> arp_entry list \<Rightarrow> bool" where
  "arp_room ip es \<longleftrightarrow> (\<exists>e \<in> set es. \<not> ae_valid e \<or> ae_ip e = ip)"

lemma arp_lookup_update:
  "arp_lookup ip' (arp_update ip mac es) = (if ip' = ip \<and> arp_room ip es then Some mac else arp_lookup ip' es)"
  by (induction es) (auto simp: arp_room_def)

lemma length_arp_update [simp]: "length (arp_update ip mac es) = length es"
  by (induction es) auto

text \<open>As a map the cache learns what it hears while it has room and forgets nothing.\<close>

lemma find_bind_first:
  "find_binding p (bind_first port h bs) =
     (if p = port \<and> (\<forall>b \<in> set (takeWhile b_valid bs). b_port b \<noteq> port) \<and> (\<exists>b \<in> set bs. \<not> b_valid b) then Some h
      else find_binding p bs)"
  by (induction bs) auto

definition arp_bytes :: "u16 \<Rightarrow> u8 list \<Rightarrow> u8 list \<Rightarrow> u8 list \<Rightarrow> u8 list \<Rightarrow> u8 list" where
  "arp_bytes oper src_mac src_ip dst_mac dst_ip =
     bytes16 (htons ARP_HTYPE_ETHERNET) @ bytes16 (htons ARP_PTYPE_IPV4) @ [6, 4] @ bytes16 (htons oper) @
     src_mac @ src_ip @ dst_mac @ dst_ip"

lemma arp_packet_bytes: "arp_packet oper dst_mac dst_ip s = arp_bytes oper (my_mac s) (my_ip s) dst_mac dst_ip"
  by (simp add: arp_packet_def arp_bytes_def)

lemma length_arp_bytes:
  "length sm = 6 \<Longrightarrow> length si = 4 \<Longrightarrow> length dm = 6 \<Longrightarrow> length di = 4 \<Longrightarrow> length (arp_bytes oper sm si dm di) = 28"
  by (simp add: arp_bytes_def)

lemma handle_arp_frame:
  assumes h: "holds (nmem r) a (eth_frame dest ETHERTYPE_ARP (arp_bytes oper sm si dm di) s)"
    and l: "length dest = 6" "length (my_mac s) = 6" "length sm = 6" "length si = 4" "length dm = 6" "length di = 4"
  defines "r1 \<equiv> r\<lparr>rx_packet_count := rx_packet_count r + 1, arp_cache := arp_update si sm (arp_cache r)\<rparr>"
  shows "net_handle_packet uc tc a 42 r =
    (if oper = ARP_OP_REQUEST \<and> di = my_ip r then net_send_eth sm ETHERTYPE_ARP (arp_packet ARP_OP_REPLY sm si r1) 28 r1
     else Some r1)"
proof -
  note e = holds_eth [OF h l(1,2)]
  have f: "ntohs (read16 (nmem r) (a + 14)) = ARP_HTYPE_ETHERNET" "ntohs (read16 (nmem r) (a + 16)) = ARP_PTYPE_IPV4"
    "ntohs (read16 (nmem r) (a + 20)) = oper" "mbytes (nmem r) (a + 22) 6 = sm" "mbytes (nmem r) (a + 28) 4 = si"
    "mbytes (nmem r) (a + 38) 4 = di"
    using e(3) l by (auto simp: arp_bytes_def holds_bytes ac_simps)
  show ?thesis
    using e(1) f by (simp add: net_handle_packet_def net_handle_arp_def Let_def r1_def add.assoc)
qed

lemma net_send_arp_sends:
  assumes r: "ready ROOM s" and l: "length mac = 6" "length dm = 6" "length di = 4"
  shows "\<exists>s'. net_send_eth mac ETHERTYPE_ARP (arp_packet oper dm di s) 28 s = Some s' \<and>
    sends (eth_frame mac ETHERTYPE_ARP (arp_packet oper dm di s) s) s s'"
proof -
  have "length (arp_packet oper dm di s) = 28"
    using r l by (simp add: arp_packet_bytes length_arp_bytes ready_def)
  then show ?thesis using net_send_eth_sends [OF r, of 28 "arp_packet oper dm di s" mac ETHERTYPE_ARP] l(1) by simp
qed

text \<open>
  Address resolution works from end to end: the request goes out as one broadcast frame; the host that owns
  the address learns the asker's address and answers with one frame; and that frame, received by the asker,
  leaves the owner's hardware address in the asker's cache and all other entries as they were.
\<close>

theorem arp_resolves:
  assumes s: "ready ROOM s" and r: "ready ROOM r" and ip: "my_ip r \<noteq> my_ip s"
    and room: "arp_room (my_ip s) (arp_cache r)" "arp_room (my_ip r) (arp_cache s)"
    and request: "request = eth_frame broadcast_mac ETHERTYPE_ARP (arp_packet ARP_OP_REQUEST (replicate 6 0) (my_ip r) s) s"
    and answer: "answer = eth_frame (my_mac s) ETHERTYPE_ARP (arp_packet ARP_OP_REPLY (my_mac s) (my_ip s) r) r"
    and m: "holds (nmem r) a request" and m': "holds m2 b answer"
  shows "(\<exists>s1. net_send_arp_request (my_ip r) s = Some s1 \<and> wire s1 = wire s @ [request] \<and>
      (\<exists>s2. net_handle_packet uc tc b 42 (s1\<lparr>nmem := m2\<rparr>) = Some s2 \<and> wire s2 = wire s1 \<and>
        (\<lambda>i. arp_lookup i (arp_cache s2)) = (\<lambda>i. arp_lookup i (arp_cache s))(my_ip r \<mapsto> my_mac r))) \<and>
    (\<exists>r1. net_handle_packet uc tc a 42 r = Some r1 \<and> wire r1 = wire r @ [answer] \<and>
      arp_lookup (my_ip s) (arp_cache r1) = Some (my_mac s))"
proof -
  have l: "length (my_mac s) = 6" "length (my_ip s) = 4" "length (my_mac r) = 6" "length (my_ip r) = 4"
    using s r by (simp_all add: ready_def)
  have bl: "length broadcast_mac = 6" by (simp add: broadcast_mac_def)
  from net_send_arp_sends [OF s bl, of "replicate 6 0" "my_ip r" ARP_OP_REQUEST] l
  obtain s1 where s1: "net_send_arp_request (my_ip r) s = Some s1" "sends request s s1"
    by (auto simp: net_send_arp_request_def request)
  note f1 = sends_fields [OF s1(2)]
  have "holds (nmem r) a (eth_frame broadcast_mac ETHERTYPE_ARP (arp_bytes ARP_OP_REQUEST (my_mac s) (my_ip s) (replicate 6 0) (my_ip r)) s)"
    using m by (simp add: request arp_packet_bytes)
  note hr = handle_arp_frame [OF this bl l(1) l(1,2) _ l(4), of uc tc]
  define r0 where "r0 = r\<lparr>rx_packet_count := rx_packet_count r + 1, arp_cache := arp_update (my_ip s) (my_mac s) (arp_cache r)\<rparr>"
  have r0: "ready ROOM r0" using r by (simp add: ready_def card_live_def r0_def)
  have answer_eq: "answer = eth_frame (my_mac s) ETHERTYPE_ARP (arp_packet ARP_OP_REPLY (my_mac s) (my_ip s) r0) r0"
    by (simp add: answer r0_def eth_frame_def arp_packet_def)
  from net_send_arp_sends [OF r0 l(1) l(1,2), of ARP_OP_REPLY] obtain r1 where
    r1: "net_send_eth (my_mac s) ETHERTYPE_ARP (arp_packet ARP_OP_REPLY (my_mac s) (my_ip s) r0) 28 r0 = Some r1" "sends answer r0 r1"
    unfolding answer_eq by blast
  have "net_handle_packet uc tc a 42 r = Some r1" using hr r1(1) by (simp add: r0_def)
  moreover have "wire r1 = wire r @ [answer]" "arp_lookup (my_ip s) (arp_cache r1) = Some (my_mac s)"
    using sends_fields(1,7) [OF r1(2)] room(1) by (simp_all add: r0_def arp_lookup_update)
  moreover have "holds (nmem (s1\<lparr>nmem := m2\<rparr>)) b (eth_frame (my_mac s) ETHERTYPE_ARP
      (arp_bytes ARP_OP_REPLY (my_mac r) (my_ip r) (my_mac s) (my_ip s)) r)"
    using m' by (simp add: answer arp_packet_bytes)
  from handle_arp_frame [OF this l(1,3) l(3,4) l(1,2), of uc tc]
  have "net_handle_packet uc tc b 42 (s1\<lparr>nmem := m2\<rparr>) = Some (s1\<lparr>nmem := m2, rx_packet_count := rx_packet_count s1 + 1,
      arp_cache := arp_update (my_ip r) (my_mac r) (arp_cache s1)\<rparr>)"
    by (simp add: ARP_OP_REPLY_def ARP_OP_REQUEST_def)
  moreover have "(\<lambda>i. arp_lookup i (arp_update (my_ip r) (my_mac r) (arp_cache s1))) = (\<lambda>i. arp_lookup i (arp_cache s))(my_ip r \<mapsto> my_mac r)"
    using room(2) f1(7) by (auto simp: arp_lookup_update)
  ultimately show ?thesis using s1(1) f1(1) by simp
qed

definition demo_request :: "u8 list" where
  "demo_request = eth_frame broadcast_mac ETHERTYPE_ARP
     (arp_packet ARP_OP_REQUEST (replicate 6 0) [10, 0, 2, 2] demo_host) demo_host"

definition demo_owner :: net where
  "demo_owner = host [10, 0, 2, 2] [0x52, 0x55, 10, 0, 2, 2] (put_bytes 0x1100000 demo_request (\<lambda>_. 0))"

lemma arp_room_empty: "0 < n \<Longrightarrow> \<not> ae_valid e \<Longrightarrow> arp_room ip (replicate n e)"
  by (auto simp: arp_room_def)

theorem arp_resolves_witness:
  "\<exists>s1 r1. net_send_arp_request [10, 0, 2, 2] demo_host = Some s1 \<and> wire s1 = [demo_request] \<and>
     net_handle_packet (\<lambda>_ _ _ _ _ _. Some) (\<lambda>_ _ _ _ _ _ _. Some) 0x1100000 42 demo_owner = Some r1 \<and>
     arp_lookup [10, 0, 2, 15] (arp_cache r1) = Some [0x52, 0x54, 0, 0x12, 0x34, 0x56]"
proof -
  have s: "ready ROOM demo_host" and r: "ready ROOM demo_owner"
    unfolding demo_host_def demo_owner_def by (rule host_ready; simp add: ROOM_def)+
  have a: "my_ip demo_owner = [10, 0, 2, 2]" "my_ip demo_host = [10, 0, 2, 15]" "my_mac demo_host = [0x52, 0x54, 0, 0x12, 0x34, 0x56]"
    "wire demo_host = []" "nmem demo_owner = put_bytes 0x1100000 demo_request (\<lambda>_. 0)"
    by (simp_all add: demo_host_def demo_owner_def host_def)
  have ip: "my_ip demo_owner \<noteq> my_ip demo_host" by (simp add: a)
  have room: "arp_room (my_ip demo_host) (arp_cache demo_owner)" "arp_room (my_ip demo_owner) (arp_cache demo_host)"
    by (simp_all add: demo_host_def demo_owner_def host_def ARP_CACHE_SIZE_def arp_room_empty)
  have req: "demo_request = eth_frame broadcast_mac ETHERTYPE_ARP
      (arp_packet ARP_OP_REQUEST (replicate 6 0) (my_ip demo_owner) demo_host) demo_host"
    by (simp add: a demo_request_def)
  have l: "length demo_request = 42"
    by (simp add: demo_request_def length_eth_frame arp_packet_bytes length_arp_bytes a broadcast_mac_def)
  have m: "holds (nmem demo_owner) 0x1100000 demo_request" unfolding a(5) by (rule holds_put_bytes) (simp add: l)
  define rep where "rep = eth_frame (my_mac demo_host) ETHERTYPE_ARP
    (arp_packet ARP_OP_REPLY (my_mac demo_host) (my_ip demo_host) demo_owner) demo_owner"
  have "length rep \<le> 2 ^ 64"
    by (simp add: rep_def length_eth_frame arp_packet_bytes length_arp_bytes a demo_owner_def host_def)
  then have m2: "holds (put_bytes 0x1100000 rep (\<lambda>_. 0)) 0x1100000 rep" by (rule holds_put_bytes)
  from arp_resolves [OF s r ip room req rep_def m m2,
      where uc = "\<lambda>_ _ _ _ _ _. Some" and tc = "\<lambda>_ _ _ _ _ _ _. Some"]
  show ?thesis using a by auto
qed

end
