(* ===== verification/Tcp.thy ===== *)
theory Tcp
  imports Net
begin

text \<open>
  The TCP client of \<open>src/kernel/tcp.c\<close>: sixteen connection slots, the handler for incoming segments and
  \<open>tcp_connect\<close>. Sending may have to resolve the peer's address and then polls the card, so the nested
  poll and the fuel for its loop are parameters.
\<close>

subsection \<open>State\<close>

datatype tcp_state =
    TCP_STATE_CLOSED
  | TCP_STATE_LISTEN
  | TCP_STATE_SYN_SENT
  | TCP_STATE_SYN_RECEIVED
  | TCP_STATE_ESTABLISHED
  | TCP_STATE_FIN_WAIT_1
  | TCP_STATE_FIN_WAIT_2
  | TCP_STATE_CLOSE_WAIT
  | TCP_STATE_CLOSING
  | TCP_STATE_LAST_ACK
  | TCP_STATE_TIME_WAIT

record tcp_conn =
  remote_ip :: "u8 list"
  local_port :: u16
  remote_port :: u16
  tc_state :: tcp_state
  tc_seq :: u32
  tc_ack :: u32
  remote_seq :: u32
  remote_ack :: u32

record tcpsys = net +
  connections :: "tcp_conn list"
  next_local_port :: u16

definition MAX_CONNECTIONS :: nat where "MAX_CONNECTIONS = 16"
definition TCP_FLAG_FIN :: u8 where "TCP_FLAG_FIN = 1"
definition TCP_FLAG_SYN :: u8 where "TCP_FLAG_SYN = 2"
definition TCP_FLAG_RST :: u8 where "TCP_FLAG_RST = 4"
definition TCP_FLAG_ACK :: u8 where "TCP_FLAG_ACK = 16"

text \<open>The address of \<open>tcp_handle_packet\<close>, which \<open>tcp_connect\<close> binds to its port.\<close>

definition TCP_HANDLE_PACKET :: u64 where "TCP_HANDLE_PACKET = 0x106000"

definition conn0 :: tcp_conn where
  "conn0 = \<lparr>remote_ip = replicate 4 0, local_port = 0, remote_port = 0, tc_state = TCP_STATE_CLOSED, tc_seq = 0,
     tc_ack = 0, remote_seq = 0, remote_ack = 0\<rparr>"

definition tcp_init :: "'a tcpsys_scheme \<Rightarrow> 'a tcpsys_scheme" where
  "tcp_init s = s\<lparr>connections := replicate MAX_CONNECTIONS conn0\<rparr>"

definition upd_conn :: "nat \<Rightarrow> (tcp_conn \<Rightarrow> tcp_conn) \<Rightarrow> 'a tcpsys_scheme \<Rightarrow> 'a tcpsys_scheme" where
  "upd_conn i f s = s\<lparr>connections := (connections s)[i := f (connections s ! i)]\<rparr>"

subsection \<open>Operations\<close>

text \<open>The first index from \<open>i\<close> on whose connection satisfies the test of the loop.\<close>

fun find_conn :: "(tcp_conn \<Rightarrow> bool) \<Rightarrow> nat \<Rightarrow> tcp_conn list \<Rightarrow> nat option" where
  "find_conn p i [] = None"
| "find_conn p i (c # cs) = (if p c then Some i else find_conn p (i + 1) cs)"

definition matches :: "u16 \<Rightarrow> u16 \<Rightarrow> u8 list \<Rightarrow> tcp_conn \<Rightarrow> bool" where
  "matches dst_port src_port src_ip c \<longleftrightarrow> tc_state c \<noteq> TCP_STATE_CLOSED \<and> local_port c = dst_port \<and>
     remote_port c = src_port \<and> remote_ip c = src_ip"

definition tcp_handle_packet :: "('a tcpsys_scheme \<Rightarrow> 'a tcpsys_scheme option) \<Rightarrow> nat \<Rightarrow> u8 list \<Rightarrow> u16 \<Rightarrow> u16 \<Rightarrow>
    u64 \<Rightarrow> u64 \<Rightarrow> u16 \<Rightarrow> 'a tcpsys_scheme \<Rightarrow> 'a tcpsys_scheme option" where
  "tcp_handle_packet poll n src_ip src_port dst_port tcp data len s =
     (let flags = nmem s (tcp + 13);
          seq = ntohl (read32 (nmem s) (tcp + 4));
          ack = ntohl (read32 (nmem s) (tcp + 8))
      in case find_conn (matches dst_port src_port src_ip) 0 (connections s) of
        None \<Rightarrow>
          if flags AND TCP_FLAG_SYN \<noteq> 0
          then net_send_tcp poll n src_ip dst_port src_port 0 (seq + 1) (TCP_FLAG_RST OR TCP_FLAG_ACK) [] 0 s
          else Some s
      | Some i \<Rightarrow>
          let c = connections s ! i in
          if tc_state c = TCP_STATE_SYN_SENT then
            if flags AND TCP_FLAG_SYN \<noteq> 0 \<and> flags AND TCP_FLAG_ACK \<noteq> 0 then
              let s1 = upd_conn i (\<lambda>c. c\<lparr>tc_state := TCP_STATE_ESTABLISHED, remote_seq := seq + 1,
                         tc_ack := seq + 1, remote_ack := ack\<rparr>) s;
                  c1 = connections s1 ! i
              in net_send_tcp poll n src_ip (local_port c1) src_port (tc_seq c1) (tc_ack c1) TCP_FLAG_ACK [] 0 s1
            else Some s
          else if tc_state c = TCP_STATE_ESTABLISHED then
            if flags AND TCP_FLAG_FIN \<noteq> 0 then do {
              let s1 = upd_conn i (\<lambda>c. c\<lparr>tc_state := TCP_STATE_CLOSE_WAIT, tc_ack := seq + 1\<rparr>) s;
              let c1 = connections s1 ! i;
              s2 \<leftarrow> net_send_tcp poll n src_ip (local_port c1) src_port (tc_seq c1) (tc_ack c1) TCP_FLAG_ACK [] 0 s1;
              let c2 = connections s2 ! i;
              s3 \<leftarrow> net_send_tcp poll n src_ip (local_port c2) src_port (tc_seq c2) (tc_ack c2)
                      (TCP_FLAG_FIN OR TCP_FLAG_ACK) [] 0 s2;
              Some (upd_conn i (\<lambda>c. c\<lparr>tc_state := TCP_STATE_LAST_ACK, tc_seq := tc_seq c + 1\<rparr>) s3) }
            else Some s
          else if tc_state c = TCP_STATE_LAST_ACK then
            if flags AND TCP_FLAG_ACK \<noteq> 0 then Some (upd_conn i (\<lambda>c. c\<lparr>tc_state := TCP_STATE_CLOSED\<rparr>) s)
            else Some s
          else Some s)"

definition tcp_connect :: "('a tcpsys_scheme \<Rightarrow> 'a tcpsys_scheme option) \<Rightarrow> nat \<Rightarrow> u8 list \<Rightarrow> u16 \<Rightarrow>
    'a tcpsys_scheme \<Rightarrow> 'a tcpsys_scheme option" where
  "tcp_connect poll n ip port s =
     (case find_conn (\<lambda>c. tc_state c = TCP_STATE_CLOSED) 0 (connections s) of
        None \<Rightarrow> Some s
      | Some i \<Rightarrow> do {
          let lport = next_local_port s;
          let s1 = upd_conn i (\<lambda>c. c\<lparr>remote_ip := ip, remote_port := port, local_port := lport,
                     tc_state := TCP_STATE_SYN_SENT, tc_seq := 0x12345678, tc_ack := 0\<rparr>) (s\<lparr>next_local_port := lport + 1\<rparr>);
          let s2 = net_tcp_bind lport TCP_HANDLE_PACKET s1;
          let c2 = connections s2 ! i;
          s3 \<leftarrow> net_send_tcp poll n ip (local_port c2) port (tc_seq c2) 0 TCP_FLAG_SYN [] 0 s2;
          Some (upd_conn i (\<lambda>c. c\<lparr>tc_seq := tc_seq c + 1\<rparr>) s3) })"

subsection \<open>Segments on the wire\<close>

definition tcp_packet :: "u16 \<Rightarrow> u16 \<Rightarrow> u32 \<Rightarrow> u32 \<Rightarrow> u8 \<Rightarrow> u8 list \<Rightarrow> 'a net_scheme \<Rightarrow> u8 list" where
  "tcp_packet sp dp seq ack flags ip s =
     (let seg = (\<lambda>c. tcp_segment sp dp seq ack flags c [])
      in seg (tcp_checksum (pseudo_header (my_ip s) ip 20) (seg 0)))"

definition tcp_frame :: "u8 list \<Rightarrow> u8 list \<Rightarrow> u16 \<Rightarrow> u16 \<Rightarrow> u32 \<Rightarrow> u32 \<Rightarrow> u8 \<Rightarrow> 'a net_scheme \<Rightarrow> u8 list" where
  "tcp_frame mac ip sp dp seq ack flags s =
     eth_frame mac ETHERTYPE_IPV4 (ip_packet IPV4_PROTO_TCP ip (tcp_packet sp dp seq ack flags ip s) s) s"

lemma length_tcp_segment [simp]: "length (tcp_segment sp dp seq ack flags c data) = 20 + length data"
  by (simp add: tcp_segment_def)

lemma tcp_frame_host:
  "my_ip s = my_ip t \<Longrightarrow> my_mac s = my_mac t \<Longrightarrow> tcp_frame mac ip sp dp seq ack flags s = tcp_frame mac ip sp dp seq ack flags t"
  by (simp add: tcp_frame_def eth_frame_def ip_packet_def ipv4_header_def tcp_packet_def Let_def)

text \<open>To a peer in the ARP cache a segment without data goes out as one frame; nothing is polled.\<close>

lemma net_send_tcp_sends:
  assumes r: "ready (3 * ROOM) s" and arp: "arp_lookup ip (arp_cache s) = Some mac" and l: "length mac = 6" "length ip = 4"
  shows "\<exists>s'. net_send_tcp poll n ip sp dp seq ack flags [] 0 s = Some s' \<and> sends (tcp_frame mac ip sp dp seq ack flags s) s s'"
proof -
  have "net_send_tcp poll n ip sp dp seq ack flags [] 0 s =
      with_buffer (ucast (20 :: u16)) (tcp_packet sp dp seq ack flags ip s)
        (net_send_ipv4 ip mac IPV4_PROTO_TCP (tcp_packet sp dp seq ack flags ip s) 20) s"
    using arp by (simp add: net_send_tcp_def resolve_def Let_def tcp_packet_def)
  moreover have "length (tcp_packet sp dp seq ack flags ip s) = unat (20 :: u16)" by (simp add: tcp_packet_def Let_def)
  note with_buffer_ipv4_sends [OF r this _ l, of IPV4_PROTO_TCP]
  ultimately show ?thesis by (simp add: tcp_frame_def)
qed

subsection \<open>The abstract connection\<close>

text \<open>What a segment with the given flags makes of a connection's state, and the flags of the answers.\<close>

fun tcp_next :: "tcp_state \<Rightarrow> u8 \<Rightarrow> tcp_state" where
  "tcp_next TCP_STATE_SYN_SENT flags =
     (if flags AND TCP_FLAG_SYN \<noteq> 0 \<and> flags AND TCP_FLAG_ACK \<noteq> 0 then TCP_STATE_ESTABLISHED else TCP_STATE_SYN_SENT)"
| "tcp_next TCP_STATE_ESTABLISHED flags =
     (if flags AND TCP_FLAG_FIN \<noteq> 0 then TCP_STATE_LAST_ACK else TCP_STATE_ESTABLISHED)"
| "tcp_next TCP_STATE_LAST_ACK flags =
     (if flags AND TCP_FLAG_ACK \<noteq> 0 then TCP_STATE_CLOSED else TCP_STATE_LAST_ACK)"
| "tcp_next st flags = st"

fun tcp_answers :: "tcp_state \<Rightarrow> u8 \<Rightarrow> u8 list" where
  "tcp_answers TCP_STATE_SYN_SENT flags =
     (if flags AND TCP_FLAG_SYN \<noteq> 0 \<and> flags AND TCP_FLAG_ACK \<noteq> 0 then [TCP_FLAG_ACK] else [])"
| "tcp_answers TCP_STATE_ESTABLISHED flags =
     (if flags AND TCP_FLAG_FIN \<noteq> 0 then [TCP_FLAG_ACK, TCP_FLAG_FIN OR TCP_FLAG_ACK] else [])"
| "tcp_answers st flags = []"

lemma find_conn_Some:
  "find_conn p k cs = Some i \<Longrightarrow> k \<le> i \<and> i - k < length cs \<and> p (cs ! (i - k)) \<and> (\<forall>j < i - k. \<not> p (cs ! j))"
proof (induction cs arbitrary: k)
  case (Cons c cs)
  show ?case
  proof (cases "p c")
    case False
    then have "find_conn p (k + 1) cs = Some i" using Cons.prems by simp
    from Cons.IH [OF this] have h: "k + 1 \<le> i" "i - (k + 1) < length cs" "p (cs ! (i - (k + 1)))"
      "\<forall>j < i - (k + 1). \<not> p (cs ! j)" by auto
    then have "i - k = Suc (i - (k + 1))" by simp
    then show ?thesis using h False by (auto simp: less_Suc_eq_0_disj)
  qed (use Cons.prems in simp)
qed simp

lemma find_connD:
  assumes "find_conn p 0 cs = Some i"
  shows "i < length cs" "p (cs ! i)" "j < i \<Longrightarrow> \<not> p (cs ! j)"
  using find_conn_Some [OF assms] by simp_all

lemma find_connI:
  "i < length cs \<Longrightarrow> p (cs ! i) \<Longrightarrow> (\<And>j. j < i \<Longrightarrow> \<not> p (cs ! j)) \<Longrightarrow> find_conn p k cs = Some (k + i)"
proof (induction cs arbitrary: i k)
  case (Cons c cs)
  show ?case
  proof (cases i)
    case 0
    then show ?thesis using Cons.prems by simp
  next
    case (Suc j)
    then have "\<not> p c" using Cons.prems(3) [of 0] by simp
    moreover have "find_conn p (k + 1) cs = Some (k + 1 + j)"
      using Cons.prems Suc by (intro Cons.IH) force+
    ultimately show ?thesis using Suc by simp
  qed
qed simp

lemma find_conn_None: "find_conn p k cs = None \<longleftrightarrow> (\<forall>c \<in> set cs. \<not> p c)"
  by (induction cs arbitrary: k) auto

lemma upd_conn_simps [simp]:
  "connections (upd_conn i f s) = (connections s)[i := f (connections s ! i)]" "nheap (upd_conn i f s) = nheap s"
  "wire (upd_conn i f s) = wire s" "arp_cache (upd_conn i f s) = arp_cache s" "my_ip (upd_conn i f s) = my_ip s"
  "my_mac (upd_conn i f s) = my_mac s" "tcp_bindings (upd_conn i f s) = tcp_bindings s"
  "udp_bindings (upd_conn i f s) = udp_bindings s" "next_local_port (upd_conn i f s) = next_local_port s"
  "done_reads (upd_conn i f s) = done_reads s" "nmem (upd_conn i f s) = nmem s"
  by (simp_all add: upd_conn_def)

lemma ready_upd_conn [simp]: "ready k (upd_conn i f s) = ready k s"
  by (simp add: ready_def card_live_def)

lemma sends_tcp_fields:
  fixes s s' :: "'a tcpsys_scheme"
  assumes "sends fr s s'"
  shows "connections s' = connections s" "next_local_port s' = next_local_port s"
proof -
  have m: "net.more s' = net.more s" using assms by (rule sends_fields)
  have c: "connections t = connections u" "next_local_port t = next_local_port u"
    if "net.more t = net.more u" for t u :: "'a tcpsys_scheme"
    using that by (cases t; cases u; simp)+
  show "connections s' = connections s" "next_local_port s' = next_local_port s" by (rule c [OF m])+
qed

lemma ready_after:
  assumes "sends fr s s'" and "ready k s" shows "ready k s'"
  using ready_sends [OF assms(1), of k] assms(2) by (auto simp: ready_def)

text \<open>
  A segment of a known connection, from a peer in the ARP cache: the connection makes the step of the abstract
  machine, the answers carry its sequence number and acknowledge the segment, and every other
  connection stays as it was.
\<close>

lemma tcp_segment_step:
  fixes s :: "'a tcpsys_scheme" and tcp :: u64
  assumes r: "ready (3 * ROOM) s" and arp: "arp_lookup src_ip (arp_cache s) = Some mac" and l: "length mac = 6" "length src_ip = 4"
    and f: "find_conn (matches dst_port src_port src_ip) 0 (connections s) = Some i"
  defines "c \<equiv> connections s ! i" and "flags \<equiv> nmem s (tcp + 13)" and "seq \<equiv> ntohl (read32 (nmem s) (tcp + 4))"
  shows "\<exists>s' c'. tcp_handle_packet poll n src_ip src_port dst_port tcp data len s = Some s' \<and>
    connections s' = (connections s)[i := c'] \<and> tc_state c' = tcp_next (tc_state c) flags \<and>
    (tcp_answers (tc_state c) flags \<noteq> [] \<longrightarrow> tc_ack c' = seq + 1) \<and>
    tc_seq c' = tc_seq c + (if tc_state c = TCP_STATE_ESTABLISHED \<and> flags AND TCP_FLAG_FIN \<noteq> 0 then 1 else 0) \<and>
    local_port c' = local_port c \<and> remote_port c' = remote_port c \<and> remote_ip c' = remote_ip c \<and>
    wire s' = wire s @ map (\<lambda>fl. tcp_frame mac src_ip dst_port src_port (tc_seq c) (seq + 1) fl s) (tcp_answers (tc_state c) flags) \<and>
    heap_like (nheap s) (nheap s') \<and> ready (3 * ROOM) s' \<and> arp_cache s' = arp_cache s \<and> tcp_bindings s' = tcp_bindings s \<and>
    my_ip s' = my_ip s \<and> my_mac s' = my_mac s \<and> next_local_port s' = next_local_port s"
    (is "\<exists>s' c'. ?handle = Some s' \<and> ?post s' c'")
proof -
  note fc = find_connD [OF f]
  have c: "tc_state c \<noteq> TCP_STATE_CLOSED" "local_port c = dst_port" using fc(2) by (simp_all add: c_def matches_def)
  have hl: "heap_like (nheap s) (nheap s)" using r by (simp add: ready_def heap_like_def)
  have same: "(connections s)[i := c] = connections s" by (simp add: c_def)
  have idle: "?handle = Some s \<Longrightarrow> tcp_next (tc_state c) flags = tc_state c \<Longrightarrow> tcp_answers (tc_state c) flags = [] \<Longrightarrow>
      \<not> (tc_state c = TCP_STATE_ESTABLISHED \<and> flags AND TCP_FLAG_FIN \<noteq> 0) \<Longrightarrow> \<exists>s' c'. ?handle = Some s' \<and> ?post s' c'"
    using r hl same by (intro exI [of _ s] exI [of _ c]) simp
  note defs = tcp_handle_packet_def f flags_def [symmetric] seq_def [symmetric] c_def [symmetric]
  consider (syn) "tc_state c = TCP_STATE_SYN_SENT" "flags AND TCP_FLAG_SYN \<noteq> 0 \<and> flags AND TCP_FLAG_ACK \<noteq> 0"
    | (fin) "tc_state c = TCP_STATE_ESTABLISHED" "flags AND TCP_FLAG_FIN \<noteq> 0"
    | (last) "tc_state c = TCP_STATE_LAST_ACK" "flags AND TCP_FLAG_ACK \<noteq> 0"
    | (none) "\<not> (tc_state c = TCP_STATE_SYN_SENT \<and> flags AND TCP_FLAG_SYN \<noteq> 0 \<and> flags AND TCP_FLAG_ACK \<noteq> 0)"
        "\<not> (tc_state c = TCP_STATE_ESTABLISHED \<and> flags AND TCP_FLAG_FIN \<noteq> 0)"
        "\<not> (tc_state c = TCP_STATE_LAST_ACK \<and> flags AND TCP_FLAG_ACK \<noteq> 0)" by blast
  then show ?thesis
  proof cases
    case syn
    define s1 where "s1 = upd_conn i (\<lambda>c. c\<lparr>tc_state := TCP_STATE_ESTABLISHED, remote_seq := seq + 1,
        tc_ack := seq + 1, remote_ack := ntohl (read32 (nmem s) (tcp + 8))\<rparr>) s"
    have c1: "connections s1 ! i = c\<lparr>tc_state := TCP_STATE_ESTABLISHED, remote_seq := seq + 1,
        tc_ack := seq + 1, remote_ack := ntohl (read32 (nmem s) (tcp + 8))\<rparr>" using fc(1) by (simp add: s1_def c_def)
    have r1: "ready (3 * ROOM) s1" "arp_lookup src_ip (arp_cache s1) = Some mac" using r arp by (simp_all add: s1_def)
    from net_send_tcp_sends [OF r1 l] obtain s' where s': "net_send_tcp poll n src_ip dst_port src_port (tc_seq c) (seq + 1)
        TCP_FLAG_ACK [] 0 s1 = Some s'" "sends (tcp_frame mac src_ip dst_port src_port (tc_seq c) (seq + 1) TCP_FLAG_ACK s1) s1 s'"
      by blast
    have "?handle = Some s'" using syn s'(1) c1 c by (simp add: defs Let_def s1_def)
    moreover have "tcp_frame mac src_ip dst_port src_port (tc_seq c) (seq + 1) TCP_FLAG_ACK s1 =
      tcp_frame mac src_ip dst_port src_port (tc_seq c) (seq + 1) TCP_FLAG_ACK s" by (rule tcp_frame_host) (simp_all add: s1_def)
    ultimately show ?thesis
      using sends_fields [OF s'(2)] sends_tcp_fields [OF s'(2)] ready_after [OF s'(2) r1(1)] syn c1 fc(1)
      by (intro exI [of _ s'] exI [of _ "connections s1 ! i"]) (simp add: s1_def)
  next
    case fin
    define s1 where "s1 = upd_conn i (\<lambda>c. c\<lparr>tc_state := TCP_STATE_CLOSE_WAIT, tc_ack := seq + 1\<rparr>) s"
    have c1: "connections s1 ! i = c\<lparr>tc_state := TCP_STATE_CLOSE_WAIT, tc_ack := seq + 1\<rparr>" using fc(1) by (simp add: s1_def c_def)
    have r1: "ready (3 * ROOM) s1" "arp_lookup src_ip (arp_cache s1) = Some mac" using r arp by (simp_all add: s1_def)
    have fr: "tcp_frame mac src_ip dst_port src_port (tc_seq c) (seq + 1) fl t = tcp_frame mac src_ip dst_port src_port (tc_seq c) (seq + 1) fl s"
      if "my_ip t = my_ip s" "my_mac t = my_mac s" for fl and t :: "'a tcpsys_scheme" by (rule tcp_frame_host) (use that in simp_all)
    from net_send_tcp_sends [OF r1 l] obtain s2 where s2: "net_send_tcp poll n src_ip dst_port src_port (tc_seq c) (seq + 1)
        TCP_FLAG_ACK [] 0 s1 = Some s2" "sends (tcp_frame mac src_ip dst_port src_port (tc_seq c) (seq + 1) TCP_FLAG_ACK s1) s1 s2"
      by blast
    note f2 = sends_fields [OF s2(2)] sends_tcp_fields [OF s2(2)]
    have r2: "ready (3 * ROOM) s2" "arp_lookup src_ip (arp_cache s2) = Some mac"
      using ready_after [OF s2(2) r1(1)] r1(2) f2(7) by simp_all
    from net_send_tcp_sends [OF r2 l] obtain s3 where s3: "net_send_tcp poll n src_ip dst_port src_port (tc_seq c) (seq + 1)
        (TCP_FLAG_FIN OR TCP_FLAG_ACK) [] 0 s2 = Some s3"
      "sends (tcp_frame mac src_ip dst_port src_port (tc_seq c) (seq + 1) (TCP_FLAG_FIN OR TCP_FLAG_ACK) s2) s2 s3" by blast
    note f3 = sends_fields [OF s3(2)] sends_tcp_fields [OF s3(2)]
    let ?c = "c\<lparr>tc_ack := seq + 1, tc_state := TCP_STATE_LAST_ACK, tc_seq := tc_seq c + 1\<rparr>"
    define s' where "s' = upd_conn i (\<lambda>c. c\<lparr>tc_state := TCP_STATE_LAST_ACK, tc_seq := tc_seq c + 1\<rparr>) s3"
    have c2: "connections s2 ! i = connections s1 ! i" using f2 by simp
    have h: "?handle = Some s'" using fin s2(1) s3(1) c1 c2 c by (simp add: defs Let_def s1_def s'_def)
    have cs1: "connections s1 = (connections s)[i := c\<lparr>tc_state := TCP_STATE_CLOSE_WAIT, tc_ack := seq + 1\<rparr>]"
      by (simp add: s1_def c_def)
    have cs3: "connections s3 = connections s1" using f2(20) f3(20) by simp
    have conns: "connections s' = (connections s)[i := ?c]" using fc(1) by (simp add: s'_def cs3 cs1)
    have host: "my_ip s1 = my_ip s" "my_mac s1 = my_mac s" "wire s1 = wire s" "nheap s1 = nheap s"
      "arp_cache s1 = arp_cache s" "tcp_bindings s1 = tcp_bindings s" "next_local_port s1 = next_local_port s"
      by (simp_all add: s1_def)
    have host2: "my_ip s2 = my_ip s" "my_mac s2 = my_mac s" using f2 host by simp_all
    have w: "wire s' = wire s @ map (\<lambda>fl. tcp_frame mac src_ip dst_port src_port (tc_seq c) (seq + 1) fl s) (tcp_answers (tc_state c) flags)"
      using f2(1) f3(1) fin fr [OF host(1,2)] fr [OF host2] host(3) by (simp add: s'_def)
    have hl': "heap_like (nheap s) (nheap s')" using heap_like_trans [OF f2(3) f3(3)] host(4) by (simp add: s'_def)
    have rd: "ready (3 * ROOM) s'" using ready_after [OF s3(2) r2(1)] by (simp add: s'_def)
    have rest: "arp_cache s' = arp_cache s" "tcp_bindings s' = tcp_bindings s" "my_ip s' = my_ip s" "my_mac s' = my_mac s"
      "next_local_port s' = next_local_port s" using f2 f3 host by (simp_all add: s'_def)
    have "?post s' ?c" using conns w hl' rd rest fin by simp
    with h show ?thesis by blast
  next
    case last
    have "?handle = Some (upd_conn i (\<lambda>c. c\<lparr>tc_state := TCP_STATE_CLOSED\<rparr>) s)" using last by (simp add: defs Let_def)
    then show ?thesis using last r hl
      by (intro exI [of _ "upd_conn i (\<lambda>c. c\<lparr>tc_state := TCP_STATE_CLOSED\<rparr>) s"] exI [of _ "c\<lparr>tc_state := TCP_STATE_CLOSED\<rparr>"])
        (simp add: c_def)
  next
    case none
    have "?handle = Some s" using none by (cases "tc_state c") (auto simp: defs Let_def)
    moreover have "tcp_next (tc_state c) flags = tc_state c \<and> tcp_answers (tc_state c) flags = []"
      using none by (cases "tc_state c") auto
    ultimately show ?thesis using idle none(2) by blast
  qed
qed

text \<open>Connecting to a peer in the ARP cache takes the first free slot and sends the SYN.\<close>

lemma tcp_connect_sends:
  fixes s :: "'a tcpsys_scheme"
  assumes r: "ready (3 * ROOM) s" and arp: "arp_lookup ip (arp_cache s) = Some mac" and l: "length mac = 6" "length ip = 4"
    and f: "find_conn (\<lambda>c. tc_state c = TCP_STATE_CLOSED) 0 (connections s) = Some i"
  shows "\<exists>s'. tcp_connect poll n ip port s = Some s' \<and>
    connections s' = (connections s)[i := (connections s ! i)\<lparr>remote_ip := ip, remote_port := port,
      local_port := next_local_port s, tc_state := TCP_STATE_SYN_SENT, tc_ack := 0, tc_seq := 0x12345679\<rparr>] \<and>
    wire s' = wire s @ [tcp_frame mac ip (next_local_port s) port 0x12345678 0 TCP_FLAG_SYN s] \<and>
    ready (3 * ROOM) s' \<and> arp_cache s' = arp_cache s \<and> my_ip s' = my_ip s \<and> my_mac s' = my_mac s \<and>
    next_local_port s' = next_local_port s + 1 \<and>
    tcp_bindings s' = tcp_bindings (net_tcp_bind (next_local_port s) TCP_HANDLE_PACKET s)"
proof -
  note fc = find_connD [OF f]
  define s2 where "s2 = net_tcp_bind (next_local_port s) TCP_HANDLE_PACKET (upd_conn i (\<lambda>c. c\<lparr>remote_ip := ip, remote_port := port,
      local_port := next_local_port s, tc_state := TCP_STATE_SYN_SENT, tc_seq := 0x12345678, tc_ack := 0\<rparr>)
    (s\<lparr>next_local_port := next_local_port s + 1\<rparr>))"
  let ?c = "(connections s ! i)\<lparr>remote_ip := ip, remote_port := port,
      local_port := next_local_port s, tc_state := TCP_STATE_SYN_SENT, tc_seq := 0x12345678, tc_ack := 0\<rparr>"
  have s2: "connections s2 = (connections s)[i := ?c]" "wire s2 = wire s" "arp_cache s2 = arp_cache s" "my_ip s2 = my_ip s"
    "my_mac s2 = my_mac s" "next_local_port s2 = next_local_port s + 1"
    "tcp_bindings s2 = tcp_bindings (net_tcp_bind (next_local_port s) TCP_HANDLE_PACKET s)" "ready (3 * ROOM) s2"
    using r by (simp_all add: s2_def net_tcp_bind_def ready_def card_live_def)
  from net_send_tcp_sends [OF s2(8) _ l] s2(3) arp obtain s3 where
    s3: "net_send_tcp poll n ip (next_local_port s) port 0x12345678 0 TCP_FLAG_SYN [] 0 s2 = Some s3"
    "sends (tcp_frame mac ip (next_local_port s) port 0x12345678 0 TCP_FLAG_SYN s2) s2 s3" by fastforce
  define s' where "s' = upd_conn i (\<lambda>c. c\<lparr>tc_seq := tc_seq c + 1\<rparr>) s3"
  have "tcp_connect poll n ip port s = Some s'"
    using s3(1) fc(1) s2(1) by (simp add: tcp_connect_def f Let_def s2_def [symmetric] s'_def)
  moreover have fr: "tcp_frame mac ip (next_local_port s) port 0x12345678 0 TCP_FLAG_SYN s2 =
    tcp_frame mac ip (next_local_port s) port 0x12345678 0 TCP_FLAG_SYN s" by (rule tcp_frame_host) (simp_all add: s2)
  have "connections s3 = connections s2" "next_local_port s3 = next_local_port s2" by (rule sends_tcp_fields [OF s3(2)])+
  moreover note sends_fields [OF s3(2)] ready_after [OF s3(2) s2(8)]
  ultimately show ?thesis using s2 fc(1) fr by (intro exI [of _ s']) (simp add: s'_def)
qed

subsection \<open>Refinement of the connection's state machine\<close>

text \<open>What the peer can tell of a connection: its state and its next sequence number.\<close>

definition conn_view :: "tcp_conn \<Rightarrow> tcp_state \<times> u32" where
  "conn_view c = (tc_state c, tc_seq c)"

definition view_step :: "u8 \<Rightarrow> tcp_state \<times> u32 \<Rightarrow> tcp_state \<times> u32" where
  "view_step flags v = (tcp_next (fst v) flags,
     if fst v = TCP_STATE_ESTABLISHED \<and> tcp_next (fst v) flags = TCP_STATE_LAST_ACK then snd v + 1 else snd v)"


text \<open>A host with its TCP client, the gateway in its ARP cache, and the SYN|ACK that answers its first connection.\<close>

definition tcp_host :: "mem \<Rightarrow> tcpsys" where
  "tcp_host m = tcp_init (net.extend (net_tcp_bind 80 TCP_HANDLE_PACKET
     ((host [10, 0, 2, 15] [0x52, 0x54, 0, 0x12, 0x34, 0x56] m)\<lparr>
        arp_cache := arp_update [10, 0, 2, 2] [0x52, 0x55, 10, 0, 2, 2]
          (replicate ARP_CACHE_SIZE \<lparr>ae_ip = replicate 4 0, ae_mac = replicate 6 0, ae_valid = False\<rparr>)\<rparr>))
     (tcpsys.fields [] 49152))"

definition segment_at :: "u8 \<Rightarrow> u32 \<Rightarrow> mem" where
  "segment_at flags seq = put_bytes 0x1100000 (tcp_segment 80 49152 seq 0x12345679 flags 0 []) (\<lambda>_. 0)"

lemma tcp_host_fields [simp]:
  "connections (tcp_host m) = replicate MAX_CONNECTIONS conn0" "next_local_port (tcp_host m) = 49152" "nmem (tcp_host m) = m"
  "my_ip (tcp_host m) = [10, 0, 2, 15]" "my_mac (tcp_host m) = [0x52, 0x54, 0, 0x12, 0x34, 0x56]" "wire (tcp_host m) = []"
  by (simp_all add: tcp_host_def tcp_init_def net.defs tcpsys.defs host_def net_tcp_bind_def)

lemma tcp_host_ready: "ready (3 * ROOM) (tcp_host m)"
proof -
  have "ready (3 * ROOM) (host [10, 0, 2, 15] [0x52, 0x54, 0, 0x12, 0x34, 0x56] m)" by (rule host_ready) (simp_all add: ROOM_def)
  then show ?thesis
    by (simp add: ready_def card_live_def tcp_host_def tcp_init_def net.defs tcpsys.defs host_def net_tcp_bind_def)
qed

lemma tcp_host_arp: "arp_lookup [10, 0, 2, 2] (arp_cache (tcp_host m)) = Some [0x52, 0x55, 10, 0, 2, 2]"
  by (simp add: tcp_host_def tcp_init_def net.defs tcpsys.defs net_tcp_bind_def arp_lookup_update arp_room_def ARP_CACHE_SIZE_def host_def)

lemma swap32_swap32 [simp]: "swap32 (swap32 w) = w"
  by (rule bit_word_eq_upt) (simp add: upt_rec swap32_def bit_simps; simp add: numeral_eq_Suc)

lemma holds_bytes32: "holds m a (bytes32 w) \<Longrightarrow> read32 m a = w"
  by (rule bit_word_eq_upt) (simp add: upt_rec bytes32_def read32_def read16_def bit_simps add.assoc; simp add: numeral_eq_Suc)

lemma segment_at_fields: "segment_at flags seq 0x110000D = flags" "ntohl (read32 (segment_at flags seq) 0x1100004) = seq"
proof -
  have h: "holds (segment_at flags seq) 0x1100000 (tcp_segment 80 49152 seq 0x12345679 flags 0 [])"
    unfolding segment_at_def by (rule holds_put_bytes) simp
  show "segment_at flags seq 0x110000D = flags" "ntohl (read32 (segment_at flags seq) 0x1100004) = seq"
    using h by (auto simp: tcp_segment_def dest!: holds_bytes32)
qed

definition syn_sent :: tcp_conn where
  "syn_sent = conn0\<lparr>remote_ip := [10, 0, 2, 2], remote_port := 80, local_port := 49152, tc_state := TCP_STATE_SYN_SENT,
     tc_ack := 0, tc_seq := 0x12345679\<rparr>"


text \<open>
  The life of a client connection with a peer in the ARP cache: \<open>tcp_connect\<close> takes the first free
  slot and sends a SYN with sequence number 0x12345678; the SYN|ACK makes it ESTABLISHED and is acknowledged;
  the FIN is acknowledged and answered by a FIN of our own; the last ACK frees the slot. Exactly these four
  frames are sent and no other slot changes.
\<close>

theorem tcp_client_session:
  fixes s :: "'a tcpsys_scheme" and tcp :: u64
  assumes r: "ready (3 * ROOM) s" and arp: "arp_lookup ip (arp_cache s) = Some mac" and l: "length mac = 6" "length ip = 4"
    and i: "find_conn (\<lambda>c. tc_state c = TCP_STATE_CLOSED) 0 (connections s) = Some i"
    and fresh: "find_conn (matches (next_local_port s) port ip) 0 (connections s) = None"
    and syn_ack: "m1 (tcp + 13) AND TCP_FLAG_SYN \<noteq> 0" "m1 (tcp + 13) AND TCP_FLAG_ACK \<noteq> 0"
    and fin: "m2 (tcp + 13) AND TCP_FLAG_FIN \<noteq> 0" and ack: "m3 (tcp + 13) AND TCP_FLAG_ACK \<noteq> 0"
    and handle: "handle = tcp_handle_packet poll n ip port (next_local_port s) tcp data len"
    and seq: "seq = (\<lambda>m. ntohl (read32 m (tcp + 4)))"
    and frame: "frame = (\<lambda>sq ak fl. tcp_frame mac ip (next_local_port s) port sq ak fl s)"
  shows "\<exists>s1 s2 s3 s4. tcp_connect poll n ip port s = Some s1 \<and> handle (s1\<lparr>nmem := m1\<rparr>) = Some s2 \<and>
    handle (s2\<lparr>nmem := m2\<rparr>) = Some s3 \<and> handle (s3\<lparr>nmem := m3\<rparr>) = Some s4 \<and>
    map (\<lambda>s. tc_state (connections s ! i)) [s1, s2, s3, s4] =
      [TCP_STATE_SYN_SENT, TCP_STATE_ESTABLISHED, TCP_STATE_LAST_ACK, TCP_STATE_CLOSED] \<and>
    wire s4 = wire s @ [frame 0x12345678 0 TCP_FLAG_SYN, frame 0x12345679 (seq m1 + 1) TCP_FLAG_ACK,
      frame 0x12345679 (seq m2 + 1) TCP_FLAG_ACK, frame 0x12345679 (seq m2 + 1) (TCP_FLAG_FIN OR TCP_FLAG_ACK)] \<and>
    (\<forall>j. j \<noteq> i \<longrightarrow> connections s4 ! j = connections s ! j)"
proof -
  note fi = find_connD [OF i]
  let ?p = "matches (next_local_port s) port ip"
  have fr: "tcp_frame mac ip (next_local_port s) port sq ak fl t = frame sq ak fl"
    if "my_ip t = my_ip s" "my_mac t = my_mac s" for sq ak fl and t :: "'a tcpsys_scheme"
    unfolding frame by (rule tcp_frame_host) (use that in simp_all)
  have found: "find_conn ?p 0 ((connections s)[i := c]) = Some i" if "?p c" for c
    using fresh fi(1) that find_connI [of i "(connections s)[i := c]" ?p 0] by (simp add: find_conn_None)
  from tcp_connect_sends [OF r arp l i, of poll n port] obtain s1 c1 where
    s1: "tcp_connect poll n ip port s = Some s1" "connections s1 = (connections s)[i := c1]" "?p c1"
      "tc_state c1 = TCP_STATE_SYN_SENT" "tc_seq c1 = 0x12345679" "wire s1 = wire s @ [frame 0x12345678 0 TCP_FLAG_SYN]"
      "ready (3 * ROOM) s1" "arp_cache s1 = arp_cache s" "my_ip s1 = my_ip s" "my_mac s1 = my_mac s"
    by (auto simp: frame matches_def)
  have step: "\<exists>u d. handle (t\<lparr>nmem := m\<rparr>) = Some u \<and> connections u = (connections s)[i := d] \<and>
      tc_state d = tcp_next (tc_state c) (m (tcp + 13)) \<and> (tc_state d = TCP_STATE_CLOSED \<or> ?p d) \<and>
      tc_seq d = tc_seq c + (if tc_state c = TCP_STATE_ESTABLISHED \<and> m (tcp + 13) AND TCP_FLAG_FIN \<noteq> 0 then 1 else 0) \<and>
      wire u = wire t @ map (frame (tc_seq c) (seq m + 1)) (tcp_answers (tc_state c) (m (tcp + 13))) \<and>
      ready (3 * ROOM) u \<and> arp_cache u = arp_cache s \<and> my_ip u = my_ip s \<and> my_mac u = my_mac s"
    if t: "connections t = (connections s)[i := c]" "?p c" "ready (3 * ROOM) t" "arp_cache t = arp_cache s"
      "my_ip t = my_ip s" "my_mac t = my_mac s" for t c m
  proof -
    have r': "ready (3 * ROOM) (t\<lparr>nmem := m\<rparr>)" using t(3) by (simp add: ready_def card_live_def)
    have a': "arp_lookup ip (arp_cache (t\<lparr>nmem := m\<rparr>)) = Some mac" using arp t(4) by simp
    have f': "find_conn ?p 0 (connections (t\<lparr>nmem := m\<rparr>)) = Some i" using found [OF t(2)] t(1) by simp
    from tcp_segment_step [OF r' a' l f', of poll n tcp data len] fi(1) t fr [of "t\<lparr>nmem := m\<rparr>"]
    show ?thesis by (fastforce simp: handle seq matches_def)
  qed
  from step [OF s1(2,3,7-10), of m1] syn_ack s1(4,5,6) obtain s2 c2 where
    s2: "handle (s1\<lparr>nmem := m1\<rparr>) = Some s2" "connections s2 = (connections s)[i := c2]" "tc_state c2 = TCP_STATE_ESTABLISHED"
      "?p c2" "tc_seq c2 = 0x12345679" "ready (3 * ROOM) s2" "arp_cache s2 = arp_cache s" "my_ip s2 = my_ip s" "my_mac s2 = my_mac s"
      "wire s2 = wire s1 @ [frame 0x12345679 (seq m1 + 1) TCP_FLAG_ACK]" by auto
  from step [OF s2(2,4,6-9), of m2] fin s2(3,5) obtain s3 c3 where
    s3: "handle (s2\<lparr>nmem := m2\<rparr>) = Some s3" "connections s3 = (connections s)[i := c3]" "tc_state c3 = TCP_STATE_LAST_ACK"
      "?p c3" "ready (3 * ROOM) s3" "arp_cache s3 = arp_cache s" "my_ip s3 = my_ip s" "my_mac s3 = my_mac s"
      "wire s3 = wire s2 @ [frame 0x12345679 (seq m2 + 1) TCP_FLAG_ACK, frame 0x12345679 (seq m2 + 1) (TCP_FLAG_FIN OR TCP_FLAG_ACK)]"
    by auto
  from step [OF s3(2,4,5-8), of m3] ack s3(3) obtain s4 c4 where
    s4: "handle (s3\<lparr>nmem := m3\<rparr>) = Some s4" "connections s4 = (connections s)[i := c4]" "tc_state c4 = TCP_STATE_CLOSED"
      "wire s4 = wire s3" by auto
  show ?thesis using s1 s2 s3 s4 fi(1) by (intro exI [of _ s1] exI [of _ s2] exI [of _ s3] exI [of _ s4]) simp
qed

theorem tcp_client_session_witness:
  "\<exists>s1 s2 s3 s4. tcp_connect Some 0 [10, 0, 2, 2] 80 (tcp_host (\<lambda>_. 0)) = Some s1 \<and>
    tcp_handle_packet Some 0 [10, 0, 2, 2] 80 49152 0x1100000 0x1100014 0 (s1\<lparr>nmem := segment_at 0x12 500\<rparr>) = Some s2 \<and>
    tcp_handle_packet Some 0 [10, 0, 2, 2] 80 49152 0x1100000 0x1100014 0 (s2\<lparr>nmem := segment_at 0x11 501\<rparr>) = Some s3 \<and>
    tcp_handle_packet Some 0 [10, 0, 2, 2] 80 49152 0x1100000 0x1100014 0 (s3\<lparr>nmem := segment_at 0x10 502\<rparr>) = Some s4 \<and>
    map (\<lambda>s. tc_state (connections s ! 0)) [s1, s2, s3, s4] =
      [TCP_STATE_SYN_SENT, TCP_STATE_ESTABLISHED, TCP_STATE_LAST_ACK, TCP_STATE_CLOSED] \<and> length (wire s4) = 4"
proof -
  let ?s = "tcp_host (\<lambda>_. 0)"
  have l: "length [0x52, 0x55, 10, 0, 2, 2 :: u8] = 6" "length [10, 0, 2, 2 :: u8] = 4" by simp_all
  have i: "find_conn (\<lambda>c. tc_state c = TCP_STATE_CLOSED) 0 (connections ?s) = Some 0"
    by (simp add: MAX_CONNECTIONS_def conn0_def numeral_eq_Suc)
  have fresh: "find_conn (matches (next_local_port ?s) 80 [10, 0, 2, 2]) 0 (connections ?s) = None"
    by (simp add: find_conn_None matches_def conn0_def MAX_CONNECTIONS_def)
  have f: "segment_at 0x12 500 (0x1100000 + 13) AND TCP_FLAG_SYN \<noteq> 0" "segment_at 0x12 500 (0x1100000 + 13) AND TCP_FLAG_ACK \<noteq> 0"
    "segment_at 0x11 501 (0x1100000 + 13) AND TCP_FLAG_FIN \<noteq> 0" "segment_at 0x10 502 (0x1100000 + 13) AND TCP_FLAG_ACK \<noteq> 0"
    by (simp_all add: segment_at_fields TCP_FLAG_SYN_def TCP_FLAG_ACK_def TCP_FLAG_FIN_def)
  note session = tcp_client_session [where tcp = "0x1100000" and ?m1.0 = "segment_at 0x12 500" and ?m2.0 = "segment_at 0x11 501" and
      ?m3.0 = "segment_at 0x10 502" and poll = Some and n = 0 and data = "0x1100014" and len = 0,
      OF tcp_host_ready tcp_host_arp l i fresh f refl refl refl]
  from session
  obtain s1 s2 s3 s4 where
    "tcp_connect Some 0 [10, 0, 2, 2] 80 ?s = Some s1"
    "tcp_handle_packet Some 0 [10, 0, 2, 2] 80 49152 0x1100000 0x1100014 0 (s1\<lparr>nmem := segment_at 0x12 500\<rparr>) = Some s2"
    "tcp_handle_packet Some 0 [10, 0, 2, 2] 80 49152 0x1100000 0x1100014 0 (s2\<lparr>nmem := segment_at 0x11 501\<rparr>) = Some s3"
    "tcp_handle_packet Some 0 [10, 0, 2, 2] 80 49152 0x1100000 0x1100014 0 (s3\<lparr>nmem := segment_at 0x10 502\<rparr>) = Some s4"
    "map (\<lambda>s. tc_state (connections s ! 0)) [s1, s2, s3, s4] =
      [TCP_STATE_SYN_SENT, TCP_STATE_ESTABLISHED, TCP_STATE_LAST_ACK, TCP_STATE_CLOSED]" "length (wire s4) = 4"
    unfolding tcp_host_fields by auto
  note facts = this
  show ?thesis
    by (rule exI [of _ s1], rule exI [of _ s2], rule exI [of _ s3], rule exI [of _ s4]) (intro conjI facts)
qed

subsection \<open>Ports are never given back\<close>

lemma bind_first_full: "\<forall>b \<in> set bs. b_valid b \<Longrightarrow> bind_first p h bs = bs"
  by (induction bs) auto

text \<open>
  The sixteen entries of the binding table are never freed. Once they are taken, a new connection's port is
  not bound: the SYN goes out, but every segment that comes back is dropped, although slots are free.
\<close>

lemma tcp_bindings_exhausted:
  assumes "ready (3 * ROOM) s" and "arp_lookup ip (arp_cache s) = Some mac" and "length mac = 6" and "length ip = 4"
    and "find_conn (\<lambda>c. tc_state c = TCP_STATE_CLOSED) 0 (connections s) = Some i"
    and full: "\<forall>b \<in> set (tcp_bindings s). b_valid b \<and> b_port b \<noteq> next_local_port s"
  shows "\<exists>s'. tcp_connect poll n ip port s = Some s' \<and> tc_state (connections s' ! i) = TCP_STATE_SYN_SENT \<and>
    wire s' = wire s @ [tcp_frame mac ip (next_local_port s) port 0x12345678 0 TCP_FLAG_SYN s] \<and>
    (\<forall>m ipp data len. ntohs (read16 m (data + 2)) = next_local_port s \<longrightarrow>
      net_handle_tcp tcp_call ipp data len (s'\<lparr>nmem := m\<rparr>) = Some (s'\<lparr>nmem := m\<rparr>))"
proof -
  have none: "find_binding (next_local_port s) bs = None" if "\<forall>b \<in> set bs. b_port b \<noteq> next_local_port s" for bs
    using that by (induction bs) auto
  from tcp_connect_sends [OF assms(1-5), of poll n port] obtain s' where
    s': "tcp_connect poll n ip port s = Some s'" "tc_state (connections s' ! i) = TCP_STATE_SYN_SENT"
      "wire s' = wire s @ [tcp_frame mac ip (next_local_port s) port 0x12345678 0 TCP_FLAG_SYN s]"
      "tcp_bindings s' = tcp_bindings (net_tcp_bind (next_local_port s) TCP_HANDLE_PACKET s)"
    using find_connD(1) [OF assms(5)] by auto
  have "find_binding (next_local_port s) (tcp_bindings s') = None"
    using full none [of "tcp_bindings s"] by (simp add: s'(4) net_tcp_bind_def bind_first_full)
  then show ?thesis using s'(1-3) by (intro exI [of _ s']) (simp add: net_handle_tcp_def Let_def)
qed

end
