(* ===== verification/Dhcp.thy ===== *)
theory Dhcp
  imports Tcp
begin

text \<open>
  The DHCP client of \<open>src/kernel/dhcp.c\<close>: the broadcast DISCOVER, the handler for the replies with its option
  parser, and what the exchange of OFFER, REQUEST and ACK makes of the host's address.
\<close>

subsection \<open>State and packets\<close>

record dhcpsys = tcpsys +
  dhcp_xid :: u32
  dhcp_offered_ip :: "u8 list"
  dhcp_server_ip :: "u8 list"

definition DHCP_BOOTREQUEST :: u8 where "DHCP_BOOTREQUEST = 1"
definition DHCP_BOOTREPLY :: u8 where "DHCP_BOOTREPLY = 2"
definition DHCP_HTYPE_ETHERNET :: u8 where "DHCP_HTYPE_ETHERNET = 1"
definition DHCP_HLEN_ETHERNET :: u8 where "DHCP_HLEN_ETHERNET = 6"
definition DHCP_MAGIC_COOKIE :: u32 where "DHCP_MAGIC_COOKIE = 0x63825363"
definition DHCP_MSG_DISCOVER :: u8 where "DHCP_MSG_DISCOVER = 1"
definition DHCP_MSG_OFFER :: u8 where "DHCP_MSG_OFFER = 2"
definition DHCP_MSG_REQUEST :: u8 where "DHCP_MSG_REQUEST = 3"
definition DHCP_MSG_ACK :: u8 where "DHCP_MSG_ACK = 5"
definition DHCP_OPT_MSG_TYPE :: u8 where "DHCP_OPT_MSG_TYPE = 53"
definition DHCP_OPT_REQ_IP :: u8 where "DHCP_OPT_REQ_IP = 50"
definition DHCP_OPT_SERVER :: u8 where "DHCP_OPT_SERVER = 54"
definition DHCP_OPT_END :: u8 where "DHCP_OPT_END = 255"

lemmas dhcp_consts = DHCP_BOOTREQUEST_def DHCP_BOOTREPLY_def DHCP_HTYPE_ETHERNET_def DHCP_HLEN_ETHERNET_def
  DHCP_MSG_DISCOVER_def DHCP_MSG_OFFER_def DHCP_MSG_REQUEST_def DHCP_MSG_ACK_def DHCP_OPT_MSG_TYPE_def DHCP_OPT_REQ_IP_def
  DHCP_OPT_SERVER_def DHCP_OPT_END_def

text \<open>
  The bytes of a \<open>dhcp_packet_t\<close> of 240 bytes, in the order of the fields, and the options behind it. The
  fields that no code here sets are zero.
\<close>

definition dhcp_packet :: "u8 \<Rightarrow> u32 \<Rightarrow> u16 \<Rightarrow> u8 list \<Rightarrow> u8 list \<Rightarrow> u8 list \<Rightarrow> u8 list" where
  "dhcp_packet oper xid flags yiaddr mac options =
     [oper, DHCP_HTYPE_ETHERNET, DHCP_HLEN_ETHERNET, 0] @ bytes32 (htonl xid) @ bytes16 0 @ bytes16 flags @
     replicate 4 0 @ yiaddr @ replicate 4 0 @ replicate 4 0 @ (mac @ replicate 10 0) @
     replicate 64 0 @ replicate 128 0 @ bytes32 (htonl DHCP_MAGIC_COOKIE) @ options"

subsection \<open>Operations\<close>

text \<open>
  The loop over the options, from offset \<open>i\<close> of the packet: the message type and the server's address it
  leaves. Each option's type is tested against the end of the packet, its length and its content are not.
\<close>

function dhcp_options :: "mem \<Rightarrow> u64 \<Rightarrow> nat \<Rightarrow> nat \<Rightarrow> u8 \<Rightarrow> u8 list \<Rightarrow> u8 \<times> u8 list" where
  "dhcp_options m data len i msg_type server_ip =
     (if i < len \<and> m (data + word_of_nat i) \<noteq> DHCP_OPT_END then
        let ty = m (data + word_of_nat i); opt_len = m (data + word_of_nat (i + 1)); opt = data + word_of_nat (i + 2) in
        if ty = DHCP_OPT_MSG_TYPE then dhcp_options m data len (i + 2 + unat opt_len) (m opt) server_ip
        else if ty = DHCP_OPT_SERVER then dhcp_options m data len (i + 2 + unat opt_len) msg_type (mbytes m opt 4)
        else dhcp_options m data len (i + 2 + unat opt_len) msg_type server_ip
      else (msg_type, server_ip))"
  by pat_completeness auto

termination dhcp_options
  by (relation "measure (\<lambda>(m, data, len, i, t, sv). len - i)") auto

declare dhcp_options.simps [simp del]

definition dhcp_request :: "u32 \<Rightarrow> u8 list \<Rightarrow> u8 list \<Rightarrow> u8 list \<Rightarrow> u8 list" where
  "dhcp_request xid mac offered server =
     dhcp_packet DHCP_BOOTREQUEST xid 0 (replicate 4 0) mac
       ([DHCP_OPT_MSG_TYPE, 1, DHCP_MSG_REQUEST] @ [DHCP_OPT_REQ_IP, 4] @ offered @ [DHCP_OPT_SERVER, 4] @ server @
        [DHCP_OPT_END])"

definition dhcp_handle :: "u64 \<Rightarrow> u16 \<Rightarrow> 'a dhcpsys_scheme \<Rightarrow> 'a dhcpsys_scheme option" where
  "dhcp_handle data len s =
     (if len < 240 then Some s
      else let m = nmem s in
        if m data \<noteq> DHCP_BOOTREPLY \<or> ntohl (read32 m (data + 236)) \<noteq> DHCP_MAGIC_COOKIE then Some s
        else if read32 m (data + 4) \<noteq> htonl (dhcp_xid s) then Some s
        else
          let (msg_type, server) = dhcp_options m data (unat len) 240 0 (dhcp_server_ip s);
              s1 = s\<lparr>dhcp_server_ip := server\<rparr>
          in if msg_type = DHCP_MSG_OFFER then
               let s2 = s1\<lparr>dhcp_offered_ip := mbytes m (data + 16) 4\<rparr>;
                   total_len = 240 + 12 :: u16;
                   pkt = dhcp_request (dhcp_xid s2) (e1000_get_mac s2) (dhcp_offered_ip s2) (dhcp_server_ip s2)
               in with_buffer (ucast total_len) pkt (net_send_udp (replicate 4 255) 68 67 pkt total_len) s2
             else if msg_type = DHCP_MSG_ACK then Some (net_set_ip (mbytes m (data + 16) 4) s1)
             else Some s1)"

text \<open>The address of \<open>dhcp_handle\<close>, bound to port 68.\<close>

definition DHCP_HANDLE :: u64 where "DHCP_HANDLE = 0x107000"

definition dhcp_init :: "'a dhcpsys_scheme \<Rightarrow> 'a dhcpsys_scheme" where
  "dhcp_init s = net_udp_bind 68 DHCP_HANDLE s"

definition dhcp_discover :: "'a dhcpsys_scheme \<Rightarrow> 'a dhcpsys_scheme option" where
  "dhcp_discover s =
     (let total_len = 240 + 4 :: u16;
          pkt = dhcp_packet DHCP_BOOTREQUEST (dhcp_xid s) (htons 0x8000) (replicate 4 0) (e1000_get_mac s)
            [DHCP_OPT_MSG_TYPE, 1, DHCP_MSG_DISCOVER, DHCP_OPT_END]
      in with_buffer (ucast total_len) pkt (net_send_udp (replicate 4 255) 68 67 pkt total_len) s)"

subsection \<open>Sending\<close>

definition dhcp_frame :: "u8 list \<Rightarrow> 'a net_scheme \<Rightarrow> u8 list" where
  "dhcp_frame pkt s = eth_frame broadcast_mac ETHERTYPE_IPV4 (ip_packet IPV4_PROTO_UDP (replicate 4 255) (udp_packet 68 67 pkt) s) s"

lemma length_dhcp_packet:
  "length yi = 4 \<Longrightarrow> length mac = 6 \<Longrightarrow> length (dhcp_packet oper xid flags yi mac opts) = 240 + length opts"
  by (simp add: dhcp_packet_def)

lemma broadcast_sends:
  assumes r: "ready (4 * ROOM) s" and len: "unat len \<le> length pkt" "length pkt \<le> unat (align8 (ucast len))" "unat len + 42 < 65536"
  shows "\<exists>s'. with_buffer (ucast (len :: u16)) pkt (net_send_udp (replicate 4 255) 68 67 pkt len) s = Some s' \<and>
    sends (dhcp_frame (take (unat len) pkt) s) s s'"
proof (rule buffer_sends_padded [of "3 * ROOM"])
  show "ready (3 * ROOM + ROOM) s" using r by simp
  show "length pkt \<le> unat (align8 (ucast len))" by (rule len)
  fix h assume "ready (3 * ROOM + 8) (s\<lparr>nheap := h\<rparr>)"
  then have "ready (3 * ROOM) (s\<lparr>nheap := h\<rparr>)" by (rule ready_mono) simp
  from net_send_udp_sends [OF this len(1,3), of "replicate 4 255" broadcast_mac 68 67]
  show "\<exists>s1. net_send_udp (replicate 4 255) 68 67 pkt len (s\<lparr>nheap := h\<rparr>) = Some s1 \<and>
      sends (dhcp_frame (take (unat len) pkt) s) (s\<lparr>nheap := h\<rparr>) s1"
    by (simp add: udp_target_def broadcast_mac_def dhcp_frame_def eth_frame_def ip_packet_def ipv4_header_def Let_def)
qed

text \<open>The handler of an UDP datagram leaves the client's own fields alone while it sends.\<close>

lemma sends_dhcp_fields:
  fixes s s' :: "'a dhcpsys_scheme"
  assumes "sends fr s s'"
  shows "dhcp_xid s' = dhcp_xid s" "dhcp_offered_ip s' = dhcp_offered_ip s" "dhcp_server_ip s' = dhcp_server_ip s"
proof -
  have m: "net.more s' = net.more s" using assms by (rule sends_fields)
  have c: "dhcp_xid t = dhcp_xid u" "dhcp_offered_ip t = dhcp_offered_ip u" "dhcp_server_ip t = dhcp_server_ip u"
    if "net.more t = net.more u" for t u :: "'a dhcpsys_scheme"
    using that by (cases t; cases u; simp)+
  show "dhcp_xid s' = dhcp_xid s" "dhcp_offered_ip s' = dhcp_offered_ip s" "dhcp_server_ip s' = dhcp_server_ip s"
    by (rule c [OF m])+
qed

subsection \<open>The options\<close>

fun encode_options :: "(u8 \<times> u8 list) list \<Rightarrow> u8 list" where
  "encode_options [] = [DHCP_OPT_END]"
| "encode_options ((ty, content) # os) = [ty, word_of_nat (length content)] @ content @ encode_options os"

definition option_ok :: "u8 \<times> u8 list \<Rightarrow> bool" where
  "option_ok x \<longleftrightarrow> fst x \<noteq> DHCP_OPT_END \<and> length (snd x) < 256 \<and> (fst x = DHCP_OPT_MSG_TYPE \<longrightarrow> snd x \<noteq> []) \<and>
     (fst x = DHCP_OPT_SERVER \<longrightarrow> length (snd x) = 4)"

text \<open>What a list of options says: the last message type and the last server of it.\<close>

fun options_say :: "(u8 \<times> u8 list) list \<Rightarrow> u8 \<Rightarrow> u8 list \<Rightarrow> u8 \<times> u8 list" where
  "options_say [] ty server = (ty, server)"
| "options_say ((k, content) # os) ty server =
     options_say os (if k = DHCP_OPT_MSG_TYPE then hd content else ty) (if k = DHCP_OPT_SERVER then content else server)"

lemma encode_options_length: "0 < length (encode_options os)"
  by (cases os rule: encode_options.cases) simp_all

lemma dhcp_options_say:
  "holds m (data + word_of_nat i) (encode_options os) \<Longrightarrow> list_all option_ok os \<Longrightarrow> i + length (encode_options os) \<le> len \<Longrightarrow>
   dhcp_options m data len i ty server = options_say os ty server"
proof (induction os ty server arbitrary: i rule: options_say.induct)
  case (1 ty server)
  then show ?case by (subst dhcp_options.simps) simp
next
  case (2 k content os ty server)
  have ok: "k \<noteq> DHCP_OPT_END" "length content < 256" "k = DHCP_OPT_MSG_TYPE \<Longrightarrow> content \<noteq> []"
    "k = DHCP_OPT_SERVER \<Longrightarrow> length content = 4" using 2(3) by (simp_all add: option_ok_def)
  have a: "data + word_of_nat i + 1 = data + word_of_nat (i + 1)" "data + word_of_nat (i + 1) + 1 = data + word_of_nat (i + 2)"
    "data + word_of_nat (i + 2) + word_of_nat (length content) = data + word_of_nat (i + 2 + length content)"
    by (simp_all add: algebra_simps)
  have m: "m (data + word_of_nat i) = k" "m (data + word_of_nat (i + 1)) = word_of_nat (length content)"
    "holds m (data + word_of_nat (i + 2)) content"
    "holds m (data + word_of_nat (i + 2 + length content)) (encode_options os)"
    using 2(2) by (simp_all only: encode_options.simps append.simps holds_Cons holds_append a)
  have n: "unat (word_of_nat (length content) :: u8) = length content"
    using ok(2) by (simp add: unsigned_of_nat take_bit_nat_eq_self)
  have msg: "m (data + word_of_nat (i + 2)) = hd content" if "k = DHCP_OPT_MSG_TYPE"
    using m(3) ok(3) [OF that] by (cases content) simp_all
  have srv: "mbytes m (data + word_of_nat (i + 2)) 4 = content" if "k = DHCP_OPT_SERVER"
    by (rule holds_bytes [OF m(3) ok(4) [OF that]])
  have ih: "dhcp_options m data len (i + 2 + length content) ty' server' = options_say os ty' server'"
    if "ty' = (if k = DHCP_OPT_MSG_TYPE then hd content else ty)"
      "server' = (if k = DHCP_OPT_SERVER then content else server)" for ty' server'
    unfolding that by (rule 2(1) [OF m(4)]) (use 2(3,4) in simp_all)
  have lt: "i < len" using 2(4) by simp
  have ne: "DHCP_OPT_MSG_TYPE \<noteq> DHCP_OPT_SERVER" by (simp add: dhcp_consts)
  show ?case
    by (subst dhcp_options.simps) (use lt ok(1) m(1,2) n msg srv ne ih [OF refl refl] in \<open>auto simp: Let_def\<close>)
qed

subsection \<open>Replies\<close>

definition reply_at :: "mem \<Rightarrow> u64 \<Rightarrow> u16 \<Rightarrow> u32 \<Rightarrow> u8 list \<Rightarrow> (u8 \<times> u8 list) list \<Rightarrow> bool" where
  "reply_at m data len xid yiaddr os \<longleftrightarrow> (\<exists>flags chaddr. length chaddr = 6 \<and> length yiaddr = 4 \<and> list_all option_ok os \<and>
     holds m data (dhcp_packet DHCP_BOOTREPLY xid flags yiaddr chaddr (encode_options os)) \<and>
     unat len = 240 + length (encode_options os))"

lemma reply_fields:
  assumes "reply_at m data len xid yiaddr os"
  shows "m data = DHCP_BOOTREPLY" "ntohl (read32 m (data + 236)) = DHCP_MAGIC_COOKIE" "read32 m (data + 4) = htonl xid"
    "mbytes m (data + 16) 4 = yiaddr" "dhcp_options m data (unat len) 240 ty server = options_say os ty server" "\<not> len < 240"
proof -
  from assms obtain flags chaddr where l: "length chaddr = 6" "length yiaddr = 4" "list_all option_ok os"
    "holds m data (dhcp_packet DHCP_BOOTREPLY xid flags yiaddr chaddr (encode_options os))"
    "unat len = 240 + length (encode_options os)" by (auto simp: reply_at_def)
  have h: "m data = DHCP_BOOTREPLY" "holds m (data + 4) (bytes32 (htonl xid))" "holds m (data + 16) yiaddr"
    "holds m (data + 236) (bytes32 (htonl DHCP_MAGIC_COOKIE))" "holds m (data + 240) (encode_options os)"
    using l(1,2,4) by (simp_all add: dhcp_packet_def add.assoc)
  show "m data = DHCP_BOOTREPLY" "ntohl (read32 m (data + 236)) = DHCP_MAGIC_COOKIE" "read32 m (data + 4) = htonl xid"
    "mbytes m (data + 16) 4 = yiaddr" using h l(2) by (simp_all add: holds_bytes32 holds_bytes)
  show "dhcp_options m data (unat len) 240 ty server = options_say os ty server"
    by (rule dhcp_options_say) (use h(5) l in simp_all)
  show "\<not> len < 240" using l(5) by (simp add: word_less_nat_alt)
qed

subsection \<open>The exchange\<close>

text \<open>
  \<open>dhcp_discover\<close> broadcasts exactly one frame, an UDP datagram from port 68 to port 67 that holds the
  DISCOVER message with the card's hardware address, and gives its buffers back.
\<close>

theorem dhcp_discover_broadcasts:
  assumes r: "ready (4 * ROOM) s" and mac: "length (mac_addr s) = 6"
  shows "\<exists>s'. dhcp_discover s = Some s' \<and> heap_like (nheap s) (nheap s') \<and>
    wire s' = wire s @ [dhcp_frame (dhcp_packet DHCP_BOOTREQUEST (dhcp_xid s) (htons 0x8000) (replicate 4 0) (mac_addr s)
      [DHCP_OPT_MSG_TYPE, 1, DHCP_MSG_DISCOVER, DHCP_OPT_END]) s]"
proof -
  let ?pkt = "dhcp_packet DHCP_BOOTREQUEST (dhcp_xid s) (htons 0x8000) (replicate 4 0) (e1000_get_mac s)
      [DHCP_OPT_MSG_TYPE, 1, DHCP_MSG_DISCOVER, DHCP_OPT_END]"
  have m: "e1000_get_mac s = mac_addr s" using mac by (simp add: e1000_get_mac_def)
  then have l: "length ?pkt = 244" using mac by (simp add: length_dhcp_packet)
  have "unat (240 + 4 :: u16) \<le> length ?pkt" "length ?pkt \<le> unat (align8 (ucast (240 + 4 :: u16)))"
    "unat (240 + 4 :: u16) + 42 < 65536" using l align8_u16(1) [of "240 + 4"] by simp_all
  from broadcast_sends [OF r this] obtain s' where
    "dhcp_discover s = Some s'" "sends (dhcp_frame (take (unat (240 + 4 :: u16)) ?pkt) s) s s'"
    by (auto simp: dhcp_discover_def Let_def)
  then show ?thesis using sends_fields(1,3) l m by fastforce
qed

definition dhcp_host :: "mem \<Rightarrow> dhcpsys" where
  "dhcp_host m = dhcp_init (tcpsys.extend (tcp_host m) (dhcpsys.fields 0x12345678 (replicate 4 0) (replicate 4 0)))"

lemma dhcp_host_fields [simp]:
  "dhcp_xid (dhcp_host m) = 0x12345678" "dhcp_server_ip (dhcp_host m) = replicate 4 0" "nmem (dhcp_host m) = m"
  "mac_addr (dhcp_host m) = [0x52, 0x54, 0, 0x12, 0x34, 0x56]" "wire (dhcp_host m) = []"
  by (simp_all add: dhcp_host_def dhcp_init_def tcpsys.defs dhcpsys.defs tcp_host_def tcp_init_def net.defs host_def net_tcp_bind_def
    net_udp_bind_def)

lemma dhcp_host_ready: "ready (4 * ROOM) (dhcp_host m)"
proof -
  have "ready (4 * ROOM) (host [10, 0, 2, 15] [0x52, 0x54, 0, 0x12, 0x34, 0x56] m)" by (rule host_ready) (simp_all add: ROOM_def)
  then show ?thesis
    by (simp add: ready_def card_live_def dhcp_host_def dhcp_init_def tcpsys.defs dhcpsys.defs tcp_host_def tcp_init_def net.defs
      host_def net_tcp_bind_def net_udp_bind_def)
qed

theorem dhcp_discover_broadcasts_witness:
  "\<exists>s'. dhcp_discover (dhcp_host (\<lambda>_. 0)) = Some s' \<and> length (wire s') = 1"
  using dhcp_discover_broadcasts [OF dhcp_host_ready, of "\<lambda>_. 0"] by auto

text \<open>
  C21. The lease: an OFFER with our transaction number makes the client remember the offered address and the
  server and broadcast one REQUEST for them; the ACK, whatever its other options, makes its address the
  host's own and sends nothing. The REQUEST is cut off after 252 bytes, which is after the first byte of the server's
  address.
\<close>

theorem dhcp_lease:
  assumes r: "ready (4 * ROOM) s" and mac: "length (mac_addr s) = 6"
    and offer: "reply_at (nmem s) data len (dhcp_xid s) yi os" "options_say os 0 (dhcp_server_ip s) = (DHCP_MSG_OFFER, server)"
      "length server = 4"
    and ack: "reply_at m2 data2 len2 (dhcp_xid s) yi2 os2" "fst (options_say os2 0 server) = DHCP_MSG_ACK"
  shows "\<exists>s1 s2. dhcp_handle data len s = Some s1 \<and> dhcp_offered_ip s1 = yi \<and> dhcp_server_ip s1 = server \<and>
    wire s1 = wire s @ [dhcp_frame (dhcp_packet DHCP_BOOTREQUEST (dhcp_xid s) 0 (replicate 4 0) (mac_addr s)
      ([DHCP_OPT_MSG_TYPE, 1, DHCP_MSG_REQUEST] @ [DHCP_OPT_REQ_IP, 4] @ yi @ [DHCP_OPT_SERVER, 4, hd server])) s] \<and>
    dhcp_handle data2 len2 (s1\<lparr>nmem := m2\<rparr>) = Some s2 \<and> my_ip s2 = yi2 \<and> wire s2 = wire s1"
proof -
  note o = reply_fields [OF offer(1)] and a = reply_fields [OF ack(1)]
  have yi: "length yi = 4" "length yi2 = 4" using offer(1) ack(1) by (auto simp: reply_at_def)
  define s0 where "s0 = s\<lparr>dhcp_server_ip := server, dhcp_offered_ip := yi\<rparr>"
  define pkt where "pkt = dhcp_request (dhcp_xid s) (mac_addr s) yi server"
  have r0: "ready (4 * ROOM) s0" using r by (simp add: s0_def ready_def card_live_def)
  have l: "length pkt = 256" using mac yi offer(3) by (simp add: pkt_def dhcp_request_def length_dhcp_packet)
  have "align8 (252 :: u64) = 256" by (simp add: align8_def)
  then have "unat (252 :: u16) \<le> length pkt" "length pkt \<le> unat (align8 (ucast (252 :: u16)))" "unat (252 :: u16) + 42 < 65536"
    using l by simp_all
  from broadcast_sends [OF r0 this] obtain s1 where
    s1: "with_buffer 252 pkt (net_send_udp (replicate 4 255) 68 67 pkt 252) s0 = Some s1" "sends (dhcp_frame (take 252 pkt) s0) s0 s1"
    by auto
  have h1: "dhcp_handle data len s = Some s1"
    using o s1(1) offer(2) mac
    by (simp add: dhcp_handle_def Let_def s0_def pkt_def e1000_get_mac_def)
  obtain b bs where server: "server = b # bs" using offer(3) by (cases server) auto
  have cut: "take 252 pkt = dhcp_packet DHCP_BOOTREQUEST (dhcp_xid s) 0 (replicate 4 0) (mac_addr s)
      ([DHCP_OPT_MSG_TYPE, 1, DHCP_MSG_REQUEST] @ [DHCP_OPT_REQ_IP, 4] @ yi @ [DHCP_OPT_SERVER, 4, hd server])"
    using mac yi by (simp add: pkt_def dhcp_request_def dhcp_packet_def server)
  note f1 = sends_fields [OF s1(2)] sends_dhcp_fields [OF s1(2)]
  have fr: "dhcp_frame p s0 = dhcp_frame p s" for p
    by (simp add: s0_def dhcp_frame_def eth_frame_def ip_packet_def ipv4_header_def)
  have w: "wire s1 = wire s @ [dhcp_frame (take 252 pkt) s]" using f1(1) unfolding fr by (simp add: s0_def)
  have d1: "dhcp_xid s1 = dhcp_xid s" "dhcp_server_ip s1 = server" "dhcp_offered_ip s1 = yi"
    using f1(20-22) by (simp_all add: s0_def)
  obtain sv where sv: "options_say os2 0 server = (DHCP_MSG_ACK, sv)" using ack(2) by (cases "options_say os2 0 server") simp
  have ne: "DHCP_MSG_ACK \<noteq> DHCP_MSG_OFFER" by (simp add: dhcp_consts)
  have h2: "dhcp_handle data2 len2 (s1\<lparr>nmem := m2\<rparr>) = Some (net_set_ip yi2 (s1\<lparr>nmem := m2, dhcp_server_ip := sv\<rparr>))"
    using a d1 sv ne by (simp add: dhcp_handle_def Let_def)
  show ?thesis using h1 h2 w d1 yi(2) unfolding cut by (intro exI conjI) (assumption | simp add: net_set_ip_def)+
qed

definition offer_options :: "(u8 \<times> u8 list) list" where
  "offer_options = [(DHCP_OPT_MSG_TYPE, [DHCP_MSG_OFFER]), (1, [255, 255, 255, 0]), (DHCP_OPT_SERVER, [10, 0, 2, 2])]"

definition ack_options :: "(u8 \<times> u8 list) list" where
  "ack_options = [(DHCP_OPT_MSG_TYPE, [DHCP_MSG_ACK])]"

definition reply_memory :: "(u8 \<times> u8 list) list \<Rightarrow> mem" where
  "reply_memory os = put_bytes 0x1100000
     (dhcp_packet DHCP_BOOTREPLY 0x12345678 0 [10, 0, 2, 77] (replicate 6 0) (encode_options os)) (\<lambda>_. 0)"

lemma reply_memory_at:
  assumes "list_all option_ok os" and "length (encode_options os) = n" and "n < 1000"
  shows "reply_at (reply_memory os) 0x1100000 (word_of_nat (240 + n)) 0x12345678 [10, 0, 2, 77] os"
proof -
  have "length (dhcp_packet DHCP_BOOTREPLY 0x12345678 0 [10, 0, 2, 77] (replicate 6 0) (encode_options os)) \<le> 2 ^ 64"
    using assms by (simp add: length_dhcp_packet)
  then have "holds (reply_memory os) 0x1100000
      (dhcp_packet DHCP_BOOTREPLY 0x12345678 0 [10, 0, 2, 77] (replicate 6 0) (encode_options os))"
    unfolding reply_memory_def by (rule holds_put_bytes)
  moreover have "unat (word_of_nat (240 + n) :: u16) = 240 + n"
    using assms(3) by (simp only: unsigned_of_nat) (simp add: take_bit_nat_eq_self)
  ultimately show ?thesis
    unfolding reply_at_def using assms by (intro exI [of _ 0] exI [of _ "replicate 6 0"]) simp
qed

theorem dhcp_lease_witness:
  "\<exists>s1 s2. dhcp_handle 0x1100000 256 (dhcp_host (reply_memory offer_options)) = Some s1 \<and>
     dhcp_offered_ip s1 = [10, 0, 2, 77] \<and> dhcp_server_ip s1 = [10, 0, 2, 2] \<and> length (wire s1) = 1 \<and>
     dhcp_handle 0x1100000 244 (s1\<lparr>nmem := reply_memory ack_options\<rparr>) = Some s2 \<and> my_ip s2 = [10, 0, 2, 77]"
proof -
  let ?s = "dhcp_host (reply_memory offer_options)"
  have o: "reply_at (nmem ?s) 0x1100000 256 (dhcp_xid ?s) [10, 0, 2, 77] offer_options"
    using reply_memory_at [of offer_options 16] by (simp add: offer_options_def option_ok_def dhcp_consts)
  have a: "reply_at (reply_memory ack_options) 0x1100000 244 (dhcp_xid ?s) [10, 0, 2, 77] ack_options"
    using reply_memory_at [of ack_options 4] by (simp add: ack_options_def option_ok_def dhcp_consts)
  have says: "options_say offer_options 0 (dhcp_server_ip ?s) = (DHCP_MSG_OFFER, [10, 0, 2, 2])"
    "fst (options_say ack_options 0 [10, 0, 2, 2]) = DHCP_MSG_ACK"
    by (simp_all add: offer_options_def ack_options_def dhcp_consts)
  have l: "length (mac_addr ?s) = 6" "length [10, 0, 2, 2 :: u8] = 4" by simp_all
  from dhcp_lease [OF dhcp_host_ready l(1) o says(1) l(2) a says(2)] show ?thesis by auto
qed

text \<open>
  The length of the packet bounds where an option may start, not where it ends: a message type option that
  starts at the last byte is read from two bytes behind the packet.
\<close>

lemma dhcp_option_overread:
  assumes "m (data + 240) = DHCP_OPT_MSG_TYPE"
  shows "dhcp_options m data 241 240 ty server = (m (data + 242), server)"
  by (subst dhcp_options.simps, subst dhcp_options.simps) (simp add: assms Let_def dhcp_consts)

end
