(* ===== verification/Ata.thy ===== *)
theory Ata
  imports Prelude
begin

text \<open>
  The ATA driver of \<open>src/kernel/ata.c\<close>: polling with a bound, and the transfer of one sector of 512 bytes in
  each direction. The drive is the hardware behind the ports: it keeps the task-file registers and the sectors,
  hands out the words of a sector after a read command and stores the words it is given after a write command.
  What it answers on the status port is an input of the model, \<open>ata_status\<close>, so that busy times, errors and
  a drive that never answers are all covered.
\<close>

subsection \<open>Ports and the drive\<close>

definition ATA_PRIMARY_IO :: u16 where "ATA_PRIMARY_IO = 0x1F0"
definition ATA_REG_DATA :: u16 where "ATA_REG_DATA = 0"
definition ATA_REG_SECCOUNT :: u16 where "ATA_REG_SECCOUNT = 2"
definition ATA_REG_LBA_LOW :: u16 where "ATA_REG_LBA_LOW = 3"
definition ATA_REG_LBA_MID :: u16 where "ATA_REG_LBA_MID = 4"
definition ATA_REG_LBA_HIGH :: u16 where "ATA_REG_LBA_HIGH = 5"
definition ATA_REG_DRIVE :: u16 where "ATA_REG_DRIVE = 6"
definition ATA_REG_COMMAND :: u16 where "ATA_REG_COMMAND = 7"
definition ATA_REG_STATUS :: u16 where "ATA_REG_STATUS = 7"
definition ATA_CMD_READ_PIO :: u8 where "ATA_CMD_READ_PIO = 0x20"
definition ATA_CMD_WRITE_PIO :: u8 where "ATA_CMD_WRITE_PIO = 0x30"
definition ATA_CMD_CACHE_FLUSH :: u8 where "ATA_CMD_CACHE_FLUSH = 0xE7"
definition ATA_CMD_IDENTIFY :: u8 where "ATA_CMD_IDENTIFY = 0xEC"
definition ATA_SR_BSY :: u8 where "ATA_SR_BSY = 0x80"
definition ATA_SR_DRQ :: u8 where "ATA_SR_DRQ = 0x08"
definition ATA_SR_ERR :: u8 where "ATA_SR_ERR = 0x01"

lemmas ata_regs = ATA_PRIMARY_IO_def ATA_REG_DATA_def ATA_REG_SECCOUNT_def ATA_REG_LBA_LOW_def ATA_REG_LBA_MID_def
  ATA_REG_LBA_HIGH_def ATA_REG_DRIVE_def ATA_REG_COMMAND_def ATA_REG_STATUS_def
lemmas ata_cmds = ATA_CMD_READ_PIO_def ATA_CMD_WRITE_PIO_def ATA_CMD_CACHE_FLUSH_def ATA_CMD_IDENTIFY_def

record drive =
  sectors :: "u32 \<Rightarrow> u8 list"
  task_file :: "u16 \<Rightarrow> u8"
  words_in :: "u16 list"
  words_out :: "u16 list"
  identify :: "u16 list"
  ata_status :: "nat \<Rightarrow> u8"
  status_pos :: nat

fun words_of :: "u8 list \<Rightarrow> u16 list" where
  "words_of (a # b # bs) = le16 a b # words_of bs"
| "words_of bs = []"

text \<open>The 28-bit address in the registers.\<close>

definition selected_lba :: "'a drive_scheme \<Rightarrow> u32" where
  "selected_lba s = push_bit 24 (ucast (task_file s (ATA_PRIMARY_IO + ATA_REG_DRIVE) AND 0x0F)) OR
     push_bit 16 (ucast (task_file s (ATA_PRIMARY_IO + ATA_REG_LBA_HIGH))) OR
     push_bit 8 (ucast (task_file s (ATA_PRIMARY_IO + ATA_REG_LBA_MID))) OR
     ucast (task_file s (ATA_PRIMARY_IO + ATA_REG_LBA_LOW))"

definition ata_outb :: "u16 \<Rightarrow> u8 \<Rightarrow> 'a drive_scheme \<Rightarrow> 'a drive_scheme" where
  "ata_outb port v s =
     (let s1 = s\<lparr>task_file := (task_file s)(port := v)\<rparr>
      in if port = ATA_PRIMARY_IO + ATA_REG_COMMAND \<and> v = ATA_CMD_READ_PIO then
           s1\<lparr>words_in := words_of (sectors s1 (selected_lba s1))\<rparr>
         else if port = ATA_PRIMARY_IO + ATA_REG_COMMAND \<and> v = ATA_CMD_WRITE_PIO then s1\<lparr>words_out := []\<rparr>
         else if port = ATA_PRIMARY_IO + ATA_REG_COMMAND \<and> v = ATA_CMD_IDENTIFY then s1\<lparr>words_in := identify s1\<rparr>
         else s1)"

definition ata_inb_status :: "'a drive_scheme \<Rightarrow> u8 \<times> 'a drive_scheme" where
  "ata_inb_status s = (ata_status s (status_pos s), s\<lparr>status_pos := status_pos s + 1\<rparr>)"

definition ata_inw :: "'a drive_scheme \<Rightarrow> u16 \<times> 'a drive_scheme" where
  "ata_inw s = (case words_in s of [] \<Rightarrow> (0, s) | w # ws \<Rightarrow> (w, s\<lparr>words_in := ws\<rparr>))"

text \<open>The last word of a sector stores it.\<close>

definition ata_outw :: "u16 \<Rightarrow> 'a drive_scheme \<Rightarrow> 'a drive_scheme" where
  "ata_outw w s =
     (let ws = words_out s @ [w]
      in if length ws = 256 then s\<lparr>words_out := [], sectors := (sectors s)(selected_lba s := concat (map bytes16 ws))\<rparr>
         else s\<lparr>words_out := ws\<rparr>)"

subsection \<open>The driver\<close>

text \<open>The loop over \<open>timeout\<close>, which is its first argument.\<close>

primrec ata_wait_loop :: "nat \<Rightarrow> u8 \<Rightarrow> bool \<Rightarrow> 'a drive_scheme \<Rightarrow> int \<times> 'a drive_scheme" where
  "ata_wait_loop 0 b set_it s = (-2, s)"
| "ata_wait_loop (Suc timeout) b set_it s =
     (let (status, s1) = ata_inb_status s
      in if status AND ATA_SR_ERR \<noteq> 0 then (-1, s1)
         else if set_it \<and> status AND b \<noteq> 0 then (0, s1)
         else if \<not> set_it \<and> status AND b = 0 then (0, s1)
         else ata_wait_loop timeout b set_it s1)"

definition ata_wait :: "u8 \<Rightarrow> bool \<Rightarrow> 'a drive_scheme \<Rightarrow> int \<times> 'a drive_scheme" where
  "ata_wait b set_it s = ata_wait_loop 1000000 b set_it s"

text \<open>\<open>n\<close> reads of the data register.\<close>

primrec read_words :: "nat \<Rightarrow> 'a drive_scheme \<Rightarrow> u16 list \<times> 'a drive_scheme" where
  "read_words 0 s = ([], s)"
| "read_words (Suc n) s =
     (let (w, s1) = ata_inw s; (ws, s2) = read_words n s1 in (w # ws, s2))"

definition ata_init :: "'a drive_scheme \<Rightarrow> int \<times> 'a drive_scheme" where
  "ata_init s =
     (let s1 = ata_outb (ATA_PRIMARY_IO + ATA_REG_DRIVE) 0xA0 s;
          s2 = ata_outb (ATA_PRIMARY_IO + ATA_REG_SECCOUNT) 0 s1;
          s3 = ata_outb (ATA_PRIMARY_IO + ATA_REG_LBA_LOW) 0 s2;
          s4 = ata_outb (ATA_PRIMARY_IO + ATA_REG_LBA_MID) 0 s3;
          s5 = ata_outb (ATA_PRIMARY_IO + ATA_REG_LBA_HIGH) 0 s4;
          s6 = ata_outb (ATA_PRIMARY_IO + ATA_REG_COMMAND) ATA_CMD_IDENTIFY s5;
          (status, s7) = ata_inb_status s6
      in if status = 0 then (-1, s7)
         else let (r1, s8) = ata_wait ATA_SR_BSY False s7 in
           if r1 \<noteq> 0 then (-1, s8)
           else let (r2, s9) = ata_wait ATA_SR_DRQ True s8 in
             if r2 \<noteq> 0 then (-1, s9)
             else let (ws, s10) = read_words 256 s9 in (0, s10))"

text \<open>The command for one sector, which both directions send.\<close>

definition select_sector :: "u32 \<Rightarrow> u8 \<Rightarrow> 'a drive_scheme \<Rightarrow> 'a drive_scheme" where
  "select_sector lba command s =
     (let s1 = ata_outb (ATA_PRIMARY_IO + ATA_REG_DRIVE) (0xE0 OR ucast (drop_bit 24 lba AND 0x0F)) s;
          s2 = ata_outb (ATA_PRIMARY_IO + ATA_REG_SECCOUNT) 1 s1;
          s3 = ata_outb (ATA_PRIMARY_IO + ATA_REG_LBA_LOW) (ucast lba) s2;
          s4 = ata_outb (ATA_PRIMARY_IO + ATA_REG_LBA_MID) (ucast (drop_bit 8 lba)) s3;
          s5 = ata_outb (ATA_PRIMARY_IO + ATA_REG_LBA_HIGH) (ucast (drop_bit 16 lba)) s4
      in ata_outb (ATA_PRIMARY_IO + ATA_REG_COMMAND) command s5)"

text \<open>The new contents of the buffer: after an error it keeps the old ones.\<close>

definition ata_read_sector :: "u32 \<Rightarrow> u8 list \<Rightarrow> 'a drive_scheme \<Rightarrow> u8 list \<times> 'a drive_scheme" where
  "ata_read_sector lba buffer s =
     (let (r1, s1) = ata_wait ATA_SR_BSY False s in
      if r1 \<noteq> 0 then (buffer, s1)
      else let s2 = select_sector lba ATA_CMD_READ_PIO s1; (r2, s3) = ata_wait ATA_SR_BSY False s2 in
        if r2 \<noteq> 0 then (buffer, s3)
        else let (r3, s4) = ata_wait ATA_SR_DRQ True s3 in
          if r3 \<noteq> 0 then (buffer, s4)
          else let (ws, s5) = read_words 256 s4 in (concat (map bytes16 ws), s5))"

definition ata_write_sector :: "u32 \<Rightarrow> u8 list \<Rightarrow> 'a drive_scheme \<Rightarrow> 'a drive_scheme" where
  "ata_write_sector lba buffer s =
     (let (r1, s1) = ata_wait ATA_SR_BSY False s in
      if r1 \<noteq> 0 then s1
      else let s2 = select_sector lba ATA_CMD_WRITE_PIO s1; (r2, s3) = ata_wait ATA_SR_BSY False s2 in
        if r2 \<noteq> 0 then s3
        else let (r3, s4) = ata_wait ATA_SR_DRQ True s3 in
          if r3 \<noteq> 0 then s4
          else let s5 = fold ata_outw (words_of buffer) s4;
                   s6 = ata_outb (ATA_PRIMARY_IO + ATA_REG_COMMAND) ATA_CMD_CACHE_FLUSH s5;
                   (r4, s7) = ata_wait ATA_SR_BSY False s6
               in s7)"

subsection \<open>Words and bytes\<close>

lemma bytes16_le16: "bytes16 (le16 a b) = [a, b]"
proof -
  have "\<not> bit a n" if "8 \<le> n" for n using that bit_imp_le_length [of a n] by auto
  then have "ucast (le16 a b) = a" "ucast (drop_bit 8 (le16 a b)) = b"
    by (rule_tac bit_word_eq_upt; simp add: upt_rec le16_def bit_simps)+
  then show ?thesis by (simp add: bytes16_def)
qed

lemma bytes_of_words: "even (length bs) \<Longrightarrow> concat (map bytes16 (words_of bs)) = bs"
  by (induction bs rule: words_of.induct) (simp_all add: bytes16_le16)

lemma length_words_of: "length (words_of bs) = length bs div 2"
  by (induction bs rule: words_of.induct) simp_all

lemma read_words_all:
  "words_in s = xs @ ys \<Longrightarrow> read_words (length xs) s = (xs, s\<lparr>words_in := ys\<rparr>)"
  by (induction xs arbitrary: s) (simp_all add: ata_inw_def)

lemma ata_outw_all:
  "length (words_out s) + length ws < 256 \<Longrightarrow> fold ata_outw ws s = s\<lparr>words_out := words_out s @ ws\<rparr>"
  by (induction ws arbitrary: s) (simp_all add: ata_outw_def)

lemma ata_outw_sector:
  assumes "words_out s = []" and "length ws = 256"
  shows "fold ata_outw ws s = s\<lparr>words_out := [], sectors := (sectors s)(selected_lba s := concat (map bytes16 ws))\<rparr>"
proof -
  obtain vs w where ws: "ws = vs @ [w]" using assms(2) by (cases ws rule: rev_cases) auto
  then have "fold ata_outw vs s = s\<lparr>words_out := vs\<rparr>" using ata_outw_all [of s vs] assms by simp
  then show ?thesis using ws assms(2) by (simp add: ata_outw_def selected_lba_def)
qed

subsection \<open>Waiting\<close>

text \<open>
  A drive in working order reports no error, and within every million reads of its status it is once ready to
  transfer.
\<close>

definition in_order :: "'a drive_scheme \<Rightarrow> bool" where
  "in_order s \<longleftrightarrow> (\<forall>n. ata_status s n AND ATA_SR_ERR = 0) \<and>
     (\<forall>n. \<exists>k < 1000000. ata_status s (n + k) AND ATA_SR_BSY = 0 \<and> ata_status s (n + k) AND ATA_SR_DRQ \<noteq> 0)"

lemma ata_wait_loop_ready:
  assumes "\<And>n. ata_status s n AND ATA_SR_ERR = 0" and "k < t"
    and "if set_it then ata_status s (status_pos s + k) AND b \<noteq> 0 else ata_status s (status_pos s + k) AND b = 0"
  shows "\<exists>p. ata_wait_loop t b set_it s = (0, s\<lparr>status_pos := p\<rparr>)"
  using assms
proof (induction t arbitrary: s k)
  case (Suc t)
  let ?s = "s\<lparr>status_pos := status_pos s + 1\<rparr>"
  note e = Suc.prems(1) and k = Suc.prems(2,3)
  let ?now = "if set_it then ata_status s (status_pos s) AND b \<noteq> 0 else ata_status s (status_pos s) AND b = 0"
  show ?case
  proof (cases ?now)
    case True
    then show ?thesis using e by (auto simp: ata_inb_status_def Let_def split: if_splits)
  next
    case False
    then obtain j where j: "k = Suc j" using k(2) by (cases k) (auto split: if_splits)
    have "\<exists>p. ata_wait_loop t b set_it ?s = (0, ?s\<lparr>status_pos := p\<rparr>)"
      by (rule Suc.IH [of _ j]) (use e k j in \<open>auto split: if_splits\<close>)
    then show ?thesis using False e by (auto simp: ata_inb_status_def Let_def split: if_splits)
  qed
qed simp

lemma ata_wait_in_order:
  assumes "in_order s"
  shows "\<exists>p. ata_wait ATA_SR_BSY False s = (0, s\<lparr>status_pos := p\<rparr>)" "\<exists>p. ata_wait ATA_SR_DRQ True s = (0, s\<lparr>status_pos := p\<rparr>)"
proof -
  from assms obtain k where k: "k < 1000000" "ata_status s (status_pos s + k) AND ATA_SR_BSY = 0"
    "ata_status s (status_pos s + k) AND ATA_SR_DRQ \<noteq> 0" unfolding in_order_def by blast
  have e: "ata_status s n AND ATA_SR_ERR = 0" for n using assms by (simp add: in_order_def)
  show "\<exists>p. ata_wait ATA_SR_BSY False s = (0, s\<lparr>status_pos := p\<rparr>)" "\<exists>p. ata_wait ATA_SR_DRQ True s = (0, s\<lparr>status_pos := p\<rparr>)"
    unfolding ata_wait_def by (rule ata_wait_loop_ready [of s k, OF e k(1)]; use k in simp)+
qed

lemma in_order_cong: "ata_status s' = ata_status s \<Longrightarrow> in_order s' = in_order s"
  by (simp add: in_order_def)

subsection \<open>Sectors\<close>

definition lba28 :: "u32 \<Rightarrow> u32" where "lba28 lba = lba AND 0x0FFFFFFF"

definition sectors_ok :: "'a drive_scheme \<Rightarrow> bool" where
  "sectors_ok s \<longleftrightarrow> (\<forall>l. length (sectors s l) = 512)"

text \<open>What a transfer leaves alone.\<close>

definition same_drive :: "'a drive_scheme \<Rightarrow> 'a drive_scheme \<Rightarrow> bool" where
  "same_drive s s' \<longleftrightarrow> ata_status s' = ata_status s \<and> identify s' = identify s \<and> drive.more s' = drive.more s"

lemma same_drive_refl [simp]: "same_drive s s" by (simp add: same_drive_def)
lemma same_drive_trans [trans]: "same_drive s t \<Longrightarrow> same_drive t u \<Longrightarrow> same_drive s u" by (simp add: same_drive_def)
lemma same_drive_in_order: "same_drive s s' \<Longrightarrow> in_order s' = in_order s" by (simp add: same_drive_def in_order_def)

lemma select_sector_fields:
  fixes s :: "'a drive_scheme"
  shows "selected_lba (select_sector lba cmd s) = lba28 lba" "sectors (select_sector lba cmd s) = sectors s"
    "same_drive s (select_sector lba cmd s)"
    "cmd = ATA_CMD_READ_PIO \<Longrightarrow> words_in (select_sector lba cmd s) = words_of (sectors s (lba28 lba))"
    "cmd = ATA_CMD_WRITE_PIO \<Longrightarrow> words_out (select_sector lba cmd s) = []"
proof -
  have b: "push_bit 24 (ucast ((0xE0 OR ucast (drop_bit 24 lba AND 0x0F)) AND 0x0F :: u8)) OR
     push_bit 16 (ucast (ucast (drop_bit 16 lba) :: u8)) OR push_bit 8 (ucast (ucast (drop_bit 8 lba) :: u8)) OR
     ucast (ucast lba :: u8) = lba28 lba"
    by (rule bit_word_eq_upt) (simp add: upt_rec lba28_def bit_simps; simp add: numeral_eq_Suc)
  show "selected_lba (select_sector lba cmd s) = lba28 lba" "sectors (select_sector lba cmd s) = sectors s"
    "same_drive s (select_sector lba cmd s)"
    "cmd = ATA_CMD_READ_PIO \<Longrightarrow> words_in (select_sector lba cmd s) = words_of (sectors s (lba28 lba))"
    "cmd = ATA_CMD_WRITE_PIO \<Longrightarrow> words_out (select_sector lba cmd s) = []"
    by (simp_all add: select_sector_def ata_outb_def Let_def ata_regs ata_cmds selected_lba_def b same_drive_def)
qed

text \<open>
  On a drive in working order a read delivers the 512 bytes of the sector that the low 28 bits of the address
  name, whatever was in the buffer, and changes no sector.
\<close>

lemma ata_read_sector_reads:
  assumes ok: "in_order s" and len: "length (sectors s (lba28 lba)) = 512"
  shows "\<exists>s'. ata_read_sector lba buffer s = (sectors s (lba28 lba), s') \<and> sectors s' = sectors s \<and> same_drive s s'"
proof -
  from ata_wait_in_order(1) [OF ok] obtain p where p: "ata_wait ATA_SR_BSY False s = (0, s\<lparr>status_pos := p\<rparr>)" by blast
  define s2 where "s2 = select_sector lba ATA_CMD_READ_PIO (s\<lparr>status_pos := p\<rparr>)"
  note f = select_sector_fields [where lba = lba and cmd = ATA_CMD_READ_PIO and s = "s\<lparr>status_pos := p\<rparr>", folded s2_def]
  have same: "same_drive s s2" using f(3) by (simp add: same_drive_def)
  then have o2: "in_order s2" using ok same_drive_in_order by blast
  from ata_wait_in_order(1) [OF o2] obtain q where q: "ata_wait ATA_SR_BSY False s2 = (0, s2\<lparr>status_pos := q\<rparr>)" by blast
  have "in_order (s2\<lparr>status_pos := q\<rparr>)" using o2 by (simp add: in_order_def)
  from ata_wait_in_order(2) [OF this] obtain r where
    r: "ata_wait ATA_SR_DRQ True (s2\<lparr>status_pos := q\<rparr>) = (0, s2\<lparr>status_pos := r\<rparr>)" by auto
  have w: "words_in (s2\<lparr>status_pos := r\<rparr>) = words_of (sectors s (lba28 lba)) @ []" using f(4) by simp
  have "length (words_of (sectors s (lba28 lba))) = 256" by (simp add: length_words_of len)
  with read_words_all [OF w] have rd: "read_words 256 (s2\<lparr>status_pos := r\<rparr>) =
      (words_of (sectors s (lba28 lba)), s2\<lparr>status_pos := r, words_in := []\<rparr>)" by simp
  have "ata_read_sector lba buffer s = (sectors s (lba28 lba), s2\<lparr>status_pos := r, words_in := []\<rparr>)"
    by (simp add: ata_read_sector_def p q r rd s2_def [symmetric] bytes_of_words len)
  then show ?thesis using f(2) same by (simp add: same_drive_def)
qed

lemma ata_write_sector_writes:
  assumes ok: "in_order s" and len: "length buffer = 512"
  shows "sectors (ata_write_sector lba buffer s) = (sectors s)(lba28 lba := buffer) \<and> same_drive s (ata_write_sector lba buffer s)"
proof -
  from ata_wait_in_order(1) [OF ok] obtain p where p: "ata_wait ATA_SR_BSY False s = (0, s\<lparr>status_pos := p\<rparr>)" by blast
  define s2 where "s2 = select_sector lba ATA_CMD_WRITE_PIO (s\<lparr>status_pos := p\<rparr>)"
  note f = select_sector_fields [where lba = lba and cmd = ATA_CMD_WRITE_PIO and s = "s\<lparr>status_pos := p\<rparr>", folded s2_def]
  have same: "same_drive s s2" using f(3) by (simp add: same_drive_def)
  then have o2: "in_order s2" using ok same_drive_in_order by blast
  from ata_wait_in_order(1) [OF o2] obtain q where q: "ata_wait ATA_SR_BSY False s2 = (0, s2\<lparr>status_pos := q\<rparr>)" by blast
  have "in_order (s2\<lparr>status_pos := q\<rparr>)" using o2 by (simp add: in_order_def)
  from ata_wait_in_order(2) [OF this] obtain r where
    r: "ata_wait ATA_SR_DRQ True (s2\<lparr>status_pos := q\<rparr>) = (0, s2\<lparr>status_pos := r\<rparr>)" by auto
  define s5 where "s5 = fold ata_outw (words_of buffer) (s2\<lparr>status_pos := r\<rparr>)"
  have s5: "s5 = s2\<lparr>status_pos := r, words_out := [], sectors := (sectors s)(lba28 lba := buffer)\<rparr>"
    using ata_outw_sector [of "s2\<lparr>status_pos := r\<rparr>" "words_of buffer"] f(1,2,5) len
    by (simp add: s5_def length_words_of bytes_of_words selected_lba_def)
  define s6 where "s6 = ata_outb (ATA_PRIMARY_IO + ATA_REG_COMMAND) ATA_CMD_CACHE_FLUSH s5"
  have s6: "sectors s6 = (sectors s)(lba28 lba := buffer)" "same_drive s s6"
    using same by (simp_all add: s6_def s5 ata_outb_def Let_def ata_cmds same_drive_def)
  have "in_order s6" using s6(2) ok same_drive_in_order by blast
  from ata_wait_in_order(1) [OF this] obtain t where "ata_wait ATA_SR_BSY False s6 = (0, s6\<lparr>status_pos := t\<rparr>)" by blast
  then have "ata_write_sector lba buffer s = s6\<lparr>status_pos := t\<rparr>"
    by (simp add: ata_write_sector_def p q r s2_def [symmetric] s5_def [symmetric] s6_def [symmetric])
  then show ?thesis using s6 by (simp add: same_drive_def)
qed

text \<open>With an error on the status port the buffer keeps its old contents, and the caller is not told.\<close>

lemma ata_read_sector_error:
  assumes "ata_status s (status_pos s) AND ATA_SR_ERR \<noteq> 0"
  shows "ata_read_sector lba buffer s = (buffer, s\<lparr>status_pos := status_pos s + 1\<rparr>)"
proof -
  have "ata_wait_loop (Suc 999999) ATA_SR_BSY False s = (-1, s\<lparr>status_pos := status_pos s + 1\<rparr>)"
    unfolding ata_wait_loop.simps(2) using assms by (simp add: ata_inb_status_def)
  moreover have "Suc 999999 = 1000000" by simp
  ultimately show ?thesis by (simp only: ata_read_sector_def ata_wait_def Let_def) simp
qed

text \<open>A demonstration drive that is always ready.\<close>

definition demo_drive :: drive where
  "demo_drive = \<lparr>sectors = (\<lambda>_. replicate 512 0), task_file = (\<lambda>_. 0), words_in = [], words_out = [],
     identify = replicate 256 0, ata_status = (\<lambda>_. ATA_SR_DRQ), status_pos = 0\<rparr>"

lemma demo_drive_in_order: "in_order demo_drive" "sectors_ok demo_drive"
  by (auto simp: in_order_def sectors_ok_def demo_drive_def ATA_SR_DRQ_def ATA_SR_ERR_def ATA_SR_BSY_def intro: exI [of _ 0])

end
