(* ===== verification/Tar.thy ===== *)
theory Tar
  imports Ata
begin

text \<open>
  The TAR archive on the disk, \<open>src/kernel/tar.c\<close>: a cache of one sector, octal sizes, and the two linear scans
  over the headers. A header is the 512 bytes of its sector; \<open>name\<close> starts at byte 0 and \<open>size\<close> at byte 124.
  A C string is the list of its bytes before the terminator. The scans are loops whose end
  depends on what is on the disk, so they are partial functions; that they end is proved.
\<close>

subsection \<open>State and cache\<close>

record tardisk = drive +
  tar_start_lba :: u32
  cache_lba :: u32
  cache_data :: "u8 list"
  cache_valid :: bool

definition cached_read_sector :: "u32 \<Rightarrow> 'a tardisk_scheme \<Rightarrow> u8 list \<times> 'a tardisk_scheme" where
  "cached_read_sector lba s =
     (if cache_valid s \<and> cache_lba s = lba then (cache_data s, s)
      else let (data, s1) = ata_read_sector lba (cache_data s) s
        in (data, s1\<lparr>cache_data := data, cache_lba := lba, cache_valid := True\<rparr>))"

definition cached_write_sector :: "u32 \<Rightarrow> u8 list \<Rightarrow> 'a tardisk_scheme \<Rightarrow> 'a tardisk_scheme" where
  "cached_write_sector lba buffer s =
     (ata_write_sector lba buffer s)\<lparr>cache_data := buffer, cache_lba := lba, cache_valid := True\<rparr>"

subsection \<open>Headers\<close>

text \<open>The loop over at most 11 digits.\<close>

fun octal_loop :: "nat \<Rightarrow> u8 list \<Rightarrow> u32 \<Rightarrow> u32" where
  "octal_loop (Suc n) (c # cs) res =
     (if c < 48 \<or> 55 < c then res else octal_loop n cs (push_bit 3 res OR ucast (c - 48)))"
| "octal_loop n cs res = res"

definition octal_to_int :: "u8 list \<Rightarrow> u32" where
  "octal_to_int oct = octal_loop 11 oct 0"

definition header_name_is :: "u8 list \<Rightarrow> u8 list \<Rightarrow> bool" where
  "header_name_is buffer name \<longleftrightarrow> take (length name + 1) buffer = name @ [0]"

definition header_name :: "u8 list \<Rightarrow> u8 list" where
  "header_name buffer = takeWhile (\<lambda>c. c \<noteq> 0) buffer"

definition header_size :: "u8 list \<Rightarrow> u32" where
  "header_size buffer = octal_to_int (drop 124 buffer)"

subsection \<open>Scans\<close>

definition tar_init_disk :: "u32 \<Rightarrow> 'a tardisk_scheme \<Rightarrow> 'a tardisk_scheme" where
  "tar_init_disk start_lba s = s\<lparr>tar_start_lba := start_lba\<rparr>"

partial_function (option) tar_find_loop :: "u8 list \<Rightarrow> u32 \<Rightarrow> 'a tardisk_scheme \<Rightarrow>
    ((u32 \<times> u32) option \<times> 'a tardisk_scheme) option" where
  "tar_find_loop name current_lba s =
     (case cached_read_sector current_lba s of (buffer, s1) \<Rightarrow>
        if buffer ! 0 = 0 then Some (None, s1)
        else if header_name_is buffer name then Some (Some (current_lba + 1, header_size buffer), s1)
        else let next_lba = current_lba + (1 + (header_size buffer + 511) div 512)
          in if tar_start_lba s1 + 20000 < next_lba then Some (None, s1)
             else tar_find_loop name next_lba s1)"

text \<open>The position and the size of the file, or none for the result -1.\<close>

definition tar_find_file :: "u8 list \<Rightarrow> 'a tardisk_scheme \<Rightarrow> ((u32 \<times> u32) option \<times> 'a tardisk_scheme) option" where
  "tar_find_file name s = tar_find_loop name (tar_start_lba s) s"

partial_function (option) tar_index_loop :: "int \<Rightarrow> int \<Rightarrow> u32 \<Rightarrow> 'a tardisk_scheme \<Rightarrow>
    (u8 list option \<times> 'a tardisk_scheme) option" where
  "tar_index_loop index current_idx current_lba s =
     (case cached_read_sector current_lba s of (buffer, s1) \<Rightarrow>
        if buffer ! 0 = 0 then Some (None, s1)
        else if current_idx = index then Some (Some (header_name buffer), s1)
        else let next_lba = current_lba + (1 + (header_size buffer + 511) div 512)
          in if tar_start_lba s1 + 20000 < next_lba then Some (None, s1)
             else tar_index_loop index (current_idx + 1) next_lba s1)"

definition tar_get_file_by_index :: "int \<Rightarrow> 'a tardisk_scheme \<Rightarrow> (u8 list option \<times> 'a tardisk_scheme) option" where
  "tar_get_file_by_index index s = tar_index_loop index 0 (tar_start_lba s) s"

subsection \<open>The scans end\<close>

lemma ata_read_sector_frame:
  "drive.more (snd (ata_read_sector lba buffer s)) = drive.more s"
proof -
  have w: "drive.more (snd (ata_wait_loop t b e u)) = drive.more u" for t b e and u :: "'a drive_scheme"
    by (induction t arbitrary: u) (auto simp: ata_inb_status_def Let_def)
  have wait: "drive.more (snd (ata_wait b e u)) = drive.more u" for b e and u :: "'a drive_scheme"
    using w by (simp add: ata_wait_def)
  have rd: "drive.more (snd (read_words n u)) = drive.more u" for n and u :: "'a drive_scheme"
    by (induction n arbitrary: u) (auto simp: ata_inw_def Let_def split_def split: list.splits)
  have sel: "drive.more (select_sector lba c u) = drive.more u" for c and u :: "'a drive_scheme"
    using select_sector_fields(3) [of u lba c] by (simp add: same_drive_def)
  show ?thesis
    using wait rd sel by (auto simp: ata_read_sector_def Let_def split: prod.splits) (metis snd_conv)+
qed

lemma ata_read_sector_tar:
  fixes s s' :: "'a tardisk_scheme"
  assumes "ata_read_sector lba buffer s = (data, s')"
  shows "tar_start_lba s' = tar_start_lba s" "tardisk.more s' = tardisk.more s"
proof -
  have m: "drive.more s' = drive.more s" using ata_read_sector_frame [of lba buffer s] assms by simp
  have "tar_start_lba t = tar_start_lba u" "tardisk.more t = tardisk.more u" if "drive.more t = drive.more u"
    for t u :: "'a tardisk_scheme"
    using that by (cases t; cases u; simp)+
  from this [OF m] show "tar_start_lba s' = tar_start_lba s" "tardisk.more s' = tardisk.more s" .
qed

lemma cached_read_start:
  "cached_read_sector lba s = (buffer, s1) \<Longrightarrow> tar_start_lba s1 = tar_start_lba s"
  using ata_read_sector_tar(1) [of lba "cache_data s" s]
  by (auto simp: cached_read_sector_def Let_def split: if_splits prod.splits)

lemma size_blocks: "unat ((1::u32) + (w + 511) div 512) \<le> 8388608" "0 < unat ((1::u32) + (w + 511) div 512)"
proof -
  have u: "unat ((w + 511) div 512) = unat (w + 511) div 512" by (simp add: unat_div)
  have "unat (w + 511) < 4294967296" using unsigned_less [where 'a = nat, of "w + 511"] by simp
  then have "unat ((w + 511) div 512) \<le> 8388607" unfolding u by simp
  moreover from this have "unat ((1::u32) + (w + 511) div 512) = 1 + unat ((w + 511) div 512)"
    by (simp add: unat_plus_if')
  ultimately show "unat ((1::u32) + (w + 511) div 512) \<le> 8388608" "0 < unat ((1::u32) + (w + 511) div 512)" by simp_all
qed

text \<open>The next header is nearer to the bound by at least one sector, as long as addresses cannot wrap.\<close>

lemma scan_bound: "unat start \<le> 2 ^ 31 \<Longrightarrow> unat (start + 20000 :: u32) = unat start + 20000"
  by (simp add: unat_plus_if')

lemma next_header:
  fixes lba start w :: u32
  assumes start: "unat start \<le> 2 ^ 31" and lba: "lba \<le> start + 20000"
  shows "unat (lba + (1 + (w + 511) div 512)) = unat lba + unat ((1::u32) + (w + 511) div 512)"
proof -
  have "unat lba \<le> unat start + 20000" using lba scan_bound [OF start] by (simp add: word_le_nat_alt)
  then show ?thesis using size_blocks(1) [of w] start by (subst unat_plus_if') simp
qed

lemma tar_find_loop_ends:
  assumes "unat (tar_start_lba s) \<le> 2 ^ 31" and "lba \<le> tar_start_lba s + 20000"
  shows "\<exists>r. tar_find_loop name lba s = Some r"
  using assms
proof (induction "unat (tar_start_lba s) + 20000 - unat lba" arbitrary: lba s rule: less_induct)
  case less
  obtain buffer s1 where r: "cached_read_sector lba s = (buffer, s1)" by fastforce
  note t = cached_read_start [OF r]
  let ?next = "lba + (1 + (header_size buffer + 511) div 512)"
  note n = next_header [OF less.prems, of "header_size buffer"] scan_bound [OF less.prems(1)]
  show ?case
  proof (cases "buffer ! 0 = 0 \<or> header_name_is buffer name \<or> tar_start_lba s1 + 20000 < ?next")
    case True
    then show ?thesis by (subst tar_find_loop.simps) (auto simp: r Let_def)
  next
    case False
    then have nxt: "?next \<le> tar_start_lba s1 + 20000" by (simp add: not_less)
    have "unat lba \<le> unat (tar_start_lba s) + 20000" using less.prems(2) n(2) by (simp add: word_le_nat_alt)
    moreover have "unat ?next \<le> unat (tar_start_lba s) + 20000" using nxt t n(2) by (simp add: word_le_nat_alt)
    ultimately have "\<exists>r. tar_find_loop name ?next s1 = Some r"
      using less.prems(1) nxt t n(1) size_blocks(2) [of "header_size buffer"] by (intro less.hyps) simp_all
    then show ?thesis using False by (subst tar_find_loop.simps) (simp add: r Let_def)
  qed
qed

lemma tar_index_loop_ends:
  assumes "unat (tar_start_lba s) \<le> 2 ^ 31" and "lba \<le> tar_start_lba s + 20000"
  shows "\<exists>r. tar_index_loop i j lba s = Some r"
  using assms
proof (induction "unat (tar_start_lba s) + 20000 - unat lba" arbitrary: j lba s rule: less_induct)
  case less
  obtain buffer s1 where r: "cached_read_sector lba s = (buffer, s1)" by fastforce
  note t = cached_read_start [OF r]
  let ?next = "lba + (1 + (header_size buffer + 511) div 512)"
  note n = next_header [OF less.prems, of "header_size buffer"] scan_bound [OF less.prems(1)]
  show ?case
  proof (cases "buffer ! 0 = 0 \<or> j = i \<or> tar_start_lba s1 + 20000 < ?next")
    case True
    then show ?thesis by (subst tar_index_loop.simps) (auto simp: r Let_def)
  next
    case False
    then have nxt: "?next \<le> tar_start_lba s1 + 20000" by (simp add: not_less)
    have "unat lba \<le> unat (tar_start_lba s) + 20000" using less.prems(2) n(2) by (simp add: word_le_nat_alt)
    moreover have "unat ?next \<le> unat (tar_start_lba s) + 20000" using nxt t n(2) by (simp add: word_le_nat_alt)
    ultimately have "\<exists>r. tar_index_loop i (j + 1) ?next s1 = Some r"
      using less.prems(1) nxt t n(1) size_blocks(2) [of "header_size buffer"] by (intro less.hyps) simp_all
    then show ?thesis using False by (subst tar_index_loop.simps) (simp add: r Let_def)
  qed
qed

text \<open>
  C22. Looking up a file and enumerating the archive always return, whatever is on the disk and whatever the
  drive answers, when the archive starts in the first terabyte.
\<close>

theorem tar_scans_end:
  assumes "unat (tar_start_lba s) \<le> 2 ^ 31"
  shows "(\<exists>r. tar_find_file name s = Some r) \<and> (\<exists>r. tar_get_file_by_index i s = Some r)"
proof -
  have "tar_start_lba s \<le> tar_start_lba s + 20000" using scan_bound [OF assms] by (simp add: word_le_nat_alt)
  then show ?thesis
    unfolding tar_find_file_def tar_get_file_by_index_def
    using tar_find_loop_ends [OF assms] tar_index_loop_ends [OF assms] by blast
qed

theorem tar_scans_end_witness:
  "\<exists>r. tar_find_file [104, 105] (drive.extend (demo_drive\<lparr>ata_status := (\<lambda>_. 0x81)\<rparr>) (tardisk.fields 2048 0 (replicate 512 7) True)) = Some r"
  using tar_scans_end [of "drive.extend (demo_drive\<lparr>ata_status := (\<lambda>_. 0x81)\<rparr>) (tardisk.fields 2048 0 (replicate 512 7) True)"
    "[104, 105]" 0] by (simp add: drive.defs tardisk.defs)

subsection \<open>The cache\<close>

definition cache_ok :: "'a tardisk_scheme \<Rightarrow> bool" where
  "cache_ok s \<longleftrightarrow> (cache_valid s \<longrightarrow> cache_data s = sectors s (lba28 (cache_lba s)))"

definition disk_ok :: "'a tardisk_scheme \<Rightarrow> bool" where
  "disk_ok s \<longleftrightarrow> in_order s \<and> sectors_ok s \<and> cache_ok s"

text \<open>What a read may change: the state of the drive's interface and the cache.\<close>

definition reads_only :: "'a tardisk_scheme \<Rightarrow> 'a tardisk_scheme \<Rightarrow> bool" where
  "reads_only s s' \<longleftrightarrow> sectors s' = sectors s \<and> disk_ok s' \<and> tar_start_lba s' = tar_start_lba s \<and>
     tardisk.more s' = tardisk.more s"

lemma reads_only_trans [trans]: "reads_only s t \<Longrightarrow> reads_only t u \<Longrightarrow> reads_only s u"
  by (simp add: reads_only_def)

lemma same_drive_tar:
  fixes s s' :: "'a tardisk_scheme"
  assumes "same_drive s s'"
  shows "tar_start_lba s' = tar_start_lba s" "cache_lba s' = cache_lba s" "cache_data s' = cache_data s"
    "cache_valid s' = cache_valid s" "tardisk.more s' = tardisk.more s"
proof -
  have m: "drive.more s' = drive.more s" using assms by (simp add: same_drive_def)
  have "tar_start_lba t = tar_start_lba u" "cache_lba t = cache_lba u" "cache_data t = cache_data u"
    "cache_valid t = cache_valid u" "tardisk.more t = tardisk.more u" if "drive.more t = drive.more u"
    for t u :: "'a tardisk_scheme"
    using that by (cases t; cases u; simp)+
  from this [OF m] show "tar_start_lba s' = tar_start_lba s" "cache_lba s' = cache_lba s" "cache_data s' = cache_data s"
    "cache_valid s' = cache_valid s" "tardisk.more s' = tardisk.more s" .
qed

lemma read_sector_ok:
  assumes ok: "disk_ok s"
  shows "\<exists>s'. ata_read_sector lba buffer s = (sectors s (lba28 lba), s') \<and> reads_only s s'"
proof -
  have "length (sectors s (lba28 lba)) = 512" "in_order s" using ok by (simp_all add: disk_ok_def sectors_ok_def)
  from ata_read_sector_reads [OF this(2,1), of buffer] obtain s' where
    s': "ata_read_sector lba buffer s = (sectors s (lba28 lba), s')" "sectors s' = sectors s" "same_drive s s'" by blast
  then have "reads_only s s'"
    using ok same_drive_tar [OF s'(3)] same_drive_in_order [OF s'(3)]
    by (simp add: reads_only_def disk_ok_def sectors_ok_def cache_ok_def)
  then show ?thesis using s'(1) by blast
qed

lemma cached_read_ok:
  assumes ok: "disk_ok s"
  shows "\<exists>s'. cached_read_sector lba s = (sectors s (lba28 lba), s') \<and> reads_only s s'"
proof (cases "cache_valid s \<and> cache_lba s = lba")
  case True
  then show ?thesis using ok by (auto simp: cached_read_sector_def reads_only_def disk_ok_def cache_ok_def)
next
  case False
  from read_sector_ok [OF ok, of lba "cache_data s"] obtain s1 where
    "ata_read_sector lba (cache_data s) s = (sectors s (lba28 lba), s1)" "reads_only s s1" by blast
  with False show ?thesis
    by (auto simp: cached_read_sector_def reads_only_def disk_ok_def cache_ok_def sectors_ok_def in_order_def)
qed

lemma cached_write_ok:
  fixes lba :: u32 and s :: "'a tardisk_scheme"
  assumes ok: "disk_ok s" and len: "length buffer = 512"
  defines "s' \<equiv> cached_write_sector lba buffer s"
  shows "sectors s' = (sectors s)(lba28 lba := buffer)" "disk_ok s'" "tar_start_lba s' = tar_start_lba s"
    "tardisk.more s' = tardisk.more s"
proof -
  have "in_order s" using ok by (simp add: disk_ok_def)
  from ata_write_sector_writes [OF this len, of lba]
  have w: "sectors (ata_write_sector lba buffer s) = (sectors s)(lba28 lba := buffer)" "same_drive s (ata_write_sector lba buffer s)"
    by simp_all
  note t = same_drive_tar [OF w(2)] same_drive_in_order [OF w(2)]
  show "sectors s' = (sectors s)(lba28 lba := buffer)" "tar_start_lba s' = tar_start_lba s" "tardisk.more s' = tardisk.more s"
    using w(1) t by (simp_all add: s'_def cached_write_sector_def)
  show "disk_ok s'"
    using ok w(1) t(6) len by (simp add: s'_def cached_write_sector_def disk_ok_def cache_ok_def sectors_ok_def in_order_def)
qed

subsection \<open>Archives\<close>

text \<open>The byte at offset \<open>o\<close> of a file that starts at sector \<open>l\<close>.\<close>

definition file_byte :: "(u32 \<Rightarrow> u8 list) \<Rightarrow> nat \<Rightarrow> nat \<Rightarrow> u8" where
  "file_byte d l i = d (word_of_nat (l + i div 512)) ! (i mod 512)"

definition blocks :: "u8 list \<Rightarrow> nat" where
  "blocks content = (length content + 511) div 512"

text \<open>An archive with the given files, names and contents, from sector \<open>l\<close> of a disk on.\<close>

fun tar_on :: "(u32 \<Rightarrow> u8 list) \<Rightarrow> nat \<Rightarrow> (u8 list \<times> u8 list) list \<Rightarrow> bool" where
  "tar_on d l [] \<longleftrightarrow> d (word_of_nat l) ! 0 = 0"
| "tar_on d l ((name, content) # fs) \<longleftrightarrow>
     name \<noteq> [] \<and> 0 \<notin> set name \<and> header_name_is (d (word_of_nat l)) name \<and>
     header_size (d (word_of_nat l)) = word_of_nat (length content) \<and> length content < 2 ^ 31 \<and>
     (\<forall>i < length content. file_byte d (l + 1) i = content ! i) \<and> tar_on d (l + 1 + blocks content) fs"

fun tar_end :: "nat \<Rightarrow> (u8 list \<times> u8 list) list \<Rightarrow> nat" where
  "tar_end l [] = l"
| "tar_end l ((name, content) # fs) = tar_end (l + 1 + blocks content) fs"

fun tar_entry :: "u8 list \<Rightarrow> nat \<Rightarrow> (u8 list \<times> u8 list) list \<Rightarrow> (nat \<times> u8 list) option" where
  "tar_entry name l [] = None"
| "tar_entry name l ((n, content) # fs) =
     (if n = name then Some (l + 1, content) else tar_entry name (l + 1 + blocks content) fs)"

text \<open>The whole archive lies before the bound of the scans and within 28 bits of address.\<close>

definition archive :: "(u8 list \<times> u8 list) list \<Rightarrow> 'a tardisk_scheme \<Rightarrow> bool" where
  "archive fs s \<longleftrightarrow> disk_ok s \<and> tar_on (sectors s) (unat (tar_start_lba s)) fs \<and>
     tar_end (unat (tar_start_lba s)) fs \<le> unat (tar_start_lba s) + 20000 \<and> unat (tar_start_lba s) + 20000 < 2 ^ 28"

lemma header_name_unique:
  assumes "header_name_is b n" and "header_name_is b m" and "0 \<notin> set n" and "0 \<notin> set m"
  shows "n = m"
proof -
  have "takeWhile (\<lambda>c. c \<noteq> 0) b = n" if "header_name_is b n" "0 \<notin> set n" for n
  proof -
    have "b = (n @ [0]) @ drop (length n + 1) b"
      using that(1) append_take_drop_id [of "length n + 1" b] by (simp add: header_name_is_def)
    moreover have "takeWhile (\<lambda>c. c \<noteq> 0) (n @ 0 # rest) = n" for rest
      using that(2) by (subst takeWhile_append2) auto
    ultimately show ?thesis by (metis append_Cons append_Nil append_assoc)
  qed
  from this [OF assms(1,3)] this [OF assms(2,4)] show ?thesis by simp
qed

lemma header_first:
  assumes "header_name_is b n" and "n \<noteq> []" and "0 \<notin> set n" shows "b ! 0 \<noteq> 0"
proof -
  have "b ! 0 = (n @ [0]) ! 0" using assms(1) nth_take [of 0 "length n + 1" b] by (simp add: header_name_is_def)
  then show ?thesis using assms(2,3) by (cases n) auto
qed

lemma lba28_small: "l < 2 ^ 28 \<Longrightarrow> lba28 (word_of_nat l) = word_of_nat l"
proof -
  assume l: "l < 2 ^ 28"
  have "(0x0FFFFFFF :: u32) = mask 28" by (simp add: mask_eq_exp_minus_1)
  then have "lba28 (word_of_nat l) = take_bit 28 (word_of_nat l)" by (simp add: lba28_def take_bit_eq_mask)
  also have "\<dots> = word_of_nat l"
    by (rule word_unat_eq_iff [THEN iffD2]) (use l in \<open>simp add: unsigned_take_bit_eq unsigned_of_nat take_bit_nat_eq_self\<close>)
  finally show ?thesis .
qed

lemma next_of_nat:
  assumes "header_size b = word_of_nat (length content)" and "length content < 2 ^ 31"
  shows "word_of_nat l + (1 + (header_size b + 511) div 512) = (word_of_nat (l + 1 + blocks content) :: u32)"
proof -
  have "unat ((header_size b + 511) div 512) = blocks content"
    using assms by (simp add: unat_div unat_plus_if' unsigned_of_nat take_bit_nat_eq_self blocks_def)
  then have "(header_size b + 511) div 512 = word_of_nat (blocks content)" by (rule word_of_natI)
  then show ?thesis by simp
qed

lemma tar_end_ge: "l \<le> tar_end l fs"
  by (induction l fs rule: tar_end.induct) auto

lemma tar_find_loop_finds:
  assumes "disk_ok s" and "tar_on (sectors s) l fs" and "tar_end l fs \<le> unat (tar_start_lba s) + 20000"
    and "unat (tar_start_lba s) + 20000 < 2 ^ 28" and "0 \<notin> set name"
  shows "\<exists>s'. tar_find_loop name (word_of_nat l) s =
      Some (map_option (\<lambda>(k, content). (word_of_nat k, word_of_nat (length content))) (tar_entry name l fs), s') \<and> reads_only s s'"
  using assms
proof (induction fs arbitrary: l s)
  case Nil
  from cached_read_ok [OF Nil.prems(1), of "word_of_nat l"] obtain s1 where
    "cached_read_sector (word_of_nat l) s = (sectors s (lba28 (word_of_nat l)), s1)" "reads_only s s1" by blast
  moreover have "l < 2 ^ 28" using Nil.prems(3,4) by simp
  ultimately show ?case using Nil.prems(2) by (subst tar_find_loop.simps) (simp add: lba28_small)
next
  case (Cons f fs)
  obtain n c where f: "f = (n, c)" by fastforce
  note p = Cons.prems [unfolded f tar_on.simps tar_end.simps]
  have l: "l + 1 + blocks c < 2 ^ 28" "l < 2 ^ 28" using tar_end_ge [of "l + 1 + blocks c" fs] p(3,4) by simp_all
  let ?b = "sectors s (word_of_nat l)"
  from cached_read_ok [OF p(1), of "word_of_nat l"] l obtain s1 where
    r: "cached_read_sector (word_of_nat l) s = (?b, s1)" "reads_only s s1" by (auto simp: lba28_small)
  have b: "?b ! 0 \<noteq> 0" using p(2) header_first by blast
  have iff: "header_name_is ?b name \<longleftrightarrow> n = name" using p(2,5) header_name_unique by blast
  show ?case
  proof (cases "n = name")
    case True
    then show ?thesis using r b iff p(2) by (subst tar_find_loop.simps) (simp add: f add.commute)
  next
    case False
    have nxt: "word_of_nat l + (1 + (header_size ?b + 511) div 512) = (word_of_nat (l + 1 + blocks c) :: u32)"
      by (rule next_of_nat) (use p(2) in simp_all)
    have s1: "disk_ok s1" "sectors s1 = sectors s" "tar_start_lba s1 = tar_start_lba s"
      using r(2) by (simp_all add: reads_only_def)
    have "unat (tar_start_lba s + 20000) = unat (tar_start_lba s) + 20000" using p(4) by (intro scan_bound) simp
    moreover have "unat (word_of_nat (l + 1 + blocks c) :: u32) = l + 1 + blocks c"
      using l(1) by (simp only: unsigned_of_nat) (simp add: take_bit_nat_eq_self)
    moreover have "l + 1 + blocks c \<le> unat (tar_start_lba s) + 20000" using tar_end_ge [of "l + 1 + blocks c" fs] p(3) by simp
    ultimately have bound: "\<not> tar_start_lba s1 + 20000 < word_of_nat (l + 1 + blocks c)"
      by (simp only: s1 word_less_nat_alt not_less)
    from Cons.IH [of s1 "l + 1 + blocks c"] s1 p obtain s' where
      s': "tar_find_loop name (word_of_nat (l + 1 + blocks c)) s1 =
        Some (map_option (\<lambda>(k, content). (word_of_nat k, word_of_nat (length content))) (tar_entry name (l + 1 + blocks c) fs), s')"
      "reads_only s1 s'" by auto
    have "tar_find_loop name (word_of_nat l) s = tar_find_loop name (word_of_nat (l + 1 + blocks c)) s1"
      using b iff False bound by (subst tar_find_loop.simps) (simp only: r(1) prod.case nxt Let_def if_False)
    then show ?thesis using s' r(2) False reads_only_trans by (auto simp: f)
  qed
qed

lemma tar_find_file_finds:
  assumes "archive fs s" and "0 \<notin> set name"
  shows "\<exists>s'. tar_find_file name s = Some (map_option (\<lambda>(k, content). (word_of_nat k, word_of_nat (length content)))
      (tar_entry name (unat (tar_start_lba s)) fs), s') \<and> reads_only s s'"
  using tar_find_loop_finds [of s "unat (tar_start_lba s)" fs name] assms by (simp add: archive_def tar_find_file_def)

end
