(* ===== verification/Vfs.thy ===== *)
theory Vfs
  imports Tar
begin

text \<open>
  Open files over the archive, \<open>src/kernel/vfs.c\<close>: a table of sixteen descriptors, reads and writes that go
  sector by sector through the drive, and the directory listing. A critical section under the lock of the table is one step.
  A caller's buffer is a list of bytes; a write outside it, undefined in C, is the result \<open>None\<close>. The 512 bytes
  of the local \<open>sector_buf\<close> before it is first filled are the input \<open>stack_bytes\<close>.
\<close>

subsection \<open>State\<close>

definition MAX_FDS :: nat where "MAX_FDS = 16"

record fd_t =
  start_lba :: u32
  fd_size :: u32
  fd_offset :: u32
  in_use :: bool

record vfs = tardisk +
  fd_table :: "fd_t list"
  stack_bytes :: "u8 list"

definition upd_fd :: "nat \<Rightarrow> (fd_t \<Rightarrow> fd_t) \<Rightarrow> 'a vfs_scheme \<Rightarrow> 'a vfs_scheme" where
  "upd_fd i f s = s\<lparr>fd_table := (fd_table s)[i := f (fd_table s ! i)]\<rparr>"

definition vfs_init :: "'a vfs_scheme \<Rightarrow> 'a vfs_scheme" where
  "vfs_init s = s\<lparr>fd_table := map (\<lambda>f. f\<lparr>in_use := False\<rparr>) (fd_table s)\<rparr>"

subsection \<open>Operations\<close>

fun free_fd :: "nat \<Rightarrow> fd_t list \<Rightarrow> nat option" where
  "free_fd i [] = None"
| "free_fd i (f # fs) = (if \<not> in_use f then Some i else free_fd (i + 1) fs)"

definition vfs_open :: "u8 list \<Rightarrow> 'a vfs_scheme \<Rightarrow> (int \<times> 'a vfs_scheme) option" where
  "vfs_open path s = do {
     (found, s1) \<leftarrow> tar_find_file path s;
     case found of
       None \<Rightarrow> Some (-1, s1)
     | Some (lba, sz) \<Rightarrow>
         (case free_fd 0 (fd_table s1) of
            None \<Rightarrow> Some (-1, s1)
          | Some i \<Rightarrow> Some (int i, upd_fd i (\<lambda>f. f\<lparr>in_use := True, start_lba := lba, fd_size := sz, fd_offset := 0\<rparr>) s1)) }"

definition bad_fd :: "int \<Rightarrow> 'a vfs_scheme \<Rightarrow> bool" where
  "bad_fd fd s \<longleftrightarrow> fd < 0 \<or> int MAX_FDS \<le> fd \<or> \<not> in_use (fd_table s ! nat fd)"

text \<open>\<open>xs\<close> stored at offset \<open>i\<close> of a buffer.\<close>

definition store_at :: "nat \<Rightarrow> u8 list \<Rightarrow> u8 list \<Rightarrow> u8 list option" where
  "store_at i xs buffer = (if i + length xs \<le> length buffer then Some (take i buffer @ xs @ drop (i + length xs) buffer) else None)"

lemma copy_progress:
  fixes n i off :: u32
  assumes "i < n"
  defines "k \<equiv> (if n - i < 512 - off mod 512 then n - i else 512 - off mod 512)"
  shows "unat (i + k) = unat i + unat k" "0 < unat k" "unat i + unat k \<le> unat n"
    "unat k = min (unat n - unat i) (512 - unat off mod 512)"
proof -
  have m: "unat (off mod 512) = unat off mod 512" by (simp add: unat_mod)
  have lt: "unat off mod 512 < 512" by simp
  have d: "unat (512 - off mod 512) = 512 - unat off mod 512"
    using lt by (subst unat_sub_if') (simp add: m word_le_nat_alt)
  have n: "unat (n - i) = unat n - unat i" using assms(1) by (subst unat_sub_if') (simp add: word_less_nat_alt word_le_nat_alt)
  have i: "unat i < unat n" using assms(1) by (simp add: word_less_nat_alt)
  show k: "unat k = min (unat n - unat i) (512 - unat off mod 512)"
    by (simp add: k_def word_less_nat_alt n d min_def)
  show "0 < unat k" "unat i + unat k \<le> unat n" using i lt unfolding k by linarith+
  then have "unat i + unat k < 2 ^ 32" using unsigned_less [where 'a = nat, of n] by simp
  then show "unat (i + k) = unat i + unat k" by (simp add: unat_plus_if')
qed

lemma copy_shrinks:
  fixes n i off so k :: u32
  assumes "i < n" and "so = off mod 512" and "k = (if n - i < 512 - so then n - i else 512 - so)"
  shows "unat n - unat (i + k) < unat n - unat i"
proof -
  note p = copy_progress [OF assms(1), of off, folded assms(2), folded assms(3)]
  from p(1-3) show ?thesis by linarith
qed

text \<open>The loop of \<open>vfs_read\<close>: \<open>done\<close> counts the bytes read so far.\<close>

function read_loop :: "u32 \<Rightarrow> u32 \<Rightarrow> u32 \<Rightarrow> u32 \<Rightarrow> u8 list \<Rightarrow> u8 list \<Rightarrow> 'a vfs_scheme \<Rightarrow>
    (u32 \<times> u8 list \<times> 'a vfs_scheme) option" where
  "read_loop start count bytes_read offset buffer sector_buf s =
     (if bytes_read < count then
        let lba = start + offset div 512;
            sector_offset = offset mod 512;
            to_copy = (if count - bytes_read < 512 - sector_offset then count - bytes_read else 512 - sector_offset)
        in if sector_offset = 0 \<and> to_copy = 512 then
             (case ata_read_sector lba (take 512 (drop (unat bytes_read) buffer)) s of (data, s1) \<Rightarrow>
                case store_at (unat bytes_read) data buffer of
                  None \<Rightarrow> None
                | Some buffer1 \<Rightarrow>
                    read_loop start count (bytes_read + to_copy) (offset + to_copy) buffer1 sector_buf s1)
           else
             (case ata_read_sector lba sector_buf s of (data, s1) \<Rightarrow>
                case store_at (unat bytes_read) (take (unat to_copy) (drop (unat sector_offset) data)) buffer of
                  None \<Rightarrow> None
                | Some buffer1 \<Rightarrow>
                    read_loop start count (bytes_read + to_copy) (offset + to_copy) buffer1 data s1)
      else Some (bytes_read, buffer, s))"
  by pat_completeness auto

termination read_loop
  by (relation "measure (\<lambda>(start, count, br, off, b, sb, s). unat count - unat br)")
    (rule wf_measure | (unfold in_measure prod.case, erule copy_shrinks; assumption))+

declare read_loop.simps [simp del]

definition vfs_read :: "int \<Rightarrow> u8 list \<Rightarrow> u32 \<Rightarrow> 'a vfs_scheme \<Rightarrow> (int \<times> u8 list \<times> 'a vfs_scheme) option" where
  "vfs_read fd buffer count s =
     (if bad_fd fd s then Some (-1, buffer, s)
      else let f = fd_table s ! nat fd in
        if fd_size f \<le> fd_offset f then Some (0, buffer, s)
        else let n = (if fd_size f - fd_offset f < count then fd_size f - fd_offset f else count);
                 s1 = upd_fd (nat fd) (\<lambda>f. f\<lparr>fd_offset := fd_offset f + n\<rparr>) s
          in do {
            (bytes_read, buffer1, s2) \<leftarrow> read_loop (start_lba f) n 0 (fd_offset f) buffer (stack_bytes s) s1;
            Some (sint bytes_read, buffer1, s2) })"

text \<open>The loop of \<open>vfs_write\<close>, over the caller's bytes.\<close>

function write_loop :: "u32 \<Rightarrow> u32 \<Rightarrow> u32 \<Rightarrow> u32 \<Rightarrow> u8 list \<Rightarrow> u8 list \<Rightarrow> 'a vfs_scheme \<Rightarrow>
    (u32 \<times> 'a vfs_scheme) option" where
  "write_loop start count bytes_written offset buffer sector_buf s =
     (if bytes_written < count then
        let lba = start + offset div 512;
            sector_offset = offset mod 512;
            to_write = (if count - bytes_written < 512 - sector_offset then count - bytes_written else 512 - sector_offset)
        in if length buffer < unat bytes_written + unat to_write then None
           else case ata_read_sector lba sector_buf s of (data, s1) \<Rightarrow>
             case store_at (unat sector_offset) (take (unat to_write) (drop (unat bytes_written) buffer)) data of
               None \<Rightarrow> None
             | Some data1 \<Rightarrow>
                 write_loop start count (bytes_written + to_write) (offset + to_write) buffer data1
                   (cached_write_sector lba data1 s1)
      else Some (bytes_written, s))"
  by pat_completeness auto

termination write_loop
  by (relation "measure (\<lambda>(start, count, bw, off, b, sb, s). unat count - unat bw)")
    (rule wf_measure | (unfold in_measure prod.case, erule copy_shrinks; assumption))+

declare write_loop.simps [simp del]

definition vfs_write :: "int \<Rightarrow> u8 list \<Rightarrow> u32 \<Rightarrow> 'a vfs_scheme \<Rightarrow> (int \<times> 'a vfs_scheme) option" where
  "vfs_write fd buffer count s =
     (if bad_fd fd s then Some (-1, s)
      else let f = fd_table s ! nat fd;
               n = (if fd_size f < fd_offset f + count then fd_size f - fd_offset f else count);
               s1 = upd_fd (nat fd) (\<lambda>f. f\<lparr>fd_offset := fd_offset f + n\<rparr>) s
        in do {
          (bytes_written, s2) \<leftarrow> write_loop (start_lba f) n 0 (fd_offset f) buffer (stack_bytes s) s1;
          Some (sint bytes_written, s2) })"

definition vfs_fd_size :: "int \<Rightarrow> 'a vfs_scheme \<Rightarrow> u32" where
  "vfs_fd_size fd s = (if bad_fd fd s then 0 else fd_size (fd_table s ! nat fd))"

definition vfs_close :: "int \<Rightarrow> 'a vfs_scheme \<Rightarrow> 'a vfs_scheme" where
  "vfs_close fd s = (if 0 \<le> fd \<and> fd < int MAX_FDS then upd_fd (nat fd) (\<lambda>f. f\<lparr>in_use := False\<rparr>) s else s)"

definition vfs_readdir :: "int \<Rightarrow> 'a vfs_scheme \<Rightarrow> (u8 list option \<times> 'a vfs_scheme) option" where
  "vfs_readdir index s = tar_get_file_by_index index s"

subsection \<open>Reading\<close>

text \<open>A file with the given contents from sector \<open>l\<close> on.\<close>

definition file_on :: "nat \<Rightarrow> u8 list \<Rightarrow> 'a drive_scheme \<Rightarrow> bool" where
  "file_on l content s \<longleftrightarrow> (\<forall>i < length content. file_byte (sectors s) l i = content ! i) \<and>
     l + blocks content \<le> 2 ^ 28 \<and> length content < 2 ^ 31"

lemma file_on_sectors: "sectors s' = sectors s \<Longrightarrow> file_on l content s' = file_on l content s"
  by (simp add: file_on_def)

lemma div_below_blocks: "i < length content \<Longrightarrow> i div 512 < blocks content"
proof -
  assume "i < length content"
  then have "i \<le> length content - 1" by simp
  then have "i div 512 \<le> (length content - 1) div 512" by (rule div_le_mono)
  moreover have "blocks content = (length content - 1) div 512 + 1"
    using \<open>i < length content\<close> div_add_self2 [of 512 "length content - 1"] by (simp add: blocks_def)
  ultimately show ?thesis by simp
qed

lemma near_sector: "(r :: nat) < 512 \<Longrightarrow> (q * 512 + r) div 512 = q \<and> (q * 512 + r) mod 512 = r"
  by simp

lemma read_loop_unfold:
  assumes "br < count" and "k = (if count - br < 512 - off mod 512 then count - br else 512 - off mod 512)"
  shows "read_loop start count br off buffer sector_buf s =
    (if off mod 512 = 0 \<and> k = 512 then
       (case ata_read_sector (start + off div 512) (take 512 (drop (unat br) buffer)) s of (data, s1) \<Rightarrow>
          case store_at (unat br) data buffer of
            None \<Rightarrow> None
          | Some buffer1 \<Rightarrow> read_loop start count (br + k) (off + k) buffer1 sector_buf s1)
     else
       (case ata_read_sector (start + off div 512) sector_buf s of (data, s1) \<Rightarrow>
          case store_at (unat br) (take (unat k) (drop (unat (off mod 512)) data)) buffer of
            None \<Rightarrow> None
          | Some buffer1 \<Rightarrow> read_loop start count (br + k) (off + k) buffer1 data s1))"
  by (subst read_loop.simps) (simp only: Let_def assms(1) assms(2) [symmetric] if_True)

lemma file_sector:
  assumes f: "file_on l content s" and i: "i + k \<le> length content" "i mod 512 + k \<le> 512" "0 < k"
    and ok: "disk_ok s" and off: "unat off = i"
  shows "take k (drop (i mod 512) (sectors s (lba28 (word_of_nat l + off div 512)))) = take k (drop i content)"
    and "lba28 (word_of_nat l + off div 512) = word_of_nat (l + i div 512)" and "l + i div 512 < 2 ^ 28"
proof -
  have "i div 512 < blocks content" using i(1,3) by (intro div_below_blocks) simp
  then show l: "l + i div 512 < 2 ^ 28" using f by (simp add: file_on_def)
  have "off div 512 = word_of_nat (i div 512)" by (rule word_of_natI) (simp add: unat_div off)
  then show lba: "lba28 (word_of_nat l + off div 512) = word_of_nat (l + i div 512)"
    using lba28_small [OF l] by simp
  show "take k (drop (i mod 512) (sectors s (lba28 (word_of_nat l + off div 512)))) = take k (drop i content)"
    unfolding lba
  proof (rule nth_equalityI)
    have len: "length (sectors s (word_of_nat (l + i div 512))) = 512" using ok by (simp add: disk_ok_def sectors_ok_def)
    then show "length (take k (drop (i mod 512) (sectors s (word_of_nat (l + i div 512))))) = length (take k (drop i content))"
      using i(1,2) by simp
    fix j assume "j < length (take k (drop (i mod 512) (sectors s (word_of_nat (l + i div 512)))))"
    then have j: "j < k" by simp
    have d: "i + j = i div 512 * 512 + (i mod 512 + j)" "i mod 512 + j < 512" using j i(2) by simp_all
    have dm: "(i + j) div 512 = i div 512" "(i + j) mod 512 = i mod 512 + j"
      using near_sector [OF d(2), of "i div 512"] unfolding d(1) [symmetric] by simp_all
    have "i + j < length content" using i(1) j by simp
    then have "content ! (i + j) = sectors s (word_of_nat (l + i div 512)) ! (i mod 512 + j)"
      using f by (simp only: file_on_def file_byte_def dm [symmetric])
    then show "take k (drop (i mod 512) (sectors s (word_of_nat (l + i div 512)))) ! j = take k (drop i content) ! j"
      using j i(1,2) len by simp
  qed
qed

lemma read_loop_step:
  fixes off :: u32
  assumes ok: "disk_ok s" and f: "file_on l content s" and lt: "br < count"
    and range: "unat off + (unat count - unat br) \<le> length content" and buf: "unat count \<le> length buffer"
  defines "k \<equiv> (if count - br < 512 - off mod 512 then count - br else 512 - off mod 512)"
  shows "\<exists>sb s'. read_loop (word_of_nat l) count br off buffer sector_buf s =
      read_loop (word_of_nat l) count (br + k) (off + k)
        (take (unat br) buffer @ take (unat k) (drop (unat off) content) @ drop (unat (br + k)) buffer) sb s' \<and> reads_only s s'"
proof -
  note p = copy_progress [OF lt, of off, folded k_def]
  have m: "unat (off mod 512) = unat off mod 512" by (simp add: unat_mod)
  have "unat off mod 512 < 512" "unat k \<le> 512 - unat off mod 512" "unat k \<le> unat count - unat br" using p(4) by simp_all
  then have i: "unat off + unat k \<le> length content" "unat off mod 512 + unat k \<le> 512" "0 < unat k"
    using p(2) range by linarith+
  note chunk = file_sector(1) [OF f i ok refl]
  let ?sec = "sectors s (lba28 (word_of_nat l + off div 512))"
  have store: "store_at (unat br) (take (unat k) (drop (unat off mod 512) ?sec)) buffer =
      Some (take (unat br) buffer @ take (unat k) (drop (unat off) content) @ drop (unat (br + k)) buffer)"
    using p(1,3) i(1) buf by (simp add: chunk store_at_def)
  show ?thesis
  proof (cases "off mod 512 = 0 \<and> k = 512")
    case True
    have "length ?sec = 512" using ok by (simp add: disk_ok_def sectors_ok_def)
    then have "take (unat k) (drop (unat off mod 512) ?sec) = ?sec" using True m by simp
    with store have store: "store_at (unat br) ?sec buffer =
      Some (take (unat br) buffer @ take (unat k) (drop (unat off) content) @ drop (unat (br + k)) buffer)" by simp
    from read_sector_ok [OF ok, of "word_of_nat l + off div 512" "take 512 (drop (unat br) buffer)"] obtain s' where
      s': "ata_read_sector (word_of_nat l + off div 512) (take 512 (drop (unat br) buffer)) s = (?sec, s')" "reads_only s s'" by blast
    then have "read_loop (word_of_nat l) count br off buffer sector_buf s =
      read_loop (word_of_nat l) count (br + k) (off + k)
        (take (unat br) buffer @ take (unat k) (drop (unat off) content) @ drop (unat (br + k)) buffer) sector_buf s'"
      using store by (simp only: read_loop_unfold [OF lt k_def [THEN meta_eq_to_obj_eq]] if_P [OF True] s'(1) prod.case option.case)
    then show ?thesis using s'(2) by blast
  next
    case False
    from read_sector_ok [OF ok, of "word_of_nat l + off div 512" sector_buf] obtain s' where
      s': "ata_read_sector (word_of_nat l + off div 512) sector_buf s = (?sec, s')" "reads_only s s'" by blast
    have "read_loop (word_of_nat l) count br off buffer sector_buf s =
      read_loop (word_of_nat l) count (br + k) (off + k)
        (take (unat br) buffer @ take (unat k) (drop (unat off) content) @ drop (unat (br + k)) buffer) ?sec s'"
      by (simp only: read_loop_unfold [OF lt k_def [THEN meta_eq_to_obj_eq]] if_not_P [OF False] s'(1) prod.case option.case m store)
    then show ?thesis using s'(2) by blast
  qed
qed

lemma read_loop_reads:
  assumes "disk_ok s" and "file_on l content s" and "br \<le> count"
    and "unat off + (unat count - unat br) \<le> length content" and "unat count \<le> length buffer"
  shows "\<exists>s'. read_loop (word_of_nat l) count br off buffer sb s = Some (count,
      take (unat br) buffer @ take (unat count - unat br) (drop (unat off) content) @ drop (unat count) buffer, s') \<and> reads_only s s'"
  using assms
proof (induction "unat count - unat br" arbitrary: br off buffer sb s rule: less_induct)
  case less
  show ?case
  proof (cases "br < count")
    case True
    define k where "k = (if count - br < 512 - off mod 512 then count - br else 512 - off mod 512)"
    note p = copy_progress [OF True, of off, folded k_def]
    from read_loop_step [OF less.prems(1,2) True less.prems(4,5), folded k_def] obtain sb1 s1 where
      s1: "read_loop (word_of_nat l) count br off buffer sb s = read_loop (word_of_nat l) count (br + k) (off + k)
        (take (unat br) buffer @ take (unat k) (drop (unat off) content) @ drop (unat (br + k)) buffer) sb1 s1" "reads_only s s1"
      by blast
    have content: "length content < 2 ^ 31" using less.prems(2) by (simp add: file_on_def)
    have range: "unat off + unat k \<le> length content" using less.prems(4) p(3) by linarith
    then have off: "unat (off + k) = unat off + unat k" using content by (simp add: unat_plus_if')
    let ?b = "take (unat br) buffer @ take (unat k) (drop (unat off) content) @ drop (unat (br + k)) buffer"
    have lb: "length ?b = length buffer" using p(1,3) less.prems(5) range by simp
    have "\<exists>s'. read_loop (word_of_nat l) count (br + k) (off + k) ?b sb1 s1 = Some (count,
      take (unat (br + k)) ?b @ take (unat count - unat (br + k)) (drop (unat (off + k)) content) @ drop (unat count) ?b, s') \<and> reads_only s1 s'"
    proof (rule less.hyps)
      show "unat count - unat (br + k) < unat count - unat br" using p by linarith
      show "disk_ok s1" "file_on l content s1" using s1(2) less.prems(2) by (simp_all add: reads_only_def file_on_def)
      show "br + k \<le> count" using p(1,3) by (simp add: word_le_nat_alt)
      show "unat (off + k) + (unat count - unat (br + k)) \<le> length content" using less.prems(4) p(1,3) off by linarith
      show "unat count \<le> length ?b" using less.prems(5) lb by simp
    qed
    then obtain s' where s': "read_loop (word_of_nat l) count (br + k) (off + k) ?b sb1 s1 = Some (count,
      take (unat (br + k)) ?b @ take (unat count - unat (br + k)) (drop (unat (off + k)) content) @ drop (unat count) ?b, s')" "reads_only s1 s'"
      by blast
    have t: "take (unat (br + k)) ?b = take (unat br) buffer @ take (unat k) (drop (unat off) content)"
      using p(1,3) less.prems(5) range by simp
    have d: "drop (unat count) ?b = drop (unat count) buffer" using p(1,3) less.prems(5) range by simp
    have e: "take (unat k) (drop (unat off) content) @ take (unat count - unat (br + k)) (drop (unat (off + k)) content) =
      take (unat count - unat br) (drop (unat off) content)"
    proof -
      have "unat count - unat br = unat k + (unat count - unat (br + k))" using p(1,3) by linarith
      then show ?thesis by (simp only: take_add drop_drop off add.commute [of "unat off"])
    qed
    have "read_loop (word_of_nat l) count br off buffer sb s = Some (count,
        take (unat br) buffer @ take (unat count - unat br) (drop (unat off) content) @ drop (unat count) buffer, s')"
      unfolding s1(1) s'(1) t d append_assoc e [symmetric] ..
    with reads_only_trans [OF s1(2) s'(2)] show ?thesis by blast
  next
    case False
    with less.prems(3) have "br = count" by simp
    then show ?thesis using False less.prems(1)
      by (subst read_loop.simps) (simp add: reads_only_def)
  qed
qed

subsection \<open>Writing\<close>

definition patch :: "nat \<Rightarrow> u8 list \<Rightarrow> u8 list \<Rightarrow> u8 list" where
  "patch i xs ys = take i ys @ xs @ drop (i + length xs) ys"

lemma length_patch: "i + length xs \<le> length ys \<Longrightarrow> length (patch i xs ys) = length ys"
  by (simp add: patch_def)

lemma nth_patch:
  assumes "i + length xs \<le> length ys" and "j < length ys"
  shows "patch i xs ys ! j = (if i \<le> j \<and> j < i + length xs then xs ! (j - i) else ys ! j)"
  using assms by (auto simp: patch_def nth_append min_def)

lemma patch_patch:
  assumes "i + length xs + length zs \<le> length ys"
  shows "patch (i + length xs) zs (patch i xs ys) = patch i (xs @ zs) ys"
  using assms by (simp add: patch_def ac_simps)

lemma store_at_patch: "i + length xs \<le> length b \<Longrightarrow> store_at i xs b = Some (patch i xs b)"
  by (simp add: store_at_def patch_def)

text \<open>A sector with new bytes makes the file have them.\<close>

lemma file_on_patch:
  assumes f: "file_on l content s" and ok: "disk_ok s" and i: "i + length xs \<le> length content" "i mod 512 + length xs \<le> 512" "xs \<noteq> []"
    and t: "sectors t = (sectors s)(word_of_nat (l + i div 512) := patch (i mod 512) xs (sectors s (word_of_nat (l + i div 512))))"
  shows "file_on l (patch i xs content) t"
proof -
  let ?q = "i div 512" and ?r = "i mod 512"
  have len: "length (sectors s w) = 512" for w using ok by (simp add: disk_ok_def sectors_ok_def)
  have inj: "word_of_nat (l + j div 512) = (word_of_nat (l + ?q) :: u32) \<longleftrightarrow> j div 512 = ?q" if "j < length content" for j
  proof -
    have "i < length content" using i(1,3) by (cases xs) simp_all
    then have "l + j div 512 < 2 ^ 28" "l + ?q < 2 ^ 28"
      using f div_below_blocks [OF that] div_below_blocks [of i content] by (auto simp: file_on_def)
    then show ?thesis by (simp add: word_of_nat_eq_iff take_bit_nat_eq_self)
  qed
  have "file_byte (sectors t) l j = patch i xs content ! j" if j: "j < length content" for j
  proof (cases "j div 512 = ?q")
    case True
    have jr: "j = ?q * 512 + j mod 512" "i = ?q * 512 + ?r" "j mod 512 < 512" using True div_mod_decomp [of j 512] by simp_all
    have "file_byte (sectors t) l j = patch ?r xs (sectors s (word_of_nat (l + ?q))) ! (j mod 512)"
      using True by (simp add: file_byte_def t)
    also have "\<dots> = (if ?r \<le> j mod 512 \<and> j mod 512 < ?r + length xs then xs ! (j mod 512 - ?r)
        else sectors s (word_of_nat (l + ?q)) ! (j mod 512))"
      using i(2) by (intro nth_patch) (simp_all add: len)
    also have "sectors s (word_of_nat (l + ?q)) ! (j mod 512) = content ! j"
    proof -
      have "file_byte (sectors s) l j = content ! j" using f j by (simp add: file_on_def)
      then show ?thesis by (simp only: file_byte_def True)
    qed
    also have "(?r \<le> j mod 512 \<and> j mod 512 < ?r + length xs) = (i \<le> j \<and> j < i + length xs)"
      using jr by linarith
    also have "j mod 512 - ?r = j - i" using jr by linarith
    finally show ?thesis using i(1) j by (simp add: nth_patch)
  next
    case False
    have "\<not> (i \<le> j \<and> j < i + length xs)"
    proof
      assume h: "i \<le> j \<and> j < i + length xs"
      have "j = ?q * 512 + (?r + (j - i))" "?r + (j - i) < 512" using h i(2) div_mod_decomp [of i 512] by linarith+
      then show False using near_sector [of "?r + (j - i)" ?q] False by simp
    qed
    then have "patch i xs content ! j = content ! j" unfolding nth_patch [OF i(1) j] by (rule if_not_P)
    moreover have "file_byte (sectors t) l j = file_byte (sectors s) l j"
      using inj [OF j] False by (simp add: file_byte_def t del: of_nat_add)
    ultimately show ?thesis using f j by (simp add: file_on_def)
  qed
  moreover have "length (patch i xs content) = length content" using i(1) by (rule length_patch)
  ultimately show ?thesis using f by (simp add: file_on_def blocks_def)
qed

text \<open>The sectors of a file.\<close>

definition file_sectors :: "nat \<Rightarrow> u8 list \<Rightarrow> u32 set" where
  "file_sectors l content = word_of_nat ` {l ..< l + blocks content}"

definition writes_in :: "u32 set \<Rightarrow> 'a tardisk_scheme \<Rightarrow> 'a tardisk_scheme \<Rightarrow> bool" where
  "writes_in ws s s' \<longleftrightarrow> disk_ok s' \<and> tar_start_lba s' = tar_start_lba s \<and> tardisk.more s' = tardisk.more s \<and>
     (\<forall>w. w \<notin> ws \<longrightarrow> sectors s' w = sectors s w)"

lemma writes_in_trans: "writes_in ws s t \<Longrightarrow> writes_in ws t u \<Longrightarrow> writes_in ws s u"
  by (simp add: writes_in_def)

lemma write_loop_step:
  fixes off :: u32
  assumes ok: "disk_ok s" and f: "file_on l content s" and lt: "bw < count"
    and range: "unat off + (unat count - unat bw) \<le> length content" and buf: "unat count \<le> length buffer"
  defines "k \<equiv> (if count - bw < 512 - off mod 512 then count - bw else 512 - off mod 512)"
  shows "\<exists>sb s'. write_loop (word_of_nat l) count bw off buffer sector_buf s =
      write_loop (word_of_nat l) count (bw + k) (off + k) buffer sb s' \<and>
    file_on l (patch (unat off) (take (unat k) (drop (unat bw) buffer)) content) s' \<and> writes_in (file_sectors l content) s s'"
proof -
  note p = copy_progress [OF lt, of off, folded k_def]
  have m: "unat (off mod 512) = unat off mod 512" by (simp add: unat_mod)
  have "unat off mod 512 < 512" "unat k \<le> 512 - unat off mod 512" "unat k \<le> unat count - unat bw" using p(4) by simp_all
  then have i: "unat off + unat k \<le> length content" "unat off mod 512 + unat k \<le> 512" "0 < unat k"
    using p(2) range by linarith+
  let ?lba = "word_of_nat l + off div 512" and ?w = "word_of_nat (l + unat off div 512) :: u32"
  let ?xs = "take (unat k) (drop (unat bw) buffer)"
  have xs: "length ?xs = unat k" using p(3) buf by simp
  note lba = file_sector(2,3) [OF f i ok refl]
  from read_sector_ok [OF ok, of ?lba sector_buf] lba obtain s1 where
    r: "ata_read_sector ?lba sector_buf s = (sectors s ?w, s1)" "reads_only s s1" by auto
  have s1: "disk_ok s1" "sectors s1 = sectors s" using r(2) by (simp_all add: reads_only_def)
  let ?data = "patch (unat off mod 512) ?xs (sectors s ?w)"
  have len: "length (sectors s ?w) = 512" using ok by (simp add: disk_ok_def sectors_ok_def)
  then have st: "store_at (unat off mod 512) ?xs (sectors s ?w) = Some ?data" using i(2) xs by (intro store_at_patch) simp
  have "length ?data = 512" using length_patch [of "unat off mod 512" ?xs "sectors s ?w"] i(2) xs len by simp
  note w = cached_write_ok [OF s1(1) this, of ?lba]
  define s' where "s' = cached_write_sector ?lba ?data s1"
  have big: "\<not> length buffer < unat bw + unat k" using p(3) buf by simp
  have "write_loop (word_of_nat l) count bw off buffer sector_buf s =
      write_loop (word_of_nat l) count (bw + k) (off + k) buffer ?data s'"
    by (subst write_loop.simps)
      (simp only: Let_def k_def [symmetric] lt if_True r(1) prod.case m st option.case if_not_P [OF big] s'_def)
  moreover have "file_on l (patch (unat off) ?xs content) s'"
    by (rule file_on_patch [OF f ok]) (use i xs w(1) s1 lba in \<open>auto simp: s'_def\<close>)
  moreover have "unat off div 512 < blocks content" using i(1,3) by (intro div_below_blocks) simp
  then have "?w \<in> file_sectors l content" unfolding file_sectors_def by (intro imageI) simp
  then have "writes_in (file_sectors l content) s s'"
    using w s1 lba r(2) by (auto simp: writes_in_def s'_def reads_only_def)
  ultimately show ?thesis by blast
qed

lemma write_loop_writes:
  assumes "disk_ok s" and "file_on l content s" and "bw \<le> count"
    and "unat off + (unat count - unat bw) \<le> length content" and "unat count \<le> length buffer"
  shows "\<exists>s'. write_loop (word_of_nat l) count bw off buffer sb s = Some (count, s') \<and>
    file_on l (patch (unat off) (take (unat count - unat bw) (drop (unat bw) buffer)) content) s' \<and>
    writes_in (file_sectors l content) s s'"
  using assms
proof (induction "unat count - unat bw" arbitrary: bw off content sb s rule: less_induct)
  case less
  show ?case
  proof (cases "bw < count")
    case True
    define k where "k = (if count - bw < 512 - off mod 512 then count - bw else 512 - off mod 512)"
    note p = copy_progress [OF True, of off, folded k_def]
    let ?xs = "take (unat k) (drop (unat bw) buffer)"
    from write_loop_step [OF less.prems(1,2) True less.prems(4,5), folded k_def] obtain sb1 s1 where
      s1: "write_loop (word_of_nat l) count bw off buffer sb s = write_loop (word_of_nat l) count (bw + k) (off + k) buffer sb1 s1"
        "file_on l (patch (unat off) ?xs content) s1" "writes_in (file_sectors l content) s s1"
      by blast
    have xs: "length ?xs = unat k" using p(3) less.prems(5) by simp
    have content: "length content < 2 ^ 31" using less.prems(2) by (simp add: file_on_def)
    have range: "unat off + unat k \<le> length content" using less.prems(4) p(3) by linarith
    then have off: "unat (off + k) = unat off + unat k" using content by (simp add: unat_plus_if')
    have lc: "length (patch (unat off) ?xs content) = length content" using range xs by (simp add: length_patch)
    have "\<exists>s'. write_loop (word_of_nat l) count (bw + k) (off + k) buffer sb1 s1 = Some (count, s') \<and>
      file_on l (patch (unat (off + k)) (take (unat count - unat (bw + k)) (drop (unat (bw + k)) buffer)) (patch (unat off) ?xs content)) s' \<and>
      writes_in (file_sectors l (patch (unat off) ?xs content)) s1 s'"
    proof (rule less.hyps)
      show "unat count - unat (bw + k) < unat count - unat bw" using p by linarith
      show "disk_ok s1" using s1(3) by (simp add: writes_in_def)
      show "file_on l (patch (unat off) ?xs content) s1" by (rule s1(2))
      show "bw + k \<le> count" using p(1,3) by (simp add: word_le_nat_alt)
      show "unat (off + k) + (unat count - unat (bw + k)) \<le> length (patch (unat off) ?xs content)"
        using less.prems(4) p(1,3) off lc by linarith
      show "unat count \<le> length buffer" by (rule less.prems(5))
    qed
    then obtain s' where s': "write_loop (word_of_nat l) count (bw + k) (off + k) buffer sb1 s1 = Some (count, s')"
      "file_on l (patch (unat (off + k)) (take (unat count - unat (bw + k)) (drop (unat (bw + k)) buffer)) (patch (unat off) ?xs content)) s'"
      "writes_in (file_sectors l (patch (unat off) ?xs content)) s1 s'" by blast
    let ?zs = "take (unat count - unat (bw + k)) (drop (unat (bw + k)) buffer)"
    have "?xs @ ?zs = take (unat count - unat bw) (drop (unat bw) buffer)"
    proof -
      have "unat count - unat bw = unat k + (unat count - unat (bw + k))" using p(1,3) by linarith
      then show ?thesis by (simp only: take_add drop_drop p(1) add.commute [of "unat bw"])
    qed
    moreover have "patch (unat (off + k)) ?zs (patch (unat off) ?xs content) = patch (unat off) (?xs @ ?zs) content"
      using patch_patch [of "unat off" ?xs ?zs content] xs off less.prems(4) p(1,3) by simp
    moreover have "file_sectors l (patch (unat off) ?xs content) = file_sectors l content"
      by (simp add: file_sectors_def blocks_def lc)
    ultimately show ?thesis using s' s1(1,3) writes_in_trans by metis
  next
    case False
    with less.prems(3) have "bw = count" by simp
    then show ?thesis using False less.prems(1,2)
      by (subst write_loop.simps) (simp add: writes_in_def patch_def)
  qed
qed

subsection \<open>Descriptors\<close>

text \<open>Descriptor \<open>i\<close> is open on the file with the given contents from sector \<open>l\<close> on, at position \<open>pos\<close>.\<close>

definition fd_on :: "nat \<Rightarrow> nat \<Rightarrow> u8 list \<Rightarrow> nat \<Rightarrow> 'a vfs_scheme \<Rightarrow> bool" where
  "fd_on i l content pos s \<longleftrightarrow> i < MAX_FDS \<and> length (fd_table s) = MAX_FDS \<and> disk_ok s \<and> file_on l content s \<and>
     fd_table s ! i = \<lparr>start_lba = word_of_nat l, fd_size = word_of_nat (length content), fd_offset = word_of_nat pos, in_use = True\<rparr> \<and>
     pos \<le> length content"

lemma vfs_fields:
  fixes s s' :: "'a vfs_scheme"
  assumes "tardisk.more s' = tardisk.more s"
  shows "fd_table s' = fd_table s" "stack_bytes s' = stack_bytes s" "vfs.more s' = vfs.more s"
proof -
  have "fd_table t = fd_table u" "stack_bytes t = stack_bytes u" "vfs.more t = vfs.more u" if "tardisk.more t = tardisk.more u"
    for t u :: "'a vfs_scheme"
    using that by (cases t; cases u; simp)+
  from this [OF assms] show "fd_table s' = fd_table s" "stack_bytes s' = stack_bytes s" "vfs.more s' = vfs.more s" .
qed

lemma upd_fd_simps [simp]:
  "sectors (upd_fd i f s) = sectors s" "disk_ok (upd_fd i f s) = disk_ok s" "file_on l c (upd_fd i f s) = file_on l c s"
  "fd_table (upd_fd i f s) = (fd_table s)[i := f (fd_table s ! i)]" "tar_start_lba (upd_fd i f s) = tar_start_lba s"
  by (simp_all add: upd_fd_def disk_ok_def in_order_def sectors_ok_def cache_ok_def file_on_def)

lemma unat_small: "n < 2 ^ 31 \<Longrightarrow> unat (word_of_nat n :: u32) = n"
  by (simp add: unsigned_of_nat take_bit_nat_eq_self)

lemma sint_small: "n < 2 ^ 31 \<Longrightarrow> sint (word_of_nat n :: u32) = int n"
  by (rule sint_of_nat32) simp

lemma vfs_read_reads:
  assumes fd: "fd_on i l content pos s" and n: "n = min (unat count) (length content - pos)" and buf: "n \<le> length buffer"
  shows "\<exists>s'. vfs_read (int i) buffer count s = Some (int n, take n (drop pos content) @ drop n buffer, s') \<and>
    fd_on i l content (pos + n) s' \<and> sectors s' = sectors s"
proof -
  have f: "i < MAX_FDS" "length (fd_table s) = MAX_FDS" "disk_ok s" "file_on l content s" "pos \<le> length content"
    "fd_table s ! i = \<lparr>start_lba = word_of_nat l, fd_size = word_of_nat (length content), fd_offset = word_of_nat pos, in_use = True\<rparr>"
    using fd by (simp_all add: fd_on_def)
  have small: "length content < 2 ^ 31" using f(4) by (simp add: file_on_def)
  then have u: "unat (word_of_nat (length content) :: u32) = length content" "unat (word_of_nat pos :: u32) = pos"
    using f(5) by (simp_all add: unat_small)
  have good: "\<not> bad_fd (int i) s" using f(1,6) by (simp add: bad_fd_def)
  show ?thesis
  proof (cases "pos = length content")
    case True
    then show ?thesis using good f fd n by (simp add: vfs_read_def Let_def fd_on_def)
  next
    case False
    define c where "c = (if word_of_nat (length content) - word_of_nat pos < count
      then word_of_nat (length content) - word_of_nat pos else count :: u32)"
    have le: "(word_of_nat pos :: u32) \<le> word_of_nat (length content)" using f(5) u by (simp add: word_le_nat_alt)
    have d: "unat (word_of_nat (length content) - word_of_nat pos :: u32) = length content - pos"
      using le u by (simp add: unat_sub)
    have c: "unat c = n" using d n by (auto simp: c_def word_less_nat_alt)
    have nl: "\<not> (word_of_nat (length content) :: u32) \<le> word_of_nat pos" using False f(5) u by (simp add: word_le_nat_alt)
    define s1 where "s1 = upd_fd i (\<lambda>f. f\<lparr>fd_offset := fd_offset f + c\<rparr>) s"
    have s1: "disk_ok s1" "file_on l content s1" using f by (simp_all add: s1_def)
    have "n \<le> length content - pos" unfolding n by simp
    then have pn: "unat (word_of_nat pos :: u32) + (unat c - unat (0::u32)) \<le> length content" "unat c \<le> length buffer" "0 \<le> c"
      using u(2) c f(5) buf by simp_all
    from read_loop_reads [OF s1 pn(3,1,2), of "stack_bytes s"] obtain s' where
      s': "read_loop (word_of_nat l) c 0 (word_of_nat pos) buffer (stack_bytes s) s1 =
        Some (c, take n (drop pos content) @ drop n buffer, s')" "reads_only s1 s'"
      using u c by auto
    have "sint c = int n" using sint_small [of n] small n c by (metis min.cobounded2 diff_le_self le_less_trans le_trans word_of_natI)
    then have run: "vfs_read (int i) buffer count s = Some (int n, take n (drop pos content) @ drop n buffer, s')"
      using \<open>sint c = int n\<close>
      by (simp only: vfs_read_def Let_def if_not_P [OF good] nat_int f(6) fd_t.select_convs if_not_P [OF nl] c_def [symmetric]
        s1_def [symmetric] s'(1) Option.bind.simps prod.case)
    have t: "fd_table s' = (fd_table s)[i := \<lparr>start_lba = word_of_nat l, fd_size = word_of_nat (length content),
        fd_offset = word_of_nat (pos + n), in_use = True\<rparr>]"
    proof -
      have "c = word_of_nat n" using c by (rule word_of_natI)
      then show ?thesis using vfs_fields(1) [of s' s1] s'(2) by (simp add: reads_only_def s1_def f(6))
    qed
    have "fd_on i l content (pos + n) s'"
      using f t s' n s1(2) by (auto simp: fd_on_def reads_only_def file_on_def)
    moreover have "sectors s' = sectors s" using s'(2) by (simp add: reads_only_def s1_def)
    ultimately show ?thesis using run by blast
  qed
qed

lemma vfs_write_writes:
  assumes fd: "fd_on i l content pos s" and n: "n = min (unat count) (length content - pos)" and buf: "n \<le> length buffer"
    and count: "unat count < 2 ^ 31"
  shows "\<exists>s'. vfs_write (int i) buffer count s = Some (int n, s') \<and>
    fd_on i l (patch pos (take n buffer) content) (pos + n) s' \<and>
    tar_start_lba s' = tar_start_lba s \<and> (\<forall>w. w \<notin> file_sectors l content \<longrightarrow> sectors s' w = sectors s w)"
proof -
  have f: "i < MAX_FDS" "length (fd_table s) = MAX_FDS" "disk_ok s" "file_on l content s" "pos \<le> length content"
    "fd_table s ! i = \<lparr>start_lba = word_of_nat l, fd_size = word_of_nat (length content), fd_offset = word_of_nat pos, in_use = True\<rparr>"
    using fd by (simp_all add: fd_on_def)
  have small: "length content < 2 ^ 31" using f(4) by (simp add: file_on_def)
  then have u: "unat (word_of_nat (length content) :: u32) = length content" "unat (word_of_nat pos :: u32) = pos"
    using f(5) by (simp_all add: unat_small)
  have good: "\<not> bad_fd (int i) s" using f(1,6) by (simp add: bad_fd_def)
  define c where "c = (if word_of_nat (length content) < word_of_nat pos + count
    then word_of_nat (length content) - word_of_nat pos else count :: u32)"
  have le: "(word_of_nat pos :: u32) \<le> word_of_nat (length content)" using f(5) u by (simp add: word_le_nat_alt)
  have d: "unat (word_of_nat (length content) - word_of_nat pos :: u32) = length content - pos"
    using le u by (simp add: unat_sub)
  have sum: "unat (word_of_nat pos + count :: u32) = pos + unat count" using u small f(5) count by (simp add: unat_plus_if')
  have c: "unat c = n" using d n f(5) sum u(1) by (auto simp: c_def word_less_nat_alt)
  define s1 where "s1 = upd_fd i (\<lambda>f. f\<lparr>fd_offset := fd_offset f + c\<rparr>) s"
  have s1: "disk_ok s1" "file_on l content s1" using f by (simp_all add: s1_def)
  have "n \<le> length content - pos" unfolding n by simp
    then have pn: "unat (word_of_nat pos :: u32) + (unat c - unat (0::u32)) \<le> length content" "unat c \<le> length buffer" "0 \<le> c"
      using u(2) c f(5) buf by simp_all
    from write_loop_writes [OF s1 pn(3,1,2), of "stack_bytes s"] obtain s' where
    s': "write_loop (word_of_nat l) c 0 (word_of_nat pos) buffer (stack_bytes s) s1 = Some (c, s')"
      "file_on l (patch pos (take n buffer) content) s'" "writes_in (file_sectors l content) s1 s'"
    using u c by auto
  have cn: "c = word_of_nat n" using c by (rule word_of_natI)
  have "n < 2 ^ 31" using n small by simp
  then have "sint c = int n" unfolding cn by (rule sint_small)
  then have run: "vfs_write (int i) buffer count s = Some (int n, s')"
    using \<open>sint c = int n\<close>
    by (simp only: vfs_write_def Let_def if_not_P [OF good] nat_int f(6) fd_t.select_convs c_def [symmetric]
      s1_def [symmetric] s'(1) Option.bind.simps prod.case)
  have t: "fd_table s' = (fd_table s)[i := \<lparr>start_lba = word_of_nat l, fd_size = word_of_nat (length content),
      fd_offset = word_of_nat (pos + n), in_use = True\<rparr>]"
    using vfs_fields(1) [of s' s1] s'(3) by (simp add: writes_in_def s1_def f(6) cn)
  have lp: "length (patch pos (take n buffer) content) = length content" using n buf f(5) by (simp add: length_patch)
  have "fd_on i l (patch pos (take n buffer) content) (pos + n) s'"
    using f(1,2) t s'(2,3) n lp f(5) by (auto simp: fd_on_def writes_in_def)
  then show ?thesis using run s'(3) by (auto simp: writes_in_def s1_def)
qed

subsection \<open>Opening\<close>

lemma free_fd_Some: "free_fd k fs = Some i \<Longrightarrow> k \<le> i \<and> i - k < length fs \<and> \<not> in_use (fs ! (i - k))"
proof (induction fs arbitrary: k)
  case (Cons f fs)
  show ?case
  proof (cases "in_use f")
    case True
    with Cons.IH [of "k + 1"] Cons.prems have h: "k + 1 \<le> i" "i - (k + 1) < length fs" "\<not> in_use (fs ! (i - (k + 1)))" by auto
    then have "i - k = Suc (i - (k + 1))" by simp
    with h show ?thesis by simp
  qed (use Cons.prems in simp)
qed simp

lemma free_fd_None: "free_fd k fs = None \<longleftrightarrow> (\<forall>f \<in> set fs. in_use f)"
  by (induction fs arbitrary: k) auto

lemma tar_entry_file_on:
  assumes "tar_on (sectors s) k fs" and "tar_entry name k fs = Some (l, content)" and "tar_end k fs \<le> 2 ^ 28"
  shows "file_on l content s" "k < l" "l + blocks content \<le> tar_end k fs"
proof -
  have "file_on l content s \<and> k < l \<and> l + blocks content \<le> tar_end k fs"
    using assms
  proof (induction fs arbitrary: k)
    case (Cons f fs)
    obtain n c where f: "f = (n, c)" by fastforce
    show ?case
    proof (cases "n = name")
      case True
      then show ?thesis using Cons.prems tar_end_ge [of "k + 1 + blocks c" fs]
        by (auto simp: f file_on_def)
    next
      case False
      then have "file_on l content s \<and> k + 1 + blocks c < l \<and> l + blocks content \<le> tar_end (k + 1 + blocks c) fs"
        using Cons.prems by (intro Cons.IH) (auto simp: f)
      then show ?thesis by (simp add: f)
    qed
  qed simp
  then show "file_on l content s" "k < l" "l + blocks content \<le> tar_end k fs" by simp_all
qed

lemma vfs_open_opens:
  assumes a: "archive fs s" and path: "0 \<notin> set path" and tab: "length (fd_table s) = MAX_FDS"
    and entry: "tar_entry path (unat (tar_start_lba s)) fs = Some (l, content)" and free: "free_fd 0 (fd_table s) = Some i"
  shows "\<exists>s'. vfs_open path s = Some (int i, s') \<and> fd_on i l content 0 s' \<and> archive fs s' \<and> sectors s' = sectors s \<and>
    tar_start_lba s' = tar_start_lba s"
proof -
  from tar_find_file_finds [OF a path] entry obtain s1 where
    s1: "tar_find_file path s = Some (Some (word_of_nat l, word_of_nat (length content)), s1)" "reads_only s s1" by auto
  have t: "fd_table s1 = fd_table s" using s1(2) vfs_fields(1) by (auto simp: reads_only_def)
  define s' where "s' = upd_fd i (\<lambda>f. f\<lparr>in_use := True, start_lba := word_of_nat l, fd_size := word_of_nat (length content), fd_offset := 0\<rparr>) s1"
  have run: "vfs_open path s = Some (int i, s')" using s1(1) t free by (simp add: vfs_open_def s'_def)
  have e: "tar_on (sectors s) (unat (tar_start_lba s)) fs" "tar_end (unat (tar_start_lba s)) fs \<le> 2 ^ 28"
    using a by (simp_all add: archive_def)
  have i: "i < MAX_FDS" using free_fd_Some [OF free] tab by simp
  have "file_on l content s'" using tar_entry_file_on(1) [OF e(1) entry e(2)] s1(2)
    by (simp add: s'_def reads_only_def file_on_def)
  then have "fd_on i l content 0 s'"
    using i tab t s1(2) by (simp add: fd_on_def s'_def reads_only_def)
  moreover have "archive fs s'" using a s1(2) by (simp add: archive_def s'_def reads_only_def)
  ultimately show ?thesis using run s1(2) by (auto simp: s'_def reads_only_def)
qed

text \<open>Reads of the given sizes one after the other, and all the bytes they deliver.\<close>

fun vfs_reads :: "int \<Rightarrow> u32 list \<Rightarrow> 'a vfs_scheme \<Rightarrow> (u8 list \<times> 'a vfs_scheme) option" where
  "vfs_reads fd [] s = Some ([], s)"
| "vfs_reads fd (c # cs) s = do {
     (n, buffer, s1) \<leftarrow> vfs_read fd (replicate (unat c) 0) c s;
     (rest, s2) \<leftarrow> vfs_reads fd cs s1;
     Some (take (nat n) buffer @ rest, s2) }"

lemma vfs_reads_read:
  "fd_on i l content pos s \<Longrightarrow>
   \<exists>s'. vfs_reads (int i) cs s = Some (take (sum_list (map unat cs)) (drop pos content), s') \<and> sectors s' = sectors s"
proof (induction cs arbitrary: pos s)
  case (Cons c cs)
  define n where "n = min (unat c) (length content - pos)"
  have n: "n \<le> length (replicate (unat c) (0 :: u8))" by (simp add: n_def)
  from vfs_read_reads [OF Cons.prems n_def n] obtain s1 where
    s1: "vfs_read (int i) (replicate (unat c) 0) c s = Some (int n, take n (drop pos content) @ drop n (replicate (unat c) 0), s1)"
      "fd_on i l content (pos + n) s1" "sectors s1 = sectors s" by blast
  from Cons.IH [OF s1(2)] obtain s2 where
    s2: "vfs_reads (int i) cs s1 = Some (take (sum_list (map unat cs)) (drop (pos + n) content), s2)" "sectors s2 = sectors s1" by blast
  let ?d = "drop pos content"
  have "take (unat c + m) ?d = take n ?d @ take m (drop n ?d)" for m
  proof (cases "unat c \<le> length content - pos")
    case True
    then have "n = unat c" by (simp add: n_def)
    then show ?thesis by (simp add: take_add)
  next
    case False
    then have "n = length ?d" by (simp add: n_def)
    moreover have "length ?d \<le> unat c + m" using False by simp
    ultimately show ?thesis by simp
  qed
  moreover have "take (nat (int n)) (take n ?d @ drop n (replicate (unat c) 0)) = take n ?d"
    by (simp add: n_def)
  moreover have "drop n ?d = drop (pos + n) content" by (simp add: add.commute)
  ultimately show ?case using s1 s2 by (simp del: take_append drop_drop)
qed simp

text \<open>
  C23. Opening a file of the archive with a free descriptor gives a descriptor from which reads of any sizes, one after the
  other, deliver exactly the contents of the file from the beginning, and nothing when it is at the end; nothing on the
  disk changes.
\<close>

theorem vfs_open_read:
  assumes "archive fs s" and "0 \<notin> set path" and "length (fd_table s) = MAX_FDS"
    and "tar_entry path (unat (tar_start_lba s)) fs = Some (l, content)" and "free_fd 0 (fd_table s) = Some i"
  shows "\<exists>s1 s2. vfs_open path s = Some (int i, s1) \<and>
    vfs_reads (int i) sizes s1 = Some (take (sum_list (map unat sizes)) content, s2) \<and> sectors s2 = sectors s"
proof -
  from vfs_open_opens [OF assms] obtain s1 where
    s1: "vfs_open path s = Some (int i, s1)" "fd_on i l content 0 s1" "sectors s1 = sectors s" by blast
  from vfs_reads_read [OF s1(2), of sizes] s1 show ?thesis by auto
qed


subsection \<open>The archive under writes\<close>

text \<open>The archive with new contents of the first file of that name.\<close>

fun replace_file :: "u8 list \<Rightarrow> u8 list \<Rightarrow> (u8 list \<times> u8 list) list \<Rightarrow> (u8 list \<times> u8 list) list" where
  "replace_file name new [] = []"
| "replace_file name new ((n, c) # fs) = (if n = name then (n, new) # fs else (n, c) # replace_file name new fs)"

lemma tar_on_cong:
  "(\<And>j. k \<le> j \<Longrightarrow> j \<le> tar_end k fs \<Longrightarrow> d' (word_of_nat j) = d (word_of_nat j)) \<Longrightarrow> tar_on d' k fs = tar_on d k fs"
proof (induction fs arbitrary: k)
  case Nil
  then show ?case using Nil [of k] by simp
next
  case (Cons f fs)
  obtain n c where f: "f = (n, c)" by fastforce
  have e: "k + 1 + blocks c \<le> tar_end (k + 1 + blocks c) fs" by (rule tar_end_ge)
  have head: "d' (word_of_nat k) = d (word_of_nat k)" using Cons.prems [of k] e by (simp add: f)
  have bytes: "file_byte d' (k + 1) i = file_byte d (k + 1) i" if "i < length c" for i
    using Cons.prems [of "k + 1 + i div 512"] e div_below_blocks [OF that] by (simp add: f file_byte_def)
  have "tar_on d' (k + 1 + blocks c) fs = tar_on d (k + 1 + blocks c) fs"
    by (rule Cons.IH) (use Cons.prems in \<open>simp add: f\<close>)
  then show ?case using head bytes by (auto simp: f)
qed

lemma file_sectors_other:
  assumes "j < l \<or> l + blocks content \<le> j" and "j \<le> 2 ^ 28" and "l + blocks content \<le> 2 ^ 28"
  shows "word_of_nat j \<notin> file_sectors l content"
proof
  assume "word_of_nat j \<in> file_sectors l content"
  then obtain i where i: "l \<le> i" "i < l + blocks content" "(word_of_nat j :: u32) = word_of_nat i"
    by (auto simp: file_sectors_def)
  moreover have "j < 2 ^ 32" "i < 2 ^ 32" using assms i(2) by simp_all
  ultimately have "j = i" by (simp add: word_of_nat_eq_iff take_bit_nat_eq_self)
  then show False using assms(1) i(1,2) by simp
qed

lemma tar_on_replace:
  assumes "tar_on d k fs" and "tar_end k fs \<le> 2 ^ 28" and "tar_entry name k fs = Some (l, content)"
    and "\<forall>w. w \<notin> file_sectors l content \<longrightarrow> d' w = d w"
    and "length new = length content" and "\<forall>i < length new. file_byte d' l i = new ! i"
  shows "tar_on d' k (replace_file name new fs) \<and> tar_end k (replace_file name new fs) = tar_end k fs"
  using assms
proof (induction fs arbitrary: k)
  case (Cons f fs)
  obtain n c where f: "f = (n, c)" by fastforce
  note p = Cons.prems
  have blocks: "blocks new = blocks content" using p(5) by (simp add: blocks_def)
  have e: "k + 1 + blocks c \<le> tar_end (k + 1 + blocks c) fs" by (rule tar_end_ge)
  show ?case
  proof (cases "n = name")
    case True
    then have l: "l = k + 1" "content = c" using p(3) by (simp_all add: f)
    have range: "l + blocks content \<le> 2 ^ 28" using e p(2) l by (simp add: f)
    have other: "d' (word_of_nat j) = d (word_of_nat j)" if "j < l \<or> l + blocks content \<le> j" "j \<le> 2 ^ 28" for j
      using p(4) file_sectors_other [OF that range] by blast
    have "d' (word_of_nat k) = d (word_of_nat k)" using other [of k] l(1) range by simp
    moreover have "tar_on d' (k + 1 + blocks c) fs = tar_on d (k + 1 + blocks c) fs"
      by (rule tar_on_cong, rule other) (use l p(2) in \<open>auto simp: f\<close>)
    ultimately show ?thesis using p(1,5,6) True blocks l by (simp add: f)
  next
    case False
    have h: "tar_on d (k + 1 + blocks c) fs" "tar_end (k + 1 + blocks c) fs \<le> 2 ^ 28"
      "tar_entry name (k + 1 + blocks c) fs = Some (l, content)" using p(1-3) False by (simp_all add: f)
    have l: "k + 1 + blocks c < l" "l + blocks content \<le> 2 ^ 28"
    proof -
      have "k' < l \<and> l + blocks content \<le> tar_end k' fs" if "tar_entry name k' fs = Some (l, content)" for k'
        using that
      proof (induction fs arbitrary: k')
        case (Cons g gs)
        then show ?case using tar_end_ge by (cases g) (fastforce split: if_splits)
      qed simp
      from this [OF h(3)] h(2) show "k + 1 + blocks c < l" "l + blocks content \<le> 2 ^ 28" by simp_all
    qed
    have other: "d' (word_of_nat j) = d (word_of_nat j)" if "j < l" for j
      using p(4) file_sectors_other [of j l content] that l(2) by simp
    have bytes: "file_byte d' (k + 1) i = file_byte d (k + 1) i" if "i < length c" for i
      using other [of "k + 1 + i div 512"] div_below_blocks [OF that] l(1) by (simp add: file_byte_def)
    have "d' (word_of_nat k) = d (word_of_nat k)" using other [of k] l(1) by simp
    then show ?thesis using Cons.IH [OF h p(4-6)] p(1) False bytes by (simp add: f)
  qed
qed simp


subsection \<open>An archive with one file\<close>

definition demo_header :: "u8 list" where
  "demo_header = [104, 105] @ replicate 122 0 @ replicate 10 48 @ [51] @ replicate 377 0"

definition demo_sectors :: "u32 \<Rightarrow> u8 list" where
  "demo_sectors w = (if w = 2048 then demo_header else if w = 2049 then [97, 98, 99] @ replicate 509 0 else replicate 512 0)"

definition demo_vfs :: "fd_t \<Rightarrow> vfs" where
  "demo_vfs f = tardisk.extend (drive.extend (demo_drive\<lparr>sectors := demo_sectors\<rparr>) (tardisk.fields 2048 0 (replicate 512 0) False))
     (vfs.fields ((replicate 16 \<lparr>start_lba = 0, fd_size = 0, fd_offset = 0, in_use = False\<rparr>)[0 := f]) (replicate 512 7))"

abbreviation demo_files :: "(u8 list \<times> u8 list) list" where
  "demo_files \<equiv> [([104, 105], [97, 98, 99])]"

abbreviation closed_fd :: fd_t where
  "closed_fd \<equiv> \<lparr>start_lba = 0, fd_size = 0, fd_offset = 0, in_use = False\<rparr>"

lemma demo_vfs_fields [simp]:
  "sectors (demo_vfs f) = demo_sectors" "tar_start_lba (demo_vfs f) = 2048"
  "fd_table (demo_vfs f) = (replicate 16 closed_fd)[0 := f]"
  by (simp_all add: demo_vfs_def tardisk.defs drive.defs vfs.defs)

lemma demo_disk_ok: "disk_ok (demo_vfs f)"
proof -
  have "in_order (demo_vfs f)" using demo_drive_in_order(1) by (simp add: in_order_def demo_vfs_def tardisk.defs drive.defs)
  moreover have "sectors_ok (demo_vfs f)" by (simp add: sectors_ok_def demo_sectors_def demo_header_def)
  moreover have "cache_ok (demo_vfs f)" by (simp add: cache_ok_def demo_vfs_def tardisk.defs drive.defs)
  ultimately show ?thesis by (simp add: disk_ok_def)
qed

lemma demo_header_size: "header_size demo_header = 3"
proof -
  have "drop 124 demo_header = replicate 10 48 @ [51] @ replicate 377 0" by (simp add: demo_header_def)
  then show ?thesis by (simp add: header_size_def octal_to_int_def numeral_eq_Suc del: replicate.simps(2))
    (simp add: numeral_eq_Suc [symmetric])
qed

lemma demo_archive: "archive demo_files (demo_vfs f)"
proof -
  have b: "blocks [97, 98, 99] = 1" by (simp add: blocks_def)
  have u: "unat (2048 :: u32) = 2048" by simp
  have "file_byte demo_sectors 2049 i = [97, 98, 99] ! i" if "i < 3" for i
  proof -
    have "i = 0 \<or> i = 1 \<or> i = 2" using that by linarith
    then show ?thesis by (auto simp: file_byte_def demo_sectors_def)
  qed
  then have "tar_on demo_sectors 2048 demo_files"
    using demo_header_size by (simp add: b) (simp add: demo_sectors_def header_name_is_def demo_header_def)
  then show ?thesis using demo_disk_ok by (simp add: archive_def b)
qed

theorem vfs_open_read_witness:
  "\<exists>s1 s2. vfs_open [104, 105] (demo_vfs closed_fd) = Some (0, s1) \<and> vfs_reads 0 [2, 2] s1 = Some ([97, 98, 99], s2)"
proof -
  have e: "tar_entry [104, 105] (unat (tar_start_lba (demo_vfs closed_fd))) demo_files = Some (2049, [97, 98, 99])" by simp
  have f: "free_fd 0 (fd_table (demo_vfs closed_fd)) = Some 0" "length (fd_table (demo_vfs closed_fd)) = MAX_FDS"
    by (simp_all add: MAX_FDS_def numeral_eq_Suc)
  have p: "0 \<notin> set [104, 105 :: u8]" by simp
  from vfs_open_read [OF demo_archive p f(2) e f(1), of "[2, 2]"] show ?thesis by auto
qed


abbreviation open_fd :: fd_t where
  "open_fd \<equiv> \<lparr>start_lba = 2049, fd_size = 3, fd_offset = 1, in_use = True\<rparr>"


subsection \<open>Where the code falls short\<close>

text \<open>
  The test whether a write passes the end of the file is made on the sum of position and count, which wraps: then the
  count is not cut down, and the loop overwrites what follows the file on the disk.
\<close>

lemma vfs_write_wraps:
  assumes "\<not> bad_fd fd s" and "fd_table s ! nat fd = \<lparr>start_lba = lba, fd_size = 100, fd_offset = 50, in_use = True\<rparr>"
  shows "vfs_write fd buffer 0xFFFFFFF0 s = do {
    (bytes_written, s2) \<leftarrow> write_loop lba 0xFFFFFFF0 0 50 buffer (stack_bytes s)
      (upd_fd (nat fd) (\<lambda>f. f\<lparr>fd_offset := fd_offset f + 0xFFFFFFF0\<rparr>) s);
    Some (sint bytes_written, s2) }"
  using assms by (simp add: vfs_write_def Let_def)

text \<open>After a failed read the cache holds the old bytes and vouches for the new sector.\<close>

lemma read_error_cached:
  assumes "ata_status s (status_pos s) AND ATA_SR_ERR \<noteq> 0" and "\<not> (cache_valid s \<and> cache_lba s = lba)"
  shows "\<exists>s'. cached_read_sector lba s = (cache_data s, s') \<and> cache_valid s' \<and> cache_lba s' = lba \<and> cache_data s' = cache_data s"
  using assms by (simp add: cached_read_sector_def ata_read_sector_error)

end
