(* ===== verification/Input.thy ===== *)
theory Input
  imports Prelude
begin

text \<open>
  The PS/2 input devices and the interrupt controllers they report through: \<open>src/kernel/mouse.c\<close>,
  \<open>src/kernel/keyboard.c\<close> and the PIC code of \<open>src/kernel/idt.c\<close>. What a port answers is an input of the
  model: the \<open>n\<close>-th read of a port gives byte \<open>n\<close> of its tape. What is written to ports is logged.
\<close>

subsection \<open>Ports\<close>

record ports =
  in_tape :: "u16 \<Rightarrow> nat \<Rightarrow> u8"
  in_pos :: "u16 \<Rightarrow> nat"
  out_log :: "(u16 \<times> u8) list"

definition port_inb :: "u16 \<Rightarrow> 'a ports_scheme \<Rightarrow> u8 \<times> 'a ports_scheme" where
  "port_inb port s = (in_tape s port (in_pos s port), s\<lparr>in_pos := (in_pos s)(port := in_pos s port + 1)\<rparr>)"

definition port_outb :: "u16 \<Rightarrow> u8 \<Rightarrow> 'a ports_scheme \<Rightarrow> 'a ports_scheme" where
  "port_outb port v s = s\<lparr>out_log := out_log s @ [(port, v)]\<rparr>"

text \<open>Polling the controller: the loop over \<open>timeout\<close>, its first argument, until the answer is right.\<close>

primrec poll :: "nat \<Rightarrow> (u8 \<Rightarrow> bool) \<Rightarrow> 'a ports_scheme \<Rightarrow> 'a ports_scheme" where
  "poll 0 ready s = s"
| "poll (Suc timeout) ready s =
     (let (status, s1) = port_inb 0x64 s in if ready status then s1 else poll timeout ready s1)"

subsection \<open>Keyboard\<close>

text \<open>The key map: code 0 where a key has none.\<close>

definition kbd_us :: "u8 list" where
  "kbd_us = [0, 27] @ map (of_char :: char \<Rightarrow> u8) ''1234567890-='' @ [8] @
     [9] @ map of_char ''qwertyuiop[]'' @ [10] @
     [0] @ map of_char ''asdfghjkl;'' @ [39] @ map of_char ''`'' @ [0, 92] @
     map of_char ''zxcvbnm,./'' @ [0] @ map of_char ''*'' @ [0] @ map of_char '' '' @ [0, 0] @
     replicate 16 0 @ map of_char ''-'' @ replicate 3 0 @ map of_char ''+'' @ replicate 47 0"

definition ps2_wait_input_ready :: "'a ports_scheme \<Rightarrow> 'a ports_scheme" where
  "ps2_wait_input_ready s = poll 100000 (\<lambda>status. status AND 1 \<noteq> 0) s"

definition ps2_wait_output_ready :: "'a ports_scheme \<Rightarrow> 'a ports_scheme" where
  "ps2_wait_output_ready s = poll 100000 (\<lambda>status. status AND 2 = 0) s"

text \<open>The character that is given to the shell, if any.\<close>

definition keyboard_handler :: "'a ports_scheme \<Rightarrow> u8 option \<times> 'a ports_scheme" where
  "keyboard_handler s =
     (let (scancode, s1) = port_inb 0x60 s in
      if scancode AND 0x80 \<noteq> 0 then (None, s1)
      else let c = kbd_us ! unat scancode in (if c \<noteq> 0 then (Some c, s1) else (None, s1)))"

definition keyboard_init :: "'a ports_scheme \<Rightarrow> 'a ports_scheme" where
  "keyboard_init s =
     (let s1 = port_outb 0x64 0x20 (ps2_wait_output_ready s);
          (status, s2) = port_inb 0x60 (ps2_wait_input_ready s1);
          s3 = port_outb 0x64 0x60 (ps2_wait_output_ready s2);
          s4 = port_outb 0x60 (status OR 0x01) (ps2_wait_output_ready s3);
          (pic_mask, s5) = port_inb 0x21 s4
      in port_outb 0x21 (pic_mask AND NOT 2) s5)"

subsection \<open>Mouse\<close>

record input = ports +
  mouse_cycle :: u8
  mouse_byte :: "u8 list"
  mouse_x :: u32
  mouse_y :: u32

definition mouse_wait :: "u8 \<Rightarrow> 'a ports_scheme \<Rightarrow> 'a ports_scheme" where
  "mouse_wait kind s =
     (if kind = 0 then poll 100000 (\<lambda>status. status AND 1 = 1) s
      else poll 100000 (\<lambda>status. status AND 2 = 0) s)"

definition mouse_write :: "u8 \<Rightarrow> 'a ports_scheme \<Rightarrow> 'a ports_scheme" where
  "mouse_write data s = port_outb 0x60 data (mouse_wait 1 (port_outb 0x64 0xD4 (mouse_wait 1 s)))"

definition mouse_read :: "'a ports_scheme \<Rightarrow> u8 \<times> 'a ports_scheme" where
  "mouse_read s = port_inb 0x60 (mouse_wait 0 s)"

definition mouse_init :: "'a ports_scheme \<Rightarrow> 'a ports_scheme" where
  "mouse_init s =
     (let s1 = port_outb 0x64 0xA8 (mouse_wait 1 s);
          s2 = port_outb 0x64 0x20 (mouse_wait 1 s1);
          (b, s3) = port_inb 0x60 (mouse_wait 0 s2);
          s4 = port_outb 0x64 0x60 (mouse_wait 1 s3);
          s5 = port_outb 0x60 (b OR 2) (mouse_wait 1 s4);
          (a1, s6) = mouse_read (mouse_write 0xF6 s5);
          (a2, s7) = mouse_read (mouse_write 0xF4 s6);
          (master_mask, s8) = port_inb 0x21 s7;
          s9 = port_outb 0x21 (master_mask AND NOT 4) s8;
          (pic_mask, s10) = port_inb 0xA1 s9
      in port_outb 0xA1 (pic_mask AND NOT 16) s10)"

text \<open>A coordinate after a packet, kept in 32 bits with sign, between 0 and the limit.\<close>

definition clamp :: "u32 \<Rightarrow> u32 \<Rightarrow> u32" where
  "clamp limit v = (let v1 = (if v <s 0 then 0 else v) in if limit <s v1 then limit else v1)"

text \<open>The bytes are \<open>int8_t\<close>: reading one as a movement extends its sign.\<close>

definition mouse_packet :: "'a input_scheme \<Rightarrow> 'a input_scheme" where
  "mouse_packet s =
     (let b0 = mouse_byte s ! 0 in
      if b0 AND 0x80 \<noteq> 0 \<or> b0 AND 0x40 \<noteq> 0 then s
      else
        let dx = (scast (mouse_byte s ! 1) :: u32); dy = (scast (mouse_byte s ! 2) :: u32);
            dx1 = (if b0 AND 0x10 \<noteq> 0 then dx - 256 else dx);
            dy1 = (if b0 AND 0x20 \<noteq> 0 then dy - 256 else dy)
        in s\<lparr>mouse_x := clamp 1024 (mouse_x s + dx1), mouse_y := clamp 768 (mouse_y s - dy1)\<rparr>)"

definition mouse_handler :: "'a input_scheme \<Rightarrow> 'a input_scheme" where
  "mouse_handler s =
     (let (status, s1) = port_inb 0x64 s in
      if status AND 1 = 0 \<or> status AND 0x20 = 0 then s1
      else
        let (b, s2) = port_inb 0x60 s1;
            s3 = s2\<lparr>mouse_cycle := mouse_cycle s2 + 1, mouse_byte := (mouse_byte s2)[unat (mouse_cycle s2) := b]\<rparr>
        in if mouse_cycle s3 = 3 then mouse_packet (s3\<lparr>mouse_cycle := 0\<rparr>) else s3)"

definition mouse_get_x :: "'a input_scheme \<Rightarrow> u32" where "mouse_get_x s = mouse_x s"
definition mouse_get_y :: "'a input_scheme \<Rightarrow> u32" where "mouse_get_y s = mouse_y s"
definition mouse_get_buttons :: "'a input_scheme \<Rightarrow> u8" where "mouse_get_buttons s = mouse_byte s ! 0 AND 0x07"

subsection \<open>Interrupt controllers\<close>

definition pic_remap :: "'a ports_scheme \<Rightarrow> 'a ports_scheme" where
  "pic_remap s = fold (\<lambda>(p, v). port_outb p v)
     [(0x20, 0x11), (0xA0, 0x11), (0x21, 0x20), (0xA1, 0x28), (0x21, 0x04), (0xA1, 0x02), (0x21, 0x01), (0xA1, 0x01),
      (0x21, 0xFF), (0xA1, 0xFF)] s"

definition pic_eoi :: "u8 \<Rightarrow> 'a ports_scheme \<Rightarrow> 'a ports_scheme" where
  "pic_eoi irq s = port_outb 0x20 0x20 (if irq \<ge> 8 then port_outb 0xA0 0x20 s else s)"

subsection \<open>The keyboard\<close>

lemma kbd_us_length: "length kbd_us = 128" by (simp add: kbd_us_def)

lemma kbd_us_keys:
  "kbd_us ! 28 = 10" "kbd_us ! 14 = 8" "kbd_us ! 57 = 32" "kbd_us ! 43 = 92" "kbd_us ! 55 = of_char (CHR ''*'')"
  "kbd_us ! 76 = of_char (CHR ''-'')" "kbd_us ! 80 = of_char (CHR ''+'')"
  by (simp_all add: kbd_us_def nth_append)

text \<open>A released key gives the shell nothing, a pressed one the character of its place in the map.\<close>

lemma keyboard_handler_gives:
  "fst (keyboard_handler s) =
     (let code = in_tape s 0x60 (in_pos s 0x60) in
      if code < 0x80 \<and> kbd_us ! unat code \<noteq> 0 then Some (kbd_us ! unat code) else None)"
proof -
  have "(code :: u8) AND 0x80 \<noteq> 0 \<longleftrightarrow> \<not> code < 0x80" for code
  proof -
    have "code AND 0x80 \<noteq> 0 \<longleftrightarrow> bit code 7" using one_bit_test [of code 7] by simp
    also have "\<dots> \<longleftrightarrow> bit (unat code) 7" by (simp add: bit_unsigned_iff)
    also have "\<dots> \<longleftrightarrow> odd (unat code div 128)" by (simp add: bit_iff_odd)
    also have "\<dots> \<longleftrightarrow> \<not> unat code < 128"
    proof -
      have "unat code div 128 = 0 \<or> unat code div 128 = 1" using unsigned_less [where 'a = nat, of code] by auto
      then show ?thesis by (auto simp: div_eq_0_iff)
    qed
    also have "\<dots> \<longleftrightarrow> \<not> code < 0x80" by (simp add: word_less_nat_alt)
    finally show ?thesis .
  qed
  then show ?thesis by (simp add: keyboard_handler_def port_inb_def Let_def)
qed

subsection \<open>The mouse\<close>

lemma sint_add_small:
  fixes a b :: u32
  assumes "- (2 ^ 31) \<le> sint a + sint b" and "sint a + sint b < 2 ^ 31"
  shows "sint (a + b) = sint a + sint b"
  using assms by (simp add: signed_take_bit_int_eq_self sint_word_ariths)

lemma clamp_int:
  assumes "0 \<le> sint limit"
  shows "sint (clamp limit v) = max 0 (min (sint limit) (sint v))"
  using assms by (auto simp: clamp_def Let_def word_sless_alt)

definition cursor :: "'a input_scheme \<Rightarrow> int \<times> int" where
  "cursor s = (sint (mouse_get_x s), sint (mouse_get_y s))"

definition input_ok :: "'a input_scheme \<Rightarrow> bool" where
  "input_ok s \<longleftrightarrow> length (mouse_byte s) = 3 \<and> mouse_cycle s < 3 \<and> fst (cursor s) \<in> {0..1024} \<and> snd (cursor s) \<in> {0..768}"

text \<open>What a packet's movement byte with the sign bit of the first byte means to the driver.\<close>

definition moved :: "u8 \<Rightarrow> bool \<Rightarrow> int" where
  "moved b negative = sint b - (if negative then 256 else 0)"

lemma sint_moved:
  "sint ((if neg then scast b - 256 else scast b) :: u32) = moved b neg" (is "sint ?d = _")
  and moved_range: "-384 \<le> moved b neg" "moved b neg < 128"
proof -
  have r: "-128 \<le> sint b" "sint b < 128" using sint_greater_eq [of b] sint_less [of b] by simp_all
  then show "-384 \<le> moved b neg" "moved b neg < 128" by (simp_all add: moved_def)
  have s: "sint (scast b :: u32) = sint b" 
    by (simp add: signed_scast_eq) (rule signed_take_bit_int_eq_self; use r in simp)
  have "sint (scast b + - 256 :: u32) = sint b - 256"
    using r by (subst sint_add_small) (simp_all add: s)
  then show "sint ?d = moved b neg" using s by (simp add: moved_def)
qed

lemma mouse_packet_moves:
  assumes "input_ok s"
  shows "cursor (mouse_packet s) =
    (let b0 = mouse_byte s ! 0; (x, y) = cursor s in
     if bit b0 7 \<or> bit b0 6 then (x, y)
     else (max 0 (min 1024 (x + moved (mouse_byte s ! 1) (bit b0 4))), max 0 (min 768 (y - moved (mouse_byte s ! 2) (bit b0 5)))))"
proof -
  define b0 where "b0 = mouse_byte s ! 0"
  have bits: "b0 AND 0x80 \<noteq> 0 \<longleftrightarrow> bit b0 7" "b0 AND 0x40 \<noteq> 0 \<longleftrightarrow> bit b0 6" "b0 AND 0x10 \<noteq> 0 \<longleftrightarrow> bit b0 4"
    "b0 AND 0x20 \<noteq> 0 \<longleftrightarrow> bit b0 5"
    using one_bit_test [of b0 7] one_bit_test [of b0 6] one_bit_test [of b0 4] one_bit_test [of b0 5] by simp_all
  define dx dy :: u32 where "dx = (if bit b0 4 then scast (mouse_byte s ! 1) - 256 else scast (mouse_byte s ! 1))"
    and "dy = (if bit b0 5 then scast (mouse_byte s ! 2) - 256 else scast (mouse_byte s ! 2))"
  have d: "sint dx = moved (mouse_byte s ! 1) (bit b0 4)" "sint dy = moved (mouse_byte s ! 2) (bit b0 5)"
    unfolding dx_def dy_def by (rule sint_moved)+
  have r: "0 \<le> sint (mouse_x s)" "sint (mouse_x s) \<le> 1024" "0 \<le> sint (mouse_y s)" "sint (mouse_y s) \<le> 768"
    using assms by (simp_all add: input_ok_def cursor_def mouse_get_x_def mouse_get_y_def)
  have dr: "-384 \<le> sint dx" "sint dx < 128" "-384 \<le> sint dy" "sint dy < 128" unfolding d by (rule moved_range)+
  have x: "sint (mouse_x s + dx) = sint (mouse_x s) + sint dx" by (rule sint_add_small) (use r dr in simp_all)
  have y: "sint (mouse_y s - dy) = sint (mouse_y s) - sint dy"
    using r dr by (simp add: signed_take_bit_int_eq_self sint_word_ariths)
  have p: "mouse_packet s = (if bit b0 7 \<or> bit b0 6 then s
      else s\<lparr>mouse_x := clamp 1024 (mouse_x s + dx), mouse_y := clamp 768 (mouse_y s - dy)\<rparr>)"
    unfolding mouse_packet_def b0_def [symmetric] Let_def bits dx_def dy_def ..
  show ?thesis
    unfolding p b0_def [symmetric]
    by (simp add: cursor_def mouse_get_x_def mouse_get_y_def clamp_int x y d Let_def)
qed

text \<open>The \<open>k\<close>-th of the next bytes the controller gives, and whether it comes from the mouse.\<close>

definition next_byte :: "nat \<Rightarrow> 'a ports_scheme \<Rightarrow> u8" where
  "next_byte k s = in_tape s 0x60 (in_pos s 0x60 + k)"

definition mouse_ready :: "nat \<Rightarrow> 'a ports_scheme \<Rightarrow> bool" where
  "mouse_ready k s = (let status = in_tape s 0x64 (in_pos s 0x64 + k) in status AND 1 \<noteq> 0 \<and> status AND 0x20 \<noteq> 0)"

definition accept :: "'a input_scheme \<Rightarrow> 'a input_scheme" where
  "accept s = s\<lparr>in_pos := (in_pos s)(0x64 := in_pos s 0x64 + 1, 0x60 := in_pos s 0x60 + 1),
     mouse_byte := (mouse_byte s)[unat (mouse_cycle s) := next_byte 0 s]\<rparr>"

lemma mouse_handler_cases:
  "mouse_handler s =
    (if \<not> mouse_ready 0 s then snd (port_inb 0x64 s)
     else if mouse_cycle s = 2 then mouse_packet ((accept s)\<lparr>mouse_cycle := 0\<rparr>)
     else (accept s)\<lparr>mouse_cycle := mouse_cycle s + 1\<rparr>)"
proof -
  have "mouse_cycle s + 1 = 3 \<longleftrightarrow> mouse_cycle s = 2" by (simp add: eq_diff_eq [symmetric])
  then show ?thesis
    by (cases s) (simp add: mouse_handler_def mouse_ready_def port_inb_def accept_def next_byte_def Let_def)
qed

lemma mouse_packet_frame [simp]:
  "mouse_byte (mouse_packet s) = mouse_byte s" "mouse_cycle (mouse_packet s) = mouse_cycle s"
  by (simp_all add: mouse_packet_def Let_def)

lemma accept_fields [simp]:
  "cursor (accept s) = cursor s" "cursor (s\<lparr>mouse_cycle := c\<rparr>) = cursor s" "cursor (snd (port_inb p s)) = cursor s"
  "mouse_cycle (snd (port_inb p s)) = mouse_cycle s" "mouse_byte (snd (port_inb p s)) = mouse_byte s"
  "mouse_byte (accept s) = (mouse_byte s)[unat (mouse_cycle s) := next_byte 0 s]"
  by (simp_all add: cursor_def accept_def port_inb_def mouse_get_x_def mouse_get_y_def)

lemma accept_next [simp]:
  "mouse_ready k ((accept s)\<lparr>mouse_cycle := c\<rparr>) = mouse_ready (k + 1) s"
  "next_byte k ((accept s)\<lparr>mouse_cycle := c\<rparr>) = next_byte (k + 1) s"
  by (simp_all add: accept_def mouse_ready_def next_byte_def Let_def)

lemma mouse_handler_ok [inv_pres]:
  assumes "input_ok s"
  shows "input_ok (mouse_handler s)"
proof -
  have a: "input_ok ((accept s)\<lparr>mouse_cycle := c\<rparr>)" if "c < 3" for c
    using assms that by (simp add: input_ok_def)
  have "input_ok (mouse_packet ((accept s)\<lparr>mouse_cycle := 0\<rparr>))"
    using mouse_packet_moves [OF a [of 0]] a [of 0]
    by (simp add: input_ok_def Let_def split: prod.splits)
  moreover have "mouse_cycle s + 1 < 3" if "mouse_cycle s \<noteq> 2"
  proof -
    have "unat (mouse_cycle s) < 3" "unat (mouse_cycle s) \<noteq> 2"
      using assms that by (simp_all add: input_ok_def word_less_nat_alt unat_eq_iff [symmetric])
    then show ?thesis by (simp add: word_less_nat_alt unat_plus_if')
  qed
  ultimately show ?thesis
    using assms a by (simp add: mouse_handler_cases input_ok_def)
qed

text \<open>
  C28. However many mouse interrupts arrive and whatever the controller answers, the cursor stays on the screen area
  of 0 to 1024 by 0 to 768 and the packet buffer is never overrun. Three bytes from the mouse at the start of a
  packet move the cursor by the driver's reading of the movement bytes, cut at the borders, unless the packet
  reports an overflow; the buttons are the low bits of the first byte.
\<close>

theorem mouse_bounded:
  assumes "input_ok s"
  shows "(\<forall>n. input_ok ((mouse_handler ^^ n) s)) \<and>
    (mouse_cycle s = 0 \<and> mouse_ready 0 s \<and> mouse_ready 1 s \<and> mouse_ready 2 s \<longrightarrow>
     (let s' = (mouse_handler ^^ 3) s; b0 = next_byte 0 s; (x, y) = cursor s
      in mouse_cycle s' = 0 \<and> mouse_get_buttons s' = b0 AND 7 \<and>
         cursor s' = (if bit b0 7 \<or> bit b0 6 then (x, y)
           else (max 0 (min 1024 (x + moved (next_byte 1 s) (bit b0 4))),
                 max 0 (min 768 (y - moved (next_byte 2 s) (bit b0 5)))))))"
proof (intro conjI allI impI)
  show "input_ok ((mouse_handler ^^ n) s)" for n
    using assms by (induction n) (simp_all add: mouse_handler_ok)
next
  assume r: "mouse_cycle s = 0 \<and> mouse_ready 0 s \<and> mouse_ready 1 s \<and> mouse_ready 2 s"
  define s1 where "s1 = (accept s)\<lparr>mouse_cycle := 1\<rparr>"
  define s2 where "s2 = (accept s1)\<lparr>mouse_cycle := 2\<rparr>"
  define s3 where "s3 = (accept s2)\<lparr>mouse_cycle := 0\<rparr>"
  have h1: "mouse_handler s = s1" using r by (simp add: mouse_handler_cases s1_def)
  have "mouse_ready 0 s1" "mouse_ready 1 s1" "next_byte 0 s1 = next_byte 1 s" "next_byte 1 s1 = next_byte 2 s" "mouse_cycle s1 = 1"
    using r by (simp_all add: s1_def numeral_2_eq_2)
  note m1 = this
  then have h2: "mouse_handler s1 = s2" by (simp add: mouse_handler_cases s2_def)
  have m2: "mouse_ready 0 s2" "next_byte 0 s2 = next_byte 2 s" "mouse_cycle s2 = 2"
    using m1 by (simp_all add: s2_def)
  then have h3: "mouse_handler s2 = mouse_packet s3" by (simp add: mouse_handler_cases s3_def)
  have fin: "(mouse_handler ^^ 3) s = mouse_packet s3" by (simp add: numeral_3_eq_3 h1 h2 h3)
  have b: "mouse_byte s3 = [next_byte 0 s, next_byte 1 s, next_byte 2 s]"
  proof -
    obtain x y z where "mouse_byte s = [x, y, z]"
      using assms by (auto simp: input_ok_def length_Suc_conv numeral_3_eq_3)
    then show ?thesis using r m1 m2 by (simp add: s3_def s2_def s1_def)
  qed
  have c: "cursor s3 = cursor s" "mouse_cycle s3 = 0" by (simp_all add: s3_def s2_def s1_def)
  then have ok: "input_ok s3" using assms b by (simp add: input_ok_def)
  show "let s' = (mouse_handler ^^ 3) s; b0 = next_byte 0 s; (x, y) = cursor s
      in mouse_cycle s' = 0 \<and> mouse_get_buttons s' = b0 AND 7 \<and>
         cursor s' = (if bit b0 7 \<or> bit b0 6 then (x, y)
           else (max 0 (min 1024 (x + moved (next_byte 1 s) (bit b0 4))),
                 max 0 (min 768 (y - moved (next_byte 2 s) (bit b0 5)))))"
    unfolding fin using mouse_packet_moves [OF ok] b c by (simp add: Let_def mouse_get_buttons_def split: prod.splits)
qed

text \<open>A packet as the device sends it for one step to the left: byte \<open>0xFF\<close> with the sign bit set.\<close>

definition demo_input :: "u8 list \<Rightarrow> input" where
  "demo_input bs = \<lparr>in_tape = (\<lambda>p n. if p = 0x64 then 0x21 else if n < length bs then bs ! n else 0), in_pos = (\<lambda>p. 0), out_log = [],
     mouse_cycle = 0, mouse_byte = [0, 0, 0], mouse_x = 400, mouse_y = 300\<rparr>"

lemma demo_input_ok: "input_ok (demo_input bs)"
  by (simp add: input_ok_def demo_input_def cursor_def mouse_get_x_def mouse_get_y_def)

theorem mouse_bounded_witness:
  "input_ok ((mouse_handler ^^ 40) (demo_input [0x18, 0xFF, 0])) \<and>
   cursor ((mouse_handler ^^ 3) (demo_input [0x08, 50, 100])) = (450, 200)"
  using mouse_bounded [OF demo_input_ok, of "[0x18, 0xFF, 0]"] mouse_bounded [OF demo_input_ok, of "[0x08, 50, 100]"]
  by (simp add: mouse_ready_def next_byte_def demo_input_def cursor_def mouse_get_x_def mouse_get_y_def moved_def Let_def)

text \<open>
  The sign is counted twice: the movement byte is already signed, and the sign bit of the first byte takes off
  another 256. A movement by -1 moves the cursor by -257.
\<close>

lemma mouse_sign_twice: "moved 0xFF True = -257" "moved (- 1) True = -257" "moved 200 False = -56"
  by (simp_all add: moved_def)

end
