(* ===== verification/Idt.thy ===== *)
theory Idt
  imports Elf Sched Input
begin

text \<open>
  Interrupts: the descriptor table, the page fault handler with its copy-on-write branch and the dispatch of
  \<open>src/kernel/idt.c\<close>, the timer interrupt of \<open>src/kernel/pit.c\<close> and the end-of-interrupt message of
  \<open>src/kernel/apic.c\<close>. A handler that does not return (the processor halts, or faults again) is \<open>None\<close>.
\<close>

subsection \<open>The descriptor table\<close>

record idt_entry =
  offset_low :: u16
  selector :: u16
  ist :: u8
  type_attr :: u8
  offset_middle :: u16
  offset_high :: u32
  reserved :: u32

definition idt_set_gate :: "u8 \<Rightarrow> u64 \<Rightarrow> u16 \<Rightarrow> u8 \<Rightarrow> (u8 \<Rightarrow> idt_entry) \<Rightarrow> u8 \<Rightarrow> idt_entry" where
  "idt_set_gate num base sel flags idt =
     idt(num := \<lparr>offset_low = ucast (base AND 0xFFFF), selector = sel, ist = 0, type_attr = flags,
       offset_middle = ucast (drop_bit 16 base AND 0xFFFF), offset_high = ucast (drop_bit 32 base AND 0xFFFFFFFF),
       reserved = 0\<rparr>)"

text \<open>\<open>isrs\<close> are the addresses of the assembly stubs.\<close>

definition idt_init_global :: "(nat \<Rightarrow> u64) \<Rightarrow> (u8 \<Rightarrow> idt_entry) \<Rightarrow> 'a ports_scheme \<Rightarrow> (u8 \<Rightarrow> idt_entry) \<times> 'a ports_scheme" where
  "idt_init_global isrs idt s =
     (let idt1 = fold (\<lambda>i. idt_set_gate (word_of_nat i) 0 0 0) [0..<256] idt;
          s1 = pic_remap s
      in (fold (\<lambda>i. idt_set_gate (word_of_nat i) (isrs i) 0x08 0x8E) [0..<48] idt1, s1))"

text \<open>The processor's reading of an entry: the stub's address, if the present bit is set.\<close>

definition gate_target :: "idt_entry \<Rightarrow> u64 option" where
  "gate_target e =
     (if bit (type_attr e) 7 then
        Some (ucast (offset_low e) OR push_bit 16 (ucast (offset_middle e)) OR push_bit 32 (ucast (offset_high e)))
      else None)"

lemma gate_target_base:
  "(ucast (ucast (base AND 0xFFFF) :: u16) OR push_bit 16 (ucast (ucast (drop_bit 16 base AND 0xFFFF) :: u16)) OR
     push_bit 32 (ucast (ucast (drop_bit 32 base AND 0xFFFFFFFF) :: u32)) :: u64) = base"
proof (rule bit_word_eqI)
  have m: "(0xFFFF :: u64) = mask 16" "(0xFFFFFFFF :: u64) = mask 32" by (simp_all add: mask_eq_exp_minus_1)
  fix n assume "n < LENGTH(64)"
  then show "bit (ucast (ucast (base AND 0xFFFF) :: u16) OR push_bit 16 (ucast (ucast (drop_bit 16 base AND 0xFFFF) :: u16)) OR
     push_bit 32 (ucast (ucast (drop_bit 32 base AND 0xFFFFFFFF) :: u32)) :: u64) n = bit base n"
    by (cases "n < 32"; cases "n < 16") (auto simp: m bit_simps)
qed

lemma set_gates:
  assumes "n \<le> 256"
  shows "fold (\<lambda>i. idt_set_gate (word_of_nat i) (b i) sel fl) [0..<n] idt v =
    (if unat v < n then idt_set_gate v (b (unat v)) sel fl idt v else idt v)"
  using assms
proof (induction n)
  case (Suc n)
  have "(word_of_nat n :: u8) = v \<longleftrightarrow> unat v = n"
    using Suc.prems by (auto simp: unat_of_nat)
  then show ?case using Suc by (auto simp: idt_set_gate_def less_Suc_eq)
qed simp

text \<open>
  After the initialization the first 48 vectors (exceptions and remapped interrupts) lead to their stubs and
  no other vector is present.
\<close>

theorem idt_init_gates:
  "gate_target (fst (idt_init_global isrs idt s) v) = (if v < 48 then Some (isrs (unat v)) else None)"
proof -
  have b: "bit (0x8E :: u8) 7" "\<not> bit (0 :: u8) 7" by simp_all
  have u: "unat v < 256" using unsigned_less [where 'a = nat, of v] by simp
  show ?thesis
    by (simp add: idt_init_global_def Let_def set_gates u word_less_nat_alt)
      (simp add: gate_target_def idt_set_gate_def gate_target_base b)
qed

subsection \<open>The page fault handler\<close>

text \<open>
  \<open>memcpy\<close> of one page between page-aligned virtual addresses of the running address space; \<open>None\<close> when one
  of them is not mapped.
\<close>

definition copy_virtual_page :: "u64 \<Rightarrow> u64 \<Rightarrow> vmm \<Rightarrow> vmm option" where
  "copy_virtual_page dest src v =
     (case (mmu (pmem v) (cr3 v) dest, mmu (pmem v) (cr3 v) src) of
        (Some (d, _), Some (s, _)) \<Rightarrow> Some (v\<lparr>pmem := on_bytes (memcpy d s 4096) (pmem v)\<rparr>)
      | _ \<Rightarrow> None)"

definition cow_fault :: "u64 \<Rightarrow> u64 \<Rightarrow> vmm \<Rightarrow> vmm option" where
  "cow_fault pml4 cr2 v =
     (let flags = vmm_get_flags pml4 cr2 v;
          old_phys = vmm_get_phys pml4 cr2 v AND NOT 0xFFF;
          new_flags = (flags AND NOT PAGE_COW) OR PAGE_WRITABLE
      in if pmm_get_ref old_phys (frames v) > 1 then do {
           let (new_frame, v1) = alloc_frame_ptr v;
           v2 \<leftarrow> copy_virtual_page new_frame (cr2 AND NOT 0xFFF) v1;
           let v3 = vmm_map pml4 (cr2 AND NOT 0xFFF) new_frame new_flags v2;
           Some (v3\<lparr>frames := pmm_free_frame old_phys (frames v3)\<rparr>) }
         else Some (vmm_map pml4 (cr2 AND NOT 0xFFF) old_phys new_flags v))"

text \<open>Fields of \<open>struct interrupt_frame\<close> (packed), behind the 15 saved registers.\<close>

definition frame_int_no :: "pmem \<Rightarrow> u64 \<Rightarrow> u64" where "frame_int_no m f = m (f + 120)"
definition frame_error_code :: "pmem \<Rightarrow> u64 \<Rightarrow> u64" where "frame_error_code m f = m (f + 128)"
definition frame_cs :: "pmem \<Rightarrow> u64 \<Rightarrow> u64" where "frame_cs m f = m (f + 144)"

definition handle_page_fault :: "(u64 \<Rightarrow> 'a ksys_scheme \<Rightarrow> 'a ksys_scheme option) \<Rightarrow> nat \<Rightarrow> u64 \<Rightarrow> u64 \<Rightarrow>
    'a ksys_scheme \<Rightarrow> (u64 \<times> 'a ksys_scheme) option" where
  "handle_page_fault wd c cr2 frame s =
     (if current c s = 0 then Some (frame, s)
      else
        let cur = current c s; pml4 = t_pml4 (tasks s cur); m = pmem (kvm s);
            flags = vmm_get_flags pml4 cr2 (kvm s)
        in if frame_error_code m frame AND 2 \<noteq> 0 \<and> flags AND PAGE_COW \<noteq> 0 then
             do { v \<leftarrow> cow_fault pml4 cr2 (kvm s); Some (frame, s\<lparr>kvm := v\<rparr>) }
           else if frame_cs m frame AND 3 = 3 then
             task_schedule wd c frame (upd_task cur (\<lambda>tk. tk\<lparr>t_state := TASK_EXITED\<rparr>) s)
           else None)"

subsection \<open>Dispatch\<close>

record intr = ksys +
  io :: input
  ticks :: u64
  lapic_base :: u64
  mmio_out :: "(u64 \<times> u32) list"

definition lapic_eoi :: "'a intr_scheme \<Rightarrow> 'a intr_scheme" where
  "lapic_eoi s = s\<lparr>mmio_out := mmio_out s @ [(lapic_base s + 0x00B0, 0)]\<rparr>"

definition pit_handler :: "nat \<Rightarrow> 'a intr_scheme \<Rightarrow> 'a intr_scheme" where
  "pit_handler c s = task_timer_tick c (s\<lparr>ticks := ticks s + 1\<rparr>)"

text \<open>\<open>sh\<close> is \<open>shell_input\<close>. The loop over the characters waiting at the serial port may not end.\<close>

partial_function (option) serial_handler :: "(u8 \<Rightarrow> 'a intr_scheme \<Rightarrow> 'a intr_scheme option) \<Rightarrow>
    'a intr_scheme \<Rightarrow> 'a intr_scheme option" where
  "serial_handler sh s =
     (case port_inb (0x3F8 + 5) (io s) of (lsr, i1) \<Rightarrow>
        if lsr AND 0x01 \<noteq> 0 then
          case port_inb 0x3F8 i1 of (ch, i2) \<Rightarrow>
            do { s1 \<leftarrow> sh ch (s\<lparr>io := i2\<rparr>); serial_handler sh s1 }
        else Some (s\<lparr>io := i1\<rparr>))"

text \<open>The processor halts after the report of an exception in the kernel.\<close>

definition isr_exception :: "(u64 \<Rightarrow> 'a ksys_scheme \<Rightarrow> 'a ksys_scheme option) \<Rightarrow> nat \<Rightarrow> u64 \<Rightarrow> u64 \<Rightarrow>
    'a ksys_scheme \<Rightarrow> (u64 \<times> 'a ksys_scheme) option" where
  "isr_exception wd c cr2 frame s =
     (if frame_int_no (pmem (kvm s)) frame = 14 then handle_page_fault wd c cr2 frame s
      else if frame_cs (pmem (kvm s)) frame AND 3 = 3 \<and> current c s \<noteq> 0 then
        task_schedule wd c frame (upd_task (current c s) (\<lambda>tk. tk\<lparr>t_state := TASK_EXITED\<rparr>) s)
      else None)"

definition isr_irq :: "(u64 \<Rightarrow> 'a intr_scheme \<Rightarrow> 'a intr_scheme option) \<Rightarrow> (u8 \<Rightarrow> 'a intr_scheme \<Rightarrow> 'a intr_scheme option) \<Rightarrow>
    nat \<Rightarrow> u64 \<Rightarrow> 'a intr_scheme \<Rightarrow> (u64 \<times> 'a intr_scheme) option" where
  "isr_irq wd sh c frame s = do {
     let int_no = frame_int_no (pmem (kvm s)) frame;
     let irq = (ucast (int_no - 32) :: u8);
     (rsp1, s1) \<leftarrow>
       (if int_no = 32 then
          let s1 = pit_handler c s in
          if task_needs_schedule c s1 \<noteq> 0 then task_schedule wd c frame s1 else Some (frame, s1)
        else if int_no = 33 then
          (case keyboard_handler (io s) of (ch, i) \<Rightarrow>
             (case ch of None \<Rightarrow> Some (frame, s\<lparr>io := i\<rparr>) | Some b \<Rightarrow> do { s1 \<leftarrow> sh b (s\<lparr>io := i\<rparr>); Some (frame, s1) }))
        else if int_no = 36 then do { s1 \<leftarrow> serial_handler sh s; Some (frame, s1) }
        else if int_no = 44 then Some (frame, s\<lparr>io := mouse_handler (io s)\<rparr>)
        else Some (frame, s));
     Some (rsp1, lapic_eoi (s1\<lparr>io := pic_eoi irq (io s1)\<rparr>)) }"

definition isr_handler :: "(u64 \<Rightarrow> 'a intr_scheme \<Rightarrow> 'a intr_scheme option) \<Rightarrow> (u8 \<Rightarrow> 'a intr_scheme \<Rightarrow> 'a intr_scheme option) \<Rightarrow>
    nat \<Rightarrow> u64 \<Rightarrow> u64 \<Rightarrow> 'a intr_scheme \<Rightarrow> (u64 \<times> 'a intr_scheme) option" where
  "isr_handler wd sh c cr2 frame s =
     (let int_no = frame_int_no (pmem (kvm s)) frame in
      if int_no < 32 then isr_exception wd c cr2 frame s
      else if int_no < 48 then isr_irq wd sh c frame s
      else Some (frame, s))"

subsection \<open>Memory as bytes and as words\<close>

lemma bytes_of_on_bytes: "bytes_of (on_bytes f m) = f (bytes_of m)"
proof
  fix a :: u64
  have l: "unat (a AND 7) < 8" by (simp only: mask_consts(4) unat_low) simp
  have e: "(a AND NOT 7) + word_of_nat (unat (a AND 7)) = a" 
  proof -
    have "word_of_nat (unat x) = x" for x :: u64 by simp
    then show ?thesis by (simp only: mask_consts(4) word_split_low)
  qed
  have "bytes_of (on_bytes f m) a = f (bytes_of m) ((a AND NOT 7) + word_of_nat (unat (a AND 7)))"
    unfolding bytes_of_def [of "on_bytes f m"] unfolding on_bytes_def by (rule byte_read64 [OF l])
  then show "bytes_of (on_bytes f m) a = f (bytes_of m) a" by (simp only: e)
qed

lemma word_bytes_eqI:
  assumes "\<And>k. k < 8 \<Longrightarrow> byte k v = byte k w"
  shows "v = w"
proof (rule bit_word_eqI)
  fix n assume "n < LENGTH(64)"
  then have n: "n div 8 < 8" "n mod 8 < 8" "8 * (n div 8) + n mod 8 = n" by auto
  have "bit (byte (n div 8) v) (n mod 8) = bit (byte (n div 8) w) (n mod 8)" using assms [OF n(1)] by simp
  then show "bit v n = bit w n" using n by (simp add: bit_byte)
qed

text \<open>The page and the word of byte \<open>k\<close> of entry \<open>j\<close> of a page-aligned table.\<close>

lemma ent_byte:
  assumes "aligned t" and "j < 512" and "k < 8"
  shows "(ent t j + word_of_nat k) AND NOT 0xFFF = t" and "(ent t j + word_of_nat k) AND NOT 7 = ent t j"
    and "unat ((ent t j + word_of_nat k) AND 7) = k"
proof -
  have j: "unat j < 512" using assms(2) by (simp add: word_less_nat_alt)
  obtain q where q: "unat t = 4096 * q" using assms(1) by (auto simp: aligned_mod)
  have lt: "unat t < 2 ^ 64" using unsigned_less [where 'a = nat, of t] by simp
  then have "q < 2 ^ 52" using q by simp
  then have le: "unat t + 8 * unat j + k < 2 ^ 64" using q j assms(3) by simp
  have u: "unat (ent t j + word_of_nat k) = 4096 * q + (8 * unat j + k)"
    using le assms(3) unat_ent [OF assms(1,2)] by (simp add: unat_plus_if' unat_of_nat q)
  have d: "(4096 * q + (8 * unat j + k)) div 2 ^ 12 = q" using j assms(3) by simp
  have d8: "4096 * q + (8 * unat j + k) = k + 8 * (512 * q + unat j)" by simp
  have d3: "(k + 8 * x) div 2 ^ 3 = x" "(k + 8 * x) mod 2 ^ 3 = k" for x
    using assms(3) by simp_all
  show "(ent t j + word_of_nat k) AND NOT 0xFFF = t"
    by (rule unat_eq_iff [THEN iffD1]) (simp only: mask_consts(1) unat_high u d q, simp)
  show "(ent t j + word_of_nat k) AND NOT 7 = ent t j"
    by (rule unat_eq_iff [THEN iffD1])
      (simp only: mask_consts(4) unat_high u d8 d3 unat_ent [OF assms(1,2)] q, simp)
  show "unat ((ent t j + word_of_nat k) AND 7) = k" by (simp only: mask_consts(4) unat_low u d8 d3)
qed

lemma bytes_of_ent:
  assumes "aligned t" and "j < 512" and "k < 8"
  shows "bytes_of m (ent t j + word_of_nat k) = byte k (m (ent t j))"
  by (simp only: bytes_of_def ent_byte [OF assms])

lemma on_bytes_ent:
  assumes "aligned t" and "j < 512" and "\<And>a. a AND NOT 0xFFF = t \<Longrightarrow> f (bytes_of m) a = bytes_of m a"
  shows "on_bytes f m (ent t j) = m (ent t j)"
proof (rule word_bytes_eqI)
  fix k :: nat assume k: "k < 8"
  have "byte k (on_bytes f m (ent t j)) = f (bytes_of m) (ent t j + word_of_nat k)"
    by (simp only: on_bytes_def byte_read64 [OF k])
  also have "\<dots> = bytes_of m (ent t j + word_of_nat k)" by (rule assms(3), rule ent_byte [OF assms(1,2) k])
  also have "\<dots> = byte k (m (ent t j))" by (rule bytes_of_ent [OF assms(1,2) k])
  finally show "byte k (on_bytes f m (ent t j)) = byte k (m (ent t j))" .
qed

lemma bytes_of_other_page:
  assumes "aligned t" and "j < 512" and "a AND NOT 0xFFF \<noteq> t"
  shows "bytes_of (m(ent t j := w)) a = bytes_of m a"
proof -
  have "a AND NOT 7 \<noteq> ent t j"
  proof
    assume e: "a AND NOT 7 = ent t j"
    have "a = ent t j + word_of_nat (unat (a AND 7))" using word_split_low [of a 3] e
      by (simp only: mask_consts(4)) simp
    moreover have "unat (a AND 7) < 8" by (simp only: mask_consts(4) unat_low) simp
    ultimately show False using ent_byte(1) [OF assms(1,2)] assms(3) by metis
  qed
  then show ?thesis unfolding bytes_of_def by simp
qed

text \<open>Copying a page between page-aligned addresses.\<close>

lemma aligned_room: "aligned a \<Longrightarrow> unat a + 4096 \<le> 2 ^ 64"
proof -
  assume "aligned a"
  then obtain q where q: "unat a = 4096 * q" by (auto simp: aligned_mod)
  have "unat a < 2 ^ 64" using unsigned_less [where 'a = nat, of a] by simp
  then have "q + 1 \<le> 2 ^ 52" using q by simp
  then show ?thesis using q by simp
qed

lemma in_page: "aligned d \<Longrightarrow> within d 4096 a \<longleftrightarrow> a AND NOT 0xFFF = d"
proof -
  assume "aligned d"
  then obtain q where q: "unat d = 4096 * q" by (auto simp: aligned_mod)
  have h: "unat (a AND NOT 0xFFF) = 4096 * (unat a div 4096)"
    by (simp only: mask_consts(1) unat_high) simp
  have "within d 4096 a \<longleftrightarrow> unat a div 4096 = q"
    by (auto simp: within_def q div_nat_eqI less_mult_imp_div_less)
  also have "\<dots> \<longleftrightarrow> unat (a AND NOT 0xFFF) = unat d" unfolding h q by simp
  finally show ?thesis by (simp only: unat_eq_iff)
qed

lemma copy_page:
  assumes "aligned d" and "aligned s" and "d \<noteq> s"
  shows "memcpy d s 4096 m a = (if a AND NOT 0xFFF = d then m (s + (a - d)) else m a)"
proof -
  have "unat d + 4096 \<le> unat s \<or> unat s + 4096 \<le> unat d"
  proof -
    obtain q where q1: "unat d = 4096 * q" using assms(1) by (auto simp: aligned_mod)
    obtain r where q2: "unat s = 4096 * r" using assms(2) by (auto simp: aligned_mod)
    note q = q1 q2
    have "q \<noteq> r" using q assms(3) by (metis unat_eq_iff)
    then show ?thesis unfolding q by (auto simp: nat_neq_iff)
  qed
  then have f: "forward_safe d s (unat (4096 :: u64))"
    using aligned_room [OF assms(1)] aligned_room [OF assms(2)] by (auto simp: forward_safe_def no_wrap_def)
  show ?thesis
    by (simp only: memcpy_copied [OF f] copied_def) (simp add: in_page [OF assms(1)])
qed

subsection \<open>Copy on write\<close>

lemma page_indices:
  "PML4_INDEX (v AND NOT 0xFFF) = PML4_INDEX v" "PDPT_INDEX (v AND NOT 0xFFF) = PDPT_INDEX v"
  "PD_INDEX (v AND NOT 0xFFF) = PD_INDEX v" "PT_INDEX (v AND NOT 0xFFF) = PT_INDEX v"
  unfolding PML4_INDEX_def PDPT_INDEX_def PD_INDEX_def PT_INDEX_def mask_consts
  by (rule bit_word_eqI, (auto simp: bit_simps)[1])+

lemma page_paths: "pd_path (v AND NOT 0xFFF) = pd_path v" "pt_path (v AND NOT 0xFFF) = pt_path v"
  by (simp_all only: pd_path_def pt_path_def page_indices)

lemma page_huge: "pde_huge m root (v AND NOT 0xFFF) = pde_huge m root v"
  by (simp only: pde_huge_def page_paths page_indices)

text \<open>Mapping a page whose page table exists only writes its entry.\<close>

lemma vmm_map_existing:
  assumes "root \<noteq> 0" and "\<not> pde_huge (pmem s) root v" and "tab (pmem s) root (pt_path v) \<noteq> 0" and "flags AND PAGE_HUGE = 0"
  shows "vmm_map root v phys flags s = s\<lparr>pmem := (pmem s)(ent (tab (pmem s) root (pt_path v)) (PT_INDEX v) :=
    (phys AND NOT 0xFFF) OR flags OR PAGE_PRESENT)\<rparr>"
proof -
  have pd0: "tab (pmem s) root (pd_path v) \<noteq> 0" using tab_suffix [OF pd_suffix assms(3)] .
  have pt: "tab (pmem s) root (pt_path v) = get_existing_table (pmem s) (tab (pmem s) root (pd_path v)) (PD_INDEX v)"
    using pd0 assms(2) by (simp add: walk_pt pde_huge_def)
  show ?thesis
    using walk_pd [OF assms(1), of "pmem s" v] pd0 assms(3,4) pt
    by (auto simp: vmm_map_def ensure_next_table_def Let_def split: if_splits)
qed

text \<open>The leaf entry behind a translation.\<close>

lemma mmu_leaf:
  assumes "\<not> pde_huge m root v" and "mmu m root v = Some (phys, flags)"
  defines "e \<equiv> m (ent (tab m root (pt_path v)) (PT_INDEX v))"
  shows "tab m root (pt_path v) \<noteq> 0" and "e AND PAGE_PRESENT \<noteq> 0" and "phys AND NOT 0xFFF = e AND NOT 0xFFF"
    and "flags = e AND 0xFFF" and "same_page v w \<Longrightarrow> mmu m root w = Some ((phys AND NOT 0xFFF) OR (w AND 0xFFF), flags)"
proof -
  have pd0: "tab m root (pd_path v) \<noteq> 0" using assms(2) by (auto simp: mmu_paths)
  have l: "tab m root (pt_path v) \<noteq> 0 \<and> leaf e 0xFFF v = Some (phys, flags)"
    using assms pd0 by (auto simp: mmu_paths Let_def pde_huge_def split: if_splits)
  then show "tab m root (pt_path v) \<noteq> 0" "e AND PAGE_PRESENT \<noteq> 0" "flags = e AND 0xFFF"
    by (auto simp: leaf_def split: if_splits)
  have "phys = (e AND NOT 0xFFF) OR (v AND 0xFFF)" using l by (auto simp: leaf_def split: if_splits)
  then show p: "phys AND NOT 0xFFF = e AND NOT 0xFFF"
    by (simp only: mask_consts) (rule bit_word_eqI; auto simp: bit_simps)
  show "mmu m root w = Some ((phys AND NOT 0xFFF) OR (w AND 0xFFF), flags)" if "same_page v w"
  proof -
    have q: "pt_path w = pt_path v" "PT_INDEX w = PT_INDEX v" "pd_path w = pd_path v" "PD_INDEX w = PD_INDEX v"
      using that by (auto simp: same_page_def pt_path_Cons)
    have "mmu m root w = leaf e 0xFFF w"
      using assms(1) pd0 l by (auto simp: mmu_paths Let_def pde_huge_def q e_def)
    then show ?thesis using l p by (auto simp: leaf_def split: if_splits)
  qed
qed

text \<open>A permission change of a leaf entry.\<close>

lemma leaf_writable:
  assumes "aligned f" and "fl = (e AND 0xFFF)" and "e AND PAGE_PRESENT \<noteq> 0"
  shows "leaf ((f AND NOT 0xFFF) OR ((fl AND NOT PAGE_COW) OR PAGE_WRITABLE) OR PAGE_PRESENT) 0xFFF w =
    Some (f OR (w AND 0xFFF), (fl AND NOT PAGE_COW) OR PAGE_WRITABLE)"
proof -
  define x where "x = (f AND NOT 0xFFF) OR ((fl AND NOT PAGE_COW) OR PAGE_WRITABLE) OR PAGE_PRESENT"
  have b0: "bit e 0" using assms(3) and_PAGE(1) by blast
  have "bit x 0" by (simp add: x_def bit_simps bit_PAGE)
  then have "x AND PAGE_PRESENT \<noteq> 0" using and_PAGE(1) by blast
  moreover have "x AND NOT 0xFFF = f"
    using assms(1) unfolding x_def assms(2) aligned_bit mask_consts
    by (intro bit_word_eqI) (auto simp: bit_simps bit_PAGE)
  moreover have "x AND 0xFFF = (fl AND NOT PAGE_COW) OR PAGE_WRITABLE"
    using b0 unfolding x_def assms(2) mask_consts by (intro bit_word_eqI) (auto simp: bit_simps bit_PAGE)
  ultimately show ?thesis unfolding x_def [symmetric] by (simp add: leaf_def)
qed

lemma cow_flags_not_huge:
  assumes "flags AND PAGE_HUGE = 0"
  shows "((flags AND NOT PAGE_COW) OR PAGE_WRITABLE) AND PAGE_HUGE = 0"
proof -
  have "\<not> bit flags 7" using assms one_bit_test [of flags 7] by (simp add: PAGE_HUGE_def)
  then have "\<not> bit ((flags AND NOT PAGE_COW) OR PAGE_WRITABLE) 7" by (simp add: bit_simps bit_PAGE)
  then show ?thesis using one_bit_test [of "(flags AND NOT PAGE_COW) OR PAGE_WRITABLE" 7] unfolding PAGE_HUGE_def by blast
qed

lemma frame_no_inj: "aligned a \<Longrightarrow> aligned b \<Longrightarrow> frame_no a = frame_no b \<Longrightarrow> a = b"
proof -
  assume a: "aligned a" "aligned b" "frame_no a = frame_no b"
  then have "unat a div 4096 = unat b div 4096" by (simp add: frame_no_def PAGE_SIZE_def unat_div flip: unat_eq_iff)
  then have "unat a = unat b" using a(1,2) by (metis aligned_mod mult_div_mod_eq add.right_neutral)
  then show "a = b" by (simp only: unat_eq_iff)
qed

text \<open>Copying a page onto a free frame changes no table.\<close>

lemma copy_keeps_tables:
  assumes "aligned root" and "aligned new" and "aligned old" and "new \<noteq> old" and "new \<notin> tables m root"
    and "u \<in> tables m root" and "j < 512"
  shows "on_bytes (memcpy new old 4096) m (ent u j) = m (ent u j)"
  using assms tables_aligned [OF assms(1,6)] by (intro on_bytes_ent) (auto simp: copy_page)

lemma pde_huge_agree:
  assumes "\<And>u j. u \<in> tables m root \<Longrightarrow> j < 512 \<Longrightarrow> m' (ent u j) = m (ent u j)"
  shows "pde_huge m' root v = pde_huge m root v"
  using tab_agree [of m root m', OF assms paths(1) [of v]] assms [OF tab_in_tables [OF paths(1) [of v]]]
  by (auto simp: pde_huge_def)

text \<open>The frames after the split: the new one is taken with count 1, the old one has one reference less.\<close>

lemma split_frames:
  assumes "pmm_inv p" and "free_frames p \<noteq> {}" and "\<forall>a \<in> free_frames p. aligned a \<and> a \<noteq> 0"
    and "aligned old" and "old \<notin> free_frames p" and "pmm_get_ref old p > 1"
  obtains new p1 where "pmm_alloc_frame p = (Some new, p1)" "new \<in> free_frames p" "aligned new" "new \<noteq> 0" "new \<noteq> old"
    "free_frames (pmm_free_frame old p1) = free_frames p - {new}" "pmm_inv (pmm_free_frame old p1)"
    "pmm_get_ref new (pmm_free_frame old p1) = 1" "pmm_get_ref old (pmm_free_frame old p1) = pmm_get_ref old p - 1"
proof -
  have "0 \<le> stack_ptr p" using assms(1,2) stack_list_Nil_iff [of p] by (auto simp: pmm_inv_def free_frames_def)
  then obtain xs new p1 where p1: "stack_list p = xs @ [new]" "pmm_alloc_frame p = (Some new, p1)" "stack_list p1 = xs"
    "ref_counts p1 = (ref_counts p)(unat (frame_no new) := 1)" by (rule pmm_alloc_pop [OF assms(1)])
  have inv: "pmm_inv p1" using pmm_alloc_inv [OF assms(1)] p1(2) by simp
  have new: "new \<in> free_frames p" "aligned new" "new \<noteq> 0" "new \<noteq> old"
    using p1(1) assms(3,5) by (auto simp: free_frames_def)
  have fl: "distinct (map frame_no (xs @ [new]))" "frame_no new < MAX_FRAMES"
    using assms(1) p1(1) by (simp_all add: pmm_inv_def free_listed_def)
  have ne: "frame_no old \<noteq> frame_no new" using frame_no_inj new assms(4) by blast
  then have ne': "unat (frame_no old) \<noteq> unat (frame_no new)" by (simp only: unat_eq_iff not_False_eq_True)
  have lt: "frame_no old < MAX_FRAMES" and gt: "ref_counts p (unat (frame_no old)) > 1"
    using assms(6) by (auto simp: pmm_get_ref_def frame_no_def Let_def split: if_splits)
  have f: "pmm_free_frame old p1 = p1\<lparr>ref_counts := (ref_counts p1)(unat (frame_no old) := ref_counts p1 (unat (frame_no old)) - 1)\<rparr>"
    by (rule pmm_free_shared [OF lt]) (use gt p1(4) ne' in simp)
  show thesis
  proof (rule that [OF p1(2) new])
    show "free_frames (pmm_free_frame old p1) = free_frames p - {new}"
      using fl(1) by (auto simp: f free_frames_def p1(1,3))
    show "pmm_inv (pmm_free_frame old p1)" by (rule pmm_free_inv [OF inv])
    show "pmm_get_ref new (pmm_free_frame old p1) = 1"
      using fl(2) ne' by (simp add: pmm_get_ref_def Let_def f p1(4) flip: frame_no_def)
    show "pmm_get_ref old (pmm_free_frame old p1) = pmm_get_ref old p - 1"
      using lt ne' by (simp add: pmm_get_ref_def Let_def f p1(4) flip: frame_no_def)
  qed
qed

lemma cow_split:
  fixes v :: vmm
  assumes ok: "vm_ok v root" and c3: "cr3 v = root" and tr: "mmu (pmem v) root cr2 = Some (phys, flags)"
    and nh: "flags AND PAGE_HUGE = 0" "\<not> pde_huge (pmem v) root cr2"
    and held: "phys AND NOT 0xFFF \<notin> free_frames (frames v)"
    and shared: "pmm_get_ref (phys AND NOT 0xFFF) (frames v) > 1" and mem: "free_frames (frames v) \<noteq> {}"
    and ident: "\<And>a. a \<in> free_frames (frames v) \<Longrightarrow> \<exists>f. mmu (pmem v) root a = Some (a, f)"
  obtains new v' where "cow_fault root cr2 v = Some v'" "new \<in> free_frames (frames v)" "vm_ok v' root"
    "\<And>w. mmu (pmem v') root w = (if same_page cr2 w then Some (new OR (w AND 0xFFF), (flags AND NOT PAGE_COW) OR PAGE_WRITABLE)
       else mmu (pmem v) root w)"
    "\<And>a. a AND NOT 0xFFF = new \<Longrightarrow> bytes_of (pmem v') a = bytes_of (pmem v) ((phys AND NOT 0xFFF) + (a - new))"
    "\<And>a. a AND NOT 0xFFF \<notin> insert new (tables (pmem v) root) \<Longrightarrow> bytes_of (pmem v') a = bytes_of (pmem v) a"
    "free_frames (frames v') = free_frames (frames v) - {new}" "pmm_get_ref new (frames v') = 1"
    "pmm_get_ref (phys AND NOT 0xFFF) (frames v') = pmm_get_ref (phys AND NOT 0xFFF) (frames v) - 1"
proof -
  define old page where "old = phys AND NOT 0xFFF" and "page = cr2 AND NOT 0xFFF"
  define pt where "pt = tab (pmem v) root (pt_path cr2)"
  define E :: "u64 \<Rightarrow> u64" where "E = (\<lambda>f. (f AND NOT 0xFFF) OR ((flags AND NOT PAGE_COW) OR PAGE_WRITABLE) OR PAGE_PRESENT)"
  note root = vm_okD [OF ok] and lf = mmu_leaf [OF nh(2) tr]
  have al: "aligned old" unfolding old_def by (rule aligned_clear)
  have inv: "pmm_inv (frames v)" and fr: "\<forall>a \<in> free_frames (frames v). aligned a \<and> a \<noteq> 0"
    and dis: "tables (pmem v) root \<inter> free_frames (frames v) = {}" using ok by (auto simp: vm_ok_def)
  obtain new p1 where n: "pmm_alloc_frame (frames v) = (Some new, p1)" "new \<in> free_frames (frames v)" "aligned new" "new \<noteq> 0"
    "new \<noteq> old" "free_frames (pmm_free_frame old p1) = free_frames (frames v) - {new}" "pmm_inv (pmm_free_frame old p1)"
    "pmm_get_ref new (pmm_free_frame old p1) = 1" "pmm_get_ref old (pmm_free_frame old p1) = pmm_get_ref old (frames v) - 1"
    by (rule split_frames [OF inv mem fr al]) (use held shared in \<open>simp_all add: old_def\<close>)
  have nt: "new \<notin> tables (pmem v) root" using n(2) dis by blast
  define m2 where "m2 = on_bytes (memcpy new old 4096) (pmem v)"
  have agree: "m2 (ent u j) = pmem v (ent u j)" if "u \<in> tables (pmem v) root" "j < 512" for u j
    unfolding m2_def by (rule copy_keeps_tables [OF root(3) n(3) al n(5) nt that])
  note ag = mmu_agree [of "pmem v" root m2, OF agree] and tb = tab_agree [of "pmem v" root m2, OF agree]
  have pt2: "tab m2 root (pt_path page) = pt" using tb paths(2) by (simp only: pt_def page_def page_paths)
  have pt0: "pt \<noteq> 0" using lf(1) by (simp add: pt_def)
  have nh2: "\<not> pde_huge m2 root page"
  proof -
    have "pde_huge m2 root cr2 = pde_huge (pmem v) root cr2" by (rule pde_huge_agree) (rule agree)
    then show ?thesis unfolding page_def page_huge using nh(2) by blast
  qed
  have hg: "((flags AND NOT PAGE_COW) OR PAGE_WRITABLE) AND PAGE_HUGE = 0" by (rule cow_flags_not_huge [OF nh(1)])
  define v2 where "v2 = v\<lparr>frames := p1, pmem := m2\<rparr>"
  define m3 where "m3 = m2(ent pt (PT_INDEX cr2) := E new)"
  define v' where "v' = v\<lparr>frames := pmm_free_frame old p1, pmem := m3\<rparr>"
  have idx: "PT_INDEX page = PT_INDEX cr2" by (simp only: page_def page_indices)
  have map: "vmm_map root page new ((flags AND NOT PAGE_COW) OR PAGE_WRITABLE) v2 = v2\<lparr>pmem := m3\<rparr>"
    using vmm_map_existing [of root v2 page "(flags AND NOT PAGE_COW) OR PAGE_WRITABLE" new] root(2) nh2 pt2 pt0 hg
    by (simp add: v2_def m3_def E_def idx)
  have sp: "same_page cr2 w = same_page page w" for w by (simp only: same_page_def page_def page_paths page_indices)
  have "mmu (pmem v) root page = Some (old, flags)"
    using lf(5) [of page] sp [of page] by (simp add: old_def page_def same_page_def ac_simps)
  moreover obtain f where "mmu (pmem v) root new = Some (new, f)" using ident [OF n(2)] by blast
  ultimately have cp: "copy_virtual_page new page (v\<lparr>frames := p1\<rparr>) = Some v2"
    by (simp add: copy_virtual_page_def c3 v2_def m2_def)
  have w: "vmm_get_flags root cr2 v = flags" "vmm_get_phys root cr2 v = phys" using walk_translates [OF root(2) tr] by simp_all
  have r: "cow_fault root cr2 v = Some v'"
    by (simp only: cow_fault_def w Let_def old_def [symmetric] page_def [symmetric] shared [folded old_def] if_True
        alloc_frame_ptr_def n(1) prod.case option.case cp map Option.bind.simps) (simp add: v2_def v'_def)
  have tree: "pt_tree m2 root" using ag(3) root(1) by blast
  have t2: "tab m2 root (pt_path page) \<noteq> 0" using pt2 pt0 by simp
  have m3: "m3 = m2(ent (tab m2 root (pt_path page)) (PT_INDEX page) := E new)"
    by (simp only: m3_def pt2) (simp only: page_def page_indices)
  note wp = write_pte [OF tree t2, of "E new", folded m3]
  have pin: "pt \<in> tables (pmem v) root" unfolding pt_def by (rule tab_in_tables [OF paths(2)]) (use pt0 pt_def in simp)
  then have pal: "aligned pt" by (rule tables_aligned [OF root(3)])
  have b3: "bytes_of m3 a = memcpy new old 4096 (bytes_of (pmem v)) a" if "a AND NOT 0xFFF \<noteq> pt" for a
    using bytes_of_other_page [OF pal index_less(4) that, of m2 cr2 "E new"]
    by (simp add: m3_def m2_def bytes_of_on_bytes)
  have e: "leaf (E new) 0xFFF x = Some (new OR (x AND 0xFFF), (flags AND NOT PAGE_COW) OR PAGE_WRITABLE)" for x
    unfolding E_def by (rule leaf_writable [OF n(3) lf(4) lf(2)])
  show thesis
  proof (rule that [OF r n(2), folded old_def])
    show "vm_ok v' root"
      using wp(1,2) ag(2) dis n(6,7) fr by (auto simp: vm_ok_def v'_def)
    show "mmu (pmem v') root x = (if same_page cr2 x then Some (new OR (x AND 0xFFF), (flags AND NOT PAGE_COW) OR PAGE_WRITABLE)
       else mmu (pmem v) root x)" for x
      using wp(3) [OF nh2, of x] ag(1) [of x] by (simp add: v'_def sp e)
    show "bytes_of (pmem v') a = bytes_of (pmem v) (old + (a - new))" if "a AND NOT 0xFFF = new" for a
      using b3 [of a] that nt pin by (auto simp: v'_def copy_page [OF n(3) al n(5)])
    show "bytes_of (pmem v') a = bytes_of (pmem v) a" if "a AND NOT 0xFFF \<notin> insert new (tables (pmem v) root)" for a
      using b3 [of a] that pin by (auto simp: v'_def copy_page [OF n(3) al n(5)])
  qed (simp_all add: v'_def n(6,8,9))
qed

text \<open>With one reference left, the page is only made writable again.\<close>

lemma cow_last:
  fixes v :: vmm
  assumes ok: "vm_ok v root" and tr: "mmu (pmem v) root cr2 = Some (phys, flags)"
    and nh: "flags AND PAGE_HUGE = 0" "\<not> pde_huge (pmem v) root cr2"
    and last: "\<not> pmm_get_ref (phys AND NOT 0xFFF) (frames v) > 1"
  obtains m where "cow_fault root cr2 v = Some (v\<lparr>pmem := m\<rparr>)" "vm_ok (v\<lparr>pmem := m\<rparr>) root"
    "\<And>w. mmu m root w = (if same_page cr2 w then Some ((phys AND NOT 0xFFF) OR (w AND 0xFFF), (flags AND NOT PAGE_COW) OR PAGE_WRITABLE)
       else mmu (pmem v) root w)"
    "\<And>a. a AND NOT 0xFFF \<notin> tables (pmem v) root \<Longrightarrow> bytes_of m a = bytes_of (pmem v) a"
proof -
  define old page where "old = phys AND NOT 0xFFF" and "page = cr2 AND NOT 0xFFF"
  define pt where "pt = tab (pmem v) root (pt_path cr2)"
  define E :: u64 where "E = (old AND NOT 0xFFF) OR ((flags AND NOT PAGE_COW) OR PAGE_WRITABLE) OR PAGE_PRESENT"
  note root = vm_okD [OF ok] and lf = mmu_leaf [OF nh(2) tr]
  have w: "vmm_get_flags root cr2 v = flags" "vmm_get_phys root cr2 v = phys" using walk_translates [OF root(2) tr] by simp_all
  have hg: "((flags AND NOT PAGE_COW) OR PAGE_WRITABLE) AND PAGE_HUGE = 0" by (rule cow_flags_not_huge [OF nh(1)])
  have pt: "tab (pmem v) root (pt_path page) = pt" by (simp only: pt_def page_def page_paths)
  have nh2: "\<not> pde_huge (pmem v) root page" unfolding page_def page_huge by (rule nh(2))
  define m where "m = (pmem v)(ent (tab (pmem v) root (pt_path page)) (PT_INDEX page) := E)"
  have t0: "tab (pmem v) root (pt_path page) \<noteq> 0" using lf(1) by (simp add: pt pt_def)
  have map: "vmm_map root page old ((flags AND NOT PAGE_COW) OR PAGE_WRITABLE) v = v\<lparr>pmem := m\<rparr>"
    unfolding m_def E_def by (rule vmm_map_existing [OF root(2) nh2 t0 hg])
  have r: "cow_fault root cr2 v = Some (v\<lparr>pmem := m\<rparr>)"
    by (simp only: cow_fault_def w Let_def old_def [symmetric] page_def [symmetric] last [folded old_def] if_False map)
  note wp = write_pte [OF root(1) t0, of E, folded m_def]
  have sp: "same_page cr2 w = same_page page w" for w by (simp only: same_page_def page_def page_paths page_indices)
  have e: "leaf E 0xFFF x = Some (old OR (x AND 0xFFF), (flags AND NOT PAGE_COW) OR PAGE_WRITABLE)" for x
    unfolding E_def by (rule leaf_writable [OF _ lf(4) lf(2)]) (simp only: old_def aligned_clear)
  have pin: "pt \<in> tables (pmem v) root" using tab_in_tables [OF paths(2) t0] by (simp only: pt)
  have pal: "aligned pt" by (rule tables_aligned [OF root(3) pin])
  show thesis
  proof (rule that [OF r, folded old_def])
    show "vm_ok (v\<lparr>pmem := m\<rparr>) root" by (rule vm_ok_mem [OF ok wp(1)]) (simp add: wp(2))
    show "mmu m root x = (if same_page cr2 x then Some (old OR (x AND 0xFFF), (flags AND NOT PAGE_COW) OR PAGE_WRITABLE)
       else mmu (pmem v) root x)" for x using wp(3) [OF nh2, of x] by (simp add: sp e)
    show "bytes_of m a = bytes_of (pmem v) a" if "a AND NOT 0xFFF \<notin> tables (pmem v) root" for a
      unfolding m_def pt by (rule bytes_of_other_page [OF pal index_less(4)]) (use that pin in blast)
  qed
qed

text \<open>
  C26. A write to a copy-on-write page of the running task resumes the task with the page writable and its contents as
  they were. If others still share the frame, the page moves to a fresh frame with one reference and the old frame
  loses one; if not, it stays where it is. No other translation changes, and no memory outside the page tables and
  the new frame, so the other owners still see the old contents.
\<close>

theorem page_fault_cow:
  assumes cur: "current c s \<noteq> 0" "t_pml4 (tasks s (current c s)) = root"
    and vm: "vm_ok (kvm s) root" "cr3 (kvm s) = root" "mmu (pmem (kvm s)) root cr2 = Some (phys, flags)"
    and err: "frame_error_code (pmem (kvm s)) frame AND 2 \<noteq> 0"
    and fl: "flags AND PAGE_COW \<noteq> 0" "flags AND PAGE_HUGE = 0" "\<not> pde_huge (pmem (kvm s)) root cr2"
    and old: "old = phys AND NOT 0xFFF" "old \<notin> free_frames (frames (kvm s))" "old \<notin> tables (pmem (kvm s)) root"
    and multi: "multi \<longleftrightarrow> pmm_get_ref old (frames (kvm s)) > 1"
    and mem: "multi \<longrightarrow> free_frames (frames (kvm s)) \<noteq> {} \<and>
      (\<forall>a \<in> free_frames (frames (kvm s)). \<exists>f. mmu (pmem (kvm s)) root a = Some (a, f))"
  shows "\<exists>v' page. handle_page_fault wd c cr2 frame s = Some (frame, s\<lparr>kvm := v'\<rparr>) \<and> vm_ok v' root \<and>
    (\<forall>w. mmu (pmem v') root w =
       (if same_page cr2 w then Some (page OR (w AND 0xFFF), (flags AND NOT PAGE_COW) OR PAGE_WRITABLE)
        else mmu (pmem (kvm s)) root w)) \<and>
    (\<forall>a. a AND NOT 0xFFF = page \<longrightarrow> bytes_of (pmem v') a = bytes_of (pmem (kvm s)) (old + (a - page))) \<and>
    (\<forall>a. a AND NOT 0xFFF \<notin> insert page (tables (pmem (kvm s)) root) \<longrightarrow> bytes_of (pmem v') a = bytes_of (pmem (kvm s)) a) \<and>
    (if multi then page \<in> free_frames (frames (kvm s)) \<and> free_frames (frames v') = free_frames (frames (kvm s)) - {page} \<and>
       pmm_get_ref page (frames v') = 1 \<and> pmm_get_ref old (frames v') = pmm_get_ref old (frames (kvm s)) - 1
     else page = old \<and> frames v' = frames (kvm s))"
proof -
  note root = vm_okD [OF vm(1)]
  have r: "handle_page_fault wd c cr2 frame s = Some (frame, s\<lparr>kvm := v'\<rparr>)" if "cow_fault root cr2 (kvm s) = Some v'" for v'
    using that cur err fl(1) walk_translates [OF root(2) vm(3)] by (simp add: handle_page_fault_def Let_def)
  show ?thesis
  proof (cases multi)
    case True
    have m: "free_frames (frames (kvm s)) \<noteq> {}" "\<And>a. a \<in> free_frames (frames (kvm s)) \<Longrightarrow> \<exists>f. mmu (pmem (kvm s)) root a = Some (a, f)"
      using mem True by blast+
    note sh = multi [THEN iffD1, OF True, unfolded old(1)]
    show ?thesis
      by (rule cow_split [OF vm fl(2,3) old(2) [unfolded old(1)] sh m, folded old(1)], assumption)
        (use r True in \<open>(intro exI conjI, assumption?, simp_all)\<close>)
  next
    case False
    note nsh = False [unfolded multi old(1)]
    obtain m where m: "cow_fault root cr2 (kvm s) = Some (kvm s\<lparr>pmem := m\<rparr>)" "vm_ok (kvm s\<lparr>pmem := m\<rparr>) root"
      "\<And>w. mmu m root w = (if same_page cr2 w then Some (old OR (w AND 0xFFF), (flags AND NOT PAGE_COW) OR PAGE_WRITABLE)
         else mmu (pmem (kvm s)) root w)"
      "\<And>a. a AND NOT 0xFFF \<notin> tables (pmem (kvm s)) root \<Longrightarrow> bytes_of m a = bytes_of (pmem (kvm s)) a"
      using cow_last [OF vm(1,3) fl(2,3) nsh] unfolding old(1) by metis
    show ?thesis
      using r [OF m(1)] m(2-4) old(3) False by (intro exI [of _ "kvm s\<lparr>pmem := m\<rparr>"] exI [of _ old]) simp
  qed
qed

text \<open>Out of memory, the handler goes on with the null pointer: it copies the page to address 0 and maps frame 0.\<close>

lemma cow_no_memory:
  assumes "pmm_inv (frames v)" and "free_frames (frames v) = {}"
    and "pmm_get_ref (vmm_get_phys root cr2 v AND NOT 0xFFF) (frames v) > 1"
  shows "cow_fault root cr2 v = do {
    v2 \<leftarrow> copy_virtual_page 0 (cr2 AND NOT 0xFFF) v;
    let v3 = vmm_map root (cr2 AND NOT 0xFFF) 0 ((vmm_get_flags root cr2 v AND NOT PAGE_COW) OR PAGE_WRITABLE) v2;
    Some (v3\<lparr>frames := pmm_free_frame (vmm_get_phys root cr2 v AND NOT 0xFFF) (frames v3)\<rparr>) }"
proof -
  have "stack_ptr (frames v) < 0"
    using assms(1,2) stack_list_Nil_iff [of "frames v"] by (simp add: pmm_inv_def free_frames_def)
  then have "alloc_frame_ptr v = (0, v)" by (simp add: alloc_frame_ptr_def op_simps)
  then show ?thesis by (simp only: cow_fault_def Let_def assms(3) if_True prod.case)
qed

subsection \<open>Faults\<close>

text \<open>Marking a running task exited keeps the scheduler's invariant.\<close>

lemma sched_inv_exit:
  assumes inv: "sched_inv s" and c: "c < length (cpus s)" and id: "t_id (tasks s (current c s)) \<noteq> 0"
  defines "s' \<equiv> upd_task (current c s) (\<lambda>tk. tk\<lparr>t_state := TASK_EXITED\<rparr>) s"
  shows "sched_inv s'" and "current j s' = current j s" and "length (cpus s') = length (cpus s)"
    and "t_state (tasks s' (current c s)) = TASK_EXITED" and "t_id (tasks s' t) = t_id (tasks s t)"
    and "heap s' = heap s" and "kvm s' = kvm s"
proof -
  note I = sched_invD [OF inv]
  have cp: "cpus s' = cpus s" and nx: "t_next (tasks s' t) = t_next (tasks s t)" for t by (simp_all add: s'_def upd_task_def)
  note q = queues_tasks [OF I(1), of s', OF cp nx]
  have cur: "current j s' = current j s" "idle j s' = idle j s" for j by (simp_all add: current_def idle_def cp)
  show "current j s' = current j s" "length (cpus s') = length (cpus s)" by (simp_all add: cur cp)
  have st: "t_state (tasks s' t) = (if t = current c s then TASK_EXITED else t_state (tasks s t))"
    and ti: "t_id (tasks s' t) = t_id (tasks s t)" for t by (simp_all add: s'_def upd_task_def)
  show "t_state (tasks s' (current c s)) = TASK_EXITED" "t_id (tasks s' t) = t_id (tasks s t)"
    "heap s' = heap s" "kvm s' = kvm s" using st ti by (simp_all add: s'_def upd_task_def)
  show "sched_inv s'"
    using inv c unfolding sched_inv_def q(2) cur cp st ti
    by (intro conjI) (use q(1) in \<open>auto simp del: set_concat\<close>)
qed


subsection \<open>Witnesses\<close>

text \<open>
  Task \<open>0x300\<close> writes to the page \<open>0x5000\<close>, a copy-on-write page on the frame \<open>0x9000\<close> that has two owners; the
  interrupt frame is at \<open>0x8000\<close> and one frame is free.
\<close>

definition cow_mem :: pmem where "cow_mem = (vm_mem(0x8080 := 3))(0x4028 := 0x9205)"

definition cow_sys :: ksys where
  "cow_sys = (demo1 TASK_RUNNING)\<lparr>kvm := \<lparr>pmem = cow_mem,
     frames = \<lparr>frame_bitmap = (\<lambda>_. 0), free_stack = (\<lambda>_. 0x250000), stack_ptr = 0, ref_counts = (\<lambda>_. 2), total_frames = 10\<rparr>,
     current_pml4 = 0x1000, cr3 = 0x1000\<rparr>\<rparr>"

lemma cow_mem_tree: "pt_tree cow_mem 0x1000" "tables cow_mem 0x1000 \<subseteq> {0x1000, 0x2000, 0x3000, 0x4000}"
proof -
  have t: "pt_tree vm_mem 0x1000" "tables vm_mem 0x1000 \<subseteq> {0x1000, 0x2000, 0x3000, 0x4000}"
    using vm_ex_ok vm_ex_tables by (simp_all add: vm_ok_def vm_ex_mem)
  define m where "m = vm_mem(0x8080 := 3)"
  have "aligned 0x8000" "ent 0x8000 16 = 0x8080" by (simp_all add: aligned_def ent_def)
  then have ne: "ent u j \<noteq> 0x8080" if "u \<in> {0x1000, 0x2000, 0x3000, 0x4000}" "j < 512" for u j
    using ent_eq_iff [of u "0x8000" j 16] that by (auto simp: aligned_def)
  have ag: "m (ent u j) = vm_mem (ent u j)" if "u \<in> tables vm_mem 0x1000" "j < 512" for u j
    using ne [OF _ that(2), of u] that(1) t(2) by (auto simp: m_def)
  have tm: "pt_tree m 0x1000" "tables m 0x1000 = tables vm_mem 0x1000"
    using mmu_agree(2,3) [of vm_mem "0x1000" m] ag t(1) by blast+
  have tb: "tab m 0x1000 (pt_path 0x5000) = 0x4000" by (simp add: m_def vm_eval)
  have c: "cow_mem = m(ent (tab m 0x1000 (pt_path 0x5000)) (PT_INDEX 0x5000) := 0x9205)"
    unfolding tb by (simp add: cow_mem_def m_def ent_def PT_INDEX_def)
  note w = write_pte [OF tm(1), of "0x5000" "0x9205", folded c]
  show "pt_tree cow_mem 0x1000" by (rule w(1)) (simp add: tb)
  have "tables cow_mem 0x1000 = tables m 0x1000" by (rule w(2)) (simp add: tb)
  then show "tables cow_mem 0x1000 \<subseteq> {0x1000, 0x2000, 0x3000, 0x4000}" using t(2) tm(2) by simp
qed

lemma cow_sys_fields:
  "pmem (kvm cow_sys) = cow_mem" "cr3 (kvm cow_sys) = 0x1000" "current 0 cow_sys = 0x300" "t_pml4 (tasks cow_sys 0x300) = 0x1000"
  by (simp_all add: cow_sys_def current_def demo1_def demo_sys_def demo_cpu_def demo_task_def)

lemma cow_sys_frames: "free_frames (frames (kvm cow_sys)) = {0x250000}" "pmm_inv (frames (kvm cow_sys))"
  "pmm_get_ref 0x9000 (frames (kvm cow_sys)) = 2"
  by (simp_all add: cow_sys_def free_frames_def stack_list_def pmm_inv_def free_listed_def frame_no_def PAGE_SIZE_def
      MAX_FRAMES_def bitmap_test_def pmm_get_ref_def Let_def)

lemma cow_sys_ok: "vm_ok (kvm cow_sys) 0x1000"
  using cow_mem_tree cow_sys_frames(2) by (auto simp: vm_ok_def cow_sys_fields cow_sys_frames(1) aligned_def)

theorem page_fault_cow_witness:
  "\<exists>v'. handle_page_fault (\<lambda>_. Some) 0 0x5123 0x8000 cow_sys = Some (0x8000, cow_sys\<lparr>kvm := v'\<rparr>) \<and>
     mmu (pmem v') 0x1000 0x5123 = Some (0x250123, 7) \<and> pmm_get_ref 0x9000 (frames v') = 1"
proof -
  have tr: "mmu cow_mem 0x1000 0x5123 = Some (0x9123, 0x205)" "\<not> pde_huge cow_mem 0x1000 0x5123"
    "mmu cow_mem 0x1000 0x250000 = Some (0x250000, 0x83)" "frame_error_code cow_mem 0x8000 AND 2 \<noteq> 0"
    by (simp_all add: cow_mem_def frame_error_code_def vm_eval)
  have o: "(0x9000 :: u64) = 0x9123 AND NOT 0xFFF" "(0x9000 :: u64) \<notin> tables cow_mem 0x1000"
    using cow_mem_tree(2) by auto
  have f: "(0x205 :: u64) AND PAGE_COW \<noteq> 0" "(0x205 :: u64) AND PAGE_HUGE = 0" "((0x205 :: u64) AND NOT PAGE_COW) OR PAGE_WRITABLE = 7"
    by (simp_all add: PAGE_COW_def PAGE_HUGE_def PAGE_WRITABLE_def)
  have p: "current 0 cow_sys \<noteq> 0" "t_pml4 (tasks cow_sys (current 0 cow_sys)) = 0x1000"
    "mmu (pmem (kvm cow_sys)) 0x1000 0x5123 = Some (0x9123, 0x205)" "\<not> pde_huge (pmem (kvm cow_sys)) 0x1000 0x5123"
    "frame_error_code (pmem (kvm cow_sys)) 0x8000 AND 2 \<noteq> 0" "(0x9000 :: u64) \<notin> free_frames (frames (kvm cow_sys))"
    "(0x9000 :: u64) \<notin> tables (pmem (kvm cow_sys)) 0x1000" "True \<longleftrightarrow> pmm_get_ref 0x9000 (frames (kvm cow_sys)) > 1"
    "True \<longrightarrow> free_frames (frames (kvm cow_sys)) \<noteq> {} \<and>
      (\<forall>a \<in> free_frames (frames (kvm cow_sys)). \<exists>f. mmu (pmem (kvm cow_sys)) 0x1000 a = Some (a, f))"
    using tr o(2) by (simp_all add: cow_sys_fields cow_sys_frames)
  obtain v' page where v: "handle_page_fault (\<lambda>_. Some) 0 0x5123 0x8000 cow_sys = Some (0x8000, cow_sys\<lparr>kvm := v'\<rparr>)"
    "\<forall>w. mmu (pmem v') 0x1000 w = (if same_page 0x5123 w then Some (page OR (w AND 0xFFF), (0x205 AND NOT PAGE_COW) OR PAGE_WRITABLE)
        else mmu (pmem (kvm cow_sys)) 0x1000 w)"
    "page \<in> free_frames (frames (kvm cow_sys))" "pmm_get_ref 0x9000 (frames v') = pmm_get_ref 0x9000 (frames (kvm cow_sys)) - 1"
    using page_fault_cow [OF p(1,2) cow_sys_ok cow_sys_fields(2) p(3,5) f(1,2) p(4) o(1) p(6-9), of "\<lambda>_. Some"]
    unfolding if_True by blast
  moreover have "page = 0x250000" using v(3) cow_sys_frames(1) by simp
  moreover have "mmu (pmem v') 0x1000 0x5123 = Some (page OR (0x5123 AND 0xFFF), 7)"
    using v(2) [rule_format, of "0x5123"] f(3) by (simp add: same_page_def)
  ultimately show ?thesis using cow_sys_frames(3) by auto
qed

text \<open>A general protection fault (13) of user code in task \<open>0x300\<close>.\<close>

definition fault_sys :: intr where
  "fault_sys = ksys.extend ((demo1 TASK_RUNNING)\<lparr>kvm := (kvm (demo1 TASK_RUNNING))\<lparr>pmem := (\<lambda>_. 0)(0x8078 := 13, 0x8090 := 0x23)\<rparr>\<rparr>)
     (intr.fields (demo_input []) 0 0xFEE00000 [])"

lemma fault_sys_fields: "tasks fault_sys = tasks (demo1 TASK_RUNNING)" "cpus fault_sys = cpus (demo1 TASK_RUNNING)"
  "pmem (kvm fault_sys) = (\<lambda>_. 0)(0x8078 := 13, 0x8090 := 0x23)"
  by (simp_all add: fault_sys_def ksys.defs intr.defs demo1_def demo_sys_def)

lemma sched_inv_more:
  assumes "sched_inv s" and "tasks t = tasks s" and "cpus t = cpus s"
  shows "sched_inv t"
proof -
  have q: "queue_of j t = queue_of j s" "current j t = current j s" "idle j t = idle j s" for j
    by (simp_all add: queue_of_def current_def idle_def assms(2,3))
  have "queues t = queues s" by (simp add: queues_def q assms(3))
  then show ?thesis using assms(1) by (simp add: sched_inv_def queues_ok_def q assms(2,3))
qed


end
