(* ===== verification/Acpi.thy ===== *)
theory Acpi
  imports Prelude
begin

text \<open>
  The discovery of processors, \<open>src/kernel/acpi.c\<close>: the search for the root pointer, the walk over the tables to
  the MADT and the list of enabled processors in it. The tables are bytes of physical memory. \<open>None\<close> stands
  for a walk that does not end and for a write behind the array of 64 processor ids.
\<close>

subsection \<open>Tables\<close>

record acpi =
  lapic_addr :: u32
  cpu_ids :: "u8 list"
  acpi_cpu_count :: nat

text \<open>\<open>memcmp\<close> with a constant string.\<close>

fun bytes_match :: "mem \<Rightarrow> u64 \<Rightarrow> u8 list \<Rightarrow> bool" where
  "bytes_match m a [] = True"
| "bytes_match m a (b # bs) = (m a = b \<and> bytes_match m (a + 1) bs)"

definition rsdp_signature :: "u8 list" where "rsdp_signature = map of_char ''RSD PTR ''"
definition madt_signature :: "u8 list" where "madt_signature = map of_char ''APIC''"

definition find_rsdp :: "mem \<Rightarrow> u64 option" where
  "find_rsdp m = find (\<lambda>addr. bytes_match m addr rsdp_signature) (map (\<lambda>i. 0xE0000 + word_of_nat i * 16) [0..<0x2000])"

text \<open>Fields of the packed structures.\<close>

definition rsdp_rsdt_address :: "mem \<Rightarrow> u64 \<Rightarrow> u64" where "rsdp_rsdt_address m p = ucast (read32 m (p + 16))"
definition sdt_length :: "mem \<Rightarrow> u64 \<Rightarrow> u32" where "sdt_length m p = read32 m (p + 4)"
definition madt_lapic_address :: "mem \<Rightarrow> u64 \<Rightarrow> u32" where "madt_lapic_address m p = read32 m (p + 36)"
definition SDT_HEADER_SIZE :: u64 where "SDT_HEADER_SIZE = 36"
definition MADT_SIZE :: u64 where "MADT_SIZE = 44"

subsection \<open>The walk\<close>

definition add_cpu :: "u8 \<Rightarrow> acpi \<Rightarrow> acpi option" where
  "add_cpu apic_id s =
     (if acpi_cpu_count s < length (cpu_ids s)
      then Some (s\<lparr>cpu_ids := (cpu_ids s)[acpi_cpu_count s := apic_id], acpi_cpu_count := acpi_cpu_count s + 1\<rparr>) else None)"

text \<open>One entry: a local APIC (type 0) that is enabled is added.\<close>

definition madt_entry :: "mem \<Rightarrow> u64 \<Rightarrow> acpi \<Rightarrow> acpi option" where
  "madt_entry m p s =
     (if m p = 0 \<and> read32 m (p + 4) AND 1 \<noteq> 0 then add_cpu (m (p + 3)) s else Some s)"

partial_function (option) madt_loop :: "mem \<Rightarrow> u64 \<Rightarrow> u64 \<Rightarrow> acpi \<Rightarrow> acpi option" where
  "madt_loop m entry_ptr end_ptr s =
     (if entry_ptr < end_ptr
      then do { s1 \<leftarrow> madt_entry m entry_ptr s; madt_loop m (entry_ptr + ucast (m (entry_ptr + 1))) end_ptr s1 }
      else Some s)"

definition visit_table :: "mem \<Rightarrow> u64 \<Rightarrow> acpi \<Rightarrow> acpi option" where
  "visit_table m header s =
     (if bytes_match m header madt_signature
      then madt_loop m (header + MADT_SIZE) (header + ucast (sdt_length m header)) (s\<lparr>lapic_addr := madt_lapic_address m header\<rparr>)
      else Some s)"

fun visit_tables :: "mem \<Rightarrow> u64 \<Rightarrow> nat list \<Rightarrow> acpi \<Rightarrow> acpi option" where
  "visit_tables m sdt_ptrs [] s = Some s"
| "visit_tables m sdt_ptrs (i # is) s =
     do { s1 \<leftarrow> visit_table m (ucast (read32 m (sdt_ptrs + 4 * word_of_nat i))) s; visit_tables m sdt_ptrs is s1 }"

text \<open>The number of tables is a 64-bit quotient cut to \<open>int\<close>.\<close>

definition sdt_entries :: "mem \<Rightarrow> u64 \<Rightarrow> int" where
  "sdt_entries m rsdt = sint (ucast ((ucast (sdt_length m rsdt) - SDT_HEADER_SIZE) div 4) :: u32)"

definition acpi_init :: "mem \<Rightarrow> acpi \<Rightarrow> acpi option" where
  "acpi_init m s =
     (case find_rsdp m of
        None \<Rightarrow> Some s
      | Some rsdp \<Rightarrow>
          let rsdt = rsdp_rsdt_address m rsdp
          in visit_tables m (rsdt + SDT_HEADER_SIZE) [0..<nat (sdt_entries m rsdt)] s)"

definition acpi_get_lapic_addr :: "acpi \<Rightarrow> u32" where "acpi_get_lapic_addr s = lapic_addr s"
definition acpi_get_cpu_ids :: "acpi \<Rightarrow> u8 list \<times> nat" where "acpi_get_cpu_ids s = (cpu_ids s, acpi_cpu_count s)"

subsection \<open>Well-formed tables\<close>

text \<open>
  An entry as the standard has it: its own length in the second byte, at least two bytes, eight for a local APIC;
  and the processors a list of entries enables, in order.
\<close>

definition entry_ok :: "u8 list \<Rightarrow> bool" where
  "entry_ok e \<longleftrightarrow> 2 \<le> length e \<and> unat (e ! 1) = length e \<and> (e ! 0 = 0 \<longrightarrow> 8 \<le> length e)"

definition entry_enabled :: "u8 list \<Rightarrow> bool" where
  "entry_enabled e \<longleftrightarrow> e ! 0 = 0 \<and> bit (e ! 4) 0"

definition enabled_ids :: "u8 list list \<Rightarrow> u8 list" where
  "enabled_ids es = map (\<lambda>e. e ! 3) (filter entry_enabled es)"

text \<open>The ids collected so far.\<close>

definition known_ids :: "acpi \<Rightarrow> u8 list" where
  "known_ids s = take (acpi_cpu_count s) (cpu_ids s)"

lemma bytes_match_nth: "bytes_match m a bs \<longleftrightarrow> (\<forall>i < length bs. m (a + word_of_nat i) = bs ! i)"
proof (induction bs arbitrary: a)
  case (Cons b bs)
  have "(\<forall>i < Suc (length bs). m (a + word_of_nat i) = (b # bs) ! i) \<longleftrightarrow>
      m a = b \<and> (\<forall>i < length bs. m (a + 1 + word_of_nat i) = bs ! i)"
    by (auto simp: less_Suc_eq_0_disj ac_simps)
  then show ?case by (simp add: Cons.IH)
qed simp

lemma bytes_match_append: "bytes_match m a (xs @ ys) \<longleftrightarrow> bytes_match m a xs \<and> bytes_match m (a + word_of_nat (length xs)) ys"
  by (induction xs arbitrary: a) (simp_all add: ac_simps)

lemma add_cpu_known:
  assumes "acpi_cpu_count s < length (cpu_ids s)"
  shows "\<exists>s'. add_cpu i s = Some s' \<and> known_ids s' = known_ids s @ [i] \<and> length (cpu_ids s') = length (cpu_ids s) \<and>
    acpi_cpu_count s' = acpi_cpu_count s + 1 \<and> lapic_addr s' = lapic_addr s"
  using assms by (simp add: add_cpu_def known_ids_def take_Suc_conv_app_nth take_update_cancel)

lemma madt_entry_adds:
  assumes e: "entry_ok e" and m: "bytes_match m p e" and room: "entry_enabled e \<Longrightarrow> acpi_cpu_count s < length (cpu_ids s)"
  shows "\<exists>s'. madt_entry m p s = Some s' \<and> known_ids s' = known_ids s @ enabled_ids [e] \<and> length (cpu_ids s') = length (cpu_ids s) \<and>
    acpi_cpu_count s' = acpi_cpu_count s + length (enabled_ids [e]) \<and> lapic_addr s' = lapic_addr s"
proof -
  have byt: "m (p + word_of_nat i) = e ! i" if "i < length e" for i using m that by (simp add: bytes_match_nth)
  have "entry_enabled e \<longleftrightarrow> m p = 0 \<and> read32 m (p + 4) AND 1 \<noteq> 0"
  proof (cases "e ! 0 = 0")
    case True
    then have len: "8 \<le> length e" using e by (simp add: entry_ok_def)
    then have "m p = 0" using True byt [of 0] by (cases e) simp_all
    moreover have "m (p + 4) = e ! 4" using len byt [of 4] by simp
    moreover have "w AND 1 \<noteq> 0 \<longleftrightarrow> bit w 0" for w :: u32 using one_bit_test [of w 0] by simp
    ultimately show ?thesis using True by (simp add: entry_enabled_def read32_def read16_def bit_simps)
  next
    case False
    moreover have "m p = e ! 0" using e byt [of 0] by (cases e) (simp_all add: entry_ok_def)
    ultimately show ?thesis by (simp add: entry_enabled_def)
  qed
  moreover have "m (p + 3) = e ! 3" if "entry_enabled e"
    using that e byt [of 3] by (auto simp: entry_enabled_def entry_ok_def)
  ultimately show ?thesis
    using add_cpu_known [of s "e ! 3"] room by (auto simp: madt_entry_def enabled_ids_def)
qed

lemma madt_loop_walks:
  assumes "list_all entry_ok es" and "bytes_match m p (concat es)" and "unat p + length (concat es) < 2 ^ 64"
    and "acpi_cpu_count s + length (enabled_ids es) \<le> length (cpu_ids s)"
  shows "\<exists>s'. madt_loop m p (p + word_of_nat (length (concat es))) s = Some s' \<and> known_ids s' = known_ids s @ enabled_ids es \<and>
    lapic_addr s' = lapic_addr s"
  using assms
proof (induction es arbitrary: p s)
  case Nil
  then show ?case by (subst madt_loop.simps) (simp add: enabled_ids_def)
next
  case (Cons e es)
  have ok: "entry_ok e" "list_all entry_ok es" using Cons.prems(1) by simp_all
  have mt: "bytes_match m p e" "bytes_match m (p + word_of_nat (length e)) (concat es)"
    using Cons.prems(2) by (simp_all add: bytes_match_append)
  have ei: "enabled_ids (e # es) = enabled_ids [e] @ enabled_ids es" by (simp add: enabled_ids_def)
  have "entry_enabled e \<Longrightarrow> acpi_cpu_count s < length (cpu_ids s)" using Cons.prems(4) by (simp add: enabled_ids_def)
  from madt_entry_adds [OF ok(1) mt(1) this] obtain s1 where s1: "madt_entry m p s = Some s1"
    "known_ids s1 = known_ids s @ enabled_ids [e]" "length (cpu_ids s1) = length (cpu_ids s)"
    "acpi_cpu_count s1 = acpi_cpu_count s + length (enabled_ids [e])" "lapic_addr s1 = lapic_addr s" by blast
  have len: "2 \<le> length e" "unat (e ! 1) = length e" using ok(1) by (simp_all add: entry_ok_def)
  then have "m (p + 1) = e ! 1" using mt(1) by (auto simp: bytes_match_nth dest: spec [of _ 1])
  then have st: "p + ucast (m (p + 1)) = p + word_of_nat (length e)"
    using len(2) by (simp flip: len(2))
  have u: "unat (p + word_of_nat (length e)) = unat p + length e"
    using Cons.prems(3) by (simp add: unat_word_ariths unat_of_nat)
  have lt: "p < p + word_of_nat (length (concat (e # es)))"
  proof -
    have "unat (p + word_of_nat (length (concat (e # es)))) = unat p + length (concat (e # es))"
      using Cons.prems(3) by (simp add: unat_word_ariths unat_of_nat)
    moreover have "e \<noteq> []" using len(1) by auto
    ultimately show ?thesis by (simp only: word_less_nat_alt) simp
  qed
  have step: "madt_loop m p (p + word_of_nat (length (concat (e # es)))) s =
      madt_loop m (p + word_of_nat (length e)) (p + word_of_nat (length e) + word_of_nat (length (concat es))) s1"
    by (subst madt_loop.simps) (use lt s1(1) st in \<open>simp add: ac_simps\<close>)
  show ?case
    unfolding step using Cons.IH [OF ok(2) mt(2), of s1] Cons.prems(3,4) s1 u by (auto simp: ei)
qed

text \<open>An entry of length 0 that lies before the end keeps the walk in place for ever.\<close>

lemma madt_loop_stuck:
  assumes "p < e" and "m (p + 1) = 0"
  shows "madt_loop m p e s = None"
proof (rule ccontr)
  assume "madt_loop m p e s \<noteq> None"
  then obtain r where r: "madt_loop m p e s = Some r" by blast
  have "\<not> (p < e \<and> m (p + 1) = 0)"
  proof (rule madt_loop.raw_induct [of "\<lambda>m p e s r. \<not> (p < e \<and> m (p + 1) = 0)", OF _ r])
    fix f m p e s r
    assume IH: "\<And>m p e s r. f m p e s = Some r \<Longrightarrow> \<not> (p < e \<and> m (p + 1) = 0)"
      and eq: "(if p < e then Option.bind (madt_entry m p s) (\<lambda>s1. f m (p + ucast (m (p + 1))) e s1) else Some s) = Some r"
    show "\<not> (p < e \<and> m (p + 1) = 0)"
    proof
      assume a: "p < e \<and> m (p + 1) = 0"
      then obtain s1 where "f m p e s1 = Some r" using eq by (auto simp: bind_eq_Some_conv)
      then show False using IH a by blast
    qed
  qed
  then show False using assms by blast
qed

subsection \<open>Discovery\<close>

definition table_ptr :: "mem \<Rightarrow> u64 \<Rightarrow> nat \<Rightarrow> u64" where
  "table_ptr m rsdt i = ucast (read32 m (rsdt + SDT_HEADER_SIZE + 4 * word_of_nat i))"

lemma visit_tables_skip:
  assumes "\<forall>i \<in> set xs. \<not> bytes_match m (ucast (read32 m (p + 4 * word_of_nat i))) madt_signature"
  shows "visit_tables m p (xs @ ys) s = visit_tables m p ys s"
  using assms by (induction xs) (simp_all add: visit_table_def)

text \<open>
  With well-formed tables, discovery finds the MADT and collects exactly the ids of the enabled processors, in the
  order of its entries, together with the address of the local APIC. Whatever other tables there are is skipped.
\<close>

theorem acpi_enumerates:
  assumes rsdp: "find_rsdp m = Some r" "rsdp_rsdt_address m r = rsdt"
    and k: "k < nat (sdt_entries m rsdt)" "table_ptr m rsdt k = madt"
    and sig: "\<forall>i < nat (sdt_entries m rsdt). bytes_match m (table_ptr m rsdt i) madt_signature \<longleftrightarrow> i = k"
    and len: "unat (sdt_length m madt) = 44 + length (concat es)"
    and es: "list_all entry_ok es" "bytes_match m (madt + MADT_SIZE) (concat es)"
    and room: "acpi_cpu_count s + length (enabled_ids es) \<le> length (cpu_ids s)"
  shows "\<exists>s'. acpi_init m s = Some s' \<and> known_ids s' = known_ids s @ enabled_ids es \<and>
    acpi_get_lapic_addr s' = madt_lapic_address m madt"
proof -
  define N p where "N = nat (sdt_entries m rsdt)" and "p = rsdt + SDT_HEADER_SIZE"
  have tp: "ucast (read32 m (p + 4 * word_of_nat i)) = table_ptr m rsdt i" for i by (simp add: table_ptr_def p_def)
  have spl: "[0..<N] = [0..<k] @ k # [Suc k..<N]" using k(1) upt_add_eq_append [of 0 k "N - k"]
    by (simp add: N_def upt_conv_Cons)
  have skip: "\<forall>i \<in> set xs. \<not> bytes_match m (ucast (read32 m (p + 4 * word_of_nat i))) madt_signature"
    if "set xs \<subseteq> {..<N} - {k}" for xs using that sig by (auto simp: tp N_def)
  define s0 where "s0 = s\<lparr>lapic_addr := madt_lapic_address m madt\<rparr>"
  have mb: "unat madt < 2 ^ 32" using unsigned_less [where 'a = nat, of "read32 m (rsdt + SDT_HEADER_SIZE + 4 * word_of_nat k)"]
    unfolding k(2) [symmetric] table_ptr_def by (simp add: unsigned_ucast_eq take_bit_nat_eq_self)
  have lb: "44 + length (concat es) < 2 ^ 32" using unsigned_less [where 'a = nat, of "sdt_length m madt"] len by simp
  have mu: "unat (madt + MADT_SIZE) = unat madt + 44" using mb by (simp add: MADT_SIZE_def unat_word_ariths)
  have e: "madt + ucast (sdt_length m madt) = madt + MADT_SIZE + word_of_nat (length (concat es))"
  proof -
    have "ucast (sdt_length m madt) = (word_of_nat (44 + length (concat es)) :: u64)" by (simp flip: len)
    then show ?thesis by (simp add: MADT_SIZE_def)
  qed
  have "unat (madt + MADT_SIZE) + length (concat es) < 2 ^ 64" using mu mb lb by simp
  moreover have "acpi_cpu_count s0 + length (enabled_ids es) \<le> length (cpu_ids s0)" using room by (simp add: s0_def)
  ultimately obtain s' where s': "madt_loop m (madt + MADT_SIZE) (madt + MADT_SIZE + word_of_nat (length (concat es))) s0 = Some s'"
    "known_ids s' = known_ids s0 @ enabled_ids es" "lapic_addr s' = lapic_addr s0"
    using madt_loop_walks [OF es, of s0] by blast
  have v: "visit_table m madt s = Some s'"
  proof -
    have "bytes_match m madt madt_signature" using sig k by blast
    then show ?thesis using s'(1) by (simp add: visit_table_def e s0_def)
  qed
  have "acpi_init m s = visit_tables m p [0..<N] s" by (simp add: acpi_init_def rsdp N_def p_def Let_def)
  also have "\<dots> = visit_tables m p (k # [Suc k..<N]) s" unfolding spl by (rule visit_tables_skip [OF skip]) (use k in \<open>auto simp: N_def\<close>)
  also have "\<dots> = visit_tables m p [Suc k..<N] s'" using v by (simp add: tp k(2))
  also have "\<dots> = Some s'"
  proof -
    have "set [Suc k..<N] \<subseteq> {..<N} - {k}" by auto
    from visit_tables_skip [OF skip [OF this], of "[]" s'] show ?thesis by simp
  qed
  finally show ?thesis using s'(2,3) by (simp add: s0_def known_ids_def acpi_get_lapic_addr_def)
qed

text \<open>
  A machine with one table, the MADT, and three processors of which the second is disabled: \<open>demo_tables\<close> holds the
  root pointer at \<open>0xE0000\<close>, the RSDT at \<open>0x1000\<close> and the MADT at \<open>0x2000\<close>.
\<close>

definition demo_entries :: "u8 list list" where
  "demo_entries = [[0, 8, 0, 0, 1, 0, 0, 0], [0, 8, 1, 1, 0, 0, 0, 0], [1, 4, 9, 9], [0, 8, 2, 7, 1, 0, 0, 0]]"

definition demo_tables :: mem where
  "demo_tables a =
     (let bs = (if a < 0x2000 then replicate 4 0 @ [40, 0, 0, 0] @ replicate 28 0 @ [0, 0x20, 0, 0]
                else if a < 0x3000 then madt_signature @ [72, 0, 0, 0] @ replicate 28 0 @ [0, 0, 0xE0, 0xFE] @ replicate 4 0 @ concat demo_entries
                else rsdp_signature @ replicate 8 0 @ [0, 0x10, 0, 0]);
          i = unat (a - (if a < 0x2000 then 0x1000 else if a < 0x3000 then 0x2000 else 0xE0000))
      in if i < length bs then bs ! i else 0)"

lemmas demo_eval = demo_tables_def demo_entries_def madt_signature_def rsdp_signature_def read32_def read16_def Let_def
  SDT_HEADER_SIZE_def MADT_SIZE_def nth_append

theorem acpi_enumerates_witness:
  "\<exists>s'. acpi_init demo_tables \<lparr>lapic_addr = 0, cpu_ids = replicate 64 0, acpi_cpu_count = 0\<rparr> = Some s' \<and>
     known_ids s' = [0, 7] \<and> acpi_get_lapic_addr s' = 0xFEE00000"
proof -
  have m: "bytes_match demo_tables 0xE0000 rsdp_signature" by (simp add: demo_eval)
  have "find_rsdp demo_tables = Some 0xE0000"
    unfolding find_rsdp_def by (subst upt_conv_Cons) (simp_all add: m)
  moreover have "rsdp_rsdt_address demo_tables 0xE0000 = 0x1000" by (simp add: rsdp_rsdt_address_def demo_eval)
  moreover have n: "nat (sdt_entries demo_tables 0x1000) = 1" by (simp add: sdt_entries_def sdt_length_def demo_eval)
  moreover have t: "table_ptr demo_tables 0x1000 0 = 0x2000" by (simp add: table_ptr_def demo_eval)
  moreover have sg: "bytes_match demo_tables 0x2000 madt_signature" by (simp add: demo_eval)
  moreover have "unat (sdt_length demo_tables 0x2000) = 44 + length (concat demo_entries)" by (simp add: sdt_length_def demo_eval)
  moreover have "list_all entry_ok demo_entries" by (simp add: demo_entries_def entry_ok_def)
  moreover have "bytes_match demo_tables (0x2000 + MADT_SIZE) (concat demo_entries)" by (simp add: demo_eval)
  moreover have i: "enabled_ids demo_entries = [0, 7]" by (simp add: demo_entries_def enabled_ids_def entry_enabled_def)
  moreover have "madt_lapic_address demo_tables 0x2000 = 0xFEE00000" by (simp add: madt_lapic_address_def demo_eval)
  ultimately show ?thesis
    using acpi_enumerates [of demo_tables "0xE0000" "0x1000" 0 "0x2000" demo_entries
      "\<lparr>lapic_addr = 0, cpu_ids = replicate 64 0, acpi_cpu_count = 0\<rparr>"]
    by (simp add: known_ids_def)
qed

end
