(* ===== verification/Platform.thy ===== *)
theory Platform
  imports E1000 Vmm
begin

text \<open>
  Hardware set-up: segment descriptors (\<open>src/kernel/gdt.c\<close>), the PCI configuration space and its enumeration
  (\<open>src/kernel/pci.c\<close>) and the initialization of the network card (\<open>e1000_init\<close> of \<open>src/kernel/e1000.c\<close>).
\<close>

subsection \<open>Segment descriptors\<close>

record gdt_entry =
  limit_low :: u16
  base_low :: u16
  base_middle :: u8
  access :: u8
  granularity :: u8
  base_high :: u8

record gdt_tss_entry = gdt_entry +
  base_higher :: u32
  tss_reserved :: u32

definition gdt_set_entry :: "nat \<Rightarrow> u32 \<Rightarrow> u32 \<Rightarrow> u8 \<Rightarrow> u8 \<Rightarrow> gdt_entry list \<Rightarrow> gdt_entry list" where
  "gdt_set_entry i base limit acc gran gdt =
     gdt[i := \<lparr>limit_low = ucast (limit AND 0xFFFF), base_low = ucast (base AND 0xFFFF),
       base_middle = ucast (drop_bit 16 base AND 0xFF), access = acc,
       granularity = ucast (drop_bit 16 limit AND 0x0F) OR (gran AND 0xF0), base_high = ucast (drop_bit 24 base AND 0xFF)\<rparr>]"

definition gdt_set_tss :: "u64 \<Rightarrow> u32 \<Rightarrow> gdt_tss_entry" where
  "gdt_set_tss base limit =
     \<lparr>limit_low = ucast (limit AND 0xFFFF), base_low = ucast (base AND 0xFFFF), base_middle = ucast (drop_bit 16 base AND 0xFF),
      access = 0x89, granularity = ucast (drop_bit 16 limit AND 0x0F), base_high = ucast (drop_bit 24 base AND 0xFF),
      base_higher = ucast (drop_bit 32 base AND 0xFFFFFFFF), tss_reserved = 0\<rparr>"

text \<open>The table of a CPU whose task state segment lies at \<open>tss\<close> and has 104 bytes.\<close>

definition gdt_init :: "u64 \<Rightarrow> gdt_entry list \<Rightarrow> gdt_entry list \<times> gdt_tss_entry" where
  "gdt_init tss gdt =
     (gdt_set_entry 4 0 0xFFFFFFFF 0xFA 0xAF (gdt_set_entry 3 0 0xFFFFFFFF 0xF2 0xAF (gdt_set_entry 2 0 0xFFFFFFFF 0x92 0xAF
        (gdt_set_entry 1 0 0xFFFFFFFF 0x9A 0xAF (gdt_set_entry 0 0 0 0 0 gdt)))),
      gdt_set_tss tss (104 - 1))"

text \<open>What the processor reads from a descriptor.\<close>

definition seg_limit :: "'a gdt_entry_scheme \<Rightarrow> u32" where
  "seg_limit e = ucast (limit_low e) OR push_bit 16 (ucast (granularity e AND 0x0F))"

definition tss_base :: "gdt_tss_entry \<Rightarrow> u64" where
  "tss_base e = ucast (base_low e) OR push_bit 16 (ucast (base_middle e)) OR push_bit 24 (ucast (base_high e)) OR
     push_bit 32 (ucast (base_higher e))"

lemma tss_base_roundtrip: "tss_base (gdt_set_tss base limit) = base"
proof (rule bit_word_eqI)
  have m: "(0xFFFF :: u64) = mask 16" "(0xFFFFFFFF :: u64) = mask 32" "(0xFF :: u64) = mask 8" by (simp_all add: mask_eq_exp_minus_1)
  fix n assume "n < LENGTH(64)"
  then show "bit (tss_base (gdt_set_tss base limit)) n = bit base n"
    by (cases "n < 32"; cases "n < 24"; cases "n < 16") (auto simp: tss_base_def gdt_set_tss_def m bit_simps)
qed

lemma tss_limit: "limit < 0x100000 \<Longrightarrow> seg_limit (gdt_set_tss base limit) = limit"
proof (rule bit_word_eqI)
  assume l: "limit < 0x100000"
  have m: "(0xFFFF :: u32) = mask 16" "(0x0F :: u32) = mask 4" "(0x0F :: u8) = mask 4" by (simp_all add: mask_eq_exp_minus_1)
  have "take_bit 20 limit = limit"
  proof -
    have "unat limit < 2 ^ 20" using l by (simp add: word_less_nat_alt)
    then have "unat (take_bit 20 limit) = unat limit" by (simp add: unsigned_take_bit_eq take_bit_nat_eq_self)
    then show ?thesis by (simp only: unat_eq_iff)
  qed
  then have hi: "\<not> bit limit n" if "20 \<le> n" for n using that by (metis bit_take_bit_iff not_less)
  fix n assume "n < LENGTH(32)"
  then show "bit (seg_limit (gdt_set_tss base limit)) n = bit limit n"
    using hi [of n] by (cases "n < 16"; cases "n < 20") (auto simp: seg_limit_def gdt_set_tss_def m bit_simps)
qed

subsection \<open>PCI configuration space\<close>

text \<open>
  The configuration space is behind an address and a data port: \<open>cfg_space\<close> is what the machine answers for
  an address. \<open>found\<close> are the reports of the enumeration. The registers of the card are read from \<open>reg_tape\<close>.
\<close>

record pcisys = nic +
  pvm :: vmm
  cfg_address :: u32
  cfg_space :: "u32 \<Rightarrow> u32"
  found :: "(u16 \<times> u16 \<times> u8 \<times> u8) list"
  reg_tape :: "u16 \<Rightarrow> nat \<Rightarrow> u32"
  reg_pos :: "u16 \<Rightarrow> nat"
  rx_ring :: u64
  tx_ring :: u64
  rx_buffers :: u64
  tx_buffers :: u64

definition pci_address :: "u8 \<Rightarrow> u8 \<Rightarrow> u8 \<Rightarrow> u8 \<Rightarrow> u32" where
  "pci_address bus slot func offset =
     push_bit 16 (ucast bus) OR push_bit 11 (ucast slot) OR push_bit 8 (ucast func) OR ucast (offset AND 0xFC) OR 0x80000000"

definition pci_config_read :: "u8 \<Rightarrow> u8 \<Rightarrow> u8 \<Rightarrow> u8 \<Rightarrow> 'a pcisys_scheme \<Rightarrow> u32 \<times> 'a pcisys_scheme" where
  "pci_config_read bus slot func offset s =
     (let a = pci_address bus slot func offset in (cfg_space s a, s\<lparr>cfg_address := a\<rparr>))"

definition pci_config_write :: "u8 \<Rightarrow> u8 \<Rightarrow> u8 \<Rightarrow> u8 \<Rightarrow> u32 \<Rightarrow> 'a pcisys_scheme \<Rightarrow> 'a pcisys_scheme" where
  "pci_config_write bus slot func offset v s =
     (let a = pci_address bus slot func offset in s\<lparr>cfg_address := a, cfg_space := (cfg_space s)(a := v)\<rparr>)"

text \<open>The fields of an address come back out of it.\<close>

lemma pci_address_fields:
  fixes bus slot func offset :: u8
  assumes "slot < 32" and "func < 8"
  defines "a \<equiv> pci_address bus slot func offset"
  shows "ucast (drop_bit 16 a) = bus" and "ucast (drop_bit 11 a) AND 0x1F = slot" and "ucast (drop_bit 8 a) AND 7 = func"
    and "ucast a AND 0xFC = offset AND 0xFC"
proof -
  have m: "(0x1F :: u8) = mask 5" "(7 :: u8) = mask 3" by (simp_all add: mask_eq_exp_minus_1)
  define T :: u32 where "T = 0x80000000"
  have a: "a = push_bit 16 (ucast bus) OR push_bit 11 (ucast slot) OR push_bit 8 (ucast func) OR ucast (offset AND 0xFC) OR T"
    by (simp only: a_def pci_address_def T_def)
  have top: "bit T n \<longleftrightarrow> n = 31" for n
  proof -
    have w: "bit (push_bit k (1 :: u32)) n \<longleftrightarrow> n = k" if "k < 32" for k using that by (auto simp: bit_simps)
    have "(0x80000000 :: u32) = push_bit 31 1" by simp
    then show ?thesis using w [of 31] by (simp add: T_def)
  qed
  have s: "\<not> bit slot n" if "5 \<le> n" for n
  proof -
    have "unat slot < 2 ^ 5" using assms(1) by (simp add: word_less_nat_alt)
    then have "unat (take_bit 5 slot) = unat slot" by (simp add: unsigned_take_bit_eq take_bit_nat_eq_self)
    then have "take_bit 5 slot = slot" by (simp only: unat_eq_iff)
    then show ?thesis using that by (metis bit_take_bit_iff not_less)
  qed
  have f: "\<not> bit func n" if "3 \<le> n" for n
  proof -
    have "unat func < 2 ^ 3" using assms(2) by (simp add: word_less_nat_alt)
    then have "unat (take_bit 3 func) = unat func" by (simp add: unsigned_take_bit_eq take_bit_nat_eq_self)
    then have "take_bit 3 func = func" by (simp only: unat_eq_iff)
    then show ?thesis using that by (metis bit_take_bit_iff not_less)
  qed
  have sf: "bit slot n \<Longrightarrow> n < 5" "bit func n \<Longrightarrow> n < 3" for n using s f not_le by blast+
  have o: "\<not> bit (ucast w :: u32) n" if "8 \<le> n" for n and w :: u8
    using that bit_imp_le_length [of w n] by (auto simp: bit_simps)
  show "ucast (drop_bit 16 a) = bus"
    by (rule bit_word_eqI) (auto simp: a bit_simps top s f)
  show "ucast (drop_bit 11 a) AND 0x1F = slot"
    by (rule bit_word_eqI) (auto simp: a bit_simps top s f m dest: sf)
  show "ucast (drop_bit 8 a) AND 7 = func"
    by (rule bit_word_eqI) (auto simp: a bit_simps top s f m dest: sf)
  show "ucast a AND 0xFC = offset AND 0xFC"
    by (rule bit_word_eqI) (auto simp: a bit_simps top s f)
qed

subsection \<open>The network card\<close>

definition REG_CTRL :: u16 where "REG_CTRL = 0x0000"
definition REG_RCTL :: u16 where "REG_RCTL = 0x0100"
definition REG_TCTL :: u16 where "REG_TCTL = 0x0400"
definition REG_TIPG :: u16 where "REG_TIPG = 0x0410"
definition REG_RDBAL :: u16 where "REG_RDBAL = 0x2800"
definition REG_RDBAH :: u16 where "REG_RDBAH = 0x2804"
definition REG_RDLEN :: u16 where "REG_RDLEN = 0x2808"
definition REG_RDH :: u16 where "REG_RDH = 0x2810"
definition REG_TDBAL :: u16 where "REG_TDBAL = 0x3800"
definition REG_TDBAH :: u16 where "REG_TDBAH = 0x3804"
definition REG_TDLEN :: u16 where "REG_TDLEN = 0x3808"
definition REG_TDH :: u16 where "REG_TDH = 0x3810"
definition REG_MTA :: u16 where "REG_MTA = 0x5200"
definition REG_RAL :: u16 where "REG_RAL = 0x5400"
definition REG_RAH :: u16 where "REG_RAH = 0x5404"
definition CTRL_RST :: u32 where "CTRL_RST = push_bit 26 1"
definition CTRL_SLU :: u32 where "CTRL_SLU = push_bit 6 1"
definition CTRL_ASDE :: u32 where "CTRL_ASDE = push_bit 5 1"
definition RCTL_EN :: u32 where "RCTL_EN = push_bit 1 1"
definition RCTL_SBP :: u32 where "RCTL_SBP = push_bit 2 1"
definition RCTL_UPE :: u32 where "RCTL_UPE = push_bit 3 1"
definition RCTL_MPE :: u32 where "RCTL_MPE = push_bit 4 1"
definition RCTL_BAM :: u32 where "RCTL_BAM = push_bit 15 1"
definition RCTL_BSIZE_2048 :: u32 where "RCTL_BSIZE_2048 = push_bit 16 0"
definition RCTL_SECRC :: u32 where "RCTL_SECRC = push_bit 26 1"
definition TCTL_EN :: u32 where "TCTL_EN = push_bit 1 1"
definition TCTL_PSP :: u32 where "TCTL_PSP = push_bit 3 1"
definition TCTL_CT :: u32 where "TCTL_CT = push_bit 4 0x10"
definition TCTL_COLD :: u32 where "TCTL_COLD = push_bit 12 0x40"
definition E1000_VENDOR_ID :: u16 where "E1000_VENDOR_ID = 0x8086"
definition E1000_DEVICE_ID :: u16 where "E1000_DEVICE_ID = 0x100E"

text \<open>Sizes of the packed descriptors.\<close>

definition RX_DESC_SIZE :: u64 where "RX_DESC_SIZE = 14"
definition TX_DESC_SIZE :: u64 where "TX_DESC_SIZE = 16"

definition read_reg :: "u16 \<Rightarrow> 'a pcisys_scheme \<Rightarrow> u32 \<times> 'a pcisys_scheme" where
  "read_reg r s = (reg_tape s r (reg_pos s r), s\<lparr>reg_pos := (reg_pos s)(r := reg_pos s r + 1)\<rparr>)"

definition align16 :: "u64 \<Rightarrow> u64" where "align16 p = (p + 15) AND NOT 15"

definition nic_alloc :: "u64 \<Rightarrow> 'a nic_scheme \<Rightarrow> (u64 \<times> 'a nic_scheme) option" where
  "nic_alloc n s = do { (p, h) \<leftarrow> kmalloc n (nheap s); Some (p, s\<lparr>nheap := h\<rparr>) }"

definition map_mmio :: "u64 \<Rightarrow> vmm \<Rightarrow> vmm" where
  "map_mmio phys_addr v =
     fold (\<lambda>i v. vmm_map (cr3 v) (phys_addr + 4096 * word_of_nat i) (phys_addr + 4096 * word_of_nat i)
       (PAGE_WRITABLE OR PAGE_PRESENT OR 8 OR 16) v) [0..<32] v"

text \<open>The registers written once a ring is in memory, in the order of the writes.\<close>

definition rx_settings :: "u64 \<Rightarrow> (u16 \<times> u32) list" where
  "rx_settings ring =
     [(REG_RDBAL, ucast (ring AND 0xFFFFFFFF)), (REG_RDBAH, ucast (drop_bit 32 ring)),
      (REG_RDLEN, ucast (RX_DESC_SIZE * ucast NUM_RX_DESCS)), (REG_RDH, 0), (REG_RDT, ucast (NUM_RX_DESCS - 1)),
      (REG_RCTL, RCTL_EN OR RCTL_SBP OR RCTL_UPE OR RCTL_MPE OR RCTL_BAM OR RCTL_SECRC OR RCTL_BSIZE_2048)]"

definition tx_settings :: "u64 \<Rightarrow> (u16 \<times> u32) list" where
  "tx_settings ring =
     [(REG_TDBAL, ucast (ring AND 0xFFFFFFFF)), (REG_TDBAH, ucast (drop_bit 32 ring)),
      (REG_TDLEN, ucast (TX_DESC_SIZE * ucast NUM_TX_DESCS)), (REG_TDH, 0), (REG_TDT, 0), (REG_TIPG, 0x0060200A),
      (REG_TCTL, TCTL_EN OR TCTL_PSP OR TCTL_CT OR TCTL_COLD)]"

definition setup_receive :: "'a pcisys_scheme \<Rightarrow> 'a pcisys_scheme option" where
  "setup_receive s = do {
     (p, s1) \<leftarrow> nic_alloc (RX_DESC_SIZE * ucast NUM_RX_DESCS + 16) s;
     (q, s2) \<leftarrow> nic_alloc (ucast NUM_RX_DESCS * 2048 + 16) s1;
     let s3 = s2\<lparr>rx_ring := align16 p, rx_buffers := align16 q,
           rx_descs := (\<lambda>i. if i < unat NUM_RX_DESCS then \<lparr>rx_addr = align16 q + word_of_nat i * 2048, rx_length = 0, rx_status = 0\<rparr>
                            else rx_descs s2 i)\<rparr>;
     Some (fold (\<lambda>(r, v). write_reg r v) (rx_settings (rx_ring s3)) s3) }"

definition setup_transmit :: "'a pcisys_scheme \<Rightarrow> 'a pcisys_scheme option" where
  "setup_transmit s = do {
     (p, s1) \<leftarrow> nic_alloc (TX_DESC_SIZE * ucast NUM_TX_DESCS + 16) s;
     (q, s2) \<leftarrow> nic_alloc (ucast NUM_TX_DESCS * 2048 + 16) s1;
     let s3 = s2\<lparr>tx_ring := align16 p, tx_buffers := align16 q,
           tx_descs := (\<lambda>i. if i < unat NUM_TX_DESCS
              then \<lparr>tx_addr = align16 q + word_of_nat i * 2048, tx_length = 0, tx_cmd = 0, tx_status = 0\<rparr> else tx_descs s2 i)\<rparr>;
     Some (fold (\<lambda>(r, v). write_reg r v) (tx_settings (tx_ring s3)) s3) }"

definition e1000_init :: "u8 \<Rightarrow> u8 \<Rightarrow> u8 \<Rightarrow> 'a pcisys_scheme \<Rightarrow> 'a pcisys_scheme option" where
  "e1000_init bus slot func s = do {
     let (bar0, s1) = pci_config_read bus slot func 0x10 s;
     let phys_addr = (ucast (bar0 AND NOT 0xF) :: u64);
     let s2 = s1\<lparr>pvm := map_mmio phys_addr (pvm s1), mmio_base := phys_addr\<rparr>;
     let (command, s3) = pci_config_read bus slot func 0x04 s2;
     let s4 = pci_config_write bus slot func 0x04 (command OR push_bit 2 1 OR push_bit 1 1) s3;
     let (ctrl, s5) = read_reg REG_CTRL s4;
     let s6 = write_reg REG_CTRL (ctrl OR CTRL_RST) s5;
     let (ctrl1, s7) = read_reg REG_CTRL s6;
     let s8 = write_reg REG_CTRL (ctrl1 OR CTRL_SLU OR CTRL_ASDE) s7;
     let s9 = fold (\<lambda>i. write_reg (REG_MTA + word_of_nat (i * 4)) 0) [0..<128] s8;
     let (low, s10) = read_reg REG_RAL s9;
     let (high, s11) = read_reg REG_RAH s10;
     s12 \<leftarrow> setup_receive (e1000_read_mac low high s11);
     setup_transmit s12 }"

text \<open>Bus enumeration; the reports of the log are kept in \<open>found\<close>.\<close>

definition pci_class :: "u32 \<Rightarrow> u8 \<times> u8" where
  "pci_class reg8 = (ucast (drop_bit 24 reg8), ucast (drop_bit 16 reg8))"

definition pci_check_function :: "u8 \<Rightarrow> u8 \<Rightarrow> u8 \<Rightarrow> 'a pcisys_scheme \<Rightarrow> 'a pcisys_scheme" where
  "pci_check_function bus device function s =
     (let (reg0, s1) = pci_config_read bus device function 0 s in
      if (ucast (reg0 AND 0xFFFF) :: u16) \<noteq> 0xFFFF then
        let (reg8, s2) = pci_config_read bus device function 8 s1
        in s2\<lparr>found := found s2 @ [(ucast (reg0 AND 0xFFFF), ucast (drop_bit 16 reg0), pci_class reg8)]\<rparr>
      else s1)"

definition pci_check_device :: "u8 \<Rightarrow> u8 \<Rightarrow> 'a pcisys_scheme \<Rightarrow> 'a pcisys_scheme option" where
  "pci_check_device bus device s =
     (let (reg0, s1) = pci_config_read bus device 0 0 s; vendor_id = (ucast (reg0 AND 0xFFFF) :: u16) in
      if vendor_id = 0xFFFF then Some s1
      else do {
        let device_id = (ucast (drop_bit 16 reg0) :: u16);
        let (reg8, s2) = pci_config_read bus device 0 8 s1;
        let s3 = s2\<lparr>found := found s2 @ [(vendor_id, device_id, pci_class reg8)]\<rparr>;
        s4 \<leftarrow> (if vendor_id = E1000_VENDOR_ID \<and> device_id = E1000_DEVICE_ID then e1000_init bus device 0 s3 else Some s3);
        let (reg12, s5) = pci_config_read bus device 0 0x0C s4;
        let header_type = (ucast (drop_bit 16 reg12) :: u8);
        Some (if header_type AND 0x80 \<noteq> 0 then fold (\<lambda>f. pci_check_function bus device (word_of_nat f)) [1..<8] s5 else s5) })"

fun pci_scan :: "(nat \<times> nat) list \<Rightarrow> 'a pcisys_scheme \<Rightarrow> 'a pcisys_scheme option" where
  "pci_scan [] s = Some s"
| "pci_scan ((bus, device) # xs) s =
     do { s1 \<leftarrow> pci_check_device (word_of_nat bus) (word_of_nat device) s; pci_scan xs s1 }"

definition pci_init :: "'a pcisys_scheme \<Rightarrow> 'a pcisys_scheme option" where
  "pci_init s = pci_scan (List.product [0..<256] [0..<32]) s"

subsection \<open>The rings of the card\<close>

text \<open>The value a register was last given, and an area inside a live block of the heap.\<close>

definition reg_value :: "u16 \<Rightarrow> 'a nic_scheme \<Rightarrow> u32 option" where
  "reg_value r s = map_of (rev (regs s)) r"

definition within_block :: "nat \<times> nat \<Rightarrow> u64 \<Rightarrow> nat \<Rightarrow> bool" where
  "within_block b a n \<longleftrightarrow> fst b \<le> unat a \<and> unat a + n \<le> fst b + snd b"

lemma align16_bounds:
  assumes "unat p + 15 < 2 ^ 64"
  shows "16 dvd unat (align16 p)" and "unat p \<le> unat (align16 p)" and "unat (align16 p) \<le> unat p + 15"
proof -
  have m: "(15 :: u64) = mask 4" by (simp add: mask_eq_exp_minus_1)
  have "unat (p + mask 4) = unat p + 15"
    using assms unat_add_lem [of p "mask 4"] by (simp add: mask_eq_exp_minus_1)
  then have a: "unat (align16 p) = (unat p + 15) div 16 * 16"
    unfolding align16_def m unat_high by simp
  show "16 dvd unat (align16 p)" unfolding a by simp
  show "unat p \<le> unat (align16 p)" "unat (align16 p) \<le> unat p + 15" unfolding a by presburger+
qed

lemma nic_alloc_room:
  assumes inv: "heap_inv (nheap s)" and room: "has_room (k + unat (align8 n) + 24) (nheap s)" and k: "8 \<le> k"
  obtains p j h where "nic_alloc n s = Some (p, s\<lparr>nheap := h\<rparr>)" "heap_inv h" "has_room k h"
    "(unat p, j) \<notin> live (nheap s)" "live h = insert (unat p, j) (live (nheap s))" "unat (align8 n) \<le> j" "unat p + j \<le> 0x2000000"
proof -
  from inv room k obtain p j h where h: "kmalloc n (nheap s) = Some (p, h)" "p \<noteq> 0" "heap_inv h" "has_room k h"
      "(unat p, j) \<notin> live (nheap s)" "live h = insert (unat p, j) (live (nheap s))"
    by (rule kmalloc_room)
  from inv h(1) show thesis
  proof (cases rule: kmalloc_cases)
    case full
    then show thesis using h(2) by simp
  next
    case (granted a i us vs)
    have "insert (unat p, j) (live (nheap s)) = insert (a, i) (live (nheap s))"
      using live_insert(2) [OF granted(5,6)] h(6) by simp
    then have "(a, i) = (unat p, j)" using h(5) live_insert(1) [OF granted(5,6)] by blast
    then show thesis using that [of p h j] h granted by (simp add: nic_alloc_def)
  qed
qed

text \<open>An aligned area of \<open>n\<close> bytes from a request of \<open>n + 16\<close>.\<close>

lemma aligned_area:
  assumes "unat (align8 m) \<le> j" and "n + 16 \<le> unat (align8 m)" and "unat p + j \<le> 0x2000000"
  shows "16 dvd unat (align16 p)" and "within_block (unat p, j) (align16 p) n" and "unat (align16 p) + n \<le> 0x2000000"
  using align16_bounds [of p] assms by (simp_all add: within_block_def)

lemma buffer_in_area:
  assumes "within_block b q (128 * 2048)" and "unat q + 128 * 2048 \<le> 0x2000000" and "i < 128"
  shows "within_block b (q + word_of_nat i * 2048) 2048"
proof -
  have "unat (word_of_nat i * 2048 :: u64) = i * 2048" using assms(3) by (simp add: unat_word_ariths unat_of_nat)
  then have "unat (q + word_of_nat i * 2048) = unat q + i * 2048"
    using assms(2,3) unat_add_lem [of q "word_of_nat i * 2048"] by simp
  then show ?thesis using assms unfolding within_block_def by simp
qed

lemma request_sizes:
  "unat (align8 (RX_DESC_SIZE * ucast NUM_RX_DESCS + 16)) = 1808" "unat (align8 (TX_DESC_SIZE * ucast NUM_TX_DESCS + 16)) = 2064"
  "unat (align8 (ucast NUM_RX_DESCS * 2048 + 16)) = 262160" "unat (align8 (ucast NUM_TX_DESCS * 2048 + 16)) = 262160"
  by (simp_all add: align8_def RX_DESC_SIZE_def TX_DESC_SIZE_def NUM_RX_DESCS_def NUM_TX_DESCS_def)

lemma fold_write_reg: "fold (\<lambda>(r, v). write_reg r v) xs s = s\<lparr>regs := regs s @ xs\<rparr>"
  by (induction xs arbitrary: s) (auto simp: write_reg_def)

lemma two_areas:
  assumes inv: "heap_inv (nheap s)" and room: "has_room (k + unat (align8 m) + 24 + unat (align8 n) + 24) (nheap s)" and k: "8 \<le> k"
  obtains p q i j h h' where "nic_alloc m s = Some (p, s\<lparr>nheap := h\<rparr>)" "nic_alloc n (s\<lparr>nheap := h\<rparr>) = Some (q, s\<lparr>nheap := h'\<rparr>)"
    "heap_inv h'" "has_room k h'" "(unat p, i) \<notin> live (nheap s)" "(unat q, j) \<notin> live (nheap s)" "(unat p, i) \<noteq> (unat q, j)"
    "live h' = insert (unat q, j) (insert (unat p, i) (live (nheap s)))"
    "unat (align8 m) \<le> i" "unat p + i \<le> 0x2000000" "unat (align8 n) \<le> j" "unat q + j \<le> 0x2000000"
proof -
  from inv obtain p i h where p: "nic_alloc m s = Some (p, s\<lparr>nheap := h\<rparr>)" "heap_inv h" "has_room (k + unat (align8 n) + 24) h"
    "(unat p, i) \<notin> live (nheap s)" "live h = insert (unat p, i) (live (nheap s))" "unat (align8 m) \<le> i" "unat p + i \<le> 0x2000000"
    by (rule nic_alloc_room [where k = "k + unat (align8 n) + 24" and n = m]) (use room k in \<open>simp_all add: ac_simps\<close>)
  obtain q j h' where q: "nic_alloc n (s\<lparr>nheap := h\<rparr>) = Some (q, s\<lparr>nheap := h\<rparr>\<lparr>nheap := h'\<rparr>)" "heap_inv h'" "has_room k h'"
    "(unat q, j) \<notin> live h" "live h' = insert (unat q, j) (live h)" "unat (align8 n) \<le> j" "unat q + j \<le> 0x2000000"
    by (rule nic_alloc_room [of "s\<lparr>nheap := h\<rparr>" k n]) (use p k in simp_all)
  show thesis using that [of p h q h' i j] p q by auto
qed

lemma setup_receive_rings:
  assumes "heap_inv (nheap s)" and "has_room (k + 264016) (nheap s)" and "8 \<le> k"
  obtains s' b d where "setup_receive s = Some s'" "heap_inv (nheap s')" "has_room k (nheap s')"
    "b \<notin> live (nheap s)" "d \<notin> live (nheap s)" "b \<noteq> d" "live (nheap s') = insert d (insert b (live (nheap s)))"
    "16 dvd unat (rx_ring s')" "within_block b (rx_ring s') 1792" "\<forall>i < 128. within_block d (rx_addr (rx_descs s' i)) 2048"
    "regs s' = regs s @ rx_settings (rx_ring s')" "mmio_base s' = mmio_base s"
proof -
  have room: "has_room (k + unat (align8 (RX_DESC_SIZE * ucast NUM_RX_DESCS + 16)) + 24 + unat (align8 (ucast NUM_RX_DESCS * 2048 + 16)) + 24) (nheap s)"
    using assms(2) unfolding request_sizes by (simp add: add.commute)
  obtain p q i j h h' where a: "nic_alloc (RX_DESC_SIZE * ucast NUM_RX_DESCS + 16) s = Some (p, s\<lparr>nheap := h\<rparr>)"
      "nic_alloc (ucast NUM_RX_DESCS * 2048 + 16) (s\<lparr>nheap := h\<rparr>) = Some (q, s\<lparr>nheap := h'\<rparr>)"
    "heap_inv h'" "has_room k h'" "(unat p, i) \<notin> live (nheap s)" "(unat q, j) \<notin> live (nheap s)" "(unat p, i) \<noteq> (unat q, j)"
    "live h' = insert (unat q, j) (insert (unat p, i) (live (nheap s)))"
    "unat (align8 (RX_DESC_SIZE * ucast NUM_RX_DESCS + 16)) \<le> i" "unat p + i \<le> 0x2000000"
    "unat (align8 (ucast NUM_RX_DESCS * 2048 + 16)) \<le> j" "unat q + j \<le> 0x2000000"
    by (rule two_areas [OF assms(1) room assms(3)])
  have le: "1792 + 16 \<le> unat (align8 (RX_DESC_SIZE * ucast NUM_RX_DESCS + 16))" "128 * 2048 + 16 \<le> unat (align8 (ucast NUM_RX_DESCS * 2048 + 16))"
    unfolding request_sizes by simp_all
  note ring = aligned_area [OF a(9) le(1) a(10)] and bufs = aligned_area [OF a(11) le(2) a(12)]
  define s' where "s' = s\<lparr>nheap := h', rx_ring := align16 p, rx_buffers := align16 q,
      rx_descs := (\<lambda>i. if i < unat NUM_RX_DESCS then \<lparr>rx_addr = align16 q + word_of_nat i * 2048, rx_length = 0, rx_status = 0\<rparr>
         else rx_descs s i),
      regs := regs s @ rx_settings (align16 p)\<rparr>"
  have 1: "setup_receive s = Some s'" unfolding setup_receive_def a(1) using a(2) by (simp add: fold_write_reg s'_def cong: if_cong)
  have 2: "\<forall>i < 128. within_block (unat q, j) (rx_addr (rx_descs s' i)) 2048"
    using buffer_in_area [OF bufs(2,3)] by (simp add: s'_def NUM_RX_DESCS_def)
  show thesis
    by (rule that [where b = "(unat p, i)" and d = "(unat q, j)", OF 1 _ _ _ _ _ _ _ _ 2]) (use a(3-8) ring in \<open>simp_all add: s'_def\<close>)
qed

lemma setup_transmit_rings:
  assumes "heap_inv (nheap s)" and "has_room (k + 264272) (nheap s)" and "8 \<le> k"
  obtains s' b d where "setup_transmit s = Some s'" "heap_inv (nheap s')" "has_room k (nheap s')"
    "b \<notin> live (nheap s)" "d \<notin> live (nheap s)" "b \<noteq> d" "live (nheap s') = insert d (insert b (live (nheap s)))"
    "16 dvd unat (tx_ring s')" "within_block b (tx_ring s') 2048" "\<forall>i < 128. within_block d (tx_addr (tx_descs s' i)) 2048"
    "regs s' = regs s @ tx_settings (tx_ring s')" "mmio_base s' = mmio_base s" "rx_ring s' = rx_ring s" "rx_descs s' = rx_descs s"
proof -
  have room: "has_room (k + unat (align8 (TX_DESC_SIZE * ucast NUM_TX_DESCS + 16)) + 24 + unat (align8 (ucast NUM_TX_DESCS * 2048 + 16)) + 24) (nheap s)"
    using assms(2) unfolding request_sizes by (simp add: add.commute)
  obtain p q i j h h' where a: "nic_alloc (TX_DESC_SIZE * ucast NUM_TX_DESCS + 16) s = Some (p, s\<lparr>nheap := h\<rparr>)"
      "nic_alloc (ucast NUM_TX_DESCS * 2048 + 16) (s\<lparr>nheap := h\<rparr>) = Some (q, s\<lparr>nheap := h'\<rparr>)"
    "heap_inv h'" "has_room k h'" "(unat p, i) \<notin> live (nheap s)" "(unat q, j) \<notin> live (nheap s)" "(unat p, i) \<noteq> (unat q, j)"
    "live h' = insert (unat q, j) (insert (unat p, i) (live (nheap s)))"
    "unat (align8 (TX_DESC_SIZE * ucast NUM_TX_DESCS + 16)) \<le> i" "unat p + i \<le> 0x2000000"
    "unat (align8 (ucast NUM_TX_DESCS * 2048 + 16)) \<le> j" "unat q + j \<le> 0x2000000"
    by (rule two_areas [OF assms(1) room assms(3)])
  have le: "2048 + 16 \<le> unat (align8 (TX_DESC_SIZE * ucast NUM_TX_DESCS + 16))" "128 * 2048 + 16 \<le> unat (align8 (ucast NUM_TX_DESCS * 2048 + 16))"
    unfolding request_sizes by simp_all
  note ring = aligned_area [OF a(9) le(1) a(10)] and bufs = aligned_area [OF a(11) le(2) a(12)]
  define s' where "s' = s\<lparr>nheap := h', tx_ring := align16 p, tx_buffers := align16 q,
      tx_descs := (\<lambda>i. if i < unat NUM_TX_DESCS then \<lparr>tx_addr = align16 q + word_of_nat i * 2048, tx_length = 0, tx_cmd = 0, tx_status = 0\<rparr>
         else tx_descs s i),
      regs := regs s @ tx_settings (align16 p)\<rparr>"
  have 1: "setup_transmit s = Some s'" unfolding setup_transmit_def a(1) using a(2) by (simp add: fold_write_reg s'_def cong: if_cong)
  have 2: "\<forall>i < 128. within_block (unat q, j) (tx_addr (tx_descs s' i)) 2048"
    using buffer_in_area [OF bufs(2,3)] by (simp add: s'_def NUM_TX_DESCS_def)
  show thesis
    by (rule that [where b = "(unat p, i)" and d = "(unat q, j)", OF 1 _ _ _ _ _ _ _ _ 2]) (use a(3-8) ring in \<open>simp_all add: s'_def\<close>)
qed

lemma fold_write_regs: "fold (\<lambda>i. write_reg (f i) v) xs s = s\<lparr>regs := regs s @ map (\<lambda>i. (f i, v)) xs\<rparr>"
  by (induction xs arbitrary: s) (auto simp: write_reg_def)

lemma e1000_init_stages:
  obtains s1 where "e1000_init bus slot func s = do { s2 \<leftarrow> setup_receive s1; setup_transmit s2 }" "nheap s1 = nheap s"
    "mmio_base s1 = ucast (cfg_space s (pci_address bus slot func 0x10) AND NOT 0xF)"
  by (rule that [OF e1000_init_def [unfolded Let_def case_prod_beta]])
    (simp_all add: fold_write_regs write_reg_def read_reg_def pci_config_read_def pci_config_write_def Let_def e1000_read_mac_def)

lemma reg_value_append: "reg_value r (s\<lparr>regs := rs @ xs\<rparr>) = (case map_of (rev xs) r of None \<Rightarrow> map_of (rev rs) r | Some v \<Rightarrow> Some v)"
  by (simp add: reg_value_def map_add_def split: option.split)

text \<open>
  \<open>e1000_init\<close> returns whenever the heap has room for the four areas of the card, and leaves the heap
  consistent: the two rings and the two buffer areas are four new blocks, apart from each other and from
  everything allocated before; each ring starts at a multiple of 16 and fits its block, each of the 128 receive
  and 128 transmit descriptors points to 2048 bytes inside the block of its buffers, and the base address
  registers of the card hold the addresses of the rings.
\<close>

theorem e1000_init_rings:
  assumes "heap_inv (nheap s)" and "has_room 528384 (nheap s)"
  shows "\<exists>s' b1 b2 b3 b4. e1000_init bus slot func s = Some s' \<and> heap_inv (nheap s') \<and>
     distinct [b1, b2, b3, b4] \<and> live (nheap s) \<inter> {b1, b2, b3, b4} = {} \<and>
     live (nheap s') = live (nheap s) \<union> {b1, b2, b3, b4} \<and>
     16 dvd unat (rx_ring s') \<and> within_block b1 (rx_ring s') 1792 \<and> (\<forall>i < 128. within_block b2 (rx_addr (rx_descs s' i)) 2048) \<and>
     16 dvd unat (tx_ring s') \<and> within_block b3 (tx_ring s') 2048 \<and> (\<forall>i < 128. within_block b4 (tx_addr (tx_descs s' i)) 2048) \<and>
     reg_value REG_RDBAL s' = Some (ucast (rx_ring s' AND 0xFFFFFFFF)) \<and> reg_value REG_TDBAL s' = Some (ucast (tx_ring s' AND 0xFFFFFFFF)) \<and>
     mmio_base s' = ucast (cfg_space s (pci_address bus slot func 0x10) AND NOT 0xF)"
proof -
  obtain s1 where s1: "e1000_init bus slot func s = do { s2 \<leftarrow> setup_receive s1; setup_transmit s2 }" "nheap s1 = nheap s"
    "mmio_base s1 = ucast (cfg_space s (pci_address bus slot func 0x10) AND NOT 0xF)" by (rule e1000_init_stages)
  obtain s2 b1 b2 where r: "setup_receive s1 = Some s2" "heap_inv (nheap s2)" "has_room 264368 (nheap s2)"
    "b1 \<notin> live (nheap s1)" "b2 \<notin> live (nheap s1)" "b1 \<noteq> b2" "live (nheap s2) = insert b2 (insert b1 (live (nheap s1)))"
    "16 dvd unat (rx_ring s2)" "within_block b1 (rx_ring s2) 1792" "\<forall>i < 128. within_block b2 (rx_addr (rx_descs s2 i)) 2048"
    "regs s2 = regs s1 @ rx_settings (rx_ring s2)" "mmio_base s2 = mmio_base s1"
    by (rule setup_receive_rings [of s1 264368]) (use assms s1(2) in simp_all)
  obtain s3 b3 b4 where t: "setup_transmit s2 = Some s3" "heap_inv (nheap s3)" "has_room 96 (nheap s3)"
    "b3 \<notin> live (nheap s2)" "b4 \<notin> live (nheap s2)" "b3 \<noteq> b4" "live (nheap s3) = insert b4 (insert b3 (live (nheap s2)))"
    "16 dvd unat (tx_ring s3)" "within_block b3 (tx_ring s3) 2048" "\<forall>i < 128. within_block b4 (tx_addr (tx_descs s3 i)) 2048"
    "regs s3 = regs s2 @ tx_settings (tx_ring s3)" "mmio_base s3 = mmio_base s2" "rx_ring s3 = rx_ring s2" "rx_descs s3 = rx_descs s2"
    by (rule setup_transmit_rings [of s2 96]) (use r in simp_all)
  have "reg_value REG_RDBAL s3 = Some (ucast (rx_ring s3 AND 0xFFFFFFFF))" "reg_value REG_TDBAL s3 = Some (ucast (tx_ring s3 AND 0xFFFFFFFF))"
    unfolding reg_value_def t(11,13) r(11)
    by (simp_all add: rx_settings_def tx_settings_def REG_RDBAL_def REG_RDBAH_def REG_RDLEN_def REG_RDH_def REG_RDT_def REG_RCTL_def
        REG_TDBAL_def REG_TDBAH_def REG_TDLEN_def REG_TDH_def REG_TDT_def REG_TIPG_def REG_TCTL_def)
  moreover have "live (nheap s3) = live (nheap s) \<union> {b1, b2, b3, b4}" using r(7) t(7) s1(2) by auto
  moreover have "distinct [b1, b2, b3, b4]" "live (nheap s) \<inter> {b1, b2, b3, b4} = {}" using r(4-7) t(4-6) s1(2) by auto
  moreover have "e1000_init bus slot func s = Some s3" using r(1) s1(1) t(1) by simp
  moreover have "mmio_base s3 = ucast (cfg_space s (pci_address bus slot func 0x10) AND NOT 0xF)"
    by (simp only: t(12) r(12) s1(3))
  ultimately show ?thesis using r(8-10) t(2,8-10,13,14)
    by (intro exI [of _ s3] exI [of _ b1] exI [of _ b2] exI [of _ b3] exI [of _ b4] conjI) simp_all
qed

subsection \<open>The enumeration\<close>

definition present :: "(u32 \<Rightarrow> u32) \<Rightarrow> u8 \<Rightarrow> u8 \<Rightarrow> u8 \<Rightarrow> bool" where
  "present cfg bus d f \<longleftrightarrow> (ucast (cfg (pci_address bus d f 0)) :: u16) \<noteq> 0xFFFF"

definition pci_report :: "(u32 \<Rightarrow> u32) \<Rightarrow> u8 \<Rightarrow> u8 \<Rightarrow> u8 \<Rightarrow> (u16 \<times> u16 \<times> u8 \<times> u8) list" where
  "pci_report cfg bus d f =
     (if present cfg bus d f
      then [(ucast (cfg (pci_address bus d f 0)), ucast (drop_bit 16 (cfg (pci_address bus d f 0))),
             pci_class (cfg (pci_address bus d f 8)))] else [])"

definition device_reports :: "(u32 \<Rightarrow> u32) \<Rightarrow> u8 \<Rightarrow> u8 \<Rightarrow> (u16 \<times> u16 \<times> u8 \<times> u8) list" where
  "device_reports cfg bus d =
     (if present cfg bus d 0
      then pci_report cfg bus d 0 @
        (if bit (cfg (pci_address bus d 0 0x0C)) 23 then concat (map (\<lambda>f. pci_report cfg bus d (word_of_nat f)) [1..<8]) else [])
      else [])"

definition is_e1000 :: "(u32 \<Rightarrow> u32) \<Rightarrow> u8 \<Rightarrow> u8 \<Rightarrow> bool" where
  "is_e1000 cfg bus d \<longleftrightarrow> cfg (pci_address bus d 0 0) = 0x100E8086"

lemma low_half: "(ucast (w AND 0xFFFF) :: u16) = ucast (w :: u32)"
proof -
  have m: "(0xFFFF :: u32) = mask 16" by (simp add: mask_eq_exp_minus_1)
  show ?thesis unfolding m by (rule bit_word_eqI) (auto simp: bit_simps)
qed

lemma id_halves: "(ucast w :: u16) = a \<and> (ucast (drop_bit 16 w) :: u16) = b \<longleftrightarrow> w = push_bit 16 (ucast b) OR (ucast a :: u32)"
proof
  assume "(ucast w :: u16) = a \<and> (ucast (drop_bit 16 w) :: u16) = b"
  then have e: "a = ucast w" "b = ucast (drop_bit 16 w)" by simp_all
  show "w = push_bit 16 (ucast b) OR ucast a" unfolding e by (rule bit_word_eqI) (auto simp: bit_simps)
next
  assume e: "w = push_bit 16 (ucast b) OR ucast a"
  have "(ucast w :: u16) = a" unfolding e by (rule bit_word_eqI) (auto simp: bit_simps)
  moreover have "(ucast (drop_bit 16 w) :: u16) = b" unfolding e
    by (rule bit_word_eqI) (auto simp: bit_simps dest: bit_imp_le_length)
  ultimately show "(ucast w :: u16) = a \<and> (ucast (drop_bit 16 w) :: u16) = b" by simp
qed

lemma header_bit: "((ucast (drop_bit 16 w) :: u8) AND 0x80 \<noteq> 0) = bit (w :: u32) 23"
proof -
  have "(0x80 :: u8) = push_bit 7 1" by simp
  then have "(ucast (drop_bit 16 w) :: u8) AND 0x80 \<noteq> 0 \<longleftrightarrow> bit (ucast (drop_bit 16 w) :: u8) 7"
    by (simp only: and_exp_eq_0_iff_not_bit push_bit_of_1 not_not)
  then show ?thesis by (simp add: bit_simps)
qed

lemma check_function_reports:
  "found (pci_check_function bus d f s) = found s @ pci_report (cfg_space s) bus d f" 
  "cfg_space (pci_check_function bus d f s) = cfg_space s" "nheap (pci_check_function bus d f s) = nheap s"
  by (simp_all add: pci_check_function_def pci_config_read_def pci_report_def present_def low_half Let_def)

lemma check_functions_report:
  "found (fold (\<lambda>f. pci_check_function bus d (g f)) fs s) = found s @ concat (map (\<lambda>f. pci_report (cfg_space s) bus d (g f)) fs)
   \<and> cfg_space (fold (\<lambda>f. pci_check_function bus d (g f)) fs s) = cfg_space s
   \<and> nheap (fold (\<lambda>f. pci_check_function bus d (g f)) fs s) = nheap s"
  by (induction fs arbitrary: s) (simp_all add: check_function_reports)

lemma check_device_reports:
  assumes "\<not> is_e1000 (cfg_space s) bus d"
  shows "\<exists>s'. pci_check_device bus d s = Some s' \<and> found s' = found s @ device_reports (cfg_space s) bus d \<and>
    cfg_space s' = cfg_space s \<and> nheap s' = nheap s"
proof -
  let ?r = "cfg_space s (pci_address bus d 0 0)"
  have "\<not> ((ucast ?r :: u16) = E1000_VENDOR_ID \<and> (ucast (drop_bit 16 ?r) :: u16) = E1000_DEVICE_ID)"
    using assms unfolding id_halves by (simp add: is_e1000_def E1000_VENDOR_ID_def E1000_DEVICE_ID_def)
  then have e: "((ucast ?r :: u16) = E1000_VENDOR_ID \<and> (ucast (drop_bit 16 ?r) :: u16) = E1000_DEVICE_ID) = False" by simp
  show ?thesis
    unfolding pci_check_device_def pci_config_read_def Let_def case_prod_conv low_half
    by (simp add: header_bit e device_reports_def present_def pci_report_def check_functions_report)
qed

lemma scan_reports:
  assumes "\<forall>(b, d) \<in> set xs. \<not> is_e1000 (cfg_space s) (word_of_nat b) (word_of_nat d)"
  shows "\<exists>s'. pci_scan xs s = Some s' \<and>
    found s' = found s @ concat (map (\<lambda>(b, d). device_reports (cfg_space s) (word_of_nat b) (word_of_nat d)) xs) \<and>
    cfg_space s' = cfg_space s \<and> nheap s' = nheap s"
  using assms
proof (induction xs arbitrary: s)
  case (Cons x xs)
  obtain b d where x: "x = (b, d)" by (cases x)
  obtain s1 where s1: "pci_check_device (word_of_nat b) (word_of_nat d) s = Some s1"
    "found s1 = found s @ device_reports (cfg_space s) (word_of_nat b) (word_of_nat d)" "cfg_space s1 = cfg_space s" "nheap s1 = nheap s"
    using check_device_reports [of s "word_of_nat b" "word_of_nat d"] Cons.prems x by auto
  then show ?case using Cons.IH [of s1] Cons.prems x by (auto simp: s1)
qed simp

text \<open>
  The enumeration of the PCI buses returns and reports, in the order of bus, device and function, exactly the
  functions that answer: function 0 of every device, and functions 1 to 7 of the devices whose header says they have
  several. Without a supported card at a function 0 it changes neither the configuration space nor the heap.
\<close>

theorem pci_init_reports:
  assumes "\<forall>b d. \<not> is_e1000 (cfg_space s) b d"
  shows "\<exists>s'. pci_init s = Some s' \<and>
     found s' = found s @ concat (map (\<lambda>(b, d). device_reports (cfg_space s) (word_of_nat b) (word_of_nat d))
        (List.product [0..<256] [0..<32])) \<and>
     cfg_space s' = cfg_space s \<and> nheap s' = nheap s"
  unfolding pci_init_def by (rule scan_reports) (use assms in blast)

subsection \<open>Instances\<close>

definition pci_machine :: "(u32 \<Rightarrow> u32) \<Rightarrow> pcisys" where
  "pci_machine cfg = \<lparr>nheap = heap0, nmem = (\<lambda>_. 0), mmio_base = 0,
     rx_descs = (\<lambda>_. \<lparr>rx_addr = 0, rx_length = 0, rx_status = 0\<rparr>),
     tx_descs = (\<lambda>_. \<lparr>tx_addr = 0, tx_length = 0, tx_cmd = 0, tx_status = 0\<rparr>),
     tx_tail = 0, rx_cur = 0, mac_addr = [0, 0, 0, 0, 0, 0], regs = [], wire = [], done_reads = (\<lambda>_. 1), done_pos = 0,
     arrivals = [], rx_head = 0, ticks_at = word_of_nat, tick_pos = 0,
     pvm = vm_ex, cfg_address = 0, cfg_space = cfg, found = [], reg_tape = (\<lambda>_ _. 0), reg_pos = (\<lambda>_. 0),
     rx_ring = 0, tx_ring = 0, rx_buffers = 0, tx_buffers = 0\<rparr>"

lemma pci_machine_room: "heap_inv (nheap (pci_machine cfg))" "has_room 528384 (nheap (pci_machine cfg))"
  using heap0_inv heap0_blocks by (auto simp: pci_machine_def has_room_def)

lemma e1000_init_rings_witness:
  "\<exists>s'. e1000_init 0 3 0 (pci_machine (\<lambda>_. 0xFEBC0000)) = Some s' \<and> heap_inv (nheap s') \<and> 16 dvd unat (rx_ring s') \<and>
     mmio_base s' = 0xFEBC0000"
proof -
  have "mmio_base s' = 0xFEBC0000"
    if "mmio_base s' = ucast (cfg_space (pci_machine (\<lambda>_. 0xFEBC0000)) (pci_address 0 3 0 0x10) AND NOT 0xF)" for s' :: pcisys
    using that by (simp add: pci_machine_def)
  then show ?thesis using e1000_init_rings [OF pci_machine_room, of 0 3 0 "\<lambda>_. 0xFEBC0000"] by blast
qed

text \<open>One function answers, at bus 0, device 3.\<close>

lemma pci_init_reports_witness:
  "\<exists>s'. pci_init (pci_machine (\<lambda>a. if a = pci_address 0 3 0 0 then 0x12341AF4 else 0xFFFFFFFF)) = Some s' \<and> nheap s' = heap0"
proof -
  have "\<forall>b d. \<not> is_e1000 (cfg_space (pci_machine (\<lambda>a. if a = pci_address 0 3 0 0 then 0x12341AF4 else 0xFFFFFFFF))) b d"
    by (simp add: is_e1000_def pci_machine_def)
  from pci_init_reports [OF this] show ?thesis by (auto simp: pci_machine_def)
qed

text \<open>
  Only function 0 of a device is compared with the supported card: one at another function is reported and
  left alone.
\<close>

lemma card_at_function_ignored: "nheap (pci_check_function bus d f s) = nheap s" "mmio_base (pci_check_function bus d f s) = mmio_base s"
  by (simp_all add: pci_check_function_def pci_config_read_def Let_def)

end
