(* ===== verification/Timers.thy ===== *)
theory Timers
  imports Idt Acpi
begin

text \<open>
  The clocks of the machine and what is counted with them: the interval timer, the time stamp counter and the busy
  waits (\<open>src/kernel/pit.c\<close>), the local interrupt controller (\<open>src/kernel/apic.c\<close>), the statistics
  (\<open>src/kernel/kstats.c\<close>) and the trace of events (\<open>src/kernel/ktrace.c\<close>). What the machine answers is an input of the
  model: the values of the time stamp counter, the moments of timer interrupts and the registers of the controller.
\<close>

subsection \<open>State\<close>

record kernel_stats_t =
  uptime_ms :: u64
  total_memory :: u64
  used_memory :: u64
  active_tasks :: u32
  page_faults :: u64

text \<open>
  \<open>tsc_reads n\<close> is the \<open>n\<close>-th value read from the time stamp counter; \<open>timer_irqs n\<close> says whether the timer
  interrupts just before the \<open>n\<close>-th look at the tick counter.
\<close>

record machine = intr +
  macpi :: acpi
  tsc_reads :: "nat \<Rightarrow> u64"
  tsc_pos :: nat
  tsc_freq_mhz :: u64
  timer_irqs :: "nat \<Rightarrow> bool"
  looks :: nat
  msrs :: "u32 \<Rightarrow> u64"
  lapic_in :: "u64 \<Rightarrow> u32"
  current_stats :: kernel_stats_t
  trace_buffer :: "u64 list"
  trace_index :: u32

subsection \<open>Interval timer\<close>

text \<open>A frequency of 0 is a division by zero.\<close>

definition pit_init :: "u32 \<Rightarrow> 'a intr_scheme \<Rightarrow> 'a intr_scheme option" where
  "pit_init frequency s =
     (if frequency = 0 then None
      else
        let divisor = 1193182 div frequency;
            i1 = port_outb 0x43 0x36 (io s);
            l = (ucast (divisor AND 0xFF) :: u8);
            h = (ucast (drop_bit 8 divisor AND 0xFF) :: u8);
            i2 = port_outb 0x40 h (port_outb 0x40 l i1);
            (mask, i3) = port_inb 0x21 i2
        in Some (s\<lparr>io := port_outb 0x21 (mask AND NOT 1) i3\<rparr>))"

text \<open>A look at the counter in a loop that waits for the interrupt.\<close>

definition look_ticks :: "nat \<Rightarrow> 'a machine_scheme \<Rightarrow> u64 \<times> 'a machine_scheme" where
  "look_ticks c s =
     (let s1 = (if timer_irqs s (looks s) then pit_handler c s else s); s2 = s1\<lparr>looks := looks s1 + 1\<rparr> in (ticks s2, s2))"

subsection \<open>Time stamp counter\<close>

definition rdtsc :: "'a machine_scheme \<Rightarrow> u64 \<times> 'a machine_scheme" where
  "rdtsc s = (tsc_reads s (tsc_pos s), s\<lparr>tsc_pos := tsc_pos s + 1\<rparr>)"

text \<open>\<open>while (ticks == start_ticks);\<close>\<close>

partial_function (option) wait_tick :: "nat \<Rightarrow> u64 \<Rightarrow> 'a machine_scheme \<Rightarrow> 'a machine_scheme option" where
  "wait_tick c start_ticks s =
     (case look_ticks c s of (t, s1) \<Rightarrow> if t = start_ticks then wait_tick c start_ticks s1 else Some s1)"

definition tsc_calibrate :: "nat \<Rightarrow> 'a machine_scheme \<Rightarrow> 'a machine_scheme option" where
  "tsc_calibrate c s = do {
     let (start_ticks, s1) = look_ticks c s;
     s2 \<leftarrow> wait_tick c start_ticks s1;
     let (start_tsc, s3) = rdtsc s2;
     let (start_ticks, s4) = look_ticks c s3;
     s5 \<leftarrow> wait_tick c start_ticks s4;
     let (end_tsc, s6) = rdtsc s5;
     let s7 = s6\<lparr>tsc_freq_mhz := (end_tsc - start_tsc) div 10000\<rparr>;
     Some (if tsc_freq_mhz s7 = 0 then s7\<lparr>tsc_freq_mhz := 2000\<rparr> else s7) }"

text \<open>\<open>while (rdtsc() < target)\<close>\<close>

partial_function (option) wait_tsc :: "u64 \<Rightarrow> 'a machine_scheme \<Rightarrow> 'a machine_scheme option" where
  "wait_tsc target s = (case rdtsc s of (t, s1) \<Rightarrow> if t < target then wait_tsc target s1 else Some s1)"

text \<open>Before the calibration the wait is a loop of \<open>us * 1000\<close> pauses, without effect on the state.\<close>

definition delay_us :: "u32 \<Rightarrow> 'a machine_scheme \<Rightarrow> 'a machine_scheme option" where
  "delay_us us s =
     (if tsc_freq_mhz s = 0 then Some s
      else let (start, s1) = rdtsc s; target = start + ucast us * tsc_freq_mhz s1 in wait_tsc target s1)"

definition delay_ms :: "u32 \<Rightarrow> 'a machine_scheme \<Rightarrow> 'a machine_scheme option" where
  "delay_ms ms s = delay_us (ms * 1000) s"

subsection \<open>Local interrupt controller\<close>

definition LAPIC_SVR :: u32 where "LAPIC_SVR = 0x00F0"
definition LAPIC_LVT_TMR :: u32 where "LAPIC_LVT_TMR = 0x0320"
definition LAPIC_TMRINIT :: u32 where "LAPIC_TMRINIT = 0x0380"
definition LAPIC_TMRDIV :: u32 where "LAPIC_TMRDIV = 0x03E0"
definition MSR_APIC_BASE :: u32 where "MSR_APIC_BASE = 0x1B"

definition lapic_read :: "u32 \<Rightarrow> 'a machine_scheme \<Rightarrow> u32" where
  "lapic_read reg s = lapic_in s (lapic_base s + ucast reg)"

definition lapic_write :: "u32 \<Rightarrow> u32 \<Rightarrow> 'a machine_scheme \<Rightarrow> 'a machine_scheme" where
  "lapic_write reg v s = s\<lparr>mmio_out := mmio_out s @ [(lapic_base s + ucast reg, v)]\<rparr>"

text \<open>The instructions move the two halves of the register.\<close>

definition rdmsr :: "u32 \<Rightarrow> 'a machine_scheme \<Rightarrow> u64" where
  "rdmsr msr s =
     (let low = (ucast (msrs s msr) :: u32); high = (ucast (drop_bit 32 (msrs s msr)) :: u32)
      in push_bit 32 (ucast high) OR ucast low)"

definition wrmsr :: "u32 \<Rightarrow> u64 \<Rightarrow> 'a machine_scheme \<Rightarrow> 'a machine_scheme" where
  "wrmsr msr value s =
     (let low = (ucast (value AND 0xFFFFFFFF) :: u32); high = (ucast (drop_bit 32 value) :: u32)
      in s\<lparr>msrs := (msrs s)(msr := push_bit 32 (ucast high) OR ucast low)\<rparr>)"

definition lapic_init :: "'a machine_scheme \<Rightarrow> 'a machine_scheme" where
  "lapic_init s =
     (let base_msr = rdmsr MSR_APIC_BASE s;
          s1 = wrmsr MSR_APIC_BASE (base_msr OR push_bit 11 1) s;
          phys_addr = acpi_get_lapic_addr (macpi s1);
          phys_addr = (if phys_addr = 0 then 0xFEE00000 else phys_addr);
          s2 = s1\<lparr>lapic_base := ucast phys_addr\<rparr>
      in lapic_write LAPIC_SVR (0x100 OR 0xFF) s2)"

definition lapic_get_id :: "'a machine_scheme \<Rightarrow> u8" where
  "lapic_get_id s = ucast (drop_bit 24 (lapic_read 0x0020 s))"

definition lapic_timer_init :: "u32 \<Rightarrow> 'a machine_scheme \<Rightarrow> 'a machine_scheme option" where
  "lapic_timer_init hz s =
     (let s1 = lapic_write LAPIC_TMRDIV 0x03 s in
      if hz = 0 then None
      else
        let count = 10000000 div hz
        in Some (lapic_write LAPIC_TMRINIT count (lapic_write LAPIC_LVT_TMR (32 OR push_bit 17 1) s1)))"

definition lapic_send_ipi :: "u8 \<Rightarrow> u32 \<Rightarrow> 'a machine_scheme \<Rightarrow> 'a machine_scheme" where
  "lapic_send_ipi apic_id vector s =
     (let s1 = s\<lparr>mmio_out := mmio_out s @ [(lapic_base s + 0x310, push_bit 24 (ucast apic_id))]\<rparr>
      in s1\<lparr>mmio_out := mmio_out s1 @ [(lapic_base s1 + 0x300, vector)]\<rparr>)"

subsection \<open>Statistics\<close>

definition memory_in_use :: "pmm \<Rightarrow> u64" where
  "memory_in_use p = (pmm_get_total_frames p - pmm_get_free_count p) * PAGE_SIZE"

definition kstats_init :: "'a machine_scheme \<Rightarrow> 'a machine_scheme" where
  "kstats_init s =
     s\<lparr>current_stats := \<lparr>uptime_ms = 0, total_memory = pmm_get_total_frames (frames (kvm s)) * PAGE_SIZE,
       used_memory = memory_in_use (frames (kvm s)), active_tasks = 0, page_faults = 0\<rparr>\<rparr>"

definition kstats_get :: "'a machine_scheme \<Rightarrow> kernel_stats_t" where "kstats_get s = current_stats s"

definition kstats_update :: "'a machine_scheme \<Rightarrow> 'a machine_scheme" where
  "kstats_update s = s\<lparr>current_stats := (current_stats s)\<lparr>used_memory := memory_in_use (frames (kvm s))\<rparr>\<rparr>"

subsection \<open>Trace\<close>

definition MAX_TRACE_EVENTS :: nat where "MAX_TRACE_EVENTS = 1024"

definition ktrace_init :: "'a machine_scheme \<Rightarrow> 'a machine_scheme" where
  "ktrace_init s = s\<lparr>trace_buffer := replicate MAX_TRACE_EVENTS 0, trace_index := 0\<rparr>"

definition ktrace_log :: "u64 \<Rightarrow> 'a machine_scheme \<Rightarrow> 'a machine_scheme" where
  "ktrace_log event s =
     (if unat (trace_index s) < MAX_TRACE_EVENTS
      then s\<lparr>trace_buffer := (trace_buffer s)[unat (trace_index s) := event], trace_index := trace_index s + 1\<rparr>
      else s)"

subsection \<open>Lemmas on words\<close>

lemma msr_halves: "push_bit 32 (ucast (ucast (drop_bit 32 v) :: u32)) OR ucast (ucast v :: u32) = (v :: u64)"
  by (rule bit_word_eqI) (auto simp: bit_simps)

lemma low_dword: "(ucast (v AND 0xFFFFFFFF) :: u32) = ucast (v :: u64)"
proof -
  have m: "(0xFFFFFFFF :: u64) = mask 32" by (simp add: mask_eq_exp_minus_1)
  show ?thesis unfolding m by (rule bit_word_eqI) (auto simp: bit_simps)
qed

lemma unat_ucast_64: "unat (ucast (w :: u32) :: u64) = unat w"
proof -
  have "unat w < 2 ^ 64" using unsigned_less [of w] by (rule order_less_trans) simp
  then show ?thesis by (simp add: unsigned_ucast_eq take_bit_nat_eq_self)
qed

lemma rdmsr_value: "rdmsr r s = msrs s r"
  by (simp add: rdmsr_def msr_halves)

lemma wrmsr_value: "wrmsr r v s = s\<lparr>msrs := (msrs s)(r := v)\<rparr>"
  unfolding wrmsr_def Let_def low_dword msr_halves ..

subsection \<open>Frequencies\<close>

lemma byte_split: "unat (d :: u32) < 65536 \<Longrightarrow>
  unat (ucast (d AND 0xFF) :: u8) + 256 * unat (ucast (drop_bit 8 d AND 0xFF) :: u8) = unat d"
proof -
  assume d: "unat d < 65536"
  have m: "(0xFF :: u32) = mask 8" by (simp add: mask_eq_exp_minus_1)
  have "unat (ucast (d AND mask 8) :: u8) = unat d mod 256" 
    by (simp add: unsigned_ucast_eq take_bit_eq_mask [symmetric] unsigned_take_bit_eq take_bit_eq_mod unat_mod_distrib)
  moreover have "unat (ucast (drop_bit 8 d AND mask 8) :: u8) = unat d div 256" using d
    by (simp add: unsigned_ucast_eq take_bit_eq_mask [symmetric] unsigned_take_bit_eq take_bit_eq_mod unsigned_drop_bit_eq drop_bit_eq_div
        unat_mod_distrib unat_div_distrib div_less_iff_less_mult)
  ultimately show ?thesis unfolding m by simp
qed

text \<open>
  For every frequency from 19 Hz to the input clock of the timer, \<open>pit_init\<close> writes the two bytes of the
  divisor, low byte first: a number that is not 0, fits 16 bits and gives a rate not below the requested one; of the interrupt
  mask only the bit of the timer is cleared. Below 19 Hz the divisor needs more than its two bytes.
\<close>

theorem pit_init_divisor:
  assumes "19 \<le> unat frequency" and "unat frequency \<le> 1193182"
  shows "\<exists>s' l h. pit_init frequency s = Some s' \<and>
     out_log (io s') = out_log (io s) @ [(0x43, 0x36), (0x40, l), (0x40, h), (0x21, in_tape (io s) 0x21 (in_pos (io s) 0x21) AND NOT 1)] \<and>
     unat l + 256 * unat h = 1193182 div unat frequency \<and> 0 < unat l + 256 * unat h \<and>
     unat frequency * (unat l + 256 * unat h) \<le> 1193182 \<and> 1193182 < unat frequency * (unat l + 256 * unat h + 1)"
proof -
  let ?d = "1193182 div frequency"
  have f: "frequency \<noteq> 0" using assms(1) by auto
  have d: "unat ?d = 1193182 div unat frequency" by (simp add: unat_div_distrib)
  have "1193182 div unat frequency \<le> 1193182 div 19" using assms(1) by (intro div_le_mono2) simp_all
  then have b: "unat ?d < 65536" unfolding d by simp
  have pos: "0 < 1193182 div unat frequency" using assms by (simp add: div_greater_zero_iff)
  have mul: "unat frequency * (1193182 div unat frequency) \<le> 1193182" "1193182 < unat frequency * (1193182 div unat frequency + 1)"
    using assms(1) dividend_less_times_div [of "unat frequency" 1193182] by simp_all
  have "\<exists>s'. pit_init frequency s = Some s' \<and> out_log (io s') = out_log (io s) @ [(0x43, 0x36), (0x40, ucast (?d AND 0xFF)),
      (0x40, ucast (drop_bit 8 ?d AND 0xFF)), (0x21, in_tape (io s) 0x21 (in_pos (io s) 0x21) AND NOT 1)]"
    by (simp add: pit_init_def f port_outb_def port_inb_def Let_def)
  then show ?thesis using byte_split [OF b] pos mul unfolding d by metis
qed

lemma pit_slow_truncated: "\<exists>s'. pit_init 18 s = Some s' \<and>
   out_log (io s') = out_log (io s) @ [(0x43, 0x36), (0x40, 0xEF), (0x40, 0x02), (0x21, in_tape (io s) 0x21 (in_pos (io s) 0x21) AND NOT 1)]"
  by (simp add: pit_init_def port_outb_def port_inb_def Let_def)

subsection \<open>Waiting for the clocks\<close>

lemma timer_tick_fields:
  "ticks (task_timer_tick c s) = ticks s" "looks (task_timer_tick c s) = looks s" "timer_irqs (task_timer_tick c s) = timer_irqs s"
  "tsc_pos (task_timer_tick c s) = tsc_pos s" "tsc_reads (task_timer_tick c s) = tsc_reads s"
  by (simp_all add: task_timer_tick_def task_request_reschedule_def upd_cpu_def upd_task_def Let_def)

lemma look_ticks_step:
  fixes s :: "'a machine_scheme"
  assumes "look_ticks c s = (t, s1)"
  shows "t = ticks s1" "ticks s1 = (if timer_irqs s (looks s) then ticks s + 1 else ticks s)" "looks s1 = looks s + 1"
    "timer_irqs s1 = timer_irqs s" "tsc_pos s1 = tsc_pos s" "tsc_reads s1 = tsc_reads s"
  using assms by (auto simp: look_ticks_def Let_def pit_handler_def timer_tick_fields split: if_splits)

lemma wait_tick_returns:
  fixes s :: "'a machine_scheme"
  assumes "looks s \<le> m" and "timer_irqs s m" and "ticks s = start"
  shows "\<exists>s'. wait_tick c start s = Some s' \<and> ticks s' = start + 1 \<and> timer_irqs s' = timer_irqs s \<and> looks s < looks s' \<and>
    tsc_pos s' = tsc_pos s \<and> tsc_reads s' = tsc_reads s"
  using assms
proof (induction "m - looks s" arbitrary: s rule: less_induct)
  case less
  obtain t s1 where l: "look_ticks c s = (t, s1)" by fastforce
  note f = look_ticks_step [OF l]
  show ?case
  proof (cases "timer_irqs s (looks s)")
    case True
    then have "t \<noteq> start" using f(1,2) less.prems(3) by simp
    then have "wait_tick c start s = Some s1" by (simp add: wait_tick.simps [of c start s] l)
    then show ?thesis using f True less.prems(3) by simp
  next
    case False
    then have m: "looks s < m" using less.prems(1,2) by (cases "looks s = m") auto
    have "t = start" using f(1,2) less.prems(3) False by simp
    then have "wait_tick c start s = wait_tick c start s1" by (simp add: wait_tick.simps [of c start s] l)
    moreover have "m - looks s1 < m - looks s" "looks s1 \<le> m" using f(3) m by simp_all
    ultimately show ?thesis using less.hyps [of s1] f False less.prems(2,3) by (auto dest: Suc_lessD)
  qed
qed

text \<open>
  As long as timer interrupts keep coming, \<open>tsc_calibrate\<close> returns. It reads the time stamp counter twice with one
  to three ticks in between, sets the frequency to the ten-thousandth part of the difference, and never to 0.
\<close>

theorem tsc_calibrate_returns:
  fixes s :: "'a machine_scheme"
  assumes "\<forall>n. \<exists>m \<ge> n. timer_irqs s m"
  shows "\<exists>s'. tsc_calibrate c s = Some s' \<and> tsc_freq_mhz s' \<noteq> 0 \<and>
     tsc_freq_mhz s' = (let d = (tsc_reads s (tsc_pos s + 1) - tsc_reads s (tsc_pos s)) div 10000 in if d = 0 then 2000 else d) \<and>
     tsc_pos s' = tsc_pos s + 2 \<and> ticks s' - ticks s \<in> {2, 3, 4}"
proof -
  obtain t s1 where l1: "look_ticks c s = (t, s1)" by fastforce
  note f1 = look_ticks_step [OF l1]
  from assms obtain m where "looks s1 \<le> m" "timer_irqs s1 m" using f1(4) by auto
  from wait_tick_returns [OF this, of t] obtain s2 where w1: "wait_tick c t s1 = Some s2" "ticks s2 = t + 1"
    "timer_irqs s2 = timer_irqs s1" "tsc_pos s2 = tsc_pos s1" "tsc_reads s2 = tsc_reads s1" using f1(1) by auto
  let ?s3 = "s2\<lparr>tsc_pos := tsc_pos s2 + 1\<rparr>"
  obtain t' s4 where l2: "look_ticks c ?s3 = (t', s4)" by fastforce
  note f2 = look_ticks_step [OF l2]
  from assms obtain m' where "looks s4 \<le> m'" "timer_irqs s4 m'" using f1(4) w1(3) f2(4) by auto
  from wait_tick_returns [OF this, of t'] obtain s5 where w2: "wait_tick c t' s4 = Some s5" "ticks s5 = t' + 1"
    "timer_irqs s5 = timer_irqs s4" "tsc_pos s5 = tsc_pos s4" "tsc_reads s5 = tsc_reads s4" using f2(1) by auto
  let ?d = "(tsc_reads s (tsc_pos s + 1) - tsc_reads s (tsc_pos s)) div 10000"
  let ?s7 = "s5\<lparr>tsc_pos := tsc_pos s5 + 1, tsc_freq_mhz := ?d\<rparr>"
  have "tsc_calibrate c s = Some (if ?d = 0 then ?s7\<lparr>tsc_freq_mhz := 2000\<rparr> else ?s7)"
    using f1 w1 f2 w2 l1 l2 by (simp add: tsc_calibrate_def rdtsc_def Let_def)
  moreover have "ticks s5 - ticks s \<in> {2, 3, 4}" using f1(1,2) w1(2) f2(1,2) w2(2) by (auto split: if_splits)
  ultimately show ?thesis using f1 w1 f2 w2 by (simp add: Let_def)
qed

lemma wait_tsc_returns:
  fixes s :: "'a machine_scheme"
  assumes "tsc_pos s \<le> m" and "target \<le> tsc_reads s m"
  shows "\<exists>s' n. wait_tsc target s = Some s' \<and> s' = s\<lparr>tsc_pos := n + 1\<rparr> \<and> tsc_pos s \<le> n \<and> n \<le> m \<and> target \<le> tsc_reads s n \<and>
    (\<forall>k. tsc_pos s \<le> k \<and> k < n \<longrightarrow> tsc_reads s k < target)"
  using assms
proof (induction "m - tsc_pos s" arbitrary: s rule: less_induct)
  case less
  show ?case
  proof (cases "tsc_reads s (tsc_pos s) < target")
    case False
    then show ?thesis using less.prems
      by (intro exI [of _ "s\<lparr>tsc_pos := tsc_pos s + 1\<rparr>"] exI [of _ "tsc_pos s"])
        (auto simp: wait_tsc.simps [of target s] rdtsc_def)
  next
    case True
    let ?s1 = "s\<lparr>tsc_pos := tsc_pos s + 1\<rparr>"
    have m: "tsc_pos s < m" using True less.prems by (cases "tsc_pos s = m") auto
    have w: "wait_tsc target s = wait_tsc target ?s1" using True by (simp add: wait_tsc.simps [of target s] rdtsc_def)
    have "m - tsc_pos ?s1 < m - tsc_pos s" "tsc_pos ?s1 \<le> m" "target \<le> tsc_reads ?s1 m" using m less.prems(2) by simp_all
    from less.hyps [OF this] obtain n where n: "wait_tsc target ?s1 = Some (?s1\<lparr>tsc_pos := n + 1\<rparr>)" "tsc_pos s + 1 \<le> n" "n \<le> m"
      "target \<le> tsc_reads s n" "\<forall>k. tsc_pos s + 1 \<le> k \<and> k < n \<longrightarrow> tsc_reads s k < target" by auto
    have "tsc_reads s k < target" if "tsc_pos s \<le> k \<and> k < n" for k using n(5) that True by (cases "k = tsc_pos s") simp_all
    then show ?thesis using w n by (intro exI [of _ "s\<lparr>tsc_pos := n + 1\<rparr>"] exI [of _ n]) simp
  qed
qed

text \<open>
  After the calibration \<open>delay_us\<close> returns at the first reading of the time stamp counter that is at least the
  requested number of microseconds, in counts, behind its first reading, if there is one and the sum does not wrap.
\<close>

theorem delay_us_waits:
  fixes s :: "'a machine_scheme"
  assumes "tsc_freq_mhz s \<noteq> 0"
    and "unat (tsc_reads s (tsc_pos s)) + unat us * unat (tsc_freq_mhz s) < 2 ^ 64"
    and "tsc_pos s < m" and "unat (tsc_reads s (tsc_pos s)) + unat us * unat (tsc_freq_mhz s) \<le> unat (tsc_reads s m)"
  shows "\<exists>n. delay_us us s = Some (s\<lparr>tsc_pos := n + 1\<rparr>) \<and> tsc_pos s < n \<and> n \<le> m \<and>
     unat us * unat (tsc_freq_mhz s) \<le> unat (tsc_reads s n) - unat (tsc_reads s (tsc_pos s)) \<and>
     (\<forall>k. tsc_pos s < k \<and> k < n \<longrightarrow> unat (tsc_reads s k) < unat (tsc_reads s (tsc_pos s)) + unat us * unat (tsc_freq_mhz s))"
proof -
  let ?start = "tsc_reads s (tsc_pos s)" and ?s1 = "s\<lparr>tsc_pos := tsc_pos s + 1\<rparr>"
  let ?t = "?start + ucast us * tsc_freq_mhz s"
  have "unat (ucast us * tsc_freq_mhz s) = unat us * unat (tsc_freq_mhz s)"
    using assms(2) unat_mult_lem [of "ucast us" "tsc_freq_mhz s"] by (simp add: unat_ucast_64)
  then have t: "unat ?t = unat ?start + unat us * unat (tsc_freq_mhz s)"
    using assms(2) unat_add_lem [of ?start "ucast us * tsc_freq_mhz s"] by simp
  obtain n where "wait_tsc ?t ?s1 = Some (?s1\<lparr>tsc_pos := n + 1\<rparr>)" "tsc_pos s + 1 \<le> n" "n \<le> m" "?t \<le> tsc_reads s n"
    "\<forall>k. tsc_pos s + 1 \<le> k \<and> k < n \<longrightarrow> tsc_reads s k < ?t"
    using wait_tsc_returns [of ?s1 m ?t] assms(3,4) t by (auto simp: word_le_nat_alt)
  then show ?thesis using assms(1) t
    by (intro exI [of _ n]) (auto simp: delay_us_def rdtsc_def word_le_nat_alt word_less_nat_alt)
qed

text \<open>The argument of \<open>delay_ms\<close> is multiplied in 32 bits.\<close>

lemma delay_ms_wraps: "delay_ms 4294968 s = delay_us 704 s"
proof -
  have "(4294968 * 1000 :: u32) = 704" by simp
  then show ?thesis unfolding delay_ms_def by (simp only:)
qed

subsection \<open>The trace keeps the first events\<close>

lemma trace_log:
  assumes "length (trace_buffer s) = 1024" and "unat (trace_index s) \<le> 1024" and "take (unat (trace_index s)) (trace_buffer s) = es"
  shows "length (trace_buffer (ktrace_log e s)) = 1024 \<and> unat (trace_index (ktrace_log e s)) \<le> 1024 \<and>
    take (unat (trace_index (ktrace_log e s))) (trace_buffer (ktrace_log e s)) = take 1024 (es @ [e])"
proof (cases "unat (trace_index s) < 1024")
  case True
  then have "unat (trace_index s + 1) = unat (trace_index s) + 1" using unat_add_lem [of "trace_index s" 1] by simp
  moreover have "length es = unat (trace_index s)" using assms by auto
  ultimately show ?thesis using assms True
    by (auto simp: ktrace_log_def MAX_TRACE_EVENTS_def take_Suc_conv_app_nth take_update_cancel)
next
  case False
  then show ?thesis using assms by (auto simp: ktrace_log_def MAX_TRACE_EVENTS_def)
qed

text \<open>
  The trace buffer holds the first 1024 events logged since \<open>ktrace_init\<close>, in order, and is never written behind its
  end: later events are dropped.
\<close>

theorem ktrace_first_events:
  "take (unat (trace_index (fold ktrace_log es (ktrace_init s)))) (trace_buffer (fold ktrace_log es (ktrace_init s))) = take 1024 es \<and>
   unat (trace_index (fold ktrace_log es (ktrace_init s))) \<le> 1024 \<and> length (trace_buffer (fold ktrace_log es (ktrace_init s))) = 1024"
proof (induction es rule: rev_induct)
  case Nil
  then show ?case by (simp add: ktrace_init_def MAX_TRACE_EVENTS_def)
next
  case (snoc e es)
  let ?s = "fold ktrace_log es (ktrace_init s)"
  have "take 1024 (take 1024 es @ [e]) = take 1024 (es @ [e])" by (cases "length es < 1024") auto
  then show ?case using trace_log [of ?s "take 1024 es" e] snoc.IH by simp
qed

subsection \<open>Instances\<close>

text \<open>A machine whose counter of cycles goes up by one per reading, with a timer interrupt before every look.\<close>

definition machine_demo :: "u8 list \<Rightarrow> machine" where
  "machine_demo ids = intr.extend fault_sys
     (machine.fields \<lparr>lapic_addr = 0xFEE00000, cpu_ids = ids @ replicate (64 - length ids) 0, acpi_cpu_count = length ids\<rparr>
        word_of_nat 0 0 (\<lambda>_. True) 0 (\<lambda>_. 0) (\<lambda>_. 0)
        \<lparr>uptime_ms = 0, total_memory = 0, used_memory = 0, active_tasks = 0, page_faults = 0\<rparr> [] 0)"

lemma machine_demo_fields: "tsc_reads (machine_demo ids) = word_of_nat" "tsc_pos (machine_demo ids) = 0"
  "timer_irqs (machine_demo ids) = (\<lambda>_. True)" "heap (machine_demo ids) = heap0"
  by (simp_all add: machine_demo_def intr.defs machine.defs fault_sys_def ksys.defs demo1_def demo_sys_def)

lemma pit_init_divisor_witness:
  "\<exists>s' l h. pit_init 100 (machine_demo []) = Some s' \<and> drop (length (out_log (io (machine_demo [])))) (out_log (io s')) =
     [(0x43, 0x36), (0x40, l), (0x40, h), (0x21, in_tape (io (machine_demo [])) 0x21 (in_pos (io (machine_demo [])) 0x21) AND NOT 1)] \<and>
     unat l + 256 * unat h = 11931"
  using pit_init_divisor [of 100 "machine_demo []"] by auto

lemma tsc_calibrate_returns_witness: "\<exists>s'. tsc_calibrate 0 (machine_demo []) = Some s' \<and> tsc_freq_mhz s' = 2000"
proof -
  have "\<forall>n. \<exists>m \<ge> n. timer_irqs (machine_demo []) m" by (auto simp: machine_demo_fields)
  from tsc_calibrate_returns [OF this, of 0] show ?thesis by (auto simp: machine_demo_fields Let_def)
qed

lemma delay_us_waits_witness:
  "\<exists>n. delay_us 10 ((machine_demo [])\<lparr>tsc_freq_mhz := 2000\<rparr>) = Some ((machine_demo [])\<lparr>tsc_freq_mhz := 2000, tsc_pos := n + 1\<rparr>) \<and>
     n \<le> 20000"
proof -
  have "unat (word_of_nat 20000 :: u64) = 20000" by (simp add: unat_of_nat)
  then show ?thesis using delay_us_waits [of "(machine_demo [])\<lparr>tsc_freq_mhz := 2000\<rparr>" 10 20000] by (auto simp: machine_demo_fields)
qed

end
