(* ===== verification/Smp.thy ===== *)
theory Smp
  imports Timers Platform
begin

text \<open>
  The processors: the table of per-processor data (\<open>src/kernel/cpu.c\<close>), what a processor does when it
  starts (\<open>ap_main\<close>) and how the first one starts the others (\<open>smp_init\<close>), \<open>src/kernel/smp.c\<close>.
  Which processor a function runs on is a parameter, the index of its entry in the table.
\<close>

subsection \<open>State\<close>

text \<open>
  The entries of \<open>cpus\<close> are the processors' data, \<open>cpu_addrs\<close> where they lie. The words of the start-up code
  that are filled in from C: \<open>tramp_p4\<close>, \<open>tramp_stack\<close>, \<open>tramp_entry\<close>, \<open>tramp_apic_id\<close>. \<open>started_reads n\<close> is the \<open>n\<close>-th
  value the first processor reads from \<open>ap_started_count\<close>.
\<close>

record smp = machine +
  cpu_addrs :: "u64 list"
  gdts :: "(gdt_entry list \<times> gdt_tss_entry) list"
  tramp_p4 :: u64
  tramp_stack :: u64
  tramp_entry :: u64
  tramp_apic_id :: u64
  started_reads :: "nat \<Rightarrow> int"
  started_pos :: nat
  ap_started_count :: int

subsection \<open>The table of processors\<close>

definition MSR_GS_BASE :: u32 where "MSR_GS_BASE = 0xC0000101"
definition MSR_KERNEL_GS_BASE :: u32 where "MSR_KERNEL_GS_BASE = 0xC0000102"
definition MAX_CPUS :: nat where "MAX_CPUS = 64"
definition CPU_SIZE :: u64 where "CPU_SIZE = 298"

text \<open>
  \<open>None\<close> is the write behind the array of 64 pointers. The fields of the entry that are set are the same for all
  processors; \<open>fresh\<close> is what the memory held before.
\<close>

definition clean_cpu :: "u8 \<Rightarrow> cpu \<Rightarrow> cpu" where
  "clean_cpu i fresh = fresh\<lparr>c_id := i, current_task := 0, kernel_stack := 0, need_resched := 0\<rparr>"

definition add_entry :: "u64 \<Rightarrow> cpu \<Rightarrow> 'a smp_scheme \<Rightarrow> 'a smp_scheme option" where
  "add_entry p cp s =
     (if length (cpu_addrs s) < MAX_CPUS
      then Some (s\<lparr>cpu_addrs := cpu_addrs s @ [p], cpus := cpus s @ [cp]\<rparr>) else None)"

definition set_gs :: "u64 \<Rightarrow> 'a smp_scheme \<Rightarrow> 'a smp_scheme" where
  "set_gs p s = wrmsr MSR_KERNEL_GS_BASE p (wrmsr MSR_GS_BASE p s)"

definition cpu_early_init :: "u64 \<Rightarrow> cpu \<Rightarrow> 'a smp_scheme \<Rightarrow> 'a smp_scheme option" where
  "cpu_early_init bsp_cpu fresh s = do { s1 \<leftarrow> add_entry bsp_cpu (clean_cpu 0 fresh) s; Some (set_gs bsp_cpu s1) }"

definition cpu_init :: "u8 \<Rightarrow> cpu \<Rightarrow> 'a smp_scheme \<Rightarrow> 'a smp_scheme option" where
  "cpu_init apic_id fresh s =
     (if apic_id = 0 then Some s
      else do {
        (cp, s1) \<leftarrow> kmalloc_k CPU_SIZE s;
        s2 \<leftarrow> add_entry cp (clean_cpu apic_id fresh) s1;
        Some (set_gs cp s2) })"

definition cpu_get_count :: "'a smp_scheme \<Rightarrow> nat" where "cpu_get_count s = length (cpu_addrs s)"

text \<open>An entry of the array that was never written is a null pointer, an index outside reads beside it.\<close>

definition cpu_get_by_index :: "nat \<Rightarrow> 'a smp_scheme \<Rightarrow> u64 option" where
  "cpu_get_by_index i s =
     (if i < length (cpu_addrs s) then Some (cpu_addrs s ! i) else if i < MAX_CPUS then Some 0 else None)"

text \<open>The processor whose data the register \<open>gs\<close> points to.\<close>

definition get_cpu :: "'a smp_scheme \<Rightarrow> u64" where "get_cpu s = msrs s MSR_GS_BASE"

definition tss_set_rsp0 :: "nat \<Rightarrow> u64 \<Rightarrow> 'a ksys_scheme \<Rightarrow> 'a ksys_scheme" where
  "tss_set_rsp0 c v s = upd_cpu c (\<lambda>cp. cp\<lparr>tss_rsp0 := v\<rparr>) s"

subsection \<open>A processor starts\<close>

text \<open>The task state segment lies 112 bytes behind the start of a processor's data.\<close>

definition gdt_init_cpu :: "nat \<Rightarrow> gdt_entry list \<Rightarrow> 'a smp_scheme \<Rightarrow> 'a smp_scheme" where
  "gdt_init_cpu c fresh s =
     (let s1 = tss_set_rsp0 c 0 s in s1\<lparr>gdts := (gdts s1)[c := gdt_init (cpu_addrs s1 ! c + 112) fresh]\<rparr>)"

text \<open>
  The start of an application processor up to the loop it waits in; the interrupt table is loaded by an assembly
  routine.
\<close>

definition ap_main :: "u64 \<Rightarrow> cpu \<Rightarrow> gdt_entry list \<Rightarrow> 'a smp_scheme \<Rightarrow> 'a smp_scheme option" where
  "ap_main apic_id_64 fresh fresh_gdt s = do {
     let apic_id = (ucast apic_id_64 :: u8);
     let c = length (cpus s);
     s1 \<leftarrow> cpu_init apic_id fresh s;
     let s2 = gdt_init_cpu c fresh_gdt (s1\<lparr>gdts := gdts s1 @ [([], gdt_set_tss 0 0)]\<rparr>);
     s3 \<leftarrow> lapic_timer_init 100 (lapic_init s2);
     s4 \<leftarrow> task_init_per_cpu c s3;
     Some (s4\<lparr>ap_started_count := ap_started_count s4 + 1\<rparr>) }"

subsection \<open>Starting the others\<close>

definition read_started :: "'a smp_scheme \<Rightarrow> int \<times> 'a smp_scheme" where
  "read_started s = (started_reads s (started_pos s), s\<lparr>started_pos := started_pos s + 1\<rparr>)"

text \<open>\<open>while (ap_started_count == current_count && timeout--)\<close>; the first argument is \<open>timeout\<close>.\<close>

primrec wait_started :: "nat \<Rightarrow> int \<Rightarrow> 'a smp_scheme \<Rightarrow> 'a smp_scheme" where
  "wait_started 0 current_count s = snd (read_started s)"
| "wait_started (Suc timeout) current_count s =
     (let (n, s1) = read_started s in if n = current_count then wait_started timeout current_count s1 else s1)"

definition start_cpu :: "u8 \<Rightarrow> 'a smp_scheme \<Rightarrow> 'a smp_scheme option" where
  "start_cpu apic_id s = do {
     let s1 = s\<lparr>tramp_apic_id := ucast apic_id\<rparr>;
     (stack, s2) \<leftarrow> kmalloc_k (4096 * 4) s1;
     let s3 = s2\<lparr>tramp_stack := stack + 4096 * 4\<rparr>;
     let (current_count, s4) = read_started s3;
     s5 \<leftarrow> delay_ms 10 (lapic_send_ipi apic_id 0x500 s4);
     s6 \<leftarrow> delay_us 200 (lapic_send_ipi apic_id 0x608 s5);
     let (n, s7) = read_started s6;
     s8 \<leftarrow> (if n = current_count then delay_us 200 (lapic_send_ipi apic_id 0x608 s7) else Some s7);
     Some (wait_started 100000 current_count s8) }"

fun start_cpus :: "u8 \<Rightarrow> u8 list \<Rightarrow> 'a smp_scheme \<Rightarrow> 'a smp_scheme option" where
  "start_cpus bsp_id [] s = Some s"
| "start_cpus bsp_id (apic_id # ids) s =
     (if apic_id = bsp_id then start_cpus bsp_id ids s
      else do { s1 \<leftarrow> start_cpu apic_id s; start_cpus bsp_id ids s1 })"

text \<open>\<open>ap\<close> is the address of \<open>ap_main\<close>. The copy of the start-up code itself is not represented.\<close>

definition smp_init :: "u64 \<Rightarrow> 'a smp_scheme \<Rightarrow> 'a smp_scheme option" where
  "smp_init ap s =
     (let s1 = s\<lparr>tramp_p4 := cr3 (kvm s), tramp_entry := ap\<rparr>;
          (cpu_ids, cpu_count) = acpi_get_cpu_ids (macpi s1);
          bsp_id = lapic_get_id s1
      in start_cpus bsp_id (take cpu_count cpu_ids) s1)"

subsection \<open>The wake-up sequence\<close>

text \<open>A time stamp counter that passes every value again and again.\<close>

definition tsc_runs :: "'a machine_scheme \<Rightarrow> bool" where
  "tsc_runs s \<longleftrightarrow> (\<forall>t n. \<exists>m \<ge> n. t \<le> tsc_reads s m)"

lemma delay_us_total: "tsc_runs s \<Longrightarrow> \<exists>p. delay_us us s = Some (s\<lparr>tsc_pos := p\<rparr>)"
proof (cases "tsc_freq_mhz s = 0")
  case True
  then show ?thesis by (intro exI [of _ "tsc_pos s"]) (simp add: delay_us_def)
next
  case False
  assume r: "tsc_runs s"
  let ?s1 = "s\<lparr>tsc_pos := tsc_pos s + 1\<rparr>"
  let ?t = "tsc_reads s (tsc_pos s) + ucast us * tsc_freq_mhz s"
  obtain m where "tsc_pos ?s1 \<le> m" "?t \<le> tsc_reads ?s1 m" using r by (auto simp: tsc_runs_def)
  from wait_tsc_returns [OF this] obtain n where "wait_tsc ?t ?s1 = Some (?s1\<lparr>tsc_pos := n + 1\<rparr>)" by blast
  then show ?thesis using False by (intro exI [of _ "n + 1"]) (simp add: delay_us_def rdtsc_def)
qed

text \<open>The pair of register writes that sends a command to a processor.\<close>

definition ipi :: "u64 \<Rightarrow> u32 \<Rightarrow> u8 \<Rightarrow> (u64 \<times> u32) list" where
  "ipi base v i = [(base + 0x310, push_bit 24 (ucast i)), (base + 0x300, v)]"

definition wake :: "u64 \<Rightarrow> bool \<Rightarrow> u8 \<Rightarrow> (u64 \<times> u32) list" where
  "wake base again i = ipi base 0x500 i @ ipi base 0x608 i @ (if again then ipi base 0x608 i else [])"

lemma send_ipi: "lapic_send_ipi i v s = s\<lparr>mmio_out := mmio_out s @ ipi (lapic_base s) v i\<rparr>"
  by (simp add: lapic_send_ipi_def ipi_def)

text \<open>What a wait changes: positions in the inputs.\<close>

lemma wait_started_frame: "\<exists>p. wait_started n cur s = s\<lparr>started_pos := p\<rparr> \<and> p \<le> started_pos s + n + 1"
proof (induction n arbitrary: s)
  case 0
  then show ?case by (intro exI [of _ "started_pos s + 1"]) (simp add: read_started_def)
next
  case (Suc n)
  obtain p where "wait_started n cur (s\<lparr>started_pos := started_pos s + 1\<rparr>) = s\<lparr>started_pos := p\<rparr>" "p \<le> started_pos s + 1 + n + 1"
    using Suc [of "s\<lparr>started_pos := started_pos s + 1\<rparr>"] by auto
  then show ?case
    by (cases "started_reads s (started_pos s) = cur")
      (auto simp: read_started_def intro: exI [of _ "started_pos s + 1"] exI [of _ p])
qed

lemma start_cpu_wakes:
  fixes s :: "'a smp_scheme"
  assumes "heap_inv (heap s)" and "tsc_runs s"
  shows "\<exists>s' b. start_cpu i s = Some s' \<and> mmio_out s' = mmio_out s @ wake (lapic_base s) b i \<and> lapic_base s' = lapic_base s \<and>
    heap_inv (heap s') \<and> tsc_runs s' \<and> started_pos s' \<le> started_pos s + 100003 \<and>
    tramp_apic_id s' = ucast i \<and> tramp_p4 s' = tramp_p4 s \<and> tramp_entry s' = tramp_entry s"
proof -
  have runs: "tsc_runs (t\<lparr>tsc_pos := p\<rparr>) = tsc_runs t" "tsc_runs (t\<lparr>mmio_out := q\<rparr>) = tsc_runs t" for t :: "'z smp_scheme" and p q
    by (simp_all add: tsc_runs_def)
  obtain stk h where h: "kmalloc (4096 * 4) (heap s) = Some (stk, h)" using kmalloc_total [OF assms(1)] by blast
  have hi: "heap_inv h" using heap.malloc_null [OF assms(1)] heap.malloc_live [OF assms(1) h] h by (cases "stk = 0") auto
  define s4 where "s4 = s\<lparr>tramp_apic_id := ucast i, heap := h, tramp_stack := stk + 16384, started_pos := Suc (started_pos s)\<rparr>"
  let ?c = "started_reads s (started_pos s)"
  have r4: "tsc_runs s4" using assms(2) by (simp add: tsc_runs_def s4_def)
  obtain p where d1: "delay_ms 10 (lapic_send_ipi i 0x500 s4) = Some ((lapic_send_ipi i 0x500 s4)\<lparr>tsc_pos := p\<rparr>)"
    using delay_us_total [of "lapic_send_ipi i 0x500 s4" "10 * 1000"] r4 by (auto simp: delay_ms_def send_ipi runs)
  define s5 where "s5 = (lapic_send_ipi i 0x500 s4)\<lparr>tsc_pos := p\<rparr>"
  have r5: "tsc_runs s5" using r4 by (simp add: s5_def send_ipi runs)
  obtain p' where d2: "delay_us 200 (lapic_send_ipi i 0x608 s5) = Some ((lapic_send_ipi i 0x608 s5)\<lparr>tsc_pos := p'\<rparr>)"
    using delay_us_total [of "lapic_send_ipi i 0x608 s5" 200] r5 by (auto simp: send_ipi runs)
  define s7 where "s7 = (lapic_send_ipi i 0x608 s5)\<lparr>tsc_pos := p', started_pos := Suc (Suc (started_pos s))\<rparr>"
  have r7: "tsc_runs s7" using r5 by (simp add: s7_def send_ipi runs tsc_runs_def)
  obtain p'' where d3: "delay_us 200 (lapic_send_ipi i 0x608 s7) = Some ((lapic_send_ipi i 0x608 s7)\<lparr>tsc_pos := p''\<rparr>)"
    using delay_us_total [of "lapic_send_ipi i 0x608 s7" 200] r7 by (auto simp: send_ipi runs)
  define again where "again \<longleftrightarrow> started_reads s (Suc (started_pos s)) = ?c"
  define s8 where "s8 = (if again then (lapic_send_ipi i 0x608 s7)\<lparr>tsc_pos := p''\<rparr> else s7)"
  have run: "start_cpu i s = Some (wait_started 100000 ?c s8)"
  proof -
    have f: "started_reads (lapic_send_ipi i v t) = started_reads t" "started_pos (lapic_send_ipi i v t) = started_pos t" for v and t :: "'a smp_scheme"
      by (simp_all add: send_ipi)
    have f5: "started_reads s5 = started_reads s" "started_pos s5 = Suc (started_pos s)" by (simp_all add: s5_def s4_def f)
    show ?thesis using h d1 d2 d3 unfolding s5_def [symmetric]
      by (simp add: start_cpu_def kmalloc_k_def read_started_def s4_def [symmetric] f f5 s8_def again_def s7_def [symmetric])
  qed
  obtain q where q: "wait_started 100000 ?c s8 = s8\<lparr>started_pos := q\<rparr>" "q \<le> started_pos s8 + 100001"
    using wait_started_frame [of 100000 ?c s8] by auto
  have "tsc_runs s8" using r7 by (simp add: s8_def send_ipi runs)
  then have "tsc_runs (s8\<lparr>started_pos := q\<rparr>)" by (simp add: tsc_runs_def)
  moreover have "mmio_out s8 = mmio_out s @ wake (lapic_base s) again i" "lapic_base s8 = lapic_base s" "heap s8 = h"
    "started_pos s8 = started_pos s + 2" "tramp_apic_id s8 = ucast i" "tramp_p4 s8 = tramp_p4 s" "tramp_entry s8 = tramp_entry s"
    by (simp_all add: s8_def s7_def s5_def s4_def send_ipi wake_def)
  ultimately show ?thesis using run q hi by (intro exI [of _ "s8\<lparr>started_pos := q\<rparr>"] exI [of _ again]) simp
qed

lemma start_cpus_wake:
  assumes "heap_inv (heap s)" and "tsc_runs s"
  shows "\<exists>s' bs. start_cpus bsp ids s = Some s' \<and> length bs = length (filter (\<lambda>i. i \<noteq> bsp) ids) \<and>
    mmio_out s' = mmio_out s @ concat (map2 (wake (lapic_base s)) bs (filter (\<lambda>i. i \<noteq> bsp) ids)) \<and>
    heap_inv (heap s') \<and> tramp_p4 s' = tramp_p4 s \<and> tramp_entry s' = tramp_entry s \<and>
    started_pos s' \<le> started_pos s + 100003 * length (filter (\<lambda>i. i \<noteq> bsp) ids)"
  using assms
proof (induction ids arbitrary: s)
  case (Cons i ids)
  show ?case
  proof (cases "i = bsp")
    case True
    then show ?thesis using Cons by simp
  next
    case False
    obtain s1 b where a: "start_cpu i s = Some s1" "mmio_out s1 = mmio_out s @ wake (lapic_base s) b i" "lapic_base s1 = lapic_base s"
      "heap_inv (heap s1)" "tsc_runs s1" "started_pos s1 \<le> started_pos s + 100003" "tramp_p4 s1 = tramp_p4 s" "tramp_entry s1 = tramp_entry s"
      using start_cpu_wakes [OF Cons.prems] by blast
    obtain s' bs where b: "start_cpus bsp ids s1 = Some s'" "length bs = length (filter (\<lambda>i. i \<noteq> bsp) ids)"
      "mmio_out s' = mmio_out s1 @ concat (map2 (wake (lapic_base s1)) bs (filter (\<lambda>i. i \<noteq> bsp) ids))"
      "heap_inv (heap s')" "tramp_p4 s' = tramp_p4 s1" "tramp_entry s' = tramp_entry s1"
      "started_pos s' \<le> started_pos s1 + 100003 * length (filter (\<lambda>i. i \<noteq> bsp) ids)"
      using Cons.IH [OF a(4,5)] by blast
    show ?thesis using False a b by (intro exI [of _ s'] exI [of _ "b # bs"]) simp
  qed
qed (auto intro: exI [of _ "[]"])

text \<open>
  C29. Whatever the other processors do, \<open>smp_init\<close> returns while the time stamp counter runs, after at most 100003 looks
  at the start counter per processor. In the order of the ACPI table every processor but the one it runs on is sent
  the reset command and then the start command for the code at \<open>0x8000\<close>, once or twice, and nothing else is
  written to the controller; the start-up code gets the page tables of the first processor and the entry.
\<close>

theorem smp_init_wakes:
  assumes "heap_inv (heap s)" and "tsc_runs s"
  shows "\<exists>s' bs. smp_init ap s = Some s' \<and>
    length bs = length (filter (\<lambda>i. i \<noteq> lapic_get_id s) (known_ids (macpi s))) \<and>
    mmio_out s' = mmio_out s @ concat (map2 (wake (lapic_base s)) bs (filter (\<lambda>i. i \<noteq> lapic_get_id s) (known_ids (macpi s)))) \<and>
    heap_inv (heap s') \<and> tramp_p4 s' = cr3 (kvm s) \<and> tramp_entry s' = ap \<and>
    started_pos s' \<le> started_pos s + 100003 * length (filter (\<lambda>i. i \<noteq> lapic_get_id s) (known_ids (macpi s)))"
proof -
  let ?s = "s\<lparr>tramp_p4 := cr3 (kvm s), tramp_entry := ap\<rparr>"
  have "tsc_runs ?s" using assms(2) by (simp add: tsc_runs_def)
  moreover have "lapic_get_id ?s = lapic_get_id s" by (simp add: lapic_get_id_def lapic_read_def)
  moreover have "smp_init ap s = start_cpus (lapic_get_id ?s) (known_ids (macpi s)) ?s"
    by (simp add: smp_init_def acpi_get_cpu_ids_def known_ids_def Let_def)
  ultimately show ?thesis using start_cpus_wake [of ?s "lapic_get_id s" "known_ids (macpi s)"] assms(1) by simp
qed

subsection \<open>A started processor\<close>

lemma kmalloc_k_room:
  assumes "heap_inv (heap s)" and "has_room (k + unat (align8 n) + 24) (heap s)" and "8 \<le> k"
  obtains p h where "kmalloc_k n s = Some (p, s\<lparr>heap := h\<rparr>)" "p \<noteq> 0" "heap_inv h" "has_room k h"
  using kmalloc_room [OF assms] by (metis (no_types, lifting) bind.bind_lunit kmalloc_k_def case_prod_conv)

text \<open>
  A processor with an id other than 0 comes up: \<open>ap_main\<close> adds it behind the others, whose entries stay as they
  are, with its own data found through \<open>gs\<close>, a descriptor of its own task state segment, an empty run queue and its
  idle task running; the timer of its controller is programmed and it is counted as started.
\<close>

theorem ap_main_boots:
  assumes "heap_inv (heap s)" and "has_room 1024 (heap s)" and "i \<noteq> 0"
    and "length (cpu_addrs s) < 64" and "length (cpus s) = length (cpu_addrs s)" and "length (gdts s) = length (cpu_addrs s)"
  shows "\<exists>s' p. ap_main (ucast i) fresh fresh_gdt s = Some s' \<and> heap_inv (heap s') \<and>
    cpu_addrs s' = cpu_addrs s @ [p] \<and> p \<noteq> 0 \<and> get_cpu s' = p \<and> length (cpus s') = length (cpus s) + 1 \<and>
    take (length (cpus s)) (cpus s') = cpus s \<and> c_id (cpus s' ! length (cpus s)) = i \<and>
    idle (length (cpus s)) s' \<noteq> 0 \<and> current (length (cpus s)) s' = idle (length (cpus s)) s' \<and>
    runqueue (cpus s' ! length (cpus s)) = \<lparr>rq_head = 0, rq_tail = 0, rq_count = 0\<rparr> \<and>
    tss_base (snd (gdts s' ! length (cpus s))) = p + 112 \<and> seg_limit (snd (gdts s' ! length (cpus s))) = 103 \<and>
    (lapic_base s' + 0x380, 100000) \<in> set (mmio_out s') \<and> ap_started_count s' = ap_started_count s + 1"
proof -
  let ?c = "length (cpus s)"
  have room: "has_room (112 + unat (align8 CPU_SIZE) + 24) (heap s)"
    using assms(2) by (rule has_room_mono) (simp add: align8_def CPU_SIZE_def)
  obtain p h where p: "kmalloc_k CPU_SIZE s = Some (p, s\<lparr>heap := h\<rparr>)" "p \<noteq> 0" "heap_inv h" "has_room 112 h"
    by (rule kmalloc_k_room [OF assms(1) room]) simp
  have i: "(ucast (ucast i :: u64) :: u8) = i" by (rule bit_word_eqI) (auto simp: bit_simps)
  define s1 where "s1 = set_gs p (s\<lparr>heap := h, cpu_addrs := cpu_addrs s @ [p], cpus := cpus s @ [clean_cpu i fresh]\<rparr>)"
  have init: "cpu_init i fresh s = Some s1" using assms(3,4) p(1) by (simp add: cpu_init_def add_entry_def MAX_CPUS_def s1_def)
  define s2 where "s2 = gdt_init_cpu ?c fresh_gdt (s1\<lparr>gdts := gdts s1 @ [([], gdt_set_tss 0 0)]\<rparr>)"
  obtain s3 where s3: "lapic_timer_init 100 (lapic_init s2) = Some s3" by (simp add: lapic_timer_init_def)
  have f1: "heap s1 = h" "cpu_addrs s1 = cpu_addrs s @ [p]" "cpus s1 = cpus s @ [clean_cpu i fresh]" "gdts s1 = gdts s" "get_cpu s1 = p"
    "ap_started_count s1 = ap_started_count s"
    by (simp_all add: s1_def set_gs_def wrmsr_value get_cpu_def MSR_GS_BASE_def MSR_KERNEL_GS_BASE_def)
  have f2: "heap s2 = h" "cpu_addrs s2 = cpu_addrs s @ [p]" "cpus s2 = cpus s @ [(clean_cpu i fresh)\<lparr>tss_rsp0 := 0\<rparr>]"
    "gdts s2 = gdts s @ [gdt_init (p + 112) fresh_gdt]" "get_cpu s2 = p" "ap_started_count s2 = ap_started_count s"
    using f1 assms(5,6) by (simp_all add: s2_def gdt_init_cpu_def tss_set_rsp0_def upd_cpu_def get_cpu_def nth_append list_update_append)
  have f3: "heap s3 = h" "cpu_addrs s3 = cpu_addrs s @ [p]" "cpus s3 = cpus s @ [(clean_cpu i fresh)\<lparr>tss_rsp0 := 0\<rparr>]"
    "gdts s3 = gdts s @ [gdt_init (p + 112) fresh_gdt]" "get_cpu s3 = p" "ap_started_count s3 = ap_started_count s"
    "(lapic_base s3 + 0x380, 100000) \<in> set (mmio_out s3)"
    using f2 s3 by (auto simp: lapic_timer_init_def lapic_init_def lapic_write_def wrmsr_value get_cpu_def LAPIC_TMRINIT_def
        MSR_APIC_BASE_def MSR_GS_BASE_def Let_def)
  define s4 where "s4 = upd_cpu ?c (\<lambda>cp. cp\<lparr>runqueue := \<lparr>rq_head = 0, rq_tail = 0, rq_count = 0\<rparr>\<rparr>) s3"
  have "heap_inv (heap s4)" "has_room (8 + unat (align8 TASK_SIZE) + 24) (heap s4)"
    using p(3,4) by (simp_all add: s4_def upd_cpu_def f3 align8_def TASK_SIZE_def)
  then obtain t h' where t: "kmalloc_k TASK_SIZE s4 = Some (t, s4\<lparr>heap := h'\<rparr>)" "t \<noteq> 0" "heap_inv h'"
    by (rule kmalloc_k_room) simp_all
  show ?thesis
    unfolding ap_main_def Let_def i init bind.bind_lunit s2_def [symmetric] s3 task_init_per_cpu_def s4_def [symmetric] t(1) case_prod_conv
    using t(2,3) p(2) f3
    by (simp add: upd_cpu_def upd_task_def current_def idle_def s4_def nth_append list_update_append get_cpu_def clean_cpu_def
        gdt_init_def tss_base_roundtrip tss_limit assms(5,6))
qed

text \<open>The id 0 is taken for the first processor, whatever its id is: no entry is added and \<open>gs\<close> is not set.\<close>

lemma cpu_init_zero: "cpu_init 0 fresh s = Some s"
  by (simp add: cpu_init_def)

subsection \<open>Instances\<close>

text \<open>Two processors in the ACPI table; the sequence starts on the one with id 0, the only one in the table so far.\<close>

definition smp_demo :: smp where
  "smp_demo = machine.extend (machine_demo [0, 1])
     (smp.fields [0x200000] [gdt_init 0x200070 (replicate 5 \<lparr>limit_low = 0, base_low = 0, base_middle = 0, access = 0, granularity = 0, base_high = 0\<rparr>)]
        0 0 0 0 (\<lambda>n. if n < 3 then 0 else 1) 0 0)"

lemma smp_demo_fields: "heap smp_demo = heap0" "tsc_reads smp_demo = word_of_nat" "lapic_get_id smp_demo = 0"
  "known_ids (macpi smp_demo) = [0, 1]" "cpu_addrs smp_demo = [0x200000]" "length (gdts smp_demo) = 1" "length (cpus smp_demo) = 1"
  "lapic_base smp_demo = 0xFEE00000"
  by (simp_all add: smp_demo_def machine.defs smp.defs machine_demo_def intr.defs fault_sys_def ksys.defs demo1_def demo_sys_def
      lapic_get_id_def lapic_read_def known_ids_def demo_input_def)

lemma smp_init_wakes_witness:
  "\<exists>s' b. smp_init 0x104000 smp_demo = Some s' \<and> mmio_out s' = mmio_out smp_demo @ wake 0xFEE00000 b 1 \<and> tramp_entry s' = 0x104000"
proof -
  have "\<exists>m \<ge> n. t \<le> tsc_reads smp_demo m" for t :: u64 and n
  proof -
    have "\<exists>m \<ge> n. (word_of_nat m :: u64) = t"
    proof (intro exI conjI)
      have "(2 ^ 64 :: u64) = 0" by simp
      then show "(word_of_nat (unat t + n * 2 ^ 64) :: u64) = t" by (simp only: of_nat_add of_nat_mult of_nat_power of_nat_numeral) simp
    qed simp
    then show ?thesis by (auto simp: smp_demo_fields)
  qed
  then have "tsc_runs smp_demo" by (simp add: tsc_runs_def)
  moreover have "heap_inv (heap smp_demo)" using heap0_inv by (simp add: smp_demo_fields)
  ultimately obtain s' bs where s': "smp_init 0x104000 smp_demo = Some s'" "length bs = 1"
    "mmio_out s' = mmio_out smp_demo @ concat (map2 (wake (lapic_base smp_demo)) bs [1])" "tramp_entry s' = 0x104000"
    using smp_init_wakes [of smp_demo "0x104000"] by (auto simp: smp_demo_fields)
  then obtain b where "bs = [b]" by (cases bs) auto
  then show ?thesis using s' by (auto simp: smp_demo_fields)
qed

lemma ap_main_boots_witness:
  "\<exists>s' p. ap_main (ucast (1 :: u8)) (cpus smp_demo ! 0) [] smp_demo = Some s' \<and> cpu_addrs s' = [0x200000, p] \<and> get_cpu s' = p \<and> p \<noteq> 0"
proof -
  have "has_room 1024 (heap smp_demo)" using heap0_blocks by (auto simp: smp_demo_fields has_room_def)
  then show ?thesis
    using ap_main_boots [of smp_demo "1 :: u8" "cpus smp_demo ! 0" "[]"] heap0_inv by (auto simp: smp_demo_fields)
qed

end
