(* ===== verification/Ext2.thy ===== *)
theory Ext2
  imports Vfs Heap_Clients
begin

text \<open>
  The ext2 driver of \<open>src/kernel/ext2.c\<close>: superblock, inodes, reading a file through its direct blocks and the search
  in a directory. Blocks are read through the ATA driver into buffers from the kernel heap; what such a buffer
  holds before it is filled is the input \<open>garbage\<close>. \<open>None\<close> stands for an access outside a buffer or through a
  null pointer, a division by zero, an undefined shift, and a loop without end.
\<close>

subsection \<open>Structures on the disk\<close>

definition u16_at :: "nat \<Rightarrow> u8 list \<Rightarrow> u16" where
  "u16_at i bs = le16 (bs ! i) (bs ! (i + 1))"

definition u32_at :: "nat \<Rightarrow> u8 list \<Rightarrow> u32" where
  "u32_at i bs = ucast (u16_at i bs) OR push_bit 16 (ucast (u16_at (i + 2) bs))"

definition EXT2_MAGIC :: u16 where "EXT2_MAGIC = 0xEF53"

text \<open>The fields the driver looks at.\<close>

record ext2_superblock =
  log_block_size :: u32
  inodes_per_group :: u32
  magic :: u16

definition superblock_of :: "u8 list \<Rightarrow> ext2_superblock" where
  "superblock_of bs = \<lparr>log_block_size = u32_at 24 bs, inodes_per_group = u32_at 40 bs, magic = u16_at 56 bs\<rparr>"

definition GROUP_DESC_SIZE :: nat where "GROUP_DESC_SIZE = 32"
definition inode_table :: "u8 list \<Rightarrow> nat \<Rightarrow> u32" where "inode_table bs i = u32_at (i + 8) bs"

record ext2_inode =
  i_mode :: u16
  i_size :: u32
  i_block :: "u32 list"

definition INODE_SIZE :: u32 where "INODE_SIZE = 128"

definition inode_of :: "u8 list \<Rightarrow> ext2_inode" where
  "inode_of bs = \<lparr>i_mode = u16_at 0 bs, i_size = u32_at 4 bs, i_block = map (\<lambda>k. u32_at (40 + 4 * k) bs) [0..<15]\<rparr>"

definition VFS_FILE :: u32 where "VFS_FILE = 1"
definition VFS_DIRECTORY :: u32 where "VFS_DIRECTORY = 2"
definition VFS_NODE_SIZE :: u64 where "VFS_NODE_SIZE = 160"

record vfs_node =
  node_addr :: u64
  node_name :: "u8 list"
  node_flags :: u32
  node_inode :: u32

record ext2 = drive +
  eheap :: kheap
  garbage :: "nat \<Rightarrow> u8"
  superblock :: "ext2_superblock option"
  block_size :: u32
  vfs_root :: "vfs_node option"

subsection \<open>Buffers and blocks\<close>

text \<open>A buffer from the heap, with its address; a null pointer is not a buffer.\<close>

definition new_buffer :: "u64 \<Rightarrow> 'a ext2_scheme \<Rightarrow> (u64 \<times> u8 list \<times> 'a ext2_scheme) option" where
  "new_buffer n s = do {
     (p, h) \<leftarrow> kmalloc n (eheap s);
     if p = 0 then None else Some (p, map (garbage s) [0..<unat n], s\<lparr>eheap := h\<rparr>) }"

definition free_buffer :: "u64 \<Rightarrow> 'a ext2_scheme \<Rightarrow> 'a ext2_scheme option" where
  "free_buffer p s = do { h \<leftarrow> kfree p (eheap s); Some (s\<lparr>eheap := h\<rparr>) }"

text \<open>Sector \<open>i\<close> of the list goes to byte \<open>i * 512\<close> of the buffer.\<close>

fun read_sectors :: "nat list \<Rightarrow> u32 \<Rightarrow> u8 list \<Rightarrow> 'a drive_scheme \<Rightarrow> (u8 list \<times> 'a drive_scheme) option" where
  "read_sectors [] base buffer s = Some (buffer, s)"
| "read_sectors (i # is) base buffer s =
     (case ata_read_sector (base + word_of_nat i) (take 512 (drop (i * 512) buffer)) s of (data, s1) \<Rightarrow>
        do { buffer1 \<leftarrow> store_at (i * 512) data buffer; read_sectors is base buffer1 s1 })"

definition read_block :: "u32 \<Rightarrow> u8 list \<Rightarrow> 'a ext2_scheme \<Rightarrow> (u8 list \<times> 'a ext2_scheme) option" where
  "read_block block buffer s =
     (let sectors_per_block = block_size s div 512
      in read_sectors [0..<unat sectors_per_block] (block * sectors_per_block) buffer s)"

subsection \<open>Inodes\<close>

definition read_inode :: "u32 \<Rightarrow> 'a ext2_scheme \<Rightarrow> (ext2_inode \<times> 'a ext2_scheme) option" where
  "read_inode inode_num s = do {
     sb \<leftarrow> superblock s;
     if inodes_per_group sb = 0 then None
     else do {
       let group = (inode_num - 1) div inodes_per_group sb;
       let index = (inode_num - 1) mod inodes_per_group sb;
       let bgdt_block = (if block_size s = 1024 then 2 else 1);
       (bgdt_buf, d, s1) \<leftarrow> new_buffer (ucast (block_size s)) s;
       (bgdt, s2) \<leftarrow> read_block bgdt_block d s1;
       let bgd = unat group * GROUP_DESC_SIZE;
       if length bgdt < bgd + GROUP_DESC_SIZE then None
       else do {
         let offset = index * INODE_SIZE;
         if block_size s2 = 0 then None
         else do {
           let block = inode_table bgdt bgd + offset div block_size s2;
           let block_offset = offset mod block_size s2;
           (block_buf, e, s3) \<leftarrow> new_buffer (ucast (block_size s2)) s2;
           (bytes, s4) \<leftarrow> read_block block e s3;
           if length bytes < unat block_offset + unat INODE_SIZE then None
           else do {
             s5 \<leftarrow> free_buffer bgdt_buf s4;
             s6 \<leftarrow> free_buffer block_buf s5;
             Some (inode_of (take 128 (drop (unat block_offset) bytes)), s6) } } } } }"

subsection \<open>Files\<close>

text \<open>The loop of \<open>ext2_read\<close>, which stops at the thirteenth block.\<close>

function ext2_read_loop :: "ext2_inode \<Rightarrow> u32 \<Rightarrow> u32 \<Rightarrow> u32 \<Rightarrow> u8 list \<Rightarrow> u8 list \<Rightarrow> 'a ext2_scheme \<Rightarrow>
    (u32 \<times> u8 list \<times> 'a ext2_scheme) option" where
  "ext2_read_loop inode offset n bytes_read buffer block_buf s =
     (if bytes_read < n then
        if block_size s = 0 then None
        else
          let block_idx = (offset + bytes_read) div block_size s;
              block_off = (offset + bytes_read) mod block_size s;
              to_read = block_size s - block_off;
              to_read = (if n - bytes_read < to_read then n - bytes_read else to_read)
          in if 12 \<le> block_idx then Some (bytes_read, buffer, s)
             else
               let physical_block = i_block inode ! unat block_idx
               in if physical_block = 0 then
                    (case store_at (unat bytes_read) (replicate (unat to_read) 0) buffer of
                       None \<Rightarrow> None
                     | Some buffer1 \<Rightarrow> ext2_read_loop inode offset n (bytes_read + to_read) buffer1 block_buf s)
                  else
                    (case read_block physical_block block_buf s of
                       None \<Rightarrow> None
                     | Some (bytes, s1) \<Rightarrow>
                         case store_at (unat bytes_read) (take (unat to_read) (drop (unat block_off) bytes)) buffer of
                           None \<Rightarrow> None
                         | Some buffer1 \<Rightarrow> ext2_read_loop inode offset n (bytes_read + to_read) buffer1 bytes s1)
      else Some (bytes_read, buffer, s))"
  by pat_completeness auto

text \<open>The step of a copy loop over blocks of \<open>b\<close> bytes.\<close>

lemma block_progress:
  fixes n i off b :: u32
  assumes "i < n" and "b \<noteq> 0"
  defines "k \<equiv> (if n - i < b - (off + i) mod b then n - i else b - (off + i) mod b)"
  shows "unat (i + k) = unat i + unat k" "0 < unat k" "unat i + unat k \<le> unat n"
    "unat k = min (unat n - unat i) (unat b - unat (off + i) mod unat b)"
proof -
  have m: "unat ((off + i) mod b) = unat (off + i) mod unat b" by (simp add: unat_mod_distrib)
  have lt: "unat (off + i) mod unat b < unat b" using assms(2) by (simp add: unat_gt_0)
  have d: "unat (b - (off + i) mod b) = unat b - unat (off + i) mod unat b"
    using lt by (subst unat_sub_if') (simp add: m)
  have n: "unat (n - i) = unat n - unat i" using assms(1) by (subst unat_sub_if') (simp add: word_less_nat_alt word_le_nat_alt)
  have i: "unat i < unat n" using assms(1) by (simp add: word_less_nat_alt)
  show k: "unat k = min (unat n - unat i) (unat b - unat (off + i) mod unat b)"
    by (simp add: k_def word_less_nat_alt n d min_def)
  show "0 < unat k" "unat i + unat k \<le> unat n" using i lt unfolding k by linarith+
  then have "unat i + unat k < 2 ^ 32" using unsigned_less [where 'a = nat, of n] by simp
  then show "unat (i + k) = unat i + unat k" by (simp add: unat_plus_if')
qed

lemma block_shrinks:
  fixes n i off b k bo tr :: u32
  assumes "i < n" and "b \<noteq> 0" and "bo = (off + i) mod b" and "tr = b - bo" and "k = (if n - i < tr then n - i else tr)"
  shows "unat n - unat (i + k) < unat n - unat i"
proof -
  have k: "k = (if n - i < b - (off + i) mod b then n - i else b - (off + i) mod b)" using assms(3-5) by simp
  show ?thesis using block_progress(1-3) [OF assms(1,2), of off, folded k] by linarith
qed

termination ext2_read_loop
  by (relation "measure (\<lambda>(inode, off, n, br, b, bb, s). unat n - unat br)")
    (rule wf_measure | (unfold in_measure prod.case, erule block_shrinks; assumption))+

declare ext2_read_loop.simps [simp del]

definition ext2_read :: "u32 \<Rightarrow> u32 \<Rightarrow> u32 \<Rightarrow> u8 list \<Rightarrow> 'a ext2_scheme \<Rightarrow> (u32 \<times> u8 list \<times> 'a ext2_scheme) option" where
  "ext2_read inode_num offset n buffer s = do {
     (inode, s1) \<leftarrow> read_inode inode_num s;
     if i_size inode \<le> offset then Some (0, buffer, s1)
     else do {
       let n = (if i_size inode < offset + n then i_size inode - offset else n);
       (block_buf, d, s2) \<leftarrow> new_buffer (ucast (block_size s1)) s1;
       (bytes_read, buffer1, s3) \<leftarrow> ext2_read_loop inode offset n 0 buffer d s2;
       s4 \<leftarrow> free_buffer block_buf s3;
       Some (bytes_read, buffer1, s4) } }"

subsection \<open>Directories\<close>

text \<open>The bytes up to the terminator that the copy of an entry's name gets; \<open>strcmp\<close> compares them.\<close>

definition entry_name :: "u8 list \<Rightarrow> nat \<Rightarrow> u8 list" where
  "entry_name bytes i = takeWhile (\<lambda>c. c \<noteq> 0) (take (unat (bytes ! (i + 6))) (drop (i + 8) bytes))"

text \<open>The entry with the name, if any: its inode and file type.\<close>

partial_function (option) scan_entries :: "u32 \<Rightarrow> u8 list \<Rightarrow> u8 list \<Rightarrow> u32 \<Rightarrow> (u32 \<times> u8) option option" where
  "scan_entries bsize bytes name offset =
     (if offset < bsize then
        if length bytes < unat offset + 8 \<or> length bytes < unat offset + 8 + unat (bytes ! (unat offset + 6)) then None
        else if entry_name bytes (unat offset) = name then
          Some (Some (u32_at (unat offset) bytes, bytes ! (unat offset + 7)))
        else scan_entries bsize bytes name (offset + ucast (u16_at (unat offset + 4) bytes))
      else Some None)"

text \<open>The loop over the direct blocks, with the buffer's contents.\<close>

fun scan_blocks :: "u32 list \<Rightarrow> u8 list \<Rightarrow> u8 list \<Rightarrow> 'a ext2_scheme \<Rightarrow> ((u32 \<times> u8) option \<times> 'a ext2_scheme) option" where
  "scan_blocks [] name d s = Some (None, s)"
| "scan_blocks (b # bs) name d s =
     (if b = 0 then scan_blocks bs name d s
      else do {
        (bytes, s1) \<leftarrow> read_block b d s;
        r \<leftarrow> scan_entries (block_size s1) bytes name 0;
        (case r of Some e \<Rightarrow> Some (Some e, s1) | None \<Rightarrow> scan_blocks bs name bytes s1) })"

text \<open>The name is copied into 128 bytes of the new node.\<close>

definition make_node :: "u8 list \<Rightarrow> u32 \<times> u8 \<Rightarrow> 'a ext2_scheme \<Rightarrow> (vfs_node \<times> 'a ext2_scheme) option" where
  "make_node name e s = do {
     (res, d, s1) \<leftarrow> new_buffer VFS_NODE_SIZE s;
     if 128 < length name + 1 then None
     else Some (\<lparr>node_addr = res, node_name = name, node_flags = (if snd e = 2 then VFS_DIRECTORY else VFS_FILE), node_inode = fst e\<rparr>, s1) }"

definition ext2_finddir :: "u32 \<Rightarrow> u8 list \<Rightarrow> 'a ext2_scheme \<Rightarrow> (vfs_node option \<times> 'a ext2_scheme) option" where
  "ext2_finddir inode_num name s = do {
     (inode, s1) \<leftarrow> read_inode inode_num s;
     if i_mode inode AND 0x4000 = 0 then Some (None, s1)
     else do {
       (block_buf, d, s2) \<leftarrow> new_buffer (ucast (block_size s1)) s1;
       (r, s3) \<leftarrow> scan_blocks (take 12 (i_block inode)) name d s2;
       (case r of
          None \<Rightarrow> do { s4 \<leftarrow> free_buffer block_buf s3; Some (None, s4) }
        | Some e \<Rightarrow> do {
            (res, s4) \<leftarrow> make_node name e s3;
            s5 \<leftarrow> free_buffer block_buf s4;
            Some (Some res, s5) }) } }"

subsection \<open>Initialization\<close>

text \<open>\<open>1024 << log_block_size\<close> in \<open>int\<close>.\<close>

definition ext2_init :: "'a ext2_scheme \<Rightarrow> 'a ext2_scheme option" where
  "ext2_init s = do {
     (p, buffer, s1) \<leftarrow> new_buffer 1024 s;
     (buffer, s2) \<leftarrow> read_sectors [0, 1] 2 buffer s1;
     let sb = superblock_of buffer;
     let s3 = s2\<lparr>superblock := Some sb\<rparr>;
     if magic sb \<noteq> EXT2_MAGIC then Some s3
     else if 21 \<le> unat (log_block_size sb) then None
     else do {
       let s4 = s3\<lparr>block_size := push_bit (unat (log_block_size sb)) 1024\<rparr>;
       (q, d, s5) \<leftarrow> new_buffer VFS_NODE_SIZE s4;
       Some (s5\<lparr>vfs_root := Some \<lparr>node_addr = q, node_name = [47], node_flags = VFS_DIRECTORY, node_inode = 2\<rparr>\<rparr>) } }"

subsection \<open>Reading blocks\<close>

text \<open>The bytes of a block on the disk.\<close>

definition block_bytes :: "u32 \<Rightarrow> (u32 \<Rightarrow> u8 list) \<Rightarrow> u32 \<Rightarrow> u8 list" where
  "block_bytes bsize disk b = concat (map (\<lambda>i. disk (lba28 (b * (bsize div 512) + word_of_nat i))) [0..<unat (bsize div 512)])"

lemma same_drive_ext2:
  fixes s s' :: "'a ext2_scheme"
  assumes "same_drive s s'"
  shows "eheap s' = eheap s" "garbage s' = garbage s" "superblock s' = superblock s" "block_size s' = block_size s" "vfs_root s' = vfs_root s"
  using assms by (cases s; cases s'; simp add: same_drive_def)+

lemma length_sector_concat: "sectors_ok s \<Longrightarrow> length (concat (map (\<lambda>i. sectors s (f i)) xs)) = 512 * length xs"
  by (induction xs) (simp_all add: sectors_ok_def)

lemma read_sectors_reads:
  assumes "in_order s" and "sectors_ok s" and "512 * n \<le> length buffer" and "k \<le> n"
  shows "\<exists>s'. read_sectors [k..<n] base buffer s =
      Some (take (512 * k) buffer @ concat (map (\<lambda>i. sectors s (lba28 (base + word_of_nat i))) [k..<n]) @ drop (512 * n) buffer, s') \<and>
    sectors s' = sectors s \<and> same_drive s s'"
  using assms
proof (induction "n - k" arbitrary: k buffer s)
  case 0
  then show ?case by simp
next
  case (Suc m)
  then have k: "k < n" by simp
  have l: "length (sectors s (lba28 (base + word_of_nat k))) = 512" using Suc.prems(2) by (simp add: sectors_ok_def)
  obtain s1 where r: "ata_read_sector (base + word_of_nat k) (take 512 (drop (k * 512) buffer)) s = (sectors s (lba28 (base + word_of_nat k)), s1)"
    "sectors s1 = sectors s" "same_drive s s1" using ata_read_sector_reads [OF Suc.prems(1) l] by blast
  let ?b = "take (k * 512) buffer @ sectors s (lba28 (base + word_of_nat k)) @ drop (k * 512 + 512) buffer"
  have st: "store_at (k * 512) (sectors s (lba28 (base + word_of_nat k))) buffer = Some ?b"
    using k Suc.prems(3) by (simp add: store_at_def l)
  have io: "in_order s1" "sectors_ok s1" using r(2,3) Suc.prems(1,2) same_drive_in_order by (blast, simp add: sectors_ok_def)
  have lb: "length ?b = length buffer" using k Suc.prems(3) by (simp add: l)
  obtain s' where s': "read_sectors [Suc k..<n] base ?b s1 =
      Some (take (512 * Suc k) ?b @ concat (map (\<lambda>i. sectors s1 (lba28 (base + word_of_nat i))) [Suc k..<n]) @ drop (512 * n) ?b, s')"
    "sectors s' = sectors s1" "same_drive s1 s'"
  proof -
    have "m = n - Suc k" "512 * n \<le> length ?b" "Suc k \<le> n" using Suc.hyps(2) k lb Suc.prems(3) by simp_all
    from Suc.hyps(1) [OF this(1) io this(2,3)] show thesis using that by blast
  qed
  have "take (512 * Suc k) ?b = take (512 * k) buffer @ sectors s (lba28 (base + word_of_nat k))"
    using k Suc.prems(3) by (simp add: l ac_simps)
  moreover have "drop (512 * n) ?b = drop (512 * n) buffer"
    using k Suc.prems(3) by (simp add: l ac_simps)
  ultimately show ?case using k r s' st by (auto simp: upt_rec [of k n] intro: same_drive_trans)
qed

lemma read_block_reads:
  fixes s :: "'a ext2_scheme"
  assumes "in_order s" and "sectors_ok s" and "length buffer = unat (block_size s)" and "512 dvd unat (block_size s)"
  shows "\<exists>s'. read_block b buffer s = Some (block_bytes (block_size s) (sectors s) b, s') \<and> sectors s' = sectors s \<and> same_drive s s'"
proof -
  have n: "unat (block_size s div 512) = unat (block_size s) div 512" by (simp add: unat_div_distrib)
  have "512 * unat (block_size s div 512) = length buffer" using assms(3,4) by (simp add: n)
  then show ?thesis
    using read_sectors_reads [OF assms(1,2), of "unat (block_size s div 512)" buffer 0 "b * (block_size s div 512)"]
    by (simp add: read_block_def block_bytes_def Let_def)
qed

lemma length_block_bytes: "sectors_ok s \<Longrightarrow> 512 dvd unat bs \<Longrightarrow> length (block_bytes bs (sectors s) b) = unat bs"
  by (simp add: block_bytes_def length_sector_concat unat_div_distrib)

subsection \<open>Buffers that are given back\<close>

text \<open>What an operation leaves as it was: the disk, the volume and the allocations.\<close>

definition same_volume :: "'a ext2_scheme \<Rightarrow> 'a ext2_scheme \<Rightarrow> bool" where
  "same_volume s s' \<longleftrightarrow> sectors s' = sectors s \<and> ata_status s' = ata_status s \<and> garbage s' = garbage s \<and>
     superblock s' = superblock s \<and> block_size s' = block_size s \<and> vfs_root s' = vfs_root s"

definition kept :: "'a ext2_scheme \<Rightarrow> 'a ext2_scheme \<Rightarrow> bool" where
  "kept s s' \<longleftrightarrow> same_volume s s' \<and> heap_inv (eheap s') \<and> live (eheap s') = live (eheap s)"

lemma same_volume_trans [trans]: "same_volume s t \<Longrightarrow> same_volume t u \<Longrightarrow> same_volume s u"
  by (simp add: same_volume_def)

lemma same_volume_heap [simp]: "same_volume s (s\<lparr>eheap := h\<rparr>)" by (simp add: same_volume_def)

lemma same_volume_drive:
  fixes s s' :: "'a ext2_scheme"
  shows "sectors s' = sectors s \<Longrightarrow> same_drive s s' \<Longrightarrow> same_volume s s'"
  using same_drive_ext2 [of s s'] by (simp add: same_volume_def same_drive_def)

lemma kept_blocks: "heap_inv (eheap s) \<Longrightarrow> kept s s' \<Longrightarrow> heap_blocks (eheap s') = heap_blocks (eheap s)"
  unfolding kept_def using live_determines_blocks by blast

lemma kept_trans [trans]: "kept s t \<Longrightarrow> kept t u \<Longrightarrow> kept s u"
  by (auto simp: kept_def intro: same_volume_trans)

lemma new_buffer_room:
  assumes inv: "heap_inv (eheap s)" and room: "has_room (k + unat (align8 n) + 24) (eheap s)" and k: "8 \<le> k"
  obtains p j h where "new_buffer n s = Some (p, map (garbage s) [0..<unat n], s\<lparr>eheap := h\<rparr>)" "heap_inv h" "has_room k h"
    "(unat p, j) \<notin> live (eheap s)" "live h = insert (unat p, j) (live (eheap s))"
proof -
  from inv room k obtain p j h where h: "kmalloc n (eheap s) = Some (p, h)" "p \<noteq> 0" "heap_inv h" "has_room k h"
      "(unat p, j) \<notin> live (eheap s)" "live h = insert (unat p, j) (live (eheap s))"
    by (rule kmalloc_room)
  show thesis by (rule that [of p h j]) (use h in \<open>simp_all add: new_buffer_def\<close>)
qed

lemma free_buffer_live:
  assumes "heap_inv (eheap s)" and "(unat p, j) \<in> live (eheap s)"
  obtains h where "free_buffer p s = Some (s\<lparr>eheap := h\<rparr>)" "heap_inv h" "live h = live (eheap s) - {(unat p, j)}"
proof -
  from heap.give_back_live [OF assms] obtain h where "kfree p (eheap s) = Some h" "heap_inv h" "live h = live (eheap s) - {(unat p, j)}"
    by blast
  then show thesis using that by (simp add: free_buffer_def)
qed

subsection \<open>Reading inodes\<close>

text \<open>A mounted volume: a drive in order, blocks of whole sectors and a table of groups that fits its block.\<close>

definition mounted :: "ext2_superblock \<Rightarrow> 'a ext2_scheme \<Rightarrow> bool" where
  "mounted sb s \<longleftrightarrow> in_order s \<and> sectors_ok s \<and> heap_inv (eheap s) \<and> superblock s = Some sb \<and> inodes_per_group sb \<noteq> 0 \<and>
     512 dvd unat (block_size s) \<and> block_size s \<noteq> 0 \<and> has_room (2 * unat (block_size s) + 104) (eheap s)"

definition group_of :: "ext2_superblock \<Rightarrow> u32 \<Rightarrow> nat" where
  "group_of sb num = unat ((num - 1) div inodes_per_group sb)"

text \<open>The inode as the disk has it.\<close>

definition inode_at :: "ext2_superblock \<Rightarrow> u32 \<Rightarrow> (u32 \<Rightarrow> u8 list) \<Rightarrow> u32 \<Rightarrow> ext2_inode" where
  "inode_at sb bs disk num =
     (let table = inode_table (block_bytes bs disk (if bs = 1024 then 2 else 1)) (group_of sb num * 32);
          offset = ((num - 1) mod inodes_per_group sb) * 128
      in inode_of (take 128 (drop (unat (offset mod bs)) (block_bytes bs disk (table + offset div bs)))))"

lemma mounted_kept: "mounted sb s \<Longrightarrow> kept s s' \<Longrightarrow> mounted sb s'"
  using kept_blocks [of s s'] has_room_blocks [of "eheap s'" "eheap s"]
  by (auto simp: mounted_def kept_def same_volume_def in_order_def sectors_ok_def)

lemma align8_of:
  assumes "8 dvd unat n" and "unat n < 2 ^ 32"
  shows "unat (align8 n) = unat n"
proof -
  have m: "(7 :: u64) = mask 3" by (simp add: mask_eq_exp_minus_1)
  have "unat (n + mask 3) = unat n + 7" using assms(2) unat_add_lem [of n "mask 3"] by (simp add: mask_eq_exp_minus_1)
  moreover from assms(1) obtain q where "unat n = 8 * q" by blast
  ultimately show ?thesis unfolding align8_def m unat_high by simp
qed

lemma unat_ucast_32_64: "unat (ucast (w :: u32) :: u64) = unat w"
proof -
  have "unat w < 2 ^ 64" using unsigned_less [of w] by (rule order_less_trans) simp
  then show ?thesis by (simp add: unsigned_ucast_eq take_bit_nat_eq_self)
qed

lemma buffer_align: "512 dvd unat (w :: u32) \<Longrightarrow> unat (align8 (ucast w)) = unat w"
  using dvd_trans [of 8 512 "unat w"] align8_of [of "ucast w"] unsigned_less [of w] by (simp add: unat_ucast_32_64)

lemma inode_fits:
  fixes w bs :: u32
  assumes "512 dvd unat bs" and "bs \<noteq> 0"
  shows "unat (w * 128 mod bs) + 128 \<le> unat bs"
proof -
  have "128 dvd unat (w * 128)"
  proof -
    have "unat (w * 128) = unat w * 128 mod 2 ^ 32" by (simp add: unat_word_ariths)
    moreover have "128 dvd unat w * 128 mod 2 ^ 32" by (rule dvd_mod) simp_all
    ultimately show ?thesis by (simp only:)
  qed
  moreover have d: "128 dvd unat bs" using dvd_trans [of 128 512 "unat bs"] assms(1) by simp
  ultimately have "128 dvd unat (w * 128 mod bs)" by (simp add: unat_mod_distrib dvd_mod)
  moreover have "unat (w * 128 mod bs) < unat bs" using assms(2) by (simp add: unat_mod_distrib unat_gt_0)
  moreover from d obtain q where "unat bs = 128 * q" by blast
  moreover from calculation(1) obtain r where "unat (w * 128 mod bs) = 128 * r" by blast
  ultimately show ?thesis by simp
qed

text \<open>What is needed to read a block into a buffer, and what stays of it.\<close>

definition volume_ok :: "'a ext2_scheme \<Rightarrow> bool" where
  "volume_ok s \<longleftrightarrow> in_order s \<and> sectors_ok s \<and> heap_inv (eheap s) \<and> 512 dvd unat (block_size s)"

lemma volume_ok_same: "volume_ok s \<Longrightarrow> same_volume s s' \<Longrightarrow> heap_inv (eheap s') \<Longrightarrow> volume_ok s'"
  by (simp add: volume_ok_def same_volume_def in_order_def sectors_ok_def)

lemma block_buffer:
  assumes ok: "volume_ok s" and room: "has_room (k + unat (block_size s) + 24) (eheap s)" and k: "8 \<le> k"
  obtains p j d s1 where "new_buffer (ucast (block_size s)) s = Some (p, d, s1)" "length d = unat (block_size s)"
    "volume_ok s1" "same_volume s s1" "has_room k (eheap s1)" "(unat p, j) \<notin> live (eheap s)" "live (eheap s1) = insert (unat p, j) (live (eheap s))"
proof -
  have inv: "heap_inv (eheap s)" and al: "unat (align8 (ucast (block_size s))) = unat (block_size s)"
    using ok by (simp_all add: volume_ok_def buffer_align)
  have room': "has_room (k + unat (align8 (ucast (block_size s))) + 24) (eheap s)" unfolding al by (rule room)
  obtain p j h where a: "new_buffer (ucast (block_size s)) s =
      Some (p, map (garbage s) [0..<unat (ucast (block_size s) :: u64)], s\<lparr>eheap := h\<rparr>)" "heap_inv h"
    "has_room k h" "(unat p, j) \<notin> live (eheap s)" "live h = insert (unat p, j) (live (eheap s))"
    by (rule new_buffer_room [OF inv room' k])
  show thesis
    by (rule that [OF a(1)]) (use a ok volume_ok_same [OF ok, of "s\<lparr>eheap := h\<rparr>"] in \<open>simp_all add: unat_ucast_32_64\<close>)
qed

lemma volume_block:
  assumes ok: "volume_ok s" and len: "length d = unat (block_size s)"
  obtains s1 where "read_block b d s = Some (block_bytes (block_size s) (sectors s) b, s1)" "volume_ok s1" "same_volume s s1"
    "eheap s1 = eheap s"
proof -
  have "in_order s" "sectors_ok s" "512 dvd unat (block_size s)" and inv: "heap_inv (eheap s)" using ok by (simp_all add: volume_ok_def)
  from read_block_reads [OF this(1,2) len this(3), of b] obtain s1 where
    r: "read_block b d s = Some (block_bytes (block_size s) (sectors s) b, s1)" "sectors s1 = sectors s" "same_drive s s1" by blast
  have "same_volume s s1" "eheap s1 = eheap s" using r(2,3) same_volume_drive same_drive_ext2(1) by blast+
  then show thesis using that [OF r(1)] volume_ok_same [OF ok, of s1] inv by simp
qed

lemma read_inode_reads:
  assumes m: "mounted sb s" and g: "group_of sb num * 32 + 32 \<le> unat (block_size s)"
  shows "\<exists>s'. read_inode num s = Some (inode_at sb (block_size s) (sectors s) num, s') \<and> kept s s'"
proof -
  let ?bs = "block_size s" and ?blk = "if block_size s = 1024 then 2 else 1 :: u32"
  note m' = m [unfolded mounted_def]
  have ok: "volume_ok s" and bs: "512 dvd unat ?bs" "?bs \<noteq> 0" using m' by (auto simp: volume_ok_def)
  have room: "has_room (unat ?bs + 32 + unat ?bs + 24) (eheap s)" using m' by (auto intro: has_room_mono)
  from ok obtain p j d s1 where a: "new_buffer (ucast ?bs) s = Some (p, d, s1)" "length d = unat ?bs" "volume_ok s1" "same_volume s s1"
    "has_room (unat ?bs + 32) (eheap s1)" "(unat p, j) \<notin> live (eheap s)" "live (eheap s1) = insert (unat p, j) (live (eheap s))"
    by (rule block_buffer [OF _ room]) simp
  have e1: "block_size s1 = ?bs" "sectors s1 = sectors s" using a(4) by (simp_all add: same_volume_def)
  obtain s2 where b: "read_block ?blk d s1 = Some (block_bytes ?bs (sectors s) ?blk, s2)" "volume_ok s2" "same_volume s1 s2" "eheap s2 = eheap s1"
    using volume_block [OF a(3), of d ?blk] a(2) e1 by auto
  have e2: "block_size s2 = ?bs" "sectors s2 = sectors s" using b(3) e1 by (simp_all add: same_volume_def)
  have "has_room (8 + unat (block_size s2) + 24) (eheap s2)" using a(5) by (simp add: e2 b(4) ac_simps)
  with b(2) obtain q i e s3 where c: "new_buffer (ucast (block_size s2)) s2 = Some (q, e, s3)" "length e = unat (block_size s2)"
    "volume_ok s3" "same_volume s2 s3" "(unat q, i) \<notin> live (eheap s2)" "live (eheap s3) = insert (unat q, i) (live (eheap s2))"
    by (rule block_buffer) simp
  have e3: "block_size s3 = ?bs" "sectors s3 = sectors s" using c(4) e2 by (simp_all add: same_volume_def)
  let ?off = "((num - 1) mod inodes_per_group sb) * 128"
  let ?b = "inode_table (block_bytes ?bs (sectors s) ?blk) (group_of sb num * 32) + ?off div ?bs"
  obtain s4 where d: "read_block ?b e s3 = Some (block_bytes ?bs (sectors s) ?b, s4)" "volume_ok s4" "same_volume s3 s4" "eheap s4 = eheap s3"
    using volume_block [OF c(3), of e ?b] c(2) e2 e3 by auto
  have inv: "heap_inv (eheap s4)" and "(unat p, j) \<in> live (eheap s4)" using d(2,4) c(6) b(4) a(7) by (auto simp: volume_ok_def)
  then obtain h5 where f: "free_buffer p s4 = Some (s4\<lparr>eheap := h5\<rparr>)" "heap_inv h5" "live h5 = live (eheap s4) - {(unat p, j)}"
    by (rule free_buffer_live)
  have ne: "(unat p, j) \<noteq> (unat q, i)" using c(5) b(4) a(7) by auto
  have "(unat q, i) \<in> live (eheap (s4\<lparr>eheap := h5\<rparr>))" using f(3) d(4) c(6) ne by auto
  with f(2) obtain h6 where g': "free_buffer q (s4\<lparr>eheap := h5\<rparr>) = Some (s4\<lparr>eheap := h5\<rparr>\<lparr>eheap := h6\<rparr>)" "heap_inv h6"
    "live h6 = live (eheap (s4\<lparr>eheap := h5\<rparr>)) - {(unat q, i)}"
    by - (rule free_buffer_live [of "s4\<lparr>eheap := h5\<rparr>" q i], simp_all)
  have len: "length (block_bytes ?bs (sectors s) x) = unat ?bs" for x using m' bs by (intro length_block_bytes) simp_all
  have fit: "unat (?off mod ?bs) + 128 \<le> unat ?bs" by (rule inode_fits [OF bs])
  have "read_inode num s = Some (inode_at sb ?bs (sectors s) num, s4\<lparr>eheap := h6\<rparr>)"
    using m' a(1) b(1) c(1) d(1) f(1) g'(1) g fit bs(2) unfolding e2 group_of_def
    by (simp add: read_inode_def Let_def len INODE_SIZE_def GROUP_DESC_SIZE_def inode_at_def e1 e2 e3 group_of_def not_less)
  moreover have "kept s (s4\<lparr>eheap := h6\<rparr>)"
  proof -
    have "same_volume s s4" using a(4) b(3) c(4) d(3) by (blast intro: same_volume_trans)
    moreover have "live h6 = live (eheap s)" using g'(3) f(3) d(4) c(5,6) b(4) a(6,7) ne by auto
    ultimately show ?thesis using g'(2) by (simp add: kept_def same_volume_def)
  qed
  ultimately show ?thesis by blast
qed

subsection \<open>Reading files\<close>

text \<open>Byte \<open>i\<close> of a file: a block with number 0 is a hole.\<close>

definition inode_byte :: "ext2_inode \<Rightarrow> u32 \<Rightarrow> (u32 \<Rightarrow> u8 list) \<Rightarrow> nat \<Rightarrow> u8" where
  "inode_byte ino bs disk i =
     (let b = i_block ino ! (i div unat bs) in if b = 0 then 0 else block_bytes bs disk b ! (i mod unat bs))"

text \<open>The bytes one round of the loop stores.\<close>

lemma file_chunk:
  assumes "i mod unat bs + k \<le> unat bs" and "bs \<noteq> 0" and "length (block_bytes bs disk (i_block ino ! (i div unat bs))) = unat bs"
  shows "map (inode_byte ino bs disk) [i..<i + k] =
    (if i_block ino ! (i div unat bs) = 0 then replicate k 0
     else take k (drop (i mod unat bs) (block_bytes bs disk (i_block ino ! (i div unat bs)))))"
proof (rule nth_equalityI)
  fix t assume "t < length (map (inode_byte ino bs disk) [i..<i + k])"
  then have t: "t < k" by simp
  have "i + t = i div unat bs * unat bs + (i mod unat bs + t)" by simp
  moreover have "i mod unat bs + t < unat bs" using t assms(1) by simp
  ultimately have "(i + t) div unat bs = i div unat bs" "(i + t) mod unat bs = i mod unat bs + t"
    by (metis add_diff_cancel_left' div_mult_self3 div_less add.right_neutral assms(2) unat_eq_zero, metis mod_less mod_mult_self3)
  then show "map (inode_byte ino bs disk) [i..<i + k] ! t =
    (if i_block ino ! (i div unat bs) = 0 then replicate k 0
     else take k (drop (i mod unat bs) (block_bytes bs disk (i_block ino ! (i div unat bs))))) ! t"
    using t assms(1,3) by (simp add: inode_byte_def Let_def)
qed (use assms in auto)

lemma read_loop_file:
  fixes s :: "'a ext2_scheme" and n offset br bs :: u32 and disk :: "u32 \<Rightarrow> u8 list"
  assumes nw: "unat offset + unat n < 2 ^ 32" and bs: "bs \<noteq> 0"
    and ok: "volume_ok s" "block_size s = bs" "sectors s = disk" and bb: "length bb = unat bs" and buf: "unat n \<le> length buffer"
    and br: "unat br \<le> min (unat n) (12 * unat bs - unat offset)"
  defines "e \<equiv> min (unat n) (12 * unat bs - unat offset)"
  shows "\<exists>s'. ext2_read_loop ino offset n br buffer bb s =
      Some (word_of_nat e, patch (unat br) (map (inode_byte ino bs disk) [unat offset + unat br..<unat offset + e]) buffer, s') \<and>
    volume_ok s' \<and> same_volume s s' \<and> eheap s' = eheap s"
  using ok bb buf br
proof (induction "e - unat br" arbitrary: br buffer bb s rule: less_induct)
  case less
  note prem = less.prems
  let ?B = "unat bs" and ?i = "unat offset + unat br"
  have en: "e \<le> unat n" and bre: "unat br \<le> e" using prem(6) by (simp_all add: e_def)
  have add: "unat (offset + br) = ?i" using unat_add_lem [of offset br] nw en bre by simp
  have div: "unat ((offset + br) div bs) = ?i div ?B" "unat ((offset + br) mod bs) = ?i mod ?B"
    by (simp_all add: unat_div_distrib unat_mod_distrib add)
  have B: "0 < ?B" using bs by (simp add: unat_gt_0)
  have twelve: "12 \<le> (offset + br) div bs \<longleftrightarrow> 12 * ?B \<le> ?i"
    using B by (simp add: word_le_nat_alt div less_eq_div_iff_mult_less_eq)
  show ?case
  proof (cases "unat br = e")
    case True
    have "ext2_read_loop ino offset n br buffer bb s = Some (br, buffer, s)"
    proof (cases "br < n")
      case True
      then have "e < unat n" using \<open>unat br = e\<close> by (simp add: word_less_nat_alt)
      then have "12 \<le> (offset + br) div bs" unfolding twelve using \<open>unat br = e\<close> by (auto simp: e_def)
      then show ?thesis using True bs prem(2) by (simp add: ext2_read_loop.simps [of ino offset n br buffer bb s] Let_def)
    qed (simp add: ext2_read_loop.simps [of ino offset n br buffer bb s])
    moreover have "br = word_of_nat e" unfolding True [symmetric] by simp
    ultimately show ?thesis using True prem(1) by (simp add: patch_def same_volume_def)
  next
    case False
    then have lt: "unat br < e" using bre by simp
    then have ltn: "br < n" using en by (simp add: word_less_nat_alt)
    have i12: "?i < 12 * ?B" using lt by (auto simp: e_def)
    then have n12: "\<not> 12 \<le> (offset + br) div bs" unfolding twelve by simp
    define k where "k = (if n - br < bs - (offset + br) mod bs then n - br else bs - (offset + br) mod bs)"
    note p = block_progress [OF ltn bs, of offset, folded k_def, unfolded add]
    have fit: "?i mod ?B + unat k \<le> ?B" using p(4) mod_less_divisor [OF B, of ?i] by linarith
    have "(?i div ?B + 1) * ?B \<le> 12 * ?B" using less_mult_imp_div_less [OF i12] by (intro mult_le_mono1) simp
    moreover have "?i div ?B * ?B + ?i mod ?B = ?i" by simp
    ultimately have "?i + unat k \<le> 12 * ?B" using fit unfolding add_mult_distrib by linarith
    then have ke: "unat (br + k) \<le> e" using p(1,3) by (simp add: e_def)
    define xs where "xs = map (inode_byte ino bs disk) [?i..<?i + unat k]"
    have lxs: "length xs = unat k" by (simp add: xs_def)
    let ?phys = "i_block ino ! (?i div ?B)"
    have so: "sectors_ok s" "512 dvd ?B" using prem(1,2) by (simp_all add: volume_ok_def)
    have len: "length (block_bytes bs disk ?phys) = ?B" using length_block_bytes [OF so] prem(3) by simp
    have xs: "xs = (if ?phys = 0 then replicate (unat k) 0 else take (unat k) (drop (?i mod ?B) (block_bytes bs disk ?phys)))"
      unfolding xs_def by (rule file_chunk [OF fit bs len])
    have st: "store_at (unat br) xs buffer = Some (patch (unat br) xs buffer)"
      using p(3) prem(5) by (intro store_at_patch) (simp add: lxs)
    obtain bb1 s1 where s1: "ext2_read_loop ino offset n br buffer bb s = ext2_read_loop ino offset n (br + k) (patch (unat br) xs buffer) bb1 s1"
      "volume_ok s1" "same_volume s s1" "eheap s1 = eheap s" "length bb1 = ?B"
    proof (cases "?phys = 0")
      case True
      then show thesis using that [of bb s] ltn bs n12 st prem(1,2,4)
        by (simp add: ext2_read_loop.simps [of ino offset n br buffer bb s] Let_def div k_def [symmetric] xs same_volume_def)
    next
      case False
      obtain s1 where r: "read_block ?phys bb s = Some (block_bytes bs disk ?phys, s1)" "volume_ok s1" "same_volume s s1" "eheap s1 = eheap s"
        using volume_block [OF prem(1), of bb ?phys] prem(2-4) by auto
      then show thesis using that [of "block_bytes bs disk ?phys" s1] ltn bs n12 st prem(2) False len
        by (simp add: ext2_read_loop.simps [of ino offset n br buffer bb s] Let_def div k_def [symmetric] xs)
    qed
    have same1: "block_size s1 = bs" "sectors s1 = disk" using s1(3) prem(2,3) by (simp_all add: same_volume_def)
    have "e - unat (br + k) < e - unat br" using p(1,2) lt by linarith
    moreover have "unat n \<le> length (patch (unat br) xs buffer)" using prem(5) p(3) by (subst length_patch) (simp_all add: lxs)
    ultimately obtain s' where s': "ext2_read_loop ino offset n (br + k) (patch (unat br) xs buffer) bb1 s1 =
        Some (word_of_nat e, patch (unat (br + k)) (map (inode_byte ino bs disk) [unat offset + unat (br + k)..<unat offset + e]) (patch (unat br) xs buffer), s')"
      "volume_ok s'" "same_volume s1 s'" "eheap s' = eheap s1"
      using less.hyps [of "br + k" s1 bb1 "patch (unat br) xs buffer"] s1(2,5) same1 ke by (auto simp: e_def)
    have "xs @ map (inode_byte ino bs disk) [?i + unat k..<unat offset + e] = map (inode_byte ino bs disk) [?i..<unat offset + e]"
      unfolding xs_def using ke p(1) upt_add_eq_append [of ?i "?i + unat k" "unat offset + e - (?i + unat k)"]
      by (simp flip: map_append)
    then have "patch (unat (br + k)) (map (inode_byte ino bs disk) [unat offset + unat (br + k)..<unat offset + e]) (patch (unat br) xs buffer) =
        patch (unat br) (map (inode_byte ino bs disk) [?i..<unat offset + e]) buffer"
      using patch_patch [of "unat br" xs "map (inode_byte ino bs disk) [?i + unat k..<unat offset + e]" buffer] ke en prem(5) p(1)
      by (simp add: lxs add.assoc)
    then show ?thesis using s1(1,3,4) s' by (auto intro: same_volume_trans)
  qed
qed

text \<open>
  C30. On a mounted volume \<open>ext2_read\<close> returns and stores exactly the bytes of the file from the offset on: as many as
  were asked for, cut at the end of the file and at the end of the twelve direct blocks, zeros in holes; the rest of the
  caller's buffer, the disk, the volume and the heap stay as they were.
\<close>

theorem ext2_read_file:
  assumes m: "mounted sb s" and g: "group_of sb num * 32 + 32 \<le> unat (block_size s)"
    and nw: "unat offset + unat n < 2 ^ 32" and buf: "unat n \<le> length buffer"
  defines "ino \<equiv> inode_at sb (block_size s) (sectors s) num"
  defines "e \<equiv> min (min (unat n) (unat (i_size ino) - unat offset)) (12 * unat (block_size s) - unat offset)"
  shows "\<exists>s'. ext2_read num offset n buffer s =
      Some (word_of_nat e, map (inode_byte ino (block_size s) (sectors s)) [unat offset..<unat offset + e] @ drop e buffer, s') \<and>
    same_volume s s' \<and> heap_blocks (eheap s') = heap_blocks (eheap s)"
proof -
  let ?bs = "block_size s"
  obtain s1 where i: "read_inode num s = Some (ino, s1)" "kept s s1" using read_inode_reads [OF m g] by (auto simp: ino_def)
  have inv: "heap_inv (eheap s)" using m by (simp add: mounted_def)
  note m1 = mounted_kept [OF m i(2), unfolded mounted_def]
  have e1: "block_size s1 = ?bs" "sectors s1 = sectors s" using i(2) by (simp_all add: kept_def same_volume_def)
  show ?thesis
  proof (cases "i_size ino \<le> offset")
    case True
    then have "e = 0" by (simp add: e_def word_le_nat_alt)
    moreover have "ext2_read num offset n buffer s = Some (0, buffer, s1)" using i(1) True by (simp add: ext2_read_def)
    ultimately show ?thesis using i(2) kept_blocks [OF inv i(2)] by (simp add: kept_def)
  next
    case False
    define n' where "n' = (if i_size ino < offset + n then i_size ino - offset else n)"
    have add: "unat (offset + n) = unat offset + unat n" using nw unat_add_lem [of offset n] by simp
    have sub: "unat (i_size ino - offset) = unat (i_size ino) - unat offset"
      using False by (subst unat_sub_if') (simp add: word_le_nat_alt)
    have n': "unat n' = min (unat n) (unat (i_size ino) - unat offset)"
      using False by (auto simp: n'_def word_less_nat_alt word_le_nat_alt add sub)
    have ok: "volume_ok s1" and room: "has_room (8 + unat (block_size s1) + 24) (eheap s1)" and bs: "?bs \<noteq> 0"
      using m1 e1 by (auto simp: volume_ok_def intro: has_room_mono)
    obtain p j d s2 where b: "new_buffer (ucast (block_size s1)) s1 = Some (p, d, s2)" "length d = unat (block_size s1)"
      "volume_ok s2" "same_volume s1 s2" "(unat p, j) \<notin> live (eheap s1)" "live (eheap s2) = insert (unat p, j) (live (eheap s1))"
      by (rule block_buffer [OF ok room]) simp
    have e2: "block_size s2 = ?bs" "sectors s2 = sectors s" using b(4) e1 by (simp_all add: same_volume_def)
    have l: "length d = unat ?bs" using b(2) e1 by simp
    have nb: "unat offset + unat n' < 2 ^ 32" "unat n' \<le> length buffer" using nw buf by (simp_all add: n')
    have z: "unat (0 :: u32) \<le> min (unat n') (12 * unat ?bs - unat offset)" by simp
    have e: "min (unat n') (12 * unat ?bs - unat offset) = e" by (simp add: e_def n')
    obtain s3 where r: "ext2_read_loop ino offset n' 0 buffer d s2 =
        Some (word_of_nat e, patch 0 (map (inode_byte ino ?bs (sectors s)) [unat offset..<unat offset + e]) buffer, s3)"
      "volume_ok s3" "same_volume s2 s3" "eheap s3 = eheap s2"
      using read_loop_file [OF nb(1) bs b(3) e2 l nb(2) z, of ino] unfolding e by auto
    have "heap_inv (eheap s3)" "(unat p, j) \<in> live (eheap s3)" using r(2,4) b(6) by (auto simp: volume_ok_def)
    then obtain h where f: "free_buffer p s3 = Some (s3\<lparr>eheap := h\<rparr>)" "heap_inv h" "live h = live (eheap s3) - {(unat p, j)}"
      by (rule free_buffer_live)
    have "ext2_read num offset n buffer s = Some (word_of_nat e, patch 0 (map (inode_byte ino ?bs (sectors s)) [unat offset..<unat offset + e]) buffer, s3\<lparr>eheap := h\<rparr>)"
      using i(1) False b(1) r(1) f(1) by (simp add: ext2_read_def n'_def [symmetric] Let_def)
    moreover have k: "kept s (s3\<lparr>eheap := h\<rparr>)"
    proof -
      have "live h = live (eheap s1)" using f(3) r(4) b(5,6) by auto
      then show ?thesis using i(2) b(4) r(3) f(2) by (auto simp: kept_def same_volume_def)
    qed
    ultimately show ?thesis using kept_blocks [OF inv k] by (simp add: kept_def patch_def)
  qed
qed

subsection \<open>Searching directories\<close>

text \<open>A block of entries: inode, name, file type and length of each; they fill the block.\<close>

type_synonym dir_entry = "u32 \<times> u8 list \<times> u8 \<times> u16"

fun dir_layout :: "u8 list \<Rightarrow> nat \<Rightarrow> dir_entry list \<Rightarrow> bool" where
  "dir_layout bytes i [] \<longleftrightarrow> i = length bytes"
| "dir_layout bytes i ((ino, nm, ft, rl) # es) \<longleftrightarrow>
     u32_at i bytes = ino \<and> u16_at (i + 4) bytes = rl \<and> unat (bytes ! (i + 6)) = length nm \<and> bytes ! (i + 7) = ft \<and>
     take (length nm) (drop (i + 8) bytes) = nm \<and> 0 \<notin> set nm \<and> 8 + length nm \<le> unat rl \<and> i + unat rl \<le> length bytes \<and>
     dir_layout bytes (i + unat rl) es"

definition entries :: "dir_entry list \<Rightarrow> (u8 list \<times> u32 \<times> u8) list" where
  "entries es = map (\<lambda>(ino, nm, ft, rl). (nm, ino, ft)) es"

definition dir_on :: "(u32 \<Rightarrow> u8 list) \<Rightarrow> u32 \<Rightarrow> u32 list \<Rightarrow> dir_entry list list \<Rightarrow> bool" where
  "dir_on disk bs blks ess \<longleftrightarrow> list_all2 (\<lambda>b es. if b = 0 then es = [] else dir_layout (block_bytes bs disk b) 0 es) blks ess"

lemma scan_entries_finds:
  assumes "dir_layout bytes (unat i) es" and "length bytes = unat bs"
  shows "scan_entries bs bytes name i = Some (map_of (entries es) name)"
  using assms
proof (induction es arbitrary: i)
  case Nil
  then show ?case by (simp add: scan_entries.simps [of bs bytes name i] word_less_nat_alt entries_def)
next
  case (Cons e es)
  obtain ino nm ft rl where e: "e = (ino, nm, ft, rl)" by (cases e)
  note l = Cons.prems(1) [unfolded e dir_layout.simps]
  have lt: "i < bs" and fit: "unat i + 8 + length nm \<le> length bytes" using l Cons.prems(2) by (auto simp: word_less_nat_alt)
  have nm: "entry_name bytes (unat i) = nm"
    using l by (auto simp: entry_name_def takeWhile_eq_all_conv)
  have "unat (ucast rl :: u32) = unat rl"
  proof -
    have "unat rl < 2 ^ 32" using unsigned_less [of rl] by (rule order_less_trans) simp
    then show ?thesis by (simp add: unsigned_ucast_eq take_bit_nat_eq_self)
  qed
  then have "unat (i + ucast rl) = unat i + unat rl"
    using unat_add_lem [of i "ucast rl"] l Cons.prems(2) unsigned_less [where 'a = nat, of bs] by simp
  then have IH: "scan_entries bs bytes name (i + ucast rl) = Some (map_of (entries es) name)"
    using Cons.IH [of "i + ucast rl"] l Cons.prems(2) by simp
  show ?case using lt fit nm l IH
    by (auto simp: scan_entries.simps [of bs bytes name i] e entries_def)
qed

lemma scan_blocks_finds:
  fixes s :: "'a ext2_scheme"
  assumes "volume_ok s" and "length d = unat (block_size s)" and "dir_on (sectors s) (block_size s) blks ess"
  shows "\<exists>s'. scan_blocks blks name d s = Some (map_of (entries (concat ess)) name, s') \<and> volume_ok s' \<and> same_volume s s' \<and> eheap s' = eheap s"
  using assms
proof (induction blks arbitrary: ess d s)
  case Nil
  then show ?case by (simp add: dir_on_def entries_def same_volume_def)
next
  case (Cons b blks)
  then obtain es ess' where ess: "ess = es # ess'" "if b = 0 then es = [] else dir_layout (block_bytes (block_size s) (sectors s) b) 0 es"
    "dir_on (sectors s) (block_size s) blks ess'" by (auto simp: dir_on_def list_all2_Cons1)
  show ?case
  proof (cases "b = 0")
    case True
    then show ?thesis using Cons.IH [OF Cons.prems(1,2) ess(3)] ess(1,2) by simp
  next
    case False
    obtain s1 where r: "read_block b d s = Some (block_bytes (block_size s) (sectors s) b, s1)" "volume_ok s1" "same_volume s s1" "eheap s1 = eheap s"
      using volume_block [OF Cons.prems(1,2)] by blast
    have same: "block_size s1 = block_size s" "sectors s1 = sectors s" using r(3) by (simp_all add: same_volume_def)
    have len: "length (block_bytes (block_size s) (sectors s) b) = unat (block_size s)"
      using Cons.prems(1) by (intro length_block_bytes) (simp_all add: volume_ok_def)
    have sc: "scan_entries (block_size s1) (block_bytes (block_size s) (sectors s) b) name 0 = Some (map_of (entries es) name)"
      using scan_entries_finds [of _ 0, OF _ len] ess(2) False same by simp
    obtain s' where s': "scan_blocks blks name (block_bytes (block_size s) (sectors s) b) s1 = Some (map_of (entries (concat ess')) name, s')"
      "volume_ok s'" "same_volume s1 s'" "eheap s' = eheap s1"
      using Cons.IH [OF r(2), of "block_bytes (block_size s) (sectors s) b" ess'] len same ess(3) by auto
    show ?thesis
    proof (cases "map_of (entries es) name")
      case None
      then have "map_of (entries (concat ess)) name = map_of (entries (concat ess')) name"
        by (simp add: ess(1) entries_def map_add_def)
      then show ?thesis using False r sc None s' by (auto intro: same_volume_trans)
    next
      case (Some e)
      then have "map_of (entries (concat ess)) name = Some e" by (simp add: ess(1) entries_def map_add_def map_of_eq_None_iff)
      then show ?thesis using False r sc Some by auto
    qed
  qed
qed

text \<open>
  C31. A search in a directory on a mounted volume returns the first entry with the name in its direct blocks, in
  the order of the blocks: a new node with its name, inode and kind, or none if there is no such entry or the inode is
  no directory. The disk and the volume stay as they were, and the node is the only allocation that is left.
\<close>

theorem ext2_finddir_finds:
  assumes m: "mounted sb s" and g: "group_of sb num * 32 + 32 \<le> unat (block_size s)"
  defines "ino \<equiv> inode_at sb (block_size s) (sectors s) num"
  assumes dir: "dir_on (sectors s) (block_size s) (take 12 (i_block ino)) ess" and nm: "length name < 128"
  shows "case (if i_mode ino AND 0x4000 = 0 then None else map_of (entries (concat ess)) name) of
      None \<Rightarrow> \<exists>s'. ext2_finddir num name s = Some (None, s') \<and> same_volume s s' \<and> heap_blocks (eheap s') = heap_blocks (eheap s)
    | Some (i, ft) \<Rightarrow> \<exists>s' a k.
        ext2_finddir num name s = Some (Some \<lparr>node_addr = a, node_name = name,
          node_flags = (if ft = 2 then VFS_DIRECTORY else VFS_FILE), node_inode = i\<rparr>, s') \<and>
        same_volume s s' \<and> heap_inv (eheap s') \<and> (unat a, k) \<notin> live (eheap s) \<and> live (eheap s') = insert (unat a, k) (live (eheap s))"
proof -
  let ?bs = "block_size s"
  obtain s1 where i: "read_inode num s = Some (ino, s1)" "kept s s1" using read_inode_reads [OF m g] by (auto simp: ino_def)
  have inv: "heap_inv (eheap s)" using m by (simp add: mounted_def)
  note m1 = mounted_kept [OF m i(2), unfolded mounted_def]
  have e1: "block_size s1 = ?bs" "sectors s1 = sectors s" using i(2) by (simp_all add: kept_def same_volume_def)
  show ?thesis
  proof (cases "i_mode ino AND 0x4000 = 0")
    case True
    then have "ext2_finddir num name s = Some (None, s1)" using i(1) by (simp add: ext2_finddir_def)
    then show ?thesis using True i(2) kept_blocks [OF inv i(2)] by (simp add: kept_def)
  next
    case False
    have "512 \<le> unat ?bs" using m by (auto simp: mounted_def unat_gt_0 dvd_imp_le)
    then have ok: "volume_ok s1" and room: "has_room (192 + unat (block_size s1) + 24) (eheap s1)"
      using m1 e1 by (auto simp: volume_ok_def intro: has_room_mono)
    obtain p j d s2 where b: "new_buffer (ucast (block_size s1)) s1 = Some (p, d, s2)" "length d = unat (block_size s1)"
      "volume_ok s2" "same_volume s1 s2" "has_room 192 (eheap s2)" "(unat p, j) \<notin> live (eheap s1)"
      "live (eheap s2) = insert (unat p, j) (live (eheap s1))"
      by (rule block_buffer [OF ok room]) simp
    have e2: "block_size s2 = ?bs" "sectors s2 = sectors s" using b(4) e1 by (simp_all add: same_volume_def)
    have d: "length d = unat (block_size s2)" using b(2) e1 e2 by simp
    obtain s3 where r: "scan_blocks (take 12 (i_block ino)) name d s2 = Some (map_of (entries (concat ess)) name, s3)"
      "volume_ok s3" "same_volume s2 s3" "eheap s3 = eheap s2"
      using scan_blocks_finds [OF b(3) d, of "take 12 (i_block ino)" ess name] dir e2 by auto
    have vol: "same_volume s s3" using i(2) b(4) r(3) by (auto simp: kept_def same_volume_def)
    have pl: "heap_inv (eheap s3)" "(unat p, j) \<in> live (eheap s3)" using r(2,4) b(7) by (auto simp: volume_ok_def)
    show ?thesis
    proof (cases "map_of (entries (concat ess)) name")
      case None
      from pl obtain h where f: "free_buffer p s3 = Some (s3\<lparr>eheap := h\<rparr>)" "heap_inv h" "live h = live (eheap s3) - {(unat p, j)}"
        by (rule free_buffer_live)
      have "ext2_finddir num name s = Some (None, s3\<lparr>eheap := h\<rparr>)"
        using i(1) False b(1) r(1) f(1) None by (simp add: ext2_finddir_def)
      moreover have k: "kept s (s3\<lparr>eheap := h\<rparr>)"
      proof -
        have "live h = live (eheap s1)" using f(3) r(4) b(6,7) by auto
        then show ?thesis using i(2) vol f(2) by (auto simp: kept_def same_volume_def)
      qed
      ultimately show ?thesis using kept_blocks [OF inv k] False None by (simp add: kept_def)
    next
      case (Some e)
      obtain en ft where e: "e = (en, ft)" by (cases e)
      have "has_room (8 + unat (align8 VFS_NODE_SIZE) + 24) (eheap s3)"
        using b(5) by (simp add: r(4) align8_def VFS_NODE_SIZE_def)
      with pl(1) obtain a k h where n: "new_buffer VFS_NODE_SIZE s3 = Some (a, map (garbage s3) [0..<unat VFS_NODE_SIZE], s3\<lparr>eheap := h\<rparr>)"
        "heap_inv h" "(unat a, k) \<notin> live (eheap s3)" "live h = insert (unat a, k) (live (eheap s3))"
        by (rule new_buffer_room) simp
      have "heap_inv (eheap (s3\<lparr>eheap := h\<rparr>))" "(unat p, j) \<in> live (eheap (s3\<lparr>eheap := h\<rparr>))" using n(2,4) pl(2) by simp_all
      then obtain h' where f: "free_buffer p (s3\<lparr>eheap := h\<rparr>) = Some (s3\<lparr>eheap := h'\<rparr>)" "heap_inv h'"
        "live h' = live h - {(unat p, j)}" by (rule free_buffer_live) auto
      have "ext2_finddir num name s = Some (Some \<lparr>node_addr = a, node_name = name,
          node_flags = (if ft = 2 then VFS_DIRECTORY else VFS_FILE), node_inode = en\<rparr>, s3\<lparr>eheap := h'\<rparr>)"
        using i(1) False b(1) r(1) Some e n(1) f(1) nm by (simp add: ext2_finddir_def make_node_def)
      moreover have "live h' = insert (unat a, k) (live (eheap s))" "(unat a, k) \<notin> live (eheap s)"
        using f(3) n(3,4) r(4) b(6,7) i(2) pl(2) by (auto simp: kept_def)
      moreover have "same_volume s (s3\<lparr>eheap := h'\<rparr>)" using vol by (simp add: same_volume_def)
      ultimately have "\<exists>s' a k. ext2_finddir num name s = Some (Some \<lparr>node_addr = a, node_name = name,
          node_flags = (if ft = 2 then VFS_DIRECTORY else VFS_FILE), node_inode = en\<rparr>, s') \<and>
        same_volume s s' \<and> heap_inv (eheap s') \<and> (unat a, k) \<notin> live (eheap s) \<and> live (eheap s') = insert (unat a, k) (live (eheap s))"
        using f(2) by (intro exI [of _ "s3\<lparr>eheap := h'\<rparr>"] exI [of _ a] exI [of _ k]) simp
      then show ?thesis using False Some e by simp
    qed
  qed
qed

subsection \<open>What the driver does not check\<close>

text \<open>An entry of length 0 with another name keeps the search where it is.\<close>

lemma zero_entry_stuck:
  assumes "u16_at 4 bytes = 0" and "entry_name bytes 0 \<noteq> name" and "0 < bs"
  shows "scan_entries bs bytes name 0 = None"
proof (rule ccontr)
  assume "scan_entries bs bytes name 0 \<noteq> None"
  then obtain r where r: "scan_entries bs bytes name 0 = Some r" by blast
  have "\<not> (u16_at 4 bytes = 0 \<and> entry_name bytes 0 \<noteq> name \<and> 0 < bs \<and> (0 :: u32) = 0)"
  proof (rule scan_entries.raw_induct [of "\<lambda>bs bytes name i r. \<not> (u16_at 4 bytes = 0 \<and> entry_name bytes 0 \<noteq> name \<and> 0 < bs \<and> i = 0)", OF _ r])
    fix f bs bytes name r and i :: u32
    assume IH: "\<And>bs bytes name i r. f bs bytes name i = Some r \<Longrightarrow> \<not> (u16_at 4 bytes = 0 \<and> entry_name bytes 0 \<noteq> name \<and> 0 < bs \<and> i = 0)"
      and eq: "(if i < bs then if length bytes < unat i + 8 \<or> length bytes < unat i + 8 + unat (bytes ! (unat i + 6)) then None
         else if entry_name bytes (unat i) = name then Some (Some (u32_at (unat i) bytes, bytes ! (unat i + 7)))
         else f bs bytes name (i + ucast (u16_at (unat i + 4) bytes)) else Some None) = Some r"
    show "\<not> (u16_at 4 bytes = 0 \<and> entry_name bytes 0 \<noteq> name \<and> 0 < bs \<and> i = 0)"
    proof
      assume a: "u16_at 4 bytes = 0 \<and> entry_name bytes 0 \<noteq> name \<and> 0 < bs \<and> i = 0"
      then have "f bs bytes name i = Some r" using eq by (auto split: if_splits)
      then show False using IH a by blast
    qed
  qed
  then show False using assms by simp
qed

text \<open>The sum of offset and size wraps: a read that starts inside the file goes on to the end of the direct blocks.\<close>

lemma ext2_read_wraps:
  assumes "read_inode num s = Some (ino, s1)" and "1 < i_size ino"
  shows "ext2_read num 1 0xFFFFFFFF buffer s = do {
     (block_buf, d, s2) \<leftarrow> new_buffer (ucast (block_size s1)) s1;
     (bytes_read, buffer1, s3) \<leftarrow> ext2_read_loop ino 1 0xFFFFFFFF 0 buffer d s2;
     s4 \<leftarrow> free_buffer block_buf s3;
     Some (bytes_read, buffer1, s4) }"
proof -
  have w: "(1 + 0xFFFFFFFF :: u32) = 0" by simp
  have "\<not> i_size ino \<le> 1" using assms(2) by simp
  then show ?thesis unfolding ext2_read_def assms(1) bind.bind_lunit case_prod_conv w by (simp add: Let_def)
qed

text \<open>A socket (mode \<open>0xC000\<close>) passes the test for a directory.\<close>

lemma socket_searched:
  assumes "read_inode num s = Some (ino, s1)" and "i_mode ino = 0xC1FF"
  shows "ext2_finddir num name s = do {
     (block_buf, d, s2) \<leftarrow> new_buffer (ucast (block_size s1)) s1;
     (r, s3) \<leftarrow> scan_blocks (take 12 (i_block ino)) name d s2;
     (case r of
        None \<Rightarrow> do { s4 \<leftarrow> free_buffer block_buf s3; Some (None, s4) }
      | Some e \<Rightarrow> do { (res, s4) \<leftarrow> make_node name e s3; s5 \<leftarrow> free_buffer block_buf s4; Some (Some res, s5) }) }"
  by (simp add: ext2_finddir_def assms)

subsection \<open>A small volume\<close>

text \<open>
  Blocks of 1024 bytes: the superblock is block 1, the group table block 2, the inodes from block 5 on. Inode 2 is the root directory in
  block 6 with the one entry \<open>hi\<close>, inode 3, a file of three bytes in block 7.
\<close>

definition sector_with :: "(nat \<times> u8) list \<Rightarrow> u8 list" where
  "sector_with vs = fold (\<lambda>(i, v) l. l[i := v]) vs (replicate 512 0)"

definition small_disk :: "u32 \<Rightarrow> u8 list" where
  "small_disk l =
     (if l = 2 then sector_with [(40, 8), (56, 0x53), (57, 0xEF)]
      else if l = 4 then sector_with [(8, 5)]
      else if l = 10 then sector_with [(129, 0x40), (168, 6), (257, 0x80), (260, 3), (296, 7)]
      else if l = 12 then sector_with [(0, 3), (5, 4), (6, 2), (7, 1), (8, 104), (9, 105)]
      else if l = 14 then sector_with [(0, 97), (1, 98), (2, 99)]
      else replicate 512 0)"

definition small_volume :: ext2 where
  "small_volume = drive.extend (demo_drive\<lparr>sectors := small_disk\<rparr>)
     (ext2.fields heap0 (\<lambda>_. 7) (Some \<lparr>log_block_size = 0, inodes_per_group = 8, magic = EXT2_MAGIC\<rparr>) 1024 None)"

lemma small_volume_fields: "sectors small_volume = small_disk" "eheap small_volume = heap0" "block_size small_volume = 1024"
  by (simp_all add: small_volume_def drive.defs ext2.defs)

lemma length_sector_with: "length (sector_with vs) = 512"
proof -
  have "length (fold (\<lambda>(i, v) l. l[i := v]) vs xs) = length xs" for xs :: "u8 list" by (induction vs arbitrary: xs) auto
  then show ?thesis by (simp add: sector_with_def)
qed

lemma small_disk_length: "length (small_disk l) = 512"
  by (simp add: small_disk_def length_sector_with)

lemma small_volume_mounted: "mounted \<lparr>log_block_size = 0, inodes_per_group = 8, magic = EXT2_MAGIC\<rparr> small_volume"
proof -
  have "in_order small_volume" using demo_drive_in_order(1) by (simp add: in_order_def small_volume_def drive.defs ext2.defs)
  moreover have "sectors_ok small_volume" by (simp add: sectors_ok_def small_volume_fields small_disk_length)
  moreover have "has_room 2152 heap0" using heap0_blocks by (auto simp: has_room_def)
  ultimately show ?thesis using heap0_inv by (simp add: mounted_def small_volume_fields) (simp add: small_volume_def drive.defs ext2.defs)
qed

lemma small_block: "block_bytes 1024 small_disk b = small_disk (lba28 (b * 2)) @ small_disk (lba28 (b * 2 + 1))"
  by (simp add: block_bytes_def upt_rec)

lemma small_inodes:
  defines "sb \<equiv> \<lparr>log_block_size = 0, inodes_per_group = 8, magic = EXT2_MAGIC\<rparr>"
  shows "i_mode (inode_at sb 1024 small_disk 2) = 0x4000" "i_size (inode_at sb 1024 small_disk 3) = 3"
    "i_block (inode_at sb 1024 small_disk 3) ! 0 = 7" "take 12 (i_block (inode_at sb 1024 small_disk 2)) = [6, 0, 0, 0, 0, 0, 0, 0, 0, 0, 0, 0]"
proof -
  have t: "inode_table (block_bytes 1024 small_disk 2) 0 = 5"
    unfolding small_block inode_table_def u32_at_def u16_at_def le16_def
    by (simp add: lba28_def small_disk_def sector_with_def nth_append)
  have a: "block_bytes 1024 small_disk 5 = sector_with [(129, 0x40), (168, 6), (257, 0x80), (260, 3), (296, 7)] @ replicate 512 0"
    unfolding small_block by (simp add: lba28_def small_disk_def)
  have n: "(block_bytes 1024 small_disk 5) ! k = (if k = 129 then 0x40 else if k = 168 then 6 else if k = 257 then 0x80 else if k = 260 then 3
      else if k = 296 then 7 else 0)" if "k < 1024" for k
    using that unfolding a by (simp add: nth_append length_sector_with) (simp add: sector_with_def nth_list_update)
  have len: "length (block_bytes 1024 small_disk 5) = 1024" unfolding a by (simp add: length_sector_with)
  have i: "inode_at sb 1024 small_disk k = inode_of (take 128 (drop (unat (k - 1) * 128) (block_bytes 1024 small_disk 5)))" if "k \<in> {2, 3}" for k
    using that t by (auto simp: inode_at_def sb_def group_of_def Let_def)
  show "i_mode (inode_at sb 1024 small_disk 2) = 0x4000" "i_size (inode_at sb 1024 small_disk 3) = 3"
    "i_block (inode_at sb 1024 small_disk 3) ! 0 = 7" "take 12 (i_block (inode_at sb 1024 small_disk 2)) = [6, 0, 0, 0, 0, 0, 0, 0, 0, 0, 0, 0]"
    by (simp_all add: i inode_of_def u32_at_def u16_at_def le16_def n len nth_drop upt_rec)
qed

lemma ext2_read_file_witness:
  "\<exists>s'. ext2_read 3 1 5 [7, 7, 7, 7, 7] small_volume = Some (2, [98, 99, 7, 7, 7], s') \<and> heap_blocks (eheap s') = heap_blocks heap0"
proof -
  let ?sb = "\<lparr>log_block_size = 0, inodes_per_group = 8, magic = EXT2_MAGIC\<rparr>"
  let ?ino = "inode_at ?sb 1024 small_disk 3"
  have c: "block_bytes 1024 small_disk 7 = sector_with [(0, 97), (1, 98), (2, 99)] @ replicate 512 0"
    unfolding small_block by (simp add: lba28_def small_disk_def)
  have b: "inode_byte ?ino 1024 small_disk 1 = 98" "inode_byte ?ino 1024 small_disk 2 = 99"
    using small_inodes(3) by (simp_all add: inode_byte_def c sector_with_def nth_append)
  have "unat (1 :: u32) + unat (5 :: u32) < 2 ^ 32" "unat (5 :: u32) \<le> length [7, 7, 7, 7, 7 :: u8]"
    "group_of ?sb 3 * 32 + 32 \<le> unat (block_size small_volume)" by (simp_all add: group_of_def small_volume_fields)
  from ext2_read_file [OF small_volume_mounted this(3,1,2)] show ?thesis
    using small_inodes(2) b b(2) [unfolded numeral_2_eq_2] by (simp add: small_volume_fields upt_rec) blast
qed

lemma ext2_finddir_finds_witness:
  "\<exists>s' a k. ext2_finddir 2 [104, 105] small_volume =
       Some (Some \<lparr>node_addr = a, node_name = [104, 105], node_flags = VFS_FILE, node_inode = 3\<rparr>, s') \<and>
     live (eheap s') = insert (unat a, k) (live heap0)"
proof -
  let ?sb = "\<lparr>log_block_size = 0, inodes_per_group = 8, magic = EXT2_MAGIC\<rparr>" and ?e = "(3, [104, 105], 1, 1024) :: dir_entry"
  let ?ino = "inode_at ?sb (block_size small_volume) (sectors small_volume) 2"
  have c: "block_bytes 1024 small_disk 6 = sector_with [(0, 3), (5, 4), (6, 2), (7, 1), (8, 104), (9, 105)] @ replicate 512 0"
    unfolding small_block by (simp add: lba28_def small_disk_def)
  have len: "length (block_bytes 1024 small_disk 6) = 1024" unfolding c by (simp add: length_sector_with)
  have n: "block_bytes 1024 small_disk 6 ! k = (if k = 0 then 3 else if k = 5 then 4 else if k = 6 then 2 else if k = 7 then 1
      else if k = 8 then 104 else if k = 9 then 105 else 0)" if "k < 1024" for k
    using that unfolding c by (simp add: nth_append length_sector_with) (simp add: sector_with_def nth_list_update)
  have nm: "take 2 (drop 8 (block_bytes 1024 small_disk 6)) = [104, 105]"
    by (rule nth_equalityI) (auto simp: len n nth_drop less_Suc_eq numeral_2_eq_2 nth_Cons split: nat.split)
  have "dir_layout (block_bytes 1024 small_disk 6) 0 [?e]"
    using nm [unfolded numeral_2_eq_2] by (simp add: len n u32_at_def u16_at_def le16_def)
  moreover have "replicate 11 ([] :: dir_entry list) = [[], [], [], [], [], [], [], [], [], [], []]" by (simp add: numeral_eq_Suc)
  ultimately have d: "dir_on (sectors small_volume) (block_size small_volume) (take 12 (i_block ?ino)) ([?e] # replicate 11 [])"
    unfolding small_volume_fields small_inodes(4) dir_on_def by (simp del: dir_layout.simps)
  have g: "group_of ?sb 2 * 32 + 32 \<le> unat (block_size small_volume)" by (simp add: group_of_def small_volume_fields)
  have mode: "i_mode ?ino AND 0x4000 \<noteq> 0" using small_inodes(1) by (simp add: small_volume_fields)
  have l: "map_of (entries (concat ([?e] # replicate 11 []))) [104, 105] = Some (3, 1)" by (simp add: entries_def)
  have n: "length [104, 105 :: u8] < 128" by simp
  from ext2_finddir_finds [OF small_volume_mounted g d n] show ?thesis
    using mode unfolding l by (auto simp: small_volume_fields)
qed

end
