(* ===== verification/Syscall.thy ===== *)
theory Syscall
  imports Idt Window Vfs Console Timers Heap_Clients E1000
begin

text \<open>
  The system calls of \<open>src/kernel/syscall.c\<close> and \<open>task_exec_file\<close> of \<open>src/kernel/task.c\<close>, composed of the
  components they dispatch to. The caller's memory, which the kernel reads through the caller's page tables, is the
  input \<open>umem\<close>; what a call stores there and its interrupts 32 (\<open>task_yield\<close>) are its effects, in order.
\<close>

subsection \<open>State\<close>

record usys = wsys +
  ufs :: vfs
  con :: console

record sys_info_t =
  si_total_frames :: u64
  si_free_frames :: u64
  si_cpu_count :: u32
  si_cpus :: "(u64 \<times> u64) list"
  si_task_count :: u32

text \<open>The entries of \<open>cpus\<close> (total and idle ticks) are those the call writes; the others keep what the caller had there.\<close>

datatype effect =
  Event_At u64 gui_event_t
| Bytes_At u64 "u8 list"
| Info_At u64 sys_info_t
| Tasks_At u64 "task_info list"
| Int_32

text \<open>A C string; \<open>None\<close> when the memory holds no terminator.\<close>

definition string_at :: "mem \<Rightarrow> u64 \<Rightarrow> u8 list option" where
  "string_at m a = map_option (\<lambda>n. mbytes m a (unat n)) (strlen a m)"

text \<open>An \<open>int\<close> answer widened to the 64 bits of the return register.\<close>

definition ret_int :: "int \<Rightarrow> u64" where "ret_int i = word_of_int i"

subsection \<open>Running a file\<close>

definition task_exec_file :: "u8 list \<Rightarrow> 'a usys_scheme \<Rightarrow> (u64 \<times> 'a usys_scheme) option" where
  "task_exec_file name s = do {
     (fd, f1) \<leftarrow> vfs_open name (ufs s);
     if fd < 0 then Some (0, s\<lparr>ufs := f1\<rparr>)
     else do {
       let sz = vfs_fd_size fd f1;
       (buf, s1) \<leftarrow> kmalloc_k (ucast sz) (s\<lparr>ufs := f1\<rparr>);
       (n, data, f2) \<leftarrow> vfs_read fd (mbytes (bytes_of (pmem (kvm s1))) buf (unat sz)) sz (ufs s1);
       let s2 = set_pmem (on_bytes (put_bytes buf data) (pmem (kvm s1))) s1;
       let s3 = s2\<lparr>ufs := vfs_close fd f2\<rparr>;
       (t, s4) \<leftarrow> task_exec buf s3;
       s5 \<leftarrow> kfree_k buf s4;
       Some (t, s5) } }"

subsection \<open>Windows\<close>

text \<open>The sizes and the user address are computed in 32 bits.\<close>

definition window_pages :: "u32 \<Rightarrow> u32 \<Rightarrow> u32" where
  "window_pages w h =
     (let client_h = h - 25; sz = w * client_h * 4 in (sz + 4095) div 4096)"

definition window_user_addr :: "u32 \<Rightarrow> u64" where
  "window_user_addr i = ucast (0xA0000000 + i * 0x1000000)"

definition zero_pixels :: "u64 \<Rightarrow> pixels \<Rightarrow> pixels" where
  "zero_pixels n px = (\<lambda>i. if i < n div 4 then 0 else px i)"

primrec map_pages :: "nat \<Rightarrow> u64 \<Rightarrow> u64 \<Rightarrow> u64 \<Rightarrow> u64 \<Rightarrow> vmm \<Rightarrow> vmm" where
  "map_pages 0 root virt phys flags v = v"
| "map_pages (Suc i) root virt phys flags v =
     vmm_map root (virt + ucast (word_of_nat i * 4096 :: u32)) (phys + ucast (word_of_nat i * 4096 :: u32)) flags
       (map_pages i root virt phys flags v)"

definition sys_create_window :: "nat \<Rightarrow> u32 \<Rightarrow> u32 \<Rightarrow> u32 \<Rightarrow> u32 \<Rightarrow> 'a wsys_scheme \<Rightarrow> (u32 \<times> 'a wsys_scheme) option" where
  "sys_create_window c x y w h s = do {
     (win, s1) \<leftarrow> window_create x y w h 0xFFFFFFFF s;
     let num_pages = window_pages w h;
     (kernel_buf, s2) \<leftarrow> kmalloc_k (ucast (num_pages * 4096)) s1;
     let s3 = s2\<lparr>bufs := (bufs s2)(kernel_buf := zero_pixels (ucast (num_pages * 4096)) (bufs s2 kernel_buf))\<rparr>;
     let cur = tasks s3 (current c s3);
     let s4 = window_set_owner win (t_id cur) s3;
     let s5 = window_set_buffer win kernel_buf s4;
     let user_addr = window_user_addr (w_id (wins s5 win));
     let s6 = s5\<lparr>kvm := map_pages (unat num_pages) (t_pml4 cur) user_addr kernel_buf (PAGE_USER OR PAGE_WRITABLE) (kvm s5)\<rparr>;
     Some (w_id (wins s6 win), s6) }"

definition sys_get_event :: "u32 \<Rightarrow> u64 \<Rightarrow> 'a wsys_scheme \<Rightarrow> int \<times> effect list \<times> 'a wsys_scheme" where
  "sys_get_event win_id out_event s =
     (case window_pop_event win_id s of
        ((r, None), s1) \<Rightarrow> (r, [], s1)
      | ((r, Some ev), s1) \<Rightarrow> (r, [Event_At out_event ev], s1))"

subsection \<open>Tasks\<close>

definition sys_exit :: "nat \<Rightarrow> 'a ksys_scheme \<Rightarrow> effect list \<times> 'a ksys_scheme" where
  "sys_exit c s = ([Int_32], upd_task (current c s) (\<lambda>tk. tk\<lparr>t_state := TASK_EXITED\<rparr>) s)"

definition sys_yield :: "'a ksys_scheme \<Rightarrow> effect list \<times> 'a ksys_scheme" where
  "sys_yield s = ([Int_32], s)"

definition sys_fork :: "nat \<Rightarrow> 'a ksys_scheme \<Rightarrow> (u64 \<times> 'a ksys_scheme) option" where
  "sys_fork c s = task_fork c s"

text \<open>The id is returned as \<open>uint32_t\<close>.\<close>

definition sys_exec :: "u8 list \<Rightarrow> 'a usys_scheme \<Rightarrow> (u32 \<times> 'a usys_scheme) option" where
  "sys_exec name s = do {
     (t, s1) \<leftarrow> task_exec_file name s;
     Some (if t \<noteq> 0 then ucast (t_id (tasks s1 t)) else 0, s1) }"

subsection \<open>Files and console\<close>

definition sys_open :: "u8 list \<Rightarrow> 'a usys_scheme \<Rightarrow> (int \<times> 'a usys_scheme) option" where
  "sys_open name s = do { (fd, f1) \<leftarrow> vfs_open name (ufs s); Some (fd, s\<lparr>ufs := f1\<rparr>) }"

definition sys_read :: "mem \<Rightarrow> int \<Rightarrow> u64 \<Rightarrow> u32 \<Rightarrow> 'a usys_scheme \<Rightarrow> (int \<times> effect list \<times> 'a usys_scheme) option" where
  "sys_read umem fd buffer cnt s = do {
     (n, data, f1) \<leftarrow> vfs_read fd (mbytes umem buffer (unat cnt)) cnt (ufs s);
     Some (n, [Bytes_At buffer data], s\<lparr>ufs := f1\<rparr>) }"

definition sys_write :: "mem \<Rightarrow> u64 \<Rightarrow> u32 \<Rightarrow> 'a usys_scheme \<Rightarrow> int \<times> 'a usys_scheme" where
  "sys_write umem buffer cnt s =
     (sint cnt, s\<lparr>con := fold vga_print_char (map (\<lambda>b. char_of (unat b)) (mbytes umem buffer (unat cnt))) (con s)\<rparr>)"

definition sys_close :: "int \<Rightarrow> 'a usys_scheme \<Rightarrow> 'a usys_scheme" where
  "sys_close fd s = s\<lparr>ufs := vfs_close fd (ufs s)\<rparr>"

subsection \<open>Reports\<close>

definition sys_free_frames :: "'a ksys_scheme \<Rightarrow> u64" where
  "sys_free_frames s = pmm_get_free_count (frames (kvm s))"

definition sys_get_sys_info :: "'a ksys_scheme \<Rightarrow> int \<times> sys_info_t" where
  "sys_get_sys_info s =
     (let cnt = (word_of_nat (length (cpus s)) :: u32) in
      (0, \<lparr>si_total_frames = pmm_get_total_frames (frames (kvm s)), si_free_frames = pmm_get_free_count (frames (kvm s)),
         si_cpu_count = cnt,
         si_cpus = map (\<lambda>cp. (c_total_ticks cp, c_idle_ticks cp)) (take 16 (take (unat cnt) (cpus s))),
         si_task_count = fold (\<lambda>cp n. n + (rq_count (runqueue cp) + 1)) (take (unat cnt) (cpus s)) 0\<rparr>))"

definition sys_get_tasks :: "u32 \<Rightarrow> 'a ksys_scheme \<Rightarrow> int \<times> task_info list" where
  "sys_get_tasks max_tasks s = (let infos = task_get_all_info max_tasks s in (int (length infos), infos))"

subsection \<open>Dispatch\<close>

definition syscall_handler_c :: "mem \<Rightarrow> nat \<Rightarrow> u64 \<Rightarrow> u64 \<Rightarrow> u64 \<Rightarrow> u64 \<Rightarrow> u64 \<Rightarrow>
    'a usys_scheme \<Rightarrow> (u64 \<times> effect list \<times> 'a usys_scheme) option" where
  "syscall_handler_c umem c num arg1 arg2 arg3 arg4 s =
     (if num = 1 then do {
        (i, s1) \<leftarrow> sys_create_window c (ucast arg1) (ucast arg2) (ucast arg3) (ucast arg4) s; Some (ucast i, [], s1) }
      else if num = 2 then
        (case sys_get_event (ucast arg1) arg2 s of (r, es, s1) \<Rightarrow> Some (ret_int r, es, s1))
      else if num = 3 then (case sys_exit c s of (es, s1) \<Rightarrow> Some (0, es, s1))
      else if num = 4 then do {
        name \<leftarrow> string_at umem arg1; (fd, s1) \<leftarrow> sys_open name s; Some (ret_int fd, [], s1) }
      else if num = 5 then do {
        (n, es, s1) \<leftarrow> sys_read umem (sint (ucast arg1 :: u32)) arg2 (ucast arg3) s; Some (ret_int n, es, s1) }
      else if num = 6 then (case sys_write umem arg2 (ucast arg3) s of (n, s1) \<Rightarrow> Some (ret_int n, [], s1))
      else if num = 7 then Some (0, [], sys_close (sint (ucast arg1 :: u32)) s)
      else if num = 8 then do {
        name \<leftarrow> string_at umem arg1; (i, s1) \<leftarrow> sys_exec name s; Some (ucast i, [], s1) }
      else if num = 9 then (case sys_yield s of (es, s1) \<Rightarrow> Some (0, es, s1))
      else if num = 10 then Some (sys_free_frames s, [], s)
      else if num = 11 then (case sys_get_sys_info s of (r, info) \<Rightarrow> Some (ret_int r, [Info_At arg1 info], s))
      else if num = 12 then
        (case sys_get_tasks (ucast arg2) s of (r, infos) \<Rightarrow> Some (ret_int r, [Tasks_At arg1 infos], s))
      else if num = 13 then do { (i, s1) \<leftarrow> sys_fork c s; Some (i, [], s1) }
      else Some (0xFFFFFFFFFFFFFFFF, [], s))"

definition syscall_set_kernel_stack :: "nat \<Rightarrow> u64 \<Rightarrow> 'a ksys_scheme \<Rightarrow> 'a ksys_scheme" where
  "syscall_set_kernel_stack c stack s = upd_cpu c (\<lambda>cp. cp\<lparr>kernel_stack := stack\<rparr>) s"

definition MSR_EFER :: u32 where "MSR_EFER = 0xC0000080"
definition MSR_STAR :: u32 where "MSR_STAR = 0xC0000081"
definition MSR_LSTAR :: u32 where "MSR_LSTAR = 0xC0000082"
definition MSR_SFMASK :: u32 where "MSR_SFMASK = 0xC0000084"

text \<open>\<open>syscall_entry\<close> is the address of the assembly entry; the log message at the end is not recorded.\<close>

definition syscall_init :: "u64 \<Rightarrow> 'a machine_scheme \<Rightarrow> 'a machine_scheme" where
  "syscall_init syscall_entry s =
     (let efer = rdmsr MSR_EFER s;
          s1 = wrmsr MSR_EFER (efer OR 1) s;
          s2 = wrmsr MSR_STAR (push_bit 48 0x10 OR push_bit 32 0x08) s1;
          s3 = wrmsr MSR_LSTAR syscall_entry s2
      in wrmsr MSR_SFMASK 0x200 s3)"

subsection \<open>Windows in user space\<close>

lemma bit_index:
  "bit (PML4_INDEX a) k \<longleftrightarrow> k < 9 \<and> bit a (39 + k)" "bit (PDPT_INDEX a) k \<longleftrightarrow> k < 9 \<and> bit a (30 + k)"
  "bit (PD_INDEX a) k \<longleftrightarrow> k < 9 \<and> bit a (21 + k)" "bit (PT_INDEX a) k \<longleftrightarrow> k < 9 \<and> bit a (12 + k)"
proof -
  have m: "(0x1FF :: u64) = mask 9" by (simp add: mask_eq_exp_minus_1)
  show "bit (PML4_INDEX a) k \<longleftrightarrow> k < 9 \<and> bit a (39 + k)" "bit (PDPT_INDEX a) k \<longleftrightarrow> k < 9 \<and> bit a (30 + k)"
    "bit (PD_INDEX a) k \<longleftrightarrow> k < 9 \<and> bit a (21 + k)" "bit (PT_INDEX a) k \<longleftrightarrow> k < 9 \<and> bit a (12 + k)"
    by (auto simp: PML4_INDEX_def PDPT_INDEX_def PD_INDEX_def PT_INDEX_def m bit_simps)
qed

lemma high_bits: "unat (a :: u64) < 2 ^ 48 \<Longrightarrow> 48 \<le> n \<Longrightarrow> \<not> bit a n"
proof
  assume a: "unat a < 2 ^ 48" "48 \<le> n" "bit a n"
  have "take_bit 48 (unat a) = unat a" using a(1) by (rule take_bit_nat_eq_self)
  then have "\<not> bit (unat a) n" using a(2) by (metis bit_take_bit_iff not_less)
  then show False using a(3) by (simp add: bit_unsigned_iff)
qed

text \<open>Among 48-bit addresses, the pages of the processor are the pages of 4096 bytes.\<close>

lemma same_page_div:
  assumes a: "unat a < 2 ^ 48" and b: "unat b < 2 ^ 48" and s: "same_page a b"
  shows "unat a div 4096 = unat b div 4096"
proof -
  have i: "PML4_INDEX a = PML4_INDEX b" "PDPT_INDEX a = PDPT_INDEX b" "PD_INDEX a = PD_INDEX b" "PT_INDEX a = PT_INDEX b"
    using s by (simp_all add: same_page_def pt_path_def)
  have "bit a (12 + k) = bit b (12 + k)" for k
  proof -
    consider "k < 9" | "9 \<le> k" "k < 18" | "18 \<le> k" "k < 27" | "27 \<le> k" "k < 36" | "36 \<le> k" by linarith
    then show ?thesis
    proof cases
      case 1
      then show ?thesis using bit_index(4) [of a k] bit_index(4) [of b k] i(4) by simp
    next
      case 2
      then obtain j where "k = 9 + j" "j < 9" by (metis le_Suc_ex add_less_cancel_left numeral_plus_numeral add_num_simps)
      then show ?thesis using bit_index(3) [of a j] bit_index(3) [of b j] i(3) by simp
    next
      case 3
      then obtain j where "k = 18 + j" "j < 9" by (metis le_Suc_ex add_less_cancel_left numeral_plus_numeral add_num_simps)
      then show ?thesis using bit_index(2) [of a j] bit_index(2) [of b j] i(2) by simp
    next
      case 4
      then obtain j where "k = 27 + j" "j < 9" by (metis le_Suc_ex add_less_cancel_left numeral_plus_numeral add_num_simps)
      then show ?thesis using bit_index(1) [of a j] bit_index(1) [of b j] i(1) by simp
    next
      case 5
      then show ?thesis using high_bits [OF a, of "12 + k"] high_bits [OF b, of "12 + k"] by simp
    qed
  qed
  then have "drop_bit 12 a = drop_bit 12 b" by (intro bit_word_eqI) (simp add: bit_drop_bit_eq)
  then have "unat (drop_bit 12 a) = unat (drop_bit 12 b)" by simp
  then show ?thesis by (simp add: drop_bit_eq_div unat_div)
qed

text \<open>The address of byte \<open>o\<close> of page \<open>i\<close>.\<close>

definition page_addr :: "u64 \<Rightarrow> nat \<Rightarrow> nat \<Rightarrow> u64" where
  "page_addr virt i off = virt + word_of_nat (4096 * i + off)"

lemma page_addr_unat: "unat virt + 4096 * n \<le> 2 ^ 48 \<Longrightarrow> i < n \<Longrightarrow> off < 4096 \<Longrightarrow>
    unat (page_addr virt i off) = unat virt + 4096 * i + off"
proof -
  assume a: "unat virt + 4096 * n \<le> 2 ^ 48" "i < n" "off < 4096"
  have k: "4096 * i + off < 2 ^ 64" "unat virt + (4096 * i + off) < 2 ^ 64" using a by simp_all
  have "unat (word_of_nat (4096 * i + off) :: u64) = 4096 * i + off"
    using k(1) take_bit_nat_eq_self [of "4096 * i + off" 64] by (simp only: unsigned_of_nat of_nat_id) simp
  then show ?thesis using k(2) by (simp only: page_addr_def unat_plus_if') (simp add: add.assoc)
qed

lemma loop_offset: "i < 2 ^ 20 \<Longrightarrow> ucast (word_of_nat i * 4096 :: u32) = (word_of_nat (4096 * i) :: u64)"
proof -
  assume i: "i < 2 ^ 20"
  have g: "k < 2 ^ 32 \<Longrightarrow> (ucast (word_of_nat k :: u32) :: u64) = word_of_nat k" for k
    by (simp add: word_unat_eq_iff unsigned_ucast_eq unsigned_of_nat take_bit_nat_eq_self)
  have "(word_of_nat i * 4096 :: u32) = word_of_nat (4096 * i)" by simp
  then show ?thesis using g [of "4096 * i"] i by (simp only:) simp
qed

lemma map_pages_maps:
  fixes phys :: u64
  assumes ok: "vm_ok v root" and card: "3 * n \<le> card (free_frames (frames v))" and fl: "flags AND PAGE_HUGE = 0"
    and al: "unat virt mod 4096 = 0" and room: "unat virt + 4096 * n \<le> 2 ^ 48" and n: "n \<le> 2 ^ 20"
    and nh: "\<forall>i < n. \<not> pde_huge (pmem v) root (page_addr virt i 0)"
  defines "v' \<equiv> map_pages n root virt phys flags v"
  shows "vm_ok v' root \<and>
    (\<forall>i < n. \<forall>off < 4096. mmu (pmem v') root (page_addr virt i off) =
      leaf ((page_addr phys i 0 AND NOT 0xFFF) OR flags OR PAGE_PRESENT) 0xFFF (page_addr virt i off)) \<and>
    (\<forall>a. (\<forall>i < n. \<not> same_page (page_addr virt i 0) a) \<longrightarrow> mmu (pmem v') root a = mmu (pmem v) root a) \<and>
    (\<forall>a. pde_huge (pmem v') root a \<longrightarrow> pde_huge (pmem v) root a) \<and>
    card (free_frames (frames v)) \<le> card (free_frames (frames v')) + 3 * n"
  using card room n nh unfolding v'_def
proof (induction n)
  case (Suc n)
  let ?v = "map_pages n root virt phys flags v"
  have IH: "vm_ok ?v root"
    "\<And>i off. i < n \<Longrightarrow> off < 4096 \<Longrightarrow> mmu (pmem ?v) root (page_addr virt i off) =
      leaf ((page_addr phys i 0 AND NOT 0xFFF) OR flags OR PAGE_PRESENT) 0xFFF (page_addr virt i off)"
    "\<And>a. (\<forall>i < n. \<not> same_page (page_addr virt i 0) a) \<Longrightarrow> mmu (pmem ?v) root a = mmu (pmem v) root a"
    "\<And>a. pde_huge (pmem ?v) root a \<Longrightarrow> pde_huge (pmem v) root a"
    "card (free_frames (frames v)) \<le> card (free_frames (frames ?v)) + 3 * n"
    using Suc.IH Suc.prems by simp_all
  have c: "3 \<le> card (free_frames (frames ?v))" using IH(5) Suc.prems(1) by simp
  have nhn: "\<not> pde_huge (pmem ?v) root (page_addr virt n 0)" using IH(4) Suc.prems(4) by blast
  have e: "map_pages (Suc n) root virt phys flags v = vmm_map root (page_addr virt n 0) (page_addr phys n 0) flags ?v"
    using loop_offset [of n] Suc.prems(3) by (simp add: page_addr_def)
  note st = map_page_step [OF IH(1) c fl nhn, of "page_addr phys n 0", folded e]
  have dv: "unat (page_addr virt i off) div 4096 = unat virt div 4096 + i" "unat (page_addr virt i off) < 2 ^ 48"
    if "i \<le> n" "off < 4096" for i off
  proof -
    have u: "unat (page_addr virt i off) = unat virt + 4096 * i + off"
      by (rule page_addr_unat [OF Suc.prems(2)]) (use that in simp_all)
    obtain q where "unat virt = 4096 * q" using al by auto
    then show "unat (page_addr virt i off) div 4096 = unat virt div 4096 + i" using that(2) by (simp add: u)
    show "unat (page_addr virt i off) < 2 ^ 48" using u Suc.prems(2) that by simp
  qed
  have sp: "same_page (page_addr virt n 0) (page_addr virt i off) \<longleftrightarrow> i = n" if "i \<le> n" "off < 4096" for i off
  proof
    assume "same_page (page_addr virt n 0) (page_addr virt i off)"
    from same_page_div [OF dv(2) [of n 0] dv(2) [OF that] this] dv(1) [OF that] dv(1) [of n 0] show "i = n" by simp
  next
    assume i: "i = n"
    have "unat (page_addr virt n off AND NOT 0xFFF) = 4096 * (unat (page_addr virt n off) div 4096)"
      by (simp only: mask_consts(1) unat_high) simp
    moreover obtain q where "unat virt = 4096 * q" using al by auto
    ultimately have "page_addr virt n off AND NOT 0xFFF = page_addr virt n 0"
      using dv(1) [of n off] page_addr_unat [OF Suc.prems(2), of n 0] that(2) by (simp add: word_unat_eq_iff)
    then show "same_page (page_addr virt n 0) (page_addr virt i off)"
      unfolding i same_page_def by (metis page_paths(2) page_indices(4))
  qed
  have pages: "mmu (pmem (map_pages (Suc n) root virt phys flags v)) root (page_addr virt i off) =
      leaf ((page_addr phys i 0 AND NOT 0xFFF) OR flags OR PAGE_PRESENT) 0xFFF (page_addr virt i off)"
    if "i < Suc n" "off < 4096" for i off
  proof (cases "i = n")
    case True
    then show ?thesis using st sp [of i off] that by simp
  next
    case False
    then show ?thesis using st sp [of i off] IH(2) [of i off] that by simp
  qed
  have other: "mmu (pmem (map_pages (Suc n) root virt phys flags v)) root a = mmu (pmem v) root a"
    if "\<forall>i < Suc n. \<not> same_page (page_addr virt i 0) a" for a
    using st IH(3) [of a] that by simp
  show ?case
  proof (intro conjI allI impI)
    show "vm_ok (map_pages (Suc n) root virt phys flags v) root" using st by blast
    show "pde_huge (pmem v) root a" if "pde_huge (pmem (map_pages (Suc n) root virt phys flags v)) root a" for a
      using st IH(4) that by blast
    show "card (free_frames (frames v)) \<le> card (free_frames (frames (map_pages (Suc n) root virt phys flags v))) + 3 * Suc n"
      using st IH(5) by simp
  qed (use pages other in blast)+
qed (simp_all add: ok)


lemma user_leaf:
  "leaf ((p AND NOT 0xFFF) OR (PAGE_USER OR PAGE_WRITABLE) OR PAGE_PRESENT) 0xFFF a = Some ((p AND NOT 0xFFF) OR (a AND 0xFFF), 7)"
proof -
  define E :: u64 where "E = (p AND NOT 0xFFF) OR (PAGE_USER OR PAGE_WRITABLE) OR PAGE_PRESENT"
  have f: "PAGE_USER OR PAGE_WRITABLE OR PAGE_PRESENT = (7 :: u64)" "(7 :: u64) = mask 3"
    by (simp_all add: PAGE_USER_def PAGE_WRITABLE_def PAGE_PRESENT_def mask_eq_exp_minus_1)
  have e: "E = (p AND NOT (mask 12)) OR mask 3"
    unfolding E_def or.assoc f(1) unfolding f(2) mask_consts(1) ..
  have "bit E 0" unfolding e by (simp add: bit_simps)
  then have "E AND PAGE_PRESENT \<noteq> 0" using one_bit_test [of E 0] by (simp add: PAGE_PRESENT_def)
  moreover have "E AND NOT 0xFFF = p AND NOT 0xFFF"
    unfolding e mask_consts(1) by (rule bit_word_eqI) (auto simp: bit_simps)
  moreover have "E AND 0xFFF = 7"
    unfolding e mask_consts(1) f(2) by (rule bit_word_eqI) (auto simp: bit_simps)
  ultimately show ?thesis unfolding E_def [symmetric] by (simp add: leaf_def)
qed

lemma page_base:
  assumes b: "unat buf + 4096 * n \<le> 2 ^ 48" and v: "unat virt + 4096 * n \<le> 2 ^ 48" "unat virt mod 4096 = 0"
    and i: "i < n" "off < 4096"
  shows "(page_addr buf i 0 AND NOT 0xFFF) OR (page_addr virt i off AND 0xFFF) = page_addr (buf AND NOT 0xFFF) i off"
proof -
  let ?p = "page_addr buf i 0 AND NOT 0xFFF" and ?o = "page_addr virt i off AND 0xFFF"
  have "?p OR ?o = ?p + ?o"
    using word_plus_and_or [of ?p ?o] by (simp add: ac_simps)
  moreover have o: "unat ?o = off"
  proof -
    obtain q where "unat virt = 4096 * q" using v(2) by auto
    then have e: "unat (page_addr virt i off) = off + 4096 * (q + i)" using page_addr_unat [OF v(1) i] by simp
    have "unat ?o = unat (page_addr virt i off) mod 4096" by (simp only: mask_consts(1) unat_low) simp
    also have "\<dots> = off" unfolding e mod_mult_self2 using i(2) by simp
    finally show ?thesis .
  qed
  moreover have p: "unat ?p = 4096 * (unat buf div 4096) + 4096 * i"
    using page_addr_unat [OF b i(1), of 0] by (simp only: mask_consts(1) unat_high) simp
  moreover have h: "unat (buf AND NOT 0xFFF) = 4096 * (unat buf div 4096)" by (simp only: mask_consts(1) unat_high) simp
  moreover have "4096 * (unat buf div 4096) \<le> unat buf" by simp
  then have "unat (page_addr (buf AND NOT 0xFFF) i off) = 4096 * (unat buf div 4096) + 4096 * i + off"
    using page_addr_unat [of "buf AND NOT 0xFFF" n i off] b h i by simp
  moreover have "unat (?p + ?o) = unat ?p + unat ?o"
  proof -
    have "4096 * (unat buf div 4096) + 4096 * i + off < 2 ^ 64"
      using i b \<open>4096 * (unat buf div 4096) \<le> unat buf\<close> by simp
    then show ?thesis unfolding unat_plus_if' o p by simp
  qed
  ultimately show ?thesis by (simp add: word_unat_eq_iff)
qed

lemma window_pages_small: "unat (window_pages w h) < 2 ^ 20"
proof -
  have "unat (x div 4096 :: u32) < 2 ^ 20" for x :: u32
    using unsigned_less [where 'a = nat, of x] by (simp add: unat_div less_mult_imp_div_less)
  then show ?thesis by (simp add: window_pages_def Let_def)
qed

lemma window_user_addr_range: "unat (window_user_addr i) < 2 ^ 32" "unat (window_user_addr i) mod 4096 = 0"
proof -
  define a :: u32 where "a = push_bit 24 (0xA0 + i)"
  have a: "window_user_addr i = ucast a"
    by (simp add: window_user_addr_def a_def push_bit_eq_mult algebra_simps)
  have lt: "unat a < 2 ^ 32" using unsigned_less [where 'a = nat, of a] by simp
  then have u: "unat (window_user_addr i) = unat a"
    unfolding a unsigned_ucast_eq by (intro take_bit_nat_eq_self) simp
  show "unat (window_user_addr i) < 2 ^ 32" unfolding u by (rule lt)
  have "take_bit 12 a = 0" unfolding a_def by (rule bit_word_eqI) (simp add: bit_simps)
  then have "take_bit 12 (unat a) = 0" by (metis unsigned_take_bit_eq unsigned_0)
  then show "unat (window_user_addr i) mod 4096 = 0" unfolding u by (simp add: take_bit_eq_mod)
qed


lemma queue_dirty_ksys [simp]:
  "kvm (queue_dirty_rect r s) = kvm s" "tasks (queue_dirty_rect r s) = tasks s" "cpus (queue_dirty_rect r s) = cpus s"
  by (simp_all add: queue_dirty_rect_def split: option.splits)

lemma window_fields [simp]:
  "heap (window_set_owner win pid s) = heap s" "kvm (window_set_owner win pid s) = kvm s"
  "window_list (window_set_owner win pid s) = window_list s" "heap (window_set_buffer win buf s) = heap s"
  "kvm (window_set_buffer win buf s) = kvm s" "window_list (window_set_buffer win buf s) = window_list s"
  by (simp_all add: window_set_owner_def window_set_buffer_def upd_win_def Let_def)



text \<open>
  The heap gives out addresses behind a header of 24 bytes: the buffer of the first window starts 376 bytes into its page,
  so that the program draws 376 bytes too low, into the headers of the heap, and can change them.
\<close>

lemma first_buffer_unaligned:
  "\<exists>h1 h2. kmalloc WINDOW_SIZE heap0 = Some (0x1000018, h1) \<and> kmalloc 4096 h1 = Some (0x1000178, h2) \<and>
    (0x1000178 :: u64) AND NOT 0xFFF = HEAP_START"
proof -
  have a: "align8 WINDOW_SIZE = 328" "align8 4096 = 4096" by (simp_all add: align8_def WINDOW_SIZE_def)
  have f1: "first_fit HEAP_LO (unat (align8 WINDOW_SIZE)) (heap_blocks heap0) = Some (0x1000018, [(328, False), (0xFFFE88, True)])"
    by (simp add: a heap0_blocks carve_def HEAP_LO_def)
  obtain h1 where h1: "kmalloc WINDOW_SIZE heap0 = Some (0x1000018, h1)" "heap_inv h1"
    "heap_blocks h1 = [(328, False), (0xFFFE88, True)]"
    by (rule kmalloc_some [OF heap0_inv f1]) simp
  have f2: "first_fit HEAP_LO (unat (align8 4096)) (heap_blocks h1) =
      Some (0x1000178, [(328, False), (4096, False), (0xFFEE70, True)])"
    by (simp add: a h1(3) carve_def HEAP_LO_def)
  have "\<exists>h2. kmalloc 4096 h1 = Some (0x1000178, h2)"
    by (rule kmalloc_some [OF h1(2) f2]) simp
  moreover have "(0x1000178 :: u64) AND NOT 0xFFF = HEAP_START" by (simp add: HEAP_START_def)
  ultimately show ?thesis using h1(1) by blast
qed

text \<open>The window with id 96 gets the user address 0, where the kernel itself lies: the sum is made in 32 bits.\<close>

lemma user_addr_wraps: "window_user_addr 96 = 0" "window_user_addr (i + 256) = window_user_addr i"
proof -
  have k: "(256 * 0x1000000 :: u32) = 0" "(0xA0000000 + 96 * 0x1000000 :: u32) = 0" by simp_all
  show "window_user_addr 96 = 0" unfolding window_user_addr_def k(2) by simp
  show "window_user_addr (i + 256) = window_user_addr i"
    unfolding window_user_addr_def distrib_right k(1) add_0_right ..
qed

text \<open>A window lower than its title bar has a client height that wraps: 32 pixels wide and 24 high, it takes no page.\<close>

lemma low_window_wraps: "(24 - 25 :: u32) = 0xFFFFFFFF" "window_pages 32 24 = 0"
  by (simp_all add: window_pages_def)

definition window_sys :: wsys where
  "window_sys = (demo_wsys heap0 [] demo_wins)\<lparr>kvm := vm_ex, tasks := tasks (demo1 TASK_RUNNING),
     cpus := [demo_cpu 0 0x100 0x300 \<lparr>rq_head = 0, rq_tail = 0, rq_count = 0\<rparr>]\<rparr>"

lemma window_sys_fields: "heap window_sys = heap0" "kvm window_sys = vm_ex" "next_window_id window_sys = 3" "current 0 window_sys = 0x300"
  "t_pml4 (tasks window_sys 0x300) = 0x1000" "t_id (tasks window_sys 0x300) = 1" "window_list window_sys = []"
  by (simp_all add: window_sys_def demo_wsys_def current_def demo_cpu_def demo1_def demo_sys_def demo_task_def)



subsection \<open>Exit\<close>

text \<open>The invariant of the scheduler looks at the queues, the current and idle tasks, and three fields of a task.\<close>

definition same_view :: "'a ksys_scheme \<Rightarrow> 'a ksys_scheme \<Rightarrow> bool" where
  "same_view s s' \<longleftrightarrow> length (cpus s') = length (cpus s) \<and> heap s' = heap s \<and> kvm s' = kvm s \<and>
     (\<forall>j < length (cpus s). runqueue (cpus s' ! j) = runqueue (cpus s ! j) \<and>
        current_task (cpus s' ! j) = current_task (cpus s ! j) \<and> idle_task (cpus s' ! j) = idle_task (cpus s ! j)) \<and>
     (\<forall>t. t_next (tasks s' t) = t_next (tasks s t) \<and> t_state (tasks s' t) = t_state (tasks s t) \<and>
        t_id (tasks s' t) = t_id (tasks s t))"

lemma same_view_refl: "same_view s s" by (simp add: same_view_def)

lemma same_view_trans: "same_view s t \<Longrightarrow> same_view t u \<Longrightarrow> same_view s u" by (simp add: same_view_def)

lemma same_view_cpu:
  "(\<And>cp. runqueue (f cp) = runqueue cp \<and> current_task (f cp) = current_task cp \<and> idle_task (f cp) = idle_task cp) \<Longrightarrow>
   same_view s (upd_cpu c f s)"
proof -
  assume f: "\<And>cp. runqueue (f cp) = runqueue cp \<and> current_task (f cp) = current_task cp \<and> idle_task (f cp) = idle_task cp"
  have u: "(cpus s)[c := f (cpus s ! c)] ! j = (if c = j then f (cpus s ! j) else cpus s ! j)" if "j < length (cpus s)" for j
    using that by auto
  show ?thesis by (simp add: same_view_def upd_cpu_def u f)
qed

lemma same_view_task:
  "(\<And>tk. t_next (f tk) = t_next tk \<and> t_state (f tk) = t_state tk \<and> t_id (f tk) = t_id tk) \<Longrightarrow> same_view s (upd_task t f s)"
  by (simp add: same_view_def upd_task_def)

lemma same_view_inv:
  assumes v: "same_view s s'" and inv: "sched_inv s"
  shows "sched_inv s'" and "j < length (cpus s) \<Longrightarrow> current j s' = current j s"
proof -
  have l: "length (cpus s') = length (cpus s)" using v by (simp add: same_view_def)
  have t: "t_next (tasks s' t) = t_next (tasks s t)" "t_state (tasks s' t) = t_state (tasks s t)" "t_id (tasks s' t) = t_id (tasks s t)" for t
    using v by (simp_all add: same_view_def)
  have rq: "runqueue (cpus s' ! j) = runqueue (cpus s ! j)" if "j < length (cpus s)" for j
    using v that by (simp add: same_view_def)
  have q: "rq_ok (queue_of j s') \<and> rq_list (queue_of j s') = rq_list (queue_of j s)" if "j < length (cpus s)" for j
    using rq_frame [of "tasks s" "runqueue (cpus s ! j)" "tasks s'"] sched_invD(1) [OF inv] that t(1) rq [OF that]
    by (auto simp: queues_ok_def queue_of_def)
  have qs: "queues s' = queues s" by (simp add: queues_def l q cong: map_cong)
  have "queues_ok s'" using sched_invD(1) [OF inv] q by (auto simp: queues_ok_def qs l)
  moreover have ci: "current j s' = current j s" "idle j s' = idle j s" if "j < length (cpus s)" for j
    using v that by (simp_all add: same_view_def current_def idle_def)
  ultimately show "sched_inv s'"
    using inv unfolding sched_inv_def qs l inj_on_def lessThan_iff by (simp add: t ci Ball_def)
  show "current j s' = current j s" if "j < length (cpus s)" using ci(1) [OF that] .
qed

lemma tick_view: "same_view s (task_timer_tick c s)"
proof -
  note parts = same_view_cpu same_view_task same_view_refl
  define s1 where "s1 = upd_cpu c (\<lambda>cp. cp\<lparr>c_total_ticks := c_total_ticks cp + 1\<rparr>) s"
  have v1: "same_view s s1" unfolding s1_def by (rule same_view_cpu) simp
  have r: "same_view t (task_request_reschedule c t)" for t :: "'a ksys_scheme"
    unfolding task_request_reschedule_def by (rule same_view_cpu) simp
  define s2 where "s2 = upd_task (current c s) (\<lambda>tk. tk\<lparr>t_total_ticks := t_total_ticks tk + 1\<rparr>) s1"
  have v2: "same_view s s2" unfolding s2_def by (rule same_view_trans [OF v1 same_view_task]) simp
  define s3 where "s3 = (if t_id (tasks s2 (current c s)) = 0
    then upd_cpu c (\<lambda>cp. cp\<lparr>c_idle_ticks := c_idle_ticks cp + 1\<rparr>) s2 else s2)"
  have v3: "same_view s s3" unfolding s3_def using v2 same_view_trans [OF v2 same_view_cpu] by simp
  define s4 where "s4 = (if timeslice (tasks s3 (current c s)) > 0
    then upd_task (current c s) (\<lambda>tk. tk\<lparr>timeslice := timeslice tk - 1\<rparr>) s3 else s3)"
  have v4: "same_view s s4" unfolding s4_def using v3 same_view_trans [OF v3 same_view_task] by simp
  show ?thesis
    unfolding task_timer_tick_def Let_def s1_def [symmetric] s2_def [symmetric] s3_def [symmetric] s4_def [symmetric]
    using v1 v3 v4 same_view_trans [OF v1 r] same_view_trans [OF v3 r] same_view_trans [OF v4 r] by simp
qed

lemma tick_exited:
  assumes "c < length (cpus s)" and "t_state (tasks s (current c s)) = TASK_EXITED"
  shows "task_needs_schedule c (task_timer_tick c s) \<noteq> 0"
proof -
  have r: "length (cpus t) = length (cpus s) \<Longrightarrow> task_needs_schedule c (task_request_reschedule c t) = 1" for t :: "'a ksys_scheme"
    using assms(1) by (simp add: task_needs_schedule_def task_request_reschedule_def upd_cpu_def)
  have l: "length (cpus (upd_cpu c f t)) = length (cpus t)" "length (cpus (upd_task u g t)) = length (cpus t)"
    "tasks (upd_cpu c f t) = tasks t" "t_state (tasks (upd_task u (\<lambda>tk. tk\<lparr>t_total_ticks := t_total_ticks tk + 1\<rparr>) t) u) = t_state (tasks t u)"
    for f g u and t :: "'a ksys_scheme"
    by (simp_all add: upd_cpu_def upd_task_def)
  show ?thesis using assms(2) by (simp add: task_timer_tick_def Let_def r l)
qed


text \<open>Task \<open>0x300\<close> of the system of two waiting tasks exits.\<close>

definition exit_sys :: intr where
  "exit_sys = ksys.extend ((demo1 TASK_RUNNING)\<lparr>kvm := (kvm (demo1 TASK_RUNNING))\<lparr>pmem := (\<lambda>_. 0)(0x8078 := 32)\<rparr>\<rparr>)
     (intr.fields (demo_input []) 0 0xFEE00000 [])"



subsection \<open>Reports\<close>

lemma fold_counts:
  "unat a + sum_list (map (\<lambda>cp. unat (rq_count (runqueue cp)) + 1) cs) < 2 ^ 32 \<Longrightarrow>
   unat (fold (\<lambda>cp n. n + (rq_count (runqueue cp) + 1)) cs a) =
     unat (a :: u32) + sum_list (map (\<lambda>cp. unat (rq_count (runqueue cp)) + 1) cs)"
proof (induction cs arbitrary: a)
  case (Cons cp cs)
  have "unat (rq_count (runqueue cp) + 1) = unat (rq_count (runqueue cp)) + 1"
    using Cons.prems by (subst unat_plus_if') simp
  then have a: "unat (a + (rq_count (runqueue cp) + 1)) = unat a + (unat (rq_count (runqueue cp)) + 1)"
    using Cons.prems by (subst unat_plus_if') simp
  show ?case using Cons.IH [of "a + (rq_count (runqueue cp) + 1)"] Cons.prems by (simp only: fold_simps a list.map sum_list.Cons)
qed simp

lemma queue_lengths:
  assumes "queues_ok s"
  shows "sum_list (map (\<lambda>cp. unat (rq_count (runqueue cp)) + 1) (cpus s)) = length (concat (queues s)) + length (cpus s)"
proof -
  have "unat (rq_count (runqueue (cpus s ! j))) = length (rq_list (queue_of j s))" if "j < length (cpus s)" for j
    using assms that by (simp add: queues_ok_def rq_ok_def rq_rep_def queue_of_def)
  then have "map (\<lambda>cp. unat (rq_count (runqueue cp)) + 1) (cpus s) = map (\<lambda>j. length (rq_list (queue_of j s)) + 1) [0..<length (cpus s)]"
    by (intro nth_equalityI) simp_all
  moreover have "sum_list (map (\<lambda>j. length (rq_list (queue_of j s)) + 1) js) =
      length (concat (map (\<lambda>j. rq_list (queue_of j s)) js)) + length js" for js
    by (induction js) simp_all
  ultimately show ?thesis by (simp add: queues_def)
qed

text \<open>
  The report on the machine: the free frames are those the allocator can still hand out, the tasks are those waiting in
  the queues and one for each processor, without overflow; times are reported for the first sixteen processors only.
\<close>

theorem sys_info_counts:
  assumes "sched_inv s" and "pmm_inv (frames (kvm s))"
  shows "\<exists>info. sys_get_sys_info s = (0, info) \<and> unat (si_cpu_count info) = length (cpus s) \<and>
    unat (si_free_frames info) = card (free_frames (frames (kvm s))) \<and>
    unat (si_task_count info) = length (concat (queues s)) + length (cpus s) \<and>
    length (si_cpus info) = min 16 (length (cpus s)) \<and>
    (\<forall>i < length (si_cpus info). si_cpus info ! i = (c_total_ticks (cpus s ! i), c_idle_ticks (cpus s ! i)))"
proof -
  have bound: "length (concat (queues s)) + length (cpus s) < 2 ^ 32 - 1" using assms(1) by (simp add: sched_inv_def)
  then have n: "unat (word_of_nat (length (cpus s)) :: u32) = length (cpus s)"
    using take_bit_nat_eq_self [of "length (cpus s)" 32] by (simp add: unsigned_of_nat)
  note q = queue_lengths [OF sched_invD(1) [OF assms(1)]]
  have "unat (fold (\<lambda>cp n. n + (rq_count (runqueue cp) + 1)) (cpus s) (0 :: u32)) = length (concat (queues s)) + length (cpus s)"
    using fold_counts [of 0 "cpus s"] bound unfolding q by simp
  moreover have "unat (pmm_get_free_count (frames (kvm s))) = card (free_frames (frames (kvm s)))"
    using pmm_stack_bounded [OF assms(2), of "[]"] by simp
  ultimately show ?thesis by (simp add: sys_get_sys_info_def n)
qed

theorem sys_info_counts_witness:
  "\<exists>info. sys_get_sys_info ((demo1 TASK_RUNNING)\<lparr>kvm := vm_ex\<rparr>) = (0, info) \<and> unat (si_task_count info) = 3 \<and> unat (si_free_frames info) = 3"
proof -
  let ?s = "(demo1 TASK_RUNNING)\<lparr>kvm := vm_ex\<rparr>"
  have "sched_inv ?s" by (rule sched_inv_more [OF demo1_inv]) simp_all
  moreover have "pmm_inv (frames (kvm ?s))" using vm_ex_ok by (simp add: vm_ok_def)
  moreover have "queues ?s = [[0x400, 0x500]]" "length (cpus ?s) = 1"
    using demo1_queues(1) [of TASK_RUNNING] demo1_fields(4) [of TASK_RUNNING] by (simp_all add: queues_def queue_of_def)
  ultimately show ?thesis using sys_info_counts [of ?s] by (auto simp: vm_ex_frames)
qed


subsection \<open>Running files\<close>

text \<open>
  C33. Running a file of the archive. The whole file is read into a fresh block of the heap, the descriptor is closed again, the
  loader gets exactly the bytes of the file, and the block is given back. When the bytes are no ELF image the answer is 0
  and the heap holds the same blocks as before.
\<close>

theorem exec_file_loads:
  fixes s :: "'a usys_scheme"
  assumes a: "archive fs (ufs s)" "0 \<notin> set nm" "length (fd_table (ufs s)) = MAX_FDS"
    and entry: "tar_entry nm (unat (tar_start_lba (ufs s))) fs = Some (l, content)" and free: "free_fd 0 (fd_table (ufs s)) = Some i"
    and heap: "heap_inv (heap s)" "has_room (length content + 40) (heap s)"
  shows "\<exists>buf k s1. (unat buf, k) \<in> live (heap s1) - live (heap s) \<and> length content \<le> k \<and>
    mbytes (bytes_of (pmem (kvm s1))) buf (length content) = content \<and>
    (\<forall>a. \<not> within buf (length content) a \<longrightarrow> bytes_of (pmem (kvm s1)) a = bytes_of (pmem (kvm s)) a) \<and>
    \<not> in_use (fd_table (ufs s1) ! i) \<and>
    task_exec_file nm s = do { (t, s2) \<leftarrow> task_exec buf s1; s3 \<leftarrow> kfree_k buf s2; Some (t, s3) } \<and>
    (hdr_magic (bytes_of (pmem (kvm s1))) buf \<noteq> ELF_MAGIC \<longrightarrow>
      (\<exists>s'. task_exec_file nm s = Some (0, s') \<and> heap_inv (heap s') \<and> live (heap s') = live (heap s) \<and> ufs s' = ufs s1))"
proof -
  from vfs_open_opens [OF a entry free] obtain f1 where
    f1: "vfs_open nm (ufs s) = Some (int i, f1)" "fd_on i l content 0 f1" by blast
  have fd: "i < MAX_FDS" "fd_table f1 ! i = \<lparr>start_lba = word_of_nat l, fd_size = word_of_nat (length content),
      fd_offset = word_of_nat 0, in_use = True\<rparr>" "length content < 2 ^ 31" "length (fd_table f1) = MAX_FDS"
    using f1(2) by (simp_all add: fd_on_def file_on_def)
  define sz where "sz = (word_of_nat (length content) :: u32)"
  have sz: "vfs_fd_size (int i) f1 = sz" "unat sz = length content"
    using fd unat_small [OF fd(3)] by (simp_all add: vfs_fd_size_def bad_fd_def sz_def)
  have u: "unat (ucast sz :: u64) = length content"
    using fd(3) sz(2) take_bit_nat_eq_self [of "length content" 64] by (simp add: unsigned_ucast_eq)
  have al: "length content \<le> unat (align8 (ucast sz))" "unat (align8 (ucast sz)) \<le> length content + 7"
  proof -
    have s7: "unat (ucast sz + 7 :: u64) = length content + 7" using u fd(3) by (simp add: unat_plus_if')
    show "length content \<le> unat (align8 (ucast sz))" using align8_ge [of "ucast sz"] u fd(3) by simp
    have "unat (align8 (ucast sz)) \<le> unat (ucast sz + 7 :: u64)"
      using unat_high [of "ucast sz + 7" 3] by (simp add: align8_def mask_consts(4))
    then show "unat (align8 (ucast sz)) \<le> length content + 7" unfolding s7 .
  qed
  have room: "has_room (8 + unat (align8 (ucast sz)) + 24) (heap s)" by (rule has_room_mono [OF heap(2)]) (use al in simp)
  obtain buf k h1 where h1: "kmalloc (ucast sz) (heap s) = Some (buf, h1)" "buf \<noteq> 0" "heap_inv h1" "has_room 8 h1"
    "(unat buf, k) \<notin> live (heap s)" "live h1 = insert (unat buf, k) (live (heap s))"
    by (rule kmalloc_room [OF heap(1) room]) simp
  have k: "length content \<le> k"
  proof -
    obtain j where "unat (align8 (ucast sz)) \<le> j" "(unat buf, j) \<notin> live (heap s)" "live h1 = insert (unat buf, j) (live (heap s))"
      using heap.malloc_live [OF heap(1) h1(1,2)] by blast
    moreover have "(unat buf, k) \<in> live h1" unfolding h1(6) by (rule insertI1)
    ultimately show ?thesis using h1(5) al by auto
  qed
  let ?b0 = "mbytes (bytes_of (pmem (kvm s))) buf (unat sz)"
  have lb: "length ?b0 = length content" by (simp add: mbytes_def sz(2))
  from vfs_read_reads [OF f1(2) refl, of sz ?b0] obtain f2 where
    f2: "vfs_read (int i) ?b0 sz f1 = Some (int (length content), content, f2)" "fd_on i l content (length content) f2"
    by (auto simp: sz(2) lb)
  define s1 where "s1 = (set_pmem (on_bytes (put_bytes buf content) (pmem (kvm s))) (s\<lparr>ufs := f1, heap := h1\<rparr>))\<lparr>ufs := vfs_close (int i) f2\<rparr>"
  have mem: "bytes_of (pmem (kvm s1)) = put_bytes buf content (bytes_of (pmem (kvm s)))"
    by (simp add: s1_def set_pmem_def bytes_of_on_bytes)
  have run: "task_exec_file nm s = do { (t, s2) \<leftarrow> task_exec buf s1; s3 \<leftarrow> kfree_k buf s2; Some (t, s3) }"
    using f2(1) by (simp add: task_exec_file_def f1(1) Let_def sz(1) kmalloc_k_def h1(1) s1_def set_pmem_def)
  have h': "heap s1 = h1" by (simp add: s1_def set_pmem_def)
  have closed: "\<not> in_use (fd_table (ufs s1) ! i)"
    using f2(2) by (simp add: s1_def vfs_close_def fd_on_def)
  have other: "bytes_of (pmem (kvm s1)) x = bytes_of (pmem (kvm s)) x" if "\<not> within buf (length content) x" for x
    unfolding mem
  proof (rule put_bytes_other, intro allI impI notI)
    fix j assume j: "j < length content" "buf + word_of_nat j = x"
    have "unat buf + length content \<le> 2 ^ 64" using live_in_heap [OF h1(3), of "unat buf" k] h1(6) k by simp
    then have "unat x = unat buf + j" using j unat_plus [of buf "length content" j] by (simp add: no_wrap_def)
    then show False using that j(1) by (simp add: within_def)
  qed
  have bad: "\<exists>s'. task_exec_file nm s = Some (0, s') \<and> heap_inv (heap s') \<and> live (heap s') = live (heap s) \<and> ufs s' = ufs s1"
    if m: "hdr_magic (bytes_of (pmem (kvm s1))) buf \<noteq> ELF_MAGIC"
  proof -
    have "(unat buf, k) \<in> live h1" using h1(6) by simp
    from heap.give_back_live [OF h1(3) this] obtain h2 where
      h2: "kfree buf h1 = Some h2" "heap_inv h2" "live h2 = live h1 - {(unat buf, k)}" by blast
    have "task_exec buf s1 = Some (0, s1)" using m by (simp add: task_exec_def elf_load_def)
    then have "task_exec_file nm s = Some (0, s1\<lparr>heap := h2\<rparr>)" by (simp add: run kfree_k_def h' h2(1))
    then show ?thesis using h2 h1(5,6) by auto
  qed
  show ?thesis
    by (rule exI [of _ buf], rule exI [of _ k], rule exI [of _ s1])
      (use h1(5,6) h' k mem mbytes_put_bytes [of content buf] fd(3) other closed run bad in auto)
qed


lemma low_byte_read32: "ucast (read32 m a) = m a"
  by (rule bit_word_eqI) (auto simp: read32_def read16_def bit_simps)

definition exec_sys :: usys where
  "exec_sys = wsys.extend window_sys (usys.fields (demo_vfs closed_fd) console0)"

lemma exec_sys_fields: "ufs exec_sys = demo_vfs closed_fd" "heap exec_sys = heap0" "kvm exec_sys = vm_ex"
  by (simp_all add: exec_sys_def window_sys_def demo_wsys_def ksys.defs wsys.defs usys.defs)

text \<open>The file \<open>hi\<close> with the three bytes \<open>abc\<close> is no ELF image.\<close>

theorem exec_file_loads_witness:
  "\<exists>s'. task_exec_file [104, 105] exec_sys = Some (0, s') \<and> live (heap s') = live heap0"
proof -
  have e: "tar_entry [104, 105] (unat (tar_start_lba (ufs exec_sys))) demo_files = Some (2049, [97, 98, 99])"
    by (simp add: exec_sys_fields)
  have f: "free_fd 0 (fd_table (ufs exec_sys)) = Some 0" "length (fd_table (ufs exec_sys)) = MAX_FDS"
    by (simp_all add: exec_sys_fields MAX_FDS_def numeral_eq_Suc)
  have r: "has_room (length [97, 98, 99 :: u8] + 40) (heap exec_sys)" by (simp add: has_room_def exec_sys_fields heap0_blocks)
  have p: "0 \<notin> set [104, 105 :: u8]" by simp
  have a: "archive demo_files (ufs exec_sys)" by (simp add: exec_sys_fields demo_archive)
  have i: "heap_inv (heap exec_sys)" by (simp add: exec_sys_fields heap0_inv)
  from exec_file_loads [OF a p f(2) e f(1) i r] obtain buf and s1 :: usys where
    b: "mbytes (bytes_of (pmem (kvm s1))) buf (length [97, 98, 99 :: u8]) = [97, 98, 99]"
      "hdr_magic (bytes_of (pmem (kvm s1))) buf \<noteq> ELF_MAGIC \<longrightarrow>
        (\<exists>s'. task_exec_file [104, 105] exec_sys = Some (0, s') \<and> heap_inv (heap s') \<and>
          live (heap s') = live (heap exec_sys) \<and> ufs s' = ufs s1)" by blast
  have "bytes_of (pmem (kvm s1)) buf = 97" using b(1) by (simp add: mbytes_def upt_rec)
  then have "(ucast (hdr_magic (bytes_of (pmem (kvm s1))) buf) :: u8) = 97" by (simp add: hdr_magic_def low_byte_read32)
  then have "hdr_magic (bytes_of (pmem (kvm s1))) buf \<noteq> ELF_MAGIC" by (auto simp: ELF_MAGIC_def)
  then show ?thesis using b(2) by (auto simp: exec_sys_fields)
qed

subsection \<open>Numbers and answers\<close>

text \<open>
  Dispatch. A number outside 1 to 13 answers with all bits set and changes nothing; the calls that only report
  (10, 11 and 12) change nothing; a failed open or a bad descriptor is answered with all bits set.
\<close>

theorem syscall_errors:
  fixes s :: "'a usys_scheme"
  assumes num: "num = 0 \<or> 13 < num" and bad: "bad_fd (sint (ucast fd :: u32)) (ufs s)"
  shows "syscall_handler_c umem c num a1 a2 a3 a4 s = Some (0xFFFFFFFFFFFFFFFF, [], s) \<and>
    (\<forall>k \<in> {10, 11, 12}. \<exists>r es. syscall_handler_c umem c k a1 a2 a3 a4 s = Some (r, es, s)) \<and>
    syscall_handler_c umem c 5 fd a2 a3 a4 s =
      Some (0xFFFFFFFFFFFFFFFF, [Bytes_At a2 (mbytes umem a2 (unat (ucast a3 :: u32)))], s) \<and>
    (window_pop_event (ucast a1) s = ((-1, None), s) \<longrightarrow> syscall_handler_c umem c 2 a1 a2 a3 a4 s = Some (0xFFFFFFFFFFFFFFFF, [], s))"
proof -
  have m: "ret_int (-1) = 0xFFFFFFFFFFFFFFFF" by (simp add: ret_int_def)
  have n: "num \<noteq> 1" "num \<noteq> 2" "num \<noteq> 3" "num \<noteq> 4" "num \<noteq> 5" "num \<noteq> 6" "num \<noteq> 7" "num \<noteq> 8" "num \<noteq> 9" "num \<noteq> 10"
    "num \<noteq> 11" "num \<noteq> 12" "num \<noteq> 13" using num by auto
  have "syscall_handler_c umem c 5 fd a2 a3 a4 s =
      Some (0xFFFFFFFFFFFFFFFF, [Bytes_At a2 (mbytes umem a2 (unat (ucast a3 :: u32)))], s)"
    using bad m by (simp add: syscall_handler_c_def sys_read_def vfs_read_def)
  moreover have "syscall_handler_c umem c num a1 a2 a3 a4 s = Some (0xFFFFFFFFFFFFFFFF, [], s)"
    by (simp only: syscall_handler_c_def n if_False)
  moreover have "\<exists>r es. syscall_handler_c umem c k a1 a2 a3 a4 s = Some (r, es, s)" if "k \<in> {10, 11, 12}" for k
    using that by (auto simp: syscall_handler_c_def Let_def sys_get_tasks_def split: prod.splits)
  ultimately show ?thesis using m by (auto simp: syscall_handler_c_def sys_get_event_def)
qed

theorem syscall_errors_witness:
  "syscall_handler_c (\<lambda>_. 0) 0 14 1 2 3 4 exec_sys = Some (0xFFFFFFFFFFFFFFFF, [], exec_sys) \<and>
   (\<exists>es. syscall_handler_c (\<lambda>_. 0) 0 5 3 0x1000 2 0 exec_sys = Some (0xFFFFFFFFFFFFFFFF, es, exec_sys))"
proof -
  have "bad_fd (sint (ucast (3 :: u64) :: u32)) (ufs exec_sys)"
    by (simp add: exec_sys_fields bad_fd_def MAX_FDS_def)
  then show ?thesis
    using syscall_errors [of 14 3 exec_sys "\<lambda>_. 0" 0 1 2 3 4] syscall_errors [of 14 3 exec_sys "\<lambda>_. 0" 0 1 "0x1000" 2 0] by simp
qed

end
