(* ===== verification/Terminal.thy ===== *)
theory Terminal
  imports Syscall Dhcp Lock
begin

text \<open>
  The terminal of \<open>src/kernel/shell.c\<close>: the grid of characters, its picture in the pixel buffer of the shell's
  window, and printing, which also goes to the text screen and the serial port. The record holds the whole state of
  the kernel that the shell's commands reach.
\<close>

subsection \<open>State\<close>

definition MAX_BUFFER :: nat where "MAX_BUFFER = 256"
definition SHELL_CHAR_W :: u32 where "SHELL_CHAR_W = 8"
definition SHELL_CHAR_H :: u32 where "SHELL_CHAR_H = 8"
definition SHELL_BG_COLOR :: u32 where "SHELL_BG_COLOR = 0x00000000"
definition SHELL_FG_COLOR :: u32 where "SHELL_FG_COLOR = 0xFFFFFFFF"

text \<open>
  \<open>term_ptr\<close> is the pointer \<open>term_cells\<close> (0 for NULL) and \<open>term_cells\<close> the characters behind it, by index and without an
  end, so that a write outside the grid would be seen.
\<close>

record shell = usys +
  netst :: dhcpsys
  locks :: lock_registry
  shell_window :: u64
  term_row :: u32
  term_col :: u32
  term_cols :: u32
  term_rows :: u32
  term_ptr :: u64
  term_cells :: "nat \<Rightarrow> u8"
  input_buffer :: "u8 list"
  buffer_idx :: nat

definition win_of :: "'a shell_scheme \<Rightarrow> window_t" where "win_of s = wins s (shell_window s)"

text \<open>Whether \<open>shell_window\<close> and its buffer are there, and a change of the buffer's pixels.\<close>

definition has_buffer :: "'a shell_scheme \<Rightarrow> bool" where
  "has_buffer s \<longleftrightarrow> shell_window s \<noteq> 0 \<and> w_buffer (win_of s) \<noteq> 0"

definition pixels_of :: "'a shell_scheme \<Rightarrow> pixels" where "pixels_of s = bufs s (w_buffer (win_of s))"

definition upd_pixels :: "(pixels \<Rightarrow> pixels) \<Rightarrow> 'a shell_scheme \<Rightarrow> 'a shell_scheme" where
  "upd_pixels f s = s\<lparr>bufs := (bufs s)(w_buffer (win_of s) := f (pixels_of s))\<rparr>"

definition cell_index :: "u32 \<Rightarrow> u32 \<Rightarrow> 'a shell_scheme \<Rightarrow> nat" where
  "cell_index row col s = unat (row * term_cols s + col)"

subsection \<open>Rendering\<close>

definition shell_clear_cell_pixels :: "u32 \<Rightarrow> u32 \<Rightarrow> 'a shell_scheme \<Rightarrow> 'a shell_scheme" where
  "shell_clear_cell_pixels row col s =
     (if \<not> has_buffer s then s
      else
        let px = col * SHELL_CHAR_W; py = row * SHELL_CHAR_H in
        upd_pixels (fold (\<lambda>y. fold (\<lambda>x b.
            b(ucast (py + word_of_nat y) * ucast (w_w (win_of s)) + ucast px + word_of_nat x := SHELL_BG_COLOR))
          [0..<unat SHELL_CHAR_W]) [0..<unat SHELL_CHAR_H]) s)"

definition shell_render_cell :: "u32 \<Rightarrow> u32 \<Rightarrow> 'a shell_scheme \<Rightarrow> 'a shell_scheme" where
  "shell_render_cell row col s =
     (if \<not> has_buffer s \<or> term_ptr s = 0 then s
      else if term_rows s \<le> row \<or> term_cols s \<le> col then s
      else
        let px = col * SHELL_CHAR_W; py = row * SHELL_CHAR_H;
            s1 = shell_clear_cell_pixels row col s;
            s2 = upd_pixels (graphics_draw_char (w_w (win_of s1)) px py (term_cells s1 (cell_index row col s1)) SHELL_FG_COLOR) s1
        in window_mark_region_dirty (shell_window s2) px py SHELL_CHAR_W SHELL_CHAR_H s2)"

definition render_char :: "u32 \<Rightarrow> u32 \<Rightarrow> 'a shell_scheme \<Rightarrow> 'a shell_scheme" where
  "render_char row col s =
     (let c = term_cells s (cell_index row col s) in
      if c = 0 \<or> c = 32 then s
      else upd_pixels (graphics_draw_char (w_w (win_of s)) (col * SHELL_CHAR_W) (row * SHELL_CHAR_H) c SHELL_FG_COLOR) s)"

definition shell_render_all :: "'a shell_scheme \<Rightarrow> 'a shell_scheme" where
  "shell_render_all s =
     (if \<not> has_buffer s \<or> term_ptr s = 0 then s
      else
        let s1 = upd_pixels (zero_pixels (ucast (w_w (win_of s) * (w_h (win_of s) - 25)) * 4)) s;
            s2 = fold (\<lambda>row. fold (\<lambda>col. render_char (word_of_nat row) (word_of_nat col)) [0..<unat (term_cols s1)])
                   [0..<unat (term_rows s1)] s1
        in window_mark_region_dirty (shell_window s2) 0 0 (w_w (win_of s2)) (w_h (win_of s2) - 25) s2)"

subsection \<open>Scrolling\<close>

text \<open>The grid moved up by one row of \<open>cols\<close> characters, and the pixels by \<open>scroll_px\<close> rows.\<close>

definition scroll_cells :: "u32 \<Rightarrow> u32 \<Rightarrow> (nat \<Rightarrow> u8) \<Rightarrow> nat \<Rightarrow> u8" where
  "scroll_cells rows cols cells =
     (let keep = unat ((rows - 1) * cols) in
      (\<lambda>i. if i < keep then cells (i + unat cols) else if i < keep + unat cols then 32 else cells i))"

definition scroll_pixels :: "u32 \<Rightarrow> u32 \<Rightarrow> pixels \<Rightarrow> pixels" where
  "scroll_pixels w client_h b =
     (let scroll_px = SHELL_CHAR_H; preserved_rows = client_h - scroll_px;
          b1 = (\<lambda>i. if i < ucast preserved_rows * ucast w then b (i + ucast scroll_px * ucast w) else b i)
      in fold (\<lambda>y. fold (\<lambda>x b. b(word_of_nat y * ucast w + word_of_nat x := SHELL_BG_COLOR)) [0..<unat w])
           [unat preserved_rows..<unat client_h] b1)"

definition shell_scroll_up :: "'a shell_scheme \<Rightarrow> 'a shell_scheme" where
  "shell_scroll_up s =
     (if term_ptr s = 0 \<or> term_rows s = 0 \<or> \<not> has_buffer s then s
      else
        let s1 = s\<lparr>term_cells := scroll_cells (term_rows s) (term_cols s) (term_cells s)\<rparr>;
            client_h = w_h (win_of s1) - 25;
            s2 = upd_pixels (scroll_pixels (w_w (win_of s1)) client_h) s1
        in window_mark_region_dirty (shell_window s2) 0 0 (w_w (win_of s2)) client_h s2)"

definition shell_advance_line :: "'a shell_scheme \<Rightarrow> 'a shell_scheme" where
  "shell_advance_line s =
     (if term_rows s = 0 then s
      else
        let s1 = s\<lparr>term_col := 0, term_row := term_row s + 1\<rparr> in
        if term_rows s1 \<le> term_row s1 then shell_scroll_up (s1\<lparr>term_row := term_rows s1 - 1\<rparr>) else s1)"

definition shell_set_window :: "u64 \<Rightarrow> 'a shell_scheme \<Rightarrow> 'a shell_scheme option" where
  "shell_set_window win s =
     (let s1 = s\<lparr>shell_window := win, term_row := 0, term_col := 0\<rparr> in
      if win = 0 then Some s1
      else do {
        let s2 = s1\<lparr>term_cols := w_w (win_of s1) div SHELL_CHAR_W, term_rows := (w_h (win_of s1) - 25) div SHELL_CHAR_H\<rparr>;
        s3 \<leftarrow> (if term_ptr s2 \<noteq> 0 then kfree_k (term_ptr s2) s2 else Some s2);
        let n = term_rows s3 * term_cols s3;
        (p, s4) \<leftarrow> kmalloc_k (ucast n) s3;
        let s5 = s4\<lparr>term_ptr := p, term_cells := (\<lambda>i. if i < unat n then 32 else term_cells s4 i)\<rparr>;
        Some (shell_render_all s5) })"

subsection \<open>Printing\<close>

text \<open>Both outputs besides the window.\<close>

definition echo :: "string \<Rightarrow> 'a shell_scheme \<Rightarrow> 'a shell_scheme option" where
  "echo txt s = do { c1 \<leftarrow> serial_print txt (vga_print txt (con s)); Some (s\<lparr>con := c1\<rparr>) }"

definition shell_putchar :: "u8 \<Rightarrow> 'a shell_scheme \<Rightarrow> 'a shell_scheme option" where
  "shell_putchar c s =
     (if c = 0x0A then do { s1 \<leftarrow> echo [CHR 0x0A] s; Some (shell_advance_line s1) }
      else if c = 0x08 then
        Some (if term_col s > 0 then
                let s1 = s\<lparr>term_col := term_col s - 1\<rparr> in
                if term_ptr s1 \<noteq> 0
                then shell_render_cell (term_row s1) (term_col s1)
                       (s1\<lparr>term_cells := (term_cells s1)(cell_index (term_row s1) (term_col s1) s1 := 32)\<rparr>)
                else s1
              else s)
      else do {
        s1 \<leftarrow> echo (if c = 0 then [] else [char_of (unat c)]) s;
        let s2 = (if term_ptr s1 \<noteq> 0
                  then shell_render_cell (term_row s1) (term_col s1)
                         (s1\<lparr>term_cells := (term_cells s1)(cell_index (term_row s1) (term_col s1) s1 := c)\<rparr>)
                  else s1);
        let s3 = s2\<lparr>term_col := term_col s2 + 1\<rparr>;
        Some (if term_cols s3 \<noteq> 0 \<and> term_cols s3 \<le> term_col s3 then shell_advance_line s3 else s3) })"

primrec shell_putchars :: "u8 list \<Rightarrow> 'a shell_scheme \<Rightarrow> 'a shell_scheme option" where
  "shell_putchars [] s = Some s"
| "shell_putchars (c # cs) s = do { s1 \<leftarrow> shell_putchar c s; shell_putchars cs s1 }"

definition shell_print :: "u8 list \<Rightarrow> 'a shell_scheme \<Rightarrow> 'a shell_scheme option" where
  "shell_print txt s = shell_putchars (takeWhile (\<lambda>c. c \<noteq> 0) txt) s"

text \<open>The characters of a literal.\<close>

definition lit :: "string \<Rightarrow> u8 list" where "lit txt = map of_char txt"

fun hex_text :: "nat list \<Rightarrow> bool \<Rightarrow> u64 \<Rightarrow> string" where
  "hex_text [] started v = []"
| "hex_text (i # is) started v =
     (let nibble = unat (drop_bit i v AND 0xF) in
      if nibble > 0 \<or> started \<or> i = 0 then hex_chars ! nibble # hex_text is True v else hex_text is started v)"

definition shell_print_hex :: "u64 \<Rightarrow> 'a shell_scheme \<Rightarrow> 'a shell_scheme option" where
  "shell_print_hex v s = shell_putchars (lit (hex_text (map (\<lambda>k. 60 - 4 * k) [0..<16]) False v)) s"

text \<open>The digits are collected lowest first, at most 21 of them.\<close>

definition shell_print_dec :: "u64 \<Rightarrow> 'a shell_scheme \<Rightarrow> 'a shell_scheme option" where
  "shell_print_dec v s =
     (if v = 0 then shell_putchar 48 s else shell_putchars (lit (rev (take 21 (dec_loop v)))) s)"


subsection \<open>Pixels by row and column\<close>

lemma fold_point_writes:
  "fold (\<lambda>j b. if P j then b(f j := v) else b) xs b a = (if \<exists>j \<in> set xs. P j \<and> f j = a then v else b a)"
  by (induction xs arbitrary: b) auto

lemma fold_writes2:
  "fold (\<lambda>y. fold (\<lambda>x b. b(f y x := v)) xs) ys b a = (if \<exists>y \<in> set ys. \<exists>x \<in> set xs. f y x = a then v else b a)"
proof (induction ys arbitrary: b)
  case (Cons y ys)
  have h: "fold (\<lambda>x b. b(f y x := v)) xs b a = (if \<exists>x \<in> set xs. f y x = a then v else b a)" for b
    using fold_point_writes [of "\<lambda>_. True" "f y" v xs b a] by (simp only: if_True simp_thms)
  show ?case by (simp only: fold_simps Cons.IH h) auto
qed simp

text \<open>The index of the pixel in row \<open>y\<close> and column \<open>x\<close> of a buffer \<open>W\<close> pixels wide.\<close>

definition idx :: "nat \<Rightarrow> nat \<Rightarrow> nat \<Rightarrow> u64" where "idx W y x = word_of_nat (y * W + x)"

lemma idx_room: "y < H \<Longrightarrow> x < W \<Longrightarrow> y * W + x < W * (H :: nat)"
proof -
  assume "y < H" "x < W"
  then have "y * W + x < Suc y * W" by simp
  also have "\<dots> \<le> H * W" using \<open>y < H\<close> by (intro mult_le_mono1) simp
  finally show ?thesis by (simp add: mult.commute)
qed

lemma unat_idx: "y < H \<Longrightarrow> x < W \<Longrightarrow> W * H < 2 ^ 32 \<Longrightarrow> unat (idx W y x) = y * W + x"
  using idx_room [of y H x W] take_bit_nat_eq_self [of "y * W + x" 64] by (simp only: idx_def unsigned_of_nat of_nat_id) simp

lemma idx_eq:
  assumes "y < H" "x < W" "v < H" "u < W" "W * H < 2 ^ 32"
  shows "idx W y x = idx W v u \<longleftrightarrow> y = v \<and> x = u"
proof
  assume "idx W y x = idx W v u"
  then have e: "y * W + x = v * W + u" using unat_idx [OF assms(1,2,5)] unat_idx [OF assms(3,4,5)] by simp
  have "y = v"
  proof -
    have "(y * W + x) div W = y" "(v * W + u) div W = v" using assms(2,4) by simp_all
    with e show ?thesis by simp
  qed
  with e show "y = v \<and> x = u" by simp
qed simp

lemma ucast_of_nat: "unat (a :: u32) = n \<Longrightarrow> (ucast a :: u64) = word_of_nat n"
  by (metis of_nat_unat)

lemma idx_wide:
  assumes "unat (a :: u32) = y" and "unat (b :: u32) = x"
  shows "ucast a * ucast (w :: u32) + ucast b + word_of_nat j = idx (unat w) y (x + j)"
  using ucast_of_nat [OF assms(1)] ucast_of_nat [OF assms(2)] ucast_of_nat [OF refl, of w] by (simp add: idx_def add.assoc)

lemma idx_narrow:
  assumes "unat (a :: u32) = y" and "unat (b :: u32) = x" and "y < H" and "x < unat w" and "unat (w :: u32) * H < 2 ^ 32"
  shows "ucast (a * w + b) = idx (unat w) y x"
proof -
  have lt: "y * unat w + x < 2 ^ 32" using idx_room [OF assms(3,4)] assms(5) by simp
  then have m: "unat (a * w) = y * unat w" using assms(1) unat_mult_lem [of a w] by simp
  have "unat (a * w + b) = y * unat w + x" using lt m assms(2) unat_add_lem [of "a * w" b] by simp
  then show ?thesis by (simp only: ucast_of_nat idx_def)
qed

subsection \<open>Glyphs\<close>

definition glyph :: "u8 \<Rightarrow> nat \<Rightarrow> nat \<Rightarrow> u32" where
  "glyph c i j = (if c < 128 \<and> bit (font8x8_basic (unat c) ! i) (7 - j) then SHELL_FG_COLOR else SHELL_BG_COLOR)"

text \<open>Clearing a cell and drawing a character into it, in a buffer of \<open>H\<close> rows.\<close>

lemma unat_times8: "unat (r :: u32) * 8 + 8 \<le> H \<Longrightarrow> H < 2 ^ 32 \<Longrightarrow> unat (r * 8) = unat r * 8"
  using unat_mult_lem [of r 8] by simp

lemma unat_plus_small: "unat (a :: u32) = n \<Longrightarrow> n + i < 2 ^ 32 \<Longrightarrow> unat (a + word_of_nat i) = n + i"
proof -
  assume a: "unat a = n" "n + i < 2 ^ 32"
  then have "unat (word_of_nat i :: u32) = i" using take_bit_nat_eq_self [of i 32] by (simp add: unsigned_of_nat)
  then show ?thesis using a unat_add_lem [of a "word_of_nat i"] by simp
qed

lemma block_div: "i < 8 \<Longrightarrow> (r * 8 + i = (y :: nat)) \<longleftrightarrow> y div 8 = r \<and> y mod 8 = i"
  by auto

lemma clear_cell_pixels:
  assumes r: "unat row * 8 + 8 \<le> H" and c: "unat col * 8 + 8 \<le> unat w" and room: "unat (w :: u32) * H < 2 ^ 32"
    and yx: "y < H" "x < unat w"
  shows "fold (\<lambda>y. fold (\<lambda>x b. b(ucast (row * SHELL_CHAR_H + word_of_nat y) * ucast w + ucast (col * SHELL_CHAR_W) + word_of_nat x := v))
      [0..<unat SHELL_CHAR_W]) [0..<unat SHELL_CHAR_H] b (idx (unat w) y x) =
    (if y div 8 = unat row \<and> x div 8 = unat col then v else b (idx (unat w) y x))"
proof -
  have H: "H < 2 ^ 32" "unat w < 2 ^ 32"
    using room yx unsigned_less [where 'a = nat, of w] by (auto intro: le_less_trans [rotated])
  have u: "unat (row * 8) = unat row * 8" "unat (col * 8) = unat col * 8"
    using unat_times8 [OF r H(1)] unat_times8 [OF c H(2)] by simp_all
  have f: "ucast (row * 8 + word_of_nat i) * ucast w + ucast (col * 8) + word_of_nat j =
      idx (unat w) (unat row * 8 + i) (unat col * 8 + j)" if "i < 8" for i j
  proof -
    have "unat (row * 8 + word_of_nat i) = unat row * 8 + i"
      by (rule unat_plus_small [OF u(1)]) (use that r H in simp)
    from idx_wide [OF this u(2)] show ?thesis .
  qed
  have e: "idx (unat w) (unat row * 8 + i) (unat col * 8 + j) = idx (unat w) y x \<longleftrightarrow>
      (y div 8 = unat row \<and> y mod 8 = i) \<and> (x div 8 = unat col \<and> x mod 8 = j)" if "i < 8" "j < 8" for i j
  proof -
    have "unat row * 8 + i < H" "unat col * 8 + j < unat w" using that r c by simp_all
    from idx_eq [OF this yx room] show ?thesis unfolding block_div [OF that(1)] block_div [OF that(2)] .
  qed
  have "(\<exists>i \<in> set [0..<8]. \<exists>j \<in> set [0..<8]. ucast (row * 8 + word_of_nat i) * ucast w + ucast (col * 8) + word_of_nat j = idx (unat w) y x) \<longleftrightarrow>
      y div 8 = unat row \<and> x div 8 = unat col"
  proof
    assume "\<exists>i \<in> set [0..<8]. \<exists>j \<in> set [0..<8]. ucast (row * 8 + word_of_nat i) * ucast w + ucast (col * 8) + word_of_nat j = idx (unat w) y x"
    then obtain i j where "i < 8" "j < 8" "ucast (row * 8 + word_of_nat i) * ucast w + ucast (col * 8) + word_of_nat j = idx (unat w) y x"
      by auto
    then show "y div 8 = unat row \<and> x div 8 = unat col" using f e by simp
  next
    assume "y div 8 = unat row \<and> x div 8 = unat col"
    then have "ucast (row * 8 + word_of_nat (y mod 8)) * ucast w + ucast (col * 8) + word_of_nat (x mod 8) = idx (unat w) y x"
      using f [of "y mod 8" "x mod 8"] e [of "y mod 8" "x mod 8"] by simp
    then show "\<exists>i \<in> set [0..<8]. \<exists>j \<in> set [0..<8]. ucast (row * 8 + word_of_nat i) * ucast w + ucast (col * 8) + word_of_nat j = idx (unat w) y x"
      by (intro bexI [of _ "y mod 8"] bexI [of _ "x mod 8"]) simp_all
  qed
  then show ?thesis unfolding SHELL_CHAR_H_def SHELL_CHAR_W_def fold_writes2 by simp
qed

lemma fold_point:
  assumes "\<And>i b. i \<in> set xs \<Longrightarrow> g i b a = (if Q i then v else b a)"
  shows "fold g xs b a = (if \<exists>i \<in> set xs. Q i then v else b a)"
  using assms
proof (induction xs arbitrary: b)
  case (Cons i xs)
  have "fold g (i # xs) b a = fold g xs (g i b) a" by simp
  also have "\<dots> = (if \<exists>i \<in> set xs. Q i then v else g i b a)" by (rule Cons.IH) (use Cons.prems in simp)
  also have "g i b a = (if Q i then v else b a)" using Cons.prems by simp
  finally show ?case by simp
qed simp

lemma glyph_row_pixels:
  "draw_glyph_row w x py bits color b a =
     (if \<exists>j \<in> set [0..<8]. bit bits (7 - j) \<and> x + word_of_nat j < w \<and> ucast (py * w + (x + word_of_nat j)) = a then color else b a)"
  unfolding draw_glyph_row_def by (rule fold_point) (auto simp: Let_def)

lemma draw_char_pixels:
  assumes r: "unat row * 8 + 8 \<le> H" and c: "unat col * 8 + 8 \<le> unat w" and room: "unat (w :: u32) * H < 2 ^ 32"
    and yx: "y < H" "x < unat w"
  shows "graphics_draw_char w (col * SHELL_CHAR_W) (row * SHELL_CHAR_H) ch color b (idx (unat w) y x) =
    (if y div 8 = unat row \<and> x div 8 = unat col \<and> ch < 128 \<and> bit (font8x8_basic (unat ch) ! (y mod 8)) (7 - x mod 8)
     then color else b (idx (unat w) y x))"
proof (cases "ch < 128")
  case True
  then have n: "\<not> 128 \<le> ch" by simp
  have H: "H < 2 ^ 32" "unat w < 2 ^ 32"
    using room yx unsigned_less [where 'a = nat, of w] by (auto intro: le_less_trans [rotated])
  have u: "unat (row * 8) = unat row * 8" "unat (col * 8) = unat col * 8"
    using unat_times8 [OF r H(1)] unat_times8 [OF c H(2)] by simp_all
  have px: "unat (col * 8 + word_of_nat j) = unat col * 8 + j" if "j < 8" for j
    by (rule unat_plus_small [OF u(2)]) (use that c H in simp)
  have in_w: "col * 8 + word_of_nat j < w" if "j < 8" for j
    using px [OF that] that c by (simp add: word_less_nat_alt)
  have e: "ucast ((row * 8 + word_of_nat i) * w + (col * 8 + word_of_nat j)) = idx (unat w) y x \<longleftrightarrow>
      (y div 8 = unat row \<and> y mod 8 = i) \<and> (x div 8 = unat col \<and> x mod 8 = j)" if "i < 8" "j < 8" for i j
  proof -
    have py: "unat (row * 8 + word_of_nat i) = unat row * 8 + i"
      by (rule unat_plus_small [OF u(1)]) (use that r H in simp)
    have l: "unat row * 8 + i < H" "unat col * 8 + j < unat w" using that r c by simp_all
    have "ucast ((row * 8 + word_of_nat i) * w + (col * 8 + word_of_nat j)) = idx (unat w) (unat row * 8 + i) (unat col * 8 + j)"
      by (rule idx_narrow [OF py px [OF that(2)] l room])
    then show ?thesis using idx_eq [OF l yx room] unfolding block_div [OF that(1)] block_div [OF that(2)] by simp
  qed
  have "graphics_draw_char w (col * 8) (row * 8) ch color b (idx (unat w) y x) =
    (if \<exists>i \<in> set [0..<8]. \<exists>j \<in> set [0..<8]. bit (font8x8_basic (unat ch) ! i) (7 - j) \<and> col * 8 + word_of_nat j < w \<and>
       ucast ((row * 8 + word_of_nat i) * w + (col * 8 + word_of_nat j)) = idx (unat w) y x then color else b (idx (unat w) y x))"
    unfolding graphics_draw_char_def if_not_P [OF n] by (rule fold_point, rule glyph_row_pixels)
  also have "(\<exists>i \<in> set [0..<8]. \<exists>j \<in> set [0..<8]. bit (font8x8_basic (unat ch) ! i) (7 - j) \<and> col * 8 + word_of_nat j < w \<and>
       ucast ((row * 8 + word_of_nat i) * w + (col * 8 + word_of_nat j)) = idx (unat w) y x) \<longleftrightarrow>
     y div 8 = unat row \<and> x div 8 = unat col \<and> bit (font8x8_basic (unat ch) ! (y mod 8)) (7 - x mod 8)"
    (is "?l \<longleftrightarrow> ?r")
  proof
    assume ?l
    then obtain i j where "i < 8" "j < 8" "bit (font8x8_basic (unat ch) ! i) (7 - j)"
      "ucast ((row * 8 + word_of_nat i) * w + (col * 8 + word_of_nat j)) = idx (unat w) y x" by auto
    then show ?r using e by auto
  next
    assume ?r
    then show ?l using e [of "y mod 8" "x mod 8"] in_w [of "x mod 8"]
      by (intro bexI [of _ "y mod 8"] bexI [of _ "x mod 8"]) simp_all
  qed
  finally show ?thesis using True by (simp add: SHELL_CHAR_W_def SHELL_CHAR_H_def)
qed (simp add: graphics_draw_char_def)

text \<open>Scrolling moves every row of pixels up by eight and blanks the last eight.\<close>

lemma scroll_pixels_at:
  assumes h: "8 \<le> unat ch" and room: "unat w * unat ch < 2 ^ 32" and yx: "y < unat ch" "x < unat w"
  shows "scroll_pixels w ch b (idx (unat w) y x) = (if y < unat ch - 8 then b (idx (unat w) (y + 8) x) else SHELL_BG_COLOR)"
proof -
  have p: "unat (ch - 8) = unat ch - 8" using h by (subst unat_sub_if') simp
  have lim: "ucast (ch - 8) * ucast w = (word_of_nat ((unat ch - 8) * unat w) :: u64)"
    using ucast_of_nat [OF p] ucast_of_nat [OF refl, of w] by simp
  have u: "unat (idx (unat w) y x) = y * unat w + x" by (rule unat_idx [OF yx room])
  have below: "idx (unat w) y x < ucast (ch - 8) * ucast w \<longleftrightarrow> y < unat ch - 8"
  proof -
    have "(unat ch - 8) * unat w < 2 ^ 64" using room le_less_trans [of "(unat ch - 8) * unat w" "unat w * unat ch" "2 ^ 32"]
      by (simp add: mult.commute)
    then have "unat (word_of_nat ((unat ch - 8) * unat w) :: u64) = (unat ch - 8) * unat w"
      using take_bit_nat_eq_self [of "(unat ch - 8) * unat w" 64] by (simp only: unsigned_of_nat of_nat_id) simp
    then have "idx (unat w) y x < ucast (ch - 8) * ucast w \<longleftrightarrow> y * unat w + x < (unat ch - 8) * unat w"
      unfolding lim word_less_nat_alt u by simp
    also have "\<dots> \<longleftrightarrow> y < unat ch - 8"
    proof
      assume l: "y * unat w + x < (unat ch - 8) * unat w"
      show "y < unat ch - 8"
      proof (rule ccontr)
        assume "\<not> y < unat ch - 8"
        then have "(unat ch - 8) * unat w \<le> y * unat w" by (intro mult_le_mono1) simp
        then show False using l by linarith
      qed
    qed (use idx_room [of y "unat ch - 8" x "unat w"] yx(2) in \<open>simp add: mult.commute\<close>)
    finally show ?thesis .
  qed
  have shift: "idx (unat w) y x + ucast SHELL_CHAR_H * ucast w = idx (unat w) (y + 8) x"
  proof -
    have "(ucast SHELL_CHAR_H * ucast w :: u64) = word_of_nat (8 * unat w)"
      using ucast_of_nat [OF refl, of w] by (simp add: SHELL_CHAR_H_def)
    then show ?thesis by (simp add: idx_def algebra_simps)
  qed
  have cleared: "(\<exists>v \<in> set [unat ch - 8..<unat ch]. \<exists>u \<in> set [0..<unat w]. word_of_nat v * ucast w + word_of_nat u = idx (unat w) y x) \<longleftrightarrow>
      \<not> y < unat ch - 8"
  proof -
    have e: "word_of_nat v * ucast w + word_of_nat u = idx (unat w) y x \<longleftrightarrow> v = y \<and> u = x" if "v < unat ch" "u < unat w" for v u
    proof -
      have "word_of_nat v * ucast w + word_of_nat u = idx (unat w) v u"
        using ucast_of_nat [OF refl, of w] by (simp add: idx_def)
      then show ?thesis using idx_eq [OF that yx room] by simp
    qed
    show ?thesis using yx by (auto simp: e)
  qed
  have c8: "ch - SHELL_CHAR_H = ch - 8" by (simp add: SHELL_CHAR_H_def)
  show ?thesis
    unfolding scroll_pixels_def Let_def fold_writes2 c8 p cleared shift below by simp
qed

subsection \<open>The picture\<close>

abbreviation rows_of :: "'a shell_scheme \<Rightarrow> nat" where "rows_of s \<equiv> unat (term_rows s)"
abbreviation cols_of :: "'a shell_scheme \<Rightarrow> nat" where "cols_of s \<equiv> unat (term_cols s)"
abbreviation width_of :: "'a shell_scheme \<Rightarrow> nat" where "width_of s \<equiv> unat (w_w (win_of s))"
abbreviation height_of :: "'a shell_scheme \<Rightarrow> nat" where "height_of s \<equiv> unat (w_h (win_of s) - 25)"

text \<open>A window with a buffer, and a grid of at least one cell that fits into it.\<close>

definition grid_ok :: "'a shell_scheme \<Rightarrow> bool" where
  "grid_ok s \<longleftrightarrow> has_buffer s \<and> term_ptr s \<noteq> 0 \<and> 0 < rows_of s \<and> 0 < cols_of s \<and>
     cols_of s * 8 \<le> width_of s \<and> rows_of s * 8 \<le> height_of s \<and> width_of s * height_of s < 2 ^ 32"

text \<open>The buffer shows the glyphs of the cells; the strip below the grid is blank.\<close>

definition picture :: "'a shell_scheme \<Rightarrow> bool" where
  "picture s \<longleftrightarrow> (\<forall>y < height_of s. \<forall>x < cols_of s * 8. pixels_of s (idx (width_of s) y x) =
     (if y < rows_of s * 8 then glyph (term_cells s (y div 8 * cols_of s + x div 8)) (y mod 8) (x mod 8) else SHELL_BG_COLOR))"

lemma record_fields [simp]:
  "win_of (s\<lparr>term_cells := a\<rparr>) = win_of s" "has_buffer (s\<lparr>term_cells := a\<rparr>) = has_buffer s" "pixels_of (s\<lparr>term_cells := a\<rparr>) = pixels_of s"
  "win_of (s\<lparr>term_row := b\<rparr>) = win_of s" "has_buffer (s\<lparr>term_row := b\<rparr>) = has_buffer s" "pixels_of (s\<lparr>term_row := b\<rparr>) = pixels_of s"
  "win_of (s\<lparr>term_col := b\<rparr>) = win_of s" "has_buffer (s\<lparr>term_col := b\<rparr>) = has_buffer s" "pixels_of (s\<lparr>term_col := b\<rparr>) = pixels_of s"
  "win_of (s\<lparr>con := d\<rparr>) = win_of s" "has_buffer (s\<lparr>con := d\<rparr>) = has_buffer s" "pixels_of (s\<lparr>con := d\<rparr>) = pixels_of s"
  "win_of (s\<lparr>input_buffer := e\<rparr>) = win_of s" "has_buffer (s\<lparr>input_buffer := e\<rparr>) = has_buffer s" "pixels_of (s\<lparr>input_buffer := e\<rparr>) = pixels_of s"
  "win_of (s\<lparr>buffer_idx := f\<rparr>) = win_of s" "has_buffer (s\<lparr>buffer_idx := f\<rparr>) = has_buffer s" "pixels_of (s\<lparr>buffer_idx := f\<rparr>) = pixels_of s"
  "cell_index r c (s\<lparr>term_cells := a\<rparr>) = cell_index r c s" "cell_index r c (s\<lparr>term_row := b\<rparr>) = cell_index r c s" "cell_index r c (s\<lparr>term_col := b\<rparr>) = cell_index r c s" "cell_index r c (s\<lparr>con := d\<rparr>) = cell_index r c s" 
  by (simp_all add: win_of_def has_buffer_def pixels_of_def cell_index_def)

lemma upd_pixels_fields [simp]:
  "win_of (upd_pixels f s) = win_of s" "shell_window (upd_pixels f s) = shell_window s" "has_buffer (upd_pixels f s) = has_buffer s"
  "term_rows (upd_pixels f s) = term_rows s" "term_cols (upd_pixels f s) = term_cols s" "term_row (upd_pixels f s) = term_row s"
  "term_col (upd_pixels f s) = term_col s" "term_ptr (upd_pixels f s) = term_ptr s" "term_cells (upd_pixels f s) = term_cells s"
  "con (upd_pixels f s) = con s" "pixels_of (upd_pixels f s) = f (pixels_of s)" "cell_index r c (upd_pixels f s) = cell_index r c s"
  "input_buffer (upd_pixels f s) = input_buffer s" "buffer_idx (upd_pixels f s) = buffer_idx s"
  "heap (upd_pixels f s) = heap s" "kvm (upd_pixels f s) = kvm s" "ufs (upd_pixels f s) = ufs s" "netst (upd_pixels f s) = netst s"
  by (simp_all add: upd_pixels_def win_of_def has_buffer_def pixels_of_def cell_index_def)

lemma queue_dirty_shell [simp]:
  "shell_window (queue_dirty_rect r s) = shell_window s" "term_rows (queue_dirty_rect r s) = term_rows s"
  "term_cols (queue_dirty_rect r s) = term_cols s" "term_row (queue_dirty_rect r s) = term_row s"
  "term_col (queue_dirty_rect r s) = term_col s" "term_ptr (queue_dirty_rect r s) = term_ptr s"
  "term_cells (queue_dirty_rect r s) = term_cells s" "con (queue_dirty_rect r s) = con s"
  "input_buffer (queue_dirty_rect r s) = input_buffer s" "buffer_idx (queue_dirty_rect r s) = buffer_idx s"
  "heap (queue_dirty_rect r s) = heap s" "kvm (queue_dirty_rect r s) = kvm s" "ufs (queue_dirty_rect r s) = ufs s" "netst (queue_dirty_rect r s) = netst s"
  by (simp_all add: queue_dirty_rect_def split: option.splits)

lemma mark_fields [simp]:
  fixes s :: "'a shell_scheme" and x y w h :: u32 and p :: u64
  defines "s' \<equiv> window_mark_region_dirty p x y w h s"
  shows "shell_window s' = shell_window s" "term_rows s' = term_rows s" "term_cols s' = term_cols s" "term_row s' = term_row s"
    "term_col s' = term_col s" "term_ptr s' = term_ptr s" "term_cells s' = term_cells s" "con s' = con s"
    "input_buffer s' = input_buffer s" "buffer_idx s' = buffer_idx s"
    "heap s' = heap s" "kvm s' = kvm s" "ufs s' = ufs s" "netst s' = netst s"
    "w_w (win_of s') = w_w (win_of s)" "w_h (win_of s') = w_h (win_of s)" "w_buffer (win_of s') = w_buffer (win_of s)"
    "has_buffer s' = has_buffer s" "pixels_of s' = pixels_of s" "cell_index r c s' = cell_index r c s"
  by (simp_all add: s'_def window_mark_region_dirty_def upd_win_def win_of_def has_buffer_def pixels_of_def cell_index_def Let_def)

lemma render_cell_fields [simp]:
  fixes s :: "'a shell_scheme" and row col :: u32
  defines "s' \<equiv> shell_render_cell row col s"
  shows "shell_window s' = shell_window s" "term_rows s' = term_rows s" "term_cols s' = term_cols s" "term_row s' = term_row s"
    "term_col s' = term_col s" "term_ptr s' = term_ptr s" "term_cells s' = term_cells s" "con s' = con s"
    "input_buffer s' = input_buffer s" "buffer_idx s' = buffer_idx s"
    "heap s' = heap s" "kvm s' = kvm s" "ufs s' = ufs s" "netst s' = netst s"
    "w_w (win_of s') = w_w (win_of s)" "w_h (win_of s') = w_h (win_of s)" "has_buffer s' = has_buffer s"
  by (simp_all add: s'_def shell_render_cell_def shell_clear_cell_pixels_def Let_def)

lemma scroll_up_fields [simp]:
  fixes s :: "'a shell_scheme"
  defines "s' \<equiv> shell_scroll_up s"
  shows "shell_window s' = shell_window s" "term_rows s' = term_rows s" "term_cols s' = term_cols s" "term_row s' = term_row s"
    "term_col s' = term_col s" "term_ptr s' = term_ptr s" "con s' = con s"
    "input_buffer s' = input_buffer s" "buffer_idx s' = buffer_idx s"
    "heap s' = heap s" "kvm s' = kvm s" "ufs s' = ufs s" "netst s' = netst s"
    "w_w (win_of s') = w_w (win_of s)" "w_h (win_of s') = w_h (win_of s)" "has_buffer s' = has_buffer s"
  by (simp_all add: s'_def shell_scroll_up_def Let_def)

lemma cell_below: "r < R \<Longrightarrow> r * 8 + 8 \<le> R * (8 :: nat)"
  by simp

lemma cell_index_nat:
  assumes "grid_ok s" and "unat row < rows_of s" and "unat col < cols_of s"
  shows "cell_index row col s = unat row * cols_of s + unat col"
proof -
  have "unat row * cols_of s + unat col < cols_of s * rows_of s" by (rule idx_room [OF assms(2,3)])
  also have "\<dots> \<le> width_of s * height_of s" using assms(1) by (intro mult_le_mono) (simp_all add: grid_ok_def)
  also have "\<dots> < 2 ^ 32" using assms(1) by (simp add: grid_ok_def)
  finally have lt: "unat row * cols_of s + unat col < 2 ^ 32" .
  then have m: "unat (row * term_cols s) = unat row * cols_of s" using unat_mult_lem [of row "term_cols s"] by simp
  show ?thesis using lt m unat_add_lem [of "row * term_cols s" col] by (simp add: cell_index_def)
qed

text \<open>Rendering a cell brings exactly its block of pixels up to date.\<close>

lemma render_cell_pixels:
  assumes g: "grid_ok s" and row: "unat row < rows_of s" and col: "unat col < cols_of s"
    and yx: "y < height_of s" "x < width_of s"
  shows "pixels_of (shell_render_cell row col s) (idx (width_of s) y x) =
    (if y div 8 = unat row \<and> x div 8 = unat col then glyph (term_cells s (unat row * cols_of s + unat col)) (y mod 8) (x mod 8)
     else pixels_of s (idx (width_of s) y x))"
proof -
  have r8: "unat row * 8 + 8 \<le> height_of s" and c8: "unat col * 8 + 8 \<le> width_of s"
    using cell_below [OF row] cell_below [OF col] g by (simp_all add: grid_ok_def)
  have room: "width_of s * height_of s < 2 ^ 32" using g by (simp add: grid_ok_def)
  have n: "\<not> (\<not> has_buffer s \<or> term_ptr s = 0)" "\<not> (term_rows s \<le> row \<or> term_cols s \<le> col)"
    using g row col by (simp_all add: grid_ok_def word_le_nat_alt)
  show ?thesis
    unfolding shell_render_cell_def if_not_P [OF n(1)] if_not_P [OF n(2)] Let_def shell_clear_cell_pixels_def
    using n(1) by (simp add: cell_index_nat [OF g row col] draw_char_pixels [OF r8 c8 room yx] clear_cell_pixels [OF r8 c8 room yx] glyph_def)
qed

lemma grid_index: "c < C \<Longrightarrow> q < C \<Longrightarrow> (r * C + c = p * C + q) \<longleftrightarrow> r = p \<and> c = (q :: nat)"
proof
  assume c: "c < C" "q < C" and e: "r * C + c = p * C + q"
  have "(r * C + c) div C = r" "(p * C + q) div C = p" using c by simp_all
  then have "r = p" using e by metis
  with e show "r = p \<and> c = q" by simp
qed simp

lemma put_cell_picture:
  assumes g: "grid_ok s" and p: "picture s" and row: "unat row < rows_of s" and col: "unat col < cols_of s"
  shows "picture (shell_render_cell row col (s\<lparr>term_cells := (term_cells s)(cell_index row col s := v)\<rparr>))"
proof -
  let ?s = "s\<lparr>term_cells := (term_cells s)(cell_index row col s := v)\<rparr>"
  have g': "grid_ok ?s" using g by (simp add: grid_ok_def)
  have cw: "cols_of s * 8 \<le> width_of s" using g by (simp add: grid_ok_def)
  have px: "pixels_of (shell_render_cell row col ?s) (idx (width_of s) y x) =
      (if y < rows_of s * 8 then glyph (term_cells ?s (y div 8 * cols_of s + x div 8)) (y mod 8) (x mod 8) else SHELL_BG_COLOR)"
    if yx: "y < height_of s" "x < cols_of s * 8" for y x
  proof -
    have c: "x div 8 < cols_of s" using yx(2) by (simp add: less_mult_imp_div_less)
    have r: "pixels_of (shell_render_cell row col ?s) (idx (width_of s) y x) =
      (if y div 8 = unat row \<and> x div 8 = unat col then glyph v (y mod 8) (x mod 8) else pixels_of s (idx (width_of s) y x))"
      using render_cell_pixels [OF g', of row col y x] row col yx cw by (simp add: cell_index_nat [OF g row col])
    show ?thesis
    proof (cases "y div 8 = unat row \<and> x div 8 = unat col")
      case True
      have "y div 8 < rows_of s" using True row by simp
      then have "y < rows_of s * 8" by (simp add: div_less_iff_less_mult)
      then show ?thesis using r True by (simp add: cell_index_nat [OF g row col])
    next
      case False
      then have "y div 8 * cols_of s + x div 8 \<noteq> unat row * cols_of s + unat col"
        using grid_index [of "x div 8" "cols_of s" "unat col" "y div 8" "unat row"] c col by auto
      then show ?thesis using r False p yx by (simp add: picture_def cell_index_nat [OF g row col])
    qed
  qed
  show ?thesis unfolding picture_def using px by simp
qed

lemma glyph_space: "i < 8 \<Longrightarrow> glyph 32 i j = SHELL_BG_COLOR"
proof -
  assume "i < 8"
  then have "font8x8_basic (unat (32 :: u8)) ! i = 0"
    by (simp add: font8x8_basic_def font8x8_glyphs_def nth_Cons split: nat.split)
  then show ?thesis by (simp add: glyph_def)
qed

lemma scroll_cells_at:
  assumes r: "r < unat rows" and c: "c < unat cols" and room: "unat cols * unat rows < 2 ^ 32"
  shows "scroll_cells rows cols cells (r * unat cols + c) = (if r < unat rows - 1 then cells ((r + 1) * unat cols + c) else 32)"
proof -
  have one: "unat (rows - 1) = unat rows - 1" using r by (subst unat_sub_if') simp
  have "(unat rows - 1) * unat cols < 2 ^ 32"
    using room le_less_trans [of "(unat rows - 1) * unat cols" "unat cols * unat rows" "2 ^ 32"] by (simp add: mult.commute)
  then have keep: "unat ((rows - 1) * cols) = (unat rows - 1) * unat cols"
    using unat_mult_lem [of "rows - 1" cols] by (simp add: one)
  show ?thesis
  proof (cases "r < unat rows - 1")
    case True
    have lt: "r * unat cols + c < (unat rows - 1) * unat cols" using idx_room [OF True c] by (simp only: mult.commute)
    have "scroll_cells rows cols cells (r * unat cols + c) = cells (r * unat cols + c + unat cols)"
      by (simp only: scroll_cells_def Let_def keep if_P [OF lt])
    then show ?thesis using True by (simp add: algebra_simps)
  next
    case False
    then have e: "r = unat rows - 1" using r by simp
    have n: "\<not> r * unat cols + c < (unat rows - 1) * unat cols" and l: "r * unat cols + c < (unat rows - 1) * unat cols + unat cols"
      using c by (simp_all add: e)
    show ?thesis using False by (simp only: scroll_cells_def Let_def keep if_not_P [OF n] if_P [OF l] if_False)
  qed
qed

lemma grid_room: "grid_ok s \<Longrightarrow> cols_of s * rows_of s < 2 ^ 32"
proof -
  assume g: "grid_ok s"
  have "cols_of s * rows_of s \<le> width_of s * height_of s" using g by (intro mult_le_mono) (simp_all add: grid_ok_def)
  also have "\<dots> < 2 ^ 32" using g by (simp add: grid_ok_def)
  finally show ?thesis .
qed

lemma scroll_up_grid: "grid_ok s \<Longrightarrow> grid_ok (shell_scroll_up s)"
  by (simp add: grid_ok_def)

lemma scroll_up_cells:
  "grid_ok s \<Longrightarrow> term_cells (shell_scroll_up s) = scroll_cells (term_rows s) (term_cols s) (term_cells s)"
  by (auto simp: shell_scroll_up_def grid_ok_def Let_def)

lemma scroll_up_picture:
  assumes g: "grid_ok s" and p: "picture s"
  shows "picture (shell_scroll_up s)"
proof -
  have G: "0 < rows_of s" "cols_of s * 8 \<le> width_of s" "rows_of s * 8 \<le> height_of s" "width_of s * height_of s < 2 ^ 32"
    "\<not> (term_ptr s = 0 \<or> term_rows s = 0 \<or> \<not> has_buffer s)"
    using g by (auto simp: grid_ok_def)
  have h8: "8 \<le> height_of s" using G(1,3) by simp
  note cells = scroll_up_cells [OF g]
  have px: "pixels_of (shell_scroll_up s) (idx (width_of s) y x) =
      (if y < height_of s - 8 then pixels_of s (idx (width_of s) (y + 8) x) else SHELL_BG_COLOR)"
    if yx: "y < height_of s" "x < width_of s" for y x
    unfolding shell_scroll_up_def if_not_P [OF G(5)] Let_def
    using scroll_pixels_at [OF h8 G(4) yx] by simp
  have "pixels_of (shell_scroll_up s) (idx (width_of s) y x) =
      (if y < rows_of s * 8 then glyph (term_cells (shell_scroll_up s) (y div 8 * cols_of s + x div 8)) (y mod 8) (x mod 8) else SHELL_BG_COLOR)"
    if yx: "y < height_of s" "x < cols_of s * 8" for y x
  proof -
    have xw: "x < width_of s" using yx(2) G(2) by simp
    have c: "x div 8 < cols_of s" using yx(2) by (simp add: less_mult_imp_div_less)
    have old: "pixels_of s (idx (width_of s) (y + 8) x) =
        (if y + 8 < rows_of s * 8 then glyph (term_cells s ((y + 8) div 8 * cols_of s + x div 8)) ((y + 8) mod 8) (x mod 8) else SHELL_BG_COLOR)"
      if "y < height_of s - 8"
      using p that yx(2) by (simp add: picture_def)
    show ?thesis
    proof (cases "y < rows_of s * 8")
      case False
      then show ?thesis using px [OF yx(1) xw] old by auto
    next
      case True
      have r: "y div 8 < rows_of s" using True by (simp add: less_mult_imp_div_less)
      note sc = scroll_cells_at [OF r c grid_room [OF g], of "term_cells s"]
      have iff: "y + 8 < rows_of s * 8 \<longleftrightarrow> y div 8 < rows_of s - 1"
      proof -
        have "y + 8 < rows_of s * 8 \<longleftrightarrow> (y + 8) div 8 < rows_of s" by (simp add: div_less_iff_less_mult)
        then show ?thesis by auto
      qed
      have low: "y + 8 < rows_of s * 8 \<Longrightarrow> y < height_of s - 8" using G(3) by simp
      have d8: "(y + 8) div 8 = y div 8 + 1" "(y + 8) mod 8 = y mod 8" by simp_all
      show ?thesis
        using px [OF yx(1) xw] old [unfolded d8] iff low True sc glyph_space [of "y mod 8" "x mod 8"] by (auto simp: cells)
    qed
  qed
  then show ?thesis unfolding picture_def by simp
qed

subsection \<open>What the terminal shows\<close>

text \<open>
  An abstract terminal is the list of its lines, the current one last and shorter than the width. A line feed starts
  a line, a backspace takes back a character of the current line, and a character that fills the line starts one too.
\<close>

definition type_char :: "nat \<Rightarrow> u8 \<Rightarrow> u8 list list \<Rightarrow> u8 list list" where
  "type_char cols c ls =
     (if c = 0x0A then ls @ [[]]
      else if c = 0x08 then butlast ls @ [butlast (last ls)]
      else if length (last ls) + 1 = cols then butlast ls @ [last ls @ [c], []]
      else butlast ls @ [last ls @ [c]])"

definition tcell :: "u8 list \<Rightarrow> nat \<Rightarrow> u8" where "tcell l c = (if c < length l then l ! c else 32)"

definition shown :: "u8 list list \<Rightarrow> nat \<Rightarrow> nat \<Rightarrow> u8 list" where
  "shown ls bottom r = (if r \<le> bottom then ls ! (length ls - 1 - bottom + r) else [])"

definition lines_show :: "'a shell_scheme \<Rightarrow> u8 list list \<Rightarrow> bool" where
  "lines_show s ls \<longleftrightarrow> grid_ok s \<and> picture s \<and> ls \<noteq> [] \<and> (\<forall>l \<in> set ls. length l \<le> cols_of s) \<and>
     unat (term_row s) = min (rows_of s - 1) (length ls - 1) \<and>
     (\<forall>r < rows_of s. \<forall>c < cols_of s. term_cells s (r * cols_of s + c) = tcell (shown ls (unat (term_row s)) r) c)"

definition term_shows :: "'a shell_scheme \<Rightarrow> u8 list list \<Rightarrow> bool" where
  "term_shows s ls \<longleftrightarrow> lines_show s ls \<and> length (last ls) < cols_of s \<and> unat (term_col s) = length (last ls)"

lemma advance_shows:
  assumes s: "lines_show s ls"
  shows "term_shows (shell_advance_line s) (ls @ [[]])"
proof -
  have g: "grid_ok s" and ne: "ls \<noteq> []" and row: "unat (term_row s) = min (rows_of s - 1) (length ls - 1)"
    and cells: "\<And>r c. r < rows_of s \<Longrightarrow> c < cols_of s \<Longrightarrow>
      term_cells s (r * cols_of s + c) = tcell (shown ls (unat (term_row s)) r) c"
    using s by (simp_all add: lines_show_def)
  have R: "0 < rows_of s" "0 < cols_of s" "term_rows s \<noteq> 0" using g by (auto simp: grid_ok_def)
  define s1 where "s1 = s\<lparr>term_col := 0, term_row := term_row s + 1\<rparr>"
  have f1: "grid_ok s1" "picture s1" "term_rows s1 = term_rows s" "term_cols s1 = term_cols s" "term_cells s1 = term_cells s"
    "term_row s1 = term_row s + 1"
    using s by (simp_all add: s1_def lines_show_def grid_ok_def picture_def)
  have len: "\<forall>l \<in> set (ls @ [[]]). length l \<le> cols_of s" using s by (auto simp: lines_show_def)
  have next_row: "unat (term_row s + 1) = unat (term_row s) + 1"
    using row R(1) unsigned_less [where 'a = nat, of "term_rows s"] by (subst unat_plus_if') simp
  show ?thesis
  proof (cases "unat (term_row s) + 1 < rows_of s")
    case True
    then have l: "unat (term_row s) = length ls - 1" using row by simp
    have n: "\<not> term_rows s1 \<le> term_row s1" using True next_row f1 by (simp add: word_le_nat_alt)
    have a: "shell_advance_line s = s1" using R(3) n by (simp add: shell_advance_line_def s1_def Let_def)
    have v: "shown (ls @ [[]]) (unat (term_row s) + 1) r = shown ls (unat (term_row s)) r" for r
      using l ne by (cases ls rule: rev_exhaust) (auto simp: shown_def nth_append)
    have "lines_show s1 (ls @ [[]])"
      using f1 len cells next_row v l True ne by (simp add: lines_show_def)
    then show ?thesis using R(2) by (simp add: a term_shows_def f1) (simp add: s1_def)
  next
    case False
    have "0 < length ls" using ne by simp
    with False row R(1) have r: "unat (term_row s) = rows_of s - 1" "rows_of s \<le> length ls" by linarith+
    have n: "term_rows s1 \<le> term_row s1" using False next_row f1 by (simp add: word_le_nat_alt)
    define s2 where "s2 = s1\<lparr>term_row := term_rows s1 - 1\<rparr>"
    have f2: "grid_ok s2" "picture s2" "term_rows s2 = term_rows s" "term_cols s2 = term_cols s" "term_cells s2 = term_cells s"
      "unat (term_row s2) = rows_of s - 1"
      using f1 R(1) by (simp_all add: s2_def grid_ok_def picture_def unat_sub_if')
    have a: "shell_advance_line s = shell_scroll_up s2" using R(3) n by (simp add: shell_advance_line_def s1_def s2_def Let_def)
    have "term_cells (shell_scroll_up s2) (q * cols_of s + c) = tcell (shown (ls @ [[]]) (rows_of s - 1) q) c"
      if qc: "q < rows_of s" "c < cols_of s" for q c
    proof -
      have "term_cells (shell_scroll_up s2) (q * cols_of s + c) =
          (if q < rows_of s - 1 then term_cells s ((q + 1) * cols_of s + c) else 32)"
        using scroll_cells_at [OF qc grid_room [OF g], of "term_cells s"] scroll_up_cells [OF f2(1)] by (simp only: f2(3,4,5))
      also have "\<dots> = tcell (shown (ls @ [[]]) (rows_of s - 1) q) c"
      proof (cases "q < rows_of s - 1")
        case True
        then have "term_cells s ((q + 1) * cols_of s + c) = tcell (shown ls (rows_of s - 1) (q + 1)) c"
          using cells [of "q + 1" c] qc(2) r(1) by simp
        moreover have "shown ls (rows_of s - 1) (q + 1) = shown (ls @ [[]]) (rows_of s - 1) q"
        proof -
          define k where "k = length ls - rows_of s"
          have "length ls = rows_of s + k" using r(2) by (simp add: k_def)
          then have "length ls - 1 - (rows_of s - 1) + (q + 1) = Suc (k + q)" "length ls - (rows_of s - 1) + q = Suc (k + q)"
            "Suc (k + q) < length ls" "length (ls @ [[]]) - 1 = length ls"
            using True by simp_all
          then show ?thesis using True unfolding shown_def by (simp only: nth_append) simp
        qed
        ultimately show ?thesis using True by simp
      next
        case False
        then have "q = rows_of s - 1" using qc(1) by simp
        then have "shown (ls @ [[]]) (rows_of s - 1) q = []" using r(2) by (simp add: shown_def nth_append)
        then show ?thesis using False by (simp add: tcell_def)
      qed
      finally show ?thesis .
    qed
    then have "lines_show (shell_scroll_up s2) (ls @ [[]])"
      using scroll_up_grid [OF f2(1)] scroll_up_picture [OF f2(1,2)] len f2(3,4,6) r(2) R(1) by (simp add: lines_show_def)
    then show ?thesis using R(2) f2(4) by (simp add: a term_shows_def) (simp add: s2_def s1_def)
  qed
qed

lemma cursor_row: "grid_ok s \<Longrightarrow> unat (term_row s) = min (rows_of s - 1) n \<Longrightarrow> row = term_row s \<Longrightarrow> unat row < rows_of s"
proof -
  assume a: "grid_ok s" "unat (term_row s) = min (rows_of s - 1) n" "row = term_row s"
  have "0 < rows_of s" using a(1) by (simp add: grid_ok_def)
  with a(2) have "unat (term_row s) < rows_of s" by linarith
  then show "unat row < rows_of s" by (simp only: a(3))
qed

text \<open>Storing a character at the cursor and rendering its cell.\<close>

lemma write_shows:
  assumes s: "lines_show s (as @ [l])" and l: "length l < cols_of s" and row: "row = term_row s" and col: "unat col = length l"
  shows "lines_show (shell_render_cell row col (s\<lparr>term_cells := (term_cells s)(cell_index row col s := c)\<rparr>)) (as @ [l @ [c]])"
    (is "lines_show (shell_render_cell row col ?t) _")
proof -
  have g: "grid_ok s" and p: "picture s" and rw: "unat (term_row s) = min (rows_of s - 1) (length as)"
    and len: "\<forall>x \<in> set (as @ [l]). length x \<le> cols_of s"
    and cells: "\<And>r d. r < rows_of s \<Longrightarrow> d < cols_of s \<Longrightarrow>
      term_cells s (r * cols_of s + d) = tcell (shown (as @ [l]) (unat (term_row s)) r) d"
    using s by (simp_all add: lines_show_def)
  have R: "unat row < rows_of s" by (rule cursor_row [OF g rw row])
  have C: "unat col < cols_of s" using col l by simp
  have vis: "shown (as @ [x]) (unat (term_row s)) r = (if r = unat (term_row s) then x else if r < unat (term_row s) then as ! (length as - unat (term_row s) + r) else [])"
    for x r using rw by (auto simp: shown_def nth_append)
  have idx: "cell_index row col s = unat row * cols_of s + unat col" by (rule cell_index_nat [OF g R C])
  have "term_cells ?t (r * cols_of s + d) = tcell (shown (as @ [l @ [c]]) (unat (term_row s)) r) d" if rd: "r < rows_of s" "d < cols_of s" for r d
  proof (cases "r = unat row \<and> d = unat col")
    case True
    then show ?thesis using idx vis [of "l @ [c]" r] row col by (simp add: tcell_def)
  next
    case False
    then have "r * cols_of s + d \<noteq> unat row * cols_of s + unat col"
      using grid_index [OF rd(2) C, of r "unat row"] by simp
    then have "term_cells ?t (r * cols_of s + d) = tcell (shown (as @ [l]) (unat (term_row s)) r) d" using cells [OF rd] idx by simp
    also have "\<dots> = tcell (shown (as @ [l @ [c]]) (unat (term_row s)) r) d"
      using False vis [of l r] vis [of "l @ [c]" r] row col by (auto simp: tcell_def nth_append)
    finally show ?thesis .
  qed
  moreover have "picture (shell_render_cell row col ?t)" by (rule put_cell_picture [OF g p R C])
  moreover have "\<forall>x \<in> set (as @ [l @ [c]]). length x \<le> cols_of s" using len l by auto
  ultimately show ?thesis using g rw by (simp add: lines_show_def grid_ok_def)
qed

lemma erase_shows:
  assumes s: "lines_show s (as @ [l])" and l: "l \<noteq> []" and row: "row = term_row s" and col: "unat col = length l - 1"
  shows "lines_show (shell_render_cell row col (s\<lparr>term_cells := (term_cells s)(cell_index row col s := 32)\<rparr>)) (as @ [butlast l])"
    (is "lines_show (shell_render_cell row col ?t) _")
proof -
  have g: "grid_ok s" and p: "picture s" and rw: "unat (term_row s) = min (rows_of s - 1) (length as)"
    and len: "\<forall>x \<in> set (as @ [l]). length x \<le> cols_of s"
    and cells: "\<And>r d. r < rows_of s \<Longrightarrow> d < cols_of s \<Longrightarrow>
      term_cells s (r * cols_of s + d) = tcell (shown (as @ [l]) (unat (term_row s)) r) d"
    using s by (simp_all add: lines_show_def)
  have R: "unat row < rows_of s" by (rule cursor_row [OF g rw row])
  have C: "unat col < cols_of s" using col l len by (cases l) simp_all
  have vis: "shown (as @ [x]) (unat (term_row s)) r = (if r = unat (term_row s) then x else if r < unat (term_row s) then as ! (length as - unat (term_row s) + r) else [])"
    for x r using rw by (auto simp: shown_def nth_append)
  have idx: "cell_index row col s = unat row * cols_of s + unat col" by (rule cell_index_nat [OF g R C])
  have "term_cells ?t (r * cols_of s + d) = tcell (shown (as @ [butlast l]) (unat (term_row s)) r) d" if rd: "r < rows_of s" "d < cols_of s" for r d
  proof (cases "r = unat row \<and> d = unat col")
    case True
    then show ?thesis using idx vis [of "butlast l" r] row col by (simp add: tcell_def)
  next
    case False
    then have "r * cols_of s + d \<noteq> unat row * cols_of s + unat col"
      using grid_index [OF rd(2) C, of r "unat row"] by simp
    then have "term_cells ?t (r * cols_of s + d) = tcell (shown (as @ [l]) (unat (term_row s)) r) d" using cells [OF rd] idx by simp
    also have "\<dots> = tcell (shown (as @ [butlast l]) (unat (term_row s)) r) d"
    proof (cases "r = unat row")
      case True
      then have "d \<noteq> length l - 1" using False col by simp
      then show ?thesis using True vis [of l r] vis [of "butlast l" r] row by (auto simp: tcell_def nth_butlast)
    qed (use vis [of l r] vis [of "butlast l" r] row in simp)
    finally show ?thesis .
  qed
  moreover have "picture (shell_render_cell row col ?t)" by (rule put_cell_picture [OF g p R C])
  moreover have "\<forall>x \<in> set (as @ [butlast l]). length x \<le> cols_of s" using len by (auto intro: le_trans [OF diff_le_self])
  ultimately show ?thesis using g rw by (simp add: lines_show_def grid_ok_def)
qed


text \<open>Echoing changes nothing but the console.\<close>

lemma echo_returns:
  assumes "line_live (con s)"
  shows "\<exists>c. echo txt s = Some (s\<lparr>con := c\<rparr>) \<and> line_live c"
proof -
  have "line_live (vga_print txt (con s))" using assms vga_print_frame [of "txt" "con s"] by (simp add: line_live_def)
  from serial_print_locked_sent [OF this, of "txt"] show ?thesis
    using sent_live [of "txt" "vga_print txt (con s)"] \<open>line_live (vga_print txt (con s))\<close>
    by (metis (no_types, lifting) bind.bind_lunit echo_def serial_print_def)
qed

lemma con_frame [simp]:
  "term_shows (s\<lparr>con := c\<rparr>) ls = term_shows s ls" "lines_show (s\<lparr>con := c\<rparr>) ls = lines_show s ls"
  by (simp_all add: term_shows_def lines_show_def grid_ok_def picture_def)

lemma term_col_frame [simp]: "lines_show (s\<lparr>term_col := c\<rparr>) ls = lines_show s ls"
  by (simp add: lines_show_def grid_ok_def picture_def)

lemma advance_fields [simp]:
  "con (shell_advance_line s) = con s" "input_buffer (shell_advance_line s) = input_buffer s"
  "buffer_idx (shell_advance_line s) = buffer_idx s" "term_cols (shell_advance_line s) = term_cols s"
  "heap (shell_advance_line s) = heap s" "kvm (shell_advance_line s) = kvm s" "ufs (shell_advance_line s) = ufs s"
  "netst (shell_advance_line s) = netst s" "shell_window (shell_advance_line s) = shell_window s"
  by (simp_all add: shell_advance_line_def Let_def)

lemma grid_okD: "grid_ok s \<Longrightarrow> 0 < cols_of s \<and> 0 < rows_of s \<and> term_ptr s \<noteq> 0 \<and> term_rows s \<noteq> 0 \<and> term_cols s \<noteq> 0"
  by (auto simp: grid_ok_def)

lemma unat_next: "unat (w :: u32) < unat (v :: u32) \<Longrightarrow> unat (w + 1) = unat w + 1"
  using unsigned_less [where 'a = nat, of v] by (subst unat_plus_if') simp

lemma unat_prev: "unat (w :: u32) \<noteq> 0 \<Longrightarrow> unat (w - 1) = unat w - 1"
  by (subst unat_sub_if') simp

text \<open>One character.\<close>

definition typed :: "'a shell_scheme \<Rightarrow> 'a shell_scheme \<Rightarrow> u8 list list \<Rightarrow> bool" where
  "typed s s' ls \<longleftrightarrow> term_shows s' ls \<and> line_live (con s') \<and> term_cols s' = term_cols s \<and>
     input_buffer s' = input_buffer s \<and> buffer_idx s' = buffer_idx s \<and> heap s' = heap s \<and> kvm s' = kvm s \<and>
     ufs s' = ufs s \<and> netst s' = netst s \<and> shell_window s' = shell_window s"

lemma putchar_newline:
  assumes "term_shows s ls" and "line_live (con s)"
  shows "\<exists>s'. shell_putchar 0x0A s = Some s' \<and> typed s s' (ls @ [[]])"
proof -
  obtain c where c: "echo [CHR 0x0A] s = Some (s\<lparr>con := c\<rparr>)" "line_live c" using echo_returns [OF assms(2)] by blast
  have "lines_show (s\<lparr>con := c\<rparr>) ls" using assms(1) by (simp add: term_shows_def)
  from advance_shows [OF this] show ?thesis using c by (simp add: shell_putchar_def typed_def)
qed

lemma putchar_backspace:
  assumes s: "term_shows s (as @ [l])" and live: "line_live (con s)"
  shows "\<exists>s'. shell_putchar 0x08 s = Some s' \<and> typed s s' (as @ [butlast l])"
proof (cases "l = []")
  case True
  then have "term_col s = 0" using s by (simp add: term_shows_def unat_eq_zero)
  then show ?thesis using s live True by (simp add: shell_putchar_def typed_def)
next
  case False
  have sh: "lines_show s (as @ [l])" "length l < cols_of s" "unat (term_col s) = length l" using s by (simp_all add: term_shows_def)
  have pos: "0 < term_col s" "unat (term_col s - 1) = length l - 1"
  proof -
    have "unat (term_col s) \<noteq> 0" using sh(3) False by simp
    then show "0 < term_col s" "unat (term_col s - 1) = length l - 1"
      using unat_prev [of "term_col s"] sh(3) by (auto simp: word_gt_0)
  qed
  have g: "grid_ok s" using sh(1) by (simp add: lines_show_def)
  define s1 where "s1 = s\<lparr>term_col := term_col s - 1\<rparr>"
  have f1: "lines_show s1 (as @ [l])" "term_row s1 = term_row s" "term_col s1 = term_col s - 1" "term_ptr s1 \<noteq> 0" "term_cols s1 = term_cols s"
    "con s1 = con s" "input_buffer s1 = input_buffer s" "buffer_idx s1 = buffer_idx s"
    "heap s1 = heap s" "kvm s1 = kvm s" "ufs s1 = ufs s" "netst s1 = netst s" "shell_window s1 = shell_window s"
    using sh(1) grid_okD [OF g] by (simp_all add: s1_def)
  let ?s' = "shell_render_cell (term_row s1) (term_col s1) (s1\<lparr>term_cells := (term_cells s1)(cell_index (term_row s1) (term_col s1) s1 := 32)\<rparr>)"
  have e: "shell_putchar 0x08 s = Some ?s'"
    using pos(1) f1(4) by (simp add: shell_putchar_def Let_def flip: s1_def)
  have "lines_show ?s' (as @ [butlast l])" by (rule erase_shows [OF f1(1) False refl]) (simp add: f1(3) pos(2))
  moreover have "length (butlast l) < cols_of s" using sh(2) by simp
  ultimately show ?thesis using pos(2) live by (simp add: e typed_def term_shows_def f1)
qed

lemma putchar_plain:
  assumes s: "term_shows s (as @ [l])" and live: "line_live (con s)" and c: "c \<noteq> 0x0A" "c \<noteq> 0x08"
  shows "\<exists>s'. shell_putchar c s = Some s' \<and> typed s s' (type_char (cols_of s) c (as @ [l]))"
proof -
  have sh: "lines_show s (as @ [l])" "length l < cols_of s" "unat (term_col s) = length l" using s by (simp_all add: term_shows_def)
  have g: "grid_ok s" using sh(1) by (simp add: lines_show_def)
  obtain d where d: "echo (if c = 0 then [] else [char_of (unat c)]) s = Some (s\<lparr>con := d\<rparr>)" "line_live d"
    using echo_returns [OF live] by blast
  define s1 where "s1 = s\<lparr>con := d\<rparr>"
  have f1: "lines_show s1 (as @ [l])" "term_row s1 = term_row s" "term_col s1 = term_col s" "term_ptr s1 \<noteq> 0" "term_cols s1 = term_cols s"
    "con s1 = d" "input_buffer s1 = input_buffer s" "buffer_idx s1 = buffer_idx s"
    "heap s1 = heap s" "kvm s1 = kvm s" "ufs s1 = ufs s" "netst s1 = netst s" "shell_window s1 = shell_window s"
    using sh(1) grid_okD [OF g] by (simp_all add: s1_def)
  define s2 where "s2 = shell_render_cell (term_row s1) (term_col s1) (s1\<lparr>term_cells := (term_cells s1)(cell_index (term_row s1) (term_col s1) s1 := c)\<rparr>)"
  have f2: "term_col s2 = term_col s" "term_cols s2 = term_cols s" "con s2 = d" "input_buffer s2 = input_buffer s" "buffer_idx s2 = buffer_idx s"
    "heap s2 = heap s" "kvm s2 = kvm s" "ufs s2 = ufs s" "netst s2 = netst s" "shell_window s2 = shell_window s"
    by (simp_all add: s2_def f1)
  have w: "lines_show s2 (as @ [l @ [c]])"
    unfolding s2_def by (rule write_shows [OF f1(1) _ refl]) (use sh in \<open>simp_all add: f1\<close>)
  define s3 where "s3 = s2\<lparr>term_col := term_col s2 + 1\<rparr>"
  have col: "unat (term_col s + 1) = length l + 1" using unat_next [of "term_col s" "term_cols s"] sh by simp
  have f3: "lines_show s3 (as @ [l @ [c]])" "unat (term_col s3) = length l + 1" "term_cols s3 = term_cols s" "con s3 = d"
    "input_buffer s3 = input_buffer s" "buffer_idx s3 = buffer_idx s"
    "heap s3 = heap s" "kvm s3 = kvm s" "ufs s3 = ufs s" "netst s3 = netst s" "shell_window s3 = shell_window s"
    using w col by (simp_all add: s3_def f2)
  have e: "shell_putchar c s = Some (if term_cols s3 \<noteq> 0 \<and> term_cols s3 \<le> term_col s3 then shell_advance_line s3 else s3)"
    using c d(1) f1(4) by (simp add: shell_putchar_def Let_def s1_def s2_def s3_def)
  have full: "term_cols s3 \<noteq> 0 \<and> term_cols s3 \<le> term_col s3 \<longleftrightarrow> length l + 1 = cols_of s"
    using grid_okD [OF g] f3(2,3) sh(2) by (auto simp: word_le_nat_alt)
  show ?thesis
  proof (cases "length l + 1 = cols_of s")
    case True
    then show ?thesis using e full advance_shows [OF f3(1)] d(2) c f3 by (simp add: typed_def type_char_def)
  next
    case False
    then have r: "length l + 1 < cols_of s" and n: "\<not> (term_cols s3 \<noteq> 0 \<and> term_cols s3 \<le> term_col s3)"
      using sh(2) full by simp_all
    have "shell_putchar c s = Some s3" using e unfolding if_not_P [OF n] .
    then show ?thesis using r f3 d(2) c by (simp add: typed_def type_char_def term_shows_def)
  qed
qed

lemma putchar_shows:
  assumes s: "term_shows s ls" and live: "line_live (con s)"
  shows "\<exists>s'. shell_putchar c s = Some s' \<and> typed s s' (type_char (cols_of s) c ls)"
proof -
  have "ls \<noteq> []" using s by (simp add: term_shows_def lines_show_def)
  then obtain as l where l: "ls = as @ [l]" by (metis append_butlast_last_id)
  consider "c = 0x0A" | "c = 0x08" | "c \<noteq> 0x0A" "c \<noteq> 0x08" by blast
  then show ?thesis
  proof cases
    case 1
    then show ?thesis using putchar_newline [OF s live] by (simp add: type_char_def)
  next
    case 2
    then show ?thesis using putchar_backspace [OF s [unfolded l] live] by (simp add: type_char_def l)
  next
    case 3
    then show ?thesis using putchar_plain [OF s [unfolded l] live 3] by (simp add: l)
  qed
qed

lemma putchars_shows:
  "term_shows s ls \<Longrightarrow> line_live (con s) \<Longrightarrow>
   \<exists>s'. shell_putchars txt s = Some s' \<and> typed s s' (fold (type_char (cols_of s)) txt ls)"
proof (induction "txt" arbitrary: s ls)
  case Nil
  then show ?case by (simp add: typed_def)
next
  case (Cons c cs)
  obtain s1 where s1: "shell_putchar c s = Some s1" "typed s s1 (type_char (cols_of s) c ls)"
    using putchar_shows [OF Cons.prems] by blast
  then have t: "term_shows s1 (type_char (cols_of s) c ls)" "line_live (con s1)" by (simp_all add: typed_def)
  from Cons.IH [OF t] s1 show ?case by (auto simp: typed_def)
qed


text \<open>
  C35. The terminal refines a list of lines: when the grid and the pixels show the lines, printing any text returns
  (as long as the serial transmitter keeps becoming ready), and they then show the lines with the text typed into
  them, character by character; the line buffer of the keyboard is left alone.
\<close>

theorem terminal_shows:
  assumes "term_shows s ls" and "line_live (con s)"
  shows "\<exists>s'. shell_print str s = Some s' \<and> line_live (con s') \<and> input_buffer s' = input_buffer s \<and> buffer_idx s' = buffer_idx s \<and>
    term_shows s' (fold (type_char (cols_of s)) (takeWhile (\<lambda>c. c \<noteq> 0) str) ls)"
  using putchars_shows [OF assms, of "takeWhile (\<lambda>c. c \<noteq> 0) str"] by (auto simp: shell_print_def typed_def)

subsection \<open>A new window\<close>

lemma fold_fixed: "(\<And>x. x \<in> set xs \<Longrightarrow> f x s = s) \<Longrightarrow> fold f xs s = s"
  by (induction xs) simp_all

lemma unat_ucast_32: "unat (ucast (w :: u32) :: u64) = unat w"
  by transfer (simp add: take_bit_take_bit)

lemma glyph_blank: "i < 8 \<Longrightarrow> glyph 32 i j = 0"
  by (simp add: glyph_space SHELL_BG_COLOR_def)

text \<open>The state after the grid has been filled with spaces, rendered: a terminal with one empty line.\<close>

lemma render_all_blank:
  assumes g: "grid_ok s" and blank: "\<And>i. i < unat (term_rows s * term_cols s) \<Longrightarrow> term_cells s i = 32"
    and cur: "term_row s = 0" "term_col s = 0"
  shows "term_shows (shell_render_all s) [[]] \<and> con (shell_render_all s) = con s \<and> input_buffer (shell_render_all s) = input_buffer s \<and>
    buffer_idx (shell_render_all s) = buffer_idx s \<and> term_cols (shell_render_all s) = term_cols s \<and>
    ufs (shell_render_all s) = ufs s \<and> kvm (shell_render_all s) = kvm s \<and> heap (shell_render_all s) = heap s \<and> shell_window (shell_render_all s) = shell_window s \<and>
    netst (shell_render_all s) = netst s"
proof -
  define s1 where "s1 = upd_pixels (zero_pixels (ucast (w_w (win_of s) * (w_h (win_of s) - 25)) * 4)) s"
  have f1: "grid_ok s1" "term_cells s1 = term_cells s" "term_rows s1 = term_rows s" "term_cols s1 = term_cols s"
    using g by (simp_all add: s1_def grid_ok_def)
  have n: "unat (term_rows s * term_cols s) = rows_of s * cols_of s"
    using unat_mult_lem [of "term_rows s" "term_cols s"] grid_room [OF g] by (simp add: mult.commute)
  have at: "term_cells s (r * cols_of s + c) = 32" if "r < rows_of s" "c < cols_of s" for r c
    using blank n idx_room [OF that] by (simp add: mult.commute)
  have skip: "render_char (word_of_nat r) (word_of_nat c) s1 = s1" if "r < rows_of s" "c < cols_of s" for r c
  proof -
    have u: "unat (word_of_nat r :: u32) = r" "unat (word_of_nat c :: u32) = c"
      using that less_trans [OF that(1) unsigned_less] less_trans [OF that(2) unsigned_less]
        take_bit_nat_eq_self [of r 32] take_bit_nat_eq_self [of c 32] by (simp_all add: unsigned_of_nat)
    have "cell_index (word_of_nat r) (word_of_nat c) s1 = r * cols_of s + c"
      using cell_index_nat [OF f1(1), of "word_of_nat r" "word_of_nat c"] that by (simp add: u f1(3,4))
    then show ?thesis using at [OF that] by (simp add: render_char_def f1(2))
  qed
  have "fold (\<lambda>row. fold (\<lambda>col. render_char (word_of_nat row) (word_of_nat col)) [0..<cols_of s1]) [0..<rows_of s1] s1 = s1"
    by (intro fold_fixed) (simp add: skip f1(3,4))
  moreover have "\<not> (\<not> has_buffer s \<or> term_ptr s = 0)" using g by (simp add: grid_ok_def)
  ultimately have e: "shell_render_all s = window_mark_region_dirty (shell_window s1) 0 0 (w_w (win_of s1)) (w_h (win_of s1) - 25) s1"
    unfolding shell_render_all_def by (simp add: Let_def flip: s1_def)
  have G: "cols_of s * 8 \<le> width_of s" "width_of s * height_of s < 2 ^ 32" using g by (simp_all add: grid_ok_def)
  have px: "pixels_of s1 (idx (width_of s) y x) = 0" if yx: "y < height_of s" "x < cols_of s * 8" for y x
  proof -
    have xw: "x < width_of s" using yx(2) G(1) by simp
    have m: "unat (w_w (win_of s) * (w_h (win_of s) - 25)) = width_of s * height_of s"
      using unat_mult_lem [of "w_w (win_of s)" "w_h (win_of s) - 25"] G(2) by simp
    have "(ucast (w_w (win_of s) * (w_h (win_of s) - 25)) * 4 :: u64) div 4 = ucast (w_w (win_of s) * (w_h (win_of s) - 25))"
    proof (rule word_unat_eq_iff [THEN iffD2])
      show "unat ((ucast (w_w (win_of s) * (w_h (win_of s) - 25)) * 4 :: u64) div 4) = unat (ucast (w_w (win_of s) * (w_h (win_of s) - 25)) :: u64)"
        using m G(2) unat_mult_lem [of "ucast (w_w (win_of s) * (w_h (win_of s) - 25)) :: u64" 4]
        by (simp add: unat_div unat_ucast_32)
    qed
    moreover have "idx (width_of s) y x < ucast (w_w (win_of s) * (w_h (win_of s) - 25))"
      using unat_idx [OF yx(1) xw G(2)] idx_room [OF yx(1) xw] m by (simp add: word_less_nat_alt unat_ucast_32)
    ultimately show ?thesis by (simp add: s1_def zero_pixels_def)
  qed
  have blank_cell: "term_cells s (y div 8 * cols_of s + x div 8) = 32" if "y < rows_of s * 8" "x < cols_of s * 8" for y x
    by (rule at) (use that in \<open>simp_all add: less_mult_imp_div_less\<close>)
  have "picture s1"
    unfolding picture_def using px blank_cell by (auto simp: f1 s1_def glyph_blank SHELL_BG_COLOR_def)
  then show ?thesis using f1(1) cur at grid_okD [OF g] unfolding e
    by (simp add: term_shows_def lines_show_def grid_ok_def picture_def shown_def tcell_def s1_def)
qed


lemma unat_div8: "unat ((w :: u32) div 8) = unat w div 8"
  by (simp add: unat_div)

lemma render_char_frame: "shell_window (fold (\<lambda>row. fold (\<lambda>col. render_char (f row) (g col)) cs) rs s) = shell_window s"
proof -
  have h: "shell_window (fold (\<lambda>col. render_char r (g col)) cs s) = shell_window s" for r s
    by (induction cs arbitrary: s) (simp_all add: render_char_def Let_def)
  show ?thesis by (induction rs arbitrary: s) (simp_all add: h)
qed

lemma set_window_blank:
  fixes s :: "'a shell_scheme" and win :: u64 and w h :: u32 and k :: nat
  defines "w \<equiv> w_w (wins s win)" and "h \<equiv> w_h (wins s win) - 25"
  assumes win: "win \<noteq> 0" "w_buffer (wins s win) \<noteq> 0" and first: "term_ptr s = 0"
    and dims: "8 \<le> w" "8 \<le> h" "unat w * unat h < 2 ^ 32"
    and inv: "heap_inv (heap s)" and room: "has_room (k + unat (align8 (ucast (h div 8 * (w div 8)))) + 24) (heap s)" and k8: "8 \<le> k"
  shows "\<exists>s'. shell_set_window win s = Some s' \<and> term_shows s' [[]] \<and> shell_window s' = win \<and> con s' = con s \<and>
    cols_of s' = unat w div 8 \<and> input_buffer s' = input_buffer s \<and> buffer_idx s' = buffer_idx s \<and> ufs s' = ufs s \<and>
    kvm s' = kvm s \<and> netst s' = netst s \<and> heap_inv (heap s') \<and> has_room k (heap s')"
proof -
  define s2 where "s2 = s\<lparr>shell_window := win, term_row := 0, term_col := 0, term_cols := w div 8, term_rows := h div 8\<rparr>"
  let ?n = "h div 8 * (w div 8)"
  obtain p j hp where m: "kmalloc (ucast ?n) (heap s) = Some (p, hp)" "p \<noteq> 0" "heap_inv hp" "has_room k hp"
  proof (rule kmalloc_room [OF inv, of k "ucast ?n"])
    show "has_room (k + unat (align8 (ucast ?n)) + 24) (heap s)" by (rule room)
  qed (use k8 in simp_all)
  define s5 where "s5 = s2\<lparr>heap := hp, term_ptr := p, term_cells := (\<lambda>i. if i < unat ?n then 32 else term_cells s i)\<rparr>"
  have f5: "win_of s5 = wins s win" "shell_window s5 = win" "term_rows s5 = h div 8" "term_cols s5 = w div 8" "con s5 = con s"
    "input_buffer s5 = input_buffer s" "buffer_idx s5 = buffer_idx s" "term_row s5 = 0" "term_col s5 = 0"
    "ufs s5 = ufs s" "kvm s5 = kvm s" "netst s5 = netst s" "heap s5 = hp"
    by (simp_all add: s5_def s2_def win_of_def)
  have e: "shell_set_window win s = Some (shell_render_all s5)"
    using win(1) first m(1)
    by (simp add: shell_set_window_def kmalloc_k_def win_of_def SHELL_CHAR_W_def SHELL_CHAR_H_def Let_def s5_def s2_def w_def h_def cong: if_cong)
  have hb: "has_buffer s5" "term_ptr s5 \<noteq> 0" using win m(2) by (simp_all add: has_buffer_def f5(1)) (simp_all add: s5_def s2_def)
  have pos: "0 < unat w div 8" "0 < unat h div 8" using dims(1,2) by (simp_all add: word_le_nat_alt div_greater_zero_iff)
  have g: "grid_ok s5"
    unfolding grid_ok_def using hb pos dims(3) by (simp add: f5 unat_div8 flip: w_def h_def)
  note r = render_all_blank [OF g]
  have "term_shows (shell_render_all s5) [[]] \<and> con (shell_render_all s5) = con s5 \<and> input_buffer (shell_render_all s5) = input_buffer s5 \<and>
    buffer_idx (shell_render_all s5) = buffer_idx s5 \<and> term_cols (shell_render_all s5) = term_cols s5 \<and>
    ufs (shell_render_all s5) = ufs s5 \<and> kvm (shell_render_all s5) = kvm s5 \<and> heap (shell_render_all s5) = heap s5 \<and>
    shell_window (shell_render_all s5) = shell_window s5 \<and> netst (shell_render_all s5) = netst s5"
    by (rule r) (simp_all add: s5_def s2_def)
  then show ?thesis using m(3,4) by (simp add: e f5 unat_div8)
qed

text \<open>
  Giving the shell its first window, with a buffer, room for at least one character and heap for its cells, makes
  it a terminal with one empty line, a character for every eight pixels of the width, and nothing is printed yet.
\<close>

theorem set_window_blank_terminal:
  fixes s :: "'a shell_scheme" and win :: u64 and w h :: u32
  defines "w \<equiv> w_w (wins s win)" and "h \<equiv> w_h (wins s win) - 25"
  assumes "win \<noteq> 0" "w_buffer (wins s win) \<noteq> 0" and "term_ptr s = 0"
    and "8 \<le> w" "8 \<le> h" "unat w * unat h < 2 ^ 32"
    and "heap_inv (heap s)" and "has_room (unat (align8 (ucast (h div 8 * (w div 8)))) + 32) (heap s)"
  shows "\<exists>s'. shell_set_window win s = Some s' \<and> term_shows s' [[]] \<and> shell_window s' = win \<and> con s' = con s \<and>
    cols_of s' = unat w div 8"
  using set_window_blank [of win s 8] assms by (auto simp: add.commute)

subsection \<open>A console of 4 by 2 characters\<close>

definition shell_sys :: shell where
  "shell_sys = (usys.extend exec_sys (shell.fields (dhcp_host (\<lambda>_. 0)) (registry0 (\<lambda>_. \<lparr>locked = 0, lock_name = [], acquisitions = 0, contentions = 0, spin_loops = 0\<rparr>)) 0 0 0 0 0 0 (\<lambda>_. 0)
     (replicate MAX_BUFFER 0) 0))\<lparr>wins := (\<lambda>_. (demo_window 1 7 1)\<lparr>w_w := 32, w_h := 41, w_buffer := 0x3000\<rparr>)\<rparr>"

lemma shell_sys_fields:
  "wins shell_sys p = (demo_window 1 7 1)\<lparr>w_w := 32, w_h := 41, w_buffer := 0x3000\<rparr>" "heap shell_sys = heap0" "con shell_sys = console0"
  "term_ptr shell_sys = 0" "input_buffer shell_sys = replicate MAX_BUFFER 0" "buffer_idx shell_sys = 0" "ufs shell_sys = demo_vfs closed_fd"
  by (simp_all add: shell_sys_def exec_sys_def window_sys_def demo_wsys_def ksys.defs wsys.defs usys.defs shell.defs)

lemma shell_sys_room: "has_room (1000 + unat (align8 (ucast (16 div 8 * (32 div 8 :: u32)))) + 24) heap0"
  by (simp add: has_room_def heap0_blocks align8_def)

theorem set_window_blank_terminal_witness:
  "\<exists>s'. shell_set_window 0x400 shell_sys = Some s' \<and> term_shows s' [[]] \<and> cols_of s' = 4"
  using set_window_blank_terminal [of "0x400" shell_sys] heap0_inv has_room_mono [OF shell_sys_room] by (auto simp: shell_sys_fields)

lemma shell_sys_shows: "\<exists>s'. shell_set_window 0x400 shell_sys = Some s' \<and> term_shows s' [[]] \<and> con s' = console0 \<and> cols_of s' = 4 \<and>
    input_buffer s' = replicate MAX_BUFFER 0 \<and> buffer_idx s' = 0 \<and> ufs s' = demo_vfs closed_fd \<and>
    heap_inv (heap s') \<and> has_room 1000 (heap s')"
  using set_window_blank [of "0x400" shell_sys 1000] heap0_inv shell_sys_room by (auto simp: shell_sys_fields)

theorem terminal_shows_witness:
  "\<exists>s s'. shell_set_window 0x400 shell_sys = Some s \<and> shell_print [104, 105, 10, 97, 98, 99, 100, 101] s = Some s' \<and>
     term_shows s' [[104, 105], [97, 98, 99, 100], [101]]"
proof -
  obtain s where s: "shell_set_window 0x400 shell_sys = Some s" "term_shows s [[]]" "con s = console0" "cols_of s = 4"
    using shell_sys_shows by blast
  have "line_live (con s)" using s(3) console0_live by simp
  from terminal_shows [OF s(2) this, of "[104, 105, 10, 97, 98, 99, 100, 101]"]
  show ?thesis using s(1,4) by (auto simp: type_char_def)
qed

end
