(* ===== verification/Shell.thy ===== *)
theory Shell
  imports Terminal
begin

text \<open>
  The commands of the shell (\<open>shell_execute\<close> of \<open>src/kernel/shell.c\<close>) and its line editor. Each command is a
  definition of its own; the dispatcher compares the line with the names in the order of the source.
\<close>

subsection \<open>Inputs\<close>

text \<open>
  The processor the shell runs on, the entries of the two programs linked into the kernel, and for the commands that
  wait for the network: the poll of the card and a bound on the waiting.
\<close>

record shell_env =
  this_cpu :: nat
  dashboard_run :: u64
  user_gui_app :: u64
  poll_net :: "dhcpsys \<Rightarrow> dhcpsys option"
  wait_fuel :: nat

abbreviation say :: "string \<Rightarrow> 'a shell_scheme \<Rightarrow> 'a shell_scheme option" where "say str \<equiv> shell_print (lit str)"

text \<open>The end of a line.\<close>

abbreviation say_nl :: "'a shell_scheme \<Rightarrow> 'a shell_scheme option" where "say_nl \<equiv> shell_print [0x0A]"

text \<open>Steps one after another, and a step for each element of a list.\<close>

primrec run_all :: "('s \<Rightarrow> 's option) list \<Rightarrow> 's \<Rightarrow> 's option" where
  "run_all [] s = Some s"
| "run_all (f # fs) s = do { s1 \<leftarrow> f s; run_all fs s1 }"

text \<open>The network components work on their own record; the heap is the one of the kernel.\<close>

definition with_net :: "(dhcpsys \<Rightarrow> dhcpsys option) \<Rightarrow> 'a shell_scheme \<Rightarrow> 'a shell_scheme option" where
  "with_net f s = do { n \<leftarrow> f ((netst s)\<lparr>nheap := heap s\<rparr>); Some (s\<lparr>netst := n, heap := nheap n\<rparr>) }"

definition serial_hex :: "u64 \<Rightarrow> 'a shell_scheme \<Rightarrow> 'a shell_scheme option" where
  "serial_hex v s = do { c \<leftarrow> serial_print_hex v (con s); Some (s\<lparr>con := c\<rparr>) }"

definition serial_say :: "string \<Rightarrow> 'a shell_scheme \<Rightarrow> 'a shell_scheme option" where
  "serial_say str s = do { c \<leftarrow> serial_print str (con s); Some (s\<lparr>con := c\<rparr>) }"

subsection \<open>Reports\<close>

definition shell_print_lock_stats :: "'a shell_scheme \<Rightarrow> 'a shell_scheme option" where
  "shell_print_lock_stats s =
     run_all (map (\<lambda>i t. case lock_get_stats (word_of_nat i) 1 (locks t) of
         None \<Rightarrow> Some t
       | Some st \<Rightarrow> run_all
           [say (st_name st), say '': acq='', shell_print_dec (st_acquisitions st), say '' cont='', shell_print_dec (st_contentions st),
            say '' spins='', shell_print_dec (st_spin_loops st), say_nl] t)
       [0..<unat (lock_get_registered_count (locks s))]) s"

definition cmd_help :: "'a shell_scheme \<Rightarrow> 'a shell_scheme option" where
  "cmd_help s = run_all [say ''Available commands: help, ls, cat <file>, write <f> <t>, exec <f>, free, heap, locks, clear, ticks, gui, net, ping <ip>, udp <msg>, tcp <ip> <port>, stress_proc, stress_disk, monitor, top, dashboard'', say_nl] s"

text \<open>The usage of a processor from its total and idle ticks.\<close>

definition cpu_usage :: "u64 \<times> u64 \<Rightarrow> u64" where
  "cpu_usage ti = (let busy = fst ti - snd ti in busy * 100 div fst ti)"

text \<open>The report has room for 16 processors; the loop reads behind it for the others.\<close>

definition cmd_monitor :: "'a shell_scheme \<Rightarrow> 'a shell_scheme option" where
  "cmd_monitor s =
     (let info = snd (sys_get_sys_info s);
          total_mem = si_total_frames info * 4096 div 1024;
          free_mem = si_free_frames info * 4096 div 1024
      in run_all (
        [say ''--- System Monitor ---'', say_nl, say ''CPU Cores: '', shell_print_dec (ucast (si_cpu_count info)), say_nl] @
        map (\<lambda>i t. if 16 \<le> i then None else run_all
              [say '' CPU '', shell_print_dec (word_of_nat i), say '': Usage '',
               if fst (si_cpus info ! i) > 0 then (\<lambda>u. do { u1 \<leftarrow> shell_print_dec (cpu_usage (si_cpus info ! i)) u; say ''%'' u1 }) else say ''0%'',
               say_nl] t) [0..<unat (si_cpu_count info)] @
        [say ''Memory: '', shell_print_dec ((total_mem - free_mem) div 1024), say ''MB / '', shell_print_dec (total_mem div 1024),
         say ''MB used'', say_nl, say ''Tasks: '', shell_print_dec (ucast (si_task_count info)), say_nl]) s)"

definition state_name :: "task_state \<Rightarrow> string" where
  "state_name st = (case st of TASK_READY \<Rightarrow> ''READY'' | TASK_RUNNING \<Rightarrow> ''RUNNING'' | TASK_EXITED \<Rightarrow> ''EXITED'')"

definition cmd_top :: "'a shell_scheme \<Rightarrow> 'a shell_scheme option" where
  "cmd_top s = run_all ([say ''ID  CPU  TICKS  STATE'', say_nl] @
     map (\<lambda>t. run_all
       [shell_print_dec (ti_id t), say ''   '', shell_print_dec (ucast (ti_cpu_id t)), say ''    '',
        shell_print_dec (ti_total_ticks t), say ''    '', say (state_name (ti_state t)), say_nl]) (snd (sys_get_tasks 32 s))) s"

definition print_ip :: "u8 list \<Rightarrow> 'a shell_scheme \<Rightarrow> 'a shell_scheme option" where
  "print_ip ip = run_all (map (\<lambda>i t. do {
     t1 \<leftarrow> shell_print_dec (ucast (ip ! i)) t;
     if i < 3 then shell_putchar 46 t1 else Some t1 }) [0..<4])"

definition cmd_net :: "'a shell_scheme \<Rightarrow> 'a shell_scheme option" where
  "cmd_net s =
     (let mac = e1000_get_mac (netst s); ip = net_get_ip (netst s)
      in run_all ([say ''E1000 MAC: ''] @
        map (\<lambda>i t. do { t1 \<leftarrow> shell_print_hex (ucast (mac ! i)) t; if i < 5 then shell_putchar 58 t1 else Some t1 }) [0..<6] @
        [say_nl, say ''IP Address: ''] @
        [print_ip ip] @
        [say_nl, say ''RX Packets: '', shell_print_dec (net_get_rx_count (netst s)),
         say_nl, say ''TX Packets: '', shell_print_dec (net_get_tx_count (netst s)), say_nl]) s)"

definition cmd_free :: "'a shell_scheme \<Rightarrow> 'a shell_scheme option" where
  "cmd_free s = run_all [say ''Free frames: '', \<lambda>t. serial_hex (pmm_get_free_count (frames (kvm t))) t, say_nl] s"

definition cmd_ticks :: "'a shell_scheme \<Rightarrow> 'a shell_scheme option" where
  "cmd_ticks s = run_all [say ''System Ticks: '',
     \<lambda>t. case pit_get_ticks (netst t) of (v, n) \<Rightarrow> serial_hex v (t\<lparr>netst := n\<rparr>), say_nl] s"

definition cmd_heap :: "'a shell_scheme \<Rightarrow> 'a shell_scheme option" where
  "cmd_heap s = do {
     (st, h) \<leftarrow> kmalloc_get_stats (heap s);
     run_all (concat (map (\<lambda>(label, v). [say label, shell_print_dec v, say_nl])
       [(''Heap used bytes: '', bytes_used st), (''Heap peak bytes: '', peak_bytes_used st),
        (''Heap free bytes: '', bytes_free st), (''Largest free block: '', largest_free_block st),
        (''Live allocations: '', live_allocations st), (''Alloc calls: '', alloc_count st),
        (''Free calls: '', free_count st), (''Failed allocs: '', failed_allocations st)])) (s\<lparr>heap := h\<rparr>) }"


subsection \<open>Network\<close>

definition is_digit :: "u8 \<Rightarrow> bool" where "is_digit c \<longleftrightarrow> 48 \<le> c \<and> c \<le> 57"

text \<open>The address of \<open>tcp\<close>: the answer is the number of dots, the four octets and the rest of the line.\<close>

fun tcp_ip :: "u8 list \<Rightarrow> nat \<Rightarrow> u8 list \<Rightarrow> nat \<times> u8 list \<times> u8 list" where
  "tcp_ip [] part ip = (part, ip, [])"
| "tcp_ip (c # p) part ip =
     (if \<not> part < 4 then (part, ip, c # p)
      else if is_digit c then tcp_ip p part (ip[part := ip ! part * 10 + (c - 48)])
      else if c = 46 then tcp_ip p (part + 1) ip
      else if c = 32 then (part, ip, p)
      else tcp_ip p part ip)"

fun tcp_port :: "u8 list \<Rightarrow> u16 \<Rightarrow> u16" where
  "tcp_port [] port = port"
| "tcp_port (c # p) port = (if is_digit c then tcp_port p (port * 10 + (ucast c - 48)) else port)"

definition cmd_tcp :: "shell_env \<Rightarrow> u8 list \<Rightarrow> 'a shell_scheme \<Rightarrow> 'a shell_scheme option" where
  "cmd_tcp env rest s =
     (let (part, ip, p) = tcp_ip rest 0 [0, 0, 0, 0]; port = tcp_port p 0
      in if part = 3 \<and> port > 0 then with_net (tcp_connect (poll_net env) (wait_fuel env) ip port) s
         else run_all [say ''Usage: tcp <ip> <port>'', say_nl] s)"

definition cmd_udp :: "u8 list \<Rightarrow> 'a shell_scheme \<Rightarrow> 'a shell_scheme option" where
  "cmd_udp msg s =
     run_all [with_net (net_send_udp [255, 255, 255, 255] 12345 12345 msg (word_of_nat (length msg))),
       say ''UDP broadcast sent.'', say_nl] s"

fun ping_ip :: "u8 list \<Rightarrow> nat \<Rightarrow> u8 list \<Rightarrow> nat \<times> u8 list" where
  "ping_ip [] part ip = (part, ip)"
| "ping_ip (c # p) part ip =
     (if \<not> part < 4 then (part, ip)
      else if is_digit c then ping_ip p part (ip[part := ip ! part * 10 + (c - 48)])
      else if c = 46 then ping_ip p (part + 1) ip
      else ping_ip p part ip)"

definition cmd_ping :: "shell_env \<Rightarrow> u8 list \<Rightarrow> 'a shell_scheme \<Rightarrow> 'a shell_scheme option" where
  "cmd_ping env ip_str s =
     (let (part, ip) = ping_ip ip_str 0 [0, 0, 0, 0]
      in if part = 3 then with_net (net_ping (poll_net env) (wait_fuel env) ip) s
         else run_all [say ''Invalid IP address.'', say_nl] s)"

subsection \<open>Files\<close>

partial_function (option) ls_loop :: "int \<Rightarrow> 'a shell_scheme \<Rightarrow> 'a shell_scheme option" where
  "ls_loop i s = do {
     (r, f) \<leftarrow> vfs_readdir i (ufs s);
     let s1 = s\<lparr>ufs := f\<rparr>;
     case r of
       None \<Rightarrow> Some s1
     | Some name \<Rightarrow> do { s2 \<leftarrow> run_all [shell_print name, say_nl] s1; ls_loop (i + 1) s2 } }"

definition cmd_ls :: "'a shell_scheme \<Rightarrow> 'a shell_scheme option" where "cmd_ls s = ls_loop 0 s"

text \<open>The buffer is read up to its first zero; one is stored behind the bytes that were read.\<close>

definition cmd_cat :: "u8 list \<Rightarrow> 'a shell_scheme \<Rightarrow> 'a shell_scheme option" where
  "cmd_cat filename s = do {
     (fd, f1) \<leftarrow> vfs_open filename (ufs s);
     if fd < 0 then run_all [say ''File not found.'', say_nl] (s\<lparr>ufs := f1\<rparr>)
     else do {
       let sz = vfs_fd_size fd f1;
       (buf, s1) \<leftarrow> kmalloc_k (ucast (sz + 1)) (s\<lparr>ufs := f1\<rparr>);
       (n, data, f2) \<leftarrow> vfs_read fd (mbytes (bytes_of (pmem (kvm s1))) buf (unat sz)) sz (ufs s1);
       let s2 = set_pmem (on_bytes (\<lambda>m. (put_bytes buf data m)(buf + ucast sz := 0)) (pmem (kvm s1))) (s1\<lparr>ufs := f2\<rparr>);
       str \<leftarrow> string_at (bytes_of (pmem (kvm s2))) buf;
       run_all [shell_print str, say_nl, kfree_k buf, \<lambda>t. Some (t\<lparr>ufs := vfs_close fd (ufs t)\<rparr>)] s2 } }"

definition cmd_exec :: "u8 list \<Rightarrow> 'a shell_scheme \<Rightarrow> 'a shell_scheme option" where
  "cmd_exec filename s = do {
     (t, s1) \<leftarrow> task_exec_file filename s;
     if t \<noteq> 0 then run_all [say ''Process started.'', say_nl] s1 else run_all [say ''Failed to start process.'', say_nl] s1 }"

text \<open>The name ends at the first space, where the command writes a terminator into the line; without one there is no data.\<close>

definition split_space :: "u8 list \<Rightarrow> u8 list \<times> u8 list option" where
  "split_space rest =
     (let name = takeWhile (\<lambda>c. c \<noteq> 32) rest
      in (name, if length name < length rest then Some (drop (length name + 1) rest) else None))"

definition cmd_write :: "u8 list \<Rightarrow> 'a shell_scheme \<Rightarrow> 'a shell_scheme option" where
  "cmd_write rest s =
     (case split_space rest of
        (filename, None) \<Rightarrow> run_all [say ''Usage: write <file> <text>'', say_nl] s
      | (filename, Some data) \<Rightarrow> do {
          let s1 = s\<lparr>input_buffer := (input_buffer s)[6 + length filename := 0]\<rparr>;
          (fd, f1) \<leftarrow> vfs_open filename (ufs s1);
          if fd < 0 then run_all [say ''File not found.'', say_nl] (s1\<lparr>ufs := f1\<rparr>)
          else do {
            (n, f2) \<leftarrow> vfs_write fd data (word_of_nat (length data)) f1;
            run_all [say ''File written.'', say_nl] (s1\<lparr>ufs := vfs_close fd f2\<rparr>) } })"

text \<open>The loop over the sectors ends early when a byte comes back changed.\<close>

primrec hammer :: "nat list \<Rightarrow> 'a shell_scheme \<Rightarrow> 'a shell_scheme option" where
  "hammer [] s = Some s"
| "hammer (i # is) s =
     (let f1 = ata_write_sector (5000 + word_of_nat i) (replicate 512 (word_of_nat i)) (ufs s);
          (buf1, f2) = ata_read_sector (5000 + word_of_nat i) (replicate 512 0) f1;
          s1 = s\<lparr>ufs := f2\<rparr>
      in if buf1 ! 0 \<noteq> word_of_nat i then run_all [say ''DISK CORRUPTION DETECTED!'', say_nl] s1
         else hammer is s1)"

definition cmd_stress_disk :: "'a shell_scheme \<Rightarrow> 'a shell_scheme option" where
  "cmd_stress_disk s = run_all [say ''Starting Disk Hammer...'', say_nl, hammer [0..<512],
     say ''Disk stress test complete.'', say_nl] s"

subsection \<open>Tasks\<close>

definition start_user :: "u64 \<Rightarrow> 'a shell_scheme \<Rightarrow> 'a shell_scheme option" where
  "start_user entry s = do { (t, s1) \<leftarrow> task_create_user entry s; Some s1 }"

definition cmd_gui :: "shell_env \<Rightarrow> 'a shell_scheme \<Rightarrow> 'a shell_scheme option" where
  "cmd_gui env s = run_all [start_user (user_gui_app env), say ''GUI Process started.'', say_nl] s"

definition cmd_dashboard :: "shell_env \<Rightarrow> 'a shell_scheme \<Rightarrow> 'a shell_scheme option" where
  "cmd_dashboard env s = run_all [\<lambda>t. do { (p, t1) \<leftarrow> task_create (dashboard_run env) t; Some t1 },
     say ''Dashboard started.'', say_nl] s"

definition cmd_stress_proc :: "shell_env \<Rightarrow> 'a shell_scheme \<Rightarrow> 'a shell_scheme option" where
  "cmd_stress_proc env s = run_all ([say ''Starting Process Storm (50 cycles)...'', say_nl] @
     replicate 50 (start_user (user_gui_app env)) @ [say ''Stress test complete.'', say_nl]) s"

text \<open>
  The answer says whether control comes back to the shell: with the number 0 the caller is the child, which ends
  itself. The delay loop in between has no effect.
\<close>

definition cmd_fork :: "shell_env \<Rightarrow> 'a shell_scheme \<Rightarrow> (bool \<times> 'a shell_scheme) option" where
  "cmd_fork env s = do {
     s1 \<leftarrow> run_all [say ''Forking...'', say_nl] s;
     (pid, s2) \<leftarrow> sys_fork (this_cpu env) s1;
     if pid = 0 then do {
       s3 \<leftarrow> run_all [serial_say (''Child process started'' @ [CHR 0x0A]), serial_say (''Child process exiting'' @ [CHR 0x0A])] s2;
       Some (False, snd (sys_exit (this_cpu env) s3)) }
     else do {
       s3 \<leftarrow> run_all [say ''Parent: Child PID is '', shell_print_dec pid, say_nl] s2;
       Some (True, s3) } }"

definition cmd_clear :: "'a shell_scheme \<Rightarrow> 'a shell_scheme" where
  "cmd_clear s =
     (let s1 = s\<lparr>con := vga_clear (con s)\<rparr>;
          s2 = (if term_ptr s1 \<noteq> 0
                then shell_render_all (s1\<lparr>term_cells := (\<lambda>i. if i < unat (term_rows s1 * term_cols s1) then 32 else term_cells s1 i)\<rparr>)
                else s1)
      in s2\<lparr>term_row := 0, term_col := 0\<rparr>)"

definition cmd_other :: "u8 list \<Rightarrow> 'a shell_scheme \<Rightarrow> 'a shell_scheme option" where
  "cmd_other cmd s = do {
     (t, s1) \<leftarrow> task_exec_file cmd s;
     if t \<noteq> 0 then run_all [say ''Process started.'', say_nl] s1
     else run_all [say ''Unknown command or file: '', shell_print cmd, say_nl] s1 }"

subsection \<open>The dispatcher\<close>

definition has_prefix :: "string \<Rightarrow> u8 list \<Rightarrow> bool" where "has_prefix p cmd \<longleftrightarrow> take (length p) cmd = lit p"

definition run_command :: "shell_env \<Rightarrow> u8 list \<Rightarrow> 'a shell_scheme \<Rightarrow> (bool \<times> 'a shell_scheme) option" where
  "run_command env cmd s =
     (let stays = map_option (Pair True) in
      if cmd = lit ''help'' then stays (cmd_help s)
      else if cmd = lit ''dashboard'' then stays (cmd_dashboard env s)
      else if cmd = lit ''monitor'' then stays (cmd_monitor s)
      else if cmd = lit ''top'' then stays (cmd_top s)
      else if cmd = lit ''fork'' then cmd_fork env s
      else if has_prefix ''tcp '' cmd then stays (cmd_tcp env (drop 4 cmd) s)
      else if has_prefix ''udp '' cmd then stays (cmd_udp (drop 4 cmd) s)
      else if has_prefix ''ping '' cmd then stays (cmd_ping env (drop 5 cmd) s)
      else if cmd = lit ''net'' then stays (cmd_net s)
      else if cmd = lit ''ls'' then stays (cmd_ls s)
      else if has_prefix ''cat '' cmd then stays (cmd_cat (drop 4 cmd) s)
      else if has_prefix ''exec '' cmd then stays (cmd_exec (drop 5 cmd) s)
      else if cmd = lit ''gui'' then stays (cmd_gui env s)
      else if has_prefix ''write '' cmd then stays (cmd_write (drop 6 cmd) s)
      else if cmd = lit ''free'' then stays (cmd_free s)
      else if cmd = lit ''heap'' then stays (cmd_heap s)
      else if cmd = lit ''locks'' then stays (shell_print_lock_stats s)
      else if cmd = lit ''stress_proc'' then stays (cmd_stress_proc env s)
      else if cmd = lit ''stress_disk'' then stays (cmd_stress_disk s)
      else if cmd = lit ''ticks'' then stays (cmd_ticks s)
      else if cmd = lit ''clear'' then stays (Some (cmd_clear s))
      else if cmd \<noteq> [] then stays (cmd_other cmd s)
      else Some (True, s))"

definition shell_execute :: "shell_env \<Rightarrow> u8 list \<Rightarrow> 'a shell_scheme \<Rightarrow> (bool \<times> 'a shell_scheme) option" where
  "shell_execute env cmd s = do {
     (alive, s1) \<leftarrow> run_command env cmd s;
     if alive then do { s2 \<leftarrow> say ''zoho> '' s1; Some (True, s2) } else Some (False, s1) }"

definition shell_init :: "'a shell_scheme \<Rightarrow> 'a shell_scheme option" where
  "shell_init s = run_all [say_nl, say ''Zoho OS Interactive Shell'', say_nl, say ''zoho> ''] s"

text \<open>The answer says whether control comes back, as for the commands. The command is the string in the buffer.\<close>

definition shell_input :: "shell_env \<Rightarrow> u8 \<Rightarrow> 'a shell_scheme \<Rightarrow> (bool \<times> 'a shell_scheme) option" where
  "shell_input env c s =
     (if c = 0x0A \<or> c = 0x0D then do {
        s1 \<leftarrow> shell_putchar 0x0A s;
        let s2 = s1\<lparr>input_buffer := (input_buffer s1)[buffer_idx s1 := 0]\<rparr>;
        (alive, s3) \<leftarrow> (if buffer_idx s2 > 0 then shell_execute env (takeWhile (\<lambda>c. c \<noteq> 0) (input_buffer s2)) s2
                       else do { s3 \<leftarrow> say ''zoho> '' s2; Some (True, s3) });
        Some (alive, if alive then s3\<lparr>buffer_idx := 0\<rparr> else s3) }
      else if c = 0x08 then
        (if buffer_idx s > 0 then map_option (Pair True) (shell_putchar 0x08 (s\<lparr>buffer_idx := buffer_idx s - 1\<rparr>))
         else Some (True, s))
      else if buffer_idx s < MAX_BUFFER - 1 then
        map_option (Pair True) (shell_putchar c
          (s\<lparr>input_buffer := (input_buffer s)[buffer_idx s := c], buffer_idx := buffer_idx s + 1\<rparr>))
      else Some (True, s))"


subsection \<open>The line editor\<close>

definition env0 :: shell_env where
  "env0 = \<lparr>this_cpu = 0, dashboard_run = 0x200000, user_gui_app = 0x210000, poll_net = Some, wait_fuel = 100\<rparr>"


primrec shell_keys :: "shell_env \<Rightarrow> u8 list \<Rightarrow> 'a shell_scheme \<Rightarrow> (bool \<times> 'a shell_scheme) option" where
  "shell_keys env [] s = Some (True, s)"
| "shell_keys env (k # ks) s = do {
     (alive, s1) \<leftarrow> shell_input env k s;
     if alive then shell_keys env ks s1 else Some (False, s1) }"

text \<open>What a key does to the line, and the line in the buffer.\<close>

definition edit :: "u8 list \<Rightarrow> u8 \<Rightarrow> u8 list" where
  "edit l k = (if k = 0x08 then butlast l else if length l < 255 then l @ [k] else l)"

definition line_of :: "'a shell_scheme \<Rightarrow> u8 list" where "line_of s = take (buffer_idx s) (input_buffer s)"

definition editor_ok :: "'a shell_scheme \<Rightarrow> bool" where
  "editor_ok s \<longleftrightarrow> length (input_buffer s) = MAX_BUFFER \<and> buffer_idx s < MAX_BUFFER \<and> line_live (con s) \<and> (\<exists>ls. term_shows s ls)"

lemma typed_ok: "typed s s' ls \<Longrightarrow> term_shows s' ls \<and> line_live (con s')"
  by (simp add: typed_def)

lemma buffer_frame [simp]:
  "term_shows (s\<lparr>input_buffer := b\<rparr>) ls = term_shows s ls" "term_shows (s\<lparr>buffer_idx := i\<rparr>) ls = term_shows s ls"
  by (simp_all add: term_shows_def lines_show_def grid_ok_def picture_def)

lemma key_edits:
  assumes s: "editor_ok s" and k: "k \<noteq> 0x0A" "k \<noteq> 0x0D"
  shows "\<exists>s'. shell_input env k s = Some (True, s') \<and> editor_ok s' \<and> line_of s' = edit (line_of s) k"
proof -
  from s obtain ls where ls: "term_shows s ls" and live: "line_live (con s)" and b: "length (input_buffer s) = 256" "buffer_idx s < 256"
    by (auto simp: editor_ok_def MAX_BUFFER_def)
  have len: "length (line_of s) = buffer_idx s" using b by (simp add: line_of_def)
  consider (erase) "k = 8" "0 < buffer_idx s" | (nothing) "k = 8" "buffer_idx s = 0" | (store) "k \<noteq> 8" "buffer_idx s < 255"
    | (full) "k \<noteq> 8" "buffer_idx s = 255" using b(2) by linarith
  then show ?thesis
  proof cases
    case erase
    define t where "t = s\<lparr>buffer_idx := buffer_idx s - 1\<rparr>"
    have t: "term_shows t ls" "line_live (con t)" "input_buffer t = input_buffer s" "buffer_idx t = buffer_idx s - 1"
      using ls live by (simp_all add: t_def)
    obtain s' where s': "shell_putchar 8 t = Some s'" "typed t s' (type_char (cols_of t) 8 ls)" using putchar_shows [OF t(1,2)] by blast
    have l: "take (buffer_idx s - 1) (input_buffer s) = butlast (line_of s)" using b by (simp add: line_of_def butlast_take)
    have "shell_input env k s = Some (True, s')" using erase s'(1) by (simp add: shell_input_def t_def)
    then show ?thesis using erase s'(2) t(3,4) b l typed_ok [OF s'(2)]
      by (auto simp: editor_ok_def MAX_BUFFER_def edit_def line_of_def typed_def)
  next
    case nothing
    then show ?thesis using s len by (simp add: shell_input_def edit_def)
  next
    case store
    define t where "t = s\<lparr>input_buffer := (input_buffer s)[buffer_idx s := k], buffer_idx := buffer_idx s + 1\<rparr>"
    have t: "term_shows t ls" "line_live (con t)" "input_buffer t = (input_buffer s)[buffer_idx s := k]" "buffer_idx t = buffer_idx s + 1"
      using ls live by (simp_all add: t_def)
    obtain s' where s': "shell_putchar k t = Some s'" "typed t s' (type_char (cols_of t) k ls)" using putchar_shows [OF t(1,2)] by blast
    have l: "take (buffer_idx s + 1) ((input_buffer s)[buffer_idx s := k]) = line_of s @ [k]"
      using b by (simp add: line_of_def take_Suc_conv_app_nth)
    have "shell_input env k s = Some (True, s')" using store k s'(1) by (simp add: shell_input_def t_def MAX_BUFFER_def)
    then show ?thesis using store s'(2) t(3,4) b l len typed_ok [OF s'(2)]
      by (auto simp: editor_ok_def MAX_BUFFER_def edit_def line_of_def typed_def)
  next
    case full
    then show ?thesis using s k len by (simp add: shell_input_def edit_def MAX_BUFFER_def)
  qed
qed

lemma keys_edit:
  "editor_ok s \<Longrightarrow> 0x0A \<notin> set ks \<Longrightarrow> 0x0D \<notin> set ks \<Longrightarrow>
   \<exists>s'. shell_keys env ks s = Some (True, s') \<and> editor_ok s' \<and> line_of s' = foldl edit (line_of s) ks"
proof (induction ks arbitrary: s)
  case (Cons k ks)
  obtain s1 where s1: "shell_input env k s = Some (True, s1)" "editor_ok s1" "line_of s1 = edit (line_of s) k"
    using key_edits [OF Cons.prems(1), of k env] Cons.prems by auto
  from Cons.IH [OF s1(2)] Cons.prems show ?case by (simp add: s1)
qed simp

lemma enter_runs:
  assumes s: "editor_ok s" and ne: "line_of s \<noteq> []" and k: "k = 0x0A \<or> k = 0x0D"
  shows "\<exists>s2. editor_ok s2 \<and> line_of s2 = line_of s \<and> shell_input env k s = do {
    (alive, s3) \<leftarrow> shell_execute env (takeWhile (\<lambda>c. c \<noteq> 0) (line_of s)) s2;
    Some (alive, if alive then s3\<lparr>buffer_idx := 0\<rparr> else s3) }"
proof -
  from s obtain ls where ls: "term_shows s ls" and live: "line_live (con s)" and b: "length (input_buffer s) = 256" "buffer_idx s < 256"
    by (auto simp: editor_ok_def MAX_BUFFER_def)
  obtain s1 where s1: "shell_putchar 0x0A s = Some s1" "typed s s1 (type_char (cols_of s) 0x0A ls)"
    using putchar_shows [OF ls live] by blast
  then have f: "input_buffer s1 = input_buffer s" "buffer_idx s1 = buffer_idx s" by (simp_all add: typed_def)
  define s2 where "s2 = s1\<lparr>input_buffer := (input_buffer s1)[buffer_idx s1 := 0]\<rparr>"
  have "(input_buffer s)[buffer_idx s := 0] = line_of s @ 0 # drop (Suc (buffer_idx s)) (input_buffer s)"
    using b by (simp add: line_of_def upd_conv_take_nth_drop)
  then have w: "takeWhile (\<lambda>c. c \<noteq> 0) (input_buffer s2) = takeWhile (\<lambda>c. c \<noteq> 0) (line_of s)"
    by (simp add: s2_def f takeWhile_tail)
  have "0 < buffer_idx s1" using ne by (simp add: f line_of_def)
  then have e: "shell_input env k s = do {
      (alive, s3) \<leftarrow> shell_execute env (takeWhile (\<lambda>c. c \<noteq> 0) (line_of s)) s2;
      Some (alive, if alive then s3\<lparr>buffer_idx := 0\<rparr> else s3) }"
    using k by (simp add: shell_input_def s1(1) w flip: s2_def)
  have "editor_ok s2" using typed_ok [OF s1(2)] b by (auto simp: s2_def f editor_ok_def MAX_BUFFER_def)
  moreover have "line_of s2 = line_of s" by (simp add: s2_def f line_of_def)
  ultimately show ?thesis using e by blast
qed



lemma line_editor_keeps_example: "editor_ok s \<Longrightarrow> line_of s = [] \<Longrightarrow> foldl edit (line_of s) [108, 120, 8, 115] = [108, 115]"
  by (simp add: edit_def)


subsection \<open>The disk test\<close>

text \<open>Printing that only has to return.\<close>

definition term_ready :: "'a shell_scheme \<Rightarrow> bool" where "term_ready s \<longleftrightarrow> line_live (con s) \<and> (\<exists>ls. term_shows s ls)"

definition printed :: "'a shell_scheme \<Rightarrow> 'a shell_scheme \<Rightarrow> bool" where
  "printed s s' \<longleftrightarrow> term_ready s' \<and> heap s' = heap s \<and> kvm s' = kvm s \<and> ufs s' = ufs s \<and> netst s' = netst s"

lemma typed_printed: "typed s s' ls \<Longrightarrow> printed s s'"
  by (auto simp: typed_def printed_def term_ready_def)

lemma print_returns: "term_ready s \<Longrightarrow> \<exists>s'. shell_print str s = Some s' \<and> printed s s'"
  using putchars_shows typed_printed by (fastforce simp: term_ready_def shell_print_def)

lemma term_ready_ufs [simp]: "term_ready (s\<lparr>ufs := f\<rparr>) = term_ready s"
  by (simp add: term_ready_def term_shows_def lines_show_def grid_ok_def picture_def win_of_def has_buffer_def pixels_of_def)

text \<open>Sectors \<open>5000\<close> to \<open>5511\<close> with the pattern of the test.\<close>

definition hammered :: "nat \<Rightarrow> (u32 \<Rightarrow> u8 list) \<Rightarrow> u32 \<Rightarrow> u8 list" where
  "hammered n secs l = (if 5000 \<le> l \<and> l < 5000 + word_of_nat n then replicate 512 (ucast (l - 5000)) else secs l)"


definition pattern :: "nat \<Rightarrow> (u32 \<Rightarrow> u8 list) \<Rightarrow> u32 \<Rightarrow> u8 list" where
  "pattern i secs = secs(5000 + word_of_nat i := replicate 512 (word_of_nat i))"

lemma hammer_step:
  assumes d: "in_order f" and i: "i < 512"
  shows "\<exists>f2. ata_read_sector (5000 + word_of_nat i) (replicate 512 0)
      (ata_write_sector (5000 + word_of_nat i) (replicate 512 (word_of_nat i)) f) = (replicate 512 (word_of_nat i), f2) \<and>
    sectors f2 = pattern i (sectors f) \<and> same_drive f f2"
proof -
  let ?l = "5000 + word_of_nat i :: u32" and ?p = "replicate 512 (word_of_nat i) :: u8 list"
  have l: "lba28 ?l = ?l" using lba28_small [of "5000 + i"] i by simp
  define f1 where "f1 = ata_write_sector ?l ?p f"
  have w: "sectors f1 = (sectors f)(?l := ?p)" "same_drive f f1"
    using ata_write_sector_writes [OF d, of ?p ?l] by (simp_all add: f1_def l)
  have "in_order f1" using d same_drive_in_order [OF w(2)] by simp
  from ata_read_sector_reads [OF this, of ?l "replicate 512 0"] obtain f2 where
    "ata_read_sector ?l (replicate 512 0) f1 = (?p, f2)" "sectors f2 = sectors f1" "same_drive f1 f2"
    by (auto simp: l w(1))
  then show ?thesis using w same_drive_trans [OF w(2)] by (auto simp: f1_def pattern_def)
qed

lemma hammer_runs:
  "term_ready s \<Longrightarrow> in_order (ufs s) \<Longrightarrow> \<forall>i \<in> set is. i < 512 \<Longrightarrow>
   \<exists>s'. hammer is s = Some s' \<and> term_ready s' \<and> same_drive (ufs s) (ufs s') \<and>
     sectors (ufs s') = fold pattern is (sectors (ufs s))"
proof (induction "is" arbitrary: s)
  case (Cons i js)
  obtain f2 where f2: "ata_read_sector (5000 + word_of_nat i) (replicate 512 0)
      (ata_write_sector (5000 + word_of_nat i) (replicate 512 (word_of_nat i)) (ufs s)) = (replicate 512 (word_of_nat i), f2)"
    "sectors f2 = pattern i (sectors (ufs s))" "same_drive (ufs s) f2"
    using hammer_step [OF Cons.prems(2), of i] Cons.prems(3) by auto
  have e: "hammer (i # js) s = hammer js (s\<lparr>ufs := f2\<rparr>)" by (simp add: f2(1))
  have "term_ready (s\<lparr>ufs := f2\<rparr>)" "in_order (ufs (s\<lparr>ufs := f2\<rparr>))"
    using Cons.prems(1,2) same_drive_in_order [OF f2(3)] by simp_all
  from Cons.IH [OF this] Cons.prems(3) obtain s' where
    "hammer js (s\<lparr>ufs := f2\<rparr>) = Some s'" "term_ready s'" "same_drive f2 (ufs s')"
    "sectors (ufs s') = fold pattern js (sectors f2)" by auto
  then show ?case using e f2(2) same_drive_trans [OF f2(3)] by simp
qed simp

lemma hammer_sectors:
  "n \<le> 512 \<Longrightarrow> fold pattern [0..<n] secs = hammered n secs"
proof (induction n)
  case 0
  show ?case by (auto simp: hammered_def fun_eq_iff)
next
  case (Suc n)
  have n: "unat (5000 + word_of_nat n :: u32) = 5000 + n" "unat (5000 + word_of_nat (Suc n) :: u32) = 5000 + Suc n"
    using Suc.prems unat_small [of "5000 + n"] unat_small [of "5000 + Suc n"] by simp_all
  have p: "(ucast (5000 + word_of_nat n - 5000 :: u32) :: u8) = word_of_nat n"
    using Suc.prems take_bit_nat_eq_self [of n 32] by (simp add: unsigned_of_nat)
  have "hammered (Suc n) secs l = pattern n (hammered n secs) l" for l
  proof (cases "l = 5000 + word_of_nat n")
    case True
    then show ?thesis using n p by (simp add: hammered_def pattern_def word_le_nat_alt word_less_nat_alt)
  next
    case False
    then have "unat l \<noteq> 5000 + n" using n(1) by (metis word_unat_eq_iff)
    then have "l < 5000 + word_of_nat (Suc n) \<longleftrightarrow> l < 5000 + word_of_nat n" using n by (auto simp: word_less_nat_alt)
    then show ?thesis using False by (simp add: hammered_def pattern_def)
  qed
  then have "hammered (Suc n) secs = pattern n (hammered n secs)" by (rule ext)
  then show ?case using Suc by simp
qed

text \<open>
  C39. On a drive in working order the disk test returns and reports no corruption, and overwrites the sectors 5000 to
  5511 with its patterns, whatever they held, past the sector cache; no other sector changes.
\<close>

theorem stress_disk_overwrites:
  assumes "term_ready s" and "in_order (ufs s)"
  shows "\<exists>s'. cmd_stress_disk s = Some s' \<and> term_ready s' \<and> drive.more (ufs s') = drive.more (ufs s) \<and>
    sectors (ufs s') = (\<lambda>l. if 5000 \<le> l \<and> l < 5512 then replicate 512 (ucast (l - 5000)) else sectors (ufs s) l)"
proof -
  obtain s1 where s1: "say ''Starting Disk Hammer...'' s = Some s1" "printed s s1" using print_returns [OF assms(1)] by blast
  then have r1: "term_ready s1" by (simp add: printed_def)
  obtain s2 where s2: "say_nl s1 = Some s2" "printed s1 s2" using print_returns [OF r1] by blast
  have r2: "term_ready s2" "in_order (ufs s2)" "ufs s2 = ufs s" using s1(2) s2(2) assms(2) by (simp_all add: printed_def)
  obtain s3 where s3: "hammer [0..<512] s2 = Some s3" "term_ready s3" "same_drive (ufs s2) (ufs s3)" "sectors (ufs s3) = hammered 512 (sectors (ufs s))"
    using hammer_runs [OF r2(1,2), of "[0..<512]"] hammer_sectors [of 512 "sectors (ufs s)"] r2(3) by auto
  obtain s4 where s4: "say ''Disk stress test complete.'' s3 = Some s4" "printed s3 s4" using print_returns [OF s3(2)] by blast
  then have r4: "term_ready s4" by (simp add: printed_def)
  obtain s5 where s5: "say_nl s4 = Some s5" "printed s4 s5" using print_returns [OF r4] by blast
  have "cmd_stress_disk s = Some s5" by (simp add: cmd_stress_disk_def s1(1) s2(1) s3(1) s4(1) s5(1) del: upt_rec_numeral)
  moreover have "term_ready s5" "ufs s5 = ufs s3" using s4(2) s5(2) by (simp_all add: printed_def)
  ultimately show ?thesis using s3(3,4) r2(3) by (auto simp: same_drive_def hammered_def fun_eq_iff)
qed


theorem stress_disk_overwrites_witness:
  "\<exists>s s'. shell_set_window 0x400 shell_sys = Some s \<and> cmd_stress_disk s = Some s' \<and>
     sectors (ufs s') 5001 = replicate 512 1 \<and> sectors (ufs s') 2048 = sectors (ufs s) 2048"
proof -
  obtain s where s: "shell_set_window 0x400 shell_sys = Some s" "term_shows s [[]]" "con s = console0" "ufs s = demo_vfs closed_fd"
    using shell_sys_shows by blast
  have "term_ready s" using s console0_live by (auto simp: term_ready_def)
  moreover have "in_order (ufs s)" using demo_disk_ok by (simp add: s(4) disk_ok_def)
  ultimately show ?thesis using stress_disk_overwrites [of s] s(1) by fastforce
qed

subsection \<open>Numbers and addresses\<close>

text \<open>The characters of a decimal number as the shell prints it, and of an address.\<close>

definition dec_text :: "u64 \<Rightarrow> u8 list" where
  "dec_text v = (if v = 0 then [48] else lit (rev (take 21 (dec_loop v))))"

lemma print_dec_text: "shell_print_dec v s = shell_putchars (dec_text v) s"
  by (cases "shell_putchar 48 s") (simp_all add: shell_print_dec_def dec_text_def)

definition ip_text :: "u8 list \<Rightarrow> u8 list" where
  "ip_text ip = dec_text (ucast (ip ! 0)) @ 46 # dec_text (ucast (ip ! 1)) @ 46 # dec_text (ucast (ip ! 2)) @ 46 # dec_text (ucast (ip ! 3))"

definition digit_codes :: "nat list \<Rightarrow> u8 list" where "digit_codes ds = map (\<lambda>d. 48 + word_of_nat d) ds"

lemma digit_code:
  "d < 10 \<Longrightarrow> (of_char (digit_char d) :: u8) = 48 + word_of_nat d \<and> is_digit (48 + word_of_nat d) \<and>
    ucast (48 + word_of_nat d :: u8) - 48 = (word_of_nat d :: u16)"
proof -
  assume d: "d < 10"
  have "(of_char (digit_char d) :: u8) = of_nat (of_char (digit_char d) :: nat)" by (simp only: of_nat_of_char)
  also have "(of_char (digit_char d) :: nat) = 48 + d" using d by (simp add: digit_char_def)
  finally have c: "(of_char (digit_char d) :: u8) = 48 + word_of_nat d" by simp
  from d have "d \<in> {0, 1, 2, 3, 4, 5, 6, 7, 8, 9}" by auto
  then have "is_digit (48 + word_of_nat d) \<and> ucast (48 + word_of_nat d :: u8) - 48 = (word_of_nat d :: u16)"
    by (auto simp: is_digit_def)
  with c show ?thesis by blast
qed

lemma digits_below: "\<forall>d \<in> set (digits 10 n). d < 10"
proof (induction n rule: less_induct)
  case (less n)
  show ?case
  proof (cases "n = 0")
    case False
    then show ?thesis using less [of "n div 10"] by (subst digits.simps) simp
  qed (simp add: digits.simps)
qed

lemma horner_digits: "fold (\<lambda>d v. v * 10 + word_of_nat d) (rev (digits 10 n)) 0 = (word_of_nat n :: 'a :: len word)"
proof (induction n rule: less_induct)
  case (less n)
  show ?case
  proof (cases "n = 0")
    case False
    have "word_of_nat (n div 10) * 10 + word_of_nat (n mod 10) = (word_of_nat n :: 'a word)"
      by (metis div_mult_mod_eq of_nat_add of_nat_mult of_nat_numeral)
    then show ?thesis using less [of "n div 10"] False by (subst digits.simps) simp
  qed (simp add: digits.simps)
qed

lemma digits_zero [simp]: "digits 10 0 = []"
  by (simp add: digits.simps)

text \<open>The text of a number is a nonempty list of digits that reads back as the number, at every width.\<close>

lemma dec_text_digits: "\<exists>ds. dec_text v = digit_codes ds \<and> ds \<noteq> [] \<and> (\<forall>d \<in> set ds. d < 10) \<and>
    fold (\<lambda>d w. w * 10 + word_of_nat d) ds 0 = (word_of_nat (unat v) :: 'a :: len word)"
proof (cases "v = 0")
  case True
  then show ?thesis by (intro exI [of _ "[0]"]) (simp add: dec_text_def digit_codes_def)
next
  case False
  have "take 21 (dec_loop v) = dec_loop v" using dec_loop_length [of v] by simp
  then have "dec_text v = digit_codes (rev (digits 10 (unat v)))"
    using False digits_below [of "unat v"] digit_code by (simp add: dec_text_def dec_loop_digits lit_def digit_codes_def rev_map)
  moreover have "digits 10 (unat v) \<noteq> []" using False by (subst digits.simps) (simp add: unat_eq_zero)
  ultimately show ?thesis using digits_below [of "unat v"] horner_digits [of "unat v", where 'a = 'a]
    by (intro exI [of _ "rev (digits 10 (unat v))"]) simp
qed

lemma unat_ucast_small: "unat (ucast (b :: u8) :: u64) = unat b" "unat (ucast (p :: u16) :: u64) = unat p"
  by (transfer, simp add: take_bit_take_bit)+

lemma tcp_ip_digits:
  "\<forall>d \<in> set ds. d < 10 \<Longrightarrow> part < 4 \<Longrightarrow> part < length ip \<Longrightarrow>
   tcp_ip (digit_codes ds @ rest) part ip = tcp_ip rest part (ip[part := fold (\<lambda>d w. w * 10 + word_of_nat d) ds (ip ! part)])"
  by (induction ds arbitrary: ip) (simp_all add: digit_codes_def digit_code)

lemma ping_ip_digits:
  "\<forall>d \<in> set ds. d < 10 \<Longrightarrow> part < 4 \<Longrightarrow> part < length ip \<Longrightarrow>
   ping_ip (digit_codes ds @ rest) part ip = ping_ip rest part (ip[part := fold (\<lambda>d w. w * 10 + word_of_nat d) ds (ip ! part)])"
  by (induction ds arbitrary: ip) (simp_all add: digit_codes_def digit_code)

lemma tcp_port_digits:
  "\<forall>d \<in> set ds. d < 10 \<Longrightarrow> tcp_port (digit_codes ds) p = fold (\<lambda>d w. w * 10 + word_of_nat d) ds p"
  by (induction ds arbitrary: p) (simp_all add: digit_codes_def digit_code)

lemma parse_octet:
  assumes "part < 4" and "length ip = 4" and "ip ! part = 0"
  shows "tcp_ip (dec_text (ucast (b :: u8)) @ rest) part ip = tcp_ip rest part (ip[part := b])"
    "ping_ip (dec_text (ucast b) @ rest) part ip = ping_ip rest part (ip[part := b])"
proof -
  obtain ds where "dec_text (ucast b) = digit_codes ds" "\<forall>d \<in> set ds. d < 10"
    "fold (\<lambda>d w. w * 10 + word_of_nat d) ds 0 = (word_of_nat (unat (ucast b :: u64)) :: u8)"
    using dec_text_digits [of "ucast b", where 'a = 8] by blast
  then show "tcp_ip (dec_text (ucast (b :: u8)) @ rest) part ip = tcp_ip rest part (ip[part := b])"
    "ping_ip (dec_text (ucast b) @ rest) part ip = ping_ip rest part (ip[part := b])"
    using assms by (simp_all add: tcp_ip_digits ping_ip_digits unat_ucast_small)
qed

lemma parse_port: "tcp_port (dec_text (ucast (port :: u16))) 0 = port"
proof -
  obtain ds where "dec_text (ucast port) = digit_codes ds" "\<forall>d \<in> set ds. d < 10"
    "fold (\<lambda>d w. w * 10 + word_of_nat d) ds 0 = (word_of_nat (unat (ucast port :: u64)) :: u16)"
    using dec_text_digits [of "ucast port", where 'a = 16] by blast
  then show ?thesis by (simp add: tcp_port_digits unat_ucast_small)
qed


lemma run_tcp: "run_command env (lit ''tcp '' @ rest) s = map_option (Pair True) (cmd_tcp env rest s)"
  by (simp add: run_command_def has_prefix_def lit_def)

lemma run_ping: "run_command env (lit ''ping '' @ rest) s = map_option (Pair True) (cmd_ping env rest s)"
  by (simp add: run_command_def has_prefix_def lit_def)

lemma putchars_append: "shell_putchars (xs @ ys) s = do { t \<leftarrow> shell_putchars xs s; shell_putchars ys t }"
  by (induction xs arbitrary: s) simp_all

lemma parse_ip_text:
  "tcp_ip (ip_text [a, b, c, d] @ 32 # rest) 0 [0, 0, 0, 0] = (3, [a, b, c, d], rest)"
  "ping_ip (ip_text [a, b, c, d]) 0 [0, 0, 0, 0] = (3, [a, b, c, d])"
proof -
  have last: "ping_ip (dec_text (ucast d)) (Suc (Suc (Suc 0))) [a, b, c, 0] = (3, [a, b, c, d])"
    using parse_octet(2) [of "Suc (Suc (Suc 0))" "[a, b, c, 0]" d "[]"] by simp
  have nd: "\<not> is_digit 46" "\<not> is_digit 32" "((32 :: u8) = 46) = False" by (simp_all add: is_digit_def)
  show "tcp_ip (ip_text [a, b, c, d] @ 32 # rest) 0 [0, 0, 0, 0] = (3, [a, b, c, d], rest)"
    by (simp add: ip_text_def parse_octet nd)
  show "ping_ip (ip_text [a, b, c, d]) 0 [0, 0, 0, 0] = (3, [a, b, c, d])"
    using last by (simp add: ip_text_def parse_octet nd)
qed

text \<open>
  C38. Addresses make a round trip: the characters the shell prints for an IPv4 address (\<open>net\<close>), typed behind
  \<open>ping\<close> or, with a port, behind \<open>tcp\<close>, are read back as that address and that port, for every address and every
  port but 0.
\<close>

theorem addresses_roundtrip:
  assumes "length ip = 4" and "port \<noteq> 0"
  shows "print_ip ip s = shell_putchars (ip_text ip) s \<and>
    run_command env (lit ''ping '' @ ip_text ip) s =
      map_option (Pair True) (with_net (net_ping (poll_net env) (wait_fuel env) ip) s) \<and>
    run_command env (lit ''tcp '' @ ip_text ip @ 32 # dec_text (ucast port)) s =
      map_option (Pair True) (with_net (tcp_connect (poll_net env) (wait_fuel env) ip port) s)"
proof -
  obtain a b c d where ip: "ip = [a, b, c, d]"
    using assms(1) by (auto simp: length_Suc_conv numeral_eq_Suc)
  have "print_ip ip s = shell_putchars (ip_text ip) s"
    by (simp add: print_ip_def ip ip_text_def print_dec_text putchars_append numeral_2_eq_2 numeral_3_eq_3 upt_rec)
  moreover have "0 < port" using assms(2) by (simp add: word_gt_0)
  ultimately show ?thesis
    by (simp add: run_ping run_tcp cmd_ping_def cmd_tcp_def parse_ip_text parse_port ip)
qed

theorem addresses_roundtrip_witness:
  "run_command env0 (lit ''ping '' @ ip_text [10, 0, 2, 2]) shell_sys =
     map_option (Pair True) (with_net (net_ping Some 100 [10, 0, 2, 2]) shell_sys)"
  using addresses_roundtrip [of "[10, 0, 2, 2]" 80 shell_sys env0] by (simp add: env0_def)


subsection \<open>Showing a file\<close>

lemma cstr_mbytes: "cstr m a xs \<Longrightarrow> mbytes m a (length xs) = xs"
proof (induction xs arbitrary: a)
  case Nil
  show ?case by (simp add: mbytes_def)
next
  case (Cons x xs)
  then show ?case by (simp add: mbytes_Suc)
qed

lemma cstr_first_zero:
  "\<forall>i < length xs. m (a + word_of_nat i) = xs ! i \<Longrightarrow> m (a + word_of_nat (length xs)) = 0 \<Longrightarrow>
   cstr m a (takeWhile (\<lambda>c. c \<noteq> 0) xs)"
proof (induction xs arbitrary: a)
  case (Cons x xs)
  have "m a = x" using Cons.prems(1) [rule_format, of 0] by simp
  moreover have "\<forall>i < length xs. m (a + 1 + word_of_nat i) = xs ! i"
  proof safe
    fix i assume "i < length xs"
    then show "m (a + 1 + word_of_nat i) = xs ! i" using Cons.prems(1) [rule_format, of "Suc i"] by (simp add: add.assoc)
  qed
  moreover have "m (a + 1 + word_of_nat (length xs)) = 0" using Cons.prems(2) by (simp add: add.assoc)
  ultimately show ?case using Cons.IH [of "a + 1"] by auto
qed simp

lemma string_at_bytes:
  assumes "mbytes m a (length xs) = xs" and "m (a + word_of_nat (length xs)) = 0" and "length xs < 2 ^ 64"
  shows "string_at m a = Some (takeWhile (\<lambda>c. c \<noteq> 0) xs)"
proof -
  let ?w = "takeWhile (\<lambda>c. c \<noteq> 0) xs"
  have "m (a + word_of_nat i) = xs ! i" if "i < length xs" for i
    using that arg_cong [OF assms(1), of "\<lambda>ys. ys ! i"] by (simp add: mbytes_def)
  then have c: "cstr m a ?w" by (intro cstr_first_zero assms(2)) simp
  have "length ?w < 2 ^ 64" using assms(3) length_takeWhile_le [of "\<lambda>c. c \<noteq> 0" xs] by simp
  then have "unat (word_of_nat (length ?w) :: u64) = length ?w"
    using take_bit_nat_eq_self [of "length ?w" 64] by (simp add: unsigned_of_nat)
  then show ?thesis
    using strlen_loop_cstr [of m a 0 ?w] c cstr_mbytes [OF c] by (simp add: string_at_def strlen_def)
qed

lemma put_bytes_end: "length bs < 2 ^ 64 \<Longrightarrow> mbytes ((put_bytes a bs m)(a + word_of_nat (length bs) := v)) a (length bs) = bs"
proof -
  assume l: "length bs < 2 ^ 64"
  have "((put_bytes a bs m)(a + word_of_nat (length bs) := v)) (a + word_of_nat i) = put_bytes a bs m (a + word_of_nat i)"
    if "i < length bs" for i
  proof -
    have "(word_of_nat i :: u64) \<noteq> word_of_nat (length bs)"
      using that l take_bit_nat_eq_self [of i 64] take_bit_nat_eq_self [of "length bs" 64]
      by (simp add: word_unat_eq_iff unsigned_of_nat)
    then show ?thesis by simp
  qed
  then have "mbytes ((put_bytes a bs m)(a + word_of_nat (length bs) := v)) a (length bs) = mbytes (put_bytes a bs m) a (length bs)"
    unfolding mbytes_def by (intro map_cong refl) simp
  then show ?thesis using mbytes_put_bytes [of bs a m] l by simp
qed

lemma text_in_memory:
  assumes "length bs < 2 ^ 31"
  shows "string_at ((put_bytes a bs m)(a + ucast (word_of_nat (length bs) :: u32) := 0)) a = Some (takeWhile (\<lambda>c. c \<noteq> 0) bs)"
proof -
  have "(ucast (word_of_nat (length bs) :: u32) :: u64) = word_of_nat (length bs)"
    using unat_small [OF assms] by (rule ucast_of_nat)
  then show ?thesis using assms by (simp add: string_at_bytes [OF put_bytes_end])
qed

text \<open>Opening a file of the archive, and reading all of it.\<close>

lemma open_whole:
  assumes a: "archive fs f" "0 \<notin> set nm" "length (fd_table f) = MAX_FDS"
    and entry: "tar_entry nm (unat (tar_start_lba f)) fs = Some (l, content)" and free: "free_fd 0 (fd_table f) = Some i"
  obtains f1 where "vfs_open nm f = Some (int i, f1)" "vfs_fd_size (int i) f1 = word_of_nat (length content)" "length content < 2 ^ 31"
    "\<And>b. length b = length content \<Longrightarrow> \<exists>f2. vfs_read (int i) b (word_of_nat (length content)) f1 = Some (int (length content), content, f2) \<and>
       i < MAX_FDS \<and> length (fd_table f2) = MAX_FDS"
proof -
  from vfs_open_opens [OF a entry free] obtain f1 where
    f1: "vfs_open nm f = Some (int i, f1)" "fd_on i l content 0 f1" by blast
  have fd: "i < MAX_FDS" "fd_table f1 ! i = \<lparr>start_lba = word_of_nat l, fd_size = word_of_nat (length content),
      fd_offset = word_of_nat 0, in_use = True\<rparr>" "length content < 2 ^ 31" "length (fd_table f1) = MAX_FDS"
    using f1(2) by (simp_all add: fd_on_def file_on_def)
  show thesis
  proof (rule that [OF f1(1) _ fd(3)])
    show "vfs_fd_size (int i) f1 = word_of_nat (length content)" using fd by (simp add: vfs_fd_size_def bad_fd_def)
    fix b :: "u8 list" assume b: "length b = length content"
    from vfs_read_reads [OF f1(2) refl, of "word_of_nat (length content)" b] obtain f2 where
      "vfs_read (int i) b (word_of_nat (length content)) f1 = Some (int (length content), content, f2)"
      "fd_on i l content (length content) f2" by (auto simp: unat_small [OF fd(3)] b)
    then show "\<exists>f2. vfs_read (int i) b (word_of_nat (length content)) f1 = Some (int (length content), content, f2) \<and>
       i < MAX_FDS \<and> length (fd_table f2) = MAX_FDS" by (auto simp: fd_on_def)
  qed
qed

lemma align8_bounds: "unat n \<le> 2 ^ 32 \<Longrightarrow> unat n \<le> unat (align8 n) \<and> unat (align8 n) \<le> unat n + 7"
proof -
  assume n: "unat n \<le> 2 ^ 32"
  then have "unat (n + 7) = unat n + 7" by (simp add: unat_plus_if')
  moreover have "unat (align8 n) \<le> unat (n + 7)" using unat_high [of "n + 7" 3] by (simp add: align8_def mask_consts(4))
  ultimately show ?thesis using align8_ge [of n] n by simp
qed

lemma term_frame [simp]:
  "term_shows (s\<lparr>heap := h\<rparr>) ls = term_shows s ls" "term_shows (s\<lparr>kvm := v\<rparr>) ls = term_shows s ls"
  "term_shows (s\<lparr>ufs := f\<rparr>) ls = term_shows s ls"
  by (simp_all add: term_shows_def lines_show_def grid_ok_def picture_def win_of_def has_buffer_def pixels_of_def)

lemma run_cat: "run_command env (lit ''cat '' @ nm) s = map_option (Pair True) (cmd_cat nm s)"
  by (simp add: run_command_def has_prefix_def lit_def)





text \<open>An octet above 255 is taken modulo 256, without a message.\<close>

lemma ip_octets_wrap: "ping_ip (lit ''300.0.2.2'') 0 [0, 0, 0, 0] = (3, [44, 0, 2, 2])"
  by (simp add: lit_def is_digit_def)

end
