(* ===== verification/Desktop.thy ===== *)
theory Desktop
  imports Shell Idt
begin

text \<open>
  The parts of the kernel that put the others together: the start of the desktop and the main loop of
  \<open>src/kernel/main.c\<close>, the report of an exception in the kernel (\<open>src/kernel/idt.c\<close>) and the system monitor of
  \<open>src/kernel/dashboard.c\<close>.
\<close>

subsection \<open>The desktop\<close>

record desktop = shell +
  dio :: input

text \<open>From the mouse to the first DHCP message; the graphics are set up before.\<close>

definition client_pixels :: u64 where "client_pixels = 600 * 375 * 4"

definition open_terminal :: "'a shell_scheme \<Rightarrow> 'a shell_scheme option" where
  "open_terminal s = do {
     (win, s1) \<leftarrow> window_create 50 50 600 400 0xFF333333 (window_init s);
     (buf, s2) \<leftarrow> kmalloc_k client_pixels s1;
     let s3 = upd_win win (\<lambda>w. w\<lparr>w_buffer := buf\<rparr>) s2;
     shell_set_window win (s3\<lparr>bufs := (bufs s3)(buf := zero_pixels client_pixels (bufs s3 buf))\<rparr>) }"

definition boot_desktop :: "'a desktop_scheme \<Rightarrow> 'a desktop_scheme option" where
  "boot_desktop s = do {
     s1 \<leftarrow> open_terminal (s\<lparr>dio := keyboard_init (mouse_init (dio s))\<rparr>);
     s2 \<leftarrow> shell_init (s1\<lparr>netst := tcp_init (dhcp_init (net_init (netst s1)))\<rparr>);
     with_net dhcp_discover s2 }"

text \<open>
  The characters waiting at the serial port go to the shell; the loop may not end. The answers say whether control
  comes back, as for the shell.
\<close>

partial_function (option) serial_poll_input :: "shell_env \<Rightarrow> 'a desktop_scheme \<Rightarrow> (bool \<times> 'a desktop_scheme) option" where
  "serial_poll_input env s =
     (case port_inb (COM1 + 5) (dio s) of (st, i1) \<Rightarrow>
        if st AND 0x01 \<noteq> 0 then
          case port_inb COM1 i1 of (c, i2) \<Rightarrow> do {
            (alive, s1) \<leftarrow> shell_input env c (s\<lparr>dio := i2\<rparr>);
            if alive then serial_poll_input env s1 else Some (False, s1) }
        else Some (True, s\<lparr>dio := i1\<rparr>))"

definition main_step :: "shell_env \<Rightarrow> 'a desktop_scheme \<Rightarrow> (bool \<times> 'a desktop_scheme) option" where
  "main_step env s = do {
     (alive, s1) \<leftarrow> serial_poll_input env s;
     if \<not> alive then Some (False, s1)
     else do {
       s2 \<leftarrow> with_net (poll_net env) s1;
       s3 \<leftarrow> window_update (mouse_get_x (dio s2)) (mouse_get_y (dio s2)) (mouse_get_buttons (dio s2)) s2;
       s4 \<leftarrow> window_draw_all s3;
       Some (True, s4) } }"

subsection \<open>The report of an exception\<close>

definition exception_messages :: "string list" where
  "exception_messages =
     [''Division By Zero'', ''Debug'', ''Non Maskable Interrupt'', ''Breakpoint'', ''Into Detected Overflow'', ''Out of Bounds'',
      ''Invalid Opcode'', ''No Coprocessor'', ''Double Fault'', ''Coprocessor Segment Overrun'', ''Bad TSS'', ''Segment Not Present'',
      ''Stack Fault'', ''General Protection Fault'', ''Page Fault'', ''Unknown Interrupt'', ''Coprocessor Fault'', ''Alignment Check'',
      ''Machine Check''] @ replicate 13 ''Reserved''"

text \<open>A label and a register, first on the screen, then on the serial line; a line of them.\<close>

definition panic_reg :: "string \<Rightarrow> u64 \<Rightarrow> 'a console_scheme \<Rightarrow> 'a console_scheme option" where
  "panic_reg label v c = do {
     c1 \<leftarrow> serial_print label (vga_print_hex v (vga_print label c));
     serial_print_hex v c1 }"

primrec panic_regs :: "(string \<times> u64) list \<Rightarrow> 'a console_scheme \<Rightarrow> 'a console_scheme option" where
  "panic_regs [] c = serial_print [CHR 0x0A] (vga_print [CHR 0x0A] c)"
| "panic_regs (r # rs) c = do { c1 \<leftarrow> panic_reg (fst r) (snd r) c; panic_regs rs c1 }"

text \<open>The registers of the frame at \<open>f\<close>, as the assembly entry has stored them.\<close>

definition panic_lines :: "pmem \<Rightarrow> u64 \<Rightarrow> (string \<times> u64) list list" where
  "panic_lines m f =
     [[(''RIP: '', m (f + 136)), ('' CS: '', m (f + 144)), ('' RFLAGS: '', m (f + 152))],
      [(''RSP: '', m (f + 160)), ('' SS: '', m (f + 168)), ('' ERR: '', m (f + 128))],
      [(''RAX: '', m (f + 112)), ('' RBX: '', m (f + 104)), ('' RCX: '', m (f + 96))],
      [(''RDX: '', m (f + 88)), ('' RDI: '', m (f + 64)), ('' RSI: '', m (f + 72))]]"

definition panic_title :: string where "panic_title = CHR 0x0A # ''KERNEL PANIC: ''"

definition panic_screen :: "pmem \<Rightarrow> u64 \<Rightarrow> 'a console_scheme \<Rightarrow> 'a console_scheme option" where
  "panic_screen m f c = do {
     let msg = exception_messages ! unat (frame_int_no m f);
     c1 \<leftarrow> serial_print panic_title (vga_print [CHR 0x0A] (vga_print msg (vga_print panic_title c)));
     c2 \<leftarrow> serial_print msg c1;
     c3 \<leftarrow> serial_print [CHR 0x0A] c2;
     fold (\<lambda>rs r. Option.bind r (panic_regs rs)) (panic_lines m f) (Some c3) }"

subsection \<open>The system monitor\<close>

text \<open>The characters of the number, lowest digit first, and the loop that exchanges the two halves.\<close>

definition swap_step :: "nat \<Rightarrow> string \<Rightarrow> string" where
  "swap_step j s = s[j := s ! (length s - j - 1), length s - j - 1 := s ! j]"

definition dashboard_itoa :: "u64 \<Rightarrow> string" where
  "dashboard_itoa n =
     (let s = (if n = 0 then [CHR ''0''] else dec_loop n) in fold swap_step [0..<length s div 2] s)"

definition bar_width :: "u64 \<Rightarrow> u64 \<Rightarrow> u32" where
  "bar_width part whole = (let w = (ucast (part * 150 div whole) :: u32) in if w > 150 then 150 else w)"

text \<open>One frame of the monitor in the buffer of a window \<open>w\<close> pixels wide with \<open>client_h\<close> rows.\<close>

definition dashboard_cpu :: "u32 \<Rightarrow> sys_info_t \<Rightarrow> nat \<Rightarrow> pixels \<Rightarrow> pixels" where
  "dashboard_cpu w info i b =
     (let y = 40 + word_of_nat i * 30; ti = si_cpus info ! i;
          b1 = graphics_draw_string w 10 y (lit ''CPU '' @ [48 + word_of_nat i] @ lit '' : '') 0xFFFFFFFF b;
          b2 = graphics_fill_rect_buffer w 60 y 150 10 0xFF444444 b1
      in if fst ti > 0 then graphics_fill_rect_buffer w 60 y (bar_width (fst ti - snd ti) (fst ti)) 10 0xFF00FF00 b2 else b2)"

definition dashboard_frame :: "u32 \<Rightarrow> u32 \<Rightarrow> sys_info_t \<Rightarrow> pixels \<Rightarrow> pixels" where
  "dashboard_frame w client_h info b =
     (let b1 = graphics_fill_rect_buffer w 0 0 w client_h 0xFF222222 b;
          b2 = graphics_draw_string w 10 10 (lit ''SYSTEM MONITOR'') 0xFFFFFFFF b1;
          b3 = fold (dashboard_cpu w info) [0..<min (unat (si_cpu_count info)) 8] b2;
          b4 = graphics_draw_string w 10 300 (lit ''MEM:'') 0xFFFFFFFF b3;
          b5 = graphics_fill_rect_buffer w 60 300 150 10 0xFF444444 b4;
          b6 = (if si_total_frames info > 0
                then graphics_fill_rect_buffer w 60 300 (bar_width (si_total_frames info - si_free_frames info) (si_total_frames info)) 10 0xFF00AAFF b5
                else b5)
      in graphics_draw_string w 10 330 (lit (''TASKS: '' @ dashboard_itoa (ucast (si_task_count info)))) 0xFFFFFFFF b6)"

text \<open>The start of the program, and one round of its loop up to the \<open>int 32\<close> of \<open>task_yield\<close>; the delay has no effect.\<close>

definition dashboard_start :: "'a wsys_scheme \<Rightarrow> (u64 \<times> 'a wsys_scheme) option" where
  "dashboard_start s = do {
     (win, s1) \<leftarrow> window_create 700 50 250 400 0xFF222222 s;
     let bytes = (ucast (w_w (wins s1 win) * (w_h (wins s1 win) - 25) * 4) :: u64);
     (buf, s2) \<leftarrow> kmalloc_k bytes s1;
     let s3 = upd_win win (\<lambda>w. w\<lparr>w_buffer := buf\<rparr>) s2;
     Some (win, s3\<lparr>bufs := (bufs s3)(buf := zero_pixels bytes (bufs s3 buf))\<rparr>) }"

definition dashboard_round :: "u64 \<Rightarrow> 'a wsys_scheme \<Rightarrow> effect list \<times> 'a wsys_scheme" where
  "dashboard_round win s =
     (let info = snd (sys_get_sys_info s); w = wins s win;
          s1 = s\<lparr>bufs := (bufs s)(w_buffer w := dashboard_frame (w_w w) (w_h w - 25) info (bufs s (w_buffer w)))\<rparr>
      in sys_yield (window_mark_dirty win s1))"


subsection \<open>The first screen\<close>

lemma type_plain:
  "\<forall>c \<in> set xs. c \<noteq> 0x0A \<and> c \<noteq> 0x08 \<Longrightarrow> length l + length xs < cols \<Longrightarrow>
   fold (type_char cols) xs (as @ [l]) = as @ [l @ xs]"
proof (induction xs arbitrary: l)
  case (Cons x xs)
  then have "type_char cols x (as @ [l]) = as @ [l @ [x]]" by (simp add: type_char_def)
  with Cons.IH [of "l @ [x]"] Cons.prems show ?case by simp
qed simp

lemma prints_type:
  "term_shows s ls \<Longrightarrow> line_live (con s) \<Longrightarrow>
   \<exists>s'. run_all (map shell_print strs) s = Some s' \<and>
     typed s s' (fold (type_char (cols_of s)) (concat (map (takeWhile (\<lambda>c. c \<noteq> 0)) strs)) ls)"
proof (induction strs arbitrary: s ls)
  case Nil
  then show ?case by (simp add: typed_def)
next
  case (Cons str strs)
  obtain s1 where s1: "shell_print str s = Some s1" "typed s s1 (fold (type_char (cols_of s)) (takeWhile (\<lambda>c. c \<noteq> 0) str) ls)"
    using putchars_shows [OF Cons.prems, of "takeWhile (\<lambda>c. c \<noteq> 0) str"] by (auto simp: shell_print_def)
  from Cons.IH [of s1] typed_ok [OF s1(2)] obtain s' where
    "run_all (map shell_print strs) s1 = Some s'"
    "typed s1 s' (fold (type_char (cols_of s1)) (concat (map (takeWhile (\<lambda>c. c \<noteq> 0)) strs)) (fold (type_char (cols_of s)) (takeWhile (\<lambda>c. c \<noteq> 0) str) ls))"
    by blast
  then show ?case using s1 by (auto simp: typed_def)
qed

definition banner :: "u8 list" where "banner = lit ''Zoho OS Interactive Shell''"
definition prompt :: "u8 list" where "prompt = lit ''zoho> ''"

lemma shell_init_types:
  assumes "term_shows s [[]]" and "line_live (con s)" and "cols_of s = 75"
  shows "\<exists>s'. shell_init s = Some s' \<and> typed s s' [[], banner, prompt]"
proof -
  have nz: "takeWhile (\<lambda>c. c \<noteq> 0) banner = banner" "takeWhile (\<lambda>c. c \<noteq> 0) prompt = prompt"
    by (simp_all add: banner_def prompt_def lit_def)
  have plain: "\<forall>c \<in> set banner. c \<noteq> 0x0A \<and> c \<noteq> 0x08" "\<forall>c \<in> set prompt. c \<noteq> 0x0A \<and> c \<noteq> 0x08" "length banner = 25" "length prompt = 6"
    by (simp_all add: banner_def prompt_def lit_def)
  have nl: "type_char 75 0x0A ls = ls @ [[]]" for ls by (simp add: type_char_def)
  have b: "fold (type_char 75) banner [[], []] = [[], banner]" using type_plain [of banner "[]" 75 "[[]]"] plain by simp
  have p: "fold (type_char 75) prompt [[], banner, []] = [[], banner, prompt]" using type_plain [of prompt "[]" 75 "[[], banner]"] plain by simp
  have e: "shell_init s = run_all (map shell_print [[0x0A], banner, [0x0A], prompt]) s"
    by (simp add: shell_init_def banner_def prompt_def)
  show ?thesis using prints_type [OF assms(1,2), of "[[0x0A], banner, [0x0A], prompt]"] unfolding e by (simp add: assms(3) nz nl b p)
qed

text \<open>What the desktop needs on the heap: the record, the pixels and the cells of the window.\<close>

definition DESKTOP_ROOM :: nat where "DESKTOP_ROOM = 903856"

lemma open_terminal_opens:
  fixes s :: "'a shell_scheme"
  assumes inv: "heap_inv (heap s)" and room: "has_room (k + DESKTOP_ROOM) (heap s)" and k: "8 \<le> k" and first: "term_ptr s = 0"
  shows "\<exists>s'. open_terminal s = Some s' \<and> term_shows s' [[]] \<and> con s' = con s \<and> cols_of s' = 75 \<and> netst s' = netst s \<and>
    heap_inv (heap s') \<and> has_room k (heap s')"
proof -
  have sz: "unat (align8 WINDOW_SIZE) = 328" "unat (align8 client_pixels) = 900000" "unat (align8 (ucast (375 div 8 * (600 div 8 :: u32)))) = 3456"
    by (simp_all add: align8_def WINDOW_SIZE_def client_pixels_def)
  define s0 where "s0 = window_init s"
  have f0: "heap s0 = heap s" "con s0 = con s" "term_ptr s0 = 0" "netst s0 = netst s"
    using first by (simp_all add: s0_def window_init_def)
  have r0: "has_room ((k + 903504) + unat (align8 WINDOW_SIZE) + 24) (heap s)"
    by (rule has_room_mono [OF room]) (simp add: sz DESKTOP_ROOM_def)
  obtain win j1 h1 where h1: "kmalloc WINDOW_SIZE (heap s) = Some (win, h1)" "win \<noteq> 0" "heap_inv h1" "has_room (k + 903504) h1"
    by (rule kmalloc_room [OF inv r0]) simp
  obtain s1 where s1: "window_create 50 50 600 400 0xFF333333 s0 = Some (win, s1)" "heap s1 = h1" "w_w (wins s1 win) = 600" "w_h (wins s1 win) = 400"
      "con s1 = con s" "term_ptr s1 = 0" "netst s1 = netst s"
    by (simp add: window_create_def f0 h1(1) upd_win_def Let_def)
  have r1: "has_room ((k + 3480) + unat (align8 client_pixels) + 24) h1" by (rule has_room_mono [OF h1(4)]) (simp add: sz)
  obtain buf j2 h2 where h2: "kmalloc client_pixels h1 = Some (buf, h2)" "buf \<noteq> 0" "heap_inv h2" "has_room (k + 3480) h2"
    by (rule kmalloc_room [OF h1(3) r1]) simp
  define s2 where "s2 = s1\<lparr>heap := h2\<rparr>"
  define s3 where "s3 = upd_win win (\<lambda>w. w\<lparr>w_buffer := buf\<rparr>) s2"
  define s4 where "s4 = s3\<lparr>bufs := (bufs s3)(buf := zero_pixels client_pixels (bufs s3 buf))\<rparr>"
  have run: "open_terminal s = shell_set_window win s4"
    using s1(1,2) by (simp add: open_terminal_def s0_def [symmetric] kmalloc_k_def h2(1) s4_def s3_def s2_def Let_def)
  have f4: "wins s4 win = (wins s1 win)\<lparr>w_buffer := buf\<rparr>" "heap s4 = h2" "con s4 = con s" "term_ptr s4 = 0" "netst s4 = netst s"
    using s1 by (simp_all add: s4_def s3_def s2_def upd_win_def)
  have r4: "has_room (k + unat (align8 (ucast (375 div 8 * (600 div 8 :: u32)))) + 24) (heap s4)"
    unfolding sz f4(2) by (rule has_room_mono [OF h2(4)]) simp
  have "\<exists>s'. shell_set_window win s4 = Some s' \<and> term_shows s' [[]] \<and> shell_window s' = win \<and> con s' = con s4 \<and>
    cols_of s' = unat (600 :: u32) div 8 \<and> netst s' = netst s4 \<and> heap_inv (heap s') \<and> has_room k (heap s')"
    using set_window_blank [of win s4 k] h1(2) h2(2,3) f4 r4 k s1(3,4) by auto
  then show ?thesis by (auto simp: run f4)
qed


lemma net_frame [simp]:
  "term_shows (s\<lparr>netst := n\<rparr>) ls = term_shows s ls"
  by (simp add: term_shows_def lines_show_def grid_ok_def picture_def win_of_def has_buffer_def pixels_of_def)

lemma net_start:
  fixes n :: "'a dhcpsys_scheme"
  defines "n' \<equiv> tcp_init (dhcp_init (net_init n))"
  assumes "card_live n" and "length (mac_addr n) = 6" and "length (my_ip n) = 4"
  shows "card_live n'" "length (my_mac n') = 6" "length (my_ip n') = 4" "mac_addr n' = mac_addr n" "wire n' = wire n"
  using assms by (simp_all add: tcp_init_def dhcp_init_def net_init_def net_udp_bind_def card_live_def e1000_get_mac_def)

text \<open>
  C40. The start of the desktop, from the memory allocator to the wire: with a live serial line, a heap with room, and a
  card, opening the terminal, starting the network and the shell returns; the new window shows the banner and the
  prompt, the heap is well-formed, and exactly one frame, the DHCP DISCOVER broadcast, has gone to the card.
\<close>

theorem boot_desktop_prompts:
  fixes s :: "'a desktop_scheme" and n :: dhcpsys
  defines "n \<equiv> tcp_init (dhcp_init (net_init (netst s)))"
  assumes live: "line_live (con s)" and heap: "heap_inv (heap s)" "has_room (4 * ROOM + DESKTOP_ROOM) (heap s)"
    and first: "term_ptr s = 0"
    and card: "card_live (netst s)" "length (mac_addr (netst s)) = 6" "length (my_ip (netst s)) = 4"
  shows "\<exists>s'. boot_desktop s = Some s' \<and> term_shows s' [[], banner, prompt] \<and> line_live (con s') \<and> heap_inv (heap s') \<and>
    wire (netst s') = wire (netst s) @ [dhcp_frame (dhcp_packet DHCP_BOOTREQUEST (dhcp_xid n) (htons 0x8000) (replicate 4 0)
      (mac_addr (netst s)) [DHCP_OPT_MSG_TYPE, 1, DHCP_MSG_DISCOVER, DHCP_OPT_END]) n]"
proof -
  define s0 where "s0 = s\<lparr>dio := keyboard_init (mouse_init (dio s))\<rparr>"
  have f0: "heap s0 = heap s" "con s0 = con s" "term_ptr s0 = 0" "netst s0 = netst s" using first by (simp_all add: s0_def)
  obtain s1 where s1: "open_terminal s0 = Some s1" "term_shows s1 [[]]" "con s1 = con s" "cols_of s1 = 75" "netst s1 = netst s"
      "heap_inv (heap s1)" "has_room (4 * ROOM) (heap s1)"
    using open_terminal_opens [of s0 "4 * ROOM"] heap f0 by (auto simp: ROOM_def)
  define s2 where "s2 = s1\<lparr>netst := n\<rparr>"
  have "\<exists>s3. shell_init s2 = Some s3 \<and> typed s2 s3 [[], banner, prompt]"
    using s1 live by (intro shell_init_types) (simp_all add: s2_def)
  then obtain s3 where s3: "shell_init s2 = Some s3" "typed s2 s3 [[], banner, prompt]" by blast
  then have f3: "heap s3 = heap s1" "netst s3 = n" "line_live (con s3)" "term_shows s3 [[], banner, prompt]"
    by (simp_all add: typed_def s2_def)
  note c = net_start [OF card, folded n_def]
  have r: "ready (4 * ROOM) (n\<lparr>nheap := heap s1\<rparr>)" using s1(6,7) c by (simp add: ready_def card_live_def)
  obtain n' where n': "dhcp_discover (n\<lparr>nheap := heap s1\<rparr>) = Some n'" "heap_like (heap s1) (nheap n')"
    "wire n' = wire n @ [dhcp_frame (dhcp_packet DHCP_BOOTREQUEST (dhcp_xid n) (htons 0x8000) (replicate 4 0) (mac_addr n)
      [DHCP_OPT_MSG_TYPE, 1, DHCP_MSG_DISCOVER, DHCP_OPT_END]) (n\<lparr>nheap := heap s1\<rparr>)]"
    using dhcp_discover_broadcasts [OF r] c(4) card(2) by auto
  have fr: "dhcp_frame p (n\<lparr>nheap := h\<rparr>) = dhcp_frame p n" for p h
    by (simp add: dhcp_frame_def eth_frame_def ip_packet_def ipv4_header_def)
  define s' where "s' = s3\<lparr>netst := n', heap := nheap n'\<rparr>"
  have "boot_desktop s = Some s'"
    by (simp add: boot_desktop_def s0_def [symmetric] s1(1) s1(5) n_def [symmetric] s2_def [symmetric] s3(1) with_net_def f3 n'(1) s'_def)
  moreover have "heap_inv (nheap n')" using n'(2) by (simp add: heap_like_def)
  ultimately show ?thesis using f3 n'(3) c(4,5) by (intro exI [of _ s']) (simp add: s'_def fr)
qed

definition desktop_demo :: desktop where
  "desktop_demo = shell.extend shell_sys (desktop.fields (demo_input []))"

lemma desktop_demo_fields:
  "con desktop_demo = console0" "heap desktop_demo = heap0" "term_ptr desktop_demo = 0" "netst desktop_demo = dhcp_host (\<lambda>_. 0)"
  by (simp_all add: desktop_demo_def shell_sys_def exec_sys_def window_sys_def demo_wsys_def ksys.defs wsys.defs usys.defs shell.defs desktop.defs)

theorem boot_desktop_prompts_witness:
  "\<exists>s'. boot_desktop desktop_demo = Some s' \<and> term_shows s' [[], banner, prompt] \<and> length (wire (netst s')) = 1"
proof -
  have r: "has_room (4 * ROOM + DESKTOP_ROOM) (heap desktop_demo)"
    by (simp add: has_room_def desktop_demo_fields heap0_blocks ROOM_def DESKTOP_ROOM_def)
  have l: "line_live (con desktop_demo)" "heap_inv (heap desktop_demo)" by (simp_all add: desktop_demo_fields console0_live heap0_inv)
  have "ready (4 * ROOM) (dhcp_host (\<lambda>_. 0))" by (rule dhcp_host_ready)
  then have c: "card_live (netst desktop_demo)" "length (my_ip (netst desktop_demo)) = 4" "length (mac_addr (netst desktop_demo)) = 6"
    by (simp_all add: desktop_demo_fields ready_def)
  show ?thesis using boot_desktop_prompts [OF l r desktop_demo_fields(3) c(1,3,2)] by (auto simp: desktop_demo_fields)
qed

subsection \<open>What the report of an exception says\<close>

text \<open>A text that has gone to the screen and to the serial line.\<close>

definition reports :: "string \<Rightarrow> 'a console_scheme \<Rightarrow> 'a console_scheme \<Rightarrow> bool" where
  "reports str c c' \<longleftrightarrow> (\<exists>n. c' = (vga_print str c)\<lparr>outs := outs c @ map (\<lambda>b. (COM1, of_char b)) str, lsr_reads := n\<rparr>)"

lemma vga_print_ports: "vga_print str (c\<lparr>outs := b, lsr_reads := n\<rparr>) = (vga_print str c)\<lparr>outs := b, lsr_reads := n\<rparr>"
proof -
  have "print_char a (c\<lparr>outs := b, lsr_reads := n\<rparr>) = (print_char a c)\<lparr>outs := b, lsr_reads := n\<rparr>" for a and c :: "'a console_scheme"
    by (simp add: print_char_def print_newline_def Let_def)
  then show ?thesis unfolding vga_print_def by (induction str arbitrary: c) simp_all
qed

lemma reports_sent: "sent str (vga_print str c) c' \<Longrightarrow> reports str c c'"
  using vga_print_frame [of str c] by (auto simp: sent_def reports_def)

lemma reports_live: "reports str c c' \<Longrightarrow> line_live c' = line_live c"
  using vga_print_frame [of str c] by (auto simp: reports_def line_live_def)

lemma reports_trans: "reports a c c1 \<Longrightarrow> reports b c1 c2 \<Longrightarrow> reports (a @ b) c c2"
  by (auto simp: reports_def vga_print_ports vga_print_append)


lemma reports_both: "line_live c \<Longrightarrow> \<exists>c'. serial_print str (vga_print str c) = Some c' \<and> reports str c c'"
proof -
  assume "line_live c"
  then have "line_live (vga_print str c)" using vga_print_frame [of str c] by (simp add: line_live_def)
  from serial_print_locked_sent [OF this, of str] show ?thesis by (auto simp: serial_print_def reports_sent)
qed

definition hex_word :: "u64 \<Rightarrow> string" where "hex_word v = ''0x'' @ hex_digits v"

lemma serial_print_hex_text: "serial_print_hex v c = serial_print_locked (hex_word v) c"
  by (cases "serial_putc CHR ''0'' c") (simp_all add: serial_print_hex_def hex_word_def)

lemma vga_print_hex_text: "vga_print_hex v c = vga_print (hex_word v) c"
  by (simp add: vga_print_hex_def hex_word_def vga_print_def)

lemma panic_reg_reports:
  assumes "line_live c"
  shows "\<exists>c'. panic_reg label v c = Some c' \<and> reports (label @ hex_word v) c c'"
proof -
  let ?d = "vga_print_hex v (vga_print label c)"
  have d: "?d = vga_print (label @ hex_word v) c" by (simp add: vga_print_hex_text vga_print_append)
  have live: "line_live ?d" using assms vga_print_frame [of "label @ hex_word v" c] by (simp add: d line_live_def)
  obtain c1 where c1: "serial_print label ?d = Some c1" "sent label ?d c1"
    using serial_print_locked_sent [OF live, of label] by (auto simp: serial_print_def)
  then have "line_live c1" using live sent_live by blast
  then obtain c2 where c2: "serial_print_hex v c1 = Some c2" "sent (hex_word v) c1 c2"
    using serial_print_locked_sent [of c1 "hex_word v"] by (auto simp: serial_print_hex_text)
  from sent_trans [OF c1(2) c2(2)] have "reports (label @ hex_word v) c c2" unfolding d by (rule reports_sent)
  then show ?thesis using c1(1) c2(1) by (simp add: panic_reg_def)
qed

primrec regs_text :: "(string \<times> u64) list \<Rightarrow> string" where
  "regs_text [] = [CHR 0x0A]"
| "regs_text (r # rs) = (fst r @ hex_word (snd r)) @ regs_text rs"

lemma panic_regs_reports: "line_live c \<Longrightarrow> \<exists>c'. panic_regs rs c = Some c' \<and> reports (regs_text rs) c c'"
proof (induction rs arbitrary: c)
  case Nil
  then show ?case using reports_both [of c "[CHR 0x0A]"] by simp
next
  case (Cons r rs)
  obtain c1 where c1: "panic_reg (fst r) (snd r) c = Some c1" "reports (fst r @ hex_word (snd r)) c c1"
    using panic_reg_reports [OF Cons.prems] by blast
  have "line_live c1" using reports_live [OF c1(2)] Cons.prems by blast
  from Cons.IH [OF this] c1 show ?case using reports_trans [OF c1(2)] by auto
qed

lemma panic_lines_report:
  "line_live c \<Longrightarrow> \<exists>c'. fold (\<lambda>rs r. Option.bind r (panic_regs rs)) rss (Some c) = Some c' \<and> reports (concat (map regs_text rss)) c c'"
proof (induction rss arbitrary: c)
  case Nil
  show ?case by (auto simp: reports_def vga_print_def intro: exI [of _ "lsr_reads c"])
next
  case (Cons rs rss)
  obtain c1 where c1: "panic_regs rs c = Some c1" "reports (regs_text rs) c c1" using panic_regs_reports [OF Cons.prems] by blast
  have "line_live c1" using reports_live [OF c1(2)] Cons.prems by blast
  from Cons.IH [OF this] c1 show ?case using reports_trans [OF c1(2)] by auto
qed

definition panic_text :: "pmem \<Rightarrow> u64 \<Rightarrow> string" where
  "panic_text m f = (panic_title @ exception_messages ! unat (frame_int_no m f) @ [CHR 0x0A]) @ concat (map regs_text (panic_lines m f))"

text \<open>
  The report of an exception in the kernel returns on a live serial line, and the screen and the line have then got the
  same text: the name of the exception and the twelve registers of the frame in hexadecimal.
\<close>

theorem panic_screen_reports:
  assumes live: "line_live c"
  shows "\<exists>c'. panic_screen m f c = Some c' \<and> reports (panic_text m f) c c'"
proof -
  let ?msg = "exception_messages ! unat (frame_int_no m f)"
  let ?d = "vga_print [CHR 0x0A] (vga_print ?msg (vga_print panic_title c))"
  have d: "?d = vga_print (panic_title @ ?msg @ [CHR 0x0A]) c" by (simp add: vga_print_append)
  have ld: "line_live ?d" using live vga_print_frame [of "panic_title @ ?msg @ [CHR 0x0A]" c] by (simp add: d line_live_def)
  obtain c1 where c1: "serial_print panic_title ?d = Some c1" "sent panic_title ?d c1"
    using serial_print_locked_sent [OF ld, of panic_title] by (auto simp: serial_print_def)
  then have l1: "line_live c1" using ld sent_live by blast
  obtain c2 where c2: "serial_print ?msg c1 = Some c2" "sent ?msg c1 c2"
    using serial_print_locked_sent [OF l1, of ?msg] by (auto simp: serial_print_def)
  then have l2: "line_live c2" using l1 sent_live by blast
  obtain c3 where c3: "serial_print [CHR 0x0A] c2 = Some c3" "sent [CHR 0x0A] c2 c3"
    using serial_print_locked_sent [OF l2, of "[CHR 0x0A]"] by (auto simp: serial_print_def)
  have "sent (panic_title @ ?msg @ [CHR 0x0A]) ?d c3" using c1(2) c2(2) c3(2) by (meson sent_trans)
  then have h: "reports (panic_title @ ?msg @ [CHR 0x0A]) c c3" unfolding d by (rule reports_sent)
  have "line_live c3" using reports_live [OF h] live by blast
  from panic_lines_report [OF this, of "panic_lines m f"] obtain c4 where
    c4: "fold (\<lambda>rs r. Option.bind r (panic_regs rs)) (panic_lines m f) (Some c3) = Some c4"
    "reports (concat (map regs_text (panic_lines m f))) c3 c4" by blast
  have "panic_screen m f c = Some c4"
    unfolding panic_screen_def Let_def c1(1) bind.bind_lunit c2(1) c3(1) by (rule c4(1))
  then show ?thesis using reports_trans [OF h c4(2)] by (simp add: panic_text_def)
qed

subsection \<open>The numbers of the system monitor\<close>

lemma swap_steps:
  "k \<le> length s div 2 \<Longrightarrow> length (fold swap_step [0..<k] s) = length s \<and>
   (\<forall>i < length s. fold swap_step [0..<k] s ! i = (if i < k \<or> length s - k \<le> i then s ! (length s - 1 - i) else s ! i))"
proof (induction k)
  case (Suc k)
  define t where "t = fold swap_step [0..<k] s"
  have t: "length t = length s" "\<And>i. i < length s \<Longrightarrow> t ! i = (if i < k \<or> length s - k \<le> i then s ! (length s - 1 - i) else s ! i)"
    using Suc by (simp_all add: t_def)
  have k: "k < length s - k - 1" "length s - k - 1 < length s" using Suc.prems by linarith+
  have e: "fold swap_step [0..<Suc k] s = t[k := t ! (length s - k - 1), length s - k - 1 := t ! k]"
    by (simp add: t_def [symmetric] swap_step_def t(1))
  have v: "t ! (length s - k - 1) = s ! (length s - k - 1)" "t ! k = s ! k"
  proof -
    have "\<not> (length s - k - 1 < k \<or> length s - k \<le> length s - k - 1)" "\<not> (k < k \<or> length s - k \<le> k)" "k < length s"
      using k by linarith+
    then show "t ! (length s - k - 1) = s ! (length s - k - 1)" "t ! k = s ! k" using t(2) k(2) by (simp_all only: if_False)
  qed
  show ?case
  proof (intro conjI allI impI)
    show "length (fold swap_step [0..<Suc k] s) = length s" unfolding e by (simp add: t(1))
    fix i assume i: "i < length s"
    consider "i = k" | "i = length s - k - 1" | "i \<noteq> k" "i \<noteq> length s - k - 1" by blast
    then show "fold swap_step [0..<Suc k] s ! i = (if i < Suc k \<or> length s - Suc k \<le> i then s ! (length s - 1 - i) else s ! i)"
    proof cases
      case 1
      have "length s - 1 - k = length s - k - 1" by simp
      then show ?thesis unfolding e using 1 k v t(1) by simp
    next
      case 2
      have "length s - 1 - (length s - k - 1) = k" using k by linarith
      then show ?thesis unfolding e using 2 k v t(1) by simp
    next
      case 3
      then have "fold swap_step [0..<Suc k] s ! i = t ! i" unfolding e by simp
      moreover have "(i < Suc k \<or> length s - Suc k \<le> i) = (i < k \<or> length s - k \<le> i)" using 3 i by linarith
      ultimately show ?thesis using t(2) [OF i] by simp
    qed
  qed
qed simp

lemma swaps_reverse: "fold swap_step [0..<length s div 2] s = rev s"
proof (rule nth_equalityI)
  show "length (fold swap_step [0..<length s div 2] s) = length (rev s)" using swap_steps [of "length s div 2" s] by simp
  fix i assume "i < length (fold swap_step [0..<length s div 2] s)"
  then have i: "i < length s" using swap_steps [of "length s div 2" s] by simp
  have "fold swap_step [0..<length s div 2] s ! i = (if i < length s div 2 \<or> length s - length s div 2 \<le> i then s ! (length s - 1 - i) else s ! i)"
    using swap_steps [of "length s div 2" s] i by simp
  moreover have "\<not> (i < length s div 2 \<or> length s - length s div 2 \<le> i) \<Longrightarrow> length s - 1 - i = i" using i by linarith
  ultimately have "fold swap_step [0..<length s div 2] s ! i = s ! (length s - 1 - i)" by auto
  also have "\<dots> = rev s ! i" using i by (simp add: rev_nth)
  finally show "fold swap_step [0..<length s div 2] s ! i = rev s ! i" .
qed

text \<open>
  The monitor's own number printer agrees with the one of the kernel's library, and a bar is never wider than its
  background of 150 pixels; when the product does not overflow it is the proportion, rounded down.
\<close>

theorem dashboard_numbers:
  "itoa n 10 = Some (dashboard_itoa n) \<and> bar_width part whole \<le> 150 \<and>
   (unat part \<le> unat whole \<and> whole \<noteq> 0 \<and> unat part * 150 < 2 ^ 64 \<longrightarrow> unat (bar_width part whole) = unat part * 150 div unat whole)"
proof (intro conjI impI)
  have "dashboard_itoa n = rev (if n = 0 then [CHR ''0''] else dec_loop n)"
    unfolding dashboard_itoa_def Let_def by (rule swaps_reverse)
  then show "itoa n 10 = Some (dashboard_itoa n)"
    by (auto simp: itoa_def itoa_loop_digits dec_loop_digits)
  show "bar_width part whole \<le> 150" by (simp add: bar_width_def Let_def not_less)
  assume a: "unat part \<le> unat whole \<and> whole \<noteq> 0 \<and> unat part * 150 < 2 ^ 64"
  then have m: "unat (part * 150) = unat part * 150" using unat_mult_lem [of part 150] by simp
  have w: "0 < unat whole" using a by (simp add: unat_gt_0)
  have "unat part * 150 div unat whole \<le> 150"
    using a w div_le_mono [of "unat part * 150" "unat whole * 150" "unat whole"] by simp
  moreover have "unat (part * 150 div whole) = unat part * 150 div unat whole" by (simp add: unat_div m)
  ultimately show "unat (bar_width part whole) = unat part * 150 div unat whole"
    by (simp add: bar_width_def Let_def word_less_nat_alt unsigned_ucast_eq take_bit_nat_eq_self)
qed

theorem dashboard_numbers_witness:
  "itoa 1024 10 = Some (dashboard_itoa 1024) \<and> unat (bar_width 3 4) = 112"
  using dashboard_numbers [of 1024 3 4] by simp

end
