(* ===== verification/Spec2Isabelle.thy ===== *)
theory Spec2Isabelle
  imports Prelude Interfaces Lock Printf Console Pmm Kmalloc Vmm Kstring Elf Task Sched Graphics Window Heap_Clients E1000 Net Tcp Dhcp Ata Tar Vfs Input Idt Acpi Platform Timers Smp Ext2 Syscall Terminal Shell Desktop
begin

text \<open>
  A verification library for the zoho-os kernel (x86-64, C), a small multitasking kernel with a desktop, a shell,
  a network stack and two file systems.

  \<^bold>\<open>The program and its parts.\<close> \<open>src/kernel/main.c\<close> starts the components one after the other and then polls the
  serial port and the network card and redraws the desktop for ever; everything else happens in interrupts. Memory
  comes from the frame allocator (pmm.c), on which the page tables (vmm.c) and the heap (kmalloc.c) stand. Tasks
  (task.c) live on the heap, have a page table each and are switched by the timer interrupt (idt.c, pit.c, apic.c).
  User programs come from the archive (tar.c, vfs.c) on the disk (ata.c) through the ELF loader (elf.c), and call
  the kernel through syscall.c; their windows (window.c) are drawn into a back buffer (graphics.c). Frames of the
  card (e1000.c) go through net.c to the TCP and DHCP clients. The shell (shell.c) reads keys from the keyboard and
  the serial port and reaches all of it.

  \<^bold>\<open>Theories.\<close> One theory per component, in the order of the calls; each opens with what it models.
  \<^item> \<open>Prelude\<close>: collections of hints, lemmas on lists, words and bytes. \<open>Interfaces\<close>: the contracts of an allocator of
    frames, of a heap and of the scheduler's queue as locales; the theories of the providers interpret them on the code's model.
  \<^item> \<open>Lock\<close> (lock.c), \<open>Printf\<close> (printf.c), \<open>Console\<close> (vga.c, serial.c, tty.c, klog.c), \<open>Kstring\<close> (string.c).
  \<^item> \<open>Pmm\<close> (pmm.c), \<open>Kmalloc\<close> and \<open>Heap_Clients\<close> (kmalloc.c and what its callers need), \<open>Vmm\<close> (vmm.c), \<open>Elf\<close> (elf.c).
  \<^item> \<open>Task\<close> and \<open>Sched\<close> (task.c), \<open>Idt\<close> (idt.c), \<open>Timers\<close> (pit.c, apic.c, kstats.c, ktrace.c), \<open>Smp\<close> (cpu.c, smp.c).
  \<^item> \<open>Graphics\<close> (graphics.c), \<open>Window\<close> (window.c), \<open>Input\<close> (mouse.c, keyboard.c, the PIC).
  \<^item> \<open>E1000\<close> (the rings of e1000.c), \<open>Net\<close>, \<open>Tcp\<close>, \<open>Dhcp\<close>; \<open>Platform\<close> (gdt.c, pci.c, the set-up of e1000.c), \<open>Acpi\<close> (acpi.c).
  \<^item> \<open>Ata\<close>, \<open>Tar\<close>, \<open>Vfs\<close>, \<open>Ext2\<close>: the disk, the archive, the descriptors, the second file system.
  \<^item> \<open>Syscall\<close> (syscall.c and \<open>task_exec_file\<close>), \<open>Terminal\<close> and \<open>Shell\<close> (shell.c), \<open>Desktop\<close> (the composition in main.c,
    the panic report of idt.c, dashboard.c).

  \<^bold>\<open>How state and operations correspond.\<close> The file-scope variables of a component are the fields of a record, and a
  component that works on the state of others extends their record: \<open>ksys\<close> (tasks, heap, page tables) is extended by
  \<open>wsys\<close> (windows), \<open>usys\<close> (files, console), \<open>shell\<close> (terminal, network) and \<open>desktop\<close>, and on another branch by \<open>intr\<close>,
  \<open>machine\<close> and \<open>smp\<close>; \<open>nic\<close> by \<open>net\<close>, \<open>tcpsys\<close> and \<open>dhcpsys\<close>; \<open>drive\<close> by \<open>tardisk\<close> and \<open>vfs\<close>. The network
  keeps its own reference to the heap (\<open>nheap\<close>), which \<open>with_net\<close> of the shell identifies with the kernel's. A function of
  the source is a definition of the same name that takes and returns the record. Integers have the width they have in C.
  A result of type \<open>option\<close> is \<open>None\<close> where the C code does not return, or leaves its objects (a write outside a buffer, a
  null pointer); error codes of the source stay values. Pointers are 64-bit words, objects behind them functions from
  addresses; page tables and ELF images lie in one physical memory (\<open>pmem\<close>). A critical section under a lock is one
  step, which \<open>Lock\<close> justifies (\<open>critical_sections_serialise\<close>); \<open>Sched\<close> also splits \<open>task_schedule\<close> where the code
  releases the lock (\<open>sched_step\<close>).

  \<^bold>\<open>What the outside world does is an input.\<close> Tapes that reads consume: \<open>lsr\<close> (serial line status), \<open>in_tape\<close> (PS/2
  ports), \<open>ata_status\<close>, \<open>done_reads\<close> and \<open>arrivals\<close> (network card), \<open>ticks_at\<close>, \<open>tsc_reads\<close> and \<open>timer_irqs\<close> (time),
  \<open>cfg_space\<close> and \<open>reg_tape\<close> (PCI and card registers), \<open>started_reads\<close> (other processors). Contents the code does not
  define: \<open>stack_bytes\<close> and \<open>garbage\<close> (fresh buffers), \<open>umem\<close> (the memory of a caller). What is written to devices is recorded
  (\<open>outs\<close>, \<open>out_log\<close>, \<open>regs\<close>, \<open>wire\<close>, \<open>mmio_out\<close>). A property that needs a device to work says so: \<open>line_live\<close>,
  \<open>card_live\<close>, \<open>in_order\<close>; the witnesses show devices that satisfy it.

  \<^bold>\<open>What the lemmas show.\<close>
  \<^item> Memory: frames are handed out once (\<open>held_frame_not_reissued\<close>); the heap refines a list of blocks, never overlaps and
    accounts for everything (\<open>kmalloc_first_fit\<close>, \<open>kmalloc_disjoint\<close>, \<open>kfree_refines\<close>, \<open>heap_history_accounted\<close>); mapping and
    unmapping change exactly one page of the translation \<open>mmu\<close>, against which the software walk is proved.
  \<^item> Tasks: \<open>task_schedule\<close> returns and refines an abstract scheduler, which gives every runnable task its turn; the
    race between two processors at the hand-over of a stack is exhibited; faults of user code end only that task,
    copy-on-write keeps pages private, an ended task never runs again.
  \<^item> Desktop: a redraw brings exactly the dirty pixels up to date, destroying windows frees exactly the right memory, the
    mouse stays on the screen, and the terminal (cells and pixels) refines a list of lines.
  \<^item> Network: datagrams make a round trip, segments refine the client's state machine, the DHCP exchange gives a lease.
  \<^item> Files: opening and reading give exactly the contents, writing changes exactly the bytes of the file, scans of any disk end.
  \<^item> The whole: running a file, \<open>cat\<close> in the shell, the line editor, and the start of the desktop up to the first frame
    on the wire are proved through all the layers below them.

  \<^bold>\<open>Bounds and fuel.\<close> Loops with a counter in the source recurse over that counter (polling the PS/2 controller 100000
  times, the drive 1000000 times); scans over the archive end because a position grows up to 20000 sectors behind its start. Loops
  that follow pointers or data are \<open>partial_function\<close>s, with proofs that they end on the states the code builds. Two loops
  have fuel, because a handler inside them may start them again: \<open>e1000_drain\<close> and the wait for an ARP reply
  (\<open>arp_wait\<close>); lemmas show that enough fuel exists and that the result does not lack any.

  \<^bold>\<open>Not modelled.\<close> The boot code, the interrupt and system call entries and the start-up code of the other processors
  (assembly); the first part of \<open>kmain\<close>, a list of calls of initialisers that are modelled one by one but work on records kept
  apart here; the demonstration program gui_app.c and the user programs under \<open>src/apps\<close>; xhci.c, a stub; core/elf.c, which is not
  compiled. Left out of what is modelled: most log messages, delay loops, TLB flushes, and simultaneous
  execution other than that of \<open>Lock\<close> and \<open>sched_step\<close>.
\<close>

end
